(* ===== verification/Prelude.thy ===== *)
theory Prelude
  imports Main "HOL-Library.Word" "HOL-Library.Monad_Syntax"
begin

text \<open>
  Shared vocabulary of the development: the machine types of the Rust sources, the reading of
  panics as \<^const>\<open>None\<close>, and the generic facts on bits, words, lists and folds that the component
  theories use.

  Conventions.  A \<^verbatim>\<open>u32\<close> or \<^verbatim>\<open>u64\<close> is a word of that width.  A \<^verbatim>\<open>usize\<close> that
  counts or indexes something in memory is a \<^typ>\<open>nat\<close>; where the source computes on it with
  wrap-around, the modulus is written out.  A function that can panic returns an option, and
  \<^const>\<open>None\<close> is the panic (failed \<^verbatim>\<open>assert!\<close>, \<^verbatim>\<open>expect\<close>, index out of range,
  arithmetic overflow); assertions are those of a build with \<^verbatim>\<open>debug_assertions\<close>.
\<close>

unbundle bit_operations_syntax

type_synonym u8 = "8 word"
type_synonym u16 = "16 word"
type_synonym u32 = "32 word"
type_synonym u64 = "64 word"

text \<open>A half-open \<^verbatim>\<open>Range<usize>\<close>, as its two bounds.\<close>
type_synonym bit_range = "nat \<times> nat"

named_theorems bits_simps \<open>pointwise characterisations of bit-level operations\<close>
named_theorems panic_simps \<open>when an operation returns and when it panics\<close>
named_theorems inv_intros \<open>preservation of the components' invariants\<close>

subsection \<open>Panics\<close>

text \<open>\<^verbatim>\<open>assert!(b)\<close> followed by the rest of the block.\<close>

definition assert_then :: "bool \<Rightarrow> 'a option \<Rightarrow> 'a option" where
  "assert_then b k = (if b then k else None)"

lemma assert_then_simps [simp, panic_simps]:
  "assert_then True k = k"
  "assert_then False k = None"
  by (simp_all add: assert_then_def)

lemma assert_then_eq_Some [panic_simps]:
  "assert_then b k = Some x \<longleftrightarrow> b \<and> k = Some x"
  by (simp add: assert_then_def)

text \<open>Indexing \<^verbatim>\<open>xs[i]\<close>, which panics out of range, and \<^verbatim>\<open>xs.get(i)\<close>.\<close>

definition index :: "'a list \<Rightarrow> nat \<Rightarrow> 'a option" where
  "index xs i = (if i < length xs then Some (xs ! i) else None)"

lemma index_simps [simp]:
  "i < length xs \<Longrightarrow> index xs i = Some (xs ! i)"
  "\<not> i < length xs \<Longrightarrow> index xs i = None"
  by (simp_all add: index_def)

lemma index_eq_Some [panic_simps]:
  "index xs i = Some x \<longleftrightarrow> i < length xs \<and> xs ! i = x"
  by (auto simp: index_def)

lemma index_eq_None [panic_simps]:
  "index xs i = None \<longleftrightarrow> length xs \<le> i"
  by (auto simp: index_def)

text \<open>\<^verbatim>\<open>xs[i] = v\<close>, which panics out of range.\<close>

definition store :: "'a list \<Rightarrow> nat \<Rightarrow> 'a \<Rightarrow> 'a list option" where
  "store xs i v = (if i < length xs then Some (xs[i := v]) else None)"

lemma store_simps [simp]:
  "i < length xs \<Longrightarrow> store xs i v = Some (xs[i := v])"
  "\<not> i < length xs \<Longrightarrow> store xs i v = None"
  by (simp_all add: store_def)

subsection \<open>Bits of words\<close>

text \<open>
  \<^verbatim>\<open>w & (1 << i) != 0\<close> tests bit \<^term>\<open>i\<close>; the simplifier reads \<^verbatim>\<open>1 << i\<close> as a power
  of two.
\<close>

lemma test_bit_mask [simp, bits_simps]:
  "(w AND 2 ^ i = 0) \<longleftrightarrow> \<not> bit w i" for w :: "'a::len word"
  using bit_iff_and_push_bit_not_eq_0 [of w i] by (simp add: push_bit_of_1)

lemma bit_pow2 [simp, bits_simps]:
  "bit (2 ^ i :: 'a::len word) j \<longleftrightarrow> i = j \<and> j < LENGTH('a)"
  by (auto simp: bit_simps)

lemma take_bit_le_mask:
  "v \<le> 2 ^ n - 1 \<Longrightarrow> take_bit n v = v" for v :: "'a::len word"
proof -
  assume "v \<le> 2 ^ n - 1"
  then have "uint v \<le> uint (mask n :: 'a word)"
    by (simp add: word_le_def mask_eq_exp_minus_1)
  also have "\<dots> \<le> mask n"
    unfolding uint_mask_eq unfolding mask_eq_exp_minus_1
    by (intro diff_right_mono power_increasing) auto
  finally have "uint v < 2 ^ n" by (simp add: mask_eq_exp_minus_1)
  then show ?thesis by (simp add: take_bit_eq_mask mask_eq_iff)
qed

lemma take_bit_beyond: "LENGTH('a) \<le> n \<Longrightarrow> take_bit n v = v" for v :: "'a::len word"
  by (rule bit_word_eqI) (auto simp: bit_simps)

lemma word_nonzero_iff: "v \<noteq> 0 \<longleftrightarrow> (\<exists>n. bit v n)" for v :: "'a::len word"
  by (auto simp: bit_eq_iff [of v 0] dest: bit_imp_le_length)

text \<open>\<^verbatim>\<open>count_ones\<close>, \<^verbatim>\<open>trailing_zeros\<close> and \<^verbatim>\<open>leading_zeros\<close> of the primitive integers.\<close>

definition count_ones :: "'a::len word \<Rightarrow> nat" where
  "count_ones w = length (filter (bit w) [0..<LENGTH('a)])"

definition trailing_zeros :: "'a::len word \<Rightarrow> nat" where
  "trailing_zeros w = length (takeWhile (\<lambda>i. \<not> bit w i) [0..<LENGTH('a)])"

definition leading_zeros :: "'a::len word \<Rightarrow> nat" where
  "leading_zeros w = length (takeWhile (\<lambda>i. \<not> bit w i) (rev [0..<LENGTH('a)]))"

lemma count_ones_card: "count_ones w = card {j. j < LENGTH('a) \<and> bit w j}" for w :: "'a::len word"
  by (simp add: count_ones_def flip: distinct_card)

lemma trailing_zeros_props:
  fixes w :: "'a::len word"
  assumes "w \<noteq> 0"
  shows "bit w (trailing_zeros w)" and "trailing_zeros w < LENGTH('a)" and "\<forall>j < trailing_zeros w. \<not> bit w j"
proof -
  let ?tw = "takeWhile (\<lambda>i. \<not> bit w i) [0..<LENGTH('a)]"
  from assms obtain n where n: "bit w n" by (auto simp: word_nonzero_iff)
  then have "n < LENGTH('a)" by (rule bit_imp_le_length)
  have lt: "length ?tw < LENGTH('a)"
  proof (rule ccontr)
    assume "\<not> length ?tw < LENGTH('a)"
    then have "?tw = [0..<LENGTH('a)]"
      by (metis length_takeWhile_le length_upt le_neq_implies_less diff_zero takeWhile_eq_take take_all not_le)
    then have "\<forall>x\<in>set [0..<LENGTH('a)]. \<not> bit w x" by (simp only: takeWhile_eq_all_conv)
    with n \<open>n < LENGTH('a)\<close> show False by auto
  qed
  show "trailing_zeros w < LENGTH('a)" using lt by (simp add: trailing_zeros_def)
  show "bit w (trailing_zeros w)"
    using nth_length_takeWhile [of "\<lambda>i. \<not> bit w i" "[0..<LENGTH('a)]"] lt by (simp add: trailing_zeros_def)
  show "\<forall>j < trailing_zeros w. \<not> bit w j"
  proof (intro allI impI)
    fix j assume j: "j < trailing_zeros w"
    then have "?tw ! j \<in> set ?tw" by (simp add: trailing_zeros_def)
    moreover have "?tw ! j = j" using j lt by (simp add: takeWhile_nth trailing_zeros_def)
    ultimately show "\<not> bit w j" by (metis (mono_tags, lifting) set_takeWhileD)
  qed
qed

text \<open>\<^verbatim>\<open>w & (w - 1)\<close> clears the lowest set bit.\<close>

lemma clear_lowest_bit:
  fixes w :: "'a::len word"
  assumes "bit w k" and "\<forall>j<k. \<not> bit w j"
  shows "bit (w AND (w - 1)) j \<longleftrightarrow> bit w j \<and> j \<noteq> k"
proof -
  let ?u = "unset_bit k w"
  have k: "k < LENGTH('a)" using assms(1) by (rule bit_imp_le_length)
  have "w = ?u OR 2 ^ k"
    by (rule bit_word_eqI) (use assms k in \<open>auto simp: bit_simps\<close>)
  also have "\<dots> = ?u + 2 ^ k"
    by (rule disjunctive_add [symmetric]) (auto simp: bit_simps)
  finally have "w - 1 = ?u + mask k"
    by (simp add: mask_eq_exp_minus_1 algebra_simps)
  also have "\<dots> = ?u OR mask k"
    by (rule disjunctive_add) (use assms(2) in \<open>auto simp: bit_simps\<close>)
  finally show ?thesis using assms(2) k by (auto simp: bit_simps dest: bit_imp_le_length)
qed

lemma unat_bound: "unat x < 2 ^ LENGTH('a)" for x :: "'a::len word"
  by (rule unsigned_less)

lemma unat_neg_of_nat:
  assumes "0 < m" and "m < 2 ^ LENGTH('a)"
  shows "unat (- word_of_nat m :: 'a::len word) = 2 ^ LENGTH('a) - m"
proof -
  have "(word_of_nat (2 ^ LENGTH('a) - m) :: 'a word) = word_of_nat (2 ^ LENGTH('a)) - word_of_nat m"
    using assms(2) by (simp add: of_nat_diff del: of_nat_power)
  also have "(word_of_nat (2 ^ LENGTH('a)) :: 'a word) = 0" by simp
  finally have "(- word_of_nat m :: 'a word) = word_of_nat (2 ^ LENGTH('a) - m)" by simp
  then have "unat (- word_of_nat m :: 'a word) = unat (word_of_nat (2 ^ LENGTH('a) - m) :: 'a word)"
    by (rule arg_cong)
  also have "\<dots> = (2 ^ LENGTH('a) - m) mod 2 ^ LENGTH('a)" by (rule unat_of_nat)
  finally show ?thesis using assms by simp
qed

text \<open>Small values occupy the low bits only.\<close>

lemma bit_small: "w < 2 ^ n \<Longrightarrow> bit w j \<Longrightarrow> j < n" for w :: "'a::len word"
proof -
  assume w: "w < 2 ^ n" and b: "bit w j"
  show "j < n"
  proof (cases "n < LENGTH('a)")
    case True
    with w have "take_bit n w = w" by (simp add: less_mask_eq take_bit_eq_mask)
    with b show ?thesis by (metis bit_take_bit_iff)
  next
    case False
    with b show ?thesis using bit_imp_le_length by fastforce
  qed
qed

subsection \<open>Folds over index ranges\<close>

text \<open>
  The loops \<^verbatim>\<open>for i in 0..n\<close> are folds over \<^term>\<open>[0..<n]\<close>.  An invariant indexed by the
  number of iterations done carries over to the whole loop.
\<close>

lemma fold_upt_induct [case_names zero step]:
  assumes "P 0 s" and "\<And>i s. i < n \<Longrightarrow> P i s \<Longrightarrow> P (Suc i) (f i s)"
  shows "P n (fold f [0..<n] s)"
  using assms
proof (induction n)
  case (Suc n)
  then have "P n (fold f [0..<n] s)" by simp
  with Suc.prems(2) [of n] show ?case by simp
qed simp

lemma fold_preserves:
  assumes "P s" and "\<And>x s. x \<in> set xs \<Longrightarrow> P s \<Longrightarrow> P (f x s)"
  shows "P (fold f xs s)"
  using assms by (induction xs arbitrary: s) auto

subsection \<open>Loops that may panic\<close>

text \<open>\<^verbatim>\<open>for x in xs { s = f(x, s) }\<close> where the body may panic.\<close>

fun foldM :: "('a \<Rightarrow> 's \<Rightarrow> 's option) \<Rightarrow> 'a list \<Rightarrow> 's \<Rightarrow> 's option" where
  "foldM f [] s = Some s"
| "foldM f (x # xs) s = (case f x s of None \<Rightarrow> None | Some s' \<Rightarrow> foldM f xs s')"

lemma foldM_append:
  "foldM f (xs @ ys) s = (case foldM f xs s of None \<Rightarrow> None | Some s' \<Rightarrow> foldM f ys s')"
  by (induction xs arbitrary: s) (auto split: option.splits)

lemma foldM_cong [fundef_cong]:
  assumes "xs = ys" and "s = t" and "\<And>x s. x \<in> set ys \<Longrightarrow> f x s = g x s"
  shows "foldM f xs s = foldM g ys t"
  using assms(3) unfolding assms(1,2) by (induction ys arbitrary: t) (auto split: option.splits)

lemma foldM_invariant:
  assumes "foldM f xs s = Some s'" and "P s"
    and "\<And>x s s'. x \<in> set xs \<Longrightarrow> P s \<Longrightarrow> f x s = Some s' \<Longrightarrow> P s'"
  shows "P s'"
  using assms
proof (induction xs arbitrary: s)
  case (Cons x xs)
  then obtain s1 where "f x s = Some s1" "foldM f xs s1 = Some s'"
    by (auto split: option.splits)
  with Cons.prems Cons.IH [of s1] show ?case by (metis list.set_intros)
qed simp

lemma foldM_total:
  assumes "P s" and "\<And>x s. x \<in> set xs \<Longrightarrow> P s \<Longrightarrow> \<exists>s'. f x s = Some s' \<and> P s'"
  shows "\<exists>s'. foldM f xs s = Some s' \<and> P s'"
  using assms
proof (induction xs arbitrary: s)
  case (Cons x xs)
  then obtain s1 where "f x s = Some s1" "P s1" by (metis list.set_intros(1))
  with Cons show ?case by auto
qed simp

lemma foldM_upt:
  assumes "P 0 s" and "\<And>i s. i < n \<Longrightarrow> P i s \<Longrightarrow> \<exists>s'. f i s = Some s' \<and> P (Suc i) s'"
  shows "\<exists>s'. foldM f [0..<n] s = Some s' \<and> P n s'"
  using assms(2)
proof (induction n)
  case (Suc n)
  then obtain s1 where "foldM f [0..<n] s = Some s1" "P n s1" by auto
  with Suc.prems [of n s1] show ?case by (auto simp: foldM_append)
qed (simp add: assms(1))

lemma foldM_nth:
  assumes "P 0 s" and "\<And>i s. i < length xs \<Longrightarrow> P i s \<Longrightarrow> \<exists>s'. f (xs ! i) s = Some s' \<and> P (Suc i) s'"
  shows "\<exists>s'. foldM f xs s = Some s' \<and> P (length xs) s'"
  using assms(2)
proof (induction xs rule: rev_induct)
  case (snoc x xs)
  have "\<exists>s'. foldM f xs s = Some s' \<and> P (length xs) s'"
  proof (rule snoc.IH)
    fix i s assume "i < length xs" "P i s"
    then show "\<exists>s'. f (xs ! i) s = Some s' \<and> P (Suc i) s'" using snoc.prems [of i s] by (simp add: nth_append)
  qed
  then obtain s1 where "foldM f xs s = Some s1" "P (length xs) s1" by blast
  with snoc.prems [of "length xs" s1] show ?case by (auto simp: foldM_append)
qed (simp add: assms(1))

lemma foldM_unchanged: "(\<And>x. x \<in> set xs \<Longrightarrow> f x s = Some s) \<Longrightarrow> foldM f xs s = Some s"
  by (induction xs) auto

lemma foldM_concat: "foldM (\<lambda>x s. foldM f (g x) s) xs s = foldM f (concat (map g xs)) s"
  by (induction xs arbitrary: s) (auto simp: foldM_append split: option.splits)

end
