(* ===== verification/BitView.thy ===== *)
theory BitView
  imports Prelude
begin

text \<open>
  The crate \<^verbatim>\<open>coral-reef-bitview\<close>: bit-level field access over \<^verbatim>\<open>[u32]\<close> buffers, the
  layer every instruction encoder writes through.  The two traits \<^verbatim>\<open>BitViewable\<close> and
  \<^verbatim>\<open>BitMutViewable\<close> are the locale \<^verbatim>\<open>bit_view\<close>; their default methods are definitions
  over the required methods, passed as arguments; the locale is interpreted on word slices, on a
  single word and on the subset view.
\<close>

subsection \<open>The core loops on word slices\<close>

definition get_bit_step :: "u32 list \<Rightarrow> nat \<Rightarrow> nat \<Rightarrow> u64 \<Rightarrow> u64" where
  "get_bit_step words start i result =
     (let pos = start + i; word_idx = pos div 32; bit_idx = pos mod 32 in
      if word_idx < length words
      then if (words ! word_idx) AND push_bit bit_idx 1 \<noteq> 0
           then result OR push_bit i 1 else result
      else result)"

definition u32_slice_get_bit_range :: "u32 list \<Rightarrow> bit_range \<Rightarrow> u64 option" where
  "u32_slice_get_bit_range words rng =
     (case rng of (start, stop) \<Rightarrow>
      if \<not> start < stop then Some 0
      else let width = stop - start in
        if \<not> width \<le> 64 then None
        else Some (fold (get_bit_step words start) [0..<width] 0))"

definition set_bit_step :: "u64 \<Rightarrow> nat \<Rightarrow> nat \<Rightarrow> u32 list \<Rightarrow> u32 list" where
  "set_bit_step val start i words =
     (let pos = start + i; word_idx = pos div 32; bit_idx = pos mod 32 in
      if word_idx < length words
      then if val AND push_bit i 1 \<noteq> 0
           then words[word_idx := (words ! word_idx) OR push_bit bit_idx 1]
           else words[word_idx := (words ! word_idx) AND NOT (push_bit bit_idx 1)]
      else words)"

definition u32_slice_set_bit_range :: "u32 list \<Rightarrow> bit_range \<Rightarrow> u64 \<Rightarrow> u32 list option" where
  "u32_slice_set_bit_range words rng val =
     (case rng of (start, stop) \<Rightarrow>
      if \<not> start < stop then Some words
      else let width = stop - start in
        if \<not> width \<le> 64 then None
        else Some (fold (set_bit_step val start) [0..<width] words))"

subsection \<open>The view of a buffer as a sequence of bits\<close>

text \<open>The abstract state: which bit positions of the buffer are set.\<close>

definition slice_bit :: "u32 list \<Rightarrow> nat \<Rightarrow> bool" where
  "slice_bit words p \<longleftrightarrow> p < 32 * length words \<and> bit (words ! (p div 32)) (p mod 32)"

lemma slice_bit_idx [simp]: "p < 32 * length words \<longleftrightarrow> p div 32 < length words"
  by (auto simp: less_mult_imp_div_less div_less_iff_less_mult mult.commute)

lemma get_bit_step_bit:
  assumes "i < 64"
  shows "bit (get_bit_step words start i result) j \<longleftrightarrow>
           bit result j \<or> (j = i \<and> slice_bit words (start + i))"
  using assms by (auto simp: get_bit_step_def slice_bit_def Let_def bit_simps)

lemma length_set_bit_step [simp]: "length (set_bit_step val start i words) = length words"
  by (simp add: set_bit_step_def Let_def)

lemma slice_bit_set_bit_step:
  "slice_bit (set_bit_step val start i words) p \<longleftrightarrow>
     (if p = start + i \<and> p < 32 * length words then bit val i else slice_bit words p)"
proof (cases "p div 32 = (start + i) div 32")
  case True
  then have "p = start + i \<longleftrightarrow> p mod 32 = (start + i) mod 32"
    by (metis div_mod_decomp)
  with True show ?thesis
    by (auto simp: set_bit_step_def slice_bit_def Let_def bit_simps nth_list_update)
next
  case False
  then show ?thesis
    by (auto simp: set_bit_step_def slice_bit_def Let_def nth_list_update)
qed

lemma slice_get_bit:
  assumes "u32_slice_get_bit_range words (start, stop) = Some v"
  shows "bit v j \<longleftrightarrow> j < stop - start \<and> slice_bit words (start + j)"
proof (cases "start < stop")
  case True
  let ?w = "stop - start"
  from assms True have w: "?w \<le> 64" and v: "v = fold (get_bit_step words start) [0..<?w] 0"
    by (auto simp: u32_slice_get_bit_range_def Let_def split: if_splits)
  have "\<forall>j. bit (fold (get_bit_step words start) [0..<?w] 0) j \<longleftrightarrow>
      j < ?w \<and> slice_bit words (start + j)"
  proof (rule fold_upt_induct
      [where P = "\<lambda>n s. \<forall>j. bit s j \<longleftrightarrow> j < n \<and> slice_bit words (start + j)"])
    fix i and s :: u64
    assume "i < ?w" and IH: "\<forall>j. bit s j \<longleftrightarrow> j < i \<and> slice_bit words (start + j)"
    with w show "\<forall>j. bit (get_bit_step words start i s) j \<longleftrightarrow>
        j < Suc i \<and> slice_bit words (start + j)"
      by (auto simp: get_bit_step_bit less_Suc_eq)
  qed simp
  with v show ?thesis by simp
next
  case False
  with assms show ?thesis by (simp add: u32_slice_get_bit_range_def)
qed

lemma slice_set_bit:
  assumes "u32_slice_set_bit_range words (start, stop) val = Some words'"
  shows "length words' = length words \<and>
    (\<forall>p. slice_bit words' p \<longleftrightarrow>
       (if start \<le> p \<and> p < stop \<and> p < 32 * length words then bit val (p - start)
        else slice_bit words p))"
proof (cases "start < stop")
  case True
  let ?w = "stop - start"
  from assms True have w': "words' = fold (set_bit_step val start) [0..<?w] words"
    by (auto simp: u32_slice_set_bit_range_def Let_def split: if_splits)
  have "length (fold (set_bit_step val start) [0..<?w] words) = length words \<and>
      (\<forall>p. slice_bit (fold (set_bit_step val start) [0..<?w] words) p \<longleftrightarrow>
       (if start \<le> p \<and> p < start + ?w \<and> p < 32 * length words then bit val (p - start)
        else slice_bit words p))"
  proof (rule fold_upt_induct [where P = "\<lambda>n s. length s = length words \<and>
      (\<forall>p. slice_bit s p \<longleftrightarrow>
        (if start \<le> p \<and> p < start + n \<and> p < 32 * length words then bit val (p - start)
         else slice_bit words p))"])
    fix i s
    assume "i < ?w" and IH: "length s = length words \<and> (\<forall>p. slice_bit s p \<longleftrightarrow>
       (if start \<le> p \<and> p < start + i \<and> p < 32 * length words then bit val (p - start)
        else slice_bit words p))"
    then show "length (set_bit_step val start i s) = length words \<and>
       (\<forall>p. slice_bit (set_bit_step val start i s) p \<longleftrightarrow>
       (if start \<le> p \<and> p < start + Suc i \<and> p < 32 * length words then bit val (p - start)
        else slice_bit words p))"
      by (auto simp: slice_bit_set_bit_step)
  qed auto
  with True w' show ?thesis by simp
next
  case False
  with assms show ?thesis by (auto simp: u32_slice_set_bit_range_def)
qed


lemma slice_get_returns:
  "(\<exists>v. u32_slice_get_bit_range words (start, stop) = Some v) \<longleftrightarrow> stop - start \<le> 64"
  by (auto simp: u32_slice_get_bit_range_def Let_def)

lemma slice_set_returns:
  "(\<exists>ws. u32_slice_set_bit_range words (start, stop) v = Some ws) \<longleftrightarrow> stop - start \<le> 64"
  by (auto simp: u32_slice_set_bit_range_def Let_def)

subsection \<open>The trait implementors\<close>

text \<open>\<^verbatim>\<open>[u32]\<close>, \<^verbatim>\<open>Vec<u32>\<close> and \<^verbatim>\<open>[u32; N]\<close> share one implementation.\<close>

definition slice_bits :: "u32 list \<Rightarrow> nat" where
  "slice_bits words = length words * 32"

text \<open>\<^verbatim>\<open>u32\<close>: a one-element slice.\<close>

definition u32_get_bit_range :: "u32 \<Rightarrow> bit_range \<Rightarrow> u64 option" where
  "u32_get_bit_range w rng = u32_slice_get_bit_range [w] rng"

definition u32_set_bit_range :: "u32 \<Rightarrow> bit_range \<Rightarrow> u64 \<Rightarrow> u32 option" where
  "u32_set_bit_range w rng val = map_option hd (u32_slice_set_bit_range [w] rng val)"

record BitMutSubsetView =
  sv_data :: "u32 list"
  sv_offset :: nat
  sv_num_bits :: nat

definition new_subset :: "u32 list \<Rightarrow> nat \<Rightarrow> nat \<Rightarrow> BitMutSubsetView" where
  "new_subset data offset num_bits =
     \<lparr>sv_data = data, sv_offset = offset, sv_num_bits = num_bits\<rparr>"

definition subset_get_bit_range :: "BitMutSubsetView \<Rightarrow> bit_range \<Rightarrow> u64 option" where
  "subset_get_bit_range v rng =
     u32_slice_get_bit_range (sv_data v) (fst rng + sv_offset v, snd rng + sv_offset v)"

definition subset_set_bit_range ::
    "BitMutSubsetView \<Rightarrow> bit_range \<Rightarrow> u64 \<Rightarrow> BitMutSubsetView option" where
  "subset_set_bit_range v rng val =
     map_option (\<lambda>d. v\<lparr>sv_data := d\<rparr>)
       (u32_slice_set_bit_range (sv_data v) (fst rng + sv_offset v, snd rng + sv_offset v) val)"

subsection \<open>The default methods of the traits\<close>

text \<open>
  They are written over the required methods \<^term>\<open>getr\<close> and \<^term>\<open>setr\<close>, as the trait does.
\<close>

definition get_bit :: "('s \<Rightarrow> bit_range \<Rightarrow> u64 option) \<Rightarrow> 's \<Rightarrow> nat \<Rightarrow> bool option" where
  "get_bit getr s i = map_option (\<lambda>v. v \<noteq> 0) (getr s (i, i + 1))"

definition get_field :: "('s \<Rightarrow> bit_range \<Rightarrow> u64 option) \<Rightarrow> 's \<Rightarrow> bit_range \<Rightarrow> u64 option" where
  "get_field getr s rng = getr s rng"

definition bv_set_bit :: "('s \<Rightarrow> bit_range \<Rightarrow> u64 \<Rightarrow> 's option) \<Rightarrow> 's \<Rightarrow> nat \<Rightarrow> bool \<Rightarrow> 's option"
  where "bv_set_bit setr s i value = setr s (i, i + 1) (of_bool value)"

definition set_field :: "('s \<Rightarrow> bit_range \<Rightarrow> u64 \<Rightarrow> 's option) \<Rightarrow> 's \<Rightarrow> bit_range \<Rightarrow> u64 \<Rightarrow> 's option"
  where "set_field setr s rng bits = setr s rng bits"

definition set_field2 ::
    "('s \<Rightarrow> bit_range \<Rightarrow> u64 \<Rightarrow> 's option) \<Rightarrow> 's \<Rightarrow> bit_range \<Rightarrow> bit_range \<Rightarrow> u64 \<Rightarrow> 's option" where
  "set_field2 setr s range1 range2 val =
     (let len1 = snd range1 - fst range1;
          mask1 = (if len1 \<ge> 64 then - 1 else push_bit len1 1 - 1)
      in do {
        s1 \<leftarrow> setr s range1 (val AND mask1);
        assert_then (len1 < 64) (setr s1 range2 (drop_bit len1 val))
      })"

text \<open>\<^verbatim>\<open>BitCastU64\<close>: unsigned values widen, signed ones are read as their own width's bit pattern.\<close>

definition as_bits_u32 :: "u32 \<Rightarrow> u64" where "as_bits_u32 v = ucast v"
definition as_bits_u16 :: "u16 \<Rightarrow> u64" where "as_bits_u16 v = ucast v"
definition as_bits_u8 :: "u8 \<Rightarrow> u64" where "as_bits_u8 v = ucast v"
definition as_bits_i64 :: "int \<Rightarrow> u64" where "as_bits_i64 v = word_of_int v"
definition as_bits_i32 :: "int \<Rightarrow> u64" where "as_bits_i32 v = ucast (word_of_int v :: u32)"
definition as_bits_i16 :: "int \<Rightarrow> u64" where "as_bits_i16 v = ucast (word_of_int v :: u16)"
definition as_bits_i8 :: "int \<Rightarrow> u64" where "as_bits_i8 v = ucast (word_of_int v :: u8)"
definition as_bits_bool :: "bool \<Rightarrow> u64" where "as_bits_bool v = of_bool v"

text \<open>\<^verbatim>\<open>TypedBitField<OFFSET, WIDTH>\<close> and \<^verbatim>\<open>InstrBuilder<N>\<close>.\<close>

definition tbf_MAX_VALUE :: "nat \<Rightarrow> u64" where
  "tbf_MAX_VALUE width = (if width \<ge> 64 then - 1 else push_bit width 1 - 1)"

definition tbf_RANGE :: "nat \<Rightarrow> nat \<Rightarrow> bit_range" where
  "tbf_RANGE offset width = (offset, offset + width)"

definition tbf_get :: "('s \<Rightarrow> bit_range \<Rightarrow> u64 option) \<Rightarrow> nat \<Rightarrow> nat \<Rightarrow> 's \<Rightarrow> u64 option" where
  "tbf_get getr offset width buf = getr buf (tbf_RANGE offset width)"

definition tbf_set ::
    "('s \<Rightarrow> bit_range \<Rightarrow> u64 \<Rightarrow> 's option) \<Rightarrow> nat \<Rightarrow> nat \<Rightarrow> 's \<Rightarrow> u64 \<Rightarrow> 's option" where
  "tbf_set setr offset width buf bits =
     assert_then (bits \<le> tbf_MAX_VALUE width) (setr buf (tbf_RANGE offset width) bits)"

definition InstrBuilder_new :: "nat \<Rightarrow> u32 list" where
  "InstrBuilder_new n = replicate n 0"


subsection \<open>The interface\<close>

text \<open>
  What an implementor of \<^verbatim>\<open>BitMutViewable\<close> promises: accesses of at most 64 bits return, a
  read yields exactly the bits of its range, a write changes exactly the addressable bits of its
  range.  \<^term>\<open>view s p\<close> is bit \<^term>\<open>p\<close> of \<^term>\<open>s\<close>, \<^term>\<open>addr s p\<close> says that the position exists.
\<close>

locale bit_view =
  fixes getr :: "'s \<Rightarrow> bit_range \<Rightarrow> u64 option"
    and setr :: "'s \<Rightarrow> bit_range \<Rightarrow> u64 \<Rightarrow> 's option"
    and view :: "'s \<Rightarrow> nat \<Rightarrow> bool"
    and addr :: "'s \<Rightarrow> nat \<Rightarrow> bool"
  assumes get_returns: "(\<exists>v. getr s (a, b) = Some v) \<longleftrightarrow> b - a \<le> 64"
    and set_returns: "(\<exists>s'. setr s (a, b) v = Some s') \<longleftrightarrow> b - a \<le> 64"
    and get_bits: "getr s (a, b) = Some v \<Longrightarrow> bit v j \<longleftrightarrow> j < b - a \<and> view s (a + j)"
    and set_bits: "setr s (a, b) v = Some s' \<Longrightarrow>
       view s' p \<longleftrightarrow> (if a \<le> p \<and> p < b \<and> addr s p then bit v (p - a) else view s p)"
    and set_addr: "setr s (a, b) v = Some s' \<Longrightarrow> addr s' = addr s"
begin

lemma get_eqI:
  assumes "b - a \<le> 64" and "\<And>j. bit v j \<longleftrightarrow> j < b - a \<and> view s (a + j)"
  shows "getr s (a, b) = Some v"
proof -
  from assms(1) obtain w where w: "getr s (a, b) = Some w" using get_returns by blast
  have "w = v" by (rule bit_word_eqI) (simp add: get_bits [OF w] assms(2))
  with w show ?thesis by simp
qed

lemma get_set_same:
  assumes "setr s (a, b) v = Some s'" and "\<forall>p. a \<le> p \<and> p < b \<longrightarrow> addr s p"
  shows "getr s' (a, b) = Some (take_bit (b - a) v)"
proof (rule get_eqI)
  show "b - a \<le> 64" using assms(1) set_returns by blast
  show "bit (take_bit (b - a) v) j \<longleftrightarrow> j < b - a \<and> view s' (a + j)" for j
    using assms by (auto simp: set_bits [OF assms(1)] bit_simps bit_imp_le_length)
qed

lemma get_set_disjoint:
  assumes "setr s (a, b) v = Some s'" and "b \<le> c \<or> d \<le> a"
  shows "getr s' (c, d) = getr s (c, d)"
proof (cases "d - c \<le> 64")
  case True
  then obtain w where w: "getr s (c, d) = Some w" using get_returns by blast
  from True have "getr s' (c, d) = Some w"
    by (rule get_eqI) (use assms(2) in \<open>auto simp: get_bits [OF w] set_bits [OF assms(1)]\<close>)
  with w show ?thesis by simp
next
  case False
  then show ?thesis using get_returns by (metis not_None_eq)
qed

lemma get_bit_view: "get_bit getr s i = Some (view s i)"
proof -
  obtain v where v: "getr s (i, i + 1) = Some v" using get_returns [of s i "i + 1"] by auto
  have "v \<noteq> 0 \<longleftrightarrow> view s i"
    by (auto simp: word_nonzero_iff get_bits [OF v])
  with v show ?thesis by (simp add: get_bit_def)
qed

lemma get_bit_set_bit:
  assumes "addr s i"
  shows "\<exists>s'. bv_set_bit setr s i b = Some s' \<and>
     (\<forall>j. get_bit getr s' j = Some (if j = i then b else view s j))"
proof -
  obtain s' where s': "setr s (i, i + 1) (of_bool b) = Some s'"
    using set_returns [of s i "i + 1" "of_bool b"] by auto
  with assms show ?thesis
    by (auto simp: bv_set_bit_def get_bit_view set_bits [OF s'] bit_simps)
qed

lemma set_field2_get:
  assumes "set_field2 setr s (a, b) (c, d) v = Some s'"
    and "b \<le> c \<or> d \<le> a"
    and "\<forall>p. a \<le> p \<and> p < b \<or> c \<le> p \<and> p < d \<longrightarrow> addr s p"
  shows "getr s' (a, b) = Some (take_bit (b - a) v) \<and>
         getr s' (c, d) = Some (take_bit (d - c) (drop_bit (b - a) v))"
proof -
  from assms(1) obtain s1 where lt: "b - a < 64"
    and s1: "setr s (a, b) (v AND (push_bit (b - a) 1 - 1)) = Some s1"
    and s2: "setr s1 (c, d) (drop_bit (b - a) v) = Some s'"
    by (auto simp: set_field2_def Let_def panic_simps split: Option.bind_splits if_splits)
  have m: "v AND (push_bit (b - a) 1 - 1) = take_bit (b - a) v"
    by (simp add: take_bit_eq_mask mask_eq_exp_minus_1 push_bit_of_1)
  have "getr s1 (a, b) = Some (take_bit (b - a) v)"
    using get_set_same [OF s1 [unfolded m]] assms(3) by simp
  moreover have "getr s' (a, b) = getr s1 (a, b)"
    using get_set_disjoint [OF s2] assms(2) by auto
  moreover have "getr s' (c, d) = Some (take_bit (d - c) (drop_bit (b - a) v))"
    using get_set_same [OF s2] assms(3) by (simp add: set_addr [OF s1])
  ultimately show ?thesis by simp
qed

lemma tbf_get_set:
  assumes "tbf_set setr off w buf v = Some buf'"
    and "\<forall>p. off \<le> p \<and> p < off + w \<longrightarrow> addr buf p"
  shows "tbf_get getr off w buf' = Some v"
proof -
  from assms(1) have le: "v \<le> tbf_MAX_VALUE w" and st: "setr buf (off, off + w) v = Some buf'"
    by (auto simp: tbf_set_def tbf_RANGE_def panic_simps)
  have "w \<le> 64" using st set_returns [of buf off "off + w" v] by auto
  with le have "take_bit w v = v"
    by (auto simp: tbf_MAX_VALUE_def push_bit_of_1 take_bit_le_mask take_bit_beyond split: if_splits)
  with get_set_same [OF st] assms(2) show ?thesis
    by (simp add: tbf_get_def tbf_RANGE_def)
qed

end

lemma slice_set_view:
  assumes "u32_slice_set_bit_range words (a, b) v = Some words'"
  shows "slice_bit words' p \<longleftrightarrow>
    (if a \<le> p \<and> p < b \<and> p < 32 * length words then bit v (p - a) else slice_bit words p)"
  using slice_set_bit [OF assms] by blast

lemma slice_set_length:
  "u32_slice_set_bit_range words rng v = Some words' \<Longrightarrow> length words' = length words"
  using slice_set_bit by (cases rng) blast

interpretation slice: bit_view u32_slice_get_bit_range u32_slice_set_bit_range slice_bit
  "\<lambda>words p. p < 32 * length words"
  by unfold_locales
    (simp_all add: slice_get_returns slice_set_returns slice_get_bit slice_set_view slice_set_length
      del: slice_bit_idx)

text \<open>A single word.\<close>

lemma u32_set_eq_Some:
  "u32_set_bit_range w rng v = Some w' \<longleftrightarrow> u32_slice_set_bit_range [w] rng v = Some [w']"
proof -
  have "\<exists>x. ws = [x]" if "u32_slice_set_bit_range [w] rng v = Some ws" for ws
    using slice_set_length [OF that] by (simp add: length_Suc_conv)
  then show ?thesis by (fastforce simp: u32_set_bit_range_def)
qed

interpretation word: bit_view u32_get_bit_range u32_set_bit_range "\<lambda>w. slice_bit [w]"
  "\<lambda>_ p. p < 32"
proof unfold_locales
  show "(\<exists>w'. u32_set_bit_range w (a, b) v = Some w') \<longleftrightarrow> b - a \<le> 64" for w a b v
    using slice_set_returns [of "[w]" a b v] by (simp add: u32_set_bit_range_def)
  show "slice_bit [w'] p \<longleftrightarrow> (if a \<le> p \<and> p < b \<and> p < 32 then bit v (p - a) else slice_bit [w] p)"
    if "u32_set_bit_range w (a, b) v = Some w'" for w w' a b v p
    using slice_set_view [OF that [unfolded u32_set_eq_Some]] by simp
qed (simp_all add: u32_get_bit_range_def slice_get_returns slice_get_bit)

text \<open>
  The subset view: positions are shifted by the offset.  A position is addressable when the
  underlying buffer holds it; \<^verbatim>\<open>num_bits\<close> bounds nothing.
\<close>

definition subset_bit :: "BitMutSubsetView \<Rightarrow> nat \<Rightarrow> bool" where
  "subset_bit v p \<longleftrightarrow> slice_bit (sv_data v) (p + sv_offset v)"

lemma subset_set_eq_Some:
  "subset_set_bit_range s (a, b) v = Some s' \<longleftrightarrow>
    (\<exists>d. u32_slice_set_bit_range (sv_data s) (a + sv_offset s, b + sv_offset s) v = Some d \<and>
      s' = s\<lparr>sv_data := d\<rparr>)"
  by (auto simp: subset_set_bit_range_def)

interpretation subset: bit_view subset_get_bit_range subset_set_bit_range subset_bit
  "\<lambda>s p. p + sv_offset s < 32 * length (sv_data s)"
proof unfold_locales
  fix s s' a b v p
  assume "subset_set_bit_range s (a, b) v = Some s'"
  then obtain d where d: "u32_slice_set_bit_range (sv_data s) (a + sv_offset s, b + sv_offset s) v = Some d"
    and s': "s' = s\<lparr>sv_data := d\<rparr>"
    by (auto simp: subset_set_eq_Some)
  show "subset_bit s' p \<longleftrightarrow>
     (if a \<le> p \<and> p < b \<and> p + sv_offset s < 32 * length (sv_data s) then bit v (p - a)
      else subset_bit s p)"
    by (simp add: subset_bit_def s' slice_set_view [OF d])
  show "(\<lambda>p. p + sv_offset s' < 32 * length (sv_data s')) =
        (\<lambda>p. p + sv_offset s < 32 * length (sv_data s))"
    by (simp add: s' slice_set_length [OF d])
next
  fix s a b v j
  assume "subset_get_bit_range s (a, b) = Some v"
  then show "bit v j \<longleftrightarrow> j < b - a \<and> subset_bit s (a + j)"
    by (simp add: subset_get_bit_range_def slice_get_bit subset_bit_def algebra_simps)
qed (auto simp: subset_get_bit_range_def subset_set_bit_range_def slice_get_returns slice_set_returns)


subsection \<open>Properties\<close>

text \<open>
  Property C35.  Writing a field into a word buffer and reading it back: for a range that lies inside
  the buffer and is at most 64 bits wide both accesses return, the value read is the written one
  truncated to the width of the field, the length of the buffer is unchanged, and every field
  disjoint from the written one reads the same as before.
\<close>

theorem slice_field_roundtrip:
  assumes "start \<le> stop" and "stop - start \<le> 64" and "stop \<le> 32 * length words"
  shows "\<exists>words'. u32_slice_set_bit_range words (start, stop) val = Some words' \<and>
     length words' = length words \<and>
     u32_slice_get_bit_range words' (start, stop) = Some (take_bit (stop - start) val) \<and>
     (\<forall>c d. stop \<le> c \<or> d \<le> start \<longrightarrow>
        u32_slice_get_bit_range words' (c, d) = u32_slice_get_bit_range words (c, d))"
proof -
  from assms(2) obtain ws where ws: "u32_slice_set_bit_range words (start, stop) val = Some ws"
    using slice_set_returns by blast
  from assms(3) have "\<forall>p. start \<le> p \<and> p < stop \<longrightarrow> p < 32 * length words" by auto
  with ws show ?thesis
    using slice.get_set_same [OF ws] slice.get_set_disjoint [OF ws] slice_set_length [OF ws] by blast
qed

theorem slice_field_roundtrip_witness:
  "\<exists>words'. u32_slice_set_bit_range [0, 0xFFFFFFFF] (28, 36) 0x1A5 = Some words' \<and>
     length words' = length [0, 0xFFFFFFFF :: u32] \<and>
     u32_slice_get_bit_range words' (28, 36) = Some (take_bit (36 - 28) 0x1A5) \<and>
     (\<forall>c d. 36 \<le> c \<or> d \<le> 28 \<longrightarrow>
        u32_slice_get_bit_range words' (c, d) = u32_slice_get_bit_range [0, 0xFFFFFFFF] (c, d))"
  by (rule slice_field_roundtrip) simp_all

text \<open>
  A value split over two disjoint ranges by \<^verbatim>\<open>set_field2\<close> is found again: the first
  range holds its low bits, the second one the bits above them.
\<close>

theorem set_field2_roundtrip:
  assumes "set_field2 u32_slice_set_bit_range words (a, b) (c, d) val = Some words'"
    and "b \<le> c \<or> d \<le> a" and "b \<le> 32 * length words" and "d \<le> 32 * length words"
  shows "u32_slice_get_bit_range words' (a, b) = Some (take_bit (b - a) val) \<and>
    u32_slice_get_bit_range words' (c, d) = Some (take_bit (d - c) (drop_bit (b - a) val))"
  by (rule slice.set_field2_get [OF assms(1,2)]) (use assms(3,4) in auto)

theorem set_field2_roundtrip_witness:
  "u32_slice_get_bit_range [0x300000CD] (0, 8) = Some (take_bit (8 - 0) 0xABCD) \<and>
   u32_slice_get_bit_range [0x300000CD] (28, 30) = Some (take_bit (30 - 28) (drop_bit (8 - 0) 0xABCD))"
  by (rule set_field2_roundtrip [of "[0]"]; code_simp)

text \<open>
  A \<^verbatim>\<open>TypedBitField\<close> reads back exactly the value that was set, for every value its
  \<^verbatim>\<open>set\<close> accepts (no truncation is possible), in a buffer that holds the field.
\<close>

theorem typed_field_roundtrip:
  assumes "tbf_set u32_slice_set_bit_range offset width words bits = Some words'"
    and "offset + width \<le> 32 * length words"
  shows "tbf_get u32_slice_get_bit_range offset width words' = Some bits"
  by (rule slice.tbf_get_set [OF assms(1)]) (use assms(2) in auto)

theorem typed_field_roundtrip_witness:
  "tbf_get u32_slice_get_bit_range 18 7 [0xA80000, 0] = Some 42"
  by (rule typed_field_roundtrip [of _ _ "InstrBuilder_new 2"]) (code_simp, simp add: InstrBuilder_new_def)

text \<open>
  A subset view writes through to the buffer under it at the shifted position and
  nowhere else: after a write through the view, bit \<^term>\<open>q\<close> of the buffer is the written bit when
  \<^term>\<open>q\<close> lies in the shifted range, and the old one otherwise.
\<close>

theorem subset_write_through:
  assumes "subset_set_bit_range (new_subset data offset n) (a, b) val = Some v"
  shows "slice_bit (sv_data v) q \<longleftrightarrow>
    (if a + offset \<le> q \<and> q < b + offset \<and> q < 32 * length data then bit val (q - (a + offset))
     else slice_bit data q)"
  using assms slice_set_view by (auto simp: subset_set_eq_Some new_subset_def)

theorem subset_write_through_witness:
  "slice_bit (sv_data (new_subset [0x700] 8 16)) 9 \<longleftrightarrow>
    (if 0 + 8 \<le> (9::nat) \<and> (9::nat) < 3 + 8 \<and> (9::nat) < 32 * length [0 :: u32] then bit (7 :: u64) (9 - (0 + 8))
     else slice_bit [0] 9)"
  by (rule subset_write_through [of "[0]" 8 16]) (simp add: new_subset_def, code_simp)

end
