(* ===== verification/BitSet.thy ===== *)
theory BitSet
  imports Prelude
begin

text \<open>
  \<^verbatim>\<open>coral-reef-stubs/src/bitset.rs\<close>: the dense bit set over \<^verbatim>\<open>u64\<close> words that register
  tracking and liveness use.  The abstract value of a bit set is a set of naturals; every operation
  is shown to implement the operation on sets, the iterator to enumerate the elements in increasing
  order, and \<^verbatim>\<open>find_aligned_unset_range\<close> to find the first aligned free range.
\<close>

subsection \<open>State and operations\<close>

record BitSet =
  bs_words :: "u64 list"
  bs_capacity :: nat

definition BITS_PER_WORD :: nat where "BITS_PER_WORD = 64"

definition word_bit :: "nat \<Rightarrow> nat \<times> u64" where
  "word_bit i = (i div BITS_PER_WORD, push_bit (i mod BITS_PER_WORD) 1)"

definition bs_new :: "nat \<Rightarrow> BitSet" where
  "bs_new capacity = \<lparr>bs_words = replicate ((capacity + (BITS_PER_WORD - 1)) div BITS_PER_WORD) 0,
     bs_capacity = capacity\<rparr>"

text \<open>\<^verbatim>\<open>Vec::resize(n, 0)\<close> for \<^verbatim>\<open>n\<close> at least the length.\<close>

definition resize0 :: "nat \<Rightarrow> u64 list \<Rightarrow> u64 list" where
  "resize0 n ws = take n ws @ replicate (n - length ws) 0"

definition bs_insert :: "nat \<Rightarrow> BitSet \<Rightarrow> bool \<times> BitSet" where
  "bs_insert idx s =
     (let (word, bt) = word_bit idx;
          ws = (if word \<ge> length (bs_words s) then resize0 (word + 1) (bs_words s) else bs_words s);
          was_clear = (ws ! word AND bt = 0)
      in (was_clear, s\<lparr>bs_words := ws[word := ws ! word OR bt]\<rparr>))"

definition bs_remove :: "nat \<Rightarrow> BitSet \<Rightarrow> bool \<times> BitSet" where
  "bs_remove idx s =
     (let (word, bt) = word_bit idx; ws = bs_words s in
      if word \<ge> length ws then (False, s)
      else (ws ! word AND bt \<noteq> 0, s\<lparr>bs_words := ws[word := ws ! word AND NOT bt]\<rparr>))"

definition bs_contains :: "BitSet \<Rightarrow> nat \<Rightarrow> bool" where
  "bs_contains s idx =
     (let (word, bt) = word_bit idx in
      word < length (bs_words s) \<and> bs_words s ! word AND bt \<noteq> 0)"

definition bs_len :: "BitSet \<Rightarrow> nat" where
  "bs_len s = sum_list (map count_ones (bs_words s))"

definition bs_is_empty :: "BitSet \<Rightarrow> bool" where
  "bs_is_empty s = list_all (\<lambda>w. w = 0) (bs_words s)"

definition bs_clear :: "BitSet \<Rightarrow> BitSet" where
  "bs_clear s = s\<lparr>bs_words := map (\<lambda>_. 0) (bs_words s)\<rparr>"

text \<open>\<^verbatim>\<open>for (a, b) in xs.iter_mut().zip(ys) { *a = f(a, b) }\<close>\<close>

fun zip_assign :: "('a \<Rightarrow> 'b \<Rightarrow> 'a) \<Rightarrow> 'a list \<Rightarrow> 'b list \<Rightarrow> 'a list" where
  "zip_assign f (a # as) (b # bs) = f a b # zip_assign f as bs"
| "zip_assign f as _ = as"

text \<open>\<^verbatim>\<open>words.get(i).copied().unwrap_or(0)\<close>\<close>

definition word_or0 :: "u64 list \<Rightarrow> nat \<Rightarrow> u64" where
  "word_or0 ws i = (if i < length ws then ws ! i else 0)"

definition bs_union :: "BitSet \<Rightarrow> BitSet \<Rightarrow> BitSet" where
  "bs_union s other =
     (let ws = (if length (bs_words other) > length (bs_words s)
                then resize0 (length (bs_words other)) (bs_words s) else bs_words s)
      in s\<lparr>bs_words := zip_assign (OR) ws (bs_words other)\<rparr>)"

definition bs_intersect :: "BitSet \<Rightarrow> BitSet \<Rightarrow> BitSet" where
  "bs_intersect s other =
     s\<lparr>bs_words := map (\<lambda>(i, w). w AND word_or0 (bs_words other) i)
        (List.enumerate 0 (bs_words s))\<rparr>"

definition bs_difference :: "BitSet \<Rightarrow> BitSet \<Rightarrow> BitSet" where
  "bs_difference s other =
     s\<lparr>bs_words := zip_assign (\<lambda>a b. a AND NOT b) (bs_words s) (bs_words other)\<rparr>"

definition bs_is_subset_of :: "BitSet \<Rightarrow> BitSet \<Rightarrow> bool" where
  "bs_is_subset_of s other =
     list_all (\<lambda>(i, w). w AND NOT (word_or0 (bs_words other) i) = 0)
       (List.enumerate 0 (bs_words s))"

definition bs_bitor :: "BitSet \<Rightarrow> BitSet \<Rightarrow> BitSet" where
  "bs_bitor s rhs =
     (let max_len = max (length (bs_words s)) (length (bs_words rhs))
      in \<lparr>bs_words = map (\<lambda>i. word_or0 (bs_words s) i OR word_or0 (bs_words rhs) i) [0..<max_len],
          bs_capacity = max (bs_capacity s) (bs_capacity rhs)\<rparr>)"

definition bs_sub :: "BitSet \<Rightarrow> BitSet \<Rightarrow> BitSet" where
  "bs_sub s rhs =
     (let max_len = max (length (bs_words s)) (length (bs_words rhs))
      in \<lparr>bs_words = map (\<lambda>i. word_or0 (bs_words s) i AND NOT (word_or0 (bs_words rhs) i)) [0..<max_len],
          bs_capacity = max (bs_capacity s) (bs_capacity rhs)\<rparr>)"

subsection \<open>The iterator\<close>

record BitSetIter =
  it_words :: "u64 list"
  it_word_idx :: nat
  it_current :: u64

definition bs_iter :: "BitSet \<Rightarrow> BitSetIter" where
  "bs_iter s = \<lparr>it_words = bs_words s, it_word_idx = 0, it_current = word_or0 (bs_words s) 0\<rparr>"

text \<open>The \<^verbatim>\<open>while self.current == 0\<close> loop; \<^const>\<open>None\<close> is the early return.\<close>

function it_advance :: "BitSetIter \<Rightarrow> BitSetIter option \<times> BitSetIter" where
  "it_advance it =
     (if it_current it = 0
      then let it1 = it\<lparr>it_word_idx := it_word_idx it + 1\<rparr> in
           if it_word_idx it1 \<ge> length (it_words it1) then (None, it1)
           else it_advance (it1\<lparr>it_current := it_words it1 ! it_word_idx it1\<rparr>)
      else (Some it, it))"
  by pat_completeness auto
termination
  by (relation "measure (\<lambda>it. length (it_words it) - it_word_idx it)") auto

definition it_next :: "BitSetIter \<Rightarrow> nat option \<times> BitSetIter" where
  "it_next it =
     (case it_advance it of
        (None, it1) \<Rightarrow> (None, it1)
      | (Some it1, _) \<Rightarrow>
          (Some (it_word_idx it1 * BITS_PER_WORD + trailing_zeros (it_current it1)),
           it1\<lparr>it_current := it_current it1 AND (it_current it1 - 1)\<rparr>))"

subsection \<open>First aligned free range\<close>

definition usize_modulus :: nat where "usize_modulus = 2 ^ 64"

definition wrapping_sub :: "nat \<Rightarrow> nat \<Rightarrow> nat" where
  "wrapping_sub a b = (a + (usize_modulus - b mod usize_modulus)) mod usize_modulus"

text \<open>Aligning \<^verbatim>\<open>pos\<close> upwards.\<close>

definition align_pos :: "nat \<Rightarrow> nat \<Rightarrow> nat \<Rightarrow> nat" where
  "align_pos align_mul align_offset pos =
     (let remainder = wrapping_sub pos align_offset mod align_mul
      in if remainder \<noteq> 0 then pos + (align_mul - remainder) else pos)"

lemma align_pos_ge: "pos \<le> align_pos m off pos"
  by (simp add: align_pos_def Let_def)

text \<open>The inner \<^verbatim>\<open>for\<close> loop: the least \<^verbatim>\<open>i\<close> whose bit is set, if any.\<close>

definition first_set_in :: "BitSet \<Rightarrow> nat \<Rightarrow> nat \<Rightarrow> nat option" where
  "first_set_in s pos n = find (\<lambda>i. bs_contains s (pos + i)) [0..<n]"

text \<open>
  The outer \<^verbatim>\<open>loop\<close>.  The outer option is the panic (remainder by zero, overflow of
  \<^verbatim>\<open>pos\<close>), the inner one the \<^verbatim>\<open>Option\<close> returned.
\<close>

function find_range_loop :: "BitSet \<Rightarrow> nat \<Rightarrow> nat \<Rightarrow> nat \<Rightarrow> nat \<Rightarrow> nat option option" where
  "find_range_loop s num_bits align_mul align_offset pos0 =
     (if align_mul = 0 then None else
      let pos = align_pos align_mul align_offset pos0
      in if pos + num_bits \<ge> usize_modulus then None
      else if pos + num_bits > bs_capacity s then Some None
      else case first_set_in s pos num_bits of
             None \<Rightarrow> Some (Some pos)
           | Some i \<Rightarrow> find_range_loop s num_bits align_mul align_offset (pos + i + 1))"
  by pat_completeness auto
termination
proof (relation "measure (\<lambda>(s, n, m, off, pos). Suc (bs_capacity s) - pos)", goal_cases)
  case (2 s n m off pos0 pos i)
  with align_pos_ge [of pos0 m off] show ?case by simp
qed simp

definition find_aligned_unset_range :: "BitSet \<Rightarrow> nat \<Rightarrow> nat \<Rightarrow> nat \<Rightarrow> nat \<Rightarrow> nat option option" where
  "find_aligned_unset_range s start num_bits align_mul align_offset =
     (if num_bits = 0 then Some (Some start)
      else find_range_loop s num_bits align_mul align_offset start)"

declare it_advance.simps [simp del] find_range_loop.simps [simp del]


subsection \<open>The abstract set\<close>

definition bs_elems :: "BitSet \<Rightarrow> nat set" where
  "bs_elems s = {i. bit (word_or0 (bs_words s) (i div 64)) (i mod 64)}"

lemma word_or0_beyond [simp]: "length ws \<le> k \<Longrightarrow> word_or0 ws k = 0"
  by (simp add: word_or0_def)

lemma word_or0_bitD: "bit (word_or0 ws k) j \<Longrightarrow> k < length ws"
  by (auto simp: word_or0_def split: if_splits)

lemma word_or0_resize0 [simp]: "length ws \<le> n \<Longrightarrow> word_or0 (resize0 n ws) k = word_or0 ws k"
  by (auto simp: word_or0_def resize0_def nth_append)

lemma length_resize0 [simp]: "length ws \<le> n \<Longrightarrow> length (resize0 n ws) = n"
  by (simp add: resize0_def)

lemma word_or0_update:
  "i < length ws \<Longrightarrow> word_or0 (ws[i := v]) k = (if k = i then v else word_or0 ws k)"
  by (auto simp: word_or0_def nth_list_update)

lemma length_zip_assign [simp]: "length (zip_assign f as bs) = length as"
  by (induction f as bs rule: zip_assign.induct) auto

lemma nth_zip_assign:
  "k < length as \<Longrightarrow> zip_assign f as bs ! k = (if k < length bs then f (as ! k) (bs ! k) else as ! k)"
  by (induction f as bs arbitrary: k rule: zip_assign.induct) (auto simp: nth_Cons split: nat.split)

lemma word_or0_map [simp]:
  "word_or0 (map f [0..<n]) k = (if k < n then f k else 0)"
  by (simp add: word_or0_def)

lemma word_or0_enumerate [simp]:
  "word_or0 (map (\<lambda>(i, w). f i w) (List.enumerate 0 ws)) k =
     (if k < length ws then f k (ws ! k) else 0)"
  by (simp add: word_or0_def nth_enumerate_eq)

lemma bs_contains_iff: "bs_contains s i \<longleftrightarrow> i \<in> bs_elems s"
  by (auto simp: bs_contains_def word_bit_def BITS_PER_WORD_def bs_elems_def word_or0_def)

lemma bs_elems_new [simp]: "bs_elems (bs_new c) = {}"
  by (auto simp: bs_elems_def bs_new_def word_or0_def)

lemma same_word_iff: "i div 64 = j div 64 \<Longrightarrow> i mod 64 = j mod 64 \<longleftrightarrow> i = (j :: nat)"
  by (metis div_mod_decomp)

lemma bs_elems_insert [simp]: "bs_elems (snd (bs_insert i s)) = insert i (bs_elems s)"
proof -
  have "word_or0 (bs_words (snd (bs_insert i s))) k =
      (if k = i div 64 then word_or0 (bs_words s) k OR push_bit (i mod 64) 1 else word_or0 (bs_words s) k)"
    for k
    by (auto simp: bs_insert_def word_bit_def BITS_PER_WORD_def Let_def word_or0_update)
       (auto simp: word_or0_def resize0_def nth_append)
  then show ?thesis
    by (auto simp: bs_elems_def bit_simps same_word_iff split: if_splits)
qed

lemma fst_bs_insert [simp]: "fst (bs_insert i s) \<longleftrightarrow> i \<notin> bs_elems s"
  by (auto simp: bs_insert_def word_bit_def BITS_PER_WORD_def Let_def bs_elems_def word_or0_def
      resize0_def nth_append)

lemma bs_capacity_insert [simp]: "bs_capacity (snd (bs_insert i s)) = bs_capacity s"
  by (simp add: bs_insert_def Let_def split: prod.splits)

lemma bs_elems_remove [simp]: "bs_elems (snd (bs_remove i s)) = bs_elems s - {i}"
  by (auto simp: bs_remove_def word_bit_def BITS_PER_WORD_def Let_def bs_elems_def word_or0_update
      bit_simps same_word_iff split: if_splits) (auto simp: word_or0_def)

lemma fst_bs_remove [simp]: "fst (bs_remove i s) \<longleftrightarrow> i \<in> bs_elems s"
  by (auto simp: bs_remove_def word_bit_def BITS_PER_WORD_def Let_def bs_elems_def word_or0_def)

lemma bs_elems_clear [simp]: "bs_elems (bs_clear s) = {}"
  by (auto simp: bs_elems_def bs_clear_def word_or0_def)

lemma bs_elems_union [simp]: "bs_elems (bs_union s t) = bs_elems s \<union> bs_elems t"
proof -
  have "word_or0 (bs_words (bs_union s t)) k = word_or0 (bs_words s) k OR word_or0 (bs_words t) k" for k
    by (auto simp: bs_union_def Let_def word_or0_def nth_zip_assign resize0_def nth_append)
  then show ?thesis by (auto simp: bs_elems_def bit_simps)
qed

lemma bs_elems_intersect [simp]: "bs_elems (bs_intersect s t) = bs_elems s \<inter> bs_elems t"
  by (auto simp: bs_elems_def bs_intersect_def bit_simps dest: word_or0_bitD split: if_splits)
    (auto simp: word_or0_def split: if_splits)

lemma bs_elems_difference [simp]: "bs_elems (bs_difference s t) = bs_elems s - bs_elems t"
proof -
  have "word_or0 (bs_words (bs_difference s t)) k =
      word_or0 (bs_words s) k AND NOT (word_or0 (bs_words t) k)" for k
    by (auto simp: bs_difference_def word_or0_def nth_zip_assign)
  then show ?thesis by (auto simp: bs_elems_def bit_simps)
qed

lemma bs_elems_bitor [simp]: "bs_elems (bs_bitor s t) = bs_elems s \<union> bs_elems t"
  by (auto simp: bs_elems_def bs_bitor_def Let_def bit_simps less_max_iff_disj dest: word_or0_bitD
      split: if_splits)

lemma bs_elems_sub [simp]: "bs_elems (bs_sub s t) = bs_elems s - bs_elems t"
  by (auto simp: bs_elems_def bs_sub_def Let_def bit_simps less_max_iff_disj dest: word_or0_bitD
      split: if_splits)

lemma bs_is_empty_iff: "bs_is_empty s \<longleftrightarrow> bs_elems s = {}"
proof -
  have "(\<forall>w\<in>set (bs_words s). w = 0) \<longleftrightarrow> (\<forall>k j. \<not> bit (word_or0 (bs_words s) k) j)"
    by (auto simp: word_or0_def all_set_conv_all_nth word_nonzero_iff split: if_splits)
       (metis word_nonzero_iff)
  also have "\<dots> \<longleftrightarrow> (\<forall>i. \<not> bit (word_or0 (bs_words s) (i div 64)) (i mod 64))"
  proof (intro iffI allI)
    fix k j
    assume *: "\<forall>i. \<not> bit (word_or0 (bs_words s) (i div 64)) (i mod 64)"
    show "\<not> bit (word_or0 (bs_words s) k) j"
      using * [rule_format, of "64 * k + j"] by (cases "j < 64") (auto dest: bit_imp_le_length)
  qed auto
  finally show ?thesis by (auto simp: bs_is_empty_def list_all_iff bs_elems_def)
qed

lemma andnot_eq_0_iff: "a AND NOT b = 0 \<longleftrightarrow> (\<forall>j. bit a j \<longrightarrow> bit b j)" for a b :: "'a::len word"
  by (auto simp: bit_eq_iff [of "a AND NOT b"] bit_simps dest: bit_imp_le_length)

lemma bs_elems_word: "j < 64 \<Longrightarrow> 64 * k + j \<in> bs_elems s \<longleftrightarrow> bit (word_or0 (bs_words s) k) j"
  by (simp add: bs_elems_def)

lemma bs_is_subset_of_iff: "bs_is_subset_of s t \<longleftrightarrow> bs_elems s \<subseteq> bs_elems t"
proof -
  have "bs_is_subset_of s t \<longleftrightarrow>
      (\<forall>k j. bit (word_or0 (bs_words s) k) j \<longrightarrow> bit (word_or0 (bs_words t) k) j)"
    by (auto simp: bs_is_subset_of_def list_all_length nth_enumerate_eq andnot_eq_0_iff word_or0_def)
  also have "\<dots> \<longleftrightarrow> bs_elems s \<subseteq> bs_elems t"
  proof
    assume sub: "bs_elems s \<subseteq> bs_elems t"
    show "\<forall>k j. bit (word_or0 (bs_words s) k) j \<longrightarrow> bit (word_or0 (bs_words t) k) j"
    proof (intro allI impI)
      fix k j assume b: "bit (word_or0 (bs_words s) k) j"
      then have "j < 64" using bit_imp_le_length by fastforce
      with b sub show "bit (word_or0 (bs_words t) k) j"
        using bs_elems_word [of j k] by blast
    qed
  qed (auto simp: bs_elems_def)
  finally show ?thesis .
qed

lemma bs_elems_UN:
  "bs_elems s = (\<Union>k<length (bs_words s). (\<lambda>j. 64 * k + j) ` {j. j < 64 \<and> bit (bs_words s ! k) j})"
proof (intro set_eqI iffI)
  fix i assume "i \<in> bs_elems s"
  then have "i div 64 < length (bs_words s)" "bit (bs_words s ! (i div 64)) (i mod 64)"
    by (auto simp: bs_elems_def word_or0_def split: if_splits)
  moreover have "i = 64 * (i div 64) + i mod 64" by simp
  ultimately show "i \<in> (\<Union>k<length (bs_words s). (\<lambda>j. 64 * k + j) ` {j. j < 64 \<and> bit (bs_words s ! k) j})"
    by (metis (mono_tags, lifting) UN_I imageI lessThan_iff mem_Collect_eq mod_less_divisor zero_less_numeral)
qed (auto simp: bs_elems_def word_or0_def)

lemma finite_bs_elems [simp]: "finite (bs_elems s)"
  by (simp add: bs_elems_UN)

lemma bs_len_card: "bs_len s = card (bs_elems s)"
proof -
  let ?B = "\<lambda>k. (\<lambda>j. 64 * k + j) ` {j. j < 64 \<and> bit (bs_words s ! k) j}"
  have "card (bs_elems s) = (\<Sum>k<length (bs_words s). card (?B k))"
    unfolding bs_elems_UN
  proof (rule card_UN_disjoint)
    show "\<forall>k\<in>{..<length (bs_words s)}. \<forall>l\<in>{..<length (bs_words s)}. k \<noteq> l \<longrightarrow> ?B k \<inter> ?B l = {}"
    proof (intro ballI impI)
      have "i div 64 = k" if "i \<in> ?B k" for i k using that by auto
      then show "?B k \<inter> ?B l = {}" if "k \<noteq> l" for k l
        using that by (metis (no_types, lifting) disjoint_iff)
    qed
  qed auto
  also have "\<dots> = (\<Sum>k<length (bs_words s). count_ones (bs_words s ! k))"
    by (simp add: card_image inj_on_def count_ones_card)
  also have "\<dots> = bs_len s"
    by (simp add: bs_len_def sum_list_sum_nth atLeast0LessThan)
  finally show ?thesis by simp
qed

subsection \<open>The interface\<close>

text \<open>
  The contract of a set of indices: what the clients of \<^verbatim>\<open>BitSet\<close> (liveness, data-flow, register
  tracking) rely on.  The derived facts are the transfer functions of the data-flow passes.
\<close>

locale index_set =
  fixes new :: "nat \<Rightarrow> 's"
    and ins :: "nat \<Rightarrow> 's \<Rightarrow> bool \<times> 's"
    and rem :: "nat \<Rightarrow> 's \<Rightarrow> bool \<times> 's"
    and mem :: "'s \<Rightarrow> nat \<Rightarrow> bool"
    and join :: "'s \<Rightarrow> 's \<Rightarrow> 's"
    and diff :: "'s \<Rightarrow> 's \<Rightarrow> 's"
    and elems :: "'s \<Rightarrow> nat set"
  assumes new_elems: "elems (new c) = {}"
    and ins_elems: "elems (snd (ins i s)) = insert i (elems s)"
    and ins_fresh: "fst (ins i s) \<longleftrightarrow> i \<notin> elems s"
    and rem_elems: "elems (snd (rem i s)) = elems s - {i}"
    and rem_found: "fst (rem i s) \<longleftrightarrow> i \<in> elems s"
    and mem_iff: "mem s i \<longleftrightarrow> i \<in> elems s"
    and join_elems: "elems (join s t) = elems s \<union> elems t"
    and diff_elems: "elems (diff s t) = elems s - elems t"
begin

lemma ins_all_elems: "elems (fold (\<lambda>i s. snd (ins i s)) is s) = set is \<union> elems s"
  by (induction "is" arbitrary: s) (auto simp: ins_elems)

lemma rem_all_elems: "elems (fold (\<lambda>i s. snd (rem i s)) is s) = elems s - set is"
  by (induction "is" arbitrary: s) (auto simp: rem_elems)

lemma join_all_elems: "elems (fold (\<lambda>t s. join s t) ts s) = elems s \<union> (\<Union>t\<in>set ts. elems t)"
  by (induction ts arbitrary: s) (auto simp: join_elems)

lemma transfer_mono:
  "elems s \<subseteq> elems t \<Longrightarrow> elems (join (diff s kill) gen) \<subseteq> elems (join (diff t kill) gen)"
  by (auto simp: join_elems diff_elems)

lemma ins_then_mem: "mem (snd (ins i s)) j \<longleftrightarrow> j = i \<or> mem s j"
  by (auto simp: mem_iff ins_elems)

lemma rem_then_mem: "mem (snd (rem i s)) j \<longleftrightarrow> j \<noteq> i \<and> mem s j"
  by (auto simp: mem_iff rem_elems)

end

interpretation bitset: index_set bs_new bs_insert bs_remove bs_contains bs_bitor bs_sub bs_elems
  by unfold_locales (simp_all add: bs_contains_iff)

text \<open>The in-place variants satisfy the same contract.\<close>

interpretation bitset_inplace: index_set bs_new bs_insert bs_remove bs_contains bs_union bs_difference bs_elems
  by unfold_locales (simp_all add: bs_contains_iff)

subsection \<open>The iterator enumerates the set in increasing order\<close>

text \<open>The elements an iterator has still to yield.\<close>

definition it_rest :: "BitSetIter \<Rightarrow> nat set" where
  "it_rest it = {i. i div 64 = it_word_idx it \<and> bit (it_current it) (i mod 64) \<or>
     i div 64 > it_word_idx it \<and> bit (word_or0 (it_words it) (i div 64)) (i mod 64)}"

lemma it_rest_iter: "it_rest (bs_iter s) = bs_elems s"
  by (auto simp: it_rest_def bs_iter_def bs_elems_def)

lemma finite_it_rest [simp]: "finite (it_rest it)"
proof (rule finite_subset)
  show "it_rest it \<subseteq> {i. i div 64 = it_word_idx it} \<union> {i. i div 64 < length (it_words it)}"
    by (auto simp: it_rest_def dest: word_or0_bitD)
  have "{i. i div 64 = it_word_idx it} \<subseteq> {..<64 * Suc (it_word_idx it)}"
    by auto
  moreover have "{i. i div 64 < length (it_words it)} \<subseteq> {..<64 * length (it_words it)}"
    by auto
  ultimately show "finite ({i. i div 64 = it_word_idx it} \<union> {i. i div 64 < length (it_words it)})"
    using finite_subset by blast
qed

lemma it_advance_spec:
  "case it_advance it of
     (None, it1) \<Rightarrow> it_rest it = {}
   | (Some it1, _) \<Rightarrow> it_rest it1 = it_rest it \<and> it_current it1 \<noteq> 0"
proof (induction it rule: it_advance.induct)
  case (1 it)
  let ?it1 = "it\<lparr>it_word_idx := it_word_idx it + 1\<rparr>"
  let ?it2 = "?it1\<lparr>it_current := it_words it ! (it_word_idx it + 1)\<rparr>"
  show ?case
  proof (cases "it_current it = 0 \<and> it_word_idx it + 1 < length (it_words it)")
    case True
    have "i \<in> it_rest ?it2 \<longleftrightarrow> i \<in> it_rest it" for i
    proof -
      consider "i div 64 \<le> it_word_idx it" | "i div 64 = Suc (it_word_idx it)"
        | "Suc (it_word_idx it) < i div 64" by linarith
      then show ?thesis using True by cases (simp_all add: it_rest_def word_or0_def)
    qed
    then have "it_rest ?it2 = it_rest it" by blast
    with True "1.IH" show ?thesis
      by (subst it_advance.simps) (auto simp: Let_def split: prod.splits option.splits)
  next
    case False
    then show ?thesis
      by (subst it_advance.simps)
         (auto simp: Let_def it_rest_def word_or0_def split: if_splits)
  qed
qed

lemma it_next_spec:
  "case it_next it of
     (None, it') \<Rightarrow> it_rest it = {}
   | (Some i, it') \<Rightarrow> i \<in> it_rest it \<and> (\<forall>j\<in>it_rest it. i \<le> j) \<and> it_rest it' = it_rest it - {i}"
proof (cases "fst (it_advance it)")
  case None
  with it_advance_spec [of it] show ?thesis by (auto simp: it_next_def split: prod.splits)
next
  case (Some it1)
  let ?c = "it_current it1"
  let ?k = "trailing_zeros ?c"
  from Some it_advance_spec [of it] have rest: "it_rest it1 = it_rest it" and c: "?c \<noteq> 0"
    by (auto split: prod.splits)
  have tz: "bit ?c ?k" "?k < 64" "\<forall>j<?k. \<not> bit ?c j"
    using trailing_zeros_props [OF c] by simp_all
  have le: "it_word_idx it1 * 64 + ?k \<le> j" if "j \<in> it_rest it1" for j
  proof (cases "j div 64 = it_word_idx it1")
    case True
    with that have "bit ?c (j mod 64)" by (auto simp: it_rest_def)
    then have "?k \<le> j mod 64" using tz(3) not_less by blast
    then show ?thesis using True by (metis add_le_cancel_left div_mult_mod_eq)
  next
    case False
    with that have "it_word_idx it1 < j div 64" by (auto simp: it_rest_def)
    then show ?thesis using tz(2) by linarith
  qed
  have "it_rest (it1\<lparr>it_current := ?c AND (?c - 1)\<rparr>) = it_rest it1 - {it_word_idx it1 * 64 + ?k}"
  proof -
    have "j div 64 = it_word_idx it1 \<Longrightarrow>
        bit (?c AND (?c - 1)) (j mod 64) \<longleftrightarrow> bit ?c (j mod 64) \<and> j \<noteq> it_word_idx it1 * 64 + ?k" for j
      using clear_lowest_bit [OF tz(1,3)] tz(2) by (metis div_mult_mod_eq mod_less mod_mult_self3)
    then show ?thesis using tz(2) by (auto simp: it_rest_def)
  qed
  moreover have "it_word_idx it1 * 64 + ?k \<in> it_rest it1" using tz by (simp add: it_rest_def)
  ultimately show ?thesis
    using Some rest le by (auto simp: it_next_def BITS_PER_WORD_def split: prod.splits)
qed

lemma it_next_decreases:
  assumes "(Some i, it') = it_next it"
  shows "card (it_rest it') < card (it_rest it)"
proof -
  from assms have "i \<in> it_rest it" "it_rest it' = it_rest it - {i}"
    using it_next_spec [of it] by (simp_all flip: assms)
  then show ?thesis by (simp add: card_Diff1_less del: card_Diff_insert)
qed

text \<open>\<^verbatim>\<open>for i in &set\<close>, as the list of the values of \<^verbatim>\<open>next\<close>.\<close>

function it_collect :: "BitSetIter \<Rightarrow> nat list" where
  "it_collect it = (case it_next it of (None, _) \<Rightarrow> [] | (Some i, it') \<Rightarrow> i # it_collect it')"
  by pat_completeness auto
termination
  by (relation "measure (\<lambda>it. card (it_rest it))") (auto dest: it_next_decreases)

declare it_collect.simps [simp del]

lemma it_collect_spec: "it_collect it = sorted_list_of_set (it_rest it)"
proof (induction it rule: it_collect.induct)
  case (1 it)
  show ?case
  proof (cases "it_next it")
    case (Pair o' it')
    show ?thesis
    proof (cases o')
      case None
      with Pair it_next_spec [of it] show ?thesis by (subst it_collect.simps) auto
    next
      case (Some i)
      with Pair it_next_spec [of it]
      have i: "i \<in> it_rest it" "\<forall>j\<in>it_rest it. i \<le> j" and r: "it_rest it' = it_rest it - {i}" by auto
      have "Min (it_rest it) = i" using i by (intro Min_eqI) auto
      then have "sorted_list_of_set (it_rest it) = i # sorted_list_of_set (it_rest it')"
        using i(1) r by (subst sorted_list_of_set_nonempty) auto
      with Pair Some "1.IH" show ?thesis by (subst it_collect.simps) auto
    qed
  qed
qed

subsection \<open>First fit\<close>

definition fits :: "BitSet \<Rightarrow> nat \<Rightarrow> nat \<Rightarrow> bool" where
  "fits s n p \<longleftrightarrow> p + n \<le> bs_capacity s \<and> (\<forall>i<n. p + i \<notin> bs_elems s)"

definition aligned_to :: "nat \<Rightarrow> nat \<Rightarrow> nat \<Rightarrow> bool" where
  "aligned_to m off p \<longleftrightarrow> (int p - int off) mod int m = 0"

lemma wrapping_sub_mod:
  assumes "m dvd usize_modulus"
  shows "int (wrapping_sub p off mod m) = (int p - int off) mod int m"
proof -
  have "int (wrapping_sub p off mod m) = int (p + (usize_modulus - off mod usize_modulus)) mod int m"
    using assms by (simp add: wrapping_sub_def mod_mod_cancel zmod_int)
  also have "int (p + (usize_modulus - off mod usize_modulus)) =
      int p + (int usize_modulus - int off mod int usize_modulus)"
    by (simp add: of_nat_diff usize_modulus_def zmod_int)
  also have "\<dots> mod int m = (int p - int off) mod int m"
  proof -
    have "int m dvd int usize_modulus" using assms by presburger
    then have "int m dvd int usize_modulus * (1 + int off div int usize_modulus)" by simp
    moreover have "int p + (int usize_modulus - int off mod int usize_modulus) - (int p - int off) =
        int usize_modulus * (1 + int off div int usize_modulus)"
      by (simp add: algebra_simps)
    ultimately show ?thesis by (metis mod_eq_dvd_iff)
  qed
  finally show ?thesis .
qed

lemma align_pos_spec:
  assumes "m dvd usize_modulus" and "0 < m"
  shows "aligned_to m off (align_pos m off p)" and "align_pos m off p < p + m"
    and "p \<le> q \<Longrightarrow> q < align_pos m off p \<Longrightarrow> \<not> aligned_to m off q"
proof -
  let ?r = "wrapping_sub p off mod m"
  have r: "int ?r = (int p - int off) mod int m" by (rule wrapping_sub_mod [OF assms(1)])
  have rm: "?r < m" using assms(2) by simp
  show "align_pos m off p < p + m" using assms(2) by (simp add: align_pos_def Let_def)
  have "aligned_to m off (p + k) \<longleftrightarrow> int m dvd int ?r + int k" for k
  proof -
    have "(int (p + k) - int off) mod int m = (int ?r + int k) mod int m"
      by (simp add: r mod_simps algebra_simps)
    then show ?thesis by (simp add: aligned_to_def dvd_eq_mod_eq_0)
  qed
  note al = this
  show "aligned_to m off (align_pos m off p)"
    using al [of 0] al [of "m - ?r"] rm by (auto simp: align_pos_def Let_def of_nat_diff)
  show "\<not> aligned_to m off q" if q: "p \<le> q" "q < align_pos m off p"
  proof
    assume "aligned_to m off q"
    with al [of "q - p"] q have "int m dvd int ?r + int (q - p)" by simp
    then have "int m dvd int (?r + (q - p))" by simp
    then have d: "m dvd ?r + (q - p)" using of_nat_dvd_iff by blast
    from q have "?r \<noteq> 0" and "q - p < m - ?r" by (auto simp: align_pos_def Let_def split: if_splits)
    then have "0 < ?r + (q - p)" "?r + (q - p) < m" by auto
    with d show False by (simp add: nat_dvd_not_less)
  qed
qed

lemma first_set_in_None: "first_set_in s p n = None \<longleftrightarrow> (\<forall>i<n. p + i \<notin> bs_elems s)"
  by (auto simp: first_set_in_def find_None_iff bs_contains_iff)

lemma first_set_in_Some: "first_set_in s p n = Some i \<Longrightarrow> i < n \<and> p + i \<in> bs_elems s"
  by (auto simp: first_set_in_def find_Some_iff bs_contains_iff)

lemma find_range_loop_first_fit:
  assumes "m dvd usize_modulus" and "0 < m" and "0 < n"
    and "pos0 + m + n < usize_modulus" and "bs_capacity s + m + n < usize_modulus"
  shows "\<exists>r. find_range_loop s n m off pos0 = Some r \<and>
    (case r of
       Some p \<Rightarrow> pos0 \<le> p \<and> aligned_to m off p \<and> fits s n p \<and>
         (\<forall>q. pos0 \<le> q \<and> q < p \<and> aligned_to m off q \<longrightarrow> \<not> fits s n q)
     | None \<Rightarrow> \<forall>q. pos0 \<le> q \<and> aligned_to m off q \<longrightarrow> \<not> fits s n q)"
  using assms
proof (induction s n m off pos0 rule: find_range_loop.induct)
  case (1 s n m off pos0)
  let ?p = "align_pos m off pos0"
  note ap = align_pos_spec [OF "1.prems"(1,2), where off = off]
  have ge: "pos0 \<le> ?p" by (rule align_pos_ge)
  have no: "\<not> ?p + n \<ge> usize_modulus" using ap(2) [of pos0] "1.prems"(4) by linarith
  have skip: "q = ?p \<or> ?p < q" if "pos0 \<le> q" "aligned_to m off q" for q
    using ap(3) [of pos0 q] that by (meson linorder_neqE_nat)
  show ?case
  proof (cases "?p + n > bs_capacity s")
    case True
    then have "find_range_loop s n m off pos0 = Some None"
      using "1.prems"(2) no by (subst find_range_loop.simps) (simp add: Let_def)
    moreover have "\<forall>q. pos0 \<le> q \<and> aligned_to m off q \<longrightarrow> \<not> fits s n q"
      using True skip by (fastforce simp: fits_def)
    ultimately show ?thesis by simp
  next
    case False
    show ?thesis
    proof (cases "first_set_in s ?p n")
      case None
      then have "find_range_loop s n m off pos0 = Some (Some ?p)"
        using "1.prems"(2) no False by (subst find_range_loop.simps) (simp add: Let_def)
      moreover have "fits s n ?p" using None False by (simp add: fits_def first_set_in_None)
      ultimately show ?thesis using ge ap(1) ap(3) by auto
    next
      case (Some i)
      then have eq: "find_range_loop s n m off pos0 = find_range_loop s n m off (?p + i + 1)"
        using "1.prems"(2) no False by (subst find_range_loop.simps) (simp add: Let_def)
      have i: "i < n" "?p + i \<in> bs_elems s" using first_set_in_Some [OF Some] by auto
      have blocked: "\<not> fits s n q" if "pos0 \<le> q" "aligned_to m off q" "q < ?p + i + 1" for q
      proof -
        from skip [OF that(1,2)] have "?p \<le> q" by auto
        then have "?p + i = q + (?p + i - q)" "?p + i - q < n" using that(3) i(1) by auto
        with i(2) show ?thesis by (metis fits_def)
      qed
      have "\<exists>r. find_range_loop s n m off (?p + i + 1) = Some r \<and>
        (case r of
           Some p \<Rightarrow> ?p + i + 1 \<le> p \<and> aligned_to m off p \<and> fits s n p \<and>
             (\<forall>q. ?p + i + 1 \<le> q \<and> q < p \<and> aligned_to m off q \<longrightarrow> \<not> fits s n q)
         | None \<Rightarrow> \<forall>q. ?p + i + 1 \<le> q \<and> aligned_to m off q \<longrightarrow> \<not> fits s n q)"
        by (rule "1.IH" [OF _ refl _ _ Some]) (use "1.prems" no False i(1) in auto)
      with eq ge blocked show ?thesis by (fastforce split: option.splits simp: not_less)
    qed
  qed
qed

subsection \<open>Properties\<close>

text \<open>
  Property C21.  Every operation of the bit set implements the operation on sets of indices: new sets
  are empty; \<^verbatim>\<open>insert\<close> and \<^verbatim>\<open>remove\<close> change the set as expected and report whether they changed
  it, also for indices beyond the allocated words; the binary operations are union, intersection,
  difference and inclusion, whatever the lengths of the two word vectors; \<^verbatim>\<open>len\<close> is the
  cardinality.
\<close>

theorem bitset_refines_sets:
  "bs_elems (bs_new c) = {} \<and>
   bs_elems (snd (bs_insert i s)) = insert i (bs_elems s) \<and> (fst (bs_insert i s) \<longleftrightarrow> i \<notin> bs_elems s) \<and>
   bs_elems (snd (bs_remove i s)) = bs_elems s - {i} \<and> (fst (bs_remove i s) \<longleftrightarrow> i \<in> bs_elems s) \<and>
   (bs_contains s i \<longleftrightarrow> i \<in> bs_elems s) \<and>
   bs_elems (bs_union s t) = bs_elems s \<union> bs_elems t \<and>
   bs_elems (bs_intersect s t) = bs_elems s \<inter> bs_elems t \<and>
   bs_elems (bs_difference s t) = bs_elems s - bs_elems t \<and>
   bs_elems (bs_bitor s t) = bs_elems s \<union> bs_elems t \<and>
   bs_elems (bs_sub s t) = bs_elems s - bs_elems t \<and>
   (bs_is_subset_of s t \<longleftrightarrow> bs_elems s \<subseteq> bs_elems t) \<and>
   (bs_is_empty s \<longleftrightarrow> bs_elems s = {}) \<and>
   bs_elems (bs_clear s) = {} \<and>
   bs_len s = card (bs_elems s)"
  by (simp add: bs_contains_iff bs_is_subset_of_iff bs_is_empty_iff bs_len_card)

text \<open>
  Iterating over a bit set always ends and yields exactly its elements, each once, in
  increasing order.
\<close>

theorem iter_enumerates: "it_collect (bs_iter s) = sorted_list_of_set (bs_elems s)"
  by (simp add: it_collect_spec it_rest_iter)

text \<open>
  Property C37.  For an alignment that divides the word size of \<^verbatim>\<open>usize\<close> (every power of two up to
  it) and sizes that do not overflow it, \<^verbatim>\<open>find_aligned_unset_range\<close> returns, and it returns the
  first position at or after \<^verbatim>\<open>start\<close> that is aligned, fits below the capacity and has all its bits
  unset; it returns \<^verbatim>\<open>None\<close> only when there is no such position.
\<close>

theorem find_aligned_unset_range_first_fit:
  assumes "m dvd usize_modulus" and "0 < m" and "0 < n"
    and "start + m + n < usize_modulus" and "bs_capacity s + m + n < usize_modulus"
  shows "\<exists>r. find_aligned_unset_range s start n m off = Some r \<and>
    (case r of
       Some p \<Rightarrow> start \<le> p \<and> aligned_to m off p \<and> fits s n p \<and>
         (\<forall>q. start \<le> q \<and> q < p \<and> aligned_to m off q \<longrightarrow> \<not> fits s n q)
     | None \<Rightarrow> \<forall>q. start \<le> q \<and> aligned_to m off q \<longrightarrow> \<not> fits s n q)"
  using find_range_loop_first_fit [OF assms] assms(3) by (simp add: find_aligned_unset_range_def)

theorem find_aligned_unset_range_first_fit_witness:
  "\<exists>r. find_aligned_unset_range (snd (bs_insert 5 (bs_new 16))) 3 2 4 0 = Some r \<and>
    (case r of
       Some p \<Rightarrow> 3 \<le> p \<and> aligned_to 4 0 p \<and> fits (snd (bs_insert 5 (bs_new 16))) 2 p \<and>
         (\<forall>q. 3 \<le> q \<and> q < p \<and> aligned_to 4 0 q \<longrightarrow> \<not> fits (snd (bs_insert 5 (bs_new 16))) 2 q)
     | None \<Rightarrow> \<forall>q. 3 \<le> q \<and> aligned_to 4 0 q \<longrightarrow> \<not> fits (snd (bs_insert 5 (bs_new 16))) 2 q)"
  by (rule find_aligned_unset_range_first_fit)
    (simp_all add: usize_modulus_def bs_insert_def bs_new_def Let_def word_bit_def)

text \<open>
  Where the two documented promises fail: with an alignment that does not divide the
  word size, a start below the offset makes the wrapped difference look aligned, so the position
  returned is not aligned; and a request for no bits returns the start whatever the alignment.
\<close>

theorem find_aligned_unset_range_misaligned:
  "find_aligned_unset_range (bs_new 16) 0 1 3 1 = Some (Some 0) \<and> \<not> aligned_to 3 1 0 \<and>
   find_aligned_unset_range (bs_new 16) 1 0 4 0 = Some (Some 1) \<and> \<not> aligned_to 4 0 1"
proof (intro conjI)
  have "align_pos 3 1 0 = 0"
    by (simp add: align_pos_def wrapping_sub_def usize_modulus_def Let_def)
  moreover have "first_set_in (bs_new 16) 0 1 = None"
    by (simp add: first_set_in_None)
  ultimately show "find_aligned_unset_range (bs_new 16) 0 1 3 1 = Some (Some 0)"
    by (simp add: find_aligned_unset_range_def find_range_loop.simps usize_modulus_def Let_def bs_new_def)
qed (simp_all add: aligned_to_def find_aligned_unset_range_def)

end
