(* ===== verification/Cfg.thy ===== *)
theory Cfg
  imports Prelude
begin

text \<open>
  \<^verbatim>\<open>coral-reef-stubs/src/cfg\<close> (\<^verbatim>\<open>types.rs\<close>, \<^verbatim>\<open>builder.rs\<close>, \<^verbatim>\<open>ops.rs\<close>,
  \<^verbatim>\<open>traverse.rs\<close>): the control-flow graph.  The two hash maps are maps from node ids to lists;
  their consistency (an edge is in one exactly when it is in the other, as often) is the invariant
  every operation keeps.  The reverse post-order is shown to list the reachable nodes once, entry
  first.
\<close>

subsection \<open>Types\<close>

type_synonym NodeId = nat

record Edge =
  e_from :: NodeId
  e_to :: NodeId

text \<open>The cached result of the dominator analysis (filled in by theory \<^verbatim>\<open>Dominators\<close>).\<close>

record DomAnalysis =
  da_dom_parent :: "NodeId option list"
  da_dom_dfs_pre :: "nat list"
  da_loop_depth :: "nat list"
  da_has_loop :: bool

record 'b CFG =
  cfg_blocks :: "'b list"
  cfg_successors :: "NodeId \<rightharpoonup> NodeId list"
  cfg_predecessors :: "NodeId \<rightharpoonup> NodeId list"
  cfg_dom_analysis :: "DomAnalysis option"

definition cfg_default :: "'b CFG" where
  "cfg_default = \<lparr>cfg_blocks = [], cfg_successors = Map.empty, cfg_predecessors = Map.empty,
     cfg_dom_analysis = None\<rparr>"

subsection \<open>Operations\<close>

definition cfg_len :: "'b CFG \<Rightarrow> nat" where "cfg_len g = length (cfg_blocks g)"

definition cfg_block :: "'b CFG \<Rightarrow> NodeId \<Rightarrow> 'b option" where "cfg_block g i = index (cfg_blocks g) i"

text \<open>\<^verbatim>\<open>map.get(&id).map_or(&[], ..)\<close>\<close>

definition get_or_nil :: "(nat \<rightharpoonup> 'a list) \<Rightarrow> nat \<Rightarrow> 'a list" where
  "get_or_nil m k = (case m k of None \<Rightarrow> [] | Some l \<Rightarrow> l)"

definition successors :: "'b CFG \<Rightarrow> NodeId \<Rightarrow> NodeId list" where
  "successors g i = get_or_nil (cfg_successors g) i"

definition predecessors :: "'b CFG \<Rightarrow> NodeId \<Rightarrow> NodeId list" where
  "predecessors g i = get_or_nil (cfg_predecessors g) i"

definition cfg_entry :: "'b CFG \<Rightarrow> NodeId option" where
  "cfg_entry g = (if cfg_blocks g = [] then None else Some 0)"

definition cfg_push :: "'b CFG \<Rightarrow> 'b \<Rightarrow> NodeId \<times> 'b CFG" where
  "cfg_push g block = (length (cfg_blocks g), g\<lparr>cfg_blocks := cfg_blocks g @ [block]\<rparr>)"

text \<open>\<^verbatim>\<open>map.entry(k).or_default().push(v)\<close>\<close>

definition entry_push :: "nat \<Rightarrow> 'a \<Rightarrow> (nat \<rightharpoonup> 'a list) \<Rightarrow> (nat \<rightharpoonup> 'a list)" where
  "entry_push k v m = m(k \<mapsto> get_or_nil m k @ [v])"

definition cfg_add_edge :: "'b CFG \<Rightarrow> NodeId \<Rightarrow> NodeId \<Rightarrow> 'b CFG" where
  "cfg_add_edge g from to =
     g\<lparr>cfg_successors := entry_push from to (cfg_successors g),
       cfg_predecessors := entry_push to from (cfg_predecessors g)\<rparr>"

text \<open>\<^verbatim>\<open>if let Some(l) = map.get_mut(&k) { l.retain(|&x| x != v) }\<close>\<close>

definition retain_ne :: "nat \<Rightarrow> nat \<Rightarrow> (nat \<rightharpoonup> nat list) \<Rightarrow> (nat \<rightharpoonup> nat list)" where
  "retain_ne v k m = (case m k of None \<Rightarrow> m | Some l \<Rightarrow> m(k \<mapsto> filter (\<lambda>x. x \<noteq> v) l))"

text \<open>The two halves of \<^verbatim>\<open>disconnect_block\<close>, and the operation.\<close>

definition disconnect_succs :: "NodeId \<Rightarrow> 'b CFG \<Rightarrow> 'b CFG" where
  "disconnect_succs i g =
     (case cfg_successors g i of
        None \<Rightarrow> g
      | Some succs \<Rightarrow> g\<lparr>cfg_successors := (cfg_successors g)(i := None),
           cfg_predecessors := fold (retain_ne i) succs (cfg_predecessors g)\<rparr>)"

definition disconnect_preds :: "NodeId \<Rightarrow> 'b CFG \<Rightarrow> 'b CFG" where
  "disconnect_preds i g =
     (case cfg_predecessors g i of
        None \<Rightarrow> g
      | Some preds \<Rightarrow> g\<lparr>cfg_predecessors := (cfg_predecessors g)(i := None),
           cfg_successors := fold (retain_ne i) preds (cfg_successors g)\<rparr>)"

definition disconnect_block :: "'b CFG \<Rightarrow> NodeId \<Rightarrow> 'b CFG" where
  "disconnect_block g i = (disconnect_preds i (disconnect_succs i g))\<lparr>cfg_dom_analysis := None\<rparr>"

subsection \<open>The builder\<close>

record 'b CFGBuilder =
  cb_blocks :: "'b list"
  cb_edges :: "Edge list"

definition cb_new :: "'b CFGBuilder" where "cb_new = \<lparr>cb_blocks = [], cb_edges = []\<rparr>"

definition cb_add_block :: "'b CFGBuilder \<Rightarrow> 'b \<Rightarrow> NodeId \<times> 'b CFGBuilder" where
  "cb_add_block b block = (length (cb_blocks b), b\<lparr>cb_blocks := cb_blocks b @ [block]\<rparr>)"

definition cb_add_edge :: "'b CFGBuilder \<Rightarrow> NodeId \<Rightarrow> NodeId \<Rightarrow> 'b CFGBuilder" where
  "cb_add_edge b from to = b\<lparr>cb_edges := cb_edges b @ [\<lparr>e_from = from, e_to = to\<rparr>]\<rparr>"

definition cb_edges_debug :: "'b CFGBuilder \<Rightarrow> (nat \<times> nat) list" where
  "cb_edges_debug b = map (\<lambda>e. (e_from e, e_to e)) (cb_edges b)"

definition cb_build :: "'b CFGBuilder \<Rightarrow> 'b CFG" where
  "cb_build b =
     (let (ss, ps) = fold (\<lambda>e (ss, ps). (entry_push (e_from e) (e_to e) ss,
                                          entry_push (e_to e) (e_from e) ps))
                        (cb_edges b) (Map.empty, Map.empty)
      in \<lparr>cfg_blocks = cb_blocks b, cfg_successors = ss, cfg_predecessors = ps,
          cfg_dom_analysis = None\<rparr>)"

subsection \<open>Reverse post-order\<close>

text \<open>
  \<^verbatim>\<open>rpo_dfs\<close> recurses on the native stack; the first argument bounds its depth and
  \<^const>\<open>None\<close> means it is exceeded.  \<^verbatim>\<open>reverse_post_order\<close> is given one level more than there
  are blocks, which is shown to be enough.
\<close>

fun rpo_dfs :: "nat \<Rightarrow> 'b CFG \<Rightarrow> NodeId \<Rightarrow> bool list \<times> NodeId list \<Rightarrow> (bool list \<times> NodeId list) option"
  where
  "rpo_dfs 0 g node st = None"
| "rpo_dfs (Suc depth) g node (visited, order) =
     (if node \<ge> length visited \<or> visited ! node then Some (visited, order)
      else case foldM (rpo_dfs depth g) (successors g node) (visited[node := True], order) of
             None \<Rightarrow> None
           | Some (visited', order') \<Rightarrow> Some (visited', order' @ [node]))"

definition reverse_post_order_opt :: "'b CFG \<Rightarrow> NodeId list option" where
  "reverse_post_order_opt g =
     (let n = length (cfg_blocks g) in
      if n = 0 then Some []
      else map_option (\<lambda>(_, order). rev order) (rpo_dfs (Suc n) g 0 (replicate n False, [])))"

definition reverse_post_order :: "'b CFG \<Rightarrow> NodeId list" where
  "reverse_post_order g = (case reverse_post_order_opt g of None \<Rightarrow> [] | Some order \<Rightarrow> order)"

subsection \<open>Consistency of the two edge maps\<close>

definition cfg_wf :: "'b CFG \<Rightarrow> bool" where
  "cfg_wf g \<longleftrightarrow> (\<forall>u v. count_list (successors g u) v = count_list (predecessors g v) u)"

lemma get_or_nil_entry_push [simp]:
  "get_or_nil (entry_push k v m) k' = (if k' = k then get_or_nil m k @ [v] else get_or_nil m k')"
  by (simp add: get_or_nil_def entry_push_def)

lemma get_or_nil_empty [simp]: "get_or_nil Map.empty k = []"
  by (simp add: get_or_nil_def)

lemma get_or_nil_retain_ne [simp]:
  "get_or_nil (retain_ne v k m) k' =
     (if k' = k then filter (\<lambda>x. x \<noteq> v) (get_or_nil m k') else get_or_nil m k')"
  by (auto simp: get_or_nil_def retain_ne_def split: option.splits)

lemma get_or_nil_fold_retain_ne:
  "get_or_nil (fold (retain_ne v) ks m) k =
     (if k \<in> set ks then filter (\<lambda>x. x \<noteq> v) (get_or_nil m k) else get_or_nil m k)"
  by (induction ks arbitrary: m) (auto simp: filter_filter)

lemma get_or_nil_remove [simp]:
  "get_or_nil (m(k := None)) k' = (if k' = k then [] else get_or_nil m k')"
  by (simp add: get_or_nil_def)

lemma cfg_wf_mem: "cfg_wf g \<Longrightarrow> v \<in> set (successors g u) \<longleftrightarrow> u \<in> set (predecessors g v)"
  by (metis cfg_wf_def count_list_0_iff)

lemma cfg_wf_default [inv_intros]: "cfg_wf cfg_default"
  by (simp add: cfg_wf_def cfg_default_def successors_def predecessors_def)

lemma cfg_wf_push [inv_intros]: "cfg_wf g \<Longrightarrow> cfg_wf (snd (cfg_push g b))"
  by (simp add: cfg_wf_def cfg_push_def successors_def predecessors_def)

lemma successors_add_edge [simp]:
  "successors (cfg_add_edge g a b) u = (if u = a then successors g u @ [b] else successors g u)"
  by (simp add: successors_def cfg_add_edge_def)

lemma predecessors_add_edge [simp]:
  "predecessors (cfg_add_edge g a b) u = (if u = b then predecessors g u @ [a] else predecessors g u)"
  by (simp add: predecessors_def cfg_add_edge_def)

lemma cfg_wf_add_edge [inv_intros]: "cfg_wf g \<Longrightarrow> cfg_wf (cfg_add_edge g a b)"
  by (simp add: cfg_wf_def)


lemma filter_ne_id: "v \<notin> set xs \<Longrightarrow> filter (\<lambda>x. x \<noteq> v) xs = xs"
  by (induction xs) auto

lemma disconnect_succs_edges:
  "successors (disconnect_succs i g) v = (if v = i then [] else successors g v)"
  "predecessors (disconnect_succs i g) v =
     (if v \<in> set (successors g i) then filter (\<lambda>x. x \<noteq> i) (predecessors g v) else predecessors g v)"
  by (auto simp: disconnect_succs_def successors_def predecessors_def get_or_nil_fold_retain_ne
      get_or_nil_def [of "cfg_successors g"] split: option.splits)

lemma disconnect_preds_edges:
  "predecessors (disconnect_preds i g) v = (if v = i then [] else predecessors g v)"
  "successors (disconnect_preds i g) v =
     (if v \<in> set (predecessors g i) then filter (\<lambda>x. x \<noteq> i) (successors g v) else successors g v)"
  by (auto simp: disconnect_preds_def successors_def predecessors_def get_or_nil_fold_retain_ne
      get_or_nil_def [of "cfg_predecessors g"] split: option.splits)

lemma disconnect_edges:
  assumes "cfg_wf g"
  shows "successors (disconnect_block g i) u = (if u = i then [] else filter (\<lambda>x. x \<noteq> i) (successors g u))"
    and "predecessors (disconnect_block g i) u = (if u = i then [] else filter (\<lambda>x. x \<noteq> i) (predecessors g u))"
proof -
  have cache: "successors (h\<lparr>cfg_dom_analysis := d\<rparr>) = successors h"
    "predecessors (h\<lparr>cfg_dom_analysis := d\<rparr>) = predecessors h" for h :: "'a CFG" and d
    by (auto simp: successors_def predecessors_def)
  have p1: "predecessors (disconnect_succs i g) v = filter (\<lambda>x. x \<noteq> i) (predecessors g v)" for v
    using cfg_wf_mem [OF assms, of v i] by (auto simp: disconnect_succs_edges filter_ne_id)
  show "predecessors (disconnect_block g i) u =
      (if u = i then [] else filter (\<lambda>x. x \<noteq> i) (predecessors g u))"
    by (simp add: disconnect_block_def cache disconnect_preds_edges p1)
  show "successors (disconnect_block g i) u =
      (if u = i then [] else filter (\<lambda>x. x \<noteq> i) (successors g u))"
    using cfg_wf_mem [OF assms, of i u]
    by (auto simp: disconnect_block_def cache disconnect_preds_edges p1 disconnect_succs_edges filter_ne_id)
qed

lemma count_filter_ne: "count_list (filter (\<lambda>x. x \<noteq> v) xs) y = (if y = v then 0 else count_list xs y)"
  by (induction xs) auto

lemma cfg_wf_disconnect [inv_intros]: "cfg_wf g \<Longrightarrow> cfg_wf (disconnect_block g i)"
  by (auto simp: cfg_wf_def [of "disconnect_block g i"] disconnect_edges count_filter_ne)
     (simp add: cfg_wf_def)

lemma build_edges:
  "successors (cb_build b) u = map e_to (filter (\<lambda>e. e_from e = u) (cb_edges b)) \<and>
   predecessors (cb_build b) u = map e_from (filter (\<lambda>e. e_to e = u) (cb_edges b))"
proof -
  let ?f = "\<lambda>e (ss, ps). (entry_push (e_from e) (e_to e) ss, entry_push (e_to e) (e_from e) ps)"
  have "get_or_nil (fst (fold ?f es (ss, ps))) u =
          get_or_nil ss u @ map e_to (filter (\<lambda>e. e_from e = u) es) \<and>
        get_or_nil (snd (fold ?f es (ss, ps))) u =
          get_or_nil ps u @ map e_from (filter (\<lambda>e. e_to e = u) es)" for es ss ps
    by (induction es arbitrary: ss ps) auto
  from this [of "cb_edges b" Map.empty Map.empty] show ?thesis
    by (auto simp: cb_build_def successors_def predecessors_def Let_def split: prod.splits)
qed

lemma cfg_wf_build [inv_intros]: "cfg_wf (cb_build b)"
proof -
  have "count_list (map e_to (filter (\<lambda>e. e_from e = u) es)) v =
        count_list (map e_from (filter (\<lambda>e. e_to e = v) es)) u" for es :: "Edge list" and u v
    by (induction es) auto
  then show ?thesis by (simp add: cfg_wf_def build_edges)
qed

subsection \<open>Reachability\<close>

definition edge_rel :: "'b CFG \<Rightarrow> (NodeId \<times> NodeId) set" where
  "edge_rel g = {(u, v). v \<in> set (successors g u) \<and> v < cfg_len g}"

definition reachable_from :: "'b CFG \<Rightarrow> NodeId \<Rightarrow> NodeId \<Rightarrow> bool" where
  "reachable_from g u v \<longleftrightarrow> (u, v) \<in> (edge_rel g)\<^sup>*"

lemma reachable_refl [simp]: "reachable_from g u u"
  by (simp add: reachable_from_def)

lemma reachable_step:
  "v \<in> set (successors g u) \<Longrightarrow> v < cfg_len g \<Longrightarrow> reachable_from g v w \<Longrightarrow> reachable_from g u w"
  by (auto simp: reachable_from_def edge_rel_def intro: converse_rtrancl_into_rtrancl)

lemma reachable_lt: "reachable_from g u v \<Longrightarrow> u < cfg_len g \<Longrightarrow> v < cfg_len g"
  unfolding reachable_from_def by (induction rule: rtrancl_induct) (auto simp: edge_rel_def)

text \<open>
  What a depth-first search from the nodes of a list adds to the state: the newly visited nodes, in
  post-order.
\<close>

fun tree_order :: "'b CFG \<Rightarrow> NodeId list \<Rightarrow> NodeId list \<Rightarrow> bool" where
  "tree_order g nodes [] = True"
| "tree_order g nodes (x # xs) =
     ((x \<in> set nodes \<or> (\<exists>y\<in>set xs. x \<in> set (successors g y))) \<and> tree_order g nodes xs)"

lemma tree_order_append:
  "tree_order g us xs \<Longrightarrow> tree_order g vs ys \<Longrightarrow> set us \<subseteq> set ws \<Longrightarrow> set vs \<subseteq> set ws \<Longrightarrow>
   tree_order g ws (xs @ ys)"
proof (induction xs)
  case Nil
  then show ?case by (induction ys) auto
qed auto

lemma tree_order_parent: "tree_order g (successors g u) xs \<Longrightarrow> tree_order g [u] (xs @ [u])"
  by (induction xs) auto

lemma tree_order_rev_nth:
  assumes "tree_order g [0] xs" and "i < length xs" and "rev xs ! i \<noteq> 0"
  shows "\<exists>j<i. rev xs ! i \<in> set (successors g (rev xs ! j))"
  using assms
proof (induction xs)
  case (Cons x xs)
  show ?case
  proof (cases "i = length xs")
    case True
    with Cons.prems obtain y where "y \<in> set (rev xs)" "x \<in> set (successors g y)"
      by (auto simp: nth_append)
    moreover from this obtain j where "j < length xs" "rev xs ! j = y"
      by (metis in_set_conv_nth length_rev)
    ultimately show ?thesis using True by (auto simp: nth_append intro!: exI [of _ j])
  next
    case False
    with Cons.prems have "i < length xs" by simp
    with Cons show ?thesis by (fastforce simp: nth_append)
  qed
qed simp

definition dfs_adds ::
    "'b CFG \<Rightarrow> NodeId list \<Rightarrow> bool list \<times> NodeId list \<Rightarrow> bool list \<times> NodeId list \<Rightarrow> NodeId list \<Rightarrow> bool"
  where
  "dfs_adds g nodes st st' new \<longleftrightarrow>
     length (fst st') = length (fst st) \<and> snd st' = snd st @ new \<and> distinct new \<and> tree_order g nodes new \<and>
     sorted_wrt (\<lambda>x y. y \<in> set (successors g x) \<longrightarrow> reachable_from g y x) new \<and>
     (\<forall>x. x < length (fst st) \<longrightarrow> (fst st' ! x \<longleftrightarrow> fst st ! x \<or> x \<in> set new)) \<and>
     (\<forall>x\<in>set new. x < length (fst st) \<and> \<not> fst st ! x \<and> (\<exists>u\<in>set nodes. u < length (fst st) \<and> reachable_from g u x) \<and>
        (\<forall>y\<in>set (successors g x). y < length (fst st) \<longrightarrow> fst st' ! y)) \<and>
     (\<forall>u\<in>set nodes. u < length (fst st) \<longrightarrow> fst st' ! u)"

lemma dfs_adds_Nil: "dfs_adds g [] st st []"
  by (simp add: dfs_adds_def)

lemma dfs_adds_Cons:
  assumes "dfs_adds g [u] st st1 new1" and "dfs_adds g us st1 st' new2"
  shows "dfs_adds g (u # us) st st' (new1 @ new2)"
  using assms tree_order_append [of g "[u]" new1 us new2 "u # us"]
  unfolding dfs_adds_def by (auto 0 4 simp: sorted_wrt_append)

lemma dfs_adds_foldM:
  assumes "foldM f us st = Some st'" and "length (fst st) = n"
    and "\<And>u st st'. u \<in> set us \<Longrightarrow> length (fst st) = n \<Longrightarrow> f u st = Some st' \<Longrightarrow>
           \<exists>new. dfs_adds g [u] st st' new"
  shows "\<exists>new. dfs_adds g us st st' new"
  using assms
proof (induction us arbitrary: st)
  case Nil
  then show ?case using dfs_adds_Nil [of g st] by auto
next
  case (Cons u us)
  then obtain st1 where st1: "f u st = Some st1" "foldM f us st1 = Some st'"
    by (auto split: option.splits)
  then obtain new1 where n1: "dfs_adds g [u] st st1 new1" using Cons.prems by (metis list.set_intros(1))
  then have "length (fst st1) = n" using Cons.prems(2) by (simp add: dfs_adds_def)
  then obtain new2 where "dfs_adds g us st1 st' new2"
    using Cons.IH [OF st1(2)] Cons.prems(3) by (meson list.set_intros(2))
  with n1 show ?case using dfs_adds_Cons by blast
qed

lemma dfs_adds_node:
  assumes "dfs_adds g (successors g u) (visited[u := True], order) st' new"
    and "u < length visited" and "\<not> visited ! u" and "length visited = cfg_len g"
  shows "dfs_adds g [u] (visited, order) (fst st', snd st' @ [u]) (new @ [u])"
proof -
  have reach: "reachable_from g u x" if "x \<in> set new" for x
    using that assms(1,4) by (auto simp: dfs_adds_def intro: reachable_step)
  have fresh: "x < length visited \<and> x \<noteq> u \<and> \<not> visited ! x" if "x \<in> set new" for x
    using that assms(1,2) by (force simp: dfs_adds_def nth_list_update split: if_splits)
  then have "u \<notin> set new" by blast
  then show ?thesis
    using assms reach fresh tree_order_parent [of g u new]
    by (auto simp: dfs_adds_def sorted_wrt_append nth_list_update)
qed

lemma rpo_dfs_adds:
  assumes "rpo_dfs depth g u st = Some st'" and "length (fst st) = cfg_len g"
  shows "\<exists>new. dfs_adds g [u] st st' new"
  using assms
proof (induction depth arbitrary: u st st')
  case (Suc depth)
  obtain visited order where st: "st = (visited, order)" by (cases st)
  show ?case
  proof (cases "u \<ge> length visited \<or> visited ! u")
    case True
    with Suc.prems st have "dfs_adds g [u] st st' []" by (auto simp: dfs_adds_def)
    then show ?thesis ..
  next
    case False
    with Suc.prems st obtain v' o' where
      f: "foldM (rpo_dfs depth g) (successors g u) (visited[u := True], order) = Some (v', o')"
      and st': "st' = (v', o' @ [u])"
      by (auto split: option.splits)
    have "\<exists>new. dfs_adds g (successors g u) (visited[u := True], order) (v', o') new"
      using f by (rule dfs_adds_foldM [where n = "cfg_len g"]) (use Suc st in auto)
    then show ?thesis using dfs_adds_node [of g u visited order "(v', o')"] False Suc.prems(2) st st' by auto
  qed
qed simp

lemma rpo_dfs_returns:
  assumes "length (filter Not (fst st)) < depth"
  shows "\<exists>st'. rpo_dfs depth g u st = Some st' \<and>
    length (filter Not (fst st')) \<le> length (filter Not (fst st))"
  using assms
proof (induction depth arbitrary: u st)
  case (Suc depth)
  obtain visited order where st: "st = (visited, order)" by (cases st)
  show ?case
  proof (cases "u \<ge> length visited \<or> visited ! u")
    case True
    with st show ?thesis by auto
  next
    case False
    let ?v = "visited[u := True]"
    have "filter Not visited = filter Not (take u visited) @ False # filter Not (drop (Suc u) visited)"
      using False by (subst id_take_nth_drop [of u visited]) auto
    moreover have "filter Not ?v = filter Not (take u visited) @ filter Not (drop (Suc u) visited)"
      using False by (simp add: upd_conv_take_nth_drop)
    ultimately have dec: "length (filter Not ?v) < length (filter Not visited)" by simp
    have "\<exists>st'. foldM (rpo_dfs depth g) (successors g u) (?v, order) = Some st' \<and>
        length (filter Not (fst st')) \<le> length (filter Not ?v)"
    proof (rule foldM_total)
      fix x and s :: "bool list \<times> NodeId list"
      assume "length (filter Not (fst s)) \<le> length (filter Not ?v)"
      with dec Suc.prems st Suc.IH [of s x]
      show "\<exists>s'. rpo_dfs depth g x s = Some s' \<and> length (filter Not (fst s')) \<le> length (filter Not ?v)"
        by fastforce
    qed simp
    with False dec st show ?thesis by auto
  qed
qed simp

lemma reverse_post_order_opt_spec:
  assumes "0 < cfg_len g"
  shows "\<exists>tl. reverse_post_order_opt g = Some (0 # tl) \<and> distinct (0 # tl) \<and>
    set (0 # tl) = {v. reachable_from g 0 v} \<and>
    sorted_wrt (\<lambda>a b. a \<in> set (successors g b) \<longrightarrow> reachable_from g a b) (0 # tl) \<and>
    (\<forall>i < length (0 # tl). (0 # tl) ! i \<noteq> 0 \<longrightarrow> (\<exists>j<i. (0 # tl) ! i \<in> set (successors g ((0 # tl) ! j))))"
proof -
  let ?n = "cfg_len g"
  have "length (filter Not (replicate ?n False)) < Suc ?n" by simp
  then obtain v' o' where r: "rpo_dfs (Suc ?n) g 0 (replicate ?n False, []) = Some (v', o')"
    using rpo_dfs_returns [of "(replicate ?n False, [])"] by (metis fst_conv surj_pair)
  then obtain new where new: "dfs_adds g [0] (replicate ?n False, []) (v', o') new"
    using rpo_dfs_adds [OF r] by auto
  from r assms obtain o1 where o1: "o' = o1 @ [0]"
    by (auto split: option.splits)
  have closed: "v \<in> set new" if "reachable_from g 0 v" for v
    using that unfolding reachable_from_def
  proof (induction rule: rtrancl_induct)
    case base
    then show ?case using new assms by (auto simp: dfs_adds_def)
  next
    case (step y z)
    then have "z < ?n" "z \<in> set (successors g y)" by (auto simp: edge_rel_def)
    with step.IH new show ?case by (auto simp: dfs_adds_def)
  qed
  have "set o' = {v. reachable_from g 0 v}"
    using new closed by (auto simp: dfs_adds_def)
  moreover have "distinct o'" "sorted_wrt (\<lambda>a b. a \<in> set (successors g b) \<longrightarrow> reachable_from g a b) (rev o')"
    using new by (simp_all add: dfs_adds_def sorted_wrt_rev)
  moreover have "\<exists>j<i. rev o' ! i \<in> set (successors g (rev o' ! j))" if "i < length (rev o')" "rev o' ! i \<noteq> 0" for i
    using tree_order_rev_nth [of g o' i] new that by (simp add: dfs_adds_def)
  moreover have "reverse_post_order_opt g = Some (rev o')"
    using r assms by (simp add: reverse_post_order_opt_def cfg_len_def [symmetric] Let_def del: rpo_dfs.simps)
  moreover have "rev o' = 0 # rev o1" using o1 by simp
  ultimately show ?thesis by (intro exI [of _ "rev o1"]) simp
qed


subsection \<open>Graphs the operations build\<close>

text \<open>
  The graphs that come from \<^verbatim>\<open>CFG::default\<close> or \<^verbatim>\<open>CFGBuilder::build\<close> by any sequence of \<^verbatim>\<open>push\<close>,
  \<^verbatim>\<open>add_edge\<close> and \<^verbatim>\<open>disconnect_block\<close>, before a query of the dominators has filled the cache.  The operations
  \<^verbatim>\<open>drain\<close> and \<^verbatim>\<open>blocks_mut\<close>, which give the blocks away, are not among them.
\<close>

inductive cfg_built :: "'b CFG \<Rightarrow> bool" where
  default: "cfg_built cfg_default"
| build: "cfg_built (cb_build b)"
| push: "cfg_built g \<Longrightarrow> cfg_built (snd (cfg_push g block))"
| add_edge: "cfg_built g \<Longrightarrow> cfg_built (cfg_add_edge g from to)"
| disconnect: "cfg_built g \<Longrightarrow> cfg_built (disconnect_block g i)"

lemma cfg_built_wf: "cfg_built g \<Longrightarrow> cfg_wf g"
  by (induction rule: cfg_built.induct) (intro inv_intros; assumption)+

lemma disconnect_drops_cache: "cfg_dom_analysis (disconnect_block g i) = None"
  by (simp add: disconnect_block_def)

lemma blocks_build [simp]: "cfg_blocks (cb_build b) = cb_blocks b"
  by (simp add: cb_build_def split: prod.splits)

subsection \<open>Properties\<close>

text \<open>
  Property C39.  In every graph built by these operations the two edge maps agree: an edge
  occurs among the successors of its source exactly as often as among the predecessors of its
  target.
\<close>

theorem cfg_edges_consistent:
  assumes "cfg_built g"
  shows "\<forall>u v. count_list (successors g u) v = count_list (predecessors g v) u"
  using cfg_built_wf [OF assms] by (simp add: cfg_wf_def)

theorem cfg_edges_consistent_witness:
  "let g = disconnect_block (cfg_add_edge (cfg_add_edge (cfg_default :: nat CFG) 0 1) 1 1) 1 in
   \<forall>u v. count_list (successors g u) v = count_list (predecessors g v) u"
  unfolding Let_def by (rule cfg_edges_consistent) (intro cfg_built.intros)

text \<open>
  \<^verbatim>\<open>disconnect_block\<close> isolates the block and touches nothing else: afterwards the
  block has no edges in either map, every other node keeps its other edges in order, and the cached
  dominator analysis is dropped.
\<close>

theorem disconnect_block_isolates:
  assumes "cfg_built g"
  shows "successors (disconnect_block g i) i = [] \<and> predecessors (disconnect_block g i) i = [] \<and>
    (\<forall>u. u \<noteq> i \<longrightarrow>
       successors (disconnect_block g i) u = filter (\<lambda>x. x \<noteq> i) (successors g u) \<and>
       predecessors (disconnect_block g i) u = filter (\<lambda>x. x \<noteq> i) (predecessors g u)) \<and>
    cfg_dom_analysis (disconnect_block g i) = None"
  using cfg_built_wf [OF assms] by (simp add: disconnect_edges disconnect_drops_cache)

theorem disconnect_block_isolates_witness:
  "let g = cfg_add_edge (cfg_default :: nat CFG) 0 1 in
   successors (disconnect_block g 1) 1 = [] \<and> predecessors (disconnect_block g 1) 1 = [] \<and>
   (\<forall>u. u \<noteq> 1 \<longrightarrow>
      successors (disconnect_block g 1) u = filter (\<lambda>x. x \<noteq> 1) (successors g u) \<and>
      predecessors (disconnect_block g 1) u = filter (\<lambda>x. x \<noteq> 1) (predecessors g u)) \<and>
   cfg_dom_analysis (disconnect_block g 1) = None"
  unfolding Let_def by (rule disconnect_block_isolates) (intro cfg_built.intros)

text \<open>
  The builder's \<^verbatim>\<open>build\<close> keeps every edge, in insertion order, in both directions.
\<close>

theorem build_keeps_edges:
  "cfg_blocks (cb_build b) = cb_blocks b \<and>
   successors (cb_build b) u = map snd (filter (\<lambda>(a, _). a = u) (cb_edges_debug b)) \<and>
   predecessors (cb_build b) u = map fst (filter (\<lambda>(_, a). a = u) (cb_edges_debug b))"
  by (auto simp: build_edges cb_edges_debug_def filter_map comp_def case_prod_unfold)

text \<open>
  Property C20.  \<^verbatim>\<open>reverse_post_order\<close> of a non-empty graph returns (its recursion is never deeper
  than the number of blocks), starts with the entry, lists exactly the blocks reachable from it, each
  once; and where an edge goes backwards in the order, its target reaches its source, so on an
  acyclic graph the order is topological.
\<close>

theorem reverse_post_order_correct:
  assumes "0 < cfg_len g"
  shows "reverse_post_order_opt g = Some (reverse_post_order g) \<and> hd (reverse_post_order g) = 0 \<and>
    distinct (reverse_post_order g) \<and> set (reverse_post_order g) = {v. reachable_from g 0 v} \<and>
    sorted_wrt (\<lambda>a b. a \<in> set (successors g b) \<longrightarrow> reachable_from g a b) (reverse_post_order g)"
  using reverse_post_order_opt_spec [OF assms] by (auto simp: reverse_post_order_def)

theorem reverse_post_order_correct_witness:
  "let g = cb_build \<lparr>cb_blocks = [10, 11, 12 :: nat], cb_edges = [\<lparr>e_from = 0, e_to = 1\<rparr>, \<lparr>e_from = 1, e_to = 0\<rparr>]\<rparr>
   in reverse_post_order_opt g = Some (reverse_post_order g) \<and> hd (reverse_post_order g) = 0 \<and>
    distinct (reverse_post_order g) \<and> set (reverse_post_order g) = {v. reachable_from g 0 v} \<and>
    sorted_wrt (\<lambda>a b. a \<in> set (successors g b) \<longrightarrow> reachable_from g a b) (reverse_post_order g)"
  unfolding Let_def by (rule reverse_post_order_correct) (simp add: cfg_len_def)

end
