(* ===== verification/Dominators.thy ===== *)
theory Dominators
  imports Cfg
begin

text \<open>
  \<^verbatim>\<open>coral-reef-stubs/src/cfg/dom.rs\<close>: dominators by the iteration of Cooper, Harvey and Kennedy, back edges,
  loop depth and the pre-order of the dominator tree, with the cache the graph keeps of them.  The
  specification of dominance is by paths: \<open>a\<close> dominates \<open>b\<close> when every path from the entry to \<open>b\<close>
  visits \<open>a\<close>.  The iteration is shown to compute exactly that relation, and to end within the pass limit
  the source asserts.
\<close>

subsection \<open>The iteration\<close>

text \<open>\<^verbatim>\<open>doms.get(x).and_then(|&p| p)\<close> and \<^verbatim>\<open>v.get(x).copied().unwrap_or(0)\<close>.\<close>

definition dom_get :: "NodeId option list \<Rightarrow> NodeId \<Rightarrow> NodeId option" where
  "dom_get doms x = (if x < length doms then doms ! x else None)"

definition num_get :: "nat list \<Rightarrow> NodeId \<Rightarrow> nat" where
  "num_get v x = (if x < length v then v ! x else 0)"

definition rpo_numbers :: "NodeId list \<Rightarrow> nat \<Rightarrow> nat list" where
  "rpo_numbers rpo n =
     fold (\<lambda>(i, node) v. if node < n then v[node := i] else v) (enumerate 0 rpo) (replicate n 0)"

text \<open>
  \<^verbatim>\<open>intersect\<close>: the two inner loops are \<^verbatim>\<open>climb\<close>; a loop that does not end is \<^const>\<open>None\<close>.
\<close>

partial_function (option) climb ::
    "NodeId option list \<Rightarrow> nat list \<Rightarrow> NodeId \<Rightarrow> NodeId \<Rightarrow> NodeId option" where
  "climb doms rpo_number finger other =
     (if num_get rpo_number finger > num_get rpo_number other
      then climb doms rpo_number (case dom_get doms finger of None \<Rightarrow> finger | Some p \<Rightarrow> p) other
      else Some finger)"

partial_function (option) dom_intersect ::
    "NodeId option list \<Rightarrow> nat list \<Rightarrow> NodeId \<Rightarrow> NodeId \<Rightarrow> NodeId option" where
  "dom_intersect doms rpo_number finger1 finger2 =
     (if finger1 = finger2 then Some finger1
      else do {
        finger1 \<leftarrow> climb doms rpo_number finger1 finger2;
        finger2 \<leftarrow> climb doms rpo_number finger2 finger1;
        dom_intersect doms rpo_number finger1 finger2
      })"

text \<open>The new immediate dominator of a block: the loop over its predecessors.\<close>

definition new_idom ::
    "NodeId option list \<Rightarrow> nat list \<Rightarrow> NodeId list \<Rightarrow> NodeId option option" where
  "new_idom doms rpo_number preds =
     foldM (\<lambda>p acc.
       if dom_get doms p \<noteq> None
       then (case acc of None \<Rightarrow> Some (Some p)
             | Some prev \<Rightarrow> map_option Some (dom_intersect doms rpo_number p prev))
       else Some acc) preds None"

definition dom_node ::
    "'b CFG \<Rightarrow> nat list \<Rightarrow> nat \<Rightarrow> NodeId \<Rightarrow> NodeId \<Rightarrow> NodeId option list \<times> bool \<Rightarrow>
     (NodeId option list \<times> bool) option" where
  "dom_node g rpo_number n entry b st =
     (case st of (doms, changed) \<Rightarrow>
        if b \<ge> n then Some (doms, changed)
        else do {
          idom \<leftarrow> new_idom doms rpo_number (predecessors g b);
          let idom = (case idom of None \<Rightarrow> entry | Some i \<Rightarrow> i);
          Some (if index doms b \<noteq> Some (Some idom) then (doms[b := Some idom], True) else (doms, changed))
        })"

definition dom_pass ::
    "'b CFG \<Rightarrow> nat list \<Rightarrow> nat \<Rightarrow> NodeId list \<Rightarrow> NodeId option list \<Rightarrow> (NodeId option list \<times> bool) option" where
  "dom_pass g rpo_number n rpo doms = foldM (dom_node g rpo_number n (hd rpo)) (tl rpo) (doms, False)"

text \<open>\<^verbatim>\<open>assert!(iterations <= 1000)\<close>: the limit on the passes is the first argument.\<close>

fun dom_passes ::
    "nat \<Rightarrow> 'b CFG \<Rightarrow> nat list \<Rightarrow> nat \<Rightarrow> NodeId list \<Rightarrow> NodeId option list \<Rightarrow> NodeId option list option" where
  "dom_passes 0 g rpo_number n rpo doms = None"
| "dom_passes (Suc k) g rpo_number n rpo doms =
     do {
       (doms, changed) \<leftarrow> dom_pass g rpo_number n rpo doms;
       if changed then dom_passes k g rpo_number n rpo doms else Some doms
     }"

definition compute_dominators :: "'b CFG \<Rightarrow> NodeId list \<Rightarrow> nat \<Rightarrow> NodeId option list option" where
  "compute_dominators g rpo n =
     do {
       entry \<leftarrow> index rpo 0;
       doms \<leftarrow> store (replicate n None) entry (Some entry);
       doms \<leftarrow> dom_passes 1000 g (rpo_numbers rpo n) n rpo doms;
       Some (map (dom_get doms) [0..<n])
     }"

subsection \<open>Walks up the dominator tree\<close>

text \<open>\<^verbatim>\<open>dom_path_reaches\<close>, and the loop of \<^verbatim>\<open>dominates\<close>.\<close>

partial_function (option) dom_path_reaches :: "NodeId option list \<Rightarrow> NodeId \<Rightarrow> NodeId \<Rightarrow> bool option" where
  "dom_path_reaches dom_parent finger target =
     (if finger = target then Some True
      else case dom_get dom_parent finger of
             None \<Rightarrow> Some False
           | Some p \<Rightarrow> if p \<noteq> finger then dom_path_reaches dom_parent p target else Some False)"

declare climb.simps [code] dom_intersect.simps [code] dom_path_reaches.simps [code]

subsection \<open>Back edges and loop depth\<close>

text \<open>
  The loops over \<^verbatim>\<open>&self.successors\<close> visit the keys of a hash map: their order is the argument \<open>keys\<close>.
\<close>

fun any_edge :: "(NodeId \<Rightarrow> NodeId \<Rightarrow> bool option) \<Rightarrow> (NodeId \<times> NodeId) list \<Rightarrow> bool option" where
  "any_edge f [] = Some False"
| "any_edge f ((from, to) # es) = do { b \<leftarrow> f from to; if b then Some True else any_edge f es }"

definition edges_of :: "'b CFG \<Rightarrow> NodeId list \<Rightarrow> (NodeId \<times> NodeId) list" where
  "edges_of g keys = concat (map (\<lambda>from. map (Pair from) (successors g from)) keys)"

definition detect_back_edges :: "'b CFG \<Rightarrow> NodeId list \<Rightarrow> NodeId option list \<Rightarrow> nat \<Rightarrow> bool option" where
  "detect_back_edges g keys dom_parent n =
     any_edge (\<lambda>from to.
       if to < n \<and> from < n \<and> dom_get dom_parent to \<noteq> None then dom_path_reaches dom_parent from to
       else Some False) (edges_of g keys)"

text \<open>
  The body of a loop, walked backwards from the source of the back edge; the top of the stack is the last
  element.
\<close>

partial_function (option) loop_body :: "'b CFG \<Rightarrow> NodeId list \<Rightarrow> NodeId set \<Rightarrow> NodeId set option" where
  "loop_body g stack in_loop =
     (if stack = [] then Some in_loop
      else let node = last stack; stack = butlast stack in
        if node \<in> in_loop then loop_body g stack in_loop
        else loop_body g (stack @ predecessors g node) (insert node in_loop))"

text \<open>\<^verbatim>\<open>saturating_add(1)\<close> cannot saturate: there is at most one increment per block.\<close>

definition bump_depths :: "NodeId set \<Rightarrow> nat list \<Rightarrow> nat list" where
  "bump_depths in_loop loop_depth =
     map (\<lambda>i. if i \<in> in_loop then Suc (loop_depth ! i) else loop_depth ! i) [0..<length loop_depth]"

definition loop_edge ::
    "'b CFG \<Rightarrow> NodeId option list \<Rightarrow> nat \<Rightarrow> NodeId \<times> NodeId \<Rightarrow> NodeId set \<times> nat list \<Rightarrow>
     (NodeId set \<times> nat list) option" where
  "loop_edge g dom_parent n e st =
     (case (e, st) of ((from, to), (processed_headers, loop_depth)) \<Rightarrow>
        if to \<ge> n \<or> from \<ge> n \<or> to \<in> processed_headers then Some (processed_headers, loop_depth)
        else do {
          reaches \<leftarrow> dom_path_reaches dom_parent from to;
          if \<not> reaches then Some (processed_headers, loop_depth)
          else do {
            in_loop \<leftarrow> loop_body g [from] {to};
            Some (insert to processed_headers, bump_depths in_loop loop_depth)
          }
        })"

definition compute_loop_depth ::
    "'b CFG \<Rightarrow> NodeId list \<Rightarrow> NodeId option list \<Rightarrow> nat \<Rightarrow> bool \<Rightarrow> nat list option" where
  "compute_loop_depth g keys dom_parent n has_loop =
     (if \<not> has_loop then Some (replicate n 0)
      else map_option snd (foldM (loop_edge g dom_parent n) (edges_of g keys) ({}, replicate n 0)))"

subsection \<open>Pre-order of the dominator tree\<close>

definition dom_children :: "NodeId option list \<Rightarrow> nat \<Rightarrow> NodeId \<Rightarrow> NodeId list" where
  "dom_children dom_parent n node = filter (\<lambda>i. i \<noteq> node \<and> dom_get dom_parent i = Some node) [0..<n]"

partial_function (option) dfs_pre_loop ::
    "NodeId option list \<Rightarrow> nat \<Rightarrow> NodeId list \<Rightarrow> nat \<Rightarrow> nat list \<Rightarrow> nat list option" where
  "dfs_pre_loop dom_parent n stack counter dom_dfs_pre =
     (if stack = [] then Some dom_dfs_pre
      else let node = last stack; stack = butlast stack in
        if node \<ge> n then dfs_pre_loop dom_parent n stack counter dom_dfs_pre
        else dfs_pre_loop dom_parent n (stack @ rev (dom_children dom_parent n node)) (counter + 1)
               (dom_dfs_pre[node := counter]))"

definition compute_dom_dfs_pre :: "NodeId option list \<Rightarrow> NodeId \<Rightarrow> nat \<Rightarrow> nat list option" where
  "compute_dom_dfs_pre dom_parent entry n = dfs_pre_loop dom_parent n [entry] 0 (replicate n 0)"

declare loop_body.simps [code] dfs_pre_loop.simps [code]

subsection \<open>The analysis and its cache\<close>

definition compute_dom_analysis :: "NodeId list \<Rightarrow> 'b CFG \<Rightarrow> DomAnalysis option" where
  "compute_dom_analysis keys g =
     (let n = length (cfg_blocks g) in
      do {
        rpo \<leftarrow> reverse_post_order_opt g;
        if rpo = [] then Some \<lparr>da_dom_parent = [], da_dom_dfs_pre = [], da_loop_depth = [], da_has_loop = False\<rparr>
        else do {
          dom_parent \<leftarrow> compute_dominators g rpo n;
          has_loop \<leftarrow> detect_back_edges g keys dom_parent n;
          loop_depth \<leftarrow> compute_loop_depth g keys dom_parent n has_loop;
          dom_dfs_pre \<leftarrow> compute_dom_dfs_pre dom_parent (hd rpo) n;
          Some \<lparr>da_dom_parent = dom_parent, da_dom_dfs_pre = dom_dfs_pre, da_loop_depth = loop_depth,
                da_has_loop = has_loop\<rparr>
        }
      })"

text \<open>
  The cache is filled on the first query and the graph with the filled cache returned beside the answer.
\<close>

definition ensure_dom_analysis :: "NodeId list \<Rightarrow> 'b CFG \<Rightarrow> (DomAnalysis \<times> 'b CFG) option" where
  "ensure_dom_analysis keys g =
     (case cfg_dom_analysis g of
        Some a \<Rightarrow> Some (a, g)
      | None \<Rightarrow> do { a \<leftarrow> compute_dom_analysis keys g; Some (a, g\<lparr>cfg_dom_analysis := Some a\<rparr>) })"

definition da_dominates :: "DomAnalysis \<Rightarrow> NodeId \<Rightarrow> NodeId \<Rightarrow> bool option" where
  "da_dominates an a b =
     (if a \<ge> length (da_dom_parent an) \<or> b \<ge> length (da_dom_parent an) then Some False
      else dom_path_reaches (da_dom_parent an) b a)"

definition dominates :: "NodeId list \<Rightarrow> 'b CFG \<Rightarrow> NodeId \<Rightarrow> NodeId \<Rightarrow> (bool \<times> 'b CFG) option" where
  "dominates keys g a b =
     do { (an, g) \<leftarrow> ensure_dom_analysis keys g; r \<leftarrow> da_dominates an a b; Some (r, g) }"

definition is_dominated_by :: "NodeId list \<Rightarrow> 'b CFG \<Rightarrow> NodeId \<Rightarrow> NodeId \<Rightarrow> (bool \<times> 'b CFG) option" where
  "is_dominated_by keys g a b = dominates keys g b a"

definition loop_depth :: "NodeId list \<Rightarrow> 'b CFG \<Rightarrow> NodeId \<Rightarrow> (nat \<times> 'b CFG) option" where
  "loop_depth keys g i =
     do { (an, g) \<leftarrow> ensure_dom_analysis keys g; Some (num_get (da_loop_depth an) i, g) }"

definition has_loop :: "NodeId list \<Rightarrow> 'b CFG \<Rightarrow> (bool \<times> 'b CFG) option" where
  "has_loop keys g = do { (an, g) \<leftarrow> ensure_dom_analysis keys g; Some (da_has_loop an, g) }"

definition dom_parent_index :: "NodeId list \<Rightarrow> 'b CFG \<Rightarrow> NodeId \<Rightarrow> (NodeId option \<times> 'b CFG) option" where
  "dom_parent_index keys g i =
     do {
       (an, g) \<leftarrow> ensure_dom_analysis keys g;
       Some (case dom_get (da_dom_parent an) i of None \<Rightarrow> None | Some p \<Rightarrow> if p \<noteq> i then Some p else None, g)
     }"

definition idom :: "NodeId list \<Rightarrow> 'b CFG \<Rightarrow> NodeId \<Rightarrow> (NodeId option \<times> 'b CFG) option" where
  "idom keys g i = dom_parent_index keys g i"

definition dom_dfs_pre_index :: "NodeId list \<Rightarrow> 'b CFG \<Rightarrow> NodeId \<Rightarrow> (nat \<times> 'b CFG) option" where
  "dom_dfs_pre_index keys g i =
     do {
       (an, g) \<leftarrow> ensure_dom_analysis keys g;
       Some (if i < length (da_dom_dfs_pre an) then da_dom_dfs_pre an ! i else i, g)
     }"

text \<open>\<^verbatim>\<open>preds.iter().any(|&p| self.dominates(id, p))\<close>, the cache being filled.\<close>

fun any_dominated :: "DomAnalysis \<Rightarrow> NodeId \<Rightarrow> NodeId list \<Rightarrow> bool option" where
  "any_dominated an i [] = Some False"
| "any_dominated an i (p # ps) =
     do { d \<leftarrow> da_dominates an i p; if d then Some True else any_dominated an i ps }"

definition is_loop_header :: "NodeId list \<Rightarrow> 'b CFG \<Rightarrow> NodeId \<Rightarrow> (bool \<times> 'b CFG) option" where
  "is_loop_header keys g i =
     do {
       (an, g) \<leftarrow> ensure_dom_analysis keys g;
       if num_get (da_loop_depth an) i > 0
       then do { b \<leftarrow> any_dominated an i (predecessors g i); Some (b, g) }
       else Some (False, g)
     }"

partial_function (option) header_walk :: "DomAnalysis \<Rightarrow> 'b CFG \<Rightarrow> NodeId \<Rightarrow> NodeId option option" where
  "header_walk an g node =
     (case dom_get (da_dom_parent an) node of
        None \<Rightarrow> Some None
      | Some parent \<Rightarrow>
          do {
            b \<leftarrow> any_dominated an parent (predecessors g parent);
            if b then Some (Some parent) else header_walk an g parent
          })"

definition loop_header_index :: "NodeId list \<Rightarrow> 'b CFG \<Rightarrow> NodeId \<Rightarrow> (NodeId option \<times> 'b CFG) option" where
  "loop_header_index keys g i =
     do {
       (an, g) \<leftarrow> ensure_dom_analysis keys g;
       if num_get (da_loop_depth an) i = 0 then Some (None, g)
       else do { h \<leftarrow> header_walk an g i; Some (h, g) }
     }"

declare header_walk.simps [code]

end
