(* ===== verification/DomExact.thy ===== *)
theory DomExact
  imports Dominators
begin

text \<open>
  Correctness of the dominator iteration (theory \<^verbatim>\<open>Dominators\<close>).  Two invariants are kept by every
  update of the table: no dominator of a block is skipped by its parent pointer (\<^verbatim>\<open>dom_state\<close>), and
  after \<open>k\<close> passes the ancestors of a block lie on every path with fewer than \<open>k\<close> retreating edges
  (\<^verbatim>\<open>on_paths\<close>).  Since a path can be cut down to one that enters each block by a retreating edge at most once,
  the two meet after as many passes as there are targets of retreating edges, and the table is exact.
\<close>

subsection \<open>Paths and dominance\<close>

text \<open>Paths from the entry, the last block first.\<close>

inductive entry_path :: "'b CFG \<Rightarrow> NodeId list \<Rightarrow> bool" for g where
  start: "entry_path g [0]"
| step: "entry_path g (p # \<pi>) \<Longrightarrow> b \<in> set (successors g p) \<Longrightarrow> b < cfg_len g \<Longrightarrow> entry_path g (b # p # \<pi>)"

inductive_cases entry_path_ConsE: "entry_path g (b # \<pi>)"

definition dom_by :: "'b CFG \<Rightarrow> NodeId \<Rightarrow> NodeId \<Rightarrow> bool" where
  "dom_by g a b \<longleftrightarrow> (\<forall>\<pi>. entry_path g (b # \<pi>) \<longrightarrow> a \<in> set (b # \<pi>))"

lemma entry_path_nonempty: "\<not> entry_path g []"
  by (auto elim: entry_path.cases)

lemma entry_path_reachable: "entry_path g \<pi> \<Longrightarrow> x \<in> set \<pi> \<Longrightarrow> reachable_from g 0 x"
proof (induction arbitrary: x rule: entry_path.induct)
  case (step p \<pi> b)
  then have "reachable_from g 0 p" by simp
  with step.hyps have "(0, p) \<in> (edge_rel g)\<^sup>*" "(p, b) \<in> edge_rel g"
    by (simp_all add: reachable_from_def edge_rel_def)
  then have "reachable_from g 0 b" unfolding reachable_from_def by (rule rtrancl_into_rtrancl)
  with step show ?case by auto
qed simp

lemma reachable_entry_path: "reachable_from g 0 b \<Longrightarrow> \<exists>\<pi>. entry_path g (b # \<pi>)"
  unfolding reachable_from_def
proof (induction rule: rtrancl_induct)
  case (step y z)
  then show ?case by (auto simp: edge_rel_def intro: entry_path.step)
qed (auto intro: entry_path.start)

lemma dom_by_refl: "dom_by g b b"
  by (simp add: dom_by_def)

lemma dom_by_entry: "dom_by g 0 b"
proof -
  have "0 \<in> set \<pi>" if "entry_path g \<pi>" for \<pi>
    using that by induction auto
  from this [of "b # _"] show ?thesis by (auto simp: dom_by_def)
qed

lemma dom_by_pred:
  "dom_by g a b \<Longrightarrow> a \<noteq> b \<Longrightarrow> reachable_from g 0 p \<Longrightarrow> b \<in> set (successors g p) \<Longrightarrow> b < cfg_len g \<Longrightarrow> dom_by g a p"
  unfolding dom_by_def by (metis entry_path.step set_ConsD)

lemma dom_by_of_preds:
  assumes "b \<noteq> 0" and "\<And>p. reachable_from g 0 p \<Longrightarrow> b \<in> set (successors g p) \<Longrightarrow> dom_by g a p"
  shows "dom_by g a b"
  unfolding dom_by_def
proof (intro allI impI)
  fix \<pi> assume "entry_path g (b # \<pi>)"
  then show "a \<in> set (b # \<pi>)"
  proof cases
    case (step p \<pi>')
    then have "dom_by g a p" using assms(2) entry_path_reachable by (metis list.set_intros(1))
    with step show ?thesis by (auto simp: dom_by_def)
  qed (use assms(1) in auto)
qed

subsection \<open>Numberings\<close>

text \<open>
  What the iteration needs of a numbering of the reachable blocks; the reverse post-order gives one.
\<close>

definition rpo_like :: "'b CFG \<Rightarrow> (NodeId \<Rightarrow> nat) \<Rightarrow> bool" where
  "rpo_like g N \<longleftrightarrow> inj_on N {v. reachable_from g 0 v} \<and>
     (\<forall>v. reachable_from g 0 v \<and> v \<noteq> 0 \<longrightarrow>
        (\<exists>p. reachable_from g 0 p \<and> v \<in> set (successors g p) \<and> N p < N v))"

lemma rpo_likeD:
  assumes "rpo_like g N"
  shows "reachable_from g 0 u \<Longrightarrow> reachable_from g 0 v \<Longrightarrow> N u = N v \<longleftrightarrow> u = v"
    and "reachable_from g 0 v \<Longrightarrow> v \<noteq> 0 \<Longrightarrow>
      \<exists>p. reachable_from g 0 p \<and> v \<in> set (successors g p) \<and> N p < N v"
  using assms by (auto simp: rpo_like_def inj_on_def)

text \<open>The edges of a path that go against the numbering.\<close>

fun retreats :: "(NodeId \<Rightarrow> nat) \<Rightarrow> NodeId list \<Rightarrow> nat" where
  "retreats N (b # p # \<pi>) = (if N p < N b then 0 else 1) + retreats N (p # \<pi>)"
| "retreats N _ = 0"

lemma forward_path:
  assumes "rpo_like g N" and "reachable_from g 0 b" and "0 < cfg_len g"
  shows "\<exists>\<pi>. entry_path g (b # \<pi>) \<and> (\<forall>x\<in>set \<pi>. N x < N b)"
  using assms(2)
proof (induction "N b" arbitrary: b rule: less_induct)
  case less
  show ?case
  proof (cases "b = 0")
    case True
    then show ?thesis by (metis empty_iff entry_path.start list.set(1))
  next
    case False
    then obtain p where p: "reachable_from g 0 p" "b \<in> set (successors g p)" "N p < N b"
      using rpo_likeD(2) [OF assms(1) less.prems] by blast
    then obtain \<pi> where "entry_path g (p # \<pi>)" "\<forall>x\<in>set \<pi>. N x < N p" using less.hyps by blast
    moreover have "b < cfg_len g" using reachable_lt [OF less.prems assms(3)] .
    ultimately show ?thesis using p by (intro exI [of _ "p # \<pi>"]) (auto intro: entry_path.step)
  qed
qed

lemma dominator_number:
  assumes "rpo_like g N" and "reachable_from g 0 b" and "0 < cfg_len g" and "dom_by g a b" and "a \<noteq> b"
  shows "N a < N b"
  using forward_path [OF assms(1-3)] assms(4,5) by (auto simp: dom_by_def)

lemma dominator_reachable:
  "reachable_from g 0 b \<Longrightarrow> dom_by g a b \<Longrightarrow> reachable_from g 0 a"
  by (meson dom_by_def entry_path_reachable reachable_entry_path)

subsection \<open>Ancestors in the table\<close>

definition dom_up :: "NodeId option list \<Rightarrow> (NodeId \<times> NodeId) set" where
  "dom_up doms = {(x, y). dom_get doms x = Some y}"

definition ancestors :: "NodeId option list \<Rightarrow> NodeId \<Rightarrow> NodeId set" where
  "ancestors doms x = {a. (x, a) \<in> (dom_up doms)\<^sup>*}"

lemma ancestors_refl [simp]: "x \<in> ancestors doms x"
  by (simp add: ancestors_def)

lemma ancestors_step: "dom_get doms x = Some y \<Longrightarrow> ancestors doms x = insert x (ancestors doms y)"
  unfolding ancestors_def dom_up_def
  by (auto intro: converse_rtrancl_into_rtrancl elim: converse_rtranclE)

lemma ancestors_None: "dom_get doms x = None \<Longrightarrow> ancestors doms x = {x}"
  unfolding ancestors_def dom_up_def by (auto elim: converse_rtranclE)

lemma ancestors_trans: "y \<in> ancestors doms x \<Longrightarrow> ancestors doms y \<subseteq> ancestors doms x"
  unfolding ancestors_def by auto

text \<open>The invariant of the table: parents have smaller numbers, and no dominator is skipped.\<close>

definition dom_state :: "'b CFG \<Rightarrow> (NodeId \<Rightarrow> nat) \<Rightarrow> NodeId option list \<Rightarrow> bool" where
  "dom_state g N doms \<longleftrightarrow> length doms = cfg_len g \<and> dom_get doms 0 = Some 0 \<and>
     (\<forall>b d. dom_get doms b = Some d \<longrightarrow> reachable_from g 0 b \<and> dom_get doms d \<noteq> None \<and>
        (b \<noteq> 0 \<longrightarrow> N d < N b \<and> (\<forall>a. dom_by g a b \<and> a \<noteq> b \<longrightarrow> dom_by g a d)))"

lemma dom_stateD:
  assumes "dom_state g N doms"
  shows "length doms = cfg_len g" and "dom_get doms 0 = Some 0"
    and "dom_get doms b = Some d \<Longrightarrow> reachable_from g 0 b"
    and "dom_get doms b = Some d \<Longrightarrow> \<exists>e. dom_get doms d = Some e"
    and "dom_get doms b = Some d \<Longrightarrow> b \<noteq> 0 \<Longrightarrow> N d < N b"
    and "dom_get doms b = Some d \<Longrightarrow> b \<noteq> 0 \<Longrightarrow> dom_by g a b \<Longrightarrow> a = b \<or> dom_by g a d"
  using assms by (auto simp: dom_state_def)

lemma ancestors_set:
  assumes "dom_state g N doms" and "a \<in> ancestors doms b" and "dom_get doms b \<noteq> None"
  shows "dom_get doms a \<noteq> None \<and> N a \<le> N b \<and> (a \<noteq> b \<longrightarrow> N a < N b)"
  using assms(2) unfolding ancestors_def mem_Collect_eq
proof (induction rule: rtrancl_induct)
  case (step y z)
  then have "dom_get doms y = Some z" by (simp add: dom_up_def)
  with step.IH dom_stateD(4,5) [OF assms(1), of y z] dom_stateD(2) [OF assms(1)] show ?case
    by (cases "y = 0") auto
qed (use assms(3) in simp)

lemma ancestors_entry: "dom_state g N doms \<Longrightarrow> ancestors doms 0 = {0}"
proof -
  assume st: "dom_state g N doms"
  have "a = 0" if "(0, a) \<in> (dom_up doms)\<^sup>*" for a
    using that dom_stateD(2) [OF st] by (induction rule: rtrancl_induct) (auto simp: dom_up_def)
  then show ?thesis by (auto simp: ancestors_def)
qed

lemma dominators_ancestors:
  assumes "dom_state g N doms" and "dom_get doms b \<noteq> None" and "dom_by g a b"
  shows "a \<in> ancestors doms b"
  using assms(2,3)
proof (induction "N b" arbitrary: b rule: less_induct)
  case less
  then obtain d where d: "dom_get doms b = Some d" by auto
  show ?case
  proof (cases "b = 0")
    case True
    with less.prems(2) entry_path.start [of g] show ?thesis by (auto simp: dom_by_def)
  next
    case False
    with d less dom_stateD(4,5,6) [OF assms(1) d] show ?thesis by (auto simp: ancestors_step [OF d])
  qed
qed

subsection \<open>The meeting point of two blocks\<close>

lemma entry_least:
  assumes "rpo_like g N" and "0 < cfg_len g" and "reachable_from g 0 b"
  shows "N 0 \<le> N b"
  using dominator_number [OF assms(1,3,2) dom_by_entry] by (cases "b = 0") auto

lemma dom_state_reachable: "dom_state g N doms \<Longrightarrow> dom_get doms b \<noteq> None \<Longrightarrow> reachable_from g 0 b"
  by (auto dest: dom_stateD(3))

lemma dominator_number_le:
  assumes "rpo_like g N" and "0 < cfg_len g" and "reachable_from g 0 b" and "dom_by g a b"
  shows "N a \<le> N b"
  using dominator_number [OF assms(1,3,2,4)] by (cases "a = b") auto

lemma climb_spec:
  assumes "rpo_like g (num_get rn)" and "0 < cfg_len g" and "dom_state g (num_get rn) doms"
    and "dom_get doms other \<noteq> None" and "dom_get doms finger \<noteq> None"
  shows "\<exists>f. climb doms rn finger other = Some f \<and> dom_get doms f \<noteq> None \<and>
    f \<in> ancestors doms finger \<and> num_get rn f \<le> num_get rn other \<and>
    (\<forall>a. dom_by g a finger \<and> dom_by g a other \<longrightarrow> dom_by g a f)"
  using assms(5)
proof (induction "num_get rn finger" arbitrary: finger rule: less_induct)
  case less
  let ?N = "num_get rn"
  show ?case
  proof (cases "?N finger > ?N other")
    case False
    then show ?thesis using less.prems by (subst climb.simps) auto
  next
    case True
    obtain d where d: "dom_get doms finger = Some d" using less.prems by auto
    have "finger \<noteq> 0"
      using True entry_least [OF assms(1,2) dom_state_reachable [OF assms(3,4)]] by (metis not_le)
    then have lt: "?N d < ?N finger" and dset: "dom_get doms d \<noteq> None"
      using dom_stateD(4,5) [OF assms(3) d] by auto
    have dd: "dom_by g a d" if "dom_by g a finger" "dom_by g a other" for a
    proof -
      have "?N a \<le> ?N other"
        using dominator_number_le [OF assms(1,2) dom_state_reachable [OF assms(3,4)] that(2)] .
      then show ?thesis using True that(1) dom_stateD(6) [OF assms(3) d \<open>finger \<noteq> 0\<close>, of a] by auto
    qed
    show ?thesis
      using less.hyps [OF lt dset] True d dd by (subst climb.simps) (auto simp: ancestors_step [OF d])
  qed
qed

lemma dom_intersect_spec:
  assumes "rpo_like g (num_get rn)" and "0 < cfg_len g" and "dom_state g (num_get rn) doms"
    and "dom_get doms f1 \<noteq> None" and "dom_get doms f2 \<noteq> None"
  shows "\<exists>f. dom_intersect doms rn f1 f2 = Some f \<and> dom_get doms f \<noteq> None \<and>
    f \<in> ancestors doms f1 \<inter> ancestors doms f2 \<and>
    (\<forall>a. dom_by g a f1 \<and> dom_by g a f2 \<longrightarrow> dom_by g a f)"
  using assms(4,5)
proof (induction "num_get rn f1 + num_get rn f2" arbitrary: f1 f2 rule: less_induct)
  case less
  let ?N = "num_get rn"
  show ?case
  proof (cases "f1 = f2")
    case True
    then show ?thesis using less.prems by (subst dom_intersect.simps) auto
  next
    case False
    then have ne: "?N f1 \<noteq> ?N f2"
      using rpo_likeD(1) [OF assms(1)] dom_state_reachable [OF assms(3)] less.prems by metis
    obtain f1' where f1': "climb doms rn f1 f2 = Some f1'" "dom_get doms f1' \<noteq> None"
      "f1' \<in> ancestors doms f1" "?N f1' \<le> ?N f2" "\<And>a. dom_by g a f1 \<Longrightarrow> dom_by g a f2 \<Longrightarrow> dom_by g a f1'"
      using climb_spec [OF assms(1-3) less.prems(2,1)] by auto
    obtain f2' where f2': "climb doms rn f2 f1' = Some f2'" "dom_get doms f2' \<noteq> None"
      "f2' \<in> ancestors doms f2" "?N f2' \<le> ?N f1'" "\<And>a. dom_by g a f2 \<Longrightarrow> dom_by g a f1' \<Longrightarrow> dom_by g a f2'"
      using climb_spec [OF assms(1-3) f1'(2) less.prems(2)] by auto
    have "?N f1' \<le> ?N f1" "?N f2' \<le> ?N f2"
      using ancestors_set [OF assms(3)] f1'(3) f2'(3) less.prems by auto
    moreover have "?N f1' < ?N f1 \<or> ?N f2' < ?N f2" using f1'(4) f2'(4) ne calculation by linarith
    ultimately have lt: "?N f1' + ?N f2' < ?N f1 + ?N f2" by linarith
    show ?thesis
      using less.hyps [OF lt f1'(2) f2'(2)] False f1' f2'
        ancestors_trans [OF f1'(3)] ancestors_trans [OF f2'(3)]
      by (subst dom_intersect.simps) auto
  qed
qed

text \<open>The loop over the predecessors: the meeting point of all those that have an entry.\<close>

lemma new_idom_spec:
  assumes "rpo_like g (num_get rn)" and "0 < cfg_len g" and "dom_state g (num_get rn) doms"
  shows "\<exists>r. new_idom doms rn preds = Some r \<and>
    (case r of None \<Rightarrow> \<forall>p\<in>set preds. dom_get doms p = None
     | Some y \<Rightarrow> dom_get doms y \<noteq> None \<and>
         (\<forall>p\<in>set preds. dom_get doms p \<noteq> None \<longrightarrow> y \<in> ancestors doms p) \<and>
         (\<forall>a. (\<forall>p\<in>set preds. dom_get doms p \<noteq> None \<longrightarrow> dom_by g a p) \<longrightarrow> dom_by g a y))"
proof -
  let ?ok = "\<lambda>ps r. case r of None \<Rightarrow> \<forall>p\<in>set ps. dom_get doms p = None
     | Some y \<Rightarrow> dom_get doms y \<noteq> None \<and>
         (\<forall>p\<in>set ps. dom_get doms p \<noteq> None \<longrightarrow> y \<in> ancestors doms p) \<and>
         (\<forall>a. (\<forall>p\<in>set ps. dom_get doms p \<noteq> None \<longrightarrow> dom_by g a p) \<longrightarrow> dom_by g a y)"
  show ?thesis
    unfolding new_idom_def
  proof (induction preds rule: rev_induct)
    case Nil
    then show ?case by simp
  next
    case (snoc p ps)
    then obtain r where r: "foldM (\<lambda>p acc. if dom_get doms p \<noteq> None
       then case acc of None \<Rightarrow> Some (Some p) | Some prev \<Rightarrow> map_option Some (dom_intersect doms rn p prev)
       else Some acc) ps None = Some r" "?ok ps r" by blast
    show ?case
    proof (cases "dom_get doms p = None")
      case True
      with r show ?thesis by (auto simp: foldM_append split: option.splits)
    next
      case False
      show ?thesis
      proof (cases r)
        case None
        with r False show ?thesis by (auto simp: foldM_append)
      next
        case (Some y)
        with r have y: "dom_get doms y \<noteq> None" by simp
        obtain z where z: "dom_intersect doms rn p y = Some z" "dom_get doms z \<noteq> None"
          "z \<in> ancestors doms p" "z \<in> ancestors doms y" "\<And>a. dom_by g a p \<Longrightarrow> dom_by g a y \<Longrightarrow> dom_by g a z"
          using dom_intersect_spec [OF assms False y] by auto
        with r Some False ancestors_trans show ?thesis
          by (fastforce simp: foldM_append)
      qed
    qed
  qed
qed

subsection \<open>One update of the table\<close>

lemma entry_path_suffix: "entry_path g (\<sigma> @ x # \<tau>) \<Longrightarrow> entry_path g (x # \<tau>)"
proof (induction \<sigma>)
  case (Cons y \<sigma>)
  then have "entry_path g (\<sigma> @ x # \<tau>)" by (cases \<sigma>) (auto elim: entry_path.cases)
  then show ?case by (rule Cons.IH)
qed simp

lemma retreats_suffix: "retreats N (x # \<tau>) \<le> retreats N (\<sigma> @ x # \<tau>)"
proof (induction \<sigma>)
  case (Cons y \<sigma>)
  then show ?case by (cases \<sigma>) (auto intro: le_trans trans_le_add2)
qed simp

lemma dom_get_update: "x < length doms \<Longrightarrow> dom_get (doms[x := v]) z = (if z = x then v else dom_get doms z)"
  by (simp add: dom_get_def)

lemma ancestors_update:
  assumes "x < length doms" and "a \<in> ancestors (doms[x := Some y]) b"
  shows "a \<in> ancestors doms b \<or> x \<in> ancestors doms b \<and> a \<in> ancestors doms y"
  using assms(2) unfolding ancestors_def mem_Collect_eq
proof (induction rule: rtrancl_induct)
  case (step a c)
  show ?case
  proof (cases "a = x")
    case True
    then have "c = y" using step.hyps(2) assms(1) by (auto simp: dom_up_def dom_get_update)
    with step.IH True show ?thesis by auto
  next
    case False
    then have "(a, c) \<in> dom_up doms" using step.hyps(2) assms(1) by (simp add: dom_up_def dom_get_update)
    with step.IH show ?thesis by (auto intro: rtrancl_into_rtrancl)
  qed
qed simp

text \<open>The ancestors of the blocks of a set lie on every path with fewer than \<open>k\<close> retreating edges.\<close>

definition on_paths ::
    "'b CFG \<Rightarrow> (NodeId \<Rightarrow> nat) \<Rightarrow> NodeId option list \<Rightarrow> nat \<Rightarrow> NodeId set \<Rightarrow> bool" where
  "on_paths g N doms k B \<longleftrightarrow>
     (\<forall>b\<in>B. \<forall>\<pi>. entry_path g (b # \<pi>) \<and> retreats N (b # \<pi>) < k \<longrightarrow> ancestors doms b \<subseteq> set (b # \<pi>))"

lemma on_pathsD:
  "on_paths g N doms k B \<Longrightarrow> b \<in> B \<Longrightarrow> entry_path g (b # \<pi>) \<Longrightarrow> retreats N (b # \<pi>) < k \<Longrightarrow>
   ancestors doms b \<subseteq> set (b # \<pi>)"
  by (simp add: on_paths_def)

lemma on_paths_mono: "on_paths g N doms k B \<Longrightarrow> C \<subseteq> B \<Longrightarrow> on_paths g N doms k C"
  by (auto simp: on_paths_def)

lemma on_paths_update:
  assumes "on_paths g N doms j C" and "x < length doms"
    and y: "\<And>\<tau>. entry_path g (x # \<tau>) \<Longrightarrow> retreats N (x # \<tau>) < j \<Longrightarrow> ancestors doms y \<subseteq> set (x # \<tau>)"
  shows "on_paths g N (doms[x := Some y]) j (insert x C)"
  unfolding on_paths_def
proof (intro ballI allI impI subsetI)
  fix b \<pi> a
  assume b: "b \<in> insert x C" and "entry_path g (b # \<pi>) \<and> retreats N (b # \<pi>) < j"
    and a: "a \<in> ancestors (doms[x := Some y]) b"
  then have p: "entry_path g (b # \<pi>)" "retreats N (b # \<pi>) < j" by auto
  have "a \<in> set (b # \<pi>)" if x: "x \<in> set (b # \<pi>)" and ay: "a \<in> ancestors doms y"
  proof -
    obtain \<sigma> \<tau> where st: "b # \<pi> = \<sigma> @ x # \<tau>" using x by (meson split_list)
    then have "ancestors doms y \<subseteq> set (x # \<tau>)"
      using y entry_path_suffix [of g \<sigma> x \<tau>] retreats_suffix [of N x \<tau> \<sigma>] p by simp
    with st ay show ?thesis by auto
  qed
  moreover have "a = b \<or> a \<in> ancestors doms y" if "b = x"
  proof -
    have "dom_get (doms[x := Some y]) x = Some y" using assms(2) by (simp add: dom_get_def)
    then have "a = x \<or> a \<in> ancestors (doms[x := Some y]) y"
      using a that ancestors_step [of "doms[x := Some y]" x y] by auto
    then show ?thesis using that ancestors_update [OF assms(2)] by auto
  qed
  ultimately show "a \<in> set (b # \<pi>)"
    using b p a ancestors_update [OF assms(2) a] on_pathsD [OF assms(1) _ p] by auto
qed

lemma dom_state_update:
  assumes "dom_state g N doms" and "reachable_from g 0 x" and "x \<noteq> 0" and "x < cfg_len g"
    and "dom_get doms y \<noteq> None" and "N y < N x" and "\<And>a. dom_by g a x \<Longrightarrow> a \<noteq> x \<Longrightarrow> dom_by g a y"
  shows "dom_state g N (doms[x := Some y])"
  using assms dom_stateD(1) [OF assms(1)] unfolding dom_state_def
  by (auto simp: dom_get_update)

subsection \<open>One block and one pass\<close>

lemma dom_node_spec:
  assumes N: "rpo_like g (num_get rn)" and n: "0 < cfg_len g" and wf: "cfg_wf g"
    and st: "dom_state g (num_get rn) doms"
    and b: "reachable_from g 0 b" "b \<noteq> 0"
    and fwd: "\<exists>p. b \<in> set (successors g p) \<and> dom_get doms p \<noteq> None \<and> num_get rn p < num_get rn b"
  shows "\<exists>y. dom_node g rn (cfg_len g) 0 b (doms, ch) =
      Some (doms[b := Some y], ch \<or> dom_get doms b \<noteq> Some y) \<and>
    dom_get doms y \<noteq> None \<and> num_get rn y < num_get rn b \<and>
    (\<forall>p. b \<in> set (successors g p) \<and> dom_get doms p \<noteq> None \<longrightarrow> y \<in> ancestors doms p) \<and>
    (\<forall>a. dom_by g a b \<and> a \<noteq> b \<longrightarrow> dom_by g a y)"
proof -
  have bn: "b < cfg_len g" using reachable_lt [OF b(1) n] .
  have pred: "p \<in> set (predecessors g b) \<longleftrightarrow> b \<in> set (successors g p)" for p
    using cfg_wf_mem [OF wf] by blast
  obtain r where r: "new_idom doms rn (predecessors g b) = Some r"
    and spec: "case r of None \<Rightarrow> \<forall>p\<in>set (predecessors g b). dom_get doms p = None
     | Some y \<Rightarrow> dom_get doms y \<noteq> None \<and>
         (\<forall>p\<in>set (predecessors g b). dom_get doms p \<noteq> None \<longrightarrow> y \<in> ancestors doms p) \<and>
         (\<forall>a. (\<forall>p\<in>set (predecessors g b). dom_get doms p \<noteq> None \<longrightarrow> dom_by g a p) \<longrightarrow> dom_by g a y)"
    using new_idom_spec [OF N n st] by blast
  obtain p where p: "b \<in> set (successors g p)" "dom_get doms p \<noteq> None" "num_get rn p < num_get rn b"
    using fwd by blast
  with spec pred obtain y where y: "r = Some y" by (cases r) auto
  with spec have ys: "dom_get doms y \<noteq> None"
    "\<And>p. b \<in> set (successors g p) \<Longrightarrow> dom_get doms p \<noteq> None \<Longrightarrow> y \<in> ancestors doms p"
    by (auto simp: pred)
  have same: "doms[b := Some y] = doms" if "doms ! b = Some y"
    using that by (metis list_update_id)
  have "num_get rn y < num_get rn b"
    using ancestors_set [OF st ys(2) [OF p(1,2)] p(2)] p(3) by auto
  moreover have "dom_by g a y" if "dom_by g a b" "a \<noteq> b" for a
    using spec y dom_by_pred [OF that _ _ bn] dom_state_reachable [OF st] by (auto simp: pred)
  moreover have "dom_node g rn (cfg_len g) 0 b (doms, ch) =
      Some (doms[b := Some y], ch \<or> dom_get doms b \<noteq> Some y)"
    using r y bn dom_stateD(1) [OF st] same by (auto simp: dom_node_def dom_get_def)
  ultimately show ?thesis using ys by blast
qed

text \<open>What a pass has established after the first \<open>i\<close> blocks.\<close>

definition pass_inv ::
    "'b CFG \<Rightarrow> (NodeId \<Rightarrow> nat) \<Rightarrow> nat \<Rightarrow> NodeId option list \<Rightarrow> nat \<Rightarrow> NodeId option list \<times> bool \<Rightarrow> bool" where
  "pass_inv g N k doms0 i st \<longleftrightarrow> (case st of (doms, ch) \<Rightarrow>
     dom_state g N doms \<and> on_paths g N doms k UNIV \<and>
     on_paths g N doms (Suc k) {v. reachable_from g 0 v \<and> N v \<le> i} \<and>
     (\<forall>v. reachable_from g 0 v \<and> (0 < k \<or> N v \<le> i) \<longrightarrow> dom_get doms v \<noteq> None) \<and>
     (\<not> ch \<longrightarrow> doms = doms0))"

lemma path_pred:
  assumes "entry_path g (b # \<tau>)" and "b \<noteq> 0"
  obtains p \<tau>' where "\<tau> = p # \<tau>'" "entry_path g (p # \<tau>')" "b \<in> set (successors g p)"
    "retreats N (b # \<tau>) = (if N p < N b then 0 else 1) + retreats N (p # \<tau>')"
  using assms by (auto elim: entry_path.cases)

lemma pass_inv_step:
  assumes N: "rpo_like g (num_get rn)" and n: "0 < cfg_len g" and wf: "cfg_wf g"
    and inv: "pass_inv g (num_get rn) k doms0 i (doms, ch)"
    and b: "reachable_from g 0 b" "b \<noteq> 0" "num_get rn b = Suc i"
  shows "\<exists>st. dom_node g rn (cfg_len g) 0 b (doms, ch) = Some st \<and>
    pass_inv g (num_get rn) k doms0 (Suc i) st"
proof -
  let ?N = "num_get rn"
  let ?B = "{v. reachable_from g 0 v \<and> ?N v \<le> i}"
  have st: "dom_state g ?N doms" and all: "on_paths g ?N doms k UNIV" and upd: "on_paths g ?N doms (Suc k) ?B"
    and set: "\<And>v. reachable_from g 0 v \<Longrightarrow> 0 < k \<or> ?N v \<le> i \<Longrightarrow> dom_get doms v \<noteq> None"
    and ch: "\<not> ch \<Longrightarrow> doms = doms0"
    using inv by (auto simp: pass_inv_def)
  have "\<exists>p. b \<in> set (successors g p) \<and> dom_get doms p \<noteq> None \<and> ?N p < ?N b"
    using rpo_likeD(2) [OF N b(1,2)] set b(3) by (metis less_Suc_eq_le)
  then obtain y where y: "dom_node g rn (cfg_len g) 0 b (doms, ch) =
      Some (doms[b := Some y], ch \<or> dom_get doms b \<noteq> Some y)"
    "dom_get doms y \<noteq> None" "?N y < ?N b"
    "\<And>p. b \<in> set (successors g p) \<Longrightarrow> dom_get doms p \<noteq> None \<Longrightarrow> y \<in> ancestors doms p"
    "\<And>a. dom_by g a b \<Longrightarrow> a \<noteq> b \<Longrightarrow> dom_by g a y"
    using dom_node_spec [OF N n wf st b(1,2)] by blast
  let ?d = "doms[b := Some y]"
  have bn: "b < cfg_len g" using reachable_lt [OF b(1) n] .
  then have bl: "b < length doms" using dom_stateD(1) [OF st] by simp
  have cond: "ancestors doms y \<subseteq> set (b # \<tau>)"
    if q: "entry_path g (b # \<tau>)" "retreats ?N (b # \<tau>) < Suc k" for \<tau>
  proof -
    obtain p \<tau>' where p: "\<tau> = p # \<tau>'" "entry_path g (p # \<tau>')" "b \<in> set (successors g p)"
      "retreats ?N (b # \<tau>) = (if ?N p < ?N b then 0 else 1) + retreats ?N (p # \<tau>')"
      using path_pred [OF q(1) b(2)] by blast
    have pr: "reachable_from g 0 p" using entry_path_reachable [OF p(2)] by simp
    have "dom_get doms p \<noteq> None \<and> ancestors doms p \<subseteq> set (p # \<tau>')"
    proof (cases "?N p < ?N b")
      case True
      then show ?thesis
        using set [OF pr] on_pathsD [OF upd _ p(2)] pr b(3) q(2) p(4) by auto
    next
      case False
      then show ?thesis
        using set [OF pr] on_pathsD [OF all _ p(2)] q(2) p(4) by auto
    qed
    then show ?thesis using y(4) [OF p(3)] ancestors_trans p(1) by fastforce
  qed
  have "on_paths g ?N ?d k (insert b UNIV)"
    by (rule on_paths_update [OF all bl]) (use cond in simp)
  moreover have "{v. reachable_from g 0 v \<and> ?N v \<le> Suc i} \<subseteq> insert b ?B"
    using rpo_likeD(1) [OF N b(1)] b(3) by (auto simp: le_Suc_eq dest: sym)
  moreover have "on_paths g ?N ?d (Suc k) (insert b ?B)"
    by (rule on_paths_update [OF upd bl cond])
  ultimately have "on_paths g ?N ?d k UNIV" "on_paths g ?N ?d (Suc k) {v. reachable_from g 0 v \<and> ?N v \<le> Suc i}"
    using on_paths_mono [of g ?N ?d "Suc k" "insert b ?B"] by auto
  moreover have "dom_state g ?N ?d"
    using dom_state_update [OF st b(1,2) bn y(2,3,5)] .
  moreover have "dom_get ?d v \<noteq> None" if "reachable_from g 0 v" "0 < k \<or> ?N v \<le> Suc i" for v
    using that set [of v] bl rpo_likeD(1) [OF N b(1) that(1)] b(3) by (auto simp: dom_get_update le_Suc_eq)
  moreover have "?d = doms0" if "\<not> (ch \<or> dom_get doms b \<noteq> Some y)"
    using that ch bl by (auto simp: dom_get_def list_update_same_conv)
  ultimately show ?thesis
    using y(1) by (simp add: pass_inv_def)
qed

text \<open>A list of the reachable blocks, entry first, with its numbering.\<close>

definition rpo_list :: "'b CFG \<Rightarrow> (NodeId \<Rightarrow> nat) \<Rightarrow> NodeId list \<Rightarrow> bool" where
  "rpo_list g N rpo \<longleftrightarrow> rpo_like g N \<and> 0 < cfg_len g \<and> rpo \<noteq> [] \<and> hd rpo = 0 \<and>
     set rpo = {v. reachable_from g 0 v} \<and> (\<forall>i < length rpo. N (rpo ! i) = i)"

lemma rpo_listD:
  assumes "rpo_list g N rpo"
  shows "rpo_like g N" and "0 < cfg_len g" and "rpo = 0 # tl rpo" and "N 0 = 0"
    and "i < length (tl rpo) \<Longrightarrow> reachable_from g 0 (tl rpo ! i) \<and> tl rpo ! i \<noteq> 0 \<and> N (tl rpo ! i) = Suc i"
    and "reachable_from g 0 v \<Longrightarrow> N v \<le> length (tl rpo)"
proof -
  show rl: "rpo_like g N" "0 < cfg_len g" and r: "rpo = 0 # tl rpo"
    using assms by (auto simp: rpo_list_def neq_Nil_conv)
  have nth: "i < length rpo \<Longrightarrow> N (rpo ! i) = i" and mem: "set rpo = {v. reachable_from g 0 v}" for i
    using assms by (auto simp: rpo_list_def)
  have "rpo ! 0 = 0" by (subst r) simp
  then show n0: "N 0 = 0" using nth [of 0] r by (metis length_greater_0_conv list.distinct(1))
  show "reachable_from g 0 (tl rpo ! i) \<and> tl rpo ! i \<noteq> 0 \<and> N (tl rpo ! i) = Suc i" if i: "i < length (tl rpo)"
  proof -
    have "rpo ! Suc i = tl rpo ! i" by (subst r) simp
    moreover have "Suc i < length rpo" using i by simp
    ultimately have "N (tl rpo ! i) = Suc i" "tl rpo ! i \<in> set rpo" using nth [of "Suc i"] nth_mem by metis+
    moreover from this have "tl rpo ! i \<noteq> 0" using n0 by (metis nat.distinct(1))
    ultimately show ?thesis using mem by simp
  qed
  show "N v \<le> length (tl rpo)" if "reachable_from g 0 v"
  proof -
    have "v \<in> set rpo" using that mem by simp
    then obtain i where "i < length rpo" "rpo ! i = v" by (auto simp: in_set_conv_nth)
    then show ?thesis using nth [of i] by simp
  qed
qed

text \<open>After \<open>k\<close> passes.\<close>

definition after_pass :: "'b CFG \<Rightarrow> (NodeId \<Rightarrow> nat) \<Rightarrow> nat \<Rightarrow> NodeId option list \<Rightarrow> bool" where
  "after_pass g N k doms \<longleftrightarrow> dom_state g N doms \<and> on_paths g N doms k {v. reachable_from g 0 v} \<and>
     (\<forall>v. reachable_from g 0 v \<and> 0 < k \<longrightarrow> dom_get doms v \<noteq> None)"

lemma on_paths_reachable: "on_paths g N doms k {v. reachable_from g 0 v} \<Longrightarrow> on_paths g N doms k UNIV"
  unfolding on_paths_def by (metis entry_path_reachable list.set_intros(1) mem_Collect_eq)

lemma dom_pass_spec:
  assumes rl: "rpo_list g (num_get rn) rpo" and wf: "cfg_wf g" and st: "after_pass g (num_get rn) k doms"
  shows "\<exists>doms' ch. dom_pass g rn (cfg_len g) rpo doms = Some (doms', ch) \<and>
    after_pass g (num_get rn) (Suc k) doms' \<and> (\<not> ch \<longrightarrow> doms' = doms)"
proof -
  let ?N = "num_get rn"
  note rls = rpo_listD [OF rl]
  have hd: "hd rpo = 0" using rls(3) by (metis list.sel(1))
  have "\<exists>st. foldM (dom_node g rn (cfg_len g) 0) (tl rpo) (doms, False) = Some st \<and>
      pass_inv g ?N k doms (length (tl rpo)) st"
  proof (rule foldM_nth)
    have z: "v = 0" if "reachable_from g 0 v" "?N v \<le> 0" for v
      using rpo_likeD(1) [OF rls(1) that(1), of 0] rls(4) that(2) by simp
    have st0: "dom_state g ?N doms" using st by (simp add: after_pass_def)
    note a0 = ancestors_entry [OF st0]
    have "on_paths g ?N doms (Suc k) {v. reachable_from g 0 v \<and> ?N v \<le> 0}"
      unfolding on_paths_def using a0 z by fastforce
    moreover have "dom_get doms v \<noteq> None" if "reachable_from g 0 v" "?N v \<le> 0" for v
      using z [OF that] dom_stateD(2) [OF st0] by simp
    moreover have "on_paths g ?N doms k UNIV"
      by (rule on_paths_reachable) (use st in \<open>simp add: after_pass_def\<close>)
    ultimately show "pass_inv g ?N k doms 0 (doms, False)"
      using st by (auto simp: pass_inv_def after_pass_def)
  next
    fix i and s :: "NodeId option list \<times> bool"
    assume i: "i < length (tl rpo)" and s: "pass_inv g ?N k doms i s"
    obtain d c where "s = (d, c)" by (cases s)
    with s pass_inv_step [OF rls(1,2) wf, of k doms i d c "tl rpo ! i"] rls(5) [OF i]
    show "\<exists>s'. dom_node g rn (cfg_len g) 0 (tl rpo ! i) s = Some s' \<and> pass_inv g ?N k doms (Suc i) s'"
      by simp
  qed
  then obtain doms' ch where r: "foldM (dom_node g rn (cfg_len g) 0) (tl rpo) (doms, False) = Some (doms', ch)"
    "pass_inv g ?N k doms (length (tl rpo)) (doms', ch)" by auto
  have "{v. reachable_from g 0 v \<and> ?N v \<le> length (tl rpo)} = {v. reachable_from g 0 v}"
    using rls(6) by auto
  with r show ?thesis by (auto simp: dom_pass_def hd pass_inv_def after_pass_def dest: rls(6))
qed

subsection \<open>Exactness\<close>

definition retreat_targets :: "'b CFG \<Rightarrow> (NodeId \<Rightarrow> nat) \<Rightarrow> NodeId set" where
  "retreat_targets g N = {b. reachable_from g 0 b \<and>
     (\<exists>p. reachable_from g 0 p \<and> b \<in> set (successors g p) \<and> N b \<le> N p)}"

lemma finite_retreat_targets: "0 < cfg_len g \<Longrightarrow> finite (retreat_targets g N)"
  by (rule finite_subset [of _ "{..<cfg_len g}"]) (auto simp: retreat_targets_def dest: reachable_lt)

text \<open>Every path can be cut down to one that enters each block by a retreating edge at most once.\<close>

lemma short_path:
  assumes "0 < cfg_len g" and "entry_path g \<pi>" and "c \<in> set \<pi>"
  shows "\<exists>\<pi>'. entry_path g (c # \<pi>') \<and> set (c # \<pi>') \<subseteq> set \<pi> \<and>
    retreats N (c # \<pi>') \<le> card (set (c # \<pi>') \<inter> retreat_targets g N)"
  using assms(2,3)
proof (induction arbitrary: c rule: entry_path.induct)
  case start
  then show ?case by (intro exI [of _ "[]"]) (auto intro: entry_path.start)
next
  case (step p \<pi> b)
  let ?T = "retreat_targets g N"
  show ?case
  proof (cases "c \<in> set (p # \<pi>)")
    case True
    then show ?thesis using step.IH by (meson set_subset_Cons subset_trans)
  next
    case False
    with step.prems have c: "c = b" by simp
    obtain \<pi>' where p: "entry_path g (p # \<pi>')" "set (p # \<pi>') \<subseteq> set (p # \<pi>)"
      "retreats N (p # \<pi>') \<le> card (set (p # \<pi>') \<inter> ?T)"
      using step.IH [of p] by auto
    have path: "entry_path g (b # p # \<pi>')" using p(1) step.hyps(2,3) by (rule entry_path.step)
    have nb: "b \<notin> set (p # \<pi>')" using False c p(2) by blast
    have "b \<in> ?T" if "\<not> N p < N b"
      using that entry_path_reachable [OF path, of b] entry_path_reachable [OF path, of p] step.hyps(2)
      by (auto simp: retreat_targets_def not_less)
    then have "retreats N (b # p # \<pi>') \<le> card (set (b # p # \<pi>') \<inter> ?T)"
      using p(3) nb by (auto simp: Int_insert_left)
    with path p(2) c show ?thesis by (intro exI [of _ "p # \<pi>'"]) auto
  qed
qed

definition doms_exact :: "'b CFG \<Rightarrow> NodeId option list \<Rightarrow> bool" where
  "doms_exact g doms \<longleftrightarrow> (\<forall>b. reachable_from g 0 b \<longrightarrow> ancestors doms b = {a. dom_by g a b})"

lemma after_pass_exact:
  assumes n: "0 < cfg_len g" and st: "after_pass g N k doms" and k: "card (retreat_targets g N) < k"
  shows "doms_exact g doms"
  unfolding doms_exact_def
proof (intro allI impI equalityI subsetI)
  fix b a assume b: "reachable_from g 0 b"
  have ds: "dom_state g N doms" and set: "dom_get doms b \<noteq> None"
    and on: "on_paths g N doms k {v. reachable_from g 0 v}"
    using st k b by (auto simp: after_pass_def)
  show "a \<in> ancestors doms b" if "a \<in> {a. dom_by g a b}"
    using dominators_ancestors [OF ds set] that by simp
  show "a \<in> {a. dom_by g a b}" if a: "a \<in> ancestors doms b"
    unfolding mem_Collect_eq dom_by_def
  proof (intro allI impI)
    fix \<pi> assume "entry_path g (b # \<pi>)"
    then obtain \<pi>' where p: "entry_path g (b # \<pi>')" "set (b # \<pi>') \<subseteq> set (b # \<pi>)"
      "retreats N (b # \<pi>') \<le> card (set (b # \<pi>') \<inter> retreat_targets g N)"
      using short_path [OF n, of "b # \<pi>" b N] by auto
    have "card (set (b # \<pi>') \<inter> retreat_targets g N) \<le> card (retreat_targets g N)"
      by (rule card_mono) (auto intro: finite_retreat_targets n)
    with p(3) k have "retreats N (b # \<pi>') < k" by linarith
    with on_pathsD [OF on _ p(1)] b a p(2) show "a \<in> set (b # \<pi>)" by blast
  qed
qed

lemma dom_pass_exact:
  assumes rl: "rpo_list g (num_get rn) rpo" and wf: "cfg_wf g" and ds: "dom_state g (num_get rn) doms"
    and set: "\<And>v. reachable_from g 0 v \<Longrightarrow> dom_get doms v \<noteq> None" and ex: "doms_exact g doms"
  shows "dom_pass g rn (cfg_len g) rpo doms = Some (doms, False)"
proof -
  let ?N = "num_get rn"
  note rls = rpo_listD [OF rl]
  have hd: "hd rpo = 0" using rls(3) by (metis list.sel(1))
  have "dom_node g rn (cfg_len g) 0 b (doms, False) = Some (doms, False)" if "b \<in> set (tl rpo)" for b
  proof -
    have b: "reachable_from g 0 b" "b \<noteq> 0" using that rls(5) by (auto simp: in_set_conv_nth)
    have bn: "b < cfg_len g" using reachable_lt [OF b(1) rls(2)] .
    obtain d where d: "dom_get doms b = Some d" using set [OF b(1)] by auto
    have dd: "dom_get doms d \<noteq> None" "?N d < ?N b" using dom_stateD(4,5) [OF ds d] b(2) by auto
    have anc: "ancestors doms c = {a. dom_by g a c}" if "dom_get doms c \<noteq> None" for c
      using ex dom_state_reachable [OF ds that] by (auto simp: doms_exact_def)
    obtain p0 where p0: "reachable_from g 0 p0" "b \<in> set (successors g p0)" "?N p0 < ?N b"
      using rpo_likeD(2) [OF rls(1) b] by blast
    then obtain y where y: "dom_node g rn (cfg_len g) 0 b (doms, False) =
        Some (doms[b := Some y], False \<or> dom_get doms b \<noteq> Some y)"
      "dom_get doms y \<noteq> None" "?N y < ?N b"
      "\<And>p. b \<in> set (successors g p) \<Longrightarrow> dom_get doms p \<noteq> None \<Longrightarrow> y \<in> ancestors doms p"
      "\<And>a. dom_by g a b \<Longrightarrow> a \<noteq> b \<Longrightarrow> dom_by g a y"
      using dom_node_spec [OF rls(1,2) wf ds b, of False] set by blast
    have "dom_by g d b" using anc [of b] ancestors_step [OF d] d by auto
    then have "d \<in> ancestors doms y" using y(5) [of d] dd(2) anc [OF y(2)] by auto
    moreover have "dom_by g y b"
      by (rule dom_by_of_preds [OF b(2)]) (use y(4) set anc in auto)
    then have "y \<in> ancestors doms d"
      using anc [of b] d ancestors_step [OF d] y(3) by auto
    ultimately have "?N y = ?N d"
      using ancestors_set [OF ds _ dd(1), of y] ancestors_set [OF ds _ y(2), of d] by auto
    then have "y = d"
      using rpo_likeD(1) [OF rls(1)] dom_state_reachable [OF ds] y(2) dd(1) by metis
    moreover have "doms[b := Some d] = doms"
      using d bn dom_stateD(1) [OF ds] by (metis dom_get_def list_update_id)
    ultimately show ?thesis using y(1) d by simp
  qed
  then show ?thesis by (simp add: dom_pass_def hd foldM_unchanged)
qed

lemma dom_passes_exact:
  assumes "rpo_list g (num_get rn) rpo" and "cfg_wf g" and "after_pass g (num_get rn) k doms"
    and "dom_passes m g rn (cfg_len g) rpo doms = Some doms'"
  shows "dom_state g (num_get rn) doms' \<and> doms_exact g doms' \<and>
    (\<forall>v. reachable_from g 0 v \<longrightarrow> dom_get doms' v \<noteq> None)"
  using assms(3,4)
proof (induction m arbitrary: k doms)
  case (Suc m)
  obtain d ch where p: "dom_pass g rn (cfg_len g) rpo doms = Some (d, ch)"
    "after_pass g (num_get rn) (Suc k) d" "\<not> ch \<Longrightarrow> d = doms"
    using dom_pass_spec [OF assms(1,2) Suc.prems(1)] by blast
  show ?case
  proof (cases ch)
    case True
    with Suc p show ?thesis by simp
  next
    case False
    with Suc.prems(2) p have d: "d = doms" "doms' = doms" by auto
    have "after_pass g (num_get rn) (Suc k + j) doms" for j
    proof (induction j)
      case 0
      then show ?case using p(2) d by simp
    next
      case (Suc j)
      from dom_pass_spec [OF assms(1,2) this] p(1) d show ?case by simp
    qed
    then have st: "after_pass g (num_get rn) (Suc (k + card (retreat_targets g (num_get rn)))) doms" by simp
    then show ?thesis
      using after_pass_exact [OF rpo_listD(2) [OF assms(1)] st] d by (auto simp: after_pass_def)
  qed
qed simp

lemma dom_passes_returns:
  assumes "rpo_list g (num_get rn) rpo" and "cfg_wf g" and "after_pass g (num_get rn) k doms"
    and "1 \<le> m" and "card (retreat_targets g (num_get rn)) + 2 \<le> m + k"
  shows "\<exists>doms'. dom_passes m g rn (cfg_len g) rpo doms = Some doms'"
  using assms(3-5)
proof (induction m arbitrary: k doms)
  case (Suc m)
  obtain d ch where p: "dom_pass g rn (cfg_len g) rpo doms = Some (d, ch)"
    "after_pass g (num_get rn) (Suc k) d" "\<not> ch \<Longrightarrow> d = doms"
    using dom_pass_spec [OF assms(1,2) Suc.prems(1)] by blast
  show ?case
  proof (cases ch)
    case False
    with p(1) show ?thesis by simp
  next
    case True
    have "k \<le> card (retreat_targets g (num_get rn))"
    proof (rule ccontr)
      assume "\<not> ?thesis"
      then have k: "card (retreat_targets g (num_get rn)) < k" by simp
      then have "dom_pass g rn (cfg_len g) rpo doms = Some (doms, False)"
        using after_pass_exact [OF rpo_listD(2) [OF assms(1)] Suc.prems(1) k] Suc.prems(1)
        by (intro dom_pass_exact [OF assms(1,2)]) (auto simp: after_pass_def)
      with p(1) True show False by simp
    qed
    then show ?thesis using Suc.IH [OF p(2)] Suc.prems(3) p(1) True by auto
  qed
qed simp

subsection \<open>The numbering by the reverse post-order\<close>


lemma rpo_numbers_fold:
  assumes "distinct xs" and "\<forall>x\<in>set xs. x < n" and "length v = n"
  shows "let v' = fold (\<lambda>(i, node) v. if node < n then v[node := i] else v) (enumerate k xs) v
    in length v' = n \<and> (\<forall>i < length xs. v' ! (xs ! i) = k + i) \<and> (\<forall>x. x \<notin> set xs \<longrightarrow> v' ! x = v ! x)"
  using assms
proof (induction xs arbitrary: k v)
  case (Cons x xs)
  let ?v = "fold (\<lambda>(i, node) v. if node < n then v[node := i] else v) (enumerate (Suc k) xs) (v[x := k])"
  have IH: "length ?v = n" "\<And>i. i < length xs \<Longrightarrow> ?v ! (xs ! i) = Suc k + i" "\<And>y. y \<notin> set xs \<Longrightarrow> ?v ! y = v[x := k] ! y"
    using Cons.IH [of "v[x := k]" "Suc k"] Cons.prems by (simp_all add: Let_def)
  have "?v ! ((x # xs) ! i) = k + i" if "i < Suc (length xs)" for i
    using that IH(2) IH(3) [of x] Cons.prems by (cases i) auto
  moreover have "?v ! y = v ! y" if "y \<notin> set (x # xs)" for y
    using that IH(3) [of y] by simp
  ultimately show ?case using IH(1) Cons.prems by (simp add: Let_def)
qed simp

lemma reverse_post_order_numbers:
  assumes n: "0 < cfg_len g" and r: "reverse_post_order_opt g = Some rpo"
  shows "rpo_list g (num_get (rpo_numbers rpo (cfg_len g))) rpo"
proof -
  let ?N = "num_get (rpo_numbers rpo (cfg_len g))"
  obtain tl where tl: "rpo = 0 # tl" "distinct rpo" "set rpo = {v. reachable_from g 0 v}"
    and parent: "\<And>i. i < length rpo \<Longrightarrow> rpo ! i \<noteq> 0 \<Longrightarrow> \<exists>j<i. rpo ! i \<in> set (successors g (rpo ! j))"
    using reverse_post_order_opt_spec [OF n] r by auto
  have lt: "\<forall>x\<in>set rpo. x < cfg_len g" using tl(3) n by (auto dest: reachable_lt)
  have num: "?N (rpo ! i) = i" if "i < length rpo" for i
    using rpo_numbers_fold [OF tl(2) lt, of "replicate (cfg_len g) 0" 0] that lt
    by (auto simp: rpo_numbers_def num_get_def Let_def)
  have idx: "\<exists>i < length rpo. rpo ! i = v \<and> ?N v = i" if "reachable_from g 0 v" for v
    using that tl(3) num by (metis in_set_conv_nth mem_Collect_eq)
  have "inj_on ?N {v. reachable_from g 0 v}" using idx by (metis inj_onI mem_Collect_eq)
  moreover have "\<exists>p. reachable_from g 0 p \<and> v \<in> set (successors g p) \<and> ?N p < ?N v"
    if v: "reachable_from g 0 v" "v \<noteq> 0" for v
  proof -
    obtain i where i: "i < length rpo" "rpo ! i = v" "?N v = i" using idx [OF v(1)] by blast
    then obtain j where j: "j < i" "v \<in> set (successors g (rpo ! j))" using parent v(2) by blast
    moreover have "reachable_from g 0 (rpo ! j)" using tl(3) i(1) j(1) by (metis less_trans mem_Collect_eq nth_mem)
    ultimately show ?thesis using num i by (metis less_trans)
  qed
  ultimately show ?thesis using n tl num by (auto simp: rpo_list_def rpo_like_def)
qed

lemma initial_state:
  assumes "0 < cfg_len g"
  shows "after_pass g N 0 ((replicate (cfg_len g) None)[0 := Some 0])"
  using assms by (auto simp: after_pass_def dom_state_def on_paths_def dom_get_def nth_list_update split: if_splits)

lemma compute_dominators_unfold:
  assumes "0 < cfg_len g" and "reverse_post_order_opt g = Some rpo"
  shows "compute_dominators g rpo (cfg_len g) =
    do {
      doms \<leftarrow> dom_passes 1000 g (rpo_numbers rpo (cfg_len g)) (cfg_len g) rpo ((replicate (cfg_len g) None)[0 := Some 0]);
      Some (map (dom_get doms) [0..<cfg_len g])
    }"
proof -
  obtain tl where "rpo = 0 # tl" using reverse_post_order_opt_spec [OF assms(1)] assms(2) by auto
  then show ?thesis using assms(1) by (simp add: compute_dominators_def)
qed

lemma map_dom_get: "length doms = n \<Longrightarrow> map (dom_get doms) [0..<n] = doms"
  by (auto simp: dom_get_def intro: nth_equalityI)

text \<open>What holds of the table whenever the iteration returns, and that it returns.\<close>

lemma compute_dominators_exact:
  assumes "0 < cfg_len g" and "cfg_wf g" and "reverse_post_order_opt g = Some rpo"
    and "compute_dominators g rpo (cfg_len g) = Some doms"
  shows "dom_state g (num_get (rpo_numbers rpo (cfg_len g))) doms \<and> doms_exact g doms \<and>
    (\<forall>v. reachable_from g 0 v \<longrightarrow> dom_get doms v \<noteq> None)"
proof -
  let ?rn = "rpo_numbers rpo (cfg_len g)"
  obtain d where d: "dom_passes 1000 g ?rn (cfg_len g) rpo ((replicate (cfg_len g) None)[0 := Some 0]) = Some d"
    "doms = map (dom_get d) [0..<cfg_len g]"
    using assms(4) compute_dominators_unfold [OF assms(1,3)] by (auto split: Option.bind_splits)
  note ex = dom_passes_exact [OF reverse_post_order_numbers [OF assms(1,3)] assms(2) initial_state [OF assms(1)] d(1)]
  then have "doms = d" using d(2) by (metis map_dom_get dom_stateD(1))
  with ex show ?thesis by simp
qed

lemma compute_dominators_returns:
  assumes "0 < cfg_len g" and "cfg_wf g" and "reverse_post_order_opt g = Some rpo"
    and "card (retreat_targets g (num_get (rpo_numbers rpo (cfg_len g)))) \<le> 998"
  shows "\<exists>doms. compute_dominators g rpo (cfg_len g) = Some doms"
proof -
  have "\<exists>d. dom_passes 1000 g (rpo_numbers rpo (cfg_len g)) (cfg_len g) rpo
      ((replicate (cfg_len g) None)[0 := Some 0]) = Some d"
    by (rule dom_passes_returns [OF reverse_post_order_numbers [OF assms(1,3)] assms(2) initial_state [OF assms(1)]])
       (use assms(4) in simp_all)
  then show ?thesis using compute_dominators_unfold [OF assms(1,3)] by auto
qed

subsection \<open>Walks\<close>

lemma dom_path_reaches_spec:
  assumes "dom_state g N doms"
  shows "dom_path_reaches doms b a = Some (a \<in> ancestors doms b)"
proof (induction "N b" arbitrary: b rule: less_induct)
  case less
  show ?case
  proof (cases "dom_get doms b")
    case None
    then show ?thesis by (subst dom_path_reaches.simps) (auto simp: ancestors_None)
  next
    case (Some d)
    then have unf: "dom_path_reaches doms b a =
        (if b = a then Some True else if d \<noteq> b then dom_path_reaches doms d a else Some False)"
      by (subst dom_path_reaches.simps) simp
    show ?thesis
    proof (cases "b = 0")
      case True
      with Some dom_stateD(2) [OF assms] have "d = b" by simp
      with True ancestors_entry [OF assms] show ?thesis by (subst unf) auto
    next
      case False
      then have lt: "N d < N b" using dom_stateD(5) [OF assms Some] by simp
      then have "d \<noteq> b" by auto
      with less.hyps [OF lt] show ?thesis by (subst unf) (auto simp: ancestors_step [OF Some])
    qed
  qed
qed

text \<open>Back edges: the target dominates the source.  A block that cannot be reached is its own only dominator.\<close>

definition dominates_spec :: "'b CFG \<Rightarrow> NodeId \<Rightarrow> NodeId \<Rightarrow> bool" where
  "dominates_spec g a b \<longleftrightarrow> (if reachable_from g 0 b then dom_by g a b else a = b)"

lemma ancestors_dominates:
  assumes "dom_state g N doms" and "doms_exact g doms"
  shows "a \<in> ancestors doms b \<longleftrightarrow> dominates_spec g a b"
proof (cases "reachable_from g 0 b")
  case False
  then have "dom_get doms b = None" using dom_state_reachable [OF assms(1)] by blast
  with False show ?thesis by (simp add: dominates_spec_def ancestors_None)
qed (use assms(2) in \<open>simp add: doms_exact_def dominates_spec_def\<close>)

lemma any_edge_spec:
  assumes "\<And>from to. (from, to) \<in> set es \<Longrightarrow> f from to = Some (P from to)"
  shows "any_edge f es = Some (\<exists>(from, to)\<in>set es. P from to)"
  using assms by (induction es) auto

lemma set_edges_of: "set (edges_of g keys) = {(u, v). u \<in> set keys \<and> v \<in> set (successors g u)}"
  by (auto simp: edges_of_def)

lemma successors_dom: "v \<in> set (successors g u) \<Longrightarrow> u \<in> dom (cfg_successors g)"
  by (cases "cfg_successors g u") (auto simp: successors_def get_or_nil_def)

definition back_edge :: "'b CFG \<Rightarrow> NodeId \<Rightarrow> NodeId \<Rightarrow> bool" where
  "back_edge g l h \<longleftrightarrow> h \<in> set (successors g l) \<and> h < cfg_len g \<and> l < cfg_len g \<and> dominates_spec g h l"

lemma detect_back_edges_spec:
  assumes "dom_state g N doms" and "doms_exact g doms" and "\<forall>v. reachable_from g 0 v \<longrightarrow> dom_get doms v \<noteq> None"
    and "set keys = dom (cfg_successors g)"
  shows "detect_back_edges g keys doms (cfg_len g) =
    Some (\<exists>l h. back_edge g l h \<and> reachable_from g 0 l)"
proof -
  have reach: "reachable_from g 0 h" if "dominates_spec g h l" "reachable_from g 0 l" for l h
    using that dominator_reachable [of g l h] by (simp add: dominates_spec_def)
  have eq: "(to < cfg_len g \<and> from < cfg_len g \<and> dom_get doms to \<noteq> None \<and> to \<in> ancestors doms from) \<longleftrightarrow>
      back_edge g from to \<and> reachable_from g 0 from" if "to \<in> set (successors g from)" for "from" to
  proof (cases "reachable_from g 0 from")
    case True
    then show ?thesis
      using that assms(3) reach ancestors_dominates [OF assms(1,2)] by (auto simp: back_edge_def)
  next
    case False
    then have "\<not> (dom_get doms to \<noteq> None \<and> to \<in> ancestors doms from)"
      using ancestors_dominates [OF assms(1,2), of to "from"] dom_state_reachable [OF assms(1), of to]
      by (auto simp: dominates_spec_def)
    with False show ?thesis by blast
  qed
  have "detect_back_edges g keys doms (cfg_len g) =
    Some (\<exists>(from, to)\<in>set (edges_of g keys). back_edge g from to \<and> reachable_from g 0 from)"
    unfolding detect_back_edges_def
  proof (rule any_edge_spec)
    fix "from" to assume "(from, to) \<in> set (edges_of g keys)"
    then have "to \<in> set (successors g from)" by (auto simp: set_edges_of)
    from eq [OF this] show "(if to < cfg_len g \<and> from < cfg_len g \<and> dom_get doms to \<noteq> None
        then dom_path_reaches doms from to else Some False) = Some (back_edge g from to \<and> reachable_from g 0 from)"
      by (auto simp: dom_path_reaches_spec [OF assms(1)])
  qed
  also have "(\<exists>(from, to)\<in>set (edges_of g keys). back_edge g from to \<and> reachable_from g 0 from) \<longleftrightarrow>
      (\<exists>l h. back_edge g l h \<and> reachable_from g 0 l)"
    using assms(4) successors_dom [of _ g] by (fastforce simp: set_edges_of back_edge_def)
  finally show ?thesis .
qed

end
