(* ===== verification/DomLoops.thy ===== *)
theory DomLoops
  imports DomExact
begin

text \<open>
  Loops and the dominator tree (\<^verbatim>\<open>cfg/dom.rs\<close>): the stack loops that collect a loop's body and number the
  dominator tree are shown to end with the sets and the pre-order of the specification, and the public
  queries to answer by them.
\<close>

subsection \<open>Finite graphs\<close>

definition cfg_finite :: "'b CFG \<Rightarrow> bool" where
  "cfg_finite g \<longleftrightarrow> finite (dom (cfg_predecessors g))"

lemma dom_retain_ne [simp]: "dom (retain_ne v k m) = dom m"
  by (auto simp: retain_ne_def split: option.splits)

lemma dom_fold_retain_ne [simp]: "dom (fold (retain_ne v) ks m) = dom m"
  by (induction ks arbitrary: m) auto

lemma cfg_built_finite: "cfg_built g \<Longrightarrow> cfg_finite g"
proof (induction rule: cfg_built.induct)
  case (build b)
  have "finite (dom (snd (fold (\<lambda>e (ss, ps). (entry_push (e_from e) (e_to e) ss, entry_push (e_to e) (e_from e) ps)) es (ss, ps))))"
    if "finite (dom ps)" for es and ss :: "nat \<rightharpoonup> nat list" and ps :: "nat \<rightharpoonup> nat list"
    using that by (induction es arbitrary: ss ps) (auto simp: entry_push_def)
  from this [of Map.empty "cb_edges b" Map.empty] show ?case
    by (auto simp: cfg_finite_def cb_build_def split: prod.splits)
next
  case (disconnect g i)
  have "finite (dom (cfg_predecessors (disconnect_succs i g)))"
    using disconnect.IH by (auto simp: cfg_finite_def disconnect_succs_def split: option.splits)
  then show ?case
    by (auto simp: cfg_finite_def disconnect_block_def disconnect_preds_def split: option.splits)
qed (auto simp: cfg_finite_def cfg_default_def cfg_push_def cfg_add_edge_def entry_push_def)

lemma finite_predecessors: "cfg_finite g \<Longrightarrow> finite (\<Union>x. set (predecessors g x))"
proof -
  assume f: "cfg_finite g"
  have "(\<Union>x. set (predecessors g x)) \<subseteq> (\<Union>x\<in>dom (cfg_predecessors g). set (predecessors g x))"
  proof
    fix v assume "v \<in> (\<Union>x. set (predecessors g x))"
    then obtain x where "v \<in> set (predecessors g x)" by blast
    moreover from this have "x \<in> dom (cfg_predecessors g)"
      by (cases "cfg_predecessors g x") (auto simp: predecessors_def get_or_nil_def)
    ultimately show "v \<in> (\<Union>x\<in>dom (cfg_predecessors g). set (predecessors g x))" by blast
  qed
  moreover have "finite (\<Union>x\<in>dom (cfg_predecessors g). set (predecessors g x))"
    using f by (simp add: cfg_finite_def)
  ultimately show ?thesis by (rule finite_subset)
qed

subsection \<open>The body of a loop\<close>

lemma loop_body_least:
  assumes "cfg_finite g"
  shows "\<exists>R. loop_body g stack L = Some R \<and> L \<union> set stack \<subseteq> R \<and> (\<forall>x\<in>R - L. set (predecessors g x) \<subseteq> R) \<and>
    (\<forall>C. L \<union> set stack \<subseteq> C \<and> (\<forall>x\<in>C - L. set (predecessors g x) \<subseteq> C) \<longrightarrow> R \<subseteq> C)"
proof -
  define F where "F = (\<Union>x. set (predecessors g x)) \<union> set stack"
  have fin: "finite F" using finite_predecessors [OF assms] by (simp add: F_def)
  have "set stack \<subseteq> F" by (simp add: F_def)
  then show ?thesis
  proof (induction "(card (F - L), length stack)" arbitrary: stack L rule: wf_induct_rule [OF wf_lex_prod [OF wf_less_than wf_less_than]])
    case (1 stack L)
    show ?case
    proof (cases stack rule: rev_cases)
      case Nil
      then show ?thesis by (subst loop_body.simps) auto
    next
      case (snoc st node)
      show ?thesis
      proof (cases "node \<in> L")
        case True
        have "loop_body g stack L = loop_body g st L"
          using snoc True by (subst loop_body.simps) (simp add: Let_def)
        moreover have "((card (F - L), length st), (card (F - L), length stack)) \<in> less_than <*lex*> less_than"
          using snoc by simp
        ultimately show ?thesis using 1(1) [of L st] 1(2) snoc True by auto
      next
        case False
        let ?st = "st @ predecessors g node" and ?L = "insert node L"
        have eq: "loop_body g stack L = loop_body g ?st ?L"
          using snoc False by (subst loop_body.simps) (simp add: Let_def)
        have "node \<in> F - L" using 1(2) snoc False by simp
        then have "card (F - ?L) < card (F - L)"
          using fin by (intro psubset_card_mono) auto
        moreover have "set ?st \<subseteq> F" using 1(2) snoc by (auto simp: F_def)
        ultimately obtain R where R: "loop_body g ?st ?L = Some R" "?L \<union> set ?st \<subseteq> R"
          "\<And>x. x \<in> R - ?L \<Longrightarrow> set (predecessors g x) \<subseteq> R"
          "\<And>C. ?L \<union> set ?st \<subseteq> C \<Longrightarrow> (\<And>x. x \<in> C - ?L \<Longrightarrow> set (predecessors g x) \<subseteq> C) \<Longrightarrow> R \<subseteq> C"
          using 1(1) [of ?L ?st] by auto
        have "R \<subseteq> C" if C: "L \<union> set stack \<subseteq> C" "\<forall>x\<in>C - L. set (predecessors g x) \<subseteq> C" for C
        proof (rule R(4))
          have "node \<in> C - L" using C(1) snoc False by auto
          with C snoc show "?L \<union> set ?st \<subseteq> C" by auto
        qed (use C(2) in auto)
        moreover have "set (predecessors g x) \<subseteq> R" if "x \<in> R - L" for x
          using that R(2,3) by (cases "x = node") auto
        ultimately show ?thesis using eq R(1,2) snoc by (intro exI [of _ R]) auto
      qed
    qed
  qed
qed

text \<open>
  Specification: the blocks from which \<open>l\<close> can be reached without passing through the header \<open>h\<close>, and
  \<open>h\<close> itself.
\<close>

definition loop_of :: "'b CFG \<Rightarrow> NodeId \<Rightarrow> NodeId \<Rightarrow> NodeId set" where
  "loop_of g l h = insert h {v. (v, l) \<in> {(p, x). x \<in> set (successors g p) \<and> x \<noteq> h \<and> p \<noteq> h}\<^sup>*}"

lemma loop_body_spec:
  assumes "cfg_finite g" and "cfg_wf g"
  shows "loop_body g [l] {h} = Some (loop_of g l h)"
proof -
  let ?E = "{(p, x). x \<in> set (successors g p) \<and> x \<noteq> h \<and> p \<noteq> h}"
  have pred: "p \<in> set (predecessors g x) \<longleftrightarrow> x \<in> set (successors g p)" for p x
    using cfg_wf_mem [OF assms(2)] by blast
  obtain R where R: "loop_body g [l] {h} = Some R" "{h} \<union> set [l] \<subseteq> R"
    "\<And>x. x \<in> R - {h} \<Longrightarrow> set (predecessors g x) \<subseteq> R"
    "\<And>C. {h} \<union> set [l] \<subseteq> C \<Longrightarrow> (\<And>x. x \<in> C - {h} \<Longrightarrow> set (predecessors g x) \<subseteq> C) \<Longrightarrow> R \<subseteq> C"
    using loop_body_least [OF assms(1), of "[l]" "{h}"] by auto
  have "R \<subseteq> loop_of g l h"
  proof (rule R(4))
    fix x assume "x \<in> loop_of g l h - {h}"
    then have x: "(x, l) \<in> ?E\<^sup>*" "x \<noteq> h" by (auto simp: loop_of_def)
    then show "set (predecessors g x) \<subseteq> loop_of g l h"
      by (auto simp: loop_of_def pred intro: converse_rtrancl_into_rtrancl [OF _ x(1)])
  qed (auto simp: loop_of_def)
  moreover have "v \<in> R" if "(v, l) \<in> ?E\<^sup>*" for v
    using that
  proof (induction rule: converse_rtrancl_induct)
    case (step p x)
    then show ?case using R(3) [of x] pred by auto
  qed (use R(2) in simp)
  then have "loop_of g l h \<subseteq> R" using R(2) by (auto simp: loop_of_def)
  ultimately show ?thesis using R(1) by auto
qed

subsection \<open>Loop depth\<close>

text \<open>The edges whose loop is counted: for each header its first back edge in the order visited.\<close>

fun picked :: "'b CFG \<Rightarrow> (NodeId \<times> NodeId) list \<Rightarrow> NodeId set \<Rightarrow> (NodeId \<times> NodeId) list" where
  "picked g [] H = []"
| "picked g ((l, h) # es) H =
     (if back_edge g l h \<and> h \<notin> H then (l, h) # picked g es (insert h H) else picked g es H)"

definition loops_around :: "'b CFG \<Rightarrow> NodeId \<Rightarrow> (NodeId \<times> NodeId) list \<Rightarrow> (NodeId \<times> NodeId) list" where
  "loops_around g b es = filter (\<lambda>(l, h). b \<in> loop_of g l h) es"

lemma loop_edges_spec:
  assumes "cfg_finite g" and "cfg_wf g" and "dom_state g N doms" and "doms_exact g doms"
    and "\<forall>(u, v)\<in>set es. v \<in> set (successors g u)"
  shows "\<exists>H'. foldM (loop_edge g doms (cfg_len g)) es (H, d) =
    Some (H', map (\<lambda>b. d ! b + length (loops_around g b (picked g es H))) [0..<length d])"
  using assms(5)
proof (induction es arbitrary: H d)
  case Nil
  then show ?case by (auto simp: loops_around_def intro: nth_equalityI)
next
  case (Cons e es)
  obtain l h where e: "e = (l, h)" by (cases e)
  show ?case
  proof (cases "back_edge g l h \<and> h \<notin> H")
    case True
    have "loop_edge g doms (cfg_len g) (l, h) (H, d) = Some (insert h H, bump_depths (loop_of g l h) d)"
      using True ancestors_dominates [OF assms(3,4)]
      by (auto simp: loop_edge_def back_edge_def dom_path_reaches_spec [OF assms(3)] loop_body_spec [OF assms(1,2)])
    moreover obtain H' where "foldM (loop_edge g doms (cfg_len g)) es (insert h H, bump_depths (loop_of g l h) d) =
        Some (H', map (\<lambda>b. bump_depths (loop_of g l h) d ! b + length (loops_around g b (picked g es (insert h H))))
          [0..<length (bump_depths (loop_of g l h) d)])"
      using Cons by fastforce
    ultimately show ?thesis
      using True by (auto simp: e bump_depths_def loops_around_def intro!: exI [of _ H'])
  next
    case False
    have "loop_edge g doms (cfg_len g) (l, h) (H, d) = Some (H, d)"
      using False Cons.prems ancestors_dominates [OF assms(3,4)]
      by (auto simp: e loop_edge_def back_edge_def dom_path_reaches_spec [OF assms(3)])
    with False Cons e show ?thesis by auto
  qed
qed

lemma picked_headers:
  "distinct (map snd (picked g es H)) \<and>
   set (picked g es H) \<subseteq> {(l, h). (l, h) \<in> set es \<and> back_edge g l h \<and> h \<notin> H} \<and>
   snd ` set (picked g es H) = {h. h \<notin> H \<and> (\<exists>l. (l, h) \<in> set es \<and> back_edge g l h)}"
proof (induction es arbitrary: H)
  case (Cons e es)
  obtain l h where e: "e = (l, h)" by (cases e)
  show ?case
  proof (cases "back_edge g l h \<and> h \<notin> H")
    case True
    with Cons [of "insert h H"] show ?thesis by (auto simp: e)
  next
    case False
    with Cons [of H] show ?thesis by (auto simp: e)
  qed
qed simp

text \<open>The headers of the natural loops a block lies in.\<close>

definition headers_around :: "'b CFG \<Rightarrow> NodeId \<Rightarrow> NodeId set" where
  "headers_around g b = {h. \<exists>l. back_edge g l h \<and> reachable_from g 0 l \<and> b \<in> loop_of g l h}"

lemma loop_of_unreachable: "\<not> reachable_from g 0 l \<Longrightarrow> back_edge g l h \<Longrightarrow> h = l \<and> loop_of g l h = {l}"
  by (auto simp: back_edge_def dominates_spec_def loop_of_def elim: rtranclE)

lemma headers_around_finite: "finite (headers_around g b)"
  by (rule finite_subset [of _ "{..<cfg_len g}"]) (auto simp: headers_around_def back_edge_def)

lemma counted_loops:
  assumes "set es = {(u, v). v \<in> set (successors g u)}" and b: "reachable_from g 0 b"
  shows "length (loops_around g b (picked g es {})) \<le> card (headers_around g b) \<and>
    ((\<forall>l l' h. back_edge g l h \<and> back_edge g l' h \<longrightarrow> l = l') \<longrightarrow>
       length (loops_around g b (picked g es {})) = card (headers_around g b))"
proof -
  let ?ls = "loops_around g b (picked g es {})"
  note pk = picked_headers [of g es "{}"]
  have "distinct (map snd ?ls)"
    using pk by (simp add: loops_around_def distinct_map_filter)
  then have len: "length ?ls = card (snd ` set ?ls)"
    by (metis distinct_card length_map list.set_map)
  have sub: "snd ` set ?ls \<subseteq> headers_around g b"
  proof
    fix h assume "h \<in> snd ` set ?ls"
    then obtain l where l: "(l, h) \<in> set (picked g es {})" "b \<in> loop_of g l h"
      by (auto simp: loops_around_def)
    then have "back_edge g l h" using pk by auto
    moreover from this have "reachable_from g 0 l"
      using loop_of_unreachable [of g l h] l(2) b by (metis singletonD)
    ultimately show "h \<in> headers_around g b" using l(2) by (auto simp: headers_around_def)
  qed
  have "headers_around g b \<subseteq> snd ` set ?ls" if u: "\<forall>l l' h. back_edge g l h \<and> back_edge g l' h \<longrightarrow> l = l'"
  proof
    fix h assume "h \<in> headers_around g b"
    then obtain l where l: "back_edge g l h" "b \<in> loop_of g l h" by (auto simp: headers_around_def)
    moreover from this have "(l, h) \<in> set es" using assms(1) by (auto simp: back_edge_def)
    ultimately have "h \<in> snd ` set (picked g es {})" using pk by auto
    then obtain l' where l': "(l', h) \<in> set (picked g es {})" by auto
    then have "l' = l" using pk u l(1) by auto
    with l l' show "h \<in> snd ` set ?ls" by (force simp: loops_around_def)
  qed
  then have "(\<forall>l l' h. back_edge g l h \<and> back_edge g l' h \<longrightarrow> l = l') \<longrightarrow> snd ` set ?ls = headers_around g b"
    using sub by blast
  moreover have "card (snd ` set ?ls) \<le> card (headers_around g b)"
    using sub by (rule card_mono [OF headers_around_finite])
  ultimately show ?thesis using len by auto
qed

lemma set_edges_all: "set keys = dom (cfg_successors g) \<Longrightarrow> set (edges_of g keys) = {(u, v). v \<in> set (successors g u)}"
  using successors_dom [of _ g] unfolding set_edges_of by blast

lemma compute_loop_depth_spec:
  assumes fin: "cfg_finite g" and wf: "cfg_wf g" and st: "dom_state g N doms" and ex: "doms_exact g doms"
    and keys: "set keys = dom (cfg_successors g)"
    and hl: "looping \<longleftrightarrow> (\<exists>l h. back_edge g l h \<and> reachable_from g 0 l)"
  shows "\<exists>d. compute_loop_depth g keys doms (cfg_len g) looping = Some d \<and> length d = cfg_len g \<and>
    (\<forall>b. b < cfg_len g \<and> reachable_from g 0 b \<longrightarrow> d ! b \<le> card (headers_around g b) \<and>
       ((\<forall>l l' h. back_edge g l h \<and> back_edge g l' h \<longrightarrow> l = l') \<longrightarrow> d ! b = card (headers_around g b)))"
proof (cases looping)
  case False
  then have "headers_around g b = {}" for b using hl by (auto simp: headers_around_def)
  with False show ?thesis by (simp add: compute_loop_depth_def)
next
  case True
  let ?es = "edges_of g keys"
  have "\<forall>(u, v)\<in>set ?es. v \<in> set (successors g u)" by (auto simp: set_edges_of)
  from loop_edges_spec [OF fin wf st ex this, of "{}" "replicate (cfg_len g) 0"]
  obtain H' where "foldM (loop_edge g doms (cfg_len g)) ?es ({}, replicate (cfg_len g) 0) =
    Some (H', map (\<lambda>b. replicate (cfg_len g) 0 ! b + length (loops_around g b (picked g ?es {}))) [0..<cfg_len g])"
    by auto
  then show ?thesis
    using True counted_loops [OF set_edges_all [OF keys]] by (simp add: compute_loop_depth_def)
qed

subsection \<open>Pre-order of the dominator tree\<close>

inductive preorder :: "NodeId option list \<Rightarrow> nat \<Rightarrow> NodeId \<Rightarrow> NodeId list \<Rightarrow> bool" for doms n where
  preorder: "v < n \<Longrightarrow> list_all2 (preorder doms n) (dom_children doms n v) xss \<Longrightarrow>
    preorder doms n v (v # concat xss)"

lemma dom_children_set:
  "set (dom_children doms n v) = {i. i < n \<and> i \<noteq> v \<and> dom_get doms i = Some v}" "distinct (dom_children doms n v)"
  by (auto simp: dom_children_def)

lemma child_props:
  assumes "dom_state g N doms" and "c \<in> set (dom_children doms n v)"
  shows "dom_get doms c = Some v \<and> c \<noteq> 0 \<and> c \<noteq> v \<and> N v < N c \<and> ancestors doms c = insert c (ancestors doms v)"
proof -
  have c: "dom_get doms c = Some v" "c \<noteq> v" using assms(2) by (auto simp: dom_children_set)
  moreover from this have "c \<noteq> 0" using dom_stateD(2) [OF assms(1)] by (metis option.inject)
  ultimately show ?thesis using dom_stateD(5) [OF assms(1)] ancestors_step by blast
qed

lemma number_bound:
  assumes "rpo_list g N rpo" and "dom_get doms v \<noteq> None" and "dom_state g N doms"
  shows "N v < length rpo"
  using rpo_listD(3,6) [OF assms(1)] dom_state_reachable [OF assms(3,2)]
  by (metis length_Cons less_Suc_eq_le)

lemma preorder_exists:
  assumes "rpo_list g N rpo" and "dom_state g N doms" and "dom_get doms v \<noteq> None"
  shows "\<exists>xs. preorder doms (cfg_len g) v xs"
  using assms(3)
proof (induction "length rpo - N v" arbitrary: v rule: less_induct)
  case less
  have "\<exists>xs. preorder doms (cfg_len g) c xs" if "c \<in> set (dom_children doms (cfg_len g) v)" for c
  proof (rule less.hyps)
    note c = child_props [OF assms(2) that]
    then show "dom_get doms c \<noteq> None" by simp
    then show "length rpo - N c < length rpo - N v"
      using number_bound [OF assms(1) _ assms(2)] c by (meson diff_less_mono2 less_trans)
  qed
  then obtain f where "\<And>c. c \<in> set (dom_children doms (cfg_len g) v) \<Longrightarrow> preorder doms (cfg_len g) c (f c)"
    by metis
  then have "list_all2 (preorder doms (cfg_len g)) (dom_children doms (cfg_len g) v) (map f (dom_children doms (cfg_len g) v))"
    by (simp add: list_all2_conv_all_nth)
  moreover have "v < cfg_len g" using less.prems dom_stateD(1) [OF assms(2)] by (auto simp: dom_get_def split: if_splits)
  ultimately show ?case by (blast intro: preorder.intros)
qed

lemma ancestors_linear: "x \<in> ancestors doms b \<Longrightarrow> y \<in> ancestors doms b \<Longrightarrow> x \<in> ancestors doms y \<or> y \<in> ancestors doms x"
proof -
  have "single_valued (dom_up doms)" by (auto simp: dom_up_def single_valued_def)
  then show "x \<in> ancestors doms b \<Longrightarrow> y \<in> ancestors doms b \<Longrightarrow> ?thesis"
    unfolding ancestors_def by (auto dest: single_valued_confluent)
qed

lemma descendant_child:
  assumes st: "dom_state g N doms" and "dom_get doms b \<noteq> None" and "v \<in> ancestors doms b" and "b \<noteq> v"
  shows "\<exists>c\<in>set (dom_children doms (cfg_len g) v). c \<in> ancestors doms b"
  using assms(2-4)
proof (induction "N b" arbitrary: b rule: less_induct)
  case less
  then obtain d where d: "dom_get doms b = Some d" by auto
  have b0: "b \<noteq> 0" using less.prems ancestors_entry [OF st] by (metis singletonD)
  have v: "v \<in> ancestors doms d" using less.prems(2,3) ancestors_step [OF d] by auto
  show ?case
  proof (cases "d = v")
    case True
    have "b < cfg_len g" using d dom_stateD(1) [OF st] by (auto simp: dom_get_def split: if_splits)
    then have "b \<in> set (dom_children doms (cfg_len g) v)" using d True less.prems(3) by (simp add: dom_children_set)
    then show ?thesis by (rule bexI [rotated]) simp
  next
    case False
    then have "\<exists>c\<in>set (dom_children doms (cfg_len g) v). c \<in> ancestors doms d"
      using less.hyps [of d] dom_stateD(4,5) [OF st d] b0 v by simp
    then show ?thesis by (auto simp: ancestors_step [OF d])
  qed
qed

lemma distinct_concat_nth:
  assumes "\<And>i. i < length xss \<Longrightarrow> distinct (xss ! i)"
    and "\<And>i j. i < j \<Longrightarrow> j < length xss \<Longrightarrow> set (xss ! i) \<inter> set (xss ! j) = {}"
  shows "distinct (concat xss)"
  using assms
proof (induction xss)
  case (Cons xs xss)
  have "distinct (concat xss)"
    by (rule Cons.IH) (use Cons.prems(1) [of "Suc _"] Cons.prems(2) [of "Suc _" "Suc _"] in simp_all)
  moreover have "distinct xs" using Cons.prems(1) [of 0] by simp
  moreover have "set xs \<inter> set ys = {}" if "ys \<in> set xss" for ys
  proof -
    obtain j where "j < length xss" "ys = xss ! j" using \<open>ys \<in> set xss\<close> by (auto simp: in_set_conv_nth)
    then show ?thesis using Cons.prems(2) [of 0 "Suc j"] by simp
  qed
  ultimately show ?case by auto
qed simp

lemma preorder_set:
  assumes st: "dom_state g N doms" and "preorder doms (cfg_len g) v xs"
  shows "dom_get doms v \<noteq> None \<Longrightarrow> set xs = {b. dom_get doms b \<noteq> None \<and> v \<in> ancestors doms b} \<and> distinct xs"
  using assms(2)
proof (induction rule: preorder.induct)
  case (preorder v xss)
  let ?cs = "dom_children doms (cfg_len g) v"
  let ?D = "\<lambda>v. {b. dom_get doms b \<noteq> None \<and> v \<in> ancestors doms b}"
  have len: "length ?cs = length xss" using preorder.IH by (simp add: list_all2_conv_all_nth)
  have child: "dom_get doms c = Some v \<and> c \<noteq> 0 \<and> c \<noteq> v \<and> N v < N c \<and> ancestors doms c = insert c (ancestors doms v)"
    if "c \<in> set ?cs" for c
    using child_props [OF st that] .
  have sub: "set (xss ! i) = ?D (?cs ! i) \<and> distinct (xss ! i)" if "i < length xss" for i
    using preorder.IH that child [of "?cs ! i"] len by (auto simp: list_all2_conv_all_nth)
  have cs: "set (concat xss) = (\<Union>c\<in>set ?cs. ?D c)"
  proof -
    have "set (concat xss) = (\<Union>i<length xss. set (xss ! i))" by (auto simp: set_conv_nth [of xss])
    also have "\<dots> = (\<Union>i<length xss. ?D (?cs ! i))" by (rule SUP_cong) (use sub in auto)
    also have "\<dots> = (\<Union>c\<in>set ?cs. ?D c)" unfolding set_conv_nth [of ?cs] len by blast
    finally show ?thesis .
  qed
  have disj: "?D (?cs ! i) \<inter> ?D (?cs ! j) = {}" if "i < j" "j < length xss" for i j
  proof -
    have ne: "?cs ! i \<noteq> ?cs ! j" using that len dom_children_set(2) nth_eq_iff_index_eq by (metis less_irrefl less_trans)
    have mem: "?cs ! i \<in> set ?cs" "?cs ! j \<in> set ?cs" using that len by auto
    have nd: "x \<notin> ancestors doms y" if "x \<in> set ?cs" "y \<in> set ?cs" "x \<noteq> y" for x y
    proof
      assume "x \<in> ancestors doms y"
      then have "x \<in> ancestors doms v" using child [OF that(2)] that(3) by blast
      then have "N x \<le> N v" using ancestors_set [OF st _ preorder.prems] by blast
      then show False using child [OF that(1)] by linarith
    qed
    show ?thesis
    proof (rule ccontr)
      assume "?D (?cs ! i) \<inter> ?D (?cs ! j) \<noteq> {}"
      then obtain b where "?cs ! i \<in> ancestors doms b" "?cs ! j \<in> ancestors doms b" by blast
      then show False using ancestors_linear nd [OF mem ne] nd [OF mem(2,1)] ne by metis
    qed
  qed
  have "set (v # concat xss) = ?D v"
  proof (intro equalityI subsetI)
    fix b assume "b \<in> set (v # concat xss)"
    then consider "b = v" | c where "c \<in> set ?cs" "b \<in> ?D c" unfolding list.set(2) cs by blast
    then show "b \<in> ?D v"
    proof cases
      case 2
      then have "v \<in> ancestors doms c" using child by auto
      with 2 ancestors_trans [of c doms b] show ?thesis by blast
    qed (use preorder.prems in simp)
  next
    fix b assume "b \<in> ?D v"
    then show "b \<in> set (v # concat xss)"
      using descendant_child [OF st, of b v] unfolding list.set(2) cs by blast
  qed
  moreover have "distinct (concat xss)"
    by (rule distinct_concat_nth) (use sub disj len in auto)
  moreover have "v \<notin> ?D c" if "c \<in> set ?cs" for c
    using child [OF that] ancestors_set [OF st _ preorder.prems, of c] by force
  then have "v \<notin> set (concat xss)" unfolding cs by blast
  ultimately show ?case by simp
qed

lemma preorder_segment:
  assumes "preorder doms n v xs" and "a \<in> set xs"
  shows "\<exists>us ya ws. xs = us @ ya @ ws \<and> preorder doms n a ya"
  using assms
proof (induction rule: preorder.induct)
  case (preorder v xss)
  show ?case
  proof (cases "a = v")
    case True
    have "preorder doms n v (v # concat xss)"
      using preorder.hyps preorder.IH by (intro preorder.intros) (auto elim: list_all2_mono)
    with True show ?thesis by (metis append_Nil append_Nil2)
  next
    case False
    then obtain zs where "zs \<in> set xss" "a \<in> set zs" using preorder.prems by auto
    then obtain l r where xss: "xss = l @ zs # r" by (meson split_list)
    with preorder.IH \<open>a \<in> set zs\<close> have "\<exists>us ya ws. zs = us @ ya @ ws \<and> preorder doms n a ya"
      by (auto simp: list_all2_append2 list_all2_Cons2)
    then obtain us ya ws where "zs = us @ ya @ ws" "preorder doms n a ya" by blast
    with xss have "v # concat xss = (v # concat l @ us) @ ya @ (ws @ concat r)" by simp
    with \<open>preorder doms n a ya\<close> show ?thesis by blast
  qed
qed

text \<open>The stack loop visits the blocks in this order.\<close>

definition assign_from :: "nat \<Rightarrow> NodeId list \<Rightarrow> nat list \<Rightarrow> nat list" where
  "assign_from c xs w = fold (\<lambda>(i, v) w. w[v := i]) (enumerate c xs) w"

lemma assign_from_append: "assign_from c (xs @ ys) w = assign_from (c + length xs) ys (assign_from c xs w)"
  by (simp add: assign_from_def enumerate_append_eq)

lemma dfs_pre_children:
  assumes "list_all2 (\<lambda>v xs. \<forall>stack c w. dfs_pre_loop doms n (stack @ [v]) c w =
      dfs_pre_loop doms n stack (c + length xs) (assign_from c xs w)) vs xss"
  shows "dfs_pre_loop doms n (stack @ rev vs) c w =
    dfs_pre_loop doms n stack (c + length (concat xss)) (assign_from c (concat xss) w)"
  using assms
proof (induction vs xss arbitrary: c w rule: list_all2_induct)
  case Nil
  then show ?case by (simp add: assign_from_def)
next
  case (Cons v vs xs xss)
  have "dfs_pre_loop doms n ((stack @ rev vs) @ [v]) c w =
      dfs_pre_loop doms n (stack @ rev vs) (c + length xs) (assign_from c xs w)"
    using Cons.hyps(1) by blast
  with Cons.IH show ?case by (simp add: assign_from_append add.assoc)
qed

lemma dfs_pre_preorder:
  "preorder doms n v xs \<Longrightarrow>
   dfs_pre_loop doms n (stack @ [v]) c w = dfs_pre_loop doms n stack (c + length xs) (assign_from c xs w)"
proof (induction arbitrary: stack c w rule: preorder.induct)
  case (preorder v xss)
  have "dfs_pre_loop doms n (stack @ [v]) c w =
      dfs_pre_loop doms n (stack @ rev (dom_children doms n v)) (c + 1) (w[v := c])"
    using preorder.hyps by (subst dfs_pre_loop.simps) simp
  also have "\<dots> = dfs_pre_loop doms n stack (c + 1 + length (concat xss)) (assign_from (c + 1) (concat xss) (w[v := c]))"
    by (rule dfs_pre_children) (use preorder.IH in \<open>auto elim: list_all2_mono\<close>)
  finally show ?case by (simp add: assign_from_def add.commute add.left_commute)
qed

lemma assign_from_nth:
  assumes "distinct xs" and "\<forall>x\<in>set xs. x < length w"
  shows "length (assign_from c xs w) = length w \<and> (\<forall>i < length xs. assign_from c xs w ! (xs ! i) = c + i)"
proof -
  have "assign_from c xs w = fold (\<lambda>(i, node) v. if node < length w then v[node := i] else v) (enumerate c xs) w"
    unfolding assign_from_def by (rule fold_cong) (use assms(2) in \<open>auto simp: in_set_enumerate_eq\<close>)
  with rpo_numbers_fold [OF assms refl, of c] show ?thesis by (simp add: Let_def)
qed

lemma compute_dom_dfs_pre_spec:
  assumes n: "0 < cfg_len g" and rl: "rpo_list g N rpo" and st: "dom_state g N doms" and ex: "doms_exact g doms"
    and all: "\<forall>v. reachable_from g 0 v \<longrightarrow> dom_get doms v \<noteq> None"
  shows "\<exists>w xs. compute_dom_dfs_pre doms 0 (cfg_len g) = Some w \<and> length w = cfg_len g \<and>
    preorder doms (cfg_len g) 0 xs \<and> distinct xs \<and> set xs = {v. reachable_from g 0 v} \<and>
    (\<forall>i < length xs. w ! (xs ! i) = i)"
proof -
  have d0: "dom_get doms 0 \<noteq> None" using all by simp
  then obtain xs where xs: "preorder doms (cfg_len g) 0 xs" using preorder_exists [OF rl st] by blast
  have "set xs = {b. dom_get doms b \<noteq> None \<and> 0 \<in> ancestors doms b}" and dist: "distinct xs"
    using preorder_set [OF st xs d0] by auto
  moreover have "dom_get doms b \<noteq> None \<and> 0 \<in> ancestors doms b \<longleftrightarrow> reachable_from g 0 b" for b
    using all ex dom_state_reachable [OF st] dom_by_entry by (auto simp: doms_exact_def)
  ultimately have set: "set xs = {v. reachable_from g 0 v}" by simp
  then have "\<forall>x\<in>set xs. x < length (replicate (cfg_len g) (0 :: nat))" using n by (auto dest: reachable_lt)
  note as = assign_from_nth [OF dist this, of 0]
  have "compute_dom_dfs_pre doms 0 (cfg_len g) = Some (assign_from 0 xs (replicate (cfg_len g) 0))"
    using dfs_pre_preorder [OF xs, of "[]"] by (simp add: compute_dom_dfs_pre_def) (subst dfs_pre_loop.simps, simp)
  then show ?thesis using xs dist set as by auto
qed

lemma preorder_Cons: "preorder doms n v xs \<Longrightarrow> xs = v # tl xs"
  by (auto elim: preorder.cases)

text \<open>
  The numbers identify the blocks, and the blocks a block dominates are exactly an interval of them that
  starts with its own number.
\<close>

lemma preorder_intervals:
  assumes st: "dom_state g N doms" and ex: "doms_exact g doms" and xs: "preorder doms (cfg_len g) 0 xs"
    and dist: "distinct xs" and set: "set xs = {v. reachable_from g 0 v}"
    and all: "\<forall>v. reachable_from g 0 v \<longrightarrow> dom_get doms v \<noteq> None"
    and num: "\<forall>i < length xs. w ! (xs ! i) = i" and a: "reachable_from g 0 a"
  shows "\<exists>k. \<forall>b. reachable_from g 0 b \<longrightarrow> (dom_by g a b \<longleftrightarrow> w ! a \<le> w ! b \<and> w ! b < w ! a + k)"
proof -
  obtain us ya ws where seg: "xs = us @ ya @ ws" "preorder doms (cfg_len g) a ya"
    using preorder_segment [OF xs, of a] a set by auto
  have ya: "set ya = {b. dom_get doms b \<noteq> None \<and> a \<in> ancestors doms b}"
    using preorder_set [OF st seg(2)] all a by blast
  have "ya = a # tl ya" using preorder_Cons [OF seg(2)] .
  then have "xs ! length us = a \<and> length us < length xs"
    using seg(1) by (metis append_Cons length_append length_Cons less_add_Suc1 nth_append_length add_Suc_right)
  then have wa: "w ! a = length us" using num by auto
  have "dom_by g a b \<longleftrightarrow> w ! a \<le> w ! b \<and> w ! b < w ! a + length ya" if b: "reachable_from g 0 b" for b
  proof -
    obtain i where i: "i < length xs" "xs ! i = b" using b set by (metis in_set_conv_nth mem_Collect_eq)
    then have wb: "w ! b = i" using num by auto
    have "dom_by g a b \<longleftrightarrow> b \<in> set ya" using ya all b ex by (auto simp: doms_exact_def)
    also have "\<dots> \<longleftrightarrow> length us \<le> i \<and> i < length us + length ya"
    proof
      assume "b \<in> set ya"
      then obtain j where j: "j < length ya" "ya ! j = b" by (auto simp: in_set_conv_nth)
      then have "xs ! (length us + j) = b" "length us + j < length xs" using seg(1) by (auto simp: nth_append)
      then have "i = length us + j" using i dist nth_eq_iff_index_eq by blast
      with j show "length us \<le> i \<and> i < length us + length ya" by simp
    next
      assume "length us \<le> i \<and> i < length us + length ya"
      then have "xs ! i = ya ! (i - length us)" "i - length us < length ya" using seg(1) by (auto simp: nth_append)
      with i show "b \<in> set ya" by (metis nth_mem)
    qed
    finally show ?thesis using wa wb by simp
  qed
  then show ?thesis by blast
qed

subsection \<open>The analysis as a whole\<close>

definition rpo_retreats :: "'b CFG \<Rightarrow> NodeId set" where
  "rpo_retreats g = retreat_targets g (num_get (rpo_numbers (reverse_post_order g) (cfg_len g)))"

lemma rpo_parts:
  assumes "0 < cfg_len g"
  obtains rpo where "reverse_post_order_opt g = Some rpo" "reverse_post_order g = rpo" "rpo \<noteq> []" "hd rpo = 0"
    "rpo_list g (num_get (rpo_numbers rpo (cfg_len g))) rpo"
proof -
  obtain tl where "reverse_post_order_opt g = Some (0 # tl)"
    using reverse_post_order_opt_spec [OF assms] by blast
  then show ?thesis
    using that [of "0 # tl"] reverse_post_order_numbers [OF assms] by (simp add: reverse_post_order_def)
qed

lemma dom_analysis_parts:
  assumes g: "cfg_built g" and n: "0 < cfg_len g" and keys: "set keys = dom (cfg_successors g)"
    and doms: "compute_dominators g (reverse_post_order g) (cfg_len g) = Some doms"
  obtains an N xs where "compute_dom_analysis keys g = Some an" "da_dom_parent an = doms"
    "dom_state g N doms" "doms_exact g doms" "\<forall>v. reachable_from g 0 v \<longrightarrow> dom_get doms v \<noteq> None"
    "da_has_loop an \<longleftrightarrow> (\<exists>l h. back_edge g l h \<and> reachable_from g 0 l)"
    "length (da_loop_depth an) = cfg_len g"
    "\<forall>b. b < cfg_len g \<and> reachable_from g 0 b \<longrightarrow> da_loop_depth an ! b \<le> card (headers_around g b) \<and>
       ((\<forall>l l' h. back_edge g l h \<and> back_edge g l' h \<longrightarrow> l = l') \<longrightarrow> da_loop_depth an ! b = card (headers_around g b))"
    "length (da_dom_dfs_pre an) = cfg_len g" "preorder doms (cfg_len g) 0 xs" "distinct xs"
    "set xs = {v. reachable_from g 0 v}" "\<forall>i < length xs. da_dom_dfs_pre an ! (xs ! i) = i"
proof -
  have wf: "cfg_wf g" and fin: "cfg_finite g" using g by (rule cfg_built_wf, rule cfg_built_finite)
  obtain rpo where rpo: "reverse_post_order_opt g = Some rpo" "reverse_post_order g = rpo" "rpo \<noteq> []" "hd rpo = 0"
    "rpo_list g (num_get (rpo_numbers rpo (cfg_len g))) rpo" using rpo_parts [OF n] .
  let ?N = "num_get (rpo_numbers rpo (cfg_len g))"
  have st: "dom_state g ?N doms" and ex: "doms_exact g doms" and all: "\<forall>v. reachable_from g 0 v \<longrightarrow> dom_get doms v \<noteq> None"
    using compute_dominators_exact [OF n wf rpo(1)] doms rpo(2) by auto
  note hl = detect_back_edges_spec [OF st ex all keys]
  obtain d where d: "compute_loop_depth g keys doms (cfg_len g) (\<exists>l h. back_edge g l h \<and> reachable_from g 0 l) = Some d"
    "length d = cfg_len g" "\<forall>b. b < cfg_len g \<and> reachable_from g 0 b \<longrightarrow> d ! b \<le> card (headers_around g b) \<and>
       ((\<forall>l l' h. back_edge g l h \<and> back_edge g l' h \<longrightarrow> l = l') \<longrightarrow> d ! b = card (headers_around g b))"
    using compute_loop_depth_spec [OF fin wf st ex keys refl] by blast
  obtain w xs where w: "compute_dom_dfs_pre doms 0 (cfg_len g) = Some w" "length w = cfg_len g"
    "preorder doms (cfg_len g) 0 xs" "distinct xs" "set xs = {v. reachable_from g 0 v}" "\<forall>i < length xs. w ! (xs ! i) = i"
    using compute_dom_dfs_pre_spec [OF n rpo(5) st ex all] by blast
  have "compute_dom_analysis keys g = Some \<lparr>da_dom_parent = doms, da_dom_dfs_pre = w, da_loop_depth = d,
      da_has_loop = (\<exists>l h. back_edge g l h \<and> reachable_from g 0 l)\<rparr>"
    using rpo doms hl d(1) w(1) by (simp add: compute_dom_analysis_def cfg_len_def)
  from that [OF this _ st ex all, of xs] d(2,3) w show ?thesis by simp
qed

lemma dom_analysis_Some:
  assumes "0 < cfg_len g" and "compute_dom_analysis keys g = Some an"
  obtains doms where "compute_dominators g (reverse_post_order g) (cfg_len g) = Some doms"
proof -
  obtain rpo where "reverse_post_order_opt g = Some rpo" "reverse_post_order g = rpo" "rpo \<noteq> []" "hd rpo = 0"
    using rpo_parts [OF assms(1)] .
  then show ?thesis
    using assms(2) that by (auto simp: compute_dom_analysis_def cfg_len_def Let_def split: Option.bind_splits)
qed

lemma cfg_built_no_cache: "cfg_built g \<Longrightarrow> cfg_dom_analysis g = None"
  by (induction rule: cfg_built.induct)
     (auto simp: cfg_default_def cb_build_def cfg_push_def cfg_add_edge_def disconnect_block_def split: prod.splits)

lemma ensure_fresh:
  assumes "cfg_built g"
  shows "ensure_dom_analysis keys g = Some (an, g') \<longleftrightarrow>
    compute_dom_analysis keys g = Some an \<and> g' = g\<lparr>cfg_dom_analysis := Some an\<rparr>"
  by (auto simp: ensure_dom_analysis_def cfg_built_no_cache [OF assms] split: Option.bind_splits)

subsection \<open>Properties\<close>

text \<open>
  Property C7.  Let a graph be built by the operations above, with at most 998 blocks that are the target of
  an edge going backwards in the reverse post-order (so in particular any graph of at most 998 blocks).  Then
  its dominator analysis returns: the iteration reaches its fixed point before the asserted limit of 1000
  passes, no walk up the table loops and no index is out of range.  The bound is needed: the ladder with
  edges from 0 to 1 and to the last block and both ways between all other neighbours takes as many passes as it has blocks, so a
  ladder of 1010 blocks fails the assertion.
\<close>

theorem dom_analysis_returns:
  assumes "cfg_built g" and "set keys = dom (cfg_successors g)" and "card (rpo_retreats g) \<le> 998"
  shows "\<exists>an. compute_dom_analysis keys g = Some an"
proof (cases "cfg_len g = 0")
  case True
  then show ?thesis by (simp add: compute_dom_analysis_def reverse_post_order_opt_def cfg_len_def)
next
  case False
  then have n: "0 < cfg_len g" by simp
  obtain rpo where rpo: "reverse_post_order_opt g = Some rpo" "reverse_post_order g = rpo" using rpo_parts [OF n] .
  obtain doms where "compute_dominators g (reverse_post_order g) (cfg_len g) = Some doms"
    using compute_dominators_returns [OF n cfg_built_wf [OF assms(1)] rpo(1)] assms(3) rpo(2)
    by (auto simp: rpo_retreats_def)
  from dom_analysis_parts [OF assms(1) n assms(2) this] show ?thesis by metis
qed

definition two_loops :: "nat CFG" where
  "two_loops = cb_build \<lparr>cb_blocks = [0, 1, 2, 3], cb_edges =
     [\<lparr>e_from = 0, e_to = 1\<rparr>, \<lparr>e_from = 1, e_to = 2\<rparr>, \<lparr>e_from = 2, e_to = 2\<rparr>, \<lparr>e_from = 2, e_to = 1\<rparr>,
      \<lparr>e_from = 1, e_to = 3\<rparr>]\<rparr>"

lemma two_loops_built: "cfg_built two_loops"
  unfolding two_loops_def by (rule cfg_built.build)

lemma two_loops_keys: "set [0, 1, 2] = dom (cfg_successors two_loops)"
  by (auto simp: two_loops_def cb_build_def entry_push_def split: if_splits)

lemma two_loops_len: "cfg_len two_loops = 4"
  by (simp add: two_loops_def cfg_len_def)

lemma rpo_retreats_le: "0 < cfg_len g \<Longrightarrow> card (rpo_retreats g) \<le> cfg_len g"
proof -
  assume n: "0 < cfg_len g"
  have "rpo_retreats g \<subseteq> {..<cfg_len g}"
    using n by (auto simp: rpo_retreats_def retreat_targets_def dest: reachable_lt)
  then show ?thesis using card_mono [of "{..<cfg_len g}" "rpo_retreats g"] by simp
qed

theorem dom_analysis_returns_witness: "\<exists>an. compute_dom_analysis [0, 1, 2] two_loops = Some an"
  by (rule dom_analysis_returns [OF two_loops_built two_loops_keys])
     (use rpo_retreats_le [of two_loops] two_loops_len in linarith)

text \<open>
  Property C6.  Whenever \<^verbatim>\<open>dominates\<close> returns on a graph built by these operations, its answer
  is dominance by paths: for a reachable block \<open>b\<close>, whether every path from the entry to \<open>b\<close> visits
  \<open>a\<close>; a block that cannot be reached is dominated by itself only.  The call fills the cache of the graph
  and changes nothing else.
\<close>

theorem dominates_is_dominance:
  assumes "cfg_built g" and "set keys = dom (cfg_successors g)" and "a < cfg_len g" and "b < cfg_len g"
    and "dominates keys g a b = Some (r, g')"
  shows "(r \<longleftrightarrow> (if reachable_from g 0 b then \<forall>\<pi>. entry_path g (b # \<pi>) \<longrightarrow> a \<in> set (b # \<pi>) else a = b)) \<and>
    g'\<lparr>cfg_dom_analysis := None\<rparr> = g"
proof -
  have n: "0 < cfg_len g" using assms(3) by simp
  obtain an where an: "compute_dom_analysis keys g = Some an" "g' = g\<lparr>cfg_dom_analysis := Some an\<rparr>"
    "da_dominates an a b = Some r"
    using assms(5) ensure_fresh [OF assms(1)] by (auto simp: dominates_def split: Option.bind_splits prod.splits)
  obtain doms where doms: "compute_dominators g (reverse_post_order g) (cfg_len g) = Some doms"
    using dom_analysis_Some [OF n an(1)] .
  obtain an' N where p: "compute_dom_analysis keys g = Some an'" "da_dom_parent an' = doms"
    "dom_state g N doms" "doms_exact g doms" using dom_analysis_parts [OF assms(1) n assms(2) doms] .
  then have "da_dom_parent an = doms" using an(1) by simp
  then have "r \<longleftrightarrow> dominates_spec g a b"
    using an(3) p(3) assms(3,4) dom_stateD(1) [OF p(3)] ancestors_dominates [OF p(3,4)]
    by (auto simp: da_dominates_def dom_path_reaches_spec [OF p(3)])
  then show ?thesis
    using an(2) cfg_built_no_cache [OF assms(1)] by (simp add: dominates_spec_def dom_by_def)
qed



lemma two_loops_path: "entry_path two_loops [3, 1, 0]"
  by (intro entry_path.intros) (simp_all add: two_loops_def build_edges cfg_len_def)

theorem dominates_is_dominance_witness:
  "\<exists>g'. dominates [0, 1, 2] two_loops 1 3 = Some (True, g') \<and> dom_by two_loops 1 3"
proof -
  have "map_option fst (dominates [0, 1, 2] two_loops 1 3) = Some True" by code_simp
  then obtain g' where g': "dominates [0, 1, 2] two_loops 1 3 = Some (True, g')" by auto
  have "reachable_from two_loops 0 3" using entry_path_reachable [OF two_loops_path, of 3] by simp
  with dominates_is_dominance [OF two_loops_built two_loops_keys _ _ g'] g' show ?thesis
    by (simp add: dom_by_def two_loops_len)
qed

text \<open>
  Property C9.  \<^verbatim>\<open>idom\<close> (\<^verbatim>\<open>dom_parent_index\<close>) is the immediate dominator: for a reachable block other
  than the entry it is the strict dominator that every other strict dominator dominates; the entry and
  the blocks that cannot be reached have none.
\<close>

theorem idom_is_immediate:
  assumes "cfg_built g" and "set keys = dom (cfg_successors g)" and "b < cfg_len g"
    and "idom keys g b = Some (r, g')"
  shows "case r of
      None \<Rightarrow> b = 0 \<or> \<not> reachable_from g 0 b
    | Some d \<Rightarrow> reachable_from g 0 b \<and> b \<noteq> 0 \<and> d \<noteq> b \<and> dom_by g d b \<and>
        (\<forall>a. dom_by g a b \<and> a \<noteq> b \<longrightarrow> dom_by g a d)"
proof -
  have n: "0 < cfg_len g" using assms(3) by simp
  obtain an where an: "compute_dom_analysis keys g = Some an"
    "r = (case dom_get (da_dom_parent an) b of None \<Rightarrow> None | Some p \<Rightarrow> if p \<noteq> b then Some p else None)"
    using assms(4) ensure_fresh [OF assms(1)]
    by (auto simp: idom_def dom_parent_index_def split: Option.bind_splits prod.splits)
  obtain doms where doms: "compute_dominators g (reverse_post_order g) (cfg_len g) = Some doms"
    using dom_analysis_Some [OF n an(1)] .
  obtain an' N where p: "compute_dom_analysis keys g = Some an'" "da_dom_parent an' = doms"
    "dom_state g N doms" "doms_exact g doms" "\<forall>v. reachable_from g 0 v \<longrightarrow> dom_get doms v \<noteq> None"
    using dom_analysis_parts [OF assms(1) n assms(2) doms] .
  then have dp: "da_dom_parent an = doms" using an(1) by simp
  show ?thesis
  proof (cases "dom_get doms b")
    case None
    with p(5) an(2) dp show ?thesis by auto
  next
    case (Some d)
    have rb: "reachable_from g 0 b" using dom_stateD(3) [OF p(3) Some] .
    show ?thesis
    proof (cases "b = 0")
      case True
      then show ?thesis using Some an(2) dp dom_stateD(2) [OF p(3)] by simp
    next
      case False
      then have ne: "d \<noteq> b" using dom_stateD(5) [OF p(3) Some] by auto
      have "dom_by g d b" using p(4) rb ancestors_step [OF Some] by (auto simp: doms_exact_def)
      moreover have "dom_by g a d" if "dom_by g a b" "a \<noteq> b" for a
        using dom_stateD(6) [OF p(3) Some False that(1)] that(2) by blast
      ultimately show ?thesis using Some an(2) dp ne False rb by simp
    qed
  qed
qed

theorem idom_is_immediate_witness:
  "\<exists>g'. idom [0, 1, 2] two_loops 2 = Some (Some 1, g') \<and> dom_by two_loops 1 2"
proof -
  have "map_option fst (idom [0, 1, 2] two_loops 2) = Some (Some 1)" by code_simp
  then obtain g' where g': "idom [0, 1, 2] two_loops 2 = Some (Some 1, g')" by auto
  with idom_is_immediate [OF two_loops_built two_loops_keys _ g'] show ?thesis by (simp add: two_loops_len)
qed

text \<open>
  Property C8.  The pre-order numbers of the dominator tree characterise dominance: on the reachable
  blocks the number is injective, and the blocks that a block dominates are exactly those whose number
  is in an interval that starts at its own (what \<^verbatim>\<open>to_cssa\<close> relies on when it sorts by the number and
  keeps a stack of dominators).
\<close>

theorem dom_dfs_pre_intervals:
  assumes "cfg_built g" and "set keys = dom (cfg_successors g)" and "0 < cfg_len g"
    and "compute_dom_analysis keys g = Some an"
  shows "inj_on ((!) (da_dom_dfs_pre an)) {v. reachable_from g 0 v} \<and>
    (\<forall>a. reachable_from g 0 a \<longrightarrow> (\<exists>k. \<forall>b. reachable_from g 0 b \<longrightarrow>
       (dom_by g a b \<longleftrightarrow> da_dom_dfs_pre an ! a \<le> da_dom_dfs_pre an ! b \<and>
          da_dom_dfs_pre an ! b < da_dom_dfs_pre an ! a + k)))"
proof -
  obtain doms where doms: "compute_dominators g (reverse_post_order g) (cfg_len g) = Some doms"
    using dom_analysis_Some [OF assms(3,4)] .
  obtain an' N xs where p: "compute_dom_analysis keys g = Some an'"
    "dom_state g N doms" "doms_exact g doms" "\<forall>v. reachable_from g 0 v \<longrightarrow> dom_get doms v \<noteq> None"
    "preorder doms (cfg_len g) 0 xs" "distinct xs" "set xs = {v. reachable_from g 0 v}"
    "\<forall>i < length xs. da_dom_dfs_pre an' ! (xs ! i) = i"
    using dom_analysis_parts [OF assms(1,3,2) doms] .
  have an: "an' = an" using p(1) assms(4) by simp
  have "inj_on ((!) (da_dom_dfs_pre an)) (set xs)"
    using p(8) an by (metis in_set_conv_nth inj_onI)
  then show ?thesis using preorder_intervals [OF p(2,3,5,6,7,4,8)] an p(7) by simp
qed

theorem dom_dfs_pre_intervals_witness:
  "\<exists>an. compute_dom_analysis [0, 1, 2] two_loops = Some an \<and>
     inj_on ((!) (da_dom_dfs_pre an)) {v. reachable_from two_loops 0 v}"
proof -
  have "compute_dom_analysis [0, 1, 2] two_loops =
      Some \<lparr>da_dom_parent = [Some 0, Some 0, Some 1, Some 1], da_dom_dfs_pre = [0, 1, 2, 3],
        da_loop_depth = [0, 1, 2, 0], da_has_loop = True\<rparr>" by code_simp
  with dom_dfs_pre_intervals [OF two_loops_built two_loops_keys _ this] show ?thesis
    by (simp add: two_loops_len)
qed

text \<open>
  Property C10.  \<^verbatim>\<open>has_loop\<close> is set exactly when a reachable block has an edge to one of its dominators,
  and the loop depth of a reachable block is at most the number of headers whose natural loops contain
  it; it is that number when no header is the target of two back edges.
\<close>

theorem loop_depth_counts_loops:
  assumes "cfg_built g" and "set keys = dom (cfg_successors g)" and "b < cfg_len g" and "reachable_from g 0 b"
    and "compute_dom_analysis keys g = Some an"
  shows "(da_has_loop an \<longleftrightarrow> (\<exists>l h. reachable_from g 0 l \<and> h \<in> set (successors g l) \<and> h < cfg_len g \<and> dom_by g h l)) \<and>
    da_loop_depth an ! b \<le> card (headers_around g b) \<and>
    ((\<forall>l l' h. back_edge g l h \<and> back_edge g l' h \<longrightarrow> l = l') \<longrightarrow> da_loop_depth an ! b = card (headers_around g b))"
proof -
  have n: "0 < cfg_len g" using assms(3) by simp
  obtain doms where doms: "compute_dominators g (reverse_post_order g) (cfg_len g) = Some doms"
    using dom_analysis_Some [OF n assms(5)] .
  obtain an' N where p: "compute_dom_analysis keys g = Some an'"
    "da_has_loop an' \<longleftrightarrow> (\<exists>l h. back_edge g l h \<and> reachable_from g 0 l)"
    "\<forall>b. b < cfg_len g \<and> reachable_from g 0 b \<longrightarrow> da_loop_depth an' ! b \<le> card (headers_around g b) \<and>
       ((\<forall>l l' h. back_edge g l h \<and> back_edge g l' h \<longrightarrow> l = l') \<longrightarrow> da_loop_depth an' ! b = card (headers_around g b))"
    using dom_analysis_parts [OF assms(1) n assms(2) doms] .
  have an: "an' = an" using p(1) assms(5) by simp
  have "(\<exists>l h. back_edge g l h \<and> reachable_from g 0 l) \<longleftrightarrow>
    (\<exists>l h. reachable_from g 0 l \<and> h \<in> set (successors g l) \<and> h < cfg_len g \<and> dom_by g h l)"
    using reachable_lt [OF _ n] by (auto simp: back_edge_def dominates_spec_def)
  then show ?thesis using p(2,3) assms(3,4) an by auto
qed

theorem loop_depth_counts_loops_witness:
  "\<exists>an. compute_dom_analysis [0, 1, 2] two_loops = Some an \<and> da_has_loop an \<and>
     da_loop_depth an ! 2 \<le> card (headers_around two_loops 2)"
proof -
  have an: "compute_dom_analysis [0, 1, 2] two_loops =
      Some \<lparr>da_dom_parent = [Some 0, Some 0, Some 1, Some 1], da_dom_dfs_pre = [0, 1, 2, 3],
        da_loop_depth = [0, 1, 2, 0], da_has_loop = True\<rparr>" by code_simp
  have "entry_path two_loops [2, 1, 0]"
    by (intro entry_path.intros) (simp_all add: two_loops_def build_edges cfg_len_def)
  then have "reachable_from two_loops 0 2" using entry_path_reachable by fastforce
  from loop_depth_counts_loops [OF two_loops_built two_loops_keys _ this an] show ?thesis
    using an by (simp add: two_loops_len)
qed

subsection \<open>Where the code departs from its intent\<close>

text \<open>
  \<^verbatim>\<open>push\<close> and \<^verbatim>\<open>add_edge\<close> keep the cached analysis, so a query after a query and a new edge answers for the
  old graph: here \<open>1\<close> no longer dominates \<open>2\<close>.
\<close>

definition chain3 :: "nat CFG" where
  "chain3 = cb_build \<lparr>cb_blocks = [0, 1, 2], cb_edges = [\<lparr>e_from = 0, e_to = 1\<rparr>, \<lparr>e_from = 1, e_to = 2\<rparr>]\<rparr>"

theorem add_edge_keeps_stale_dominators:
  "do {
     (_, g) \<leftarrow> dominates [0, 1] chain3 1 2;
     (r, _) \<leftarrow> dominates [0, 1] (cfg_add_edge g 0 2) 1 2;
     Some r
   } = Some True \<and>
   do { (r, _) \<leftarrow> dominates [0, 1] (cfg_add_edge chain3 0 2) 1 2; Some r } = Some False"
  by code_simp

text \<open>
  With two back edges to one header only the first one met is followed, so the depth depends on the
  order of the hash map: the block \<open>3\<close> of a loop with two latches has depth 1 or 0.
\<close>

definition two_latches :: "nat CFG" where
  "two_latches = cb_build \<lparr>cb_blocks = [0, 1, 2, 3], cb_edges =
     [\<lparr>e_from = 0, e_to = 1\<rparr>, \<lparr>e_from = 1, e_to = 2\<rparr>, \<lparr>e_from = 1, e_to = 3\<rparr>, \<lparr>e_from = 2, e_to = 1\<rparr>,
      \<lparr>e_from = 3, e_to = 1\<rparr>]\<rparr>"

theorem loop_depth_depends_on_order:
  "map_option fst (loop_depth [0, 1, 2, 3] two_latches 3) = Some 0 \<and>
   map_option fst (loop_depth [0, 1, 3, 2] two_latches 3) = Some 1"
  by code_simp

text \<open>
  \<^verbatim>\<open>loop_header_index\<close> starts from the parent and stops only at a header, but the entry is its own
  parent: on the header of an outermost loop the walk does not end.
\<close>

definition self_loop :: "nat CFG" where
  "self_loop = cb_build \<lparr>cb_blocks = [0, 1], cb_edges = [\<lparr>e_from = 0, e_to = 1\<rparr>, \<lparr>e_from = 1, e_to = 1\<rparr>]\<rparr>"

lemma header_walk_stuck:
  assumes "dom_get (da_dom_parent an) v = Some 0" and "dom_get (da_dom_parent an) 0 = Some 0"
    and "predecessors g 0 = []"
  shows "header_walk an g v = None"
proof -
  have "dom_get (da_dom_parent an) v = Some 0 \<longrightarrow> dom_get (da_dom_parent an) 0 = Some 0 \<longrightarrow>
      predecessors g 0 \<noteq> []" if "header_walk an g v = Some r"
    for v r and an :: DomAnalysis and g :: "'b CFG"
    using that
  proof (rule header_walk.raw_induct [rotated])
    fix f :: "DomAnalysis \<Rightarrow> 'b CFG \<Rightarrow> nat \<Rightarrow> nat option option" and an :: DomAnalysis and g :: "'b CFG" and v r
    assume "\<And>an g v r. f an g v = Some r \<Longrightarrow> dom_get (da_dom_parent an) v = Some 0 \<longrightarrow>
        dom_get (da_dom_parent an) 0 = Some 0 \<longrightarrow> predecessors g 0 \<noteq> []"
      and "(case dom_get (da_dom_parent an) v of None \<Rightarrow> Some None
        | Some parent \<Rightarrow> do { b \<leftarrow> any_dominated an parent (predecessors g parent);
            if b then Some (Some parent) else f an g parent }) = Some r"
    then show "dom_get (da_dom_parent an) v = Some 0 \<longrightarrow> dom_get (da_dom_parent an) 0 = Some 0 \<longrightarrow>
        predecessors g 0 \<noteq> []"
      by auto
  qed
  with assms show ?thesis by (cases "header_walk an g v") auto
qed

theorem loop_header_index_hangs: "loop_header_index [0, 1] self_loop 1 = None"
proof -
  obtain an where an: "compute_dom_analysis [0, 1] self_loop = Some an" "da_dom_parent an = [Some 0, Some 0]"
    "da_loop_depth an = [0, 1]"
  proof
    show "compute_dom_analysis [0, 1] self_loop =
      Some \<lparr>da_dom_parent = [Some 0, Some 0], da_dom_dfs_pre = [0, 1], da_loop_depth = [0, 1], da_has_loop = True\<rparr>"
      by code_simp
  qed simp_all
  have "predecessors (self_loop\<lparr>cfg_dom_analysis := Some an\<rparr>) 0 = []"
    by (simp add: self_loop_def predecessors_def cb_build_def)
  then have "header_walk an (self_loop\<lparr>cfg_dom_analysis := Some an\<rparr>) 1 = None"
    by (intro header_walk_stuck) (simp_all add: an dom_get_def)
  moreover have "cfg_dom_analysis self_loop = None" by (simp add: self_loop_def cb_build_def)
  ultimately show ?thesis
    using an by (simp add: loop_header_index_def ensure_dom_analysis_def num_get_def)
qed

end
