(* ===== verification/Dataflow.thy ===== *)
theory Dataflow
  imports Cfg
begin

text \<open>
  \<^verbatim>\<open>coral-reef-stubs/src/dataflow.rs\<close>: round-robin data-flow solvers over a control-flow graph.
  The three closure-based runners are one loop with the roles of the two state vectors exchanged; the
  two trait-based solvers keep pairs of states.  The locale \<^verbatim>\<open>dataflow\<close> is the contract under which
  the loop returns the least fixed point: monotone join and transfer functions and a rank that
  strictly grows and is bounded.
\<close>

subsection \<open>The loop\<close>

text \<open>
  One iteration of \<^verbatim>\<open>for &node in &order\<close>: \<^verbatim>\<open>acc\<close> is the vector that is recomputed from
  the neighbours (\<^verbatim>\<open>block_in\<close> forwards, \<^verbatim>\<open>block_out\<close> backwards), \<^verbatim>\<open>own\<close> the one the
  transfer function updates.  The transfer closure returns its \<^verbatim>\<open>changed\<close> flag and the new state.
\<close>

definition df_join_all :: "('a \<Rightarrow> 's \<Rightarrow> 'a) \<Rightarrow> 's list \<Rightarrow> nat list \<Rightarrow> 'a \<Rightarrow> 'a option" where
  "df_join_all join own ks a =
     foldM (\<lambda>k a. map_option (join a) (index own k)) ks a"

definition df_visit ::
    "(nat \<Rightarrow> nat list) \<Rightarrow> ('a \<Rightarrow> 's \<Rightarrow> 'a) \<Rightarrow> 'a \<Rightarrow> (nat \<Rightarrow> 'b \<Rightarrow> 's \<Rightarrow> 'a \<Rightarrow> bool \<times> 's) \<Rightarrow> 'b list \<Rightarrow>
     nat \<Rightarrow> 'a list \<times> 's list \<times> bool \<Rightarrow> ('a list \<times> 's list \<times> bool) option" where
  "df_visit nbrs join dflt transfer blocks node st =
     (case st of (acc, own, changed) \<Rightarrow> do {
        block \<leftarrow> index blocks node;
        a \<leftarrow> df_join_all join own (nbrs node) dflt;
        acc' \<leftarrow> store acc node a;
        s \<leftarrow> index own node;
        let (ch, s') = transfer node block s a;
        own' \<leftarrow> store own node s';
        Some (acc', own', changed \<or> ch)
      })"

text \<open>\<^verbatim>\<open>loop { changed = false; for ..; if !changed { break } }\<close>; \<^const>\<open>None\<close> is a panic or no return.\<close>

partial_function (option) df_loop ::
    "(nat \<Rightarrow> 'a list \<times> 's list \<times> bool \<Rightarrow> ('a list \<times> 's list \<times> bool) option) \<Rightarrow> nat list \<Rightarrow>
     'a list \<Rightarrow> 's list \<Rightarrow> ('a list \<times> 's list) option" where
  "df_loop visit order acc own =
     (case foldM visit order (acc, own, False) of
        None \<Rightarrow> None
      | Some (acc', own', changed) \<Rightarrow>
          if changed then df_loop visit order acc' own' else Some (acc', own'))"

definition ForwardDataflow_solve ::
    "'b CFG \<Rightarrow> 's list \<Rightarrow> 's list \<Rightarrow> 's \<Rightarrow> (nat \<Rightarrow> 'b \<Rightarrow> 's \<Rightarrow> 's \<Rightarrow> bool \<times> 's) \<Rightarrow> ('s \<Rightarrow> 's \<Rightarrow> 's) \<Rightarrow>
     ('s list \<times> 's list) option" where
  "ForwardDataflow_solve g block_in block_out dflt transfer join =
     df_loop (df_visit (predecessors g) join dflt transfer (cfg_blocks g))
       (reverse_post_order g) block_in block_out"

definition BackwardDataflowBi_solve ::
    "'b CFG \<Rightarrow> 's list \<Rightarrow> 'a list \<Rightarrow> 'a \<Rightarrow> (nat \<Rightarrow> 'b \<Rightarrow> 's \<Rightarrow> 'a \<Rightarrow> bool \<times> 's) \<Rightarrow> ('a \<Rightarrow> 's \<Rightarrow> 'a) \<Rightarrow>
     ('s list \<times> 'a list) option" where
  "BackwardDataflowBi_solve g block_in block_out dflt transfer join =
     map_option prod.swap
       (df_loop (df_visit (successors g) join dflt transfer (cfg_blocks g))
         (rev (reverse_post_order g)) block_out block_in)"

definition BackwardDataflow_solve ::
    "'b CFG \<Rightarrow> 's list \<Rightarrow> 's list \<Rightarrow> 's \<Rightarrow> (nat \<Rightarrow> 'b \<Rightarrow> 's \<Rightarrow> 's \<Rightarrow> bool \<times> 's) \<Rightarrow> ('s \<Rightarrow> 's \<Rightarrow> 's) \<Rightarrow>
     ('s list \<times> 's list) option" where
  "BackwardDataflow_solve g block_in block_out dflt transfer join =
     map_option prod.swap
       (df_loop (df_visit (successors g) join dflt transfer (cfg_blocks g))
         (rev (reverse_post_order g)) block_out block_in)"

subsection \<open>The trait-based solvers\<close>

definition sf_visit ::
    "(nat \<Rightarrow> nat list) \<Rightarrow> ('s \<Rightarrow> 's \<Rightarrow> 's) \<Rightarrow> 's \<Rightarrow> ('b \<Rightarrow> 's \<Rightarrow> 's) \<Rightarrow> 'b list \<Rightarrow>
     nat \<Rightarrow> ('s \<times> 's) list \<times> bool \<Rightarrow> (('s \<times> 's) list \<times> bool) option" where
  "sf_visit preds join bottom transfer blocks node st =
     (case st of (states, changed) \<Rightarrow> do {
        block \<leftarrow> index blocks node;
        input \<leftarrow> df_join_all join (map snd states) (preds node) bottom;
        let output = transfer block input;
        cur \<leftarrow> index states node;
        if output = snd cur
        then Some (states[node := (input, snd cur)], changed)
        else Some (states[node := (input, output)], True)
      })"

definition sb_visit ::
    "(nat \<Rightarrow> nat list) \<Rightarrow> ('s \<Rightarrow> 's \<Rightarrow> 's) \<Rightarrow> 's \<Rightarrow> ('b \<Rightarrow> 's \<Rightarrow> 's) \<Rightarrow> 'b list \<Rightarrow>
     nat \<Rightarrow> ('s \<times> 's) list \<times> bool \<Rightarrow> (('s \<times> 's) list \<times> bool) option" where
  "sb_visit succs join bottom transfer blocks node st =
     (case st of (states, changed) \<Rightarrow> do {
        block \<leftarrow> index blocks node;
        output \<leftarrow> df_join_all join (map fst states) (succs node) bottom;
        let input = transfer block output;
        cur \<leftarrow> index states node;
        if input = fst cur
        then Some (states[node := (fst cur, output)], changed)
        else Some (states[node := (input, output)], True)
      })"

partial_function (option) pair_loop ::
    "(nat \<Rightarrow> ('s \<times> 's) list \<times> bool \<Rightarrow> (('s \<times> 's) list \<times> bool) option) \<Rightarrow> nat list \<Rightarrow>
     ('s \<times> 's) list \<Rightarrow> ('s \<times> 's) list option" where
  "pair_loop visit order states =
     (case foldM visit order (states, False) of
        None \<Rightarrow> None
      | Some (states', changed) \<Rightarrow>
          if changed then pair_loop visit order states' else Some states')"

definition solve_forward :: "('s \<Rightarrow> 's \<Rightarrow> 's) \<Rightarrow> 's \<Rightarrow> ('b \<Rightarrow> 's \<Rightarrow> 's) \<Rightarrow> 'b CFG \<Rightarrow> ('s \<times> 's) list option"
  where
  "solve_forward join bottom transfer g =
     (let n = cfg_len g in
      if n = 0 then Some []
      else pair_loop (sf_visit (predecessors g) join bottom transfer (cfg_blocks g))
             (reverse_post_order g) (map (\<lambda>_. (bottom, bottom)) [0..<n]))"

definition solve_backward :: "('s \<Rightarrow> 's \<Rightarrow> 's) \<Rightarrow> 's \<Rightarrow> ('b \<Rightarrow> 's \<Rightarrow> 's) \<Rightarrow> 'b CFG \<Rightarrow> ('s \<times> 's) list option"
  where
  "solve_backward join bottom transfer g =
     (let n = cfg_len g in
      if n = 0 then Some []
      else pair_loop (sb_visit (successors g) join bottom transfer (cfg_blocks g))
             (rev (reverse_post_order g)) (map (\<lambda>_. (bottom, bottom)) [0..<n]))"

subsection \<open>The contract\<close>

definition df_input :: "(nat \<Rightarrow> nat list) \<Rightarrow> ('a \<Rightarrow> 's \<Rightarrow> 'a) \<Rightarrow> 'a \<Rightarrow> 's list \<Rightarrow> nat \<Rightarrow> 'a" where
  "df_input nbrs join dflt own node = fold (\<lambda>k a. join a (own ! k)) (nbrs node) dflt"

lemma df_join_all_eq:
  "\<forall>k\<in>set ks. k < length own \<Longrightarrow> df_join_all join own ks a = Some (fold (\<lambda>k a. join a (own ! k)) ks a)"
  unfolding df_join_all_def by (induction ks arbitrary: a) auto

locale dataflow =
  fixes n :: nat and order :: "nat list" and nbrs :: "nat \<Rightarrow> nat list"
    and join :: "'a \<Rightarrow> 's \<Rightarrow> 'a" and dflt :: 'a and tr :: "nat \<Rightarrow> 'a \<Rightarrow> 's"
    and visit :: "nat \<Rightarrow> 'a list \<times> 's list \<times> bool \<Rightarrow> ('a list \<times> 's list \<times> bool) option"
    and le :: "'s \<Rightarrow> 's \<Rightarrow> bool" and leA :: "'a \<Rightarrow> 'a \<Rightarrow> bool"
    and ok :: "'s \<Rightarrow> bool" and okA :: "'a \<Rightarrow> bool" and rank :: "'s \<Rightarrow> nat" and bound :: nat
  assumes order_lt: "node \<in> set order \<Longrightarrow> node < n"
    and nbrs_lt: "node \<in> set order \<Longrightarrow> k \<in> set (nbrs node) \<Longrightarrow> k < n"
    and visit_eq: "node \<in> set order \<Longrightarrow> length acc = n \<Longrightarrow> length own = n \<Longrightarrow>
      visit node (acc, own, ch) =
        Some (acc[node := df_input nbrs join dflt own node],
              own[node := tr node (df_input nbrs join dflt own node)],
              ch \<or> own ! node \<noteq> tr node (df_input nbrs join dflt own node))"
    and le_refl: "le s s" and le_trans: "le s t \<Longrightarrow> le t u \<Longrightarrow> le s u"
    and le_antisym: "ok s \<Longrightarrow> ok t \<Longrightarrow> le s t \<Longrightarrow> le t s \<Longrightarrow> s = t"
    and leA_refl: "leA a a"
    and join_mono: "leA a b \<Longrightarrow> le s t \<Longrightarrow> leA (join a s) (join b t)"
    and tr_mono: "leA a b \<Longrightarrow> le (tr node a) (tr node b)"
    and ok_dflt: "okA dflt" and ok_join: "okA a \<Longrightarrow> ok s \<Longrightarrow> okA (join a s)"
    and ok_tr: "node \<in> set order \<Longrightarrow> okA a \<Longrightarrow> ok (tr node a)"
    and rank_strict: "ok s \<Longrightarrow> ok t \<Longrightarrow> le s t \<Longrightarrow> s \<noteq> t \<Longrightarrow> rank s < rank t"
    and rank_bound: "ok s \<Longrightarrow> rank s \<le> bound"
begin

lemma input_mono:
  assumes "node \<in> set order" and "\<forall>k<n. le (own ! k) (own' ! k)"
  shows "leA (df_input nbrs join dflt own node) (df_input nbrs join dflt own' node)"
proof -
  have "leA (fold (\<lambda>k a. join a (own ! k)) ks a) (fold (\<lambda>k a. join a (own' ! k)) ks b)"
    if "leA a b" "\<forall>k\<in>set ks. k < n" for ks a b
    using that by (induction ks arbitrary: a b) (simp_all add: join_mono assms(2))
  then show ?thesis unfolding df_input_def using nbrs_lt [OF assms(1)] leA_refl by blast
qed

lemma input_ok:
  assumes "node \<in> set order" and "\<forall>k<n. ok (own ! k)"
  shows "okA (df_input nbrs join dflt own node)"
  unfolding df_input_def
  by (rule fold_preserves [where P = okA]) (use assms nbrs_lt ok_dflt ok_join in auto)

text \<open>The states of an ascending iteration, and the solutions it stays below.\<close>

definition ascending :: "'s list \<Rightarrow> bool" where
  "ascending own \<longleftrightarrow> length own = n \<and> (\<forall>k<n. ok (own ! k)) \<and>
     (\<forall>node\<in>set order. le (own ! node) (tr node (df_input nbrs join dflt own node)))"

definition below :: "'s list \<Rightarrow> 's list \<Rightarrow> bool" where
  "below own own' \<longleftrightarrow> (\<forall>k<n. le (own ! k) (own' ! k))"

text \<open>A family of predicates, one for each node, that every update keeps.\<close>

definition holds :: "(nat \<Rightarrow> 's \<Rightarrow> bool) \<Rightarrow> 's list \<Rightarrow> bool" where
  "holds Q own \<longleftrightarrow> (\<forall>k<n. Q k (own ! k))"

definition kept :: "(nat \<Rightarrow> 's \<Rightarrow> bool) \<Rightarrow> bool" where
  "kept Q \<longleftrightarrow> (\<forall>node\<in>set order. \<forall>own. length own = n \<and> holds Q own \<longrightarrow>
     Q node (tr node (df_input nbrs join dflt own node)))"

lemma below_trans: "below a b \<Longrightarrow> below b c \<Longrightarrow> below a c"
  unfolding below_def using le_trans by blast

lemma ascending_eqI:
  "ascending a \<Longrightarrow> ascending b \<Longrightarrow> below a b \<Longrightarrow> below b a \<Longrightarrow> a = b"
  by (rule nth_equalityI) (simp_all add: ascending_def below_def le_antisym)

lemma visit_step:
  assumes "node \<in> set order" and "ascending own"
    and "own' = own[node := tr node (df_input nbrs join dflt own node)]"
  shows "ascending own'" and "below own own'"
    and "kept Q \<Longrightarrow> holds Q own \<Longrightarrow> holds Q own'"
proof -
  let ?F = "\<lambda>own node. tr node (df_input nbrs join dflt own node)"
  have nl: "node < n" using order_lt assms(1) by blast
  have len: "length own = n" using assms(2) by (simp add: ascending_def)
  show b: "below own own'"
    using assms nl len by (auto simp: below_def ascending_def nth_list_update le_refl)
  have okF: "ok (?F own node)" using assms(1,2) by (auto simp: ascending_def intro: ok_tr input_ok)
  have mono: "le (?F own m) (?F own' m)" if "m \<in> set order" for m
    using b that by (auto simp: below_def intro: tr_mono input_mono)
  show "ascending own'"
    unfolding ascending_def
  proof (intro conjI ballI allI impI)
    show "ok (own' ! k)" if "k < n" for k
      using that okF assms(2,3) len by (cases "k = node") (simp_all add: ascending_def)
    show "le (own' ! m) (?F own' m)" if "m \<in> set order" for m
    proof (cases "m = node")
      case True
      then show ?thesis using mono [OF that] assms(3) nl len by simp
    next
      case False
      with that assms(2,3) have "le (own' ! m) (?F own m)" by (simp add: ascending_def)
      then show ?thesis using mono [OF that] le_trans by blast
    qed
  qed (use assms(3) len in simp)
  show "holds Q own'" if Q: "kept Q" "holds Q own"
  proof -
    have "Q node (?F own node)" using Q assms(1) len by (auto simp: kept_def)
    then show ?thesis using Q(2) assms(3) nl len by (auto simp: holds_def nth_list_update)
  qed
qed

text \<open>One pass over (part of) the order.\<close>

lemma pass:
  assumes "set us \<subseteq> set order" and "ascending own" and "length acc = n"
  shows "\<exists>acc' own' ch'. foldM visit us (acc, own, ch) = Some (acc', own', ch') \<and>
     ascending own' \<and> length acc' = n \<and> below own own' \<and> (ch' \<longleftrightarrow> ch \<or> own' \<noteq> own) \<and>
     (\<forall>Q. kept Q \<and> holds Q own \<longrightarrow> holds Q own') \<and>
     (\<forall>k. k \<notin> set us \<longrightarrow> own' ! k = own ! k \<and> acc' ! k = acc ! k) \<and>
     (own' = own \<longrightarrow> (\<forall>u\<in>set us. acc' ! u = df_input nbrs join dflt own u \<and> tr u (acc' ! u) = own ! u))"
  using assms
proof (induction us arbitrary: acc own ch)
  case Nil
  then show ?case by (simp add: below_def le_refl)
next
  case (Cons u us)
  let ?a = "df_input nbrs join dflt own u"
  let ?own1 = "own[u := tr u ?a]" and ?acc1 = "acc[u := ?a]"
  have u: "u \<in> set order" "u < n" and len: "length own = n"
    using Cons.prems order_lt by (auto simp: ascending_def)
  note step = visit_step [OF u(1) Cons.prems(2) refl]
  obtain acc' own' ch' where f: "foldM visit us (?acc1, ?own1, ch \<or> own ! u \<noteq> tr u ?a) = Some (acc', own', ch')"
    and IH: "ascending own'" "length acc' = n" "below ?own1 own'"
      "ch' \<longleftrightarrow> (ch \<or> own ! u \<noteq> tr u ?a) \<or> own' \<noteq> ?own1"
      "\<forall>Q. kept Q \<and> holds Q ?own1 \<longrightarrow> holds Q own'"
      "\<forall>k. k \<notin> set us \<longrightarrow> own' ! k = ?own1 ! k \<and> acc' ! k = ?acc1 ! k"
      "own' = ?own1 \<longrightarrow> (\<forall>v\<in>set us. acc' ! v = df_input nbrs join dflt ?own1 v \<and> tr v (acc' ! v) = ?own1 ! v)"
    using Cons.IH [of ?own1 ?acc1 "ch \<or> own ! u \<noteq> tr u ?a"] Cons.prems step(1) by auto
  have same: "own ! u = tr u ?a \<longleftrightarrow> ?own1 = own"
    using u(2) len by (metis list_update_id nth_list_update_eq)
  have stable: "?own1 = own" if "own' = own"
    using that IH(3) step ascending_eqI Cons.prems(2) by blast
  have eqs: "own' = own \<longleftrightarrow> ?own1 = own \<and> own' = ?own1"
    using stable by auto
  have "foldM visit (u # us) (acc, own, ch) = Some (acc', own', ch')"
    using f visit_eq [OF u(1) Cons.prems(3) len] by simp
  moreover have "below own own'" using below_trans [OF step(2) IH(3)] .
  moreover have "ch' \<longleftrightarrow> ch \<or> own' \<noteq> own" using IH(4) same eqs by blast
  moreover have "\<forall>k. k \<notin> set (u # us) \<longrightarrow> own' ! k = own ! k \<and> acc' ! k = acc ! k" using IH(6) by auto
  moreover have "\<forall>v\<in>set (u # us). acc' ! v = df_input nbrs join dflt own v \<and> tr v (acc' ! v) = own ! v"
    if "own' = own"
  proof -
    have e: "?own1 = own" "own' = ?own1" using that stable by auto
    show ?thesis
    proof
      fix v assume v: "v \<in> set (u # us)"
      show "acc' ! v = df_input nbrs join dflt own v \<and> tr v (acc' ! v) = own ! v"
      proof (cases "v \<in> set us")
        case True
        then show ?thesis using IH(7) e by auto
      next
        case False
        with v have "v = u" by simp
        with False IH(6) have "acc' ! v = ?a" using u(2) Cons.prems(3) by simp
        then show ?thesis using same e(1) \<open>v = u\<close> by simp
      qed
    qed
  qed
  ultimately show ?case using IH(1,2,5) step(3) by blast
qed

lemma rank_sum:
  assumes "ascending own" and "ascending own'" and "below own own'" and "own' \<noteq> own"
  shows "(\<Sum>k<n. rank (own ! k)) < (\<Sum>k<n. rank (own' ! k))"
proof -
  have le: "\<forall>k<n. rank (own ! k) \<le> rank (own' ! k)"
  proof (intro allI impI)
    fix k assume "k < n"
    with assms show "rank (own ! k) \<le> rank (own' ! k)"
      using rank_strict [of "own ! k" "own' ! k"]
      by (cases "own ! k = own' ! k") (auto simp: ascending_def below_def)
  qed
  obtain k where k: "k < n" "own ! k \<noteq> own' ! k"
    using assms(1,2,4) by (metis ascending_def nth_equalityI)
  then have "rank (own ! k) < rank (own' ! k)"
    using assms by (auto simp: ascending_def below_def intro: rank_strict)
  with le k(1) show ?thesis by (intro sum_strict_mono_ex1) auto
qed

lemma rank_sum_bound: "ascending own \<Longrightarrow> (\<Sum>k<n. rank (own ! k)) \<le> n * bound"
  using sum_bounded_above [of "{..<n}" "\<lambda>k. rank (own ! k)" bound]
  by (simp add: ascending_def rank_bound)

text \<open>The loop returns, with the least solution.\<close>

lemma loop_correct:
  assumes "ascending own" and "length acc = n"
  shows "\<exists>acc' own'. df_loop visit order acc own = Some (acc', own') \<and> length acc' = n \<and>
     ascending own' \<and> below own own' \<and>
     (\<forall>u\<in>set order. acc' ! u = df_input nbrs join dflt own' u \<and> own' ! u = tr u (acc' ! u)) \<and>
     (\<forall>k. k \<notin> set order \<longrightarrow> own' ! k = own ! k \<and> acc' ! k = acc ! k) \<and>
     (\<forall>Q. kept Q \<and> holds Q own \<longrightarrow> holds Q own')"
  using assms
proof (induction "n * bound - (\<Sum>k<n. rank (own ! k))" arbitrary: acc own rule: less_induct)
  case less
  obtain acc1 own1 ch1 where p: "foldM visit order (acc, own, False) = Some (acc1, own1, ch1)"
    and h: "ascending own1" "length acc1 = n" "below own own1" "ch1 \<longleftrightarrow> own1 \<noteq> own"
     "\<forall>Q. kept Q \<and> holds Q own \<longrightarrow> holds Q own1"
     "\<forall>k. k \<notin> set order \<longrightarrow> own1 ! k = own ! k \<and> acc1 ! k = acc ! k"
     "own1 = own \<longrightarrow> (\<forall>u\<in>set order. acc1 ! u = df_input nbrs join dflt own u \<and> tr u (acc1 ! u) = own ! u)"
    using pass [OF subset_refl less.prems, of False] by auto
  show ?case
  proof (cases "own1 = own")
    case True
    then have "df_loop visit order acc own = Some (acc1, own1)"
      using p h(4) by (subst df_loop.simps) simp
    with True h show ?thesis by auto
  next
    case False
    have lt: "(\<Sum>k<n. rank (own ! k)) < (\<Sum>k<n. rank (own1 ! k))"
      using rank_sum [OF less.prems(1) h(1,3) False] .
    then have "n * bound - (\<Sum>k<n. rank (own1 ! k)) < n * bound - (\<Sum>k<n. rank (own ! k))"
      using rank_sum_bound [OF h(1)] by linarith
    from less.hyps [OF this h(1,2)] obtain acc' own' where
      r: "df_loop visit order acc1 own1 = Some (acc', own')" "length acc' = n" "ascending own'"
        "below own1 own'"
        "\<forall>u\<in>set order. acc' ! u = df_input nbrs join dflt own' u \<and> own' ! u = tr u (acc' ! u)"
        "\<forall>k. k \<notin> set order \<longrightarrow> own' ! k = own1 ! k \<and> acc' ! k = acc1 ! k"
        "\<forall>Q. kept Q \<and> holds Q own1 \<longrightarrow> holds Q own'"
      by blast
    have "df_loop visit order acc own = Some (acc', own')"
      using p h(4) r(1) False by (subst df_loop.simps) simp
    moreover have "below own own'" using below_trans h(3) r(4) by blast
    ultimately show ?thesis using r h(5,6) by auto
  qed
qed

text \<open>In particular the result is below every solution above the start.\<close>

lemma kept_below:
  assumes "\<forall>node\<in>set order. le (tr node (df_input nbrs join dflt sol node)) (sol ! node)"
  shows "kept (\<lambda>k s. le s (sol ! k))"
  unfolding kept_def
proof (intro ballI allI impI)
  fix node own assume node: "node \<in> set order" and h: "length own = n \<and> holds (\<lambda>k s. le s (sol ! k)) own"
  then have "le (tr node (df_input nbrs join dflt own node)) (tr node (df_input nbrs join dflt sol node))"
    by (auto simp: holds_def intro: tr_mono input_mono)
  then show "le (tr node (df_input nbrs join dflt own node)) (sol ! node)"
    using assms node le_trans by blast
qed

lemma ascending_bottom:
  assumes "ok b" and "\<And>s. ok s \<Longrightarrow> le b s"
  shows "ascending (replicate n b)"
  using assms order_lt by (auto simp: ascending_def intro!: assms(2) ok_tr input_ok)

end

end
