(* ===== verification/Regs.thy ===== *)
theory Regs
  imports Prelude
begin

text \<open>
  \<^verbatim>\<open>codegen/ir/regs.rs\<close> and \<^verbatim>\<open>codegen/ssa_value.rs\<close>: register files, packed register
  references, packed SSA values, the small-vector encoding of SSA references and the SSA value
  allocator.  The packings are shown to lose nothing and the allocator to give out every index once.
\<close>

subsection \<open>Register files\<close>

datatype RegFile = GPR | UGPR | Pred | UPred | Carry | Bar | Mem

fun file_u8 :: "RegFile \<Rightarrow> u8" where
  "file_u8 GPR = 0" | "file_u8 UGPR = 1" | "file_u8 Pred = 2" | "file_u8 UPred = 3"
| "file_u8 Carry = 4" | "file_u8 Bar = 5" | "file_u8 Mem = 6"

definition file_try_from :: "u32 \<Rightarrow> string + RegFile" where
  "file_try_from v =
     (if v = 0 then Inr GPR else if v = 1 then Inr UGPR else if v = 2 then Inr Pred
      else if v = 3 then Inr UPred else if v = 4 then Inr Carry else if v = 5 then Inr Bar
      else if v = 6 then Inr Mem else Inl ''Invalid register file number'')"

fun is_uniform :: "RegFile \<Rightarrow> bool" where
  "is_uniform GPR = False" | "is_uniform Pred = False" | "is_uniform Carry = False"
| "is_uniform Bar = False" | "is_uniform Mem = False"
| "is_uniform UGPR = True" | "is_uniform UPred = True"

fun to_uniform :: "RegFile \<Rightarrow> RegFile option" where
  "to_uniform GPR = Some UGPR" | "to_uniform UGPR = Some UGPR"
| "to_uniform Pred = Some UPred" | "to_uniform UPred = Some UPred"
| "to_uniform Carry = None" | "to_uniform Bar = None" | "to_uniform Mem = None"

fun to_warp :: "RegFile \<Rightarrow> RegFile" where
  "to_warp GPR = GPR" | "to_warp UGPR = GPR" | "to_warp Pred = Pred" | "to_warp UPred = Pred"
| "to_warp Carry = Carry" | "to_warp Bar = Bar" | "to_warp Mem = Mem"

fun is_gpr :: "RegFile \<Rightarrow> bool" where
  "is_gpr GPR = True" | "is_gpr UGPR = True" | "is_gpr _ = False"

fun is_predicate :: "RegFile \<Rightarrow> bool" where
  "is_predicate Pred = True" | "is_predicate UPred = True" | "is_predicate _ = False"

text \<open>\<^verbatim>\<open>RegFileSet\<close>: a bit per register file.\<close>

type_synonym RegFileSet = u8

definition rfs_new :: RegFileSet where "rfs_new = 0"

definition rfs_len :: "RegFileSet \<Rightarrow> nat" where "rfs_len s = count_ones s"

definition rfs_contains :: "RegFileSet \<Rightarrow> RegFile \<Rightarrow> bool" where
  "rfs_contains s f \<longleftrightarrow> s AND push_bit (unat (file_u8 f)) 1 \<noteq> 0"

definition rfs_insert :: "RegFile \<Rightarrow> RegFileSet \<Rightarrow> bool \<times> RegFileSet" where
  "rfs_insert f s = (\<not> rfs_contains s f, s OR push_bit (unat (file_u8 f)) 1)"

definition rfs_is_empty :: "RegFileSet \<Rightarrow> bool" where "rfs_is_empty s \<longleftrightarrow> s = 0"

definition rfs_remove :: "RegFile \<Rightarrow> RegFileSet \<Rightarrow> bool \<times> RegFileSet" where
  "rfs_remove f s = (rfs_contains s f, s AND NOT (push_bit (unat (file_u8 f)) 1))"

definition rfs_from_list :: "RegFile list \<Rightarrow> RegFileSet" where
  "rfs_from_list fs = fold (\<lambda>f s. snd (rfs_insert f s)) fs rfs_new"

text \<open>\<^verbatim>\<open>Iterator::next\<close>; the outer option is the \<^verbatim>\<open>expect\<close> on the file number.\<close>

definition rfs_next :: "RegFileSet \<Rightarrow> (RegFile option \<times> RegFileSet) option" where
  "rfs_next s =
     (if rfs_is_empty s then Some (None, s)
      else case file_try_from (word_of_nat (trailing_zeros s)) of
             Inl _ \<Rightarrow> None
           | Inr f \<Rightarrow> Some (Some f, snd (rfs_remove f s)))"

text \<open>\<^verbatim>\<open>PerRegFile<T>\<close>: one item for each register file.\<close>

type_synonym 'a PerRegFile = "RegFile \<Rightarrow> 'a"

subsection \<open>Packed register references\<close>

record RegRef = rr_packed :: u32

definition RegRef_MAX_IDX :: u32 where "RegRef_MAX_IDX = push_bit 26 1 - 1"

definition RegRef_new :: "RegFile \<Rightarrow> u32 \<Rightarrow> u8 \<Rightarrow> RegRef option" where
  "RegRef_new file base_idx comps =
     assert_then (base_idx \<le> RegRef_MAX_IDX)
      (assert_then (comps > 0 \<and> comps \<le> 8)
       (assert_then (file_u8 file < 8)
         (Some \<lparr>rr_packed = base_idx OR push_bit 26 (ucast (comps - 1)) OR push_bit 29 (ucast (file_u8 file))\<rparr>)))"

definition RegRef_base_idx :: "RegRef \<Rightarrow> u32" where
  "RegRef_base_idx r = rr_packed r AND 0x03ffffff"

definition RegRef_comps :: "RegRef \<Rightarrow> u8" where
  "RegRef_comps r = ucast ((drop_bit 26 (rr_packed r) AND 7) + 1)"

definition RegRef_file :: "RegRef \<Rightarrow> RegFile option" where
  "RegRef_file r = (case file_try_from (drop_bit 29 (rr_packed r) AND 7) of Inl _ \<Rightarrow> None | Inr f \<Rightarrow> Some f)"

definition RegRef_idx_range :: "RegRef \<Rightarrow> u32 \<times> u32" where
  "RegRef_idx_range r = (RegRef_base_idx r, RegRef_base_idx r + ucast (RegRef_comps r))"

definition RegRef_comp :: "RegRef \<Rightarrow> u8 \<Rightarrow> RegRef option" where
  "RegRef_comp r c =
     assert_then (c < RegRef_comps r)
       (case RegRef_file r of
          None \<Rightarrow> None
        | Some f \<Rightarrow> RegRef_new f (RegRef_base_idx r + ucast c) 1)"

subsection \<open>SSA values and references\<close>

record SSAValue = ssa_packed :: u32

definition SSARef_SMALL_SIZE :: nat where "SSARef_SMALL_SIZE = 4"
definition SSARef_LARGE_SIZE :: nat where "SSARef_LARGE_SIZE = 32"

definition SSAValue_new :: "RegFile \<Rightarrow> u32 \<Rightarrow> SSAValue option" where
  "SSAValue_new file i =
     assert_then (i > 0 \<and> i < push_bit 29 1 - word_of_nat SSARef_LARGE_SIZE)
      (assert_then (file_u8 file < 8)
        (Some \<lparr>ssa_packed = i OR push_bit 29 (ucast (file_u8 file))\<rparr>))"

definition ssa_idx :: "SSAValue \<Rightarrow> u32" where "ssa_idx v = ssa_packed v AND 0x1fffffff"

definition ssa_file :: "SSAValue \<Rightarrow> RegFile option" where
  "ssa_file v = (case file_try_from (drop_bit 29 (ssa_packed v)) of Inl _ \<Rightarrow> None | Inr f \<Rightarrow> Some f)"

definition ssa_bit_index :: "SSAValue \<Rightarrow> nat" where "ssa_bit_index v = unat (ssa_idx v)"

text \<open>
  \<^verbatim>\<open>SSAValueArray<SIZE>\<close>: a fixed array whose last slot holds the negated length when the array
  is not full.
\<close>

definition ssa_array_new :: "nat \<Rightarrow> SSAValue list \<Rightarrow> SSAValue list option" where
  "ssa_array_new sz comps =
     assert_then (comps \<noteq> [] \<and> length comps \<le> sz)
       (let v = comps @ replicate (sz - length comps) \<lparr>ssa_packed = - 1\<rparr> in
        Some (if length comps < sz
              then v[sz - 1 := \<lparr>ssa_packed = - word_of_nat (length comps)\<rparr>]
              else v))"

definition ssa_array_comps :: "nat \<Rightarrow> SSAValue list \<Rightarrow> u8" where
  "ssa_array_comps sz v =
     (if ssa_packed (v ! (sz - 1)) \<ge> - 1 - (word_of_nat sz - 1)
      then ucast (- ssa_packed (v ! (sz - 1)))
      else word_of_nat sz)"

definition ssa_array_deref :: "nat \<Rightarrow> SSAValue list \<Rightarrow> SSAValue list" where
  "ssa_array_deref sz v = take (unat (ssa_array_comps sz v)) v"

datatype SSARef = Small "SSAValue list" | Large "SSAValue list"

definition SSARef_new :: "SSAValue list \<Rightarrow> SSARef option" where
  "SSARef_new comps =
     (if length comps > SSARef_SMALL_SIZE
      then map_option Large (ssa_array_new SSARef_LARGE_SIZE comps)
      else map_option Small (ssa_array_new SSARef_SMALL_SIZE comps))"

fun SSARef_comps :: "SSARef \<Rightarrow> u8" where
  "SSARef_comps (Small v) = ssa_array_comps SSARef_SMALL_SIZE v"
| "SSARef_comps (Large v) = ssa_array_comps SSARef_LARGE_SIZE v"

fun SSARef_deref :: "SSARef \<Rightarrow> SSAValue list" where
  "SSARef_deref (Small v) = ssa_array_deref SSARef_SMALL_SIZE v"
| "SSARef_deref (Large v) = ssa_array_deref SSARef_LARGE_SIZE v"

definition SSARef_try_from :: "SSAValue list \<Rightarrow> (string + SSARef) option" where
  "SSARef_try_from comps =
     (if comps = [] then Some (Inl ''Empty vector'')
      else if length comps > SSARef_LARGE_SIZE then Some (Inl ''Too many vector components'')
      else map_option Inr (SSARef_new comps))"

text \<open>The allocator.\<close>

record SSAValueAllocator = sa_count :: u32

definition sa_new :: SSAValueAllocator where "sa_new = \<lparr>sa_count = 0\<rparr>"

definition sa_alloc :: "RegFile \<Rightarrow> SSAValueAllocator \<Rightarrow> (SSAValue \<times> SSAValueAllocator) option" where
  "sa_alloc file a =
     assert_then (sa_count a \<noteq> - 1)
       (let a' = a\<lparr>sa_count := sa_count a + 1\<rparr> in
        map_option (\<lambda>v. (v, a')) (SSAValue_new file (sa_count a')))"

text \<open>The values \<^verbatim>\<open>(0..comps).map(|_| self.alloc(file))\<close> produces, in order.\<close>

fun sa_alloc_n :: "RegFile \<Rightarrow> nat \<Rightarrow> SSAValueAllocator \<Rightarrow> (SSAValue list \<times> SSAValueAllocator) option" where
  "sa_alloc_n file 0 a = Some ([], a)"
| "sa_alloc_n file (Suc n) a =
     (case sa_alloc file a of
        None \<Rightarrow> None
      | Some (v, a1) \<Rightarrow> map_option (\<lambda>(vs, a2). (v # vs, a2)) (sa_alloc_n file n a1))"

definition sa_alloc_vec :: "RegFile \<Rightarrow> u8 \<Rightarrow> SSAValueAllocator \<Rightarrow> (SSARef \<times> SSAValueAllocator) option" where
  "sa_alloc_vec file comps a =
     (let len = unat comps in
      assert_then (len > 0 \<and> len \<le> SSARef_LARGE_SIZE)
        (case sa_alloc_n file len a of
           None \<Rightarrow> None
         | Some (vs, a') \<Rightarrow> map_option (\<lambda>r. (r, a')) (SSARef_new vs)))"


subsection \<open>Facts\<close>

lemma file_try_from_u8 [simp]: "file_try_from (ucast (file_u8 f)) = Inr f"
  by (cases f) (simp_all add: file_try_from_def)

lemma file_try_from_Inr: "file_try_from v = Inr f \<longleftrightarrow> v = ucast (file_u8 f)"
  by (cases f) (auto simp: file_try_from_def split: if_splits)

lemma file_u8_less [simp]: "file_u8 f < 8" "file_u8 f < 7"
  by (cases f; simp)+

lemma file_u8_inject [simp]: "file_u8 f = file_u8 g \<longleftrightarrow> f = g"
  by (cases f; cases g) simp_all

lemma bit_file_u8: "bit (file_u8 f) j \<Longrightarrow> j < 3"
  by (rule bit_small) simp_all

text \<open>Three fields packed one above the other are read back by masking and shifting.\<close>

lemma pack3:
  fixes a b c :: u32
  assumes "a < 2 ^ 26" and "b < 2 ^ 3" and "c < 2 ^ 3"
  shows "(a OR push_bit 26 b OR push_bit 29 c) AND 0x03ffffff = a"
    and "drop_bit 26 (a OR push_bit 26 b OR push_bit 29 c) AND 7 = b"
    and "drop_bit 29 (a OR push_bit 26 b OR push_bit 29 c) AND 7 = c"
proof -
  have m26: "x AND 0x03ffffff = take_bit 26 x" and m3: "x AND 7 = take_bit 3 x" for x :: u32
    by (simp_all add: take_bit_eq_mask mask_eq_exp_minus_1)
  note sm = bit_small [OF assms(1)] bit_small [OF assms(2)] bit_small [OF assms(3)]
  show "(a OR push_bit 26 b OR push_bit 29 c) AND 0x03ffffff = a"
    unfolding m26 by (rule bit_word_eqI) (auto simp: bit_simps dest: sm)
  show "drop_bit 26 (a OR push_bit 26 b OR push_bit 29 c) AND 7 = b"
    unfolding m3 by (rule bit_word_eqI) (auto simp: bit_simps dest: sm)
  show "drop_bit 29 (a OR push_bit 26 b OR push_bit 29 c) AND 7 = c"
    unfolding m3 by (rule bit_word_eqI) (auto simp: bit_simps dest: sm)
qed

lemma pack2:
  fixes a c :: u32
  assumes "a < 2 ^ 29" and "c < 2 ^ 3"
  shows "(a OR push_bit 29 c) AND 0x1fffffff = a" and "drop_bit 29 (a OR push_bit 29 c) = c"
proof -
  have m: "x AND 0x1fffffff = take_bit 29 x" for x :: u32
    by (simp add: take_bit_eq_mask mask_eq_exp_minus_1)
  note sm = bit_small [OF assms(1)] bit_small [OF assms(2)]
  show "(a OR push_bit 29 c) AND 0x1fffffff = a"
    unfolding m by (rule bit_word_eqI) (auto simp: bit_simps dest: sm)
  show "drop_bit 29 (a OR push_bit 29 c) = c"
    by (rule bit_word_eqI) (auto simp: bit_simps dest: sm)
qed

lemma file_small: "(ucast (file_u8 f) :: u32) < 2 ^ 3"
  by (cases f) simp_all

lemma u8_upto8:
  assumes "0 < c" and "c \<le> 8"
  shows "c \<in> {1, 2, 3, 4, 5, 6, 7, 8 :: u8}"
proof -
  have "0 < unat c" "unat c \<le> 8" using assms by (simp_all add: word_less_nat_alt word_le_nat_alt)
  then have "unat c \<in> {1, 2, 3, 4, 5, 6, 7, 8}" by auto
  then have "(word_of_nat (unat c) :: u8) \<in> word_of_nat ` {1, 2, 3, 4, 5, 6, 7, 8}" by blast
  then show ?thesis by simp
qed

lemma RegRef_new_fields:
  assumes "RegRef_new f b c = Some r"
  shows "RegRef_base_idx r = b" and "RegRef_comps r = c" and "RegRef_file r = Some f"
proof -
  let ?c = "ucast (c - 1) :: u32"
  have b: "b < 2 ^ 26" and c: "c > 0" "c \<le> 8"
    and r: "rr_packed r = b OR push_bit 26 ?c OR push_bit 29 (ucast (file_u8 f))"
    using assms by (auto simp: RegRef_new_def panic_simps RegRef_MAX_IDX_def push_bit_of_1
        word_le_nat_alt word_less_nat_alt)
  have c7: "?c < 2 ^ 3" and c1: "ucast (?c + 1) = c"
    using u8_upto8 [OF c] by auto
  note fields = pack3 [OF b c7 file_small [of f]]
  show "RegRef_base_idx r = b" unfolding RegRef_base_idx_def r fields ..
  show "RegRef_comps r = c" unfolding RegRef_comps_def r fields by (rule c1)
  show "RegRef_file r = Some f" unfolding RegRef_file_def r fields by simp
qed


lemma SSAValue_new_fields:
  assumes "SSAValue_new f i = Some v"
  shows "ssa_idx v = i" and "ssa_file v = Some f" and "ssa_packed v < - 32" and "ssa_packed v \<noteq> 0"
proof -
  have i: "0 < i" "i < 2 ^ 29" and v: "ssa_packed v = i OR push_bit 29 (ucast (file_u8 f))"
    using assms by (auto simp: SSAValue_new_def panic_simps SSARef_LARGE_SIZE_def push_bit_of_1
        word_less_nat_alt)
  note fields = pack2 [OF i(2) file_small [of f]]
  show idx: "ssa_idx v = i" unfolding ssa_idx_def v fields ..
  show "ssa_file v = Some f" unfolding ssa_file_def v fields by simp
  show "ssa_packed v \<noteq> 0" using idx i(1) by (auto simp: ssa_idx_def)
  show "ssa_packed v < - 32"
  proof (rule ccontr)
    assume "\<not> ssa_packed v < - 32"
    then have "2 ^ 29 * 7 \<le> unat (ssa_packed v)" by (simp add: word_less_nat_alt)
    then have "unat (ssa_packed v) div 2 ^ 29 = 7"
      using unat_bound [of "ssa_packed v"] by simp
    then have "unat (drop_bit 29 (ssa_packed v)) = 7"
      unfolding unat_drop_bit_eq by (simp add: drop_bit_eq_div)
    then have "(word_of_nat (unat (drop_bit 29 (ssa_packed v))) :: u32) = word_of_nat 7" by (rule arg_cong)
    then have "drop_bit 29 (ssa_packed v) = 7" unfolding of_nat_unat ucast_id by simp
    then have "(ucast (file_u8 f) :: u32) = 7" unfolding v fields .
    then show False by (cases f) simp_all
  qed
qed


lemma neg_len_ge:
  assumes "0 < n" and "n \<le> k" and "k \<le> 32"
  shows "- word_of_nat n \<ge> (- 1 - (word_of_nat k - 1) :: u32)"
    and "unat (ucast (- (- word_of_nat n :: u32)) :: u8) = n"
proof -
  have n: "unat (word_of_nat n :: u32) = n" "unat (word_of_nat k :: u32) = k" using assms
    by (simp_all add: unat_of_nat)
  have eq: "- 1 - (word_of_nat k - 1) = - (word_of_nat k :: u32)" by simp
  have "unat (- word_of_nat m :: u32) = 2 ^ 32 - m" if "0 < m" "m \<le> 32" for m
    using unat_neg_of_nat [of m, where 'a = 32] that by simp
  then show "- word_of_nat n \<ge> (- 1 - (word_of_nat k - 1) :: u32)"
    unfolding eq word_le_nat_alt using assms by simp
  show "unat (ucast (- (- word_of_nat n :: u32)) :: u8) = n"
    using assms by (simp add: unsigned_ucast_eq unat_of_nat take_bit_eq_mod)
qed

lemma ssa_array_roundtrip:
  assumes "1 \<le> length comps" and "length comps \<le> sz" and "sz \<le> 32"
    and "\<forall>v\<in>set comps. ssa_packed v < - 32"
  shows "\<exists>v. ssa_array_new sz comps = Some v \<and> unat (ssa_array_comps sz v) = length comps \<and>
     ssa_array_deref sz v = comps"
proof (cases "length comps < sz")
  case True
  let ?n = "length comps"
  have ne: "comps \<noteq> []" using assms(1) by auto
  define v where "v = (comps @ replicate (sz - ?n) \<lparr>ssa_packed = - 1\<rparr>)
      [sz - 1 := \<lparr>ssa_packed = - word_of_nat ?n\<rparr>]"
  have new: "ssa_array_new sz comps = Some v"
    using assms True by (cases comps) (auto simp: ssa_array_new_def v_def Let_def)
  have last: "ssa_packed (v ! (sz - 1)) = - word_of_nat ?n"
    using True by (simp add: v_def)
  have "unat (ssa_array_comps sz v) = ?n"
    using neg_len_ge [of ?n sz] assms ne by (simp add: ssa_array_comps_def last [unfolded One_nat_def])
  moreover have "take ?n v = comps" using True by (simp add: v_def)
  ultimately show ?thesis using new by (simp add: ssa_array_deref_def)
next
  case False
  with assms have sz: "sz = length comps" by simp
  have last: "ssa_packed (comps ! (sz - 1)) < - 32" using assms sz by simp
  have "- 32 \<le> (- word_of_nat sz :: u32)"
    using neg_len_ge(1) [of sz 32] assms by simp
  with last have "\<not> ssa_packed (comps ! (sz - 1)) \<ge> - 1 - (word_of_nat sz - 1)"
    by (simp add: not_le)
  then have "unat (ssa_array_comps sz comps) = length comps"
    using assms sz by (simp add: ssa_array_comps_def unat_of_nat)
  moreover have "ssa_array_new sz comps = Some comps"
    using assms sz by (cases comps) (auto simp: ssa_array_new_def)
  ultimately show ?thesis by (simp add: ssa_array_deref_def)
qed

lemma sa_alloc_fields:
  assumes "sa_alloc file a = Some (v, a')"
  shows "unat (sa_count a') = Suc (unat (sa_count a))" and "ssa_idx v = sa_count a'"
    and "ssa_file v = Some file" and "ssa_packed v < - 32"
proof -
  from assms have "sa_count a \<noteq> - 1" and a': "a' = a\<lparr>sa_count := sa_count a + 1\<rparr>"
    and v: "SSAValue_new file (sa_count a') = Some v"
    by (auto simp: sa_alloc_def panic_simps Let_def)
  then have "sa_count a + 1 \<noteq> 0" by (metis eq_neg_iff_add_eq_0)
  then show "unat (sa_count a') = Suc (unat (sa_count a))" by (simp add: a' unatSuc add.commute)
  show "ssa_idx v = sa_count a'" "ssa_file v = Some file" "ssa_packed v < - 32"
    using SSAValue_new_fields [OF v] by simp_all
qed

lemma sa_alloc_n_spec:
  assumes "sa_alloc_n file n a = Some (vs, a')"
  shows "length vs = n \<and> unat (sa_count a') = unat (sa_count a) + n \<and>
    map ssa_bit_index vs = [Suc (unat (sa_count a))..<Suc (unat (sa_count a) + n)] \<and>
    (\<forall>v\<in>set vs. ssa_file v = Some file \<and> ssa_packed v < - 32)"
  using assms
proof (induction n arbitrary: a vs)
  case (Suc n)
  then obtain v a1 vs1 where v: "sa_alloc file a = Some (v, a1)" "sa_alloc_n file n a1 = Some (vs1, a')"
    and vs: "vs = v # vs1"
    by (auto split: option.splits)
  note al = sa_alloc_fields [OF v(1)]
  show ?case using Suc.IH [OF v(2)] al
    by (simp add: vs ssa_bit_index_def upt_conv_Cons del: upt_Suc)
qed simp

text \<open>The abstract value of a \<^verbatim>\<open>RegFileSet\<close>.\<close>

definition rfs_files :: "RegFileSet \<Rightarrow> RegFile set" where
  "rfs_files s = {f. bit s (unat (file_u8 f))}"

lemma file_unat_less: "unat (file_u8 f) < 8"
  by (cases f) simp_all

lemma unat_file_inject: "unat (file_u8 f) = unat (file_u8 g) \<longleftrightarrow> f = g"
  by (simp add: word_unat_eq_iff [symmetric])

lemma rfs_specs:
  "rfs_files rfs_new = {}" "rfs_contains s f \<longleftrightarrow> f \<in> rfs_files s"
  "rfs_files (snd (rfs_insert f s)) = insert f (rfs_files s)"
  "rfs_files (snd (rfs_remove f s)) = rfs_files s - {f}"
  using file_unat_less
  by (auto simp: rfs_files_def rfs_new_def rfs_contains_def rfs_insert_def rfs_remove_def bit_simps
      unat_file_inject)


subsection \<open>Properties\<close>

text \<open>
  Property C40.  A packed register reference gives back the register file, the base index and the
  number of components it was made from, and two references made from different data differ.
\<close>

theorem RegRef_roundtrip:
  assumes "RegRef_new f b c = Some r"
  shows "RegRef_file r = Some f \<and> RegRef_base_idx r = b \<and> RegRef_comps r = c \<and>
    (\<forall>f' b' c'. RegRef_new f' b' c' = Some r \<longrightarrow> f' = f \<and> b' = b \<and> c' = c)"
  using RegRef_new_fields [OF assms] by (auto dest: RegRef_new_fields)

theorem RegRef_roundtrip_witness:
  "let r = \<lparr>rr_packed = 0xCC00002A\<rparr> in
   RegRef_file r = Some Mem \<and> RegRef_base_idx r = 42 \<and> RegRef_comps r = 4 \<and>
    (\<forall>f' b' c'. RegRef_new f' b' c' = Some r \<longrightarrow> f' = Mem \<and> b' = 42 \<and> c' = 4)"
  unfolding Let_def by (rule RegRef_roundtrip [of Mem 42 4]) code_simp

text \<open>
  An SSA reference to between 1 and 32 allocated values is always built, reports their
  number and dereferences to exactly these values: the length tag that shares the last slot of the
  array is never confused with a value, in the small and in the large form.
\<close>

theorem SSARef_roundtrip:
  assumes "1 \<le> length comps" and "length comps \<le> 32"
    and "\<forall>v\<in>set comps. \<exists>f i. SSAValue_new f i = Some v"
  shows "\<exists>r. SSARef_new comps = Some r \<and> SSARef_deref r = comps \<and> unat (SSARef_comps r) = length comps"
proof -
  from assms(3) have v: "\<forall>v\<in>set comps. ssa_packed v < - 32"
    using SSAValue_new_fields(3) by blast
  show ?thesis
  proof (cases "length comps > SSARef_SMALL_SIZE")
    case True
    with ssa_array_roundtrip [of comps SSARef_LARGE_SIZE] assms v show ?thesis
      by (auto simp: SSARef_new_def SSARef_LARGE_SIZE_def)
  next
    case False
    with ssa_array_roundtrip [of comps SSARef_SMALL_SIZE] assms v show ?thesis
      by (auto simp: SSARef_new_def SSARef_SMALL_SIZE_def)
  qed
qed

theorem SSARef_roundtrip_witness:
  "\<exists>r. SSARef_new [\<lparr>ssa_packed = 1\<rparr>, \<lparr>ssa_packed = 2\<rparr>] = Some r \<and>
     SSARef_deref r = [\<lparr>ssa_packed = 1\<rparr>, \<lparr>ssa_packed = 2\<rparr>] \<and>
     unat (SSARef_comps r) = length [\<lparr>ssa_packed = 1\<rparr>, \<lparr>ssa_packed = 2\<rparr>]"
proof (rule SSARef_roundtrip)
  have "SSAValue_new GPR 1 = Some \<lparr>ssa_packed = 1\<rparr>" "SSAValue_new GPR 2 = Some \<lparr>ssa_packed = 2\<rparr>"
    by code_simp+
  then show "\<forall>v\<in>set [\<lparr>ssa_packed = 1\<rparr>, \<lparr>ssa_packed = 2\<rparr>]. \<exists>f i. SSAValue_new f i = Some v" by auto
qed simp_all

text \<open>
  The allocator never gives out an index twice: values allocated one after the other
  have consecutive indices above everything allocated before, all in the requested register file,
  and a vector allocation refers to exactly the values it allocated.
\<close>

theorem allocator_fresh_indices:
  assumes "sa_alloc_vec file comps a = Some (r, a')"
  shows "map ssa_bit_index (SSARef_deref r) =
      [Suc (unat (sa_count a))..<Suc (unat (sa_count a) + unat comps)] \<and>
    unat (sa_count a') = unat (sa_count a) + unat comps \<and>
    (\<forall>v\<in>set (SSARef_deref r). ssa_file v = Some file)"
proof -
  from assms obtain vs where len: "0 < unat comps" "unat comps \<le> 32"
    and vs: "sa_alloc_n file (unat comps) a = Some (vs, a')" and r: "SSARef_new vs = Some r"
    by (auto simp: sa_alloc_vec_def Let_def panic_simps SSARef_LARGE_SIZE_def split: option.splits)
  note spec = sa_alloc_n_spec [OF vs]
  have "SSARef_deref r = vs"
  proof (cases "length vs > SSARef_SMALL_SIZE")
    case True
    with ssa_array_roundtrip [of vs SSARef_LARGE_SIZE] len spec r show ?thesis
      by (auto simp: SSARef_new_def SSARef_LARGE_SIZE_def)
  next
    case False
    with ssa_array_roundtrip [of vs SSARef_SMALL_SIZE] len spec r show ?thesis
      by (auto simp: SSARef_new_def SSARef_SMALL_SIZE_def)
  qed
  with spec show ?thesis by simp
qed

theorem allocator_fresh_indices_witness:
  "let r = Small [\<lparr>ssa_packed = 0x20000001\<rparr>, \<lparr>ssa_packed = 0x20000002\<rparr>, \<lparr>ssa_packed = - 1\<rparr>, \<lparr>ssa_packed = - 2\<rparr>];
       a' = \<lparr>sa_count = 2\<rparr> in
   map ssa_bit_index (SSARef_deref r) = [Suc (unat (sa_count sa_new))..<Suc (unat (sa_count sa_new) + unat (2 :: u8))] \<and>
    unat (sa_count a') = unat (sa_count sa_new) + unat (2 :: u8) \<and>
    (\<forall>v\<in>set (SSARef_deref r). ssa_file v = Some UGPR)"
  unfolding Let_def by (rule allocator_fresh_indices [of UGPR 2]) code_simp

end
