(* ===== verification/Liveness.thy ===== *)
theory Liveness
  imports BitSet Dataflow Regs
begin

text \<open>
  \<^verbatim>\<open>codegen/liveness.rs\<close>: live sets with per-register-file counts, and the simple liveness
  analysis (\<^verbatim>\<open>SimpleLiveness\<close>), a backward data-flow over bit sets.  The analysis is shown to
  return on every function and to compute exactly the values that are live: those with a path to a
  use that meets no definition.

  An instruction is the projection the analysis reads: the SSA values used (predicate and sources, in
  the order of \<^verbatim>\<open>for_each_ssa_use\<close>), the SSA destination vectors, and the number of sources if it
  is an \<^verbatim>\<open>OpRegOut\<close>.  The functions of the compiler are control-flow graphs over blocks, which are
  lists of instructions.
\<close>

record Instr =
  i_uses :: "SSAValue list"
  i_dsts :: "SSAValue list list"
  i_reg_out :: "nat option"

type_synonym Function = "Instr list CFG"

definition i_defs :: "Instr \<Rightarrow> SSAValue list" where
  "i_defs instr = concat (i_dsts instr)"

subsection \<open>Live sets\<close>

text \<open>
  The counts are \<^verbatim>\<open>u32\<close> in the source; they count elements of the set and cannot overflow, so they
  are naturals here, and the decrement panics below zero.
\<close>

record LiveSet =
  ls_live :: "nat PerRegFile"
  ls_set :: "SSAValue set"

definition ls_new :: LiveSet where "ls_new = \<lparr>ls_live = (\<lambda>_. 0), ls_set = {}\<rparr>"

definition ls_clear :: "LiveSet \<Rightarrow> LiveSet" where
  "ls_clear l = l\<lparr>ls_live := (\<lambda>_. 0), ls_set := {}\<rparr>"

definition ls_contains :: "LiveSet \<Rightarrow> SSAValue \<Rightarrow> bool" where "ls_contains l v \<longleftrightarrow> v \<in> ls_set l"

definition ls_count :: "LiveSet \<Rightarrow> RegFile \<Rightarrow> nat" where "ls_count l f = ls_live l f"

definition ls_insert :: "SSAValue \<Rightarrow> LiveSet \<Rightarrow> (bool \<times> LiveSet) option" where
  "ls_insert v l =
     (if v \<notin> ls_set l
      then (case ssa_file v of
              None \<Rightarrow> None
            | Some f \<Rightarrow> Some (True, l\<lparr>ls_set := insert v (ls_set l),
                                     ls_live := (ls_live l)(f := ls_live l f + 1)\<rparr>))
      else Some (False, l))"

definition ls_remove :: "SSAValue \<Rightarrow> LiveSet \<Rightarrow> (bool \<times> LiveSet) option" where
  "ls_remove v l =
     (if v \<in> ls_set l
      then (case ssa_file v of
              None \<Rightarrow> None
            | Some f \<Rightarrow> if ls_live l f = 0 then None
                else Some (True, l\<lparr>ls_set := ls_set l - {v},
                                  ls_live := (ls_live l)(f := ls_live l f - 1)\<rparr>))
      else Some (False, l))"

definition ls_insert_all :: "SSAValue list \<Rightarrow> LiveSet \<Rightarrow> LiveSet option" where
  "ls_insert_all vs l = foldM (\<lambda>v l. map_option snd (ls_insert v l)) vs l"

definition ls_remove_dead :: "(SSAValue \<Rightarrow> bool) \<Rightarrow> SSAValue list \<Rightarrow> LiveSet \<Rightarrow> LiveSet option" where
  "ls_remove_dead live_after vs l =
     foldM (\<lambda>v l. if \<not> live_after v then map_option snd (ls_remove v l) else Some l) vs l"

text \<open>\<^verbatim>\<open>bl.is_live_after_ip(ssa, ip)\<close> is passed as the predicate \<^term>\<open>live_after\<close>.\<close>

definition insert_instr_top_down ::
    "(SSAValue \<Rightarrow> bool) \<Rightarrow> Instr \<Rightarrow> LiveSet \<Rightarrow> (nat PerRegFile \<times> LiveSet) option" where
  "insert_instr_top_down live_after instr l =
     do {
       l1 \<leftarrow> ls_insert_all (concat (filter (\<lambda>vec. length vec > 1) (i_dsts instr))) l;
       l2 \<leftarrow> ls_remove_dead live_after (i_uses instr) l1;
       l3 \<leftarrow> ls_insert_all (concat (filter (\<lambda>vec. length vec = 1) (i_dsts instr))) l2;
       let max_live = (\<lambda>f. max (ls_live l3 f) (ls_live l1 f));
       l4 \<leftarrow> foldM (\<lambda>v l. assert_then (ls_contains l v)
                  (if \<not> live_after v then map_option snd (ls_remove v l) else Some l))
               (i_defs instr) l3;
       Some (max_live, l4)
     }"

subsection \<open>Simple liveness\<close>

record SimpleBlockLiveness =
  bl_defs :: BitSet
  bl_uses :: BitSet
  bl_last_use :: "SSAValue \<rightharpoonup> nat"
  bl_live_in :: BitSet
  bl_live_out :: BitSet

definition bl_new :: SimpleBlockLiveness where
  "bl_new = \<lparr>bl_defs = bs_new 0, bl_uses = bs_new 0, bl_last_use = Map.empty,
     bl_live_in = bs_new 0, bl_live_out = bs_new 0\<rparr>"

definition bl_add_def :: "SSAValue \<Rightarrow> SimpleBlockLiveness \<Rightarrow> SimpleBlockLiveness" where
  "bl_add_def v bl = bl\<lparr>bl_defs := snd (bs_insert (ssa_bit_index v) (bl_defs bl))\<rparr>"

definition bl_add_use :: "nat \<Rightarrow> SSAValue \<Rightarrow> SimpleBlockLiveness \<Rightarrow> SimpleBlockLiveness" where
  "bl_add_use ip v bl = bl\<lparr>bl_uses := snd (bs_insert (ssa_bit_index v) (bl_uses bl)),
     bl_last_use := (bl_last_use bl)(v \<mapsto> ip)\<rparr>"

definition is_live_after_ip :: "SimpleBlockLiveness \<Rightarrow> SSAValue \<Rightarrow> nat \<Rightarrow> bool" where
  "is_live_after_ip bl v ip =
     (if bs_contains (bl_live_out bl) (ssa_bit_index v) then True
      else case bl_last_use bl v of Some last_use_ip \<Rightarrow> last_use_ip > ip | None \<Rightarrow> False)"

definition is_live_in :: "SimpleBlockLiveness \<Rightarrow> SSAValue \<Rightarrow> bool" where
  "is_live_in bl v = bs_contains (bl_live_in bl) (ssa_bit_index v)"

definition is_live_out :: "SimpleBlockLiveness \<Rightarrow> SSAValue \<Rightarrow> bool" where
  "is_live_out bl v = bs_contains (bl_live_out bl) (ssa_bit_index v)"

record SimpleLiveness =
  sl_ssa_block_ip :: "SSAValue \<rightharpoonup> nat \<times> nat"
  sl_blocks :: "SimpleBlockLiveness list"

text \<open>The first loop of \<^verbatim>\<open>for_function\<close>: the definitions and uses of each block.\<close>

definition bl_scan_instr :: "nat \<times> Instr \<Rightarrow> SimpleBlockLiveness \<Rightarrow> SimpleBlockLiveness" where
  "bl_scan_instr ipi bl =
     (case ipi of (ip, instr) \<Rightarrow>
        fold bl_add_def (i_defs instr) (fold (bl_add_use ip) (i_uses instr) bl))"

definition bl_scan :: "Instr list \<Rightarrow> SimpleBlockLiveness" where
  "bl_scan instrs = fold bl_scan_instr (List.enumerate 0 instrs) bl_new"

definition ssa_block_ips :: "Instr list list \<Rightarrow> (SSAValue \<rightharpoonup> nat \<times> nat)" where
  "ssa_block_ips blocks =
     fold (\<lambda>(bi, b). fold (\<lambda>(ip, instr). fold (\<lambda>v m. m(v \<mapsto> (bi, ip))) (i_defs instr))
             (List.enumerate 0 b))
       (List.enumerate 0 blocks) Map.empty"

text \<open>The body of the inlined data-flow loop.\<close>

definition sl_new_live_in :: "BitSet \<Rightarrow> SimpleBlockLiveness \<Rightarrow> BitSet" where
  "sl_new_live_in live_out bl = bs_sub (bs_bitor live_out (bl_uses bl)) (bl_defs bl)"

definition sl_visit ::
    "Function \<Rightarrow> SimpleBlockLiveness list \<Rightarrow> nat \<Rightarrow> BitSet list \<times> BitSet list \<times> bool \<Rightarrow>
     (BitSet list \<times> BitSet list \<times> bool) option" where
  "sl_visit g bls node st =
     (case st of (live_out, live_in, changed) \<Rightarrow> do {
        output \<leftarrow> df_join_all bs_union live_in (successors g node) (bs_new 0);
        live_out' \<leftarrow> store live_out node output;
        bl \<leftarrow> index bls node;
        let new_live_in = sl_new_live_in output bl;
        cur \<leftarrow> index live_in node;
        let is_changed = (cur \<noteq> new_live_in);
        let live_in' = (if is_changed then live_in[node := new_live_in] else live_in);
        Some (live_out', live_in', changed \<or> is_changed)
      })"

definition for_function :: "Function \<Rightarrow> SimpleLiveness option" where
  "for_function g =
     (let bls = map bl_scan (cfg_blocks g); n = cfg_len g in
      case df_loop (sl_visit g bls) (rev (reverse_post_order g))
             (replicate n (bs_new 0)) (replicate n (bs_new 0)) of
        None \<Rightarrow> None
      | Some (live_out, live_in) \<Rightarrow>
          Some \<lparr>sl_ssa_block_ip = ssa_block_ips (cfg_blocks g),
                sl_blocks = map (\<lambda>(bl, i, o'). bl\<lparr>bl_live_in := i, bl_live_out := o'\<rparr>)
                  (zip bls (zip live_in live_out))\<rparr>)"

definition def_block_ip :: "SimpleLiveness \<Rightarrow> SSAValue \<Rightarrow> (nat \<times> nat) option" where
  "def_block_ip l v = sl_ssa_block_ip l v"

definition interferes :: "SimpleLiveness \<Rightarrow> SSAValue \<Rightarrow> SSAValue \<Rightarrow> bool option" where
  "interferes l a b =
     do {
       (ab, ai) \<leftarrow> def_block_ip l a;
       (bb, bi) \<leftarrow> def_block_ip l b;
       if ab = bb \<and> ai = bi then Some True
       else if ab < bb \<or> ab = bb \<and> ai < bi
       then map_option (\<lambda>bl. is_live_after_ip bl a bi) (index (sl_blocks l) bb)
       else map_option (\<lambda>bl. is_live_after_ip bl b ai) (index (sl_blocks l) ab)
     }"

subsection \<open>What a block defines and uses\<close>

definition block_uses :: "Instr list \<Rightarrow> nat set" where
  "block_uses b = (\<Union>i\<in>set b. ssa_bit_index ` set (i_uses i))"

definition block_defs :: "Instr list \<Rightarrow> nat set" where
  "block_defs b = (\<Union>i\<in>set b. ssa_bit_index ` set (i_defs i))"

lemma fold_add_use:
  "bs_elems (bl_uses (fold (bl_add_use ip) vs bl)) = bs_elems (bl_uses bl) \<union> ssa_bit_index ` set vs"
  "bl_defs (fold (bl_add_use ip) vs bl) = bl_defs bl"
  "bs_capacity (bl_uses (fold (bl_add_use ip) vs bl)) = bs_capacity (bl_uses bl)"
  by (induction vs arbitrary: bl) (auto simp: bl_add_use_def)

lemma fold_add_def:
  "bs_elems (bl_defs (fold bl_add_def vs bl)) = bs_elems (bl_defs bl) \<union> ssa_bit_index ` set vs"
  "bl_uses (fold bl_add_def vs bl) = bl_uses bl"
  "bl_last_use (fold bl_add_def vs bl) = bl_last_use bl"
  "bs_capacity (bl_defs (fold bl_add_def vs bl)) = bs_capacity (bl_defs bl)"
  by (induction vs arbitrary: bl) (auto simp: bl_add_def_def)

lemma bl_scan_sets:
  "bs_elems (bl_uses (bl_scan b)) = block_uses b" "bs_elems (bl_defs (bl_scan b)) = block_defs b"
  "bs_capacity (bl_uses (bl_scan b)) = 0" "bs_capacity (bl_defs (bl_scan b)) = 0"
proof -
  let ?go = "\<lambda>k bl. fold bl_scan_instr (List.enumerate k b) bl"
  have "bs_elems (bl_uses (?go k bl)) = bs_elems (bl_uses bl) \<union> block_uses b \<and>
      bs_elems (bl_defs (?go k bl)) = bs_elems (bl_defs bl) \<union> block_defs b \<and>
      bs_capacity (bl_uses (?go k bl)) = bs_capacity (bl_uses bl) \<and>
      bs_capacity (bl_defs (?go k bl)) = bs_capacity (bl_defs bl)" for k bl
    by (induction b arbitrary: k bl)
       (auto simp: bl_scan_instr_def fold_add_use fold_add_def block_uses_def block_defs_def)
  from this [of 0 bl_new]
  show "bs_elems (bl_uses (bl_scan b)) = block_uses b" "bs_elems (bl_defs (bl_scan b)) = block_defs b"
    "bs_capacity (bl_uses (bl_scan b)) = 0" "bs_capacity (bl_defs (bl_scan b)) = 0"
    by (simp_all add: bl_scan_def bl_new_def) (simp_all add: bs_new_def)
qed

subsection \<open>The analysis as an instance of the data-flow contract\<close>

text \<open>Bit sets ordered by their elements and by their allocated length.\<close>

definition bs_le :: "BitSet \<Rightarrow> BitSet \<Rightarrow> bool" where
  "bs_le s t \<longleftrightarrow> bs_elems s \<subseteq> bs_elems t \<and> length (bs_words s) \<le> length (bs_words t)"

definition bs_rank :: "BitSet \<Rightarrow> nat" where
  "bs_rank s = card (bs_elems s) + length (bs_words s)"

definition bs_within :: "nat \<Rightarrow> BitSet \<Rightarrow> bool" where
  "bs_within m s \<longleftrightarrow> bs_capacity s = 0 \<and> length (bs_words s) \<le> m"

lemma bs_eqI:
  assumes "bs_elems s = bs_elems t" and "length (bs_words s) = length (bs_words t)"
    and "bs_capacity s = bs_capacity t"
  shows "s = (t :: BitSet)"
proof -
  have "bs_words s = bs_words t"
  proof (rule nth_equalityI [OF assms(2)])
    fix k assume k: "k < length (bs_words s)"
    have "word_or0 (bs_words s) k = word_or0 (bs_words t) k"
    proof (rule bit_word_eqI)
      fix j assume "j < LENGTH(64)"
      then show "bit (word_or0 (bs_words s) k) j \<longleftrightarrow> bit (word_or0 (bs_words t) k) j"
        using assms(1) bs_elems_word [of j k s] bs_elems_word [of j k t] by simp
    qed
    with k assms(2) show "bs_words s ! k = bs_words t ! k" by (simp add: word_or0_def)
  qed
  with assms(3) show ?thesis by simp
qed

lemma bs_elems_lt: "i \<in> bs_elems s \<Longrightarrow> i < 64 * length (bs_words s)"
  by (auto simp: bs_elems_def dest: word_or0_bitD)

lemma bs_rank_bound: "bs_within m s \<Longrightarrow> bs_rank s \<le> 65 * m"
proof -
  assume "bs_within m s"
  then have "bs_elems s \<subseteq> {..<64 * m}" using bs_elems_lt [of _ s] by (fastforce simp: bs_within_def)
  then have "card (bs_elems s) \<le> 64 * m" using card_mono [of "{..<64 * m}"] by simp
  with \<open>bs_within m s\<close> show ?thesis by (simp add: bs_rank_def bs_within_def)
qed

lemma bs_rank_strict:
  assumes "bs_within m s" and "bs_within m t" and "bs_le s t" and "s \<noteq> t"
  shows "bs_rank s < bs_rank t"
proof (cases "bs_elems s = bs_elems t")
  case True
  with assms have "length (bs_words s) < length (bs_words t)"
    using bs_eqI [of s t] by (fastforce simp: bs_le_def bs_within_def le_less)
  with True show ?thesis by (simp add: bs_rank_def)
next
  case False
  with assms(3) have "card (bs_elems s) < card (bs_elems t)"
    by (intro psubset_card_mono) (auto simp: bs_le_def)
  with assms(3) show ?thesis by (simp add: bs_rank_def bs_le_def)
qed

lemma length_ops:
  "length (bs_words (bs_union s t)) = max (length (bs_words s)) (length (bs_words t))"
  "length (bs_words (bs_bitor s t)) = max (length (bs_words s)) (length (bs_words t))"
  "length (bs_words (bs_sub s t)) = max (length (bs_words s)) (length (bs_words t))"
  "bs_capacity (bs_union s t) = bs_capacity s"
  "bs_capacity (bs_bitor s t) = max (bs_capacity s) (bs_capacity t)"
  "bs_capacity (bs_sub s t) = max (bs_capacity s) (bs_capacity t)"
  by (simp_all add: bs_union_def bs_bitor_def bs_sub_def Let_def max_def)

definition cfg_in_range :: "'b CFG \<Rightarrow> bool" where
  "cfg_in_range g \<longleftrightarrow> (\<forall>u<cfg_len g. \<forall>v\<in>set (successors g u). v < cfg_len g)"

text \<open>The visiting order; a function with an edge out of range is not analysed (the code panics).\<close>

definition live_order :: "Function \<Rightarrow> nat list" where
  "live_order g = (if cfg_in_range g then rev (reverse_post_order g) else [])"

definition live_width :: "Function \<Rightarrow> nat" where
  "live_width g = sum_list (map (\<lambda>b. length (bs_words (bl_uses (bl_scan b))) +
     length (bs_words (bl_defs (bl_scan b)))) (cfg_blocks g))"

definition live_tr :: "Function \<Rightarrow> nat \<Rightarrow> BitSet \<Rightarrow> BitSet" where
  "live_tr g node out = sl_new_live_in out (map bl_scan (cfg_blocks g) ! node)"

lemma rpo_lt: "u \<in> set (reverse_post_order g) \<Longrightarrow> u < cfg_len g"
proof (cases "cfg_len g = 0")
  case True
  then show "u \<in> set (reverse_post_order g) \<Longrightarrow> u < cfg_len g"
    by (simp add: reverse_post_order_def reverse_post_order_opt_def cfg_len_def)
next
  case False
  then show "u \<in> set (reverse_post_order g) \<Longrightarrow> u < cfg_len g"
    using reverse_post_order_opt_spec [of g] reachable_lt [of g 0 u]
    by (auto simp: reverse_post_order_def)
qed

lemma live_order_lt: "u \<in> set (live_order g) \<Longrightarrow> u < cfg_len g"
  using rpo_lt [of u g] by (simp add: live_order_def split: if_splits)

lemma live_width_ge:
  assumes "node < cfg_len g"
  shows "length (bs_words (bl_uses (map bl_scan (cfg_blocks g) ! node))) \<le> live_width g"
    and "length (bs_words (bl_defs (map bl_scan (cfg_blocks g) ! node))) \<le> live_width g"
proof -
  have "cfg_blocks g ! node \<in> set (cfg_blocks g)" using assms by (simp add: cfg_len_def)
  then have "length (bs_words (bl_uses (bl_scan (cfg_blocks g ! node)))) +
      length (bs_words (bl_defs (bl_scan (cfg_blocks g ! node)))) \<le> live_width g"
    unfolding live_width_def by (intro member_le_sum_list) auto
  then show "length (bs_words (bl_uses (map bl_scan (cfg_blocks g) ! node))) \<le> live_width g"
    "length (bs_words (bl_defs (map bl_scan (cfg_blocks g) ! node))) \<le> live_width g"
    using assms by (simp_all add: cfg_len_def)
qed

lemma live_tr_within:
  assumes "node < cfg_len g" and "bs_within (live_width g) a"
  shows "bs_within (live_width g) (live_tr g node a)"
  using assms live_width_ge [OF assms(1)]
  by (simp add: live_tr_def sl_new_live_in_def bs_within_def length_ops bl_scan_sets cfg_len_def)

lemma sl_visit_eq:
  assumes "node \<in> set (live_order g)" and "length acc = cfg_len g" and "length own = cfg_len g"
  shows "sl_visit g (map bl_scan (cfg_blocks g)) node (acc, own, ch) =
    Some (acc[node := df_input (successors g) bs_union (bs_new 0) own node],
          own[node := live_tr g node (df_input (successors g) bs_union (bs_new 0) own node)],
          ch \<or> own ! node \<noteq> live_tr g node (df_input (successors g) bs_union (bs_new 0) own node))"
proof -
  let ?in = "df_input (successors g) bs_union (bs_new 0) own node"
  have node: "node < cfg_len g" and r: "cfg_in_range g"
    using assms(1) rpo_lt by (auto simp: live_order_def split: if_splits)
  have "df_join_all bs_union own (successors g node) (bs_new 0) = Some ?in"
    using r node assms(3) by (auto simp: df_input_def cfg_in_range_def intro!: df_join_all_eq)
  moreover have "index (map bl_scan (cfg_blocks g)) node = Some (map bl_scan (cfg_blocks g) ! node)"
    using node by (simp add: cfg_len_def)
  ultimately show ?thesis
    using node assms(2,3) by (simp add: sl_visit_def live_tr_def Let_def) (metis list_update_id)
qed

interpretation live: dataflow "cfg_len g" "live_order g" "successors g" bs_union "bs_new 0"
  "live_tr g" "sl_visit g (map bl_scan (cfg_blocks g))" bs_le bs_le "bs_within (live_width g)"
  "bs_within (live_width g)" bs_rank "65 * live_width g" for g
proof unfold_locales
  show "node < cfg_len g" if "node \<in> set (live_order g)" for node
    using that by (rule live_order_lt)
  show "k < cfg_len g" if "node \<in> set (live_order g)" "k \<in> set (successors g node)" for node k
    using that live_order_lt [OF that(1)] by (auto simp: live_order_def cfg_in_range_def split: if_splits)
  show "bs_within (live_width g) (live_tr g node a)"
    if "node \<in> set (live_order g)" "bs_within (live_width g) a" for node a
    using live_order_lt [OF that(1)] that(2) by (rule live_tr_within)
  show "bs_le (live_tr g node a) (live_tr g node b)" if "bs_le a b" for a b node
    using that by (auto simp: bs_le_def live_tr_def sl_new_live_in_def length_ops)
  show "s = t" if "bs_within (live_width g) s" "bs_within (live_width g) t" "bs_le s t" "bs_le t s" for s t
    using that by (intro bs_eqI) (auto simp: bs_within_def bs_le_def)
  show "bs_le (bs_union a s) (bs_union b t)" if "bs_le a b" "bs_le s t" for a b s t
    using that by (auto simp: bs_le_def length_ops)
qed (use sl_visit_eq bs_rank_strict bs_rank_bound in
     \<open>auto simp: bs_le_def bs_within_def length_ops bs_new_def BITS_PER_WORD_def\<close>)

subsection \<open>Liveness as paths to a use\<close>

text \<open>
  Value \<^term>\<open>v\<close> is live on entry to \<^term>\<open>node\<close>: the block uses it without defining it, or does not
  define it and it is live on entry to a successor.
\<close>

inductive live_path :: "Function \<Rightarrow> nat \<Rightarrow> nat \<Rightarrow> bool" for g where
  use: "v \<in> block_uses (cfg_blocks g ! node) \<Longrightarrow> v \<notin> block_defs (cfg_blocks g ! node) \<Longrightarrow>
    live_path g node v"
| step: "s \<in> set (successors g node) \<Longrightarrow> live_path g s v \<Longrightarrow> v \<notin> block_defs (cfg_blocks g ! node) \<Longrightarrow>
    live_path g node v"

lemma df_input_union_elems:
  "bs_elems (df_input (successors g) bs_union (bs_new 0) own node) =
     (\<Union>s\<in>set (successors g node). bs_elems (own ! s))"
proof -
  have "bs_elems (fold (\<lambda>k a. bs_union a (own ! k)) ks a) = bs_elems a \<union> (\<Union>s\<in>set ks. bs_elems (own ! s))"
    for ks a by (induction ks arbitrary: a) auto
  then show ?thesis by (simp add: df_input_def)
qed

lemma live_tr_elems:
  "node < cfg_len g \<Longrightarrow> bs_elems (live_tr g node a) =
     (bs_elems a \<union> block_uses (cfg_blocks g ! node)) - block_defs (cfg_blocks g ! node)"
  by (simp add: live_tr_def sl_new_live_in_def bl_scan_sets cfg_len_def)

text \<open>The loop of the analysis, on a function whose edges stay in range.\<close>

lemma live_loop:
  assumes "cfg_in_range g"
  shows "\<exists>live_out live_in.
    df_loop (sl_visit g (map bl_scan (cfg_blocks g))) (rev (reverse_post_order g))
      (replicate (cfg_len g) (bs_new 0)) (replicate (cfg_len g) (bs_new 0)) = Some (live_out, live_in) \<and>
    length live_out = cfg_len g \<and> length live_in = cfg_len g \<and>
    (\<forall>u\<in>set (reverse_post_order g).
       bs_elems (live_in ! u) = {v. live_path g u v} \<and>
       bs_elems (live_out ! u) = {v. \<exists>s\<in>set (successors g u). live_path g s v})"
proof -
  let ?n = "cfg_len g" and ?z = "replicate (cfg_len g) (bs_new 0)"
  let ?F = "df_input (successors g) bs_union (bs_new 0)"
  have ord: "live_order g = rev (reverse_post_order g)" using assms by (simp add: live_order_def)
  have z: "bs_words (bs_new 0) = []" "bs_capacity (bs_new 0) = 0"
    by (simp_all add: bs_new_def BITS_PER_WORD_def)
  have asc: "live.ascending g ?z"
    by (rule live.ascending_bottom) (simp_all add: bs_within_def bs_le_def z)
  obtain out inn where r: "df_loop (sl_visit g (map bl_scan (cfg_blocks g))) (live_order g) ?z ?z = Some (out, inn)"
    and len: "length out = ?n" and a: "live.ascending g inn"
    and fx: "\<forall>u\<in>set (live_order g). out ! u = ?F inn u \<and> inn ! u = live_tr g u (out ! u)"
    and Q: "\<forall>Q. live.kept g Q \<and> live.holds g Q ?z \<longrightarrow> live.holds g Q inn"
    using live.loop_correct [OF asc, of ?z] by auto
  let ?P = "\<lambda>k s. bs_elems s \<subseteq> {v. live_path g k v}"
  have "live.kept g ?P"
    unfolding live.kept_def live.holds_def
  proof (intro ballI allI impI)
    fix node own
    assume node: "node \<in> set (live_order g)"
      and h: "length own = ?n \<and> (\<forall>k<?n. bs_elems (own ! k) \<subseteq> {v. live_path g k v})"
    have lt: "node < ?n" using node by (rule live_order_lt)
    have "s < ?n" if "s \<in> set (successors g node)" for s using that lt assms by (auto simp: cfg_in_range_def)
    with h lt show "bs_elems (live_tr g node (?F own node)) \<subseteq> {v. live_path g node v}"
      by (auto simp: live_tr_elems df_input_union_elems intro: live_path.intros)
  qed
  moreover have "live.holds g ?P ?z" by (simp add: live.holds_def)
  ultimately have "live.holds g ?P inn" using Q by blast
  then have sub: "\<forall>k<?n. bs_elems (inn ! k) \<subseteq> {v. live_path g k v}" by (simp add: live.holds_def)
  have closed: "s \<in> set (reverse_post_order g)" if "u \<in> set (reverse_post_order g)" "s \<in> set (successors g u)" for u s
  proof -
    have n: "0 < ?n" using rpo_lt [OF that(1)] by simp
    then have eq: "set (reverse_post_order g) = {v. reachable_from g 0 v}"
      using reverse_post_order_opt_spec [OF n] by (auto simp: reverse_post_order_def)
    have "s < ?n" using rpo_lt [OF that(1)] that(2) assms by (auto simp: cfg_in_range_def)
    with that eq show ?thesis
      by (auto simp: reachable_from_def edge_rel_def intro: rtrancl_into_rtrancl)
  qed
  have sup: "v \<in> bs_elems (inn ! u)" if "live_path g u v" "u \<in> set (reverse_post_order g)" for u v
    using that
  proof (induction rule: live_path.induct)
    case (use v node)
    then show ?case using fx rpo_lt [OF use.prems] by (auto simp: ord live_tr_elems)
  next
    case (step s node v)
    have "s \<in> set (reverse_post_order g)" using closed step by blast
    then have "v \<in> bs_elems (inn ! s)" using step by blast
    with step fx rpo_lt [OF step.prems] show ?case
      by (auto simp: ord live_tr_elems df_input_union_elems)
  qed
  have inn: "bs_elems (inn ! u) = {v. live_path g u v}" if "u \<in> set (reverse_post_order g)" for u
    using sub rpo_lt [OF that] sup [OF _ that] by blast
  moreover have "bs_elems (out ! u) = {v. \<exists>s\<in>set (successors g u). live_path g s v}"
    if "u \<in> set (reverse_post_order g)" for u
    using fx that inn closed [OF that] by (auto simp: ord df_input_union_elems)
  moreover have "length inn = ?n" using a by (simp add: live.ascending_def)
  ultimately show ?thesis using r len by (auto simp: ord)
qed

subsection \<open>Live sets as sets\<close>

text \<open>The live set of a set of values: the counts are the numbers of elements of each file.\<close>

definition file_count :: "SSAValue set \<Rightarrow> RegFile \<Rightarrow> nat" where
  "file_count S f = card {v \<in> S. ssa_file v = Some f}"

definition ls_of :: "SSAValue set \<Rightarrow> LiveSet" where
  "ls_of S = \<lparr>ls_live = file_count S, ls_set = S\<rparr>"

definition ssa_set_ok :: "SSAValue set \<Rightarrow> bool" where
  "ssa_set_ok S \<longleftrightarrow> finite S \<and> (\<forall>v\<in>S. ssa_file v \<noteq> None)"

lemma ssa_set_ok_simps [simp]:
  "ssa_set_ok {}" "ssa_set_ok (S \<union> T) \<longleftrightarrow> ssa_set_ok S \<and> ssa_set_ok T"
  "ssa_set_ok (insert v S) \<longleftrightarrow> ssa_file v \<noteq> None \<and> ssa_set_ok S"
  by (auto simp: ssa_set_ok_def)

lemma ssa_set_ok_subset: "ssa_set_ok S \<Longrightarrow> T \<subseteq> S \<Longrightarrow> ssa_set_ok T"
  by (auto simp: ssa_set_ok_def intro: finite_subset)

lemma file_count_insert:
  assumes "ssa_set_ok S" and "v \<notin> S" and "ssa_file v = Some f"
  shows "file_count (insert v S) = (file_count S)(f := file_count S f + 1)"
proof
  fix h
  have "{u \<in> insert v S. ssa_file u = Some h} =
      (if h = f then insert v {u \<in> S. ssa_file u = Some h} else {u \<in> S. ssa_file u = Some h})"
    using assms(3) by auto
  with assms show "file_count (insert v S) h = ((file_count S)(f := file_count S f + 1)) h"
    by (simp add: file_count_def ssa_set_ok_def)
qed

lemma ls_insert_of:
  assumes "ssa_set_ok S" and "ssa_file v \<noteq> None"
  shows "ls_insert v (ls_of S) = Some (v \<notin> S, ls_of (insert v S))"
  using assms by (auto simp: ls_insert_def ls_of_def file_count_insert insert_absorb)

lemma ls_remove_of:
  assumes "ssa_set_ok S"
  shows "ls_remove v (ls_of S) = Some (v \<in> S, ls_of (S - {v}))"
proof (cases "v \<in> S")
  case True
  then obtain f where f: "ssa_file v = Some f" using assms by (auto simp: ssa_set_ok_def)
  have ok: "ssa_set_ok (S - {v})" using assms by (rule ssa_set_ok_subset) auto
  have "file_count S = (file_count (S - {v}))(f := file_count (S - {v}) f + 1)"
    using file_count_insert [OF ok _ f] True by (simp add: insert_absorb)
  then show ?thesis using True f by (auto simp: ls_remove_def ls_of_def fun_eq_iff)
qed (simp add: ls_remove_def ls_of_def)

lemma ls_insert_all_of:
  assumes "ssa_set_ok S" and "ssa_set_ok (set vs)"
  shows "ls_insert_all vs (ls_of S) = Some (ls_of (S \<union> set vs))"
  using assms unfolding ls_insert_all_def
  by (induction vs arbitrary: S) (simp_all add: ls_insert_of)

lemma ls_remove_dead_of:
  assumes "ssa_set_ok S"
  shows "ls_remove_dead live_after vs (ls_of S) = Some (ls_of (S - {v \<in> set vs. \<not> live_after v}))"
  using assms unfolding ls_remove_dead_def
proof (induction vs arbitrary: S)
  case (Cons v vs)
  let ?S = "if live_after v then S else S - {v}"
  have "ssa_set_ok ?S" using Cons.prems by (auto intro: ssa_set_ok_subset)
  from Cons.IH [OF this] Cons.prems show ?case
    by (auto simp: ls_remove_of intro!: arg_cong [where f = ls_of])
qed simp

text \<open>The last loop, with its assertion that every destination is in the set.\<close>

lemma ls_kill_defs_of:
  assumes "ssa_set_ok S" and "distinct vs" and "set vs \<subseteq> S"
  shows "foldM (\<lambda>v l. assert_then (ls_contains l v)
           (if \<not> live_after v then map_option snd (ls_remove v l) else Some l)) vs (ls_of S) =
         Some (ls_of (S - {v \<in> set vs. \<not> live_after v}))"
  using assms
proof (induction vs arbitrary: S)
  case (Cons v vs)
  let ?S = "if live_after v then S else S - {v}"
  have "ssa_set_ok ?S" using Cons.prems by (auto intro: ssa_set_ok_subset)
  moreover have "set vs \<subseteq> ?S" using Cons.prems by auto
  moreover have "ls_contains (ls_of S) v" using Cons.prems by (simp add: ls_contains_def ls_of_def)
  ultimately show ?case using Cons.IH [of ?S] Cons.prems
    by (auto simp: ls_remove_of intro!: arg_cong [where f = ls_of])
qed simp

text \<open>Vector and scalar destinations.\<close>

definition i_vec_defs :: "Instr \<Rightarrow> SSAValue set" where
  "i_vec_defs instr = (\<Union>vec\<in>{vec \<in> set (i_dsts instr). length vec > 1}. set vec)"

definition instr_ssa :: "Instr \<Rightarrow> bool" where
  "instr_ssa instr \<longleftrightarrow> distinct (i_defs instr) \<and> [] \<notin> set (i_dsts instr) \<and>
     set (i_uses instr) \<inter> set (i_defs instr) = {} \<and>
     (\<forall>v\<in>set (i_defs instr). ssa_file v \<noteq> None)"

lemma i_defs_split:
  assumes "[] \<notin> set (i_dsts instr)"
  shows "set (i_defs instr) = i_vec_defs instr \<union> set (concat (filter (\<lambda>vec. length vec = 1) (i_dsts instr)))"
proof -
  have "length vec > 1 \<or> length vec = 1" if "vec \<in> set (i_dsts instr)" for vec
  proof -
    have "vec \<noteq> []" using that assms by blast
    then have "length vec \<noteq> 0" by simp
    then show ?thesis by linarith
  qed
  then show ?thesis by (fastforce simp: i_defs_def i_vec_defs_def)
qed

lemma insert_instr_top_down_of:
  fixes live_after :: "SSAValue \<Rightarrow> bool"
  assumes "ssa_set_ok S" and "instr_ssa instr"
  defines "S1 \<equiv> S \<union> i_vec_defs instr"
    and "S3 \<equiv> (S - {v \<in> set (i_uses instr). \<not> live_after v}) \<union> set (i_defs instr)"
  shows "insert_instr_top_down live_after instr (ls_of S) =
    Some (\<lambda>f. max (file_count S3 f) (file_count S1 f), ls_of (S3 - {v \<in> set (i_defs instr). \<not> live_after v}))"
proof -
  let ?vec = "concat (filter (\<lambda>vec. length vec > 1) (i_dsts instr))"
    and ?sc = "concat (filter (\<lambda>vec. length vec = 1) (i_dsts instr))"
  have split: "set (i_defs instr) = i_vec_defs instr \<union> set ?sc"
    using assms(2) by (intro i_defs_split) (simp add: instr_ssa_def)
  have vec: "set ?vec = i_vec_defs instr" by (simp add: i_vec_defs_def)
  have ok: "ssa_set_ok (set (i_defs instr))" using assms(2) by (simp add: instr_ssa_def ssa_set_ok_def)
  then have oks: "ssa_set_ok (i_vec_defs instr)" "ssa_set_ok (set ?sc)" unfolding split by simp_all
  let ?S2 = "S1 - {v \<in> set (i_uses instr). \<not> live_after v}"
  have S2: "?S2 \<union> set ?sc = S3" using split assms(2) by (auto simp: S1_def S3_def instr_ssa_def)
  have ok1: "ssa_set_ok S1" using assms(1) oks by (simp add: S1_def)
  have ok2: "ssa_set_ok ?S2" using ok1 by (rule ssa_set_ok_subset) auto
  have 1: "ls_insert_all ?vec (ls_of S) = Some (ls_of S1)"
    using ls_insert_all_of [OF assms(1), of ?vec] oks(1) unfolding vec S1_def by simp
  have 2: "ls_remove_dead live_after (i_uses instr) (ls_of S1) = Some (ls_of ?S2)"
    using ok1 by (rule ls_remove_dead_of)
  have 3: "ls_insert_all ?sc (ls_of ?S2) = Some (ls_of S3)"
    using ls_insert_all_of [OF ok2 oks(2)] S2 by simp
  have "ssa_set_ok S3" using ok2 oks(2) unfolding S2 [symmetric] by simp
  moreover have "distinct (i_defs instr)" "set (i_defs instr) \<subseteq> S3"
    using assms(2) by (auto simp: instr_ssa_def S3_def)
  ultimately have 4: "foldM (\<lambda>v l. assert_then (ls_contains l v)
      (if \<not> live_after v then map_option snd (ls_remove v l) else Some l)) (i_defs instr) (ls_of S3) =
      Some (ls_of (S3 - {v \<in> set (i_defs instr). \<not> live_after v}))" by (rule ls_kill_defs_of)
  have live: "ls_live (ls_of T) = file_count T" for T by (simp add: ls_of_def)
  show ?thesis
    unfolding insert_instr_top_down_def 1 bind.bind_lunit 2 3 Let_def 4 live ..
qed

subsection \<open>The last use in a block\<close>

lemma fold_last_use:
  "bl_last_use (fold (bl_add_use ip) vs bl) v = (if v \<in> set vs then Some ip else bl_last_use bl v)"
  by (induction vs arbitrary: bl) (auto simp: bl_add_use_def)

lemma scan_last_use:
  "bl_last_use (fold bl_scan_instr (List.enumerate k b) bl) v =
     (if \<exists>i<length b. v \<in> set (i_uses (b ! i))
      then Some (k + Max {i. i < length b \<and> v \<in> set (i_uses (b ! i))}) else bl_last_use bl v)"
proof (induction b arbitrary: k rule: rev_induct)
  case (snoc x b)
  let ?U = "\<lambda>b. {i. i < length b \<and> v \<in> set (i_uses (b ! i))}"
  have U: "?U (b @ [x]) = (if v \<in> set (i_uses x) then insert (length b) (?U b) else ?U b)"
    by (auto simp: nth_append less_Suc_eq split: if_splits)
  have M: "Max (insert (length b) (?U b)) = length b" by (intro Max_eqI) auto
  have ex: "(\<exists>i<length (b @ [x]). v \<in> set (i_uses ((b @ [x]) ! i))) \<longleftrightarrow>
      v \<in> set (i_uses x) \<or> (\<exists>i<length b. v \<in> set (i_uses (b ! i)))"
    by (simp add: Ex_less_Suc nth_append cong: conj_cong)
  have "bl_last_use (fold bl_scan_instr (List.enumerate k (b @ [x])) bl) v =
      (if v \<in> set (i_uses x) then Some (k + length b)
       else bl_last_use (fold bl_scan_instr (List.enumerate k b) bl) v)"
    by (simp add: enumerate_append_eq bl_scan_instr_def fold_add_def fold_last_use)
  then show ?case unfolding U ex snoc.IH using M by (cases "v \<in> set (i_uses x)") (simp_all, blast)
qed simp

lemma bl_scan_last_use:
  "(case bl_last_use (bl_scan b) v of Some m \<Rightarrow> m > ip | None \<Rightarrow> False) \<longleftrightarrow>
     (\<exists>i<length b. i > ip \<and> v \<in> set (i_uses (b ! i)))"
proof -
  let ?U = "{i. i < length b \<and> v \<in> set (i_uses (b ! i))}"
  have "finite ?U" by simp
  then have "(Max ?U > ip) \<longleftrightarrow> (\<exists>i\<in>?U. i > ip)" if "?U \<noteq> {}" using that by (rule Max_gr_iff)
  then show ?thesis by (auto simp: bl_scan_def scan_last_use bl_new_def)
qed

lemma for_function_spec:
  assumes "cfg_in_range g"
  shows "\<exists>l. for_function g = Some l \<and> length (sl_blocks l) = cfg_len g \<and>
    (\<forall>u<cfg_len g. bl_last_use (sl_blocks l ! u) = bl_last_use (bl_scan (cfg_blocks g ! u))) \<and>
    (\<forall>u\<in>set (reverse_post_order g).
       bs_elems (bl_live_in (sl_blocks l ! u)) = {v. live_path g u v} \<and>
       bs_elems (bl_live_out (sl_blocks l ! u)) = {v. \<exists>s\<in>set (successors g u). live_path g s v})"
proof -
  obtain out inn where r: "df_loop (sl_visit g (map bl_scan (cfg_blocks g))) (rev (reverse_post_order g))
      (replicate (cfg_len g) (bs_new 0)) (replicate (cfg_len g) (bs_new 0)) = Some (out, inn)"
    and "length out = cfg_len g" "length inn = cfg_len g"
    and "\<forall>u\<in>set (reverse_post_order g). bs_elems (inn ! u) = {v. live_path g u v} \<and>
       bs_elems (out ! u) = {v. \<exists>s\<in>set (successors g u). live_path g s v}"
    using live_loop [OF assms] by blast
  then show ?thesis using rpo_lt [of _ g] by (simp add: for_function_def Let_def cfg_len_def)
qed

subsection \<open>Properties\<close>

text \<open>
  Property C11.  \<^verbatim>\<open>SimpleLiveness::for_function\<close> returns on every function whose edges lead to blocks
  of the function, and for every block that can be reached from the entry the live-in set holds
  exactly the values with a path to a use that meets no definition, and the live-out set those that
  are live on entry to some successor.
\<close>

theorem simple_liveness_exact:
  assumes "cfg_in_range g"
  shows "\<exists>l. for_function g = Some l \<and> length (sl_blocks l) = cfg_len g \<and>
    (\<forall>u\<in>set (reverse_post_order g). \<forall>v.
       (is_live_in (sl_blocks l ! u) v \<longleftrightarrow> live_path g u (ssa_bit_index v)) \<and>
       (is_live_out (sl_blocks l ! u) v \<longleftrightarrow>
          (\<exists>s\<in>set (successors g u). live_path g s (ssa_bit_index v))))"
proof -
  obtain l where "for_function g = Some l" "length (sl_blocks l) = cfg_len g"
    and "\<forall>u\<in>set (reverse_post_order g).
       bs_elems (bl_live_in (sl_blocks l ! u)) = {v. live_path g u v} \<and>
       bs_elems (bl_live_out (sl_blocks l ! u)) = {v. \<exists>s\<in>set (successors g u). live_path g s v}"
    using for_function_spec [OF assms] by blast
  then show ?thesis by (auto simp: is_live_in_def is_live_out_def bs_contains_iff)
qed

text \<open>A loop: block 0 defines value 1 and goes to block 1, which uses it and goes back to itself.\<close>

definition loop_function :: Function where
  "loop_function = cb_build
     \<lparr>cb_blocks = [[\<lparr>i_uses = [], i_dsts = [[\<lparr>ssa_packed = 1\<rparr>]], i_reg_out = None\<rparr>],
                   [\<lparr>i_uses = [\<lparr>ssa_packed = 1\<rparr>], i_dsts = [[\<lparr>ssa_packed = 2\<rparr>]], i_reg_out = None\<rparr>]],
      cb_edges = [\<lparr>e_from = 0, e_to = 1\<rparr>, \<lparr>e_from = 1, e_to = 1\<rparr>]\<rparr>"

lemma loop_function_in_range: "cfg_in_range loop_function"
proof -
  have "\<forall>u\<in>set [0..<cfg_len loop_function]. \<forall>v\<in>set (successors loop_function u). v < cfg_len loop_function"
    by code_simp
  then show ?thesis by (simp add: cfg_in_range_def)
qed

theorem simple_liveness_exact_witness:
  "\<exists>l. for_function loop_function = Some l \<and> length (sl_blocks l) = cfg_len loop_function \<and>
    (\<forall>u\<in>set (reverse_post_order loop_function). \<forall>v.
       (is_live_in (sl_blocks l ! u) v \<longleftrightarrow> live_path loop_function u (ssa_bit_index v)) \<and>
       (is_live_out (sl_blocks l ! u) v \<longleftrightarrow>
          (\<exists>s\<in>set (successors loop_function u). live_path loop_function s (ssa_bit_index v))))"
  by (rule simple_liveness_exact [OF loop_function_in_range])

text \<open>
  Property C38.  After the analysis, \<^verbatim>\<open>is_live_after_ip\<close> answers whether a value is used by a later
  instruction of the block or is live on entry to a successor.
\<close>

theorem is_live_after_ip_exact:
  assumes "cfg_in_range g"
  shows "\<exists>l. for_function g = Some l \<and>
    (\<forall>u\<in>set (reverse_post_order g). \<forall>v ip.
       is_live_after_ip (sl_blocks l ! u) v ip \<longleftrightarrow>
         (\<exists>i<length (cfg_blocks g ! u). i > ip \<and> v \<in> set (i_uses (cfg_blocks g ! u ! i))) \<or>
         (\<exists>s\<in>set (successors g u). live_path g s (ssa_bit_index v)))"
proof -
  obtain l where "for_function g = Some l"
    and "\<forall>u<cfg_len g. bl_last_use (sl_blocks l ! u) = bl_last_use (bl_scan (cfg_blocks g ! u))"
    and "\<forall>u\<in>set (reverse_post_order g).
       bs_elems (bl_live_out (sl_blocks l ! u)) = {v. \<exists>s\<in>set (successors g u). live_path g s v}"
    using for_function_spec [OF assms] by blast
  then show ?thesis
    by (simp add: is_live_after_ip_def bs_contains_iff bl_scan_last_use [symmetric] rpo_lt disj_commute)
qed

theorem is_live_after_ip_exact_witness:
  "\<exists>l. for_function loop_function = Some l \<and>
    (\<forall>u\<in>set (reverse_post_order loop_function). \<forall>v ip.
       is_live_after_ip (sl_blocks l ! u) v ip \<longleftrightarrow>
         (\<exists>i<length (cfg_blocks loop_function ! u). i > ip \<and>
            v \<in> set (i_uses (cfg_blocks loop_function ! u ! i))) \<or>
         (\<exists>s\<in>set (successors loop_function u). live_path loop_function s (ssa_bit_index v)))"
  by (rule is_live_after_ip_exact [OF loop_function_in_range])

text \<open>
  Property C36.  On a live set whose counts are right, \<^verbatim>\<open>insert_instr_top_down\<close> never panics: no
  counter goes below zero and its assertion holds.  The new set has the sources and destinations that
  die here removed, its counts are again right, and the reported pressure of each register file is the
  larger of the number of values live with all sources and the vector destinations, and with all
  destinations and the surviving sources.
\<close>

theorem insert_instr_top_down_pressure:
  assumes "ssa_set_ok S" and "instr_ssa instr"
  shows "insert_instr_top_down live_after instr (ls_of S) =
    Some (\<lambda>f. max (file_count ((S - {v \<in> set (i_uses instr). \<not> live_after v}) \<union> set (i_defs instr)) f)
                  (file_count (S \<union> i_vec_defs instr) f),
          ls_of ((S - {v \<in> set (i_uses instr). \<not> live_after v}) \<union> set (i_defs instr) -
                 {v \<in> set (i_defs instr). \<not> live_after v}))"
  using assms by (rule insert_instr_top_down_of)

theorem insert_instr_top_down_pressure_witness:
  "let v1 = \<lparr>ssa_packed = 1\<rparr>; v2 = \<lparr>ssa_packed = 2\<rparr>; v3 = \<lparr>ssa_packed = 3\<rparr>;
       instr = \<lparr>i_uses = [v1], i_dsts = [[v2, v3]], i_reg_out = None\<rparr>
   in insert_instr_top_down (\<lambda>v. v = v2) instr (ls_of {v1}) =
      Some (\<lambda>f. max (file_count {v2, v3} f) (file_count {v1, v2, v3} f), ls_of {v2})"
proof -
  let ?v1 = "\<lparr>ssa_packed = 1\<rparr>" and ?v2 = "\<lparr>ssa_packed = 2\<rparr>" and ?v3 = "\<lparr>ssa_packed = 3\<rparr>"
  let ?i = "\<lparr>i_uses = [?v1], i_dsts = [[?v2, ?v3]], i_reg_out = None\<rparr>"
  have f: "ssa_file ?v1 \<noteq> None" "ssa_file ?v2 \<noteq> None" "ssa_file ?v3 \<noteq> None" by code_simp+
  have ok: "ssa_set_ok {?v1}" "instr_ssa ?i"
    using f by (simp_all add: instr_ssa_def i_defs_def)
  have s: "({?v1} - {v \<in> set (i_uses ?i). \<not> v = ?v2}) \<union> set (i_defs ?i) = {?v2, ?v3}"
    "{?v1} \<union> i_vec_defs ?i = {?v1, ?v2, ?v3}"
    "{?v2, ?v3} - {v \<in> set (i_defs ?i). \<not> v = ?v2} = {?v2}"
    by (auto simp: i_defs_def i_vec_defs_def)
  show ?thesis unfolding Let_def
    using insert_instr_top_down_pressure [OF ok, of "\<lambda>v. v = ?v2"] unfolding s .
qed

end
