(* ===== verification/UnionFind.thy ===== *)
theory UnionFind
  imports Prelude
begin

text \<open>
  \<^verbatim>\<open>codegen/union_find.rs\<close>: union-find with linking by size and path halving, in which the
  representative of the first argument of a union becomes the representative of the merged set.
  The structure is shown to implement the equivalence closure of the pairs united, with
  representatives as documented, and its trees stay of logarithmic height.
\<close>

record 'x UfRoot =
  root_size :: nat
  representative :: 'x

datatype 'x Node = Child nat | Root "'x UfRoot"

record 'x UnionFind =
  uf_idx_map :: "'x \<rightharpoonup> nat"
  uf_nodes :: "'x Node list"

definition uf_new :: "'x UnionFind" where
  "uf_new = \<lparr>uf_idx_map = Map.empty, uf_nodes = []\<rparr>"

partial_function (option) find_root ::
    "'x Node list \<Rightarrow> nat \<Rightarrow> ((nat \<times> 'x UfRoot) \<times> 'x Node list) option" where
  "find_root nodes i =
     (case index nodes i of
        None \<Rightarrow> None
      | Some (Root root) \<Rightarrow> Some ((i, root), nodes)
      | Some (Child p) \<Rightarrow>
          (case index nodes p of
             None \<Rightarrow> None
           | Some (Root parent_root) \<Rightarrow> Some ((p, parent_root), nodes)
           | Some (Child g) \<Rightarrow> find_root (nodes[i := Child g]) g))"

definition uf_find :: "'x \<Rightarrow> 'x UnionFind \<Rightarrow> ('x \<times> 'x UnionFind) option" where
  "uf_find x u =
     (case uf_idx_map u x of
        Some i \<Rightarrow> map_option (\<lambda>((_, root), nodes). (representative root, u\<lparr>uf_nodes := nodes\<rparr>))
                    (find_root (uf_nodes u) i)
      | None \<Rightarrow> Some (x, u))"

definition map_or_create :: "'x \<Rightarrow> 'x UnionFind \<Rightarrow> nat \<times> 'x UnionFind" where
  "map_or_create x u =
     (case uf_idx_map u x of
        Some i \<Rightarrow> (i, u)
      | None \<Rightarrow>
          let nodes = uf_nodes u @ [Root \<lparr>root_size = 1, representative = x\<rparr>] in
          (length nodes - 1,
           u\<lparr>uf_idx_map := (uf_idx_map u)(x \<mapsto> length nodes - 1), uf_nodes := nodes\<rparr>))"

definition uf_link :: "nat \<Rightarrow> 'x UfRoot \<Rightarrow> nat \<Rightarrow> 'x UfRoot \<Rightarrow> 'x Node list \<Rightarrow> 'x Node list option" where
  "uf_link a_root_idx a_root b_root_idx b_root nodes =
     (if a_root_idx \<noteq> b_root_idx then
        let (new_root_idx, new_child_idx) =
              (if root_size a_root \<ge> root_size b_root then (a_root_idx, b_root_idx)
               else (b_root_idx, a_root_idx)) in
        do {
          nodes1 \<leftarrow> store nodes new_root_idx
            (Root \<lparr>root_size = root_size a_root + root_size b_root,
                   representative = representative a_root\<rparr>);
          store nodes1 new_child_idx (Child new_root_idx)
        }
      else Some nodes)"

definition uf_union :: "'x \<Rightarrow> 'x \<Rightarrow> 'x UnionFind \<Rightarrow> 'x UnionFind option" where
  "uf_union a b u =
     (if a = b then Some u
      else
        let (a_idx, u1) = map_or_create a u; (b_idx, u2) = map_or_create b u1 in
        do {
          ((a_root_idx, a_root), nodes1) \<leftarrow> find_root (uf_nodes u2) a_idx;
          ((b_root_idx, b_root), nodes2) \<leftarrow> find_root nodes1 b_idx;
          nodes3 \<leftarrow> uf_link a_root_idx a_root b_root_idx b_root nodes2;
          Some (u2\<lparr>uf_nodes := nodes3\<rparr>)
        })"

definition uf_is_empty :: "'x UnionFind \<Rightarrow> bool" where
  "uf_is_empty u \<longleftrightarrow> uf_nodes u = []"

subsection \<open>Trees\<close>

text \<open>The root of a node, with the number of parent links to it.\<close>

inductive root_in :: "'x Node list \<Rightarrow> nat \<Rightarrow> nat \<Rightarrow> nat \<Rightarrow> bool" for nodes where
  root: "i < length nodes \<Longrightarrow> nodes ! i = Root r \<Longrightarrow> root_in nodes i 0 i"
| child: "i < length nodes \<Longrightarrow> nodes ! i = Child p \<Longrightarrow> root_in nodes p n r \<Longrightarrow> root_in nodes i (Suc n) r"

inductive_cases root_inE: "root_in nodes i n r"

lemma root_in_lt: "root_in nodes i n r \<Longrightarrow> i < length nodes \<and> r < length nodes \<and> (\<exists>x. nodes ! r = Root x)"
  by (induction rule: root_in.induct) auto

lemma root_in_rootD: "root_in nodes i n r \<Longrightarrow> nodes ! i = Root x \<Longrightarrow> n = 0 \<and> r = i"
  by (erule root_inE) auto

lemma root_in_childD:
  "root_in nodes i n r \<Longrightarrow> nodes ! i = Child p \<Longrightarrow> \<exists>m. n = Suc m \<and> root_in nodes p m r"
  by (erule root_inE) auto

lemma root_in_unique: "root_in nodes i n r \<Longrightarrow> root_in nodes i n' r' \<Longrightarrow> n' = n \<and> r' = r"
proof (induction arbitrary: n' r' rule: root_in.induct)
  case (root i x)
  then show ?case using root_in_rootD by blast
next
  case (child i p n r)
  then show ?case using root_in_childD [OF child.prems child.hyps(2)] by blast
qed

text \<open>An update at a node does not touch the chains that start nearer to the root.\<close>

lemma root_in_update:
  assumes "root_in nodes j m r" and "root_in nodes i n r'" and "m < n"
  shows "root_in (nodes[i := x]) j m r"
  using assms
proof (induction rule: root_in.induct)
  case (root j t)
  then have "j \<noteq> i" using root_in_unique [OF root_in.root] by blast
  with root show ?case by (intro root_in.root) auto
next
  case (child j p m r)
  then have "j \<noteq> i" using root_in_unique [OF root_in.child] by fastforce
  with child show ?case by (auto intro: root_in.child)
qed

text \<open>Two forests with the same roots, the second with chains that are no longer.\<close>

definition shortens :: "'x Node list \<Rightarrow> 'x Node list \<Rightarrow> bool" where
  "shortens nodes nodes' \<longleftrightarrow> length nodes' = length nodes \<and>
     (\<forall>i n r. root_in nodes i n r \<longrightarrow> nodes' ! r = nodes ! r \<and> (\<exists>m\<le>n. root_in nodes' i m r))"

lemma shortens_refl: "shortens nodes nodes"
  by (auto simp: shortens_def)

lemma shortens_trans: "shortens a b \<Longrightarrow> shortens b c \<Longrightarrow> shortens a c"
  unfolding shortens_def by (metis le_trans)

lemma halve_shortens:
  assumes i: "root_in nodes i n r" and p: "nodes ! i = Child p" and g: "nodes ! p = Child g"
  shows "shortens nodes (nodes[i := Child g])"
proof -
  obtain k where k: "n = Suc (Suc k)" "root_in nodes g k r"
    using root_in_childD [OF i p] root_in_childD [OF _ g] by blast
  let ?nodes = "nodes[i := Child g]"
  have il: "i < length nodes" using root_in_lt i by blast
  have ri: "root_in ?nodes i (Suc k) r"
    using root_in_update [OF k(2) i] il k(1) by (auto intro!: root_in.child)
  have "\<exists>m\<le>n'. root_in ?nodes j m r'" if "root_in nodes j n' r'" for j n' r'
    using that
  proof (induction rule: root_in.induct)
    case (root j t)
    then have "j \<noteq> i" using p by auto
    with root show ?case by (auto intro!: exI [of _ 0] root_in.root)
  next
    case (child j q m s)
    show ?case
    proof (cases "j = i")
      case True
      have "root_in nodes i (Suc m) s" using child root_in.child True by blast
      from root_in_unique [OF this i] k(1) have "m = Suc k" "s = r" by auto
      with ri True show ?thesis by (auto intro!: exI [of _ "Suc k"])
    next
      case False
      from child.IH obtain m' where "m' \<le> m" "root_in ?nodes q m' s" by blast
      with False child.hyps have "root_in ?nodes j (Suc m') s" by (intro root_in.child) auto
      with \<open>m' \<le> m\<close> show ?thesis by (intro exI [of _ "Suc m'"]) simp
    qed
  qed
  moreover have "?nodes ! s = nodes ! s" if "root_in nodes j m s" for j m s
    using root_in_lt [OF that] p by (cases "s = i") auto
  ultimately show ?thesis by (simp add: shortens_def)
qed

text \<open>Finding a root returns it and only shortens chains.\<close>

lemma find_root_spec:
  assumes "root_in nodes i n r"
  shows "\<exists>root nodes'. nodes ! r = Root root \<and> find_root nodes i = Some ((r, root), nodes') \<and>
     shortens nodes nodes'"
  using assms
proof (induction n arbitrary: nodes i rule: less_induct)
  case (less n)
  have i: "i < length nodes" using root_in_lt less.prems by blast
  show ?case
  proof (cases "nodes ! i")
    case (Root root)
    then show ?thesis
      using root_in_rootD [OF less.prems Root] i
      by (auto simp: shortens_refl find_root.simps [of nodes i])
  next
    case (Child p)
    then obtain m where m: "n = Suc m" "root_in nodes p m r" using root_in_childD [OF less.prems] by blast
    have p: "p < length nodes" using root_in_lt m(2) by blast
    show ?thesis
    proof (cases "nodes ! p")
      case (Root root)
      then show ?thesis
        using root_in_rootD [OF m(2) Root] i p Child
        by (auto simp: shortens_refl find_root.simps [of nodes i])
    next
      case (Child g)
      let ?nodes = "nodes[i := Child g]"
      obtain k where k: "m = Suc k" "root_in nodes g k r" using root_in_childD [OF m(2) Child] by blast
      have sh: "shortens nodes ?nodes"
        using halve_shortens [OF less.prems \<open>nodes ! i = Child p\<close> Child] .
      have "root_in ?nodes g k r" using root_in_update [OF k(2) less.prems] m k by simp
      from less.IH [OF _ this] m k obtain root nodes'
        where r: "?nodes ! r = Root root" "find_root ?nodes g = Some ((r, root), nodes')" "shortens ?nodes nodes'"
        by auto
      have "find_root nodes i = find_root ?nodes g"
        using i p Child \<open>nodes ! i = Child p\<close> by (simp add: find_root.simps [of nodes i])
      moreover have "?nodes ! r = nodes ! r" using sh less.prems by (auto simp: shortens_def)
      ultimately show ?thesis using r shortens_trans [OF sh] by auto
    qed
  qed
qed

subsection \<open>Invariant\<close>

definition tree :: "'x Node list \<Rightarrow> nat \<Rightarrow> nat set" where
  "tree nodes r = {i. \<exists>n. root_in nodes i n r}"

definition forest :: "'x Node list \<Rightarrow> bool" where
  "forest nodes \<longleftrightarrow> (\<forall>i<length nodes. \<exists>n r. root_in nodes i n r)"

text \<open>
  Sizes are the numbers of nodes, chains are at most logarithmic in them, and a representative is a
  member of its own tree.
\<close>

definition roots_ok :: "('x \<rightharpoonup> nat) \<Rightarrow> 'x Node list \<Rightarrow> bool" where
  "roots_ok m nodes \<longleftrightarrow>
     (\<forall>i n r root. root_in nodes i n r \<and> nodes ! r = Root root \<longrightarrow>
        root_size root = card (tree nodes r) \<and> 2 ^ n \<le> root_size root \<and>
        (\<exists>k\<in>tree nodes r. m (representative root) = Some k))"

definition uf_inv :: "'x UnionFind \<Rightarrow> bool" where
  "uf_inv u \<longleftrightarrow> forest (uf_nodes u) \<and> roots_ok (uf_idx_map u) (uf_nodes u) \<and>
     (\<forall>i\<in>ran (uf_idx_map u). i < length (uf_nodes u))"

lemma finite_tree: "finite (tree nodes r)"
  by (rule finite_subset [of _ "{..<length nodes}"]) (auto simp: tree_def dest: root_in_lt)

lemma tree_disjoint: "r \<noteq> r' \<Longrightarrow> tree nodes r \<inter> tree nodes r' = {}"
  by (auto simp: tree_def dest: root_in_unique)

lemma uf_inv_new: "uf_inv uf_new"
  by (auto simp: uf_inv_def uf_new_def forest_def roots_ok_def dest: root_in_lt)

lemma shortens_back:
  assumes "forest nodes" and "shortens nodes nodes'" and "root_in nodes' i m r"
  shows "\<exists>n\<ge>m. root_in nodes i n r"
proof -
  have "i < length nodes" using assms(2) root_in_lt [OF assms(3)] by (simp add: shortens_def)
  then obtain n r0 where n: "root_in nodes i n r0" using assms(1) by (auto simp: forest_def)
  then obtain m' where "m' \<le> n" "root_in nodes' i m' r0" using assms(2) unfolding shortens_def by blast
  with root_in_unique [OF assms(3)] n show ?thesis by blast
qed

lemma shortens_inv:
  assumes "forest nodes" and "roots_ok m nodes" and "shortens nodes nodes'"
  shows "forest nodes'" and "roots_ok m nodes'" and "tree nodes' r = tree nodes r"
proof -
  show "forest nodes'" using assms(1,3) unfolding forest_def shortens_def by metis
  have tree: "tree nodes' r = tree nodes r" for r
    using shortens_back [OF assms(1,3)] assms(3) unfolding tree_def shortens_def by blast
  then show "tree nodes' r = tree nodes r" .
  show "roots_ok m nodes'"
    unfolding roots_ok_def tree
  proof (intro allI impI)
    fix i k r root assume h: "root_in nodes' i k r \<and> nodes' ! r = Root root"
    then obtain n where n: "k \<le> n" "root_in nodes i n r" using shortens_back [OF assms(1,3)] by blast
    with h assms(3) have "nodes ! r = Root root" by (auto simp: shortens_def)
    with n(2) assms(2) have R: "root_size root = card (tree nodes r)" "2 ^ n \<le> root_size root"
        "\<exists>k\<in>tree nodes r. m (representative root) = Some k"
      unfolding roots_ok_def by blast+
    have "(2::nat) ^ k \<le> 2 ^ n" using n(1) by simp
    with R show "root_size root = card (tree nodes r) \<and> 2 ^ k \<le> root_size root \<and>
        (\<exists>k\<in>tree nodes r. m (representative root) = Some k)" by linarith
  qed
qed

subsection \<open>What find returns\<close>

definition found :: "'x UnionFind \<Rightarrow> 'x \<Rightarrow> 'x option" where
  "found u x = map_option fst (uf_find x u)"

lemma uf_find_spec:
  assumes "uf_inv u"
  shows "uf_idx_map u x = None \<Longrightarrow> uf_find x u = Some (x, u)"
    and "uf_idx_map u x = Some i \<Longrightarrow> \<exists>n r root nodes'. root_in (uf_nodes u) i n r \<and>
      uf_nodes u ! r = Root root \<and> uf_find x u = Some (representative root, u\<lparr>uf_nodes := nodes'\<rparr>) \<and>
      shortens (uf_nodes u) nodes'"
proof -
  show "uf_idx_map u x = None \<Longrightarrow> uf_find x u = Some (x, u)" by (simp add: uf_find_def)
  assume i: "uf_idx_map u x = Some i"
  then have "i < length (uf_nodes u)" using assms by (auto simp: uf_inv_def ran_def)
  then obtain n r where r: "root_in (uf_nodes u) i n r" using assms by (auto simp: uf_inv_def forest_def)
  obtain root nodes' where "uf_nodes u ! r = Root root"
    "find_root (uf_nodes u) i = Some ((r, root), nodes')" "shortens (uf_nodes u) nodes'"
    using find_root_spec [OF r] by blast
  moreover from this i have "uf_find x u = Some (representative root, u\<lparr>uf_nodes := nodes'\<rparr>)"
    by (simp add: uf_find_def)
  ultimately show "\<exists>n r root nodes'. root_in (uf_nodes u) i n r \<and>
      uf_nodes u ! r = Root root \<and> uf_find x u = Some (representative root, u\<lparr>uf_nodes := nodes'\<rparr>) \<and>
      shortens (uf_nodes u) nodes'"
    using r by blast
qed

lemma found_eq:
  assumes "uf_inv u" and "uf_idx_map u x = Some i" and "root_in (uf_nodes u) i n r"
    and "uf_nodes u ! r = Root root"
  shows "found u x = Some (representative root)"
  using uf_find_spec(2) [OF assms(1,2)] root_in_unique [OF assms(3)] assms(4)
  by (auto simp: found_def)

lemma found_None: "uf_idx_map u x = None \<Longrightarrow> found u x = Some x"
  by (simp add: found_def uf_find_def)

lemma found_root:
  assumes "uf_inv u" and "uf_idx_map u x = Some i"
  shows "\<exists>n r root. root_in (uf_nodes u) i n r \<and> uf_nodes u ! r = Root root \<and>
     found u x = Some (representative root)"
  using uf_find_spec(2) [OF assms] by (auto simp: found_def)

lemma found_new: "found uf_new x = Some x"
  by (rule found_None) (simp add: uf_new_def)

text \<open>Different trees have different representatives.\<close>

lemma representative_inj:
  assumes "uf_inv u" and "root_in (uf_nodes u) i n r" and "uf_nodes u ! r = Root root"
    and "root_in (uf_nodes u) j m s" and "uf_nodes u ! s = Root root'"
    and "representative root = representative root'"
  shows "r = s"
proof -
  obtain k where "k \<in> tree (uf_nodes u) r" "uf_idx_map u (representative root) = Some k"
    using assms(1-3) unfolding uf_inv_def roots_ok_def by blast
  moreover obtain k' where "k' \<in> tree (uf_nodes u) s" "uf_idx_map u (representative root') = Some k'"
    using assms(1,4,5) unfolding uf_inv_def roots_ok_def by blast
  ultimately show ?thesis using assms(6) tree_disjoint [of r s "uf_nodes u"] by auto
qed

lemma representative_mapped:
  assumes "uf_inv u" and "root_in (uf_nodes u) i n r" and "uf_nodes u ! r = Root root"
  shows "uf_idx_map u (representative root) \<noteq> None"
  using assms unfolding uf_inv_def roots_ok_def by blast

lemma shortens_found:
  assumes "uf_inv u" and "shortens (uf_nodes u) nodes'"
  shows "uf_inv (u\<lparr>uf_nodes := nodes'\<rparr>)" and "found (u\<lparr>uf_nodes := nodes'\<rparr>) x = found u x"
proof -
  let ?u = "u\<lparr>uf_nodes := nodes'\<rparr>"
  have len: "length nodes' = length (uf_nodes u)" using assms(2) by (simp add: shortens_def)
  show inv: "uf_inv ?u"
    using assms shortens_inv [of "uf_nodes u" "uf_idx_map u" nodes'] by (simp add: uf_inv_def len)
  show "found ?u x = found u x"
  proof (cases "uf_idx_map u x")
    case None
    then show ?thesis by (simp add: found_None)
  next
    case (Some i)
    obtain n r root where r: "root_in (uf_nodes u) i n r" "uf_nodes u ! r = Root root"
      "found u x = Some (representative root)" using found_root [OF assms(1) Some] by blast
    then obtain m where "root_in nodes' i m r" "nodes' ! r = Root root"
      using assms(2) unfolding shortens_def by metis
    then show ?thesis using found_eq [OF inv, of x i m r root] Some r(3) by simp
  qed
qed

subsection \<open>Creating a node\<close>

lemma root_in_append: "root_in nodes i n r \<Longrightarrow> root_in (nodes @ xs) i n r"
  by (induction rule: root_in.induct) (auto simp: nth_append intro: root_in.intros)

lemma root_in_snoc:
  assumes "forest nodes"
  shows "root_in (nodes @ [Root x]) i n r \<longleftrightarrow>
    root_in nodes i n r \<or> i = length nodes \<and> n = 0 \<and> r = length nodes"
proof
  assume h: "root_in (nodes @ [Root x]) i n r"
  show "root_in nodes i n r \<or> i = length nodes \<and> n = 0 \<and> r = length nodes"
  proof (cases "i < length nodes")
    case True
    then obtain m s where "root_in nodes i m s" using assms by (auto simp: forest_def)
    with root_in_unique [OF h root_in_append [OF this]] show ?thesis by simp
  next
    case False
    with root_in_lt [OF h] have i: "i = length nodes" by simp
    with root_in_rootD [OF h, of x] show ?thesis by simp
  qed
next
  assume "root_in nodes i n r \<or> i = length nodes \<and> n = 0 \<and> r = length nodes"
  then show "root_in (nodes @ [Root x]) i n r"
    by (auto intro: root_in_append root_in.root)
qed

lemma map_or_create_spec:
  assumes "uf_inv u" and "map_or_create x u = (i, u')"
  shows "uf_inv u'" and "uf_idx_map u' x = Some i" and "found u' z = found u z"
    and "uf_idx_map u y = Some j \<Longrightarrow> uf_idx_map u' y = Some j"
proof -
  have "uf_inv u' \<and> uf_idx_map u' x = Some i \<and> found u' z = found u z \<and>
      (uf_idx_map u y = Some j \<longrightarrow> uf_idx_map u' y = Some j)"
  proof (cases "uf_idx_map u x")
    case (Some k)
    then show ?thesis using assms by (simp add: map_or_create_def)
  next
    case None
    let ?n = "length (uf_nodes u)" and ?R = "Root \<lparr>root_size = 1, representative = x\<rparr>"
    have u': "i = ?n" "uf_idx_map u' = (uf_idx_map u)(x \<mapsto> ?n)" "uf_nodes u' = uf_nodes u @ [?R]"
      using assms(2) None by (auto simp: map_or_create_def Let_def)
    have f: "forest (uf_nodes u)" and R: "roots_ok (uf_idx_map u) (uf_nodes u)"
      and dom: "\<forall>i\<in>ran (uf_idx_map u). i < ?n" using assms(1) by (auto simp: uf_inv_def)
    note snoc = root_in_snoc [OF f, of "\<lparr>root_size = 1, representative = x\<rparr>"]
    have nodes: "uf_nodes u' ! r = uf_nodes u ! r" if "root_in (uf_nodes u) k m r" for k m r
      using root_in_lt [OF that] by (simp add: u' nth_append)
    have tree: "tree (uf_nodes u') r = (if r = ?n then {?n} else tree (uf_nodes u) r)" for r
      unfolding tree_def u' snoc by (auto dest: root_in_lt)
    have "forest (uf_nodes u')"
      using f unfolding forest_def u' snoc by (auto simp: less_Suc_eq)
    moreover have "roots_ok (uf_idx_map u') (uf_nodes u')"
      unfolding roots_ok_def
    proof (intro allI impI)
      fix k m r root assume h: "root_in (uf_nodes u') k m r \<and> uf_nodes u' ! r = Root root"
      show "root_size root = card (tree (uf_nodes u') r) \<and> 2 ^ m \<le> root_size root \<and>
        (\<exists>k\<in>tree (uf_nodes u') r. uf_idx_map u' (representative root) = Some k)"
      proof (cases "root_in (uf_nodes u) k m r")
        case True
        with h nodes have root: "uf_nodes u ! r = Root root" by simp
        have "r \<noteq> ?n" using root_in_lt [OF True] by auto
        moreover have "representative root \<noteq> x"
          using representative_mapped [OF assms(1) True root] None by auto
        moreover have "root_size root = card (tree (uf_nodes u) r) \<and> 2 ^ m \<le> root_size root \<and>
          (\<exists>k\<in>tree (uf_nodes u) r. uf_idx_map u (representative root) = Some k)"
          using R True root unfolding roots_ok_def by blast
        ultimately show ?thesis by (simp add: tree u'(2))
      next
        case False
        from h have "root_in (uf_nodes u) k m r \<or> k = ?n \<and> m = 0 \<and> r = ?n" unfolding u' snoc by blast
        with False have r: "m = 0" "r = ?n" by blast+
        with h have "root = \<lparr>root_size = 1, representative = x\<rparr>" by (simp add: u'(3))
        with r show ?thesis by (simp add: tree u'(2))
      qed
    qed
    ultimately have inv: "uf_inv u'" using dom by (auto simp: uf_inv_def u' ran_def) 
    have "found u' z = found u z"
    proof (cases "uf_idx_map u z")
      case None
      have "root_in (uf_nodes u') ?n 0 ?n" unfolding u' snoc by simp
      from found_eq [OF inv _ this, of x] have "found u' x = Some x" by (simp add: u')
      with None show ?thesis by (cases "z = x") (simp_all add: found_None u'(2))
    next
      case (Some k)
      with \<open>uf_idx_map u x = None\<close> have "z \<noteq> x" by auto
      obtain m r root where r: "root_in (uf_nodes u) k m r" "uf_nodes u ! r = Root root"
        "found u z = Some (representative root)" using found_root [OF assms(1) Some] by blast
      have "found u' z = Some (representative root)"
        by (rule found_eq [OF inv, of _ k m r])
           (use r nodes Some \<open>z \<noteq> x\<close> snoc in \<open>auto simp: u'\<close>)
      with r show ?thesis by simp
    qed
    with inv show ?thesis using None by (auto simp: u')
  qed
  then show "uf_inv u'" and "uf_idx_map u' x = Some i" and "found u' z = found u z"
    and "uf_idx_map u y = Some j \<Longrightarrow> uf_idx_map u' y = Some j" by auto
qed

subsection \<open>Linking\<close>

definition link_nodes :: "'x Node list \<Rightarrow> nat \<Rightarrow> nat \<Rightarrow> 'x UfRoot \<Rightarrow> 'x Node list" where
  "link_nodes nodes nr nc R = nodes[nr := Root R, nc := Child nr]"

lemma root_in_link:
  assumes "root_in nodes i n r" and "nodes ! nr = Root x" and "nodes ! nc = Root y" and "nr \<noteq> nc"
    and "nr < length nodes" and "nc < length nodes"
  shows "root_in (link_nodes nodes nr nc R) i (if r = nc then Suc n else n) (if r = nc then nr else r)"
  using assms
proof (induction rule: root_in.induct)
  case (root i t)
  have nr: "root_in (link_nodes nodes nr nc R) nr 0 nr"
    using root.prems by (intro root_in.root) (auto simp: link_nodes_def)
  show ?case
  proof (cases "i = nc")
    case True
    then show ?thesis using nr root.prems by (auto simp: link_nodes_def intro!: root_in.child)
  next
    case False
    with root show ?thesis
      by (cases "i = nr") (auto simp: link_nodes_def intro!: root_in.root)
  qed
next
  case (child i p n r)
  then have "link_nodes nodes nr nc R ! i = Child p" by (auto simp: link_nodes_def nth_list_update)
  moreover have "i < length (link_nodes nodes nr nc R)" using child.hyps by (simp add: link_nodes_def)
  ultimately have "root_in (link_nodes nodes nr nc R) i (Suc (if r = nc then Suc n else n)) (if r = nc then nr else r)"
    using child by (intro root_in.child) simp_all
  then show ?case by (simp split: if_splits)
qed

lemma link_inv:
  assumes "uf_inv u" and x: "uf_nodes u ! nr = Root x" and y: "uf_nodes u ! nc = Root y" and ne: "nr \<noteq> nc"
    and nr: "nr < length (uf_nodes u)" and nc: "nc < length (uf_nodes u)"
    and sz: "root_size y \<le> root_size x" "root_size R = root_size x + root_size y"
    and rep: "representative R \<in> {representative x, representative y}"
  defines "u' \<equiv> u\<lparr>uf_nodes := link_nodes (uf_nodes u) nr nc R\<rparr>"
  shows "uf_inv u'"
    and "found u' z = (if found u z \<in> {Some (representative x), Some (representative y)}
                       then Some (representative R) else found u z)"
proof -
  let ?N = "uf_nodes u" and ?L = "link_nodes (uf_nodes u) nr nc R"
  have f: "forest ?N" and ok: "roots_ok (uf_idx_map u) ?N" using assms(1) by (auto simp: uf_inv_def)
  note fwd = root_in_link [OF _ x y ne nr nc, of _ _ _ R]
  have len: "length ?L = length ?N" by (simp add: link_nodes_def)
  have bwd: "\<exists>m s. root_in ?N i m s \<and> n = (if s = nc then Suc m else m) \<and> r = (if s = nc then nr else s)"
    if "root_in ?L i n r" for i n r
  proof -
    have "i < length ?N" using root_in_lt [OF that] len by simp
    then obtain m s where "root_in ?N i m s" using f by (auto simp: forest_def)
    with root_in_unique [OF that fwd [OF this]] show ?thesis by blast
  qed
  have rx: "root_in ?N nr 0 nr" "root_in ?N nc 0 nc" using x y nr nc by (auto intro: root_in.root)
  have tree: "tree ?L r = (if r = nr then tree ?N nr \<union> tree ?N nc else if r = nc then {} else tree ?N r)" for r
  proof (rule set_eqI)
    fix i
    have "i \<in> tree ?L r \<longleftrightarrow> (\<exists>m s. root_in ?N i m s \<and> r = (if s = nc then nr else s))"
      unfolding tree_def using bwd [of i _ r] fwd [of i] by blast
    then show "i \<in> tree ?L r \<longleftrightarrow>
        i \<in> (if r = nr then tree ?N nr \<union> tree ?N nc else if r = nc then {} else tree ?N r)"
      using ne by (auto simp: tree_def)
  qed
  have at: "?L ! s = (if s = nr then Root R else ?N ! s)" if "s \<noteq> nc" for s
    using that nr by (simp add: link_nodes_def)
  have okx: "root_size x = card (tree ?N nr)" "root_size y = card (tree ?N nc)"
    using ok rx x y unfolding roots_ok_def by blast+
  have sum: "card (tree ?N nr \<union> tree ?N nc) = root_size R"
    using card_Un_disjoint [OF finite_tree finite_tree tree_disjoint [OF ne, of ?N]] okx sz(2) by simp
  have "forest ?L"
    using f fwd unfolding forest_def len by metis
  moreover have "roots_ok (uf_idx_map u) ?L"
    unfolding roots_ok_def
  proof (intro allI impI)
    fix i n r root assume h: "root_in ?L i n r \<and> ?L ! r = Root root"
    then obtain m s where m: "root_in ?N i m s" "n = (if s = nc then Suc m else m)"
      "r = (if s = nc then nr else s)" using bwd by blast
    obtain ss where ss: "?N ! s = Root ss" using root_in_lt [OF m(1)] by blast
    have b: "2 ^ m \<le> root_size ss" using ok m(1) ss unfolding roots_ok_def by blast
    show "root_size root = card (tree ?L r) \<and> 2 ^ n \<le> root_size root \<and>
        (\<exists>k\<in>tree ?L r. uf_idx_map u (representative root) = Some k)"
    proof (cases "r = nr")
      case True
      then have root: "root = R" using h at [OF ne] by simp
      have "2 ^ n \<le> root_size R"
        using b ss x y sz m True by (cases "s = nc") auto
      moreover obtain k where "k \<in> tree ?N nr \<union> tree ?N nc" "uf_idx_map u (representative R) = Some k"
        using ok rx x y rep unfolding roots_ok_def by (metis Un_iff insert_iff singletonD)
      ultimately show ?thesis using True root sum by (auto simp: tree)
    next
      case False
      then have "s = r" "r \<noteq> nc" "n = m" using m by (auto split: if_splits)
      moreover from this have "?N ! r = Root root" using h at [of r] False by simp
      moreover from calculation m(1) ok have "root_size root = card (tree ?N r) \<and> 2 ^ m \<le> root_size root \<and>
          (\<exists>k\<in>tree ?N r. uf_idx_map u (representative root) = Some k)" unfolding roots_ok_def by blast
      ultimately show ?thesis using False by (simp add: tree)
    qed
  qed
  ultimately show inv: "uf_inv u'" using assms(1) by (simp add: uf_inv_def u'_def len)
  show "found u' z = (if found u z \<in> {Some (representative x), Some (representative y)}
                       then Some (representative R) else found u z)"
  proof (cases "uf_idx_map u z")
    case None
    then show ?thesis
      using representative_mapped [OF assms(1) rx(1) x] representative_mapped [OF assms(1) rx(2) y]
      by (auto simp: found_None u'_def)
  next
    case (Some k)
    obtain m s ss where s: "root_in ?N k m s" "?N ! s = Root ss" "found u z = Some (representative ss)"
      using found_root [OF assms(1) Some] by blast
    have eq: "found u z \<in> {Some (representative x), Some (representative y)} \<longleftrightarrow> s = nr \<or> s = nc"
      using s x y representative_inj [OF assms(1) s(1,2) rx(1) x] representative_inj [OF assms(1) s(1,2) rx(2) y]
      by auto
    have "?L ! (if s = nc then nr else s) = Root (if s = nr \<or> s = nc then R else ss)"
      using at [OF ne] at [of s] s(2) by auto
    with found_eq [OF inv, of z k] fwd [OF s(1)] Some
    have "found u' z = Some (representative (if s = nr \<or> s = nc then R else ss))"
      by (simp add: u'_def)
    then show ?thesis using s(3) eq by auto
  qed
qed

subsection \<open>Union\<close>

lemma uf_link_spec:
  assumes "uf_inv u" and "uf_nodes u ! ra = Root x" and "uf_nodes u ! rb = Root y"
    and "ra < length (uf_nodes u)" and "rb < length (uf_nodes u)"
  shows "\<exists>nodes'. uf_link ra x rb y (uf_nodes u) = Some nodes' \<and> uf_inv (u\<lparr>uf_nodes := nodes'\<rparr>) \<and>
    (\<forall>z. found (u\<lparr>uf_nodes := nodes'\<rparr>) z =
       (if found u z = Some (representative y) then Some (representative x) else found u z))"
proof -
  let ?R = "\<lparr>root_size = root_size x + root_size y, representative = representative x\<rparr>"
  consider "ra = rb" | "ra \<noteq> rb" "root_size y \<le> root_size x" | "ra \<noteq> rb" "root_size x < root_size y"
    by linarith
  then show ?thesis
  proof cases
    case 1
    with assms show ?thesis by (simp add: uf_link_def)
  next
    case 2
    have "uf_link ra x rb y (uf_nodes u) = Some (link_nodes (uf_nodes u) ra rb ?R)"
      using 2 assms(4,5) by (simp add: uf_link_def link_nodes_def)
    with link_inv [OF assms(1-3) 2(1) assms(4,5) 2(2), of ?R] show ?thesis by auto
  next
    case 3
    have "uf_link ra x rb y (uf_nodes u) = Some (link_nodes (uf_nodes u) rb ra ?R)"
      using 3 assms(4,5) by (simp add: uf_link_def link_nodes_def)
    with link_inv [OF assms(1,3,2) _ assms(5,4), of ?R] 3 show ?thesis by auto
  qed
qed

lemma uf_union_spec:
  assumes "uf_inv u"
  shows "\<exists>u'. uf_union a b u = Some u' \<and> uf_inv u' \<and>
    (\<forall>z. found u' z = (if found u z = found u b then found u a else found u z))"
proof (cases "a = b")
  case True
  with assms show ?thesis by (simp add: uf_union_def)
next
  case False
  obtain ai u1 where m1: "map_or_create a u = (ai, u1)" by force
  obtain bi u2 where m2: "map_or_create b u1 = (bi, u2)" by force
  note s1 = map_or_create_spec [OF assms m1]
  note s2 = map_or_create_spec [OF s1(1) m2]
  have ia: "uf_idx_map u2 a = Some ai" using s1(2) by (rule s2(4))
  note ib = s2(2)
  obtain n ra x where ra: "root_in (uf_nodes u2) ai n ra" "uf_nodes u2 ! ra = Root x"
      "found u2 a = Some (representative x)" using found_root [OF s2(1) ia] by blast
  obtain m rb y where rb: "root_in (uf_nodes u2) bi m rb" "uf_nodes u2 ! rb = Root y"
      "found u2 b = Some (representative y)" using found_root [OF s2(1) ib] by blast
  obtain nodes1 where f1: "find_root (uf_nodes u2) ai = Some ((ra, x), nodes1)"
    and sh1: "shortens (uf_nodes u2) nodes1" using find_root_spec [OF ra(1)] ra(2) by auto
  obtain m' where rb1: "root_in nodes1 bi m' rb" "nodes1 ! rb = Root y"
    using sh1 rb unfolding shortens_def by metis
  obtain nodes2 where f2: "find_root nodes1 bi = Some ((rb, y), nodes2)"
    and sh2: "shortens nodes1 nodes2" using find_root_spec [OF rb1(1)] rb1(2) by auto
  let ?u = "u2\<lparr>uf_nodes := nodes2\<rparr>"
  have sh: "shortens (uf_nodes u2) nodes2" using shortens_trans [OF sh1 sh2] .
  note u = shortens_found [OF s2(1) sh]
  have at: "nodes2 ! ra = Root x" "nodes2 ! rb = Root y" "ra < length nodes2" "rb < length nodes2"
    using sh ra rb root_in_lt [OF ra(1)] root_in_lt [OF rb(1)] unfolding shortens_def by auto
  obtain nodes3 where l: "uf_link ra x rb y nodes2 = Some nodes3" "uf_inv (?u\<lparr>uf_nodes := nodes3\<rparr>)"
    "\<forall>z. found (?u\<lparr>uf_nodes := nodes3\<rparr>) z =
       (if found ?u z = Some (representative y) then Some (representative x) else found ?u z)"
    using uf_link_spec [OF u(1), of ra x rb y] at by auto
  have "uf_union a b u = Some (u2\<lparr>uf_nodes := nodes3\<rparr>)"
    using False m1 m2 f1 f2 l(1) by (simp add: uf_union_def)
  moreover have "found ?u z = found u z" for z using u(2) s2(3) s1(3) by simp
  moreover have "found u a = Some (representative x)" "found u b = Some (representative y)"
    using ra(3) rb(3) s1(3) s2(3) by simp_all
  ultimately show ?thesis using l(2,3) by (simp add: if_distrib cong: if_cong)
qed

lemma uf_find_keeps:
  assumes "uf_inv u"
  shows "\<exists>y u'. uf_find x u = Some (y, u') \<and> uf_inv u' \<and> (\<forall>z. found u' z = found u z)"
proof (cases "uf_idx_map u x")
  case None
  with assms show ?thesis by (simp add: uf_find_def)
next
  case (Some i)
  with uf_find_spec(2) [OF assms Some] shortens_found [OF assms] show ?thesis by blast
qed

text \<open>The structures that calls of \<^const>\<open>uf_union\<close> and \<^const>\<open>uf_find\<close> build, with the pairs united.\<close>

inductive uf_run :: "('x \<times> 'x) list \<Rightarrow> 'x UnionFind \<Rightarrow> bool" where
  new: "uf_run [] uf_new"
| union: "uf_run ps u \<Longrightarrow> uf_union a b u = Some u' \<Longrightarrow> uf_run (ps @ [(a, b)]) u'"
| find: "uf_run ps u \<Longrightarrow> uf_find x u = Some (y, u') \<Longrightarrow> uf_run ps u'"

definition rep_step :: "'x \<times> 'x \<Rightarrow> ('x \<Rightarrow> 'x) \<Rightarrow> 'x \<Rightarrow> 'x" where
  "rep_step ab rep z = (if rep z = rep (snd ab) then rep (fst ab) else rep z)"

lemma uf_run_rep:
  assumes "uf_run ps u"
  shows "uf_inv u \<and> (\<forall>z. found u z = Some (fold rep_step ps id z))"
  using assms
proof (induction rule: uf_run.induct)
  case new
  then show ?case by (simp add: uf_inv_new found_new)
next
  case (union ps u a b u')
  then show ?case using uf_union_spec [of u a b] by (auto simp: rep_step_def)
next
  case (find ps u x y u')
  then show ?case using uf_find_keeps [of u x] by auto
qed

lemma rep_step_classes:
  "fold rep_step ps id z = fold rep_step ps id w \<longleftrightarrow> (z, w) \<in> (set ps \<union> (set ps)\<inverse>)\<^sup>*"
proof (induction ps arbitrary: z w rule: rev_induct)
  case (snoc p ps)
  let ?f = "fold rep_step ps id" and ?E = "set ps \<union> (set ps)\<inverse>"
  let ?E' = "set (ps @ [p]) \<union> (set (ps @ [p]))\<inverse>"
  obtain a b where p: "p = (a, b)" by force
  have step: "fold rep_step (ps @ [p]) id v = (if ?f v = ?f b then ?f a else ?f v)" for v
    by (simp add: p rep_step_def)
  have mono: "?E\<^sup>* \<subseteq> ?E'\<^sup>*" by (rule rtrancl_mono) auto
  have ab: "(a, b) \<in> ?E'\<^sup>*" "(b, a) \<in> ?E'\<^sup>*" using p by auto
  have tr: "(u, w) \<in> ?E'\<^sup>*" if "(u, v) \<in> ?E'\<^sup>*" "(v, w) \<in> ?E'\<^sup>*" for u v w
    using that by (rule rtrancl_trans)
  have imp: "(u, v) \<in> ?E'\<^sup>*" if "?f u = ?f v" for u v using snoc.IH that mono by blast
  have "(z, w) \<in> ?E'\<^sup>*" if "fold rep_step (ps @ [p]) id z = fold rep_step (ps @ [p]) id w"
  proof -
    have c: "(z, c) \<in> ?E'\<^sup>* \<and> (c, z) \<in> ?E'\<^sup>*" if "?f z = ?f c" for z c
      using imp [OF that] imp [OF that [symmetric]] by blast
    have "(if ?f z = ?f b then ?f a else ?f z) = (if ?f w = ?f b then ?f a else ?f w)"
      using that unfolding step .
    then have "?f z = ?f b \<and> ?f w = ?f b \<or> ?f z = ?f b \<and> ?f a = ?f w \<or> ?f w = ?f b \<and> ?f z = ?f a \<or> ?f z = ?f w"
      by (cases "?f z = ?f b"; cases "?f w = ?f b") simp_all
    then consider "?f z = ?f b" "?f w = ?f b" | "?f z = ?f b" "?f a = ?f w" | "?f w = ?f b" "?f z = ?f a" | "?f z = ?f w"
      by blast
    then show ?thesis using c ab tr by cases (metis | blast)+
  qed
  moreover have "fold rep_step (ps @ [p]) id z = fold rep_step (ps @ [p]) id w" if "(z, w) \<in> ?E'\<^sup>*"
    using that
  proof (induction rule: rtrancl_induct)
    case (step u v)
    from step.hyps(2) consider "(u, v) \<in> ?E" | "(u, v) = (a, b)" | "(u, v) = (b, a)" using p by auto
    then have "fold rep_step (ps @ [p]) id u = fold rep_step (ps @ [p]) id v"
    proof cases
      case 1
      then have "?f u = ?f v" using snoc.IH by blast
      then show ?thesis by (simp add: rep_step_def)
    qed (auto simp: rep_step_def p)
    from step.IH this show ?case by (rule trans)
  qed simp
  ultimately show ?case by blast
qed simp

subsection \<open>Properties\<close>

text \<open>
  Property C22.  After any sequence of unions and finds, \<^verbatim>\<open>find\<close> returns for every value, and two
  values have the same representative exactly when the pairs that were united connect them.
\<close>

theorem union_find_closure:
  assumes "uf_run ps u"
  shows "(\<exists>y u'. uf_find x u = Some (y, u')) \<and>
    (map_option fst (uf_find x u) = map_option fst (uf_find y u) \<longleftrightarrow>
       (x, y) \<in> (set ps \<union> (set ps)\<inverse>)\<^sup>*)"
proof -
  have "\<exists>y u'. uf_find x u = Some (y, u')" using uf_run_rep [OF assms] uf_find_keeps [of u x] by blast
  moreover have "found u x = found u y \<longleftrightarrow> (x, y) \<in> (set ps \<union> (set ps)\<inverse>)\<^sup>*"
    using uf_run_rep [OF assms] rep_step_classes [of ps x y] by simp
  ultimately show ?thesis by (simp add: found_def)
qed

text \<open>Three unions, the last of two values that are already together.\<close>

definition uf_example :: "nat UnionFind" where
  "uf_example = the (do { u \<leftarrow> uf_union 1 2 uf_new; u \<leftarrow> uf_union 3 4 u; uf_union 5 5 u })"

lemma uf_example_run: "uf_run [(1, 2), (3, 4), (5, 5)] uf_example"
proof -
  obtain u1 where u1: "uf_union 1 (2 :: nat) uf_new = Some u1" "uf_inv u1"
    using uf_union_spec [OF uf_inv_new, of 1 "2 :: nat"] by blast
  obtain u2 where u2: "uf_union 3 4 u1 = Some u2" using uf_union_spec [OF u1(2)] by blast
  have "uf_example = u2" using u1 u2 by (simp add: uf_example_def) (simp add: uf_union_def)
  moreover have "uf_run ([] @ [(1, 2)]) u1" by (rule uf_run.union [OF uf_run.new u1(1)])
  then have "uf_run (([] @ [(1, 2)]) @ [(3, 4)]) u2" by (rule uf_run.union [OF _ u2])
  then have "uf_run ((([] @ [(1, 2)]) @ [(3, 4)]) @ [(5, 5)]) u2"
    by (rule uf_run.union) (simp add: uf_union_def)
  ultimately show ?thesis by simp
qed

theorem union_find_closure_witness:
  "(\<exists>y u'. uf_find 2 uf_example = Some (y, u')) \<and>
    (map_option fst (uf_find 2 uf_example) = map_option fst (uf_find 4 uf_example) \<longleftrightarrow>
       (2 :: nat, 4) \<in> (set [(1, 2), (3, 4), (5, 5)] \<union> (set [(1, 2), (3, 4), (5, 5)])\<inverse>)\<^sup>*)"
  by (rule union_find_closure [OF uf_example_run])

text \<open>
  \<^verbatim>\<open>union(a, b)\<close> never panics on a structure built by the operations, and it makes the
  representative of \<^verbatim>\<open>a\<close> the representative of every value of the two merged sets, leaving all other
  representatives as they were; \<^verbatim>\<open>find\<close> changes no representative.
\<close>

theorem union_keeps_representative_of_a:
  assumes "uf_run ps u"
  shows "\<exists>u'. uf_union a b u = Some u' \<and>
    (\<forall>z. map_option fst (uf_find z u') =
       (if map_option fst (uf_find z u) = map_option fst (uf_find b u)
        then map_option fst (uf_find a u) else map_option fst (uf_find z u))) \<and>
    (\<forall>y w z. uf_find z u = Some (y, w) \<longrightarrow>
       (\<forall>v. map_option fst (uf_find v w) = map_option fst (uf_find v u)))"
proof -
  have "uf_inv u" using uf_run_rep [OF assms] by blast
  note inv = this
  have "\<forall>v. found w v = found u v" if "uf_find z u = Some (y, w)" for y w z
    using uf_find_keeps [OF inv, of z] that by auto
  with uf_union_spec [OF inv, of a b] show ?thesis unfolding found_def by blast
qed

theorem union_keeps_representative_of_a_witness:
  "\<exists>u'. uf_union 2 4 uf_example = Some u' \<and>
    (\<forall>z. map_option fst (uf_find z u') =
       (if map_option fst (uf_find z uf_example) = map_option fst (uf_find 4 uf_example)
        then map_option fst (uf_find 2 uf_example) else map_option fst (uf_find z uf_example))) \<and>
    (\<forall>y w z. uf_find z uf_example = Some (y, w) \<longrightarrow>
       (\<forall>v. map_option fst (uf_find v w) = map_option fst (uf_find v uf_example)))"
  by (rule union_keeps_representative_of_a [OF uf_example_run])

text \<open>
  Property C23.  Linking by size keeps every chain of parent links logarithmic in its own tree: the size
  that a root records is the number of nodes below it, and a node at distance \<^term>\<open>n\<close> from its root lies
  in a tree of at least \<open>2 ^ n\<close> nodes.
\<close>

theorem union_find_log_height:
  assumes "uf_run ps u" and "root_in (uf_nodes u) i n r"
  shows "\<exists>root. uf_nodes u ! r = Root root \<and> root_size root = card (tree (uf_nodes u) r) \<and> i \<in> tree (uf_nodes u) r \<and>
    2 ^ n \<le> card (tree (uf_nodes u) r)"
proof -
  obtain root where r: "uf_nodes u ! r = Root root" using root_in_lt [OF assms(2)] by blast
  then have "root_size root = card (tree (uf_nodes u) r) \<and> 2 ^ n \<le> root_size root"
    using uf_run_rep [OF assms(1)] assms(2) unfolding uf_inv_def roots_ok_def by blast
  moreover have "i \<in> tree (uf_nodes u) r" using assms(2) by (auto simp: tree_def)
  ultimately show ?thesis using r by simp
qed

definition uf_example2 :: "nat UnionFind" where
  "uf_example2 = \<lparr>uf_idx_map = [1 \<mapsto> 0, 2 \<mapsto> 1],
     uf_nodes = [Root \<lparr>root_size = 2, representative = 1\<rparr>, Child 0]\<rparr>"

theorem union_find_log_height_witness:
  "\<exists>root. uf_nodes uf_example2 ! 0 = Root root \<and> root_size root = card (tree (uf_nodes uf_example2) 0) \<and>
    1 \<in> tree (uf_nodes uf_example2) 0 \<and> 2 ^ Suc 0 \<le> card (tree (uf_nodes uf_example2) 0)"
proof -
  have "uf_union 1 2 uf_new = Some uf_example2"
    by (simp add: uf_union_def uf_new_def uf_example2_def map_or_create_def uf_link_def find_root.simps)
  then have run: "uf_run ([] @ [(1, 2)]) uf_example2" by (rule uf_run.union [OF uf_run.new])
  have r: "root_in (uf_nodes uf_example2) 0 0 0" by (rule root_in.root) (auto simp: uf_example2_def)
  have "root_in (uf_nodes uf_example2) 1 (Suc 0) 0"
    by (rule root_in.child [OF _ _ r]) (auto simp: uf_example2_def)
  then show ?thesis by (rule union_find_log_height [OF run])
qed

end
