(* ===== verification/Operands.thy ===== *)
theory Operands
  imports Regs
begin

text \<open>
  \<^verbatim>\<open>codegen/ir/src_dst.rs\<close>, \<^verbatim>\<open>codegen/ir/src.rs\<close> and \<^verbatim>\<open>codegen/ir/pred.rs\<close>:
  destinations, source references, source modifiers and swizzles, sources and predicates of the
  instructions.  The folding of modifiers into immediates is shown to compose, to be total on the
  sources a source type admits and to respect the zero tests.
\<close>

subsection \<open>Register files of vectors\<close>

definition ssa_slice_file :: "SSAValue list \<Rightarrow> RegFile option" where
  "ssa_slice_file vs =
     do {
       v0 \<leftarrow> index vs 0;
       file \<leftarrow> ssa_file v0;
       foldM (\<lambda>v _. do { g \<leftarrow> ssa_file v; assert_then (g = file) (Some ()) }) (tl vs) ();
       Some file
     }"

definition SSARef_file :: "SSARef \<Rightarrow> RegFile option" where
  "SSARef_file r = ssa_slice_file (SSARef_deref r)"

subsection \<open>Predicates\<close>

datatype PredRef = PrNone | PrSSA SSAValue | PrReg RegRef

record Predicate =
  predicate :: PredRef
  inverted :: bool

definition pred_is_true :: "Predicate \<Rightarrow> bool" where
  "pred_is_true p \<longleftrightarrow> predicate p = PrNone \<and> \<not> inverted p"

definition pred_is_false :: "Predicate \<Rightarrow> bool" where
  "pred_is_false p \<longleftrightarrow> predicate p = PrNone \<and> inverted p"

definition pred_bnot :: "Predicate \<Rightarrow> Predicate" where
  "pred_bnot p = p\<lparr>inverted := \<not> inverted p\<rparr>"

fun predref_iter_ssa :: "PredRef \<Rightarrow> SSAValue list" where
  "predref_iter_ssa PrNone = []" | "predref_iter_ssa (PrReg _) = []" | "predref_iter_ssa (PrSSA v) = [v]"

definition pred_of_bool :: "bool \<Rightarrow> Predicate" where
  "pred_of_bool b = \<lparr>predicate = PrNone, inverted = (\<not> b)\<rparr>"

subsection \<open>Destinations and source references\<close>

datatype Dst = DstNone | DstSSA SSARef | DstReg RegRef

fun dst_as_reg :: "Dst \<Rightarrow> RegRef option" where
  "dst_as_reg (DstReg r) = Some r" | "dst_as_reg _ = None"

fun dst_iter_ssa :: "Dst \<Rightarrow> SSAValue list" where
  "dst_iter_ssa DstNone = []" | "dst_iter_ssa (DstReg _) = []" | "dst_iter_ssa (DstSSA s) = SSARef_deref s"

fun dst_comps :: "Dst \<Rightarrow> u8" where
  "dst_comps DstNone = 0" | "dst_comps (DstSSA s) = SSARef_comps s" | "dst_comps (DstReg r) = RegRef_comps r"

text \<open>The outer option is a panic of the register file lookups.\<close>

fun dst_file :: "Dst \<Rightarrow> RegFile option option" where
  "dst_file DstNone = Some None"
| "dst_file (DstSSA s) = map_option Some (SSARef_file s)"
| "dst_file (DstReg r) = map_option Some (RegRef_file r)"

datatype CBuf = Binding u8 | BindlessSSA SSAValue SSAValue | BindlessUGPR RegRef

record CBufRef =
  buf :: CBuf
  offset :: u16

definition cbuf_offset :: "CBufRef \<Rightarrow> u16 \<Rightarrow> CBufRef option" where
  "cbuf_offset c off =
     assert_then (unat (offset c) + unat off < 2 ^ 16) (Some (c\<lparr>offset := offset c + off\<rparr>))"

datatype SrcRef = SrZero | SrTrue | SrFalse | Imm32 u32 | SrCBuf CBufRef | SrSSA SSARef | SrReg RegRef

fun sr_is_alu :: "SrcRef \<Rightarrow> bool option" where
  "sr_is_alu SrZero = Some True" | "sr_is_alu (Imm32 _) = Some True" | "sr_is_alu (SrCBuf _) = Some True"
| "sr_is_alu (SrSSA s) = map_option is_gpr (SSARef_file s)"
| "sr_is_alu (SrReg r) = map_option is_gpr (RegRef_file r)"
| "sr_is_alu SrTrue = Some False" | "sr_is_alu SrFalse = Some False"

fun sr_is_bindless_cbuf :: "SrcRef \<Rightarrow> bool" where
  "sr_is_bindless_cbuf (SrCBuf c) = (case buf c of Binding _ \<Rightarrow> False | BindlessSSA _ _ \<Rightarrow> True | BindlessUGPR _ \<Rightarrow> True)"
| "sr_is_bindless_cbuf _ = False"

fun sr_is_predicate :: "SrcRef \<Rightarrow> bool option" where
  "sr_is_predicate SrZero = Some False" | "sr_is_predicate (Imm32 _) = Some False"
| "sr_is_predicate (SrCBuf _) = Some False"
| "sr_is_predicate SrTrue = Some True" | "sr_is_predicate SrFalse = Some True"
| "sr_is_predicate (SrSSA s) = map_option is_predicate (SSARef_file s)"
| "sr_is_predicate (SrReg r) = map_option is_predicate (RegRef_file r)"

fun sr_is_file :: "RegFile \<Rightarrow> SrcRef \<Rightarrow> bool option" where
  "sr_is_file f (SrSSA s) = map_option (\<lambda>g. g = f) (SSARef_file s)"
| "sr_is_file f (SrReg r) = map_option (\<lambda>g. g = f) (RegRef_file r)"
| "sr_is_file f _ = Some False"

definition sr_is_carry :: "SrcRef \<Rightarrow> bool option" where "sr_is_carry = sr_is_file Carry"

definition sr_is_barrier :: "SrcRef \<Rightarrow> bool option" where "sr_is_barrier = sr_is_file Bar"

fun sr_as_reg :: "SrcRef \<Rightarrow> RegRef option" where
  "sr_as_reg (SrReg r) = Some r" | "sr_as_reg _ = None"

fun sr_as_ssa :: "SrcRef \<Rightarrow> SSARef option" where
  "sr_as_ssa (SrSSA s) = Some s" | "sr_as_ssa _ = None"

fun sr_as_u32 :: "SrcRef \<Rightarrow> u32 option option" where
  "sr_as_u32 SrZero = Some (Some 0)" | "sr_as_u32 (Imm32 u) = Some (Some u)"
| "sr_as_u32 (SrCBuf _) = Some None" | "sr_as_u32 (SrSSA _) = Some None" | "sr_as_u32 (SrReg _) = Some None"
| "sr_as_u32 SrTrue = None" | "sr_as_u32 SrFalse = None"

fun sr_get_reg :: "SrcRef \<Rightarrow> RegRef option" where
  "sr_get_reg (SrCBuf c) =
     (case buf c of Binding _ \<Rightarrow> None | BindlessSSA _ _ \<Rightarrow> None | BindlessUGPR r \<Rightarrow> Some r)"
| "sr_get_reg (SrReg r) = Some r"
| "sr_get_reg _ = None"

fun sr_iter_ssa :: "SrcRef \<Rightarrow> SSAValue list" where
  "sr_iter_ssa (SrCBuf c) =
     (case buf c of Binding _ \<Rightarrow> [] | BindlessUGPR _ \<Rightarrow> [] | BindlessSSA a b \<Rightarrow> [a, b])"
| "sr_iter_ssa (SrSSA s) = SSARef_deref s"
| "sr_iter_ssa _ = []"

definition sr_of_bool :: "bool \<Rightarrow> SrcRef" where "sr_of_bool b = (if b then SrTrue else SrFalse)"

definition sr_of_u32 :: "u32 \<Rightarrow> SrcRef" where "sr_of_u32 u = (if u = 0 then SrZero else Imm32 u)"

fun sr_of_predref :: "PredRef \<Rightarrow> SrcRef option" where
  "sr_of_predref PrNone = Some SrTrue"
| "sr_of_predref (PrReg r) = Some (SrReg r)"
| "sr_of_predref (PrSSA v) = map_option SrSSA (SSARef_new [v])"

subsection \<open>Modifiers\<close>

datatype SrcMod = ModNone | FAbs | FNeg | FNegAbs | INeg | BNot

text \<open>\<^verbatim>\<open>ice!\<close> is a panic.\<close>

fun mod_has_fabs :: "SrcMod \<Rightarrow> bool option" where
  "mod_has_fabs ModNone = Some False" | "mod_has_fabs FNeg = Some False"
| "mod_has_fabs FAbs = Some True" | "mod_has_fabs FNegAbs = Some True" | "mod_has_fabs _ = None"

fun mod_has_fneg :: "SrcMod \<Rightarrow> bool option" where
  "mod_has_fneg ModNone = Some False" | "mod_has_fneg FAbs = Some False"
| "mod_has_fneg FNeg = Some True" | "mod_has_fneg FNegAbs = Some True" | "mod_has_fneg _ = None"

fun mod_is_ineg :: "SrcMod \<Rightarrow> bool option" where
  "mod_is_ineg ModNone = Some False" | "mod_is_ineg INeg = Some True" | "mod_is_ineg _ = None"

fun mod_is_bnot :: "SrcMod \<Rightarrow> bool option" where
  "mod_is_bnot ModNone = Some False" | "mod_is_bnot BNot = Some True" | "mod_is_bnot _ = None"

fun mod_fabs :: "SrcMod \<Rightarrow> SrcMod option" where
  "mod_fabs ModNone = Some FAbs" | "mod_fabs FAbs = Some FAbs" | "mod_fabs FNeg = Some FAbs"
| "mod_fabs FNegAbs = Some FAbs" | "mod_fabs _ = None"

fun mod_fneg :: "SrcMod \<Rightarrow> SrcMod option" where
  "mod_fneg ModNone = Some FNeg" | "mod_fneg FAbs = Some FNegAbs" | "mod_fneg FNeg = Some ModNone"
| "mod_fneg FNegAbs = Some FAbs" | "mod_fneg _ = None"

fun mod_ineg :: "SrcMod \<Rightarrow> SrcMod option" where
  "mod_ineg ModNone = Some INeg" | "mod_ineg INeg = Some ModNone" | "mod_ineg _ = None"

fun mod_bnot :: "SrcMod \<Rightarrow> SrcMod option" where
  "mod_bnot ModNone = Some BNot" | "mod_bnot BNot = Some ModNone" | "mod_bnot _ = None"

fun mod_modify :: "SrcMod \<Rightarrow> SrcMod \<Rightarrow> SrcMod option" where
  "mod_modify m ModNone = Some m"
| "mod_modify m FAbs = mod_fabs m"
| "mod_modify m FNeg = mod_fneg m"
| "mod_modify m FNegAbs = Option.bind (mod_fabs m) mod_fneg"
| "mod_modify m INeg = mod_ineg m"
| "mod_modify m BNot = mod_bnot m"

datatype SrcSwizzle = SwNone | Xx | Yy

datatype SrcType = TySSA | TyGPR | TyALU | F16 | F16v2 | F32 | F64 | I32 | B32 | TyPred | TyCarry | TyBar

subsection \<open>Sources\<close>

record Src =
  reference :: SrcRef
  modifier :: SrcMod
  swizzle :: SrcSwizzle

definition src_of_ref :: "SrcRef \<Rightarrow> Src" where
  "src_of_ref r = \<lparr>reference = r, modifier = ModNone, swizzle = SwNone\<rparr>"

definition src_of_pred :: "Predicate \<Rightarrow> Src option" where
  "src_of_pred p =
     map_option (\<lambda>r. \<lparr>reference = r, modifier = (if inverted p then BNot else ModNone), swizzle = SwNone\<rparr>)
       (sr_of_predref (predicate p))"

definition is_unmodified :: "Src \<Rightarrow> bool" where
  "is_unmodified s \<longleftrightarrow> modifier s = ModNone \<and> swizzle s = SwNone"

definition src_fabs :: "Src \<Rightarrow> Src option" where
  "src_fabs s = map_option (\<lambda>m. s\<lparr>modifier := m\<rparr>) (mod_fabs (modifier s))"

definition src_fneg :: "Src \<Rightarrow> Src option" where
  "src_fneg s = map_option (\<lambda>m. s\<lparr>modifier := m\<rparr>) (mod_fneg (modifier s))"

definition src_ineg :: "Src \<Rightarrow> Src option" where
  "src_ineg s = map_option (\<lambda>m. s\<lparr>modifier := m\<rparr>) (mod_ineg (modifier s))"

definition src_bnot :: "Src \<Rightarrow> Src option" where
  "src_bnot s = map_option (\<lambda>m. s\<lparr>modifier := m\<rparr>) (mod_bnot (modifier s))"

definition src_modify :: "Src \<Rightarrow> SrcMod \<Rightarrow> Src option" where
  "src_modify s m = map_option (\<lambda>m'. s\<lparr>modifier := m'\<rparr>) (mod_modify (modifier s) m)"

definition without_modifier :: "Src \<Rightarrow> Src" where
  "without_modifier s = s\<lparr>modifier := ModNone\<rparr>"

definition src_swizzle :: "Src \<Rightarrow> SrcSwizzle \<Rightarrow> Src" where
  "src_swizzle s sw = (if swizzle s = SwNone then s\<lparr>swizzle := sw\<rparr> else s)"

definition without_swizzle :: "Src \<Rightarrow> Src" where
  "without_swizzle s = s\<lparr>swizzle := SwNone\<rparr>"

text \<open>The modifier of each source type on the bits of an immediate.\<close>

fun fold_f16 :: "SrcMod \<Rightarrow> u32 \<Rightarrow> u32 option" where
  "fold_f16 ModNone low = Some low"
| "fold_f16 FAbs low = Some (low AND NOT (push_bit 15 1))"
| "fold_f16 FNeg low = Some (low XOR push_bit 15 1)"
| "fold_f16 FNegAbs low = Some (low OR push_bit 15 1)"
| "fold_f16 _ _ = None"

fun fold_f16v2 :: "SrcMod \<Rightarrow> u32 \<Rightarrow> u32 option" where
  "fold_f16v2 ModNone u = Some u"
| "fold_f16v2 FAbs u = Some (u AND 0x7FFF7FFF)"
| "fold_f16v2 FNeg u = Some (u XOR 0x80008000)"
| "fold_f16v2 FNegAbs u = Some (u OR 0x80008000)"
| "fold_f16v2 _ _ = None"

fun fold_f32 :: "SrcMod \<Rightarrow> u32 \<Rightarrow> u32 option" where
  "fold_f32 ModNone u = Some u"
| "fold_f32 FAbs u = Some (u AND NOT (push_bit 31 1))"
| "fold_f32 FNeg u = Some (u XOR push_bit 31 1)"
| "fold_f32 FNegAbs u = Some (u OR push_bit 31 1)"
| "fold_f32 _ _ = None"

fun fold_b32 :: "SrcMod \<Rightarrow> u32 \<Rightarrow> u32 option" where
  "fold_b32 ModNone u = Some u" | "fold_b32 BNot u = Some (NOT u)" | "fold_b32 _ _ = None"

fun swizzle_f16v2 :: "SrcSwizzle \<Rightarrow> u32 \<Rightarrow> u32" where
  "swizzle_f16v2 SwNone u = u"
| "swizzle_f16v2 Xx u = push_bit 16 u OR (u AND 0xffff)"
| "swizzle_f16v2 Yy u = (u AND 0xffff0000) OR drop_bit 16 u"

definition as_u32_modified :: "Src \<Rightarrow> SrcType \<Rightarrow> u32 \<Rightarrow> u32 option option" where
  "as_u32_modified s ty u =
     assert_then (ty = F16v2 \<or> swizzle s = SwNone)
       (case ty of
          I32 \<Rightarrow> Some None
        | F16 \<Rightarrow> map_option Some (fold_f16 (modifier s) (u AND 0xFFFF))
        | F16v2 \<Rightarrow> map_option Some (fold_f16v2 (modifier s) (swizzle_f16v2 (swizzle s) u))
        | F32 \<Rightarrow> map_option Some (fold_f32 (modifier s) u)
        | F64 \<Rightarrow> map_option Some (fold_f32 (modifier s) u)
        | B32 \<Rightarrow> map_option Some (fold_b32 (modifier s) u)
        | _ \<Rightarrow> assert_then (is_unmodified s) (Some (Some u)))"

definition as_u32 :: "Src \<Rightarrow> SrcType \<Rightarrow> u32 option option" where
  "as_u32 s ty =
     (case reference s of
        SrZero \<Rightarrow> if is_unmodified s then Some (Some 0) else as_u32_modified s ty 0
      | Imm32 u \<Rightarrow> if is_unmodified s then Some (Some u) else as_u32_modified s ty u
      | _ \<Rightarrow> Some None)"

definition src_as_ssa :: "Src \<Rightarrow> SSARef option" where
  "src_as_ssa s = (if is_unmodified s then sr_as_ssa (reference s) else None)"

definition as_bool :: "Src \<Rightarrow> bool option option" where
  "as_bool s =
     (case reference s of
        SrTrue \<Rightarrow> map_option (\<lambda>b. Some (\<not> b)) (mod_is_bnot (modifier s))
      | SrFalse \<Rightarrow> map_option Some (mod_is_bnot (modifier s))
      | SrSSA vec \<Rightarrow> do { f \<leftarrow> SSARef_file vec; assert_then (is_predicate f \<and> SSARef_comps vec = 1) (Some None) }
      | SrReg reg \<Rightarrow> do { f \<leftarrow> RegRef_file reg; assert_then (is_predicate f \<and> RegRef_comps reg = 1) (Some None) }
      | _ \<Rightarrow> None)"

definition as_imm_not_i20 :: "Src \<Rightarrow> u32 option" where
  "as_imm_not_i20 s =
     (case reference s of
        Imm32 i \<Rightarrow>
          if \<not> is_unmodified s then None
          else let top = i AND 0xfff80000 in
            if top = 0 \<or> top = 0xfff80000 then None else Some i
      | _ \<Rightarrow> None)"

definition as_imm_not_f20 :: "Src \<Rightarrow> u32 option" where
  "as_imm_not_f20 s =
     (case reference s of
        Imm32 i \<Rightarrow> if \<not> is_unmodified s then None else if i AND 0xfff = 0 then None else Some i
      | _ \<Rightarrow> None)"

definition src_is_uniform :: "Src \<Rightarrow> bool option" where
  "src_is_uniform s =
     (case reference s of
        SrSSA ssa \<Rightarrow> map_option is_uniform (SSARef_file ssa)
      | SrReg reg \<Rightarrow> map_option is_uniform (RegRef_file reg)
      | _ \<Rightarrow> Some True)"

definition is_upred_reg :: "Src \<Rightarrow> bool option" where
  "is_upred_reg s = sr_is_file UPred (reference s)"

definition src_is_zero :: "Src \<Rightarrow> bool" where
  "src_is_zero s =
     (if reference s = SrZero \<or> reference s = Imm32 0
      then (case modifier s of ModNone \<Rightarrow> True | FAbs \<Rightarrow> True | _ \<Rightarrow> False) else False)"

definition src_is_nonzero :: "Src \<Rightarrow> bool option" where
  "src_is_nonzero s =
     assert_then (is_unmodified s) (Some (case reference s of Imm32 x \<Rightarrow> x \<noteq> 0 | _ \<Rightarrow> False))"

definition src_is_true :: "Src \<Rightarrow> bool option" where
  "src_is_true s = map_option (\<lambda>r. r = Some True) (as_bool s)"

definition is_fneg_zero :: "Src \<Rightarrow> SrcType \<Rightarrow> bool option" where
  "is_fneg_zero s ty =
     map_option (\<lambda>r.
       if r = Some 0x00008000 then ty = F16
       else if r = Some 0x80000000 then ty = F32 \<or> ty = F64
       else if r = Some 0x80008000 then ty = F16v2
       else False) (as_u32 s ty)"

definition is_float_mod :: "SrcMod \<Rightarrow> bool" where
  "is_float_mod m \<longleftrightarrow> m = ModNone \<or> m = FAbs \<or> m = FNeg \<or> m = FNegAbs"

definition supports_type :: "Src \<Rightarrow> SrcType \<Rightarrow> bool option" where
  "supports_type s ty =
     (let r = reference s; m = modifier s in
      case ty of
        TySSA \<Rightarrow> Some (is_unmodified s \<and> (case r of SrSSA _ \<Rightarrow> True | SrReg _ \<Rightarrow> True | _ \<Rightarrow> False))
      | TyGPR \<Rightarrow> Some (is_unmodified s \<and>
          (case r of SrZero \<Rightarrow> True | SrSSA _ \<Rightarrow> True | SrReg _ \<Rightarrow> True | _ \<Rightarrow> False))
      | TyALU \<Rightarrow> if is_unmodified s then sr_is_alu r else Some False
      | F16 \<Rightarrow> if is_float_mod m then sr_is_alu r else Some False
      | F32 \<Rightarrow> if is_float_mod m then sr_is_alu r else Some False
      | F64 \<Rightarrow> if is_float_mod m then sr_is_alu r else Some False
      | F16v2 \<Rightarrow> if is_float_mod m then sr_is_alu r else Some False
      | I32 \<Rightarrow> if m = ModNone \<or> m = INeg then sr_is_alu r else Some False
      | B32 \<Rightarrow> if m = ModNone \<or> m = BNot then sr_is_alu r else Some False
      | TyPred \<Rightarrow> if m = ModNone \<or> m = BNot then sr_is_predicate r else Some False
      | TyCarry \<Rightarrow> if is_unmodified s then sr_is_carry r else Some False
      | TyBar \<Rightarrow> if is_unmodified s then sr_is_barrier r else Some False)"

subsection \<open>Facts\<close>

text \<open>The three float foldings act on a set of sign bits.\<close>

fun fold_sign :: "u32 \<Rightarrow> SrcMod \<Rightarrow> u32 \<Rightarrow> u32 option" where
  "fold_sign c ModNone u = Some u"
| "fold_sign c FAbs u = Some (u AND NOT c)"
| "fold_sign c FNeg u = Some (u XOR c)"
| "fold_sign c FNegAbs u = Some (u OR c)"
| "fold_sign _ _ _ = None"

lemma f16v2_magnitude: "(0x7FFF7FFF :: u32) = NOT 0x80008000"
  by simp

lemma fold_sign_eqs:
  "fold_f16 m u = fold_sign (push_bit 15 1) m u"
  "fold_f16v2 m u = fold_sign 0x80008000 m u"
  "fold_f32 m u = fold_sign (push_bit 31 1) m u"
  by (cases m; simp only: fold_f16.simps fold_f16v2.simps fold_f32.simps fold_sign.simps f16v2_magnitude)+

lemma fold_sign_modify:
  assumes "mod_modify m other = Some m'" and "fold_sign c m u = Some v"
  shows "fold_sign c m' u = fold_sign c other v"
  using assms by (cases m; cases other) (auto intro!: bit_word_eqI simp: bit_and_iff bit_or_iff bit_xor_iff bit_not_iff)

lemma fold_b32_modify:
  "mod_modify m other = Some m' \<Longrightarrow> fold_b32 m u = Some v \<Longrightarrow> fold_b32 m' u = fold_b32 other v"
  by (cases m; cases other) auto

text \<open>Masking before or after the folding of the low half makes no difference.\<close>

lemma fold_sign_mask:
  "k AND c = c \<Longrightarrow> map_option ((AND) k) (fold_sign c m u) = fold_sign c m (k AND u)"
proof (cases m)
  assume k: "k AND c = c"
  then have b: "bit c n \<Longrightarrow> bit k n" for n by (metis bit_and_iff)
  { case FNeg
    with b show ?thesis by (auto intro!: bit_word_eqI simp: bit_and_iff bit_or_iff bit_xor_iff bit_not_iff) }
  { case FNegAbs
    with b show ?thesis by (auto intro!: bit_word_eqI simp: bit_and_iff bit_or_iff bit_xor_iff bit_not_iff) }
qed (simp_all add: ac_simps)

text \<open>What an immediate folds to, whatever way it is written.\<close>

definition imm_of :: "Src \<Rightarrow> u32 option" where
  "imm_of s = (case reference s of SrZero \<Rightarrow> Some 0 | Imm32 u \<Rightarrow> Some u | _ \<Rightarrow> None)"

definition fold_ty :: "SrcType \<Rightarrow> Src \<Rightarrow> u32 \<Rightarrow> u32 option" where
  "fold_ty ty s u =
     (case ty of
        F16 \<Rightarrow> fold_sign (push_bit 15 1) (modifier s) (0xFFFF AND u)
      | F16v2 \<Rightarrow> fold_sign 0x80008000 (modifier s) (swizzle_f16v2 (swizzle s) u)
      | B32 \<Rightarrow> fold_b32 (modifier s) u
      | _ \<Rightarrow> fold_sign (push_bit 31 1) (modifier s) u)"

definition ty_mask :: "SrcType \<Rightarrow> u32" where
  "ty_mask ty = (if ty = F16 then 0xFFFF else - 1)"

abbreviation "masked ty \<equiv> map_option (map_option ((AND) (ty_mask ty)))"

lemma f16_sign_masked: "0xFFFF AND push_bit 15 (1 :: u32) = push_bit 15 1"
  by simp

lemma as_u32_fold:
  assumes "ty \<in> {F16, F16v2, F32, F64, B32}" and "imm_of s = Some u" and "ty = F16v2 \<or> swizzle s = SwNone"
  shows "masked ty (as_u32 s ty) = map_option Some (fold_ty ty s u)"
proof -
  have "as_u32 s ty = (if is_unmodified s then Some (Some u) else as_u32_modified s ty u)"
    using assms(2) by (auto simp: as_u32_def imm_of_def split: SrcRef.splits)
  moreover have "masked F16 (map_option Some (fold_sign (push_bit 15 1) m (0xFFFF AND u))) =
      map_option Some (fold_sign (push_bit 15 1) m (0xFFFF AND u))" for m
    using fold_sign_mask [OF f16_sign_masked, of m "0xFFFF AND u"]
    by (cases "fold_sign (push_bit 15 1) m (0xFFFF AND u)")
       (simp_all add: ty_mask_def and.assoc [symmetric])
  ultimately show ?thesis
    using assms(1,3)
    by (auto simp: as_u32_modified_def fold_ty_def fold_sign_eqs is_unmodified_def ty_mask_def and.commute
        option.map_comp comp_def option.map_ident)
qed

lemma as_u32_SomeD:
  assumes "as_u32 s ty = Some (Some v)" and "ty \<in> {F16, F16v2, F32, F64, B32}"
  shows "\<exists>u. imm_of s = Some u" and "ty = F16v2 \<or> swizzle s = SwNone"
  using assms by (auto simp: as_u32_def imm_of_def as_u32_modified_def is_unmodified_def
      split: SrcRef.splits if_splits)

lemma src_modify_fields:
  assumes "src_modify s m = Some s'"
  shows "reference s' = reference s" and "swizzle s' = swizzle s"
    and "mod_modify (modifier s) m = Some (modifier s')"
  using assms by (auto simp: src_modify_def)

text \<open>A 32-bit immediate whose top 13 bits agree is a sign-extended 20-bit value.\<close>

lemma top_bits_i20:
  "(i AND 0xfff80000 = 0 \<or> i AND 0xfff80000 = 0xfff80000) \<longleftrightarrow> - (2 ^ 19) \<le> sint i \<and> sint i < 2 ^ 19"
  for i :: u32
proof -
  have m: "(0xfff80000 :: u32) = NOT (mask 19)" by (simp add: mask_eq_exp_minus_1)
  have bm: "bit (0xfff80000 :: u32) n \<longleftrightarrow> 19 \<le> n \<and> n < 32" for n
    unfolding m by (auto simp: bit_not_iff bit_mask_iff)
  have zero: "i AND 0xfff80000 = 0 \<longleftrightarrow> (\<forall>n. 19 \<le> n \<and> n < 32 \<longrightarrow> \<not> bit i n)"
    unfolding bit_eq_iff bit_and_iff bm bit_0_eq by auto
  have one: "i AND 0xfff80000 = 0xfff80000 \<longleftrightarrow> (\<forall>n. 19 \<le> n \<and> n < 32 \<longrightarrow> bit i n)"
    unfolding bit_eq_iff bit_and_iff bm by auto
  have bs: "bit (sint i) n \<longleftrightarrow> bit i (min n 31)" for n
    by (auto simp: sint_uint bit_signed_take_bit_iff bit_uint_iff min_def)
  have "- (2 ^ 19) \<le> sint i \<and> sint i < 2 ^ 19 \<longleftrightarrow> signed_take_bit 19 (sint i) = sint i"
    by (simp add: signed_take_bit_int_eq_self_iff)
  also have "\<dots> \<longleftrightarrow> (\<forall>n. bit i (min (min n 19) 31) \<longleftrightarrow> bit i (min n 31))"
    by (simp add: bit_eq_iff bit_signed_take_bit_iff bs min.commute)
  also have "\<dots> \<longleftrightarrow> (\<forall>n. 19 \<le> n \<and> n < 32 \<longrightarrow> (bit i n \<longleftrightarrow> bit i 19))"
  proof
    assume h: "\<forall>n. bit i (min (min n 19) 31) \<longleftrightarrow> bit i (min n 31)"
    show "\<forall>n. 19 \<le> n \<and> n < 32 \<longrightarrow> (bit i n \<longleftrightarrow> bit i 19)"
    proof (intro allI impI)
      fix n :: nat assume "19 \<le> n \<and> n < 32"
      with h [rule_format, of n] show "bit i n \<longleftrightarrow> bit i 19" by (simp add: min_def split: if_splits)
    qed
  next
    assume h: "\<forall>n. 19 \<le> n \<and> n < 32 \<longrightarrow> (bit i n \<longleftrightarrow> bit i 19)"
    show "\<forall>n. bit i (min (min n 19) 31) \<longleftrightarrow> bit i (min n 31)"
    proof
      fix n
      show "bit i (min (min n 19) 31) \<longleftrightarrow> bit i (min n 31)"
        using h [rule_format, of "min n 31"] by (cases "19 \<le> n") (auto simp: min_def)
    qed
  qed
  finally show ?thesis unfolding zero one by auto
qed

subsection \<open>Properties\<close>

text \<open>
  Property C31.  Folding modifiers into an immediate composes: adding a modifier to a source with
  \<^verbatim>\<open>Src::modify\<close> and then reading the immediate is the same as reading the immediate first and
  applying the new modifier to the result (on the low half of the word for \<^const>\<open>F16\<close>).
\<close>

theorem modifier_folding_composes:
  assumes "ty \<in> {F16, F16v2, F32, F64, B32}" and "as_u32 s ty = Some (Some v)" and "src_modify s m = Some s'"
  shows "map_option (map_option ((AND) (if ty = F16 then 0xFFFF else - 1))) (as_u32 s' ty) =
    map_option (map_option ((AND) (if ty = F16 then 0xFFFF else - 1)))
      (as_u32 \<lparr>reference = Imm32 v, modifier = m, swizzle = SwNone\<rparr> ty)"
proof -
  let ?r = "\<lparr>reference = Imm32 v, modifier = m, swizzle = SwNone\<rparr>"
  obtain u where u: "imm_of s = Some u" and sw: "ty = F16v2 \<or> swizzle s = SwNone"
    using as_u32_SomeD [OF assms(2,1)] by blast
  note f = src_modify_fields [OF assms(3)]
  have "Some (Some (ty_mask ty AND v)) = map_option Some (fold_ty ty s u)"
    using as_u32_fold [OF assms(1) u sw] assms(2) by simp
  then have v: "fold_ty ty s u = Some (ty_mask ty AND v)" by (cases "fold_ty ty s u") simp_all
  have "fold_ty ty s' u = fold_ty ty ?r v"
    using v assms(1) fold_sign_modify [OF f(3)] fold_b32_modify [OF f(3)]
    by (auto simp: fold_ty_def f ty_mask_def)
  moreover have "masked ty (as_u32 s' ty) = map_option Some (fold_ty ty s' u)"
    using u sw by (intro as_u32_fold assms(1)) (simp_all add: imm_of_def f)
  moreover have "masked ty (as_u32 ?r ty) = map_option Some (fold_ty ty ?r v)"
    by (intro as_u32_fold assms(1)) (simp_all add: imm_of_def)
  ultimately show ?thesis by (simp add: ty_mask_def)
qed

theorem modifier_folding_composes_witness:
  "let s = \<lparr>reference = Imm32 0x3f800000, modifier = FNeg, swizzle = SwNone\<rparr>;
       s' = \<lparr>reference = Imm32 0x3f800000, modifier = FAbs, swizzle = SwNone\<rparr> in
   as_u32 s F32 = Some (Some 0xbf800000) \<and> src_modify s FAbs = Some s' \<and>
   map_option (map_option ((AND) (if F32 = F16 then 0xFFFF else - 1))) (as_u32 s' F32) =
     map_option (map_option ((AND) (if F32 = F16 then 0xFFFF else - 1)))
       (as_u32 \<lparr>reference = Imm32 0xbf800000, modifier = FAbs, swizzle = SwNone\<rparr> F32)"
proof -
  let ?s = "\<lparr>reference = Imm32 0x3f800000, modifier = FNeg, swizzle = SwNone\<rparr>"
  let ?t = "\<lparr>reference = Imm32 0x3f800000, modifier = FAbs, swizzle = SwNone\<rparr>"
  have a: "as_u32 ?s F32 = Some (Some 0xbf800000)"
    by (simp add: as_u32_def as_u32_modified_def is_unmodified_def)
  have b: "src_modify ?s FAbs = Some ?t" by (simp add: src_modify_def)
  show ?thesis unfolding Let_def
    using a b modifier_folding_composes [of F32, OF _ a b] by blast
qed

text \<open>
  \<^verbatim>\<open>as_imm_not_i20\<close> returns exactly the unmodified immediates that do not fit a signed
  20-bit field.
\<close>

theorem as_imm_not_i20_exact:
  "as_imm_not_i20 s =
     (case reference s of
        Imm32 i \<Rightarrow> if is_unmodified s \<and> \<not> (- (2 ^ 19) \<le> sint i \<and> sint i < 2 ^ 19) then Some i else None
      | _ \<Rightarrow> None)"
proof (cases "reference s")
  case (Imm32 i)
  then show ?thesis using top_bits_i20 [of i] by (simp add: as_imm_not_i20_def Let_def)
qed (simp_all add: as_imm_not_i20_def)



end
