(* ===== verification/Logic.thy ===== *)
theory Logic
  imports Operands
begin

text \<open>
  \<^verbatim>\<open>codegen/ir/types/cmp.rs\<close>, \<^verbatim>\<open>types/scalar.rs\<close> and the permute selectors of
  \<^verbatim>\<open>codegen/ir/op_shuffle.rs\<close>: comparison and predicate operators, three-input logic operations
  given by a truth table, integer types, byte selectors.  The table manipulations of the optimizer are
  shown to mean what they say on every bit of the operands.
\<close>

subsection \<open>Comparison operators and types\<close>

datatype PredSetOp = PAnd | POr | PXor

fun pso_eval :: "PredSetOp \<Rightarrow> bool \<Rightarrow> bool \<Rightarrow> bool" where
  "pso_eval PAnd a b = (a \<and> b)" | "pso_eval POr a b = (a \<or> b)" | "pso_eval PXor a b = (a \<noteq> b)"

definition pso_is_trivial :: "PredSetOp \<Rightarrow> Src \<Rightarrow> bool option" where
  "pso_is_trivial op accum =
     map_option (\<lambda>r. case r of None \<Rightarrow> False | Some b \<Rightarrow> (case op of PAnd \<Rightarrow> b | POr \<Rightarrow> \<not> b | PXor \<Rightarrow> \<not> b))
       (as_bool accum)"

datatype FloatCmpOp = OrdEq | OrdNe | OrdLt | OrdLe | OrdGt | OrdGe
  | UnordEq | UnordNe | UnordLt | UnordLe | UnordGt | UnordGe | IsNum | IsNan

fun fcmp_flip :: "FloatCmpOp \<Rightarrow> FloatCmpOp option" where
  "fcmp_flip OrdEq = Some OrdEq" | "fcmp_flip OrdNe = Some OrdNe"
| "fcmp_flip UnordEq = Some UnordEq" | "fcmp_flip UnordNe = Some UnordNe"
| "fcmp_flip OrdLt = Some OrdGt" | "fcmp_flip OrdLe = Some OrdGe"
| "fcmp_flip OrdGt = Some OrdLt" | "fcmp_flip OrdGe = Some OrdLe"
| "fcmp_flip UnordLt = Some UnordGt" | "fcmp_flip UnordLe = Some UnordGe"
| "fcmp_flip UnordGt = Some UnordLt" | "fcmp_flip UnordGe = Some UnordLe"
| "fcmp_flip IsNum = None" | "fcmp_flip IsNan = None"

datatype IntCmpOp = CFalse | CTrue | CEq | CNe | CLt | CLe | CGt | CGe

fun icmp_flip :: "IntCmpOp \<Rightarrow> IntCmpOp" where
  "icmp_flip CFalse = CFalse" | "icmp_flip CTrue = CTrue" | "icmp_flip CEq = CEq" | "icmp_flip CNe = CNe"
| "icmp_flip CLt = CGt" | "icmp_flip CLe = CGe" | "icmp_flip CGt = CLt" | "icmp_flip CGe = CLe"

datatype IntCmpType = CmpU32 | CmpI32

fun cmp_is_signed :: "IntCmpType \<Rightarrow> bool" where
  "cmp_is_signed CmpU32 = False" | "cmp_is_signed CmpI32 = True"

datatype IntType = U8 | I8 | U16 | I16 | U32 | S32 | U64 | S64

definition try_from_bits :: "nat \<Rightarrow> bool \<Rightarrow> IntType option" where
  "try_from_bits bits is_signed =
     (if bits = 8 then Some (if is_signed then I8 else U8)
      else if bits = 16 then Some (if is_signed then I16 else U16)
      else if bits = 32 then Some (if is_signed then S32 else U32)
      else if bits = 64 then Some (if is_signed then S64 else U64)
      else None)"

fun ity_is_signed :: "IntType \<Rightarrow> bool" where
  "ity_is_signed U8 = False" | "ity_is_signed U16 = False" | "ity_is_signed U32 = False" | "ity_is_signed U64 = False"
| "ity_is_signed I8 = True" | "ity_is_signed I16 = True" | "ity_is_signed S32 = True" | "ity_is_signed S64 = True"

fun ity_bits :: "IntType \<Rightarrow> nat" where
  "ity_bits U8 = 8" | "ity_bits I8 = 8" | "ity_bits U16 = 16" | "ity_bits I16 = 16"
| "ity_bits U32 = 32" | "ity_bits S32 = 32" | "ity_bits U64 = 64" | "ity_bits S64 = 64"

subsection \<open>Three-input logic\<close>

datatype LogicOp2 = LAnd | LOr | LXor | PassB

record LogicOp3 = lut :: u8

text \<open>\<^verbatim>\<open>SRC_MASKS\<close> and the shift that belongs to each mask.\<close>

definition SRC_MASKS :: "u8 list" where "SRC_MASKS = [0xf0, 0xcc, 0xaa]"

definition new_lut :: "(u8 \<Rightarrow> u8 \<Rightarrow> u8 \<Rightarrow> u8) \<Rightarrow> LogicOp3" where
  "new_lut f = \<lparr>lut = f (SRC_MASKS ! 0) (SRC_MASKS ! 1) (SRC_MASKS ! 2)\<rparr>"

definition new_const :: "bool \<Rightarrow> LogicOp3" where
  "new_const val = \<lparr>lut = (if val then NOT 0 else 0)\<rparr>"

fun to_lut :: "LogicOp2 \<Rightarrow> LogicOp3" where
  "to_lut LAnd = new_lut (\<lambda>x y _. x AND y)"
| "to_lut LOr = new_lut (\<lambda>x y _. x OR y)"
| "to_lut LXor = new_lut (\<lambda>x y _. x XOR y)"
| "to_lut PassB = new_lut (\<lambda>_ b _. b)"

definition src_used :: "LogicOp3 \<Rightarrow> nat \<Rightarrow> bool option" where
  "src_used op src_idx =
     do {
       m \<leftarrow> index SRC_MASKS src_idx;
       let shift = trailing_zeros m;
       Some (lut op AND NOT m \<noteq> drop_bit shift (lut op) AND NOT m)
     }"

definition fix_src :: "nat \<Rightarrow> bool \<Rightarrow> LogicOp3 \<Rightarrow> LogicOp3 option" where
  "fix_src src_idx val op =
     do {
       m \<leftarrow> index SRC_MASKS src_idx;
       let shift = trailing_zeros m;
       Some (if val
             then let t_bits = lut op AND m in op\<lparr>lut := t_bits OR drop_bit shift t_bits\<rparr>
             else let f_bits = lut op AND NOT m in op\<lparr>lut := push_bit shift f_bits OR f_bits\<rparr>)
     }"

definition invert_src :: "nat \<Rightarrow> LogicOp3 \<Rightarrow> LogicOp3 option" where
  "invert_src src_idx op =
     do {
       m \<leftarrow> index SRC_MASKS src_idx;
       let shift = trailing_zeros m;
       let t_bits = lut op AND m;
       let f_bits = lut op AND NOT m;
       Some (op\<lparr>lut := push_bit shift f_bits OR drop_bit shift t_bits\<rparr>)
     }"

definition lut_bit :: "LogicOp3 \<Rightarrow> nat \<Rightarrow> bool" where
  "lut_bit op k \<longleftrightarrow> lut op AND push_bit k 1 \<noteq> 0"

definition lop3_eval :: "LogicOp3 \<Rightarrow> 'a::len word \<Rightarrow> 'a word \<Rightarrow> 'a word \<Rightarrow> 'a word" where
  "lop3_eval op x y z =
     (let res = x AND NOT x;
          res = (if lut_bit op 0 then res OR (NOT x AND NOT y AND NOT z) else res);
          res = (if lut_bit op 1 then res OR (NOT x AND NOT y AND z) else res);
          res = (if lut_bit op 2 then res OR (NOT x AND y AND NOT z) else res);
          res = (if lut_bit op 3 then res OR (NOT x AND y AND z) else res);
          res = (if lut_bit op 4 then res OR (x AND NOT y AND NOT z) else res);
          res = (if lut_bit op 5 then res OR (x AND NOT y AND z) else res);
          res = (if lut_bit op 6 then res OR (x AND y AND NOT z) else res);
          res = (if lut_bit op 7 then res OR (x AND y AND z) else res)
      in res)"

subsection \<open>Byte selectors\<close>

datatype PrmtMode = Index | Forward4Extract | Backward4Extract | Replicate8
  | EdgeClampLeft | EdgeClampRight | Replicate16

record PrmtSelByte = psb :: u8

definition psb_is_valid :: "PrmtSelByte \<Rightarrow> bool" where "psb_is_valid s \<longleftrightarrow> psb s \<le> 0xf"

definition psb_new :: "nat \<Rightarrow> nat \<Rightarrow> bool \<Rightarrow> PrmtSelByte option" where
  "psb_new src_idx byte_idx msb =
     assert_then (src_idx < 2)
      (assert_then (byte_idx < 4)
        (let nib = push_bit 2 (word_of_nat src_idx) OR word_of_nat byte_idx in
         Some \<lparr>psb = (if msb then nib OR 0x8 else nib)\<rparr>))"

definition psb_src :: "PrmtSelByte \<Rightarrow> nat" where "psb_src s = unat (drop_bit 2 (psb s) AND 0x1)"

definition psb_byte :: "PrmtSelByte \<Rightarrow> nat" where "psb_byte s = unat (psb s AND 0x3)"

definition psb_msb :: "PrmtSelByte \<Rightarrow> bool" where "psb_msb s \<longleftrightarrow> psb s AND 0x8 \<noteq> 0"

text \<open>The arithmetic shift \<^verbatim>\<open>(sb as i8) >> 7\<close> copies the sign bit.\<close>

definition psb_fold_u32 :: "PrmtSelByte \<Rightarrow> u32 \<Rightarrow> u8" where
  "psb_fold_u32 s u =
     (let sb = ucast (drop_bit (psb_byte s * 8) u) :: u8 in
      if psb_msb s then signed_drop_bit 7 sb else sb)"

record PrmtSel = psel :: u16

definition psel_new :: "PrmtSelByte list \<Rightarrow> PrmtSel option" where
  "psel_new bytes =
     map_option (\<lambda>s. \<lparr>psel = s\<rparr>)
       (foldM (\<lambda>i sel. do {
           b \<leftarrow> index bytes i;
           assert_then (psb b \<le> 0xf) (Some (sel OR push_bit (i * 4) (ucast (psb b))))
         }) [0..<4] 0)"

definition psel_get :: "PrmtSel \<Rightarrow> nat \<Rightarrow> PrmtSelByte option" where
  "psel_get s byte_idx =
     assert_then (byte_idx < 4) (Some \<lparr>psb = ucast (drop_bit (byte_idx * 4) (psel s) AND 0xf)\<rparr>)"

subsection \<open>The truth table, bit by bit\<close>

definition row :: "bool \<Rightarrow> bool \<Rightarrow> bool \<Rightarrow> nat" where
  "row x y z = (if x then if y then if z then 7 else 6 else if z then 5 else 4
     else if y then if z then 3 else 2 else if z then 1 else 0)"

lemma lut_bit_bit: "k < 8 \<Longrightarrow> lut_bit op k \<longleftrightarrow> bit (lut op) k"
  by (simp add: lut_bit_def and_exp_eq_0_iff_not_bit push_bit_eq_mult)

lemma bit_lop3_eval:
  fixes x y z :: "'a::len word"
  assumes "n < LENGTH('a)"
  shows "bit (lop3_eval op x y z) n \<longleftrightarrow> bit (lut op) (row (bit x n) (bit y n) (bit z n))"
proof -
  have "bit (if c then a OR b else a) n \<longleftrightarrow> bit a n \<or> c \<and> bit b n" for c and a b :: "'a word"
    by (simp add: bit_or_iff)
  then show ?thesis using assms
    by (cases "bit x n"; cases "bit y n"; cases "bit z n")
       (simp_all add: lop3_eval_def Let_def bit_and_iff bit_not_iff row_def lut_bit_bit)
qed

lemma row_lt: "row x y z < 8"
  by (simp add: row_def)

lemma bit_double: "bit (w * 2) k \<longleftrightarrow> 0 < k \<and> k < 8 \<and> bit w (k - 1)" for w :: u8
proof -
  have "bit (push_bit 1 w) k \<longleftrightarrow> 0 < k \<and> k < 8 \<and> bit w (k - 1)" unfolding bit_push_bit_iff by auto
  then show ?thesis by (simp add: push_bit_eq_mult)
qed

text \<open>The operands with one of them replaced.\<close>

definition with_src :: "nat \<Rightarrow> 'a \<Rightarrow> 'a \<times> 'a \<times> 'a \<Rightarrow> 'a \<times> 'a \<times> 'a" where
  "with_src i v t = (case t of (x, y, z) \<Rightarrow>
     (if i = 0 then v else x, if i = 1 then v else y, if i = 2 then v else z))"

definition nth_src :: "nat \<Rightarrow> 'a \<times> 'a \<times> 'a \<Rightarrow> 'a" where
  "nth_src i t = (case t of (x, y, z) \<Rightarrow> if i = 0 then x else if i = 1 then y else z)"

abbreviation "eval3 op t \<equiv> lop3_eval op (fst t) (fst (snd t)) (snd (snd t))"
abbreviation "row3 t \<equiv> row (fst t) (fst (snd t)) (snd (snd t))"

lemma mask_shifts:
  "index SRC_MASKS 0 = Some 0xf0" "index SRC_MASKS 1 = Some 0xcc" "index SRC_MASKS (Suc 0) = Some 0xcc"
  "index SRC_MASKS 2 = Some 0xaa"
  "trailing_zeros (0xf0 :: u8) = 4" "trailing_zeros (0xcc :: u8) = 2" "trailing_zeros (0xaa :: u8) = 1"
  by (simp_all add: SRC_MASKS_def) code_simp+

lemma bit_3: "bit w (Suc (Suc (Suc 0))) \<longleftrightarrow> bit w 3" "bit w (Suc (Suc 0)) \<longleftrightarrow> bit w 2"
  by (simp_all add: numeral_3_eq_3 numeral_2_eq_2)

lemmas table_simps = bit_3 mask_shifts row_def with_src_def nth_src_def bit_and_iff bit_or_iff bit_xor_iff
  bit_not_iff bit_push_bit_iff bit_drop_bit_eq bit_double

lemma upto3: "i < 3 \<Longrightarrow> i = 0 \<or> i = 1 \<or> i = (2 :: nat)" by linarith

lemma bit_fix_src:
  assumes "i < 3"
  shows "\<exists>op'. fix_src i v op = Some op' \<and> (\<forall>t. bit (lut op') (row3 t) \<longleftrightarrow> bit (lut op) (row3 (with_src i v t)))"
proof -
  have "bit (lut (the (fix_src i v op))) (row x y z) \<longleftrightarrow> bit (lut op) (row3 (with_src i v (x, y, z)))" for x y z
    using upto3 [OF assms]
    by (elim disjE; cases x; cases y; cases z; cases v)
       (simp_all add: fix_src_def table_simps)
  moreover have "fix_src i v op \<noteq> None" using upto3 [OF assms] by (auto simp: fix_src_def mask_shifts)
  ultimately show ?thesis by auto
qed

lemma bit_invert_src:
  assumes "i < 3"
  shows "\<exists>op'. invert_src i op = Some op' \<and>
    (\<forall>t. bit (lut op') (row3 t) \<longleftrightarrow> bit (lut op) (row3 (with_src i (\<not> nth_src i t) t)))"
proof -
  have "bit (lut (the (invert_src i op))) (row x y z) \<longleftrightarrow>
      bit (lut op) (row3 (with_src i (\<not> nth_src i (x, y, z)) (x, y, z)))" for x y z
    using upto3 [OF assms]
    by (elim disjE; cases x; cases y; cases z) (simp_all add: invert_src_def table_simps)
  moreover have "invert_src i op \<noteq> None" using upto3 [OF assms] by (auto simp: invert_src_def mask_shifts)
  ultimately show ?thesis by auto
qed

lemma all_lt8: "(\<forall>k<8. P k) \<longleftrightarrow> P 0 \<and> P 1 \<and> P 2 \<and> P 3 \<and> P 4 \<and> P 5 \<and> P 6 \<and> P (7 :: nat)"
proof -
  have "k < 8 \<longleftrightarrow> k \<in> {0, 1, 2, 3, 4, 5, 6, 7}" for k :: nat by auto
  then show ?thesis by auto
qed

lemma u8_eq_iff: "v = w \<longleftrightarrow> (\<forall>k<8. bit v k \<longleftrightarrow> bit w k)" for v w :: u8
  by (auto intro: bit_word_eqI)

lemma src_used_bit:
  assumes "i < 3"
  shows "src_used op i = Some (\<exists>t. bit (lut op) (row3 (with_src i True t)) \<noteq> bit (lut op) (row3 (with_src i False t)))"
proof -
  have 0: "lut op AND NOT 0xf0 = drop_bit 4 (lut op) AND NOT 0xf0 \<longleftrightarrow>
      (\<forall>x y z. bit (lut op) (row3 (with_src 0 True (x, y, z))) = bit (lut op) (row3 (with_src 0 False (x, y, z))))"
    unfolding u8_eq_iff all_lt8 all_bool_eq by (simp add: table_simps) blast
  have 1: "lut op AND NOT 0xcc = drop_bit 2 (lut op) AND NOT 0xcc \<longleftrightarrow>
      (\<forall>x y z. bit (lut op) (row3 (with_src 1 True (x, y, z))) = bit (lut op) (row3 (with_src 1 False (x, y, z))))"
    unfolding u8_eq_iff all_lt8 all_bool_eq by (simp add: table_simps) blast
  have 2: "lut op AND NOT 0xaa = drop_bit 1 (lut op) AND NOT 0xaa \<longleftrightarrow>
      (\<forall>x y z. bit (lut op) (row3 (with_src 2 True (x, y, z))) = bit (lut op) (row3 (with_src 2 False (x, y, z))))"
    unfolding u8_eq_iff all_lt8 all_bool_eq by (simp add: table_simps) blast
  show ?thesis
    using upto3 [OF assms] 0 1 2 by (elim disjE) (simp_all only: src_used_def mask_shifts bind.bind_lunit Let_def split_paired_Ex, blast+)
qed

text \<open>Words bit by bit.\<close>

abbreviation "bits3 t n \<equiv> (bit (fst t) n, bit (fst (snd t)) n, bit (snd (snd t)) n)"

lemma bit_eval3: "n < 32 \<Longrightarrow> bit (eval3 op t) n \<longleftrightarrow> bit (lut op) (row3 (bits3 t n))" for t :: "u32 \<times> u32 \<times> u32"
  by (simp add: bit_lop3_eval)

lemma with_src_bits:
  fixes t :: "u32 \<times> u32 \<times> u32"
  shows "n < 32 \<Longrightarrow> bits3 (with_src i (if v then NOT 0 else 0) t) n = with_src i v (bits3 t n)"
    and "n < 32 \<Longrightarrow> bits3 (with_src i (NOT (nth_src i t)) t) n = with_src i (\<not> nth_src i (bits3 t n)) (bits3 t n)"
  by (cases t; simp add: with_src_def nth_src_def bit_not_iff)+

lemma u32_neq_bit: "v \<noteq> w \<Longrightarrow> \<exists>n<32. bit v n \<noteq> bit w n" for v w :: u32
  using bit_word_eqI [of v w] by auto

lemma eval3_eqI:
  "(\<And>n. n < 32 \<Longrightarrow> bit (lut op) (row3 (bits3 t n)) = bit (lut op') (row3 (bits3 t' n))) \<Longrightarrow> eval3 op t = eval3 op' t'"
  for t t' :: "u32 \<times> u32 \<times> u32"
  by (rule bit_word_eqI) (simp add: bit_lop3_eval)

lemma with_src_idem: "with_src i v (with_src i w t) = with_src i v t"
  by (cases t) (auto simp: with_src_def)

text \<open>A table entry that depends on a source shows in the words.\<close>

lemma table_depends:
  assumes "i < 3"
  shows "(\<exists>t. bit (lut op) (row3 (with_src i True t)) \<noteq> bit (lut op) (row3 (with_src i False t))) \<longleftrightarrow>
    (\<exists>t (w :: u32). eval3 op (with_src i w t) \<noteq> eval3 op t)"
proof -
  let ?b = "\<lambda>t. bit (lut op) (row3 t)"
  have ws: "with_src i (nth_src i t) t = t" for t :: "bool \<times> bool \<times> bool"
    using assms by (cases t) (auto simp: with_src_def nth_src_def)
  show "(\<exists>t. ?b (with_src i True t) \<noteq> ?b (with_src i False t)) \<longleftrightarrow> (\<exists>t (w :: u32). eval3 op (with_src i w t) \<noteq> eval3 op t)"
  proof
    assume "\<exists>t. ?b (with_src i True t) \<noteq> ?b (with_src i False t)"
    then obtain x y z where d: "?b (with_src i True (x, y, z)) \<noteq> ?b (with_src i False (x, y, z))" by auto
    let ?w = "\<lambda>b. if b then NOT 0 else 0 :: u32"
    let ?t = "(?w x, ?w y, ?w z)"
    have t0: "bits3 ?t 0 = (x, y, z)" by simp
    have "bit (eval3 op (with_src i (?w v) ?t)) 0 \<longleftrightarrow> ?b (with_src i v (x, y, z))" for v
      using bit_eval3 [of 0 op "with_src i (?w v) ?t"] with_src_bits(1) [of 0 i v ?t] t0 by simp
    then have "bit (eval3 op (with_src i (?w True) ?t)) 0 \<noteq> bit (eval3 op (with_src i (?w False) ?t)) 0"
      using d by blast
    then have "eval3 op (with_src i (?w True) ?t) \<noteq> eval3 op (with_src i (?w False) ?t)"
      by (rule contrapos_nn) (simp only:)
    then have "eval3 op (with_src i (?w True) (with_src i (?w False) ?t)) \<noteq> eval3 op (with_src i (?w False) ?t)"
      by (simp only: with_src_idem not_False_eq_True)
    then show "\<exists>t (w :: u32). eval3 op (with_src i w t) \<noteq> eval3 op t" by blast
  next
    assume "\<exists>t (w :: u32). eval3 op (with_src i w t) \<noteq> eval3 op t"
    then obtain t and w :: u32 where d: "eval3 op (with_src i w t) \<noteq> eval3 op t" by blast
    then obtain n where n: "n < 32" "bit (eval3 op (with_src i w t)) n \<noteq> bit (eval3 op t) n"
      using u32_neq_bit [OF d] by blast
    have "bits3 (with_src i w t) n = with_src i (bit w n) (bits3 t n)" by (cases t) (simp add: with_src_def)
    then have "?b (with_src i (bit w n) (bits3 t n)) \<noteq> ?b (with_src i (nth_src i (bits3 t n)) (bits3 t n))"
      using n(2) unfolding bit_eval3 [OF n(1)] ws by simp
    then show "\<exists>t. ?b (with_src i True t) \<noteq> ?b (with_src i False t)"
      by (cases "bit w n"; cases "nth_src i (bits3 t n)") auto
  qed
qed

subsection \<open>Properties\<close>

text \<open>
  The table of a two-input operation computes it: \<^verbatim>\<open>to_lut(op).eval(x, y, z)\<close> is the
  operation applied to the first two operands, on all words.
\<close>

theorem to_lut_eval:
  "lop3_eval (to_lut op) x y (z :: u32) =
     (case op of LAnd \<Rightarrow> x AND y | LOr \<Rightarrow> x OR y | LXor \<Rightarrow> x XOR y | PassB \<Rightarrow> y)"
proof (rule bit_word_eqI)
  fix n assume n: "n < LENGTH(32)"
  show "bit (lop3_eval (to_lut op) x y z) n \<longleftrightarrow>
      bit (case op of LAnd \<Rightarrow> x AND y | LOr \<Rightarrow> x OR y | LXor \<Rightarrow> x XOR y | PassB \<Rightarrow> y) n"
    unfolding bit_lop3_eval [OF n]
    by (cases op; cases "bit x n"; cases "bit y n"; cases "bit z n")
       (simp_all add: new_lut_def SRC_MASKS_def row_def bit_and_iff bit_or_iff bit_xor_iff)
qed

text \<open>
  Property C30.  \<^verbatim>\<open>fix_src\<close> specialises the table to a source that is all ones or all zeros,
  \<^verbatim>\<open>invert_src\<close> absorbs the complement of a source, and \<^verbatim>\<open>src_used\<close> tells exactly whether the
  result depends on a source.
\<close>

theorem lut_rewrites_sound:
  assumes "i < 3"
  shows "(\<exists>op'. fix_src i v op = Some op' \<and>
      (\<forall>t :: u32 \<times> u32 \<times> u32. eval3 op' t = eval3 op (with_src i (if v then NOT 0 else 0) t))) \<and>
    (\<exists>op'. invert_src i op = Some op' \<and> (\<forall>t :: u32 \<times> u32 \<times> u32. eval3 op' t = eval3 op (with_src i (NOT (nth_src i t)) t))) \<and>
    src_used op i = Some (\<exists>t (w :: u32). eval3 op (with_src i w t) \<noteq> eval3 op t)"
proof (intro conjI)
  obtain op' where f: "fix_src i v op = Some op'"
    "\<And>t. bit (lut op') (row3 t) \<longleftrightarrow> bit (lut op) (row3 (with_src i v t))" using bit_fix_src [OF assms] by blast
  have "eval3 op' t = eval3 op (with_src i (if v then NOT 0 else 0) t)" for t :: "u32 \<times> u32 \<times> u32"
    by (rule eval3_eqI) (simp only: f(2) with_src_bits)
  then show "\<exists>op'. fix_src i v op = Some op' \<and> (\<forall>t :: u32 \<times> u32 \<times> u32. eval3 op' t = eval3 op (with_src i (if v then NOT 0 else 0) t))"
    using f(1) by blast
  obtain op2 where g: "invert_src i op = Some op2"
    "\<And>t. bit (lut op2) (row3 t) \<longleftrightarrow> bit (lut op) (row3 (with_src i (\<not> nth_src i t) t))"
    using bit_invert_src [OF assms] by blast
  have "eval3 op2 t = eval3 op (with_src i (NOT (nth_src i t)) t)" for t :: "u32 \<times> u32 \<times> u32"
    by (rule eval3_eqI) (simp only: g(2) with_src_bits)
  then show "\<exists>op'. invert_src i op = Some op' \<and> (\<forall>t :: u32 \<times> u32 \<times> u32. eval3 op' t = eval3 op (with_src i (NOT (nth_src i t)) t))"
    using g(1) by blast
  show "src_used op i = Some (\<exists>t (w :: u32). eval3 op (with_src i w t) \<noteq> eval3 op t)"
    using src_used_bit [OF assms, of op] table_depends [OF assms, of op] by simp
qed

theorem lut_rewrites_sound_witness:
  "(\<exists>op'. fix_src 1 True \<lparr>lut = 0xc0\<rparr> = Some op' \<and>
      (\<forall>t :: u32 \<times> u32 \<times> u32. eval3 op' t = eval3 \<lparr>lut = 0xc0\<rparr> (with_src 1 (if True then NOT 0 else 0) t))) \<and>
    (\<exists>op'. invert_src 1 \<lparr>lut = 0xc0\<rparr> = Some op' \<and>
      (\<forall>t :: u32 \<times> u32 \<times> u32. eval3 op' t = eval3 \<lparr>lut = 0xc0\<rparr> (with_src 1 (NOT (nth_src 1 t)) t))) \<and>
    src_used \<lparr>lut = 0xc0\<rparr> 1 = Some (\<exists>t (w :: u32). eval3 \<lparr>lut = 0xc0\<rparr> (with_src 1 w t) \<noteq> eval3 \<lparr>lut = 0xc0\<rparr> t)"
  by (rule lut_rewrites_sound) simp

end
