(* ===== verification/Ir.thy ===== *)
theory Ir
  imports Logic Cfg
begin

text \<open>
  The part of the intermediate representation the passes work on: \<^verbatim>\<open>codegen/ir/instr.rs\<close>,
  \<^verbatim>\<open>codegen/ir/program.rs\<close>, the virtual operations of \<^verbatim>\<open>codegen/ir/op_misc/mod.rs\<close> with their
  \<^verbatim>\<open>VecPair\<close>, and the variants of \<^verbatim>\<open>Op\<close>.  The operations that a modelled pass looks into are records of
  their own; the others are an opcode with their destinations and sources in the order of the operand slices.
\<close>

text \<open>A map whose function can panic.\<close>

fun mapM :: "('a \<Rightarrow> 'b option) \<Rightarrow> 'a list \<Rightarrow> 'b list option" where
  "mapM f [] = Some []"
| "mapM f (x # xs) = do { y \<leftarrow> f x; ys \<leftarrow> mapM f xs; Some (y # ys) }"

text \<open>A loop over a list that rewrites its elements and threads a state.\<close>

fun traverseM :: "('a \<Rightarrow> 's \<Rightarrow> ('b \<times> 's) option) \<Rightarrow> 'a list \<Rightarrow> 's \<Rightarrow> ('b list \<times> 's) option" where
  "traverseM g [] s = Some ([], s)"
| "traverseM g (x # xs) s = do { (y, s) \<leftarrow> g x s; (ys, s) \<leftarrow> traverseM g xs s; Some (y # ys, s) }"

lemma traverseM_append:
  "traverseM f (xs @ ys) s = do { (as, s) \<leftarrow> traverseM f xs s; (bs, s) \<leftarrow> traverseM f ys s; Some (as @ bs, s) }"
proof (induction xs arbitrary: s)
  case (Cons x xs)
  then show ?case by (cases "f x s") (auto split: prod.splits Option.bind_splits)
qed (auto split: prod.splits Option.bind_splits)

lemma traverseM_length: "traverseM f xs s = Some (ys, s') \<Longrightarrow> length ys = length xs"
  by (induction xs arbitrary: s ys) (auto split: Option.bind_splits)

text \<open>A loop whose every step keeps \<open>P\<close> returns; \<open>S\<close> are the states between its steps, which \<open>Q\<close> relates.\<close>

lemma traverseM_steps:
  assumes "P 0 s" and "\<And>k s. k < length xs \<Longrightarrow> P k s \<Longrightarrow> \<exists>y s'. f (xs ! k) s = Some (y, s') \<and> P (Suc k) s' \<and> Q k s y s'"
  shows "\<exists>ys S. traverseM f xs s = Some (ys, S (length xs)) \<and> length ys = length xs \<and> S 0 = s \<and>
    (\<forall>k<length xs. P k (S k) \<and> Q k (S k) (ys ! k) (S (Suc k)))"
  using assms
proof (induction xs arbitrary: s P Q)
  case Nil
  then show ?case by (auto intro: exI [of _ "\<lambda>_. s"])
next
  case (Cons x xs)
  obtain y s1 where y: "f x s = Some (y, s1)" "P 1 s1" "Q 0 s y s1" using Cons.prems(2) [of 0 s] Cons.prems(1) by auto
  have "\<exists>ys S. traverseM f xs s1 = Some (ys, S (length xs)) \<and> length ys = length xs \<and> S 0 = s1 \<and>
    (\<forall>k<length xs. P (Suc k) (S k) \<and> Q (Suc k) (S k) (ys ! k) (S (Suc k)))"
  proof (rule Cons.IH)
    show "P (Suc 0) s1" using y(2) by simp
    show "\<exists>y s'. f (xs ! k) t = Some (y, s') \<and> P (Suc (Suc k)) s' \<and> Q (Suc k) t y s'" if "k < length xs" "P (Suc k) t" for k t
      using Cons.prems(2) [of "Suc k" t] that by simp
  qed
  then obtain ys S where r: "traverseM f xs s1 = Some (ys, S (length xs))" "length ys = length xs" "S 0 = s1"
    "\<forall>k<length xs. P (Suc k) (S k) \<and> Q (Suc k) (S k) (ys ! k) (S (Suc k))" by blast
  have "P k (case_nat s S k) \<and> Q k (case_nat s S k) ((y # ys) ! k) (case_nat s S (Suc k))" if "k < Suc (length xs)" for k
    using that r(3,4) y Cons.prems(1) by (cases k) auto
  then show ?case using y(1) r by (intro exI [of _ "y # ys"] exI [of _ "case_nat s S"]) simp
qed

text \<open>
  What every element keeps, and does to a stretch of code, the whole loop does.  \<open>h\<close> is the code of an
  element.
\<close>

lemma traverseM_rel:
  assumes "I s"
    and step: "\<And>x s. x \<in> set xs \<Longrightarrow> I s \<Longrightarrow> \<exists>y s'. g x s = Some (y, s') \<and> I s' \<and> R s (h x) (h y) s'"
    and nil: "\<And>s. I s \<Longrightarrow> R s [] [] s"
    and app: "\<And>s xs xs' s1 ys ys' s2. R s xs xs' s1 \<Longrightarrow> R s1 ys ys' s2 \<Longrightarrow> R s (xs @ ys) (xs' @ ys') s2"
  shows "\<exists>ys s'. traverseM g xs s = Some (ys, s') \<and> I s' \<and> R s (concat (map h xs)) (concat (map h ys)) s'"
  using assms(1) step
proof (induction xs arbitrary: s)
  case Nil
  then show ?case using nil by simp
next
  case (Cons x xs)
  obtain y s1 where y: "g x s = Some (y, s1)" "I s1" "R s (h x) (h y) s1" using Cons.prems by force
  obtain ys s2 where ys: "traverseM g xs s1 = Some (ys, s2)" "I s2" "R s1 (concat (map h xs)) (concat (map h ys)) s2"
    using Cons.IH [OF y(2)] Cons.prems(2) by force
  show ?case using y(1) ys(1,2) app [OF y(3) ys(3)] by simp
qed

subsection \<open>Pairs of vectors\<close>

record ('a, 'b) VecPair =
  vp_a :: "'a list"
  vp_b :: "'b list"

definition vp_new :: "('a, 'b) VecPair" where "vp_new = \<lparr>vp_a = [], vp_b = []\<rparr>"

text \<open>\<^verbatim>\<open>append\<close> moves the elements out of its second argument, which it leaves empty.\<close>

definition vp_append :: "('a, 'b) VecPair \<Rightarrow> ('a, 'b) VecPair \<Rightarrow> ('a, 'b) VecPair \<times> ('a, 'b) VecPair" where
  "vp_append p q = (\<lparr>vp_a = vp_a p @ vp_a q, vp_b = vp_b p @ vp_b q\<rparr>, \<lparr>vp_a = [], vp_b = []\<rparr>)"

text \<open>The lengths are compared by \<^verbatim>\<open>debug_assert!\<close> in every reader.\<close>

definition vp_is_empty :: "('a, 'b) VecPair \<Rightarrow> bool option" where
  "vp_is_empty p = assert_then (length (vp_a p) = length (vp_b p)) (Some (vp_a p = []))"

definition vp_iter :: "('a, 'b) VecPair \<Rightarrow> ('a \<times> 'b) list option" where
  "vp_iter p = assert_then (length (vp_a p) = length (vp_b p)) (Some (zip (vp_a p) (vp_b p)))"

definition vp_len :: "('a, 'b) VecPair \<Rightarrow> nat option" where
  "vp_len p = assert_then (length (vp_a p) = length (vp_b p)) (Some (length (vp_a p)))"

definition vp_push :: "'a \<Rightarrow> 'b \<Rightarrow> ('a, 'b) VecPair \<Rightarrow> ('a, 'b) VecPair option" where
  "vp_push x y p = assert_then (length (vp_a p) = length (vp_b p)) (Some \<lparr>vp_a = vp_a p @ [x], vp_b = vp_b p @ [y]\<rparr>)"

text \<open>
  \<^verbatim>\<open>retain\<close>: the first loop finds the first element that is dropped, the second moves the kept ones down,
  and the vectors are cut at the end.  The predicate is taken to keep no state of its own.
\<close>

function retain_skip :: "('a \<Rightarrow> 'b \<Rightarrow> bool) \<Rightarrow> 'a list \<Rightarrow> 'b list \<Rightarrow> nat \<Rightarrow> nat" where
  "retain_skip f a b i =
     (if i < length a \<and> f (a ! i) (b ! i) then retain_skip f a b (i + 1) else i)"
  by auto
termination by (relation "measure (\<lambda>(f, a, b, i). length a - i)") auto

function retain_move :: "('a \<Rightarrow> 'b \<Rightarrow> bool) \<Rightarrow> nat \<Rightarrow> 'a list \<times> 'b list \<Rightarrow> nat \<Rightarrow> nat \<Rightarrow> ('a list \<times> 'b list) \<times> nat" where
  "retain_move f len (a, b) i new_len =
     (if i < len
      then if f (a ! i) (b ! i)
        then retain_move f len (a[new_len := a ! i], b[new_len := b ! i]) (i + 1) (new_len + 1)
        else retain_move f len (a, b) (i + 1) new_len
      else ((a, b), new_len))"
  by pat_completeness auto
termination by (relation "measure (\<lambda>(f, len, ab, i, n). len - i)") auto

definition vp_retain :: "('a \<Rightarrow> 'b \<Rightarrow> bool) \<Rightarrow> ('a, 'b) VecPair \<Rightarrow> ('a, 'b) VecPair option" where
  "vp_retain f p =
     assert_then (length (vp_a p) = length (vp_b p))
       (let len = length (vp_a p);
            i = retain_skip f (vp_a p) (vp_b p) 0;
            ((a, b), new_len) = retain_move f len (vp_a p, vp_b p) (i + 1) i in
        Some (if new_len < len then \<lparr>vp_a = take new_len a, vp_b = take new_len b\<rparr> else \<lparr>vp_a = a, vp_b = b\<rparr>))"

declare retain_skip.simps [simp del] retain_move.simps [simp del]

lemma retain_skip_prefix:
  assumes "i \<le> length a" "length a = length b"
  shows "let k = retain_skip f a b i in i \<le> k \<and> k \<le> length a \<and>
    (\<forall>j. i \<le> j \<and> j < k \<longrightarrow> f (a ! j) (b ! j)) \<and> (k < length a \<longrightarrow> \<not> f (a ! k) (b ! k))"
  using assms
proof (induction f a b i rule: retain_skip.induct)
  case (1 f a b i)
  show ?case
  proof (cases "i < length a \<and> f (a ! i) (b ! i)")
    case True
    then have "let k = retain_skip f a b (i + 1) in i + 1 \<le> k \<and> k \<le> length a \<and>
        (\<forall>j. i + 1 \<le> j \<and> j < k \<longrightarrow> f (a ! j) (b ! j)) \<and> (k < length a \<longrightarrow> \<not> f (a ! k) (b ! k))"
      using 1 by simp
    moreover have "i \<le> j \<longleftrightarrow> j = i \<or> i + 1 \<le> j" for j by linarith
    ultimately show ?thesis
      using True unfolding retain_skip.simps [of f a b i] Let_def by (simp add: Suc_le_eq) blast
  next
    case False
    with 1 show ?thesis by (subst retain_skip.simps) (auto simp: Let_def)
  qed
qed

lemma retain_move_filter:
  assumes "length a = len" "length b = len" "new_len \<le> i" "i \<le> len"
    and "retain_move f len (a, b) i new_len = ((a', b'), n')"
  shows "length a' = len \<and> length b' = len \<and> n' \<le> len \<and>
    zip (take n' a') (take n' b') = zip (take new_len a) (take new_len b) @ filter (\<lambda>(x, y). f x y) (drop i (zip a b))"
  using assms
proof (induction f len "(a, b)" i new_len arbitrary: a b rule: retain_move.induct)
  case (1 f len a b i new_len)
  show ?case
  proof (cases "i < len")
    case True
    have d: "drop i (zip a b) = (a ! i, b ! i) # drop (Suc i) (zip a b)"
      using True "1.prems" by (simp add: Cons_nth_drop_Suc [symmetric])
    show ?thesis
    proof (cases "f (a ! i) (b ! i)")
      case keep: True
      let ?a = "a[new_len := a ! i]" and ?b = "b[new_len := b ! i]"
      have r: "retain_move f len (?a, ?b) (i + 1) (new_len + 1) = ((a', b'), n')"
        using "1.prems"(5) True keep by (simp add: retain_move.simps [of f len a])
      have "drop (Suc i) (zip ?a ?b) = drop (Suc i) (zip a b)"
        using "1.prems" by (simp add: drop_zip)
      moreover have "zip (take (Suc new_len) ?a) (take (Suc new_len) ?b) =
          zip (take new_len a) (take new_len b) @ [(a ! i, b ! i)]"
        using "1.prems" True by (simp add: take_Suc_conv_app_nth)
      ultimately show ?thesis using "1.hyps"(1) [OF True keep _ _ _ _ r] "1.prems" True keep d by simp
    next
      case drop: False
      have r: "retain_move f len (a, b) (i + 1) new_len = ((a', b'), n')"
        using "1.prems"(5) True drop by (simp add: retain_move.simps [of f len a])
      show ?thesis using "1.hyps"(2) [OF True drop _ _ _ _ r] "1.prems" True drop d by simp
    qed
  next
    case False
    with "1.prems" show ?thesis by (auto simp: retain_move.simps [of f len a])
  qed
qed

lemma retain_all_prefix:
  assumes "\<forall>j<k. f (a ! j) (b ! j)" "k \<le> length a" "length a = length b"
  shows "filter (\<lambda>(x, y). f x y) (zip a b) = zip (take k a) (take k b) @ filter (\<lambda>(x, y). f x y) (drop k (zip a b))"
proof -
  have "filter (\<lambda>(x, y). f x y) (take k (zip a b)) = take k (zip a b)"
    using assms by (intro filter_True) (auto simp: in_set_conv_nth)
  then show ?thesis
    by (metis append_take_drop_id filter_append take_zip)
qed

text \<open>
  Property C32.  The two vectors of a \<^verbatim>\<open>VecPair\<close> implement a list of pairs: every operation keeps
  their lengths equal and acts on the pairs as the list operation of that name, \<^verbatim>\<open>append\<close> leaves its second
  argument empty, and the in-place \<^verbatim>\<open>retain\<close> keeps exactly the pairs its predicate accepts, in order.
\<close>

theorem vecpair_refines_pairs:
  assumes "vp_iter p = Some xs" and "vp_iter q = Some ys"
  shows "vp_iter vp_new = Some ([] :: ('a \<times> 'b) list) \<and> vp_iter (fst (vp_append p q)) = Some (xs @ ys) \<and> vp_iter (snd (vp_append p q)) = Some [] \<and>
    vp_is_empty p = Some (xs = []) \<and> vp_len p = Some (length xs) \<and>
    Option.bind (vp_push x y p) vp_iter = Some (xs @ [(x, y)]) \<and>
    Option.bind (vp_retain f p) vp_iter = Some (filter (\<lambda>(x, y). f x y) xs)"
proof -
  let ?a = "vp_a p" and ?b = "vp_b p"
  have l: "length ?a = length ?b" and xs: "xs = zip ?a ?b"
    using assms(1) by (auto simp: vp_iter_def assert_then_eq_Some)
  have l2: "length (vp_a q) = length (vp_b q)" and ys: "ys = zip (vp_a q) (vp_b q)"
    using assms(2) by (auto simp: vp_iter_def assert_then_eq_Some)
  define k where "k = retain_skip f ?a ?b 0"
  have k: "k \<le> length ?a" "\<forall>j<k. f (?a ! j) (?b ! j)" "k < length ?a \<Longrightarrow> \<not> f (?a ! k) (?b ! k)"
    using retain_skip_prefix [of 0 ?a ?b f] l unfolding k_def Let_def by auto
  obtain a' b' n' where r: "retain_move f (length ?a) (?a, ?b) (k + 1) k = ((a', b'), n')"
    by (metis prod.exhaust)
  have "Option.bind (vp_retain f p) vp_iter = Some (filter (\<lambda>(x, y). f x y) xs)"
  proof (cases "k < length ?a")
    case True
    have m: "length a' = length ?a \<and> length b' = length ?a \<and> n' \<le> length ?a \<and>
        zip (take n' a') (take n' b') = zip (take k ?a) (take k ?b) @ filter (\<lambda>(x, y). f x y) (drop (k + 1) (zip ?a ?b))"
      by (rule retain_move_filter [OF refl l [symmetric] _ _ r]) (use True in auto)
    have "drop k (zip ?a ?b) = (?a ! k, ?b ! k) # drop (k + 1) (zip ?a ?b)"
      using True l by (simp add: Cons_nth_drop_Suc [symmetric])
    then have "zip (take n' a') (take n' b') = filter (\<lambda>(x, y). f x y) xs"
      using retain_all_prefix [OF k(2,1) l] m k(3) [OF True] xs by simp
    then show ?thesis
      using m r l by (auto simp: vp_retain_def vp_iter_def k_def [symmetric])
  next
    case False
    then have "k = length ?a" using k by simp
    then have "retain_move f (length ?a) (?a, ?b) (k + 1) k = ((?a, ?b), length ?a)"
      by (subst retain_move.simps) simp
    moreover have "filter (\<lambda>(x, y). f x y) xs = xs"
      using retain_all_prefix [OF k(2,1) l] xs \<open>k = length ?a\<close> l by simp
    ultimately show ?thesis
      using l xs by (simp add: vp_retain_def vp_iter_def k_def [symmetric])
  qed
  moreover have "?a = [] \<longleftrightarrow> ?b = []" using l by (metis length_0_conv)
  ultimately show ?thesis
    using l l2 xs ys
    by (simp add: vp_iter_def vp_new_def vp_append_def vp_is_empty_def vp_len_def vp_push_def)
qed

theorem vecpair_refines_pairs_witness:
  "let p = \<lparr>vp_a = [1 :: nat, 2, 3], vp_b = [10 :: nat, 20, 30]\<rparr>; xs = [(1, 10), (2, 20), (3, 30)] in
   vp_iter vp_new = Some ([] :: (nat \<times> nat) list) \<and> vp_iter (fst (vp_append p p)) = Some (xs @ xs) \<and> vp_iter (snd (vp_append p p)) = Some [] \<and>
    vp_is_empty p = Some (xs = []) \<and> vp_len p = Some (length xs) \<and>
    Option.bind (vp_push 4 40 p) vp_iter = Some (xs @ [(4, 40)]) \<and>
    Option.bind (vp_retain (\<lambda>x y. x \<noteq> 2) p) vp_iter = Some (filter (\<lambda>(x, y). x \<noteq> 2) xs)"
  unfolding Let_def by (rule vecpair_refines_pairs) (simp_all add: vp_iter_def)

subsection \<open>Operations\<close>

text \<open>
  A \<^verbatim>\<open>VecPair\<close> is the list of its pairs from here on.  \<^verbatim>\<open>Phi\<close> is its index.
\<close>

record Phi = phi_idx :: u32

definition phi_bit_index :: "Phi \<Rightarrow> nat" where "phi_bit_index p = unat (phi_idx p)"

record PhiAllocator = phi_count :: u32

definition pa_new :: PhiAllocator where "pa_new = \<lparr>phi_count = 0\<rparr>"

text \<open>\<^verbatim>\<open>idx + 1\<close> panics on overflow.\<close>

definition pa_alloc :: "PhiAllocator \<Rightarrow> (Phi \<times> PhiAllocator) option" where
  "pa_alloc a = assert_then (phi_count a \<noteq> - 1) (Some (\<lparr>phi_idx = phi_count a\<rparr>, a\<lparr>phi_count := phi_count a + 1\<rparr>))"

record OpParCopy =
  pc_dsts_srcs :: "(Dst \<times> Src) list"
  pc_tmp :: "RegRef option"

record OpLop3 =
  lop3_dst :: Dst
  lop3_srcs :: "Src \<times> Src \<times> Src"
  lop3_op :: LogicOp3

record OpPLop3 =
  plop3_dsts :: "Dst \<times> Dst"
  plop3_srcs :: "Src \<times> Src \<times> Src"
  plop3_ops :: "LogicOp3 \<times> LogicOp3"

type_synonym Label = nat

text \<open>
  The hardware operations, in the groups of \<^verbatim>\<open>has_fixed_latency\<close> and \<^verbatim>\<open>is_virtual\<close>, with the fields of an
  operation that the functions of \<^verbatim>\<open>op.rs\<close> and \<^verbatim>\<open>instr.rs\<close> and the passes look at (of \<^verbatim>\<open>Nop\<close>,
  whether it has a label).
\<close>

datatype FloatType = F16 | F32 | F64

fun fty_bits :: "FloatType \<Rightarrow> nat" where "fty_bits F16 = 16" | "fty_bits F32 = 32" | "fty_bits F64 = 64"

datatype TranscendentalOp = Cos | Sin | Exp2 | Log2 | Rcp | Rsq | Rcp64H | Rsq64H | Sqrt | Tanh
datatype MemAddrType = A32 | A64
datatype MemSpace = Global MemAddrType | Local | Shared

datatype FloatAlu = F2FP | FAdd | FFma | FMnMx | FMul | FSet | FSetP | HAdd2 | HFma2 | HMul2 | HSet2 | HSetP2
   | HMnMx2 | FSwz | FSwzAdd
datatype DoubleAlu = DAdd | DFma | DMnMx | DMul | DSetP
datatype Matrix = Imma | Hmma | Ldsm | Movm
datatype IntAlu = BRev | Flo | PopC | IMad | IMul | BMsk | IAbs | IAdd2 | IAdd2X | IAdd3 | IAdd3X | IDp4
   | IMad64 | IMnMx | ISetP | Lea | LeaX | Lop2 | SuClamp | SuBfm | SuEau | IMadSp | Shf | Shl | Shr | Bfe
datatype MoveOp = Mov | Prmt PrmtMode | Sel | Sgxt | Shfl
datatype Texture = Tex | Tld | Tld4 | Tmml | Txd | Txq
datatype Surface = SuLd | SuSt | SuAtom | SuLdGa | SuStGa
datatype MemOp = Ldc | LdSharedLock | StSCheckUnlock | AL2P | ALd | ASt | Ipa | CCtl | LdTram | MemBar
datatype Control = BClear | Break | BSSy | BSync | WarpSync
datatype Misc = BarOp | TexDepBar | CS2R | Isberd | ViLd | Kill | PixLd | S2R | Match | Nop bool | Vote
datatype F64Pseudo = F64Exp2 | F64Log2 | F64Rcp | F64Sin | F64Cos | F64Sqrt
datatype Virtual = Undef | SrcBar | Pin | Unpin | SwapOp | RegOut | Annotate

datatype Opcode = FloatAlu FloatAlu | Rro | Transcendental TranscendentalOp | DoubleAlu DoubleAlu | Matrix Matrix
  | IntAlu IntAlu | F2F FloatType FloatType | F2I FloatType IntType | I2F FloatType IntType | I2I | FRnd FloatType FloatType
  | MoveOp MoveOp | PSetP | R2UR | Redux | Texture Texture | Surface Surface
  | Ld MemSpace | St MemSpace | Atom MemSpace | MemOp MemOp | Control Control | BMov bool | OutOp | OutFinal
  | Misc Misc | F64Pseudo F64Pseudo | Virtual Virtual

datatype Op =
    Lop3 OpLop3
  | PLop3 OpPLop3
  | PhiSrcs "(Phi \<times> Src) list"
  | PhiDsts "(Phi \<times> Dst) list"
  | ParCopyOp OpParCopy
  | CopyOp Dst Src
  | Bra Label Src
  | Sync Label | Brk Label | Cont Label | SSy Label | PBk Label | PCnt Label
  | Exit
  | OtherOp Opcode "Dst list" "Src list"

fun triple_list :: "'a \<times> 'a \<times> 'a \<Rightarrow> 'a list" where "triple_list (x, y, z) = [x, y, z]"

text \<open>\<^verbatim>\<open>dsts_as_slice\<close> and \<^verbatim>\<open>srcs_as_slice\<close>.\<close>

fun op_dsts :: "Op \<Rightarrow> Dst list" where
  "op_dsts (Lop3 op) = [lop3_dst op]"
| "op_dsts (PLop3 op) = [fst (plop3_dsts op), snd (plop3_dsts op)]"
| "op_dsts (PhiDsts ps) = map snd ps"
| "op_dsts (ParCopyOp op) = map fst (pc_dsts_srcs op)"
| "op_dsts (CopyOp d s) = [d]"
| "op_dsts (OtherOp c ds ss) = ds"
| "op_dsts _ = []"

fun op_srcs :: "Op \<Rightarrow> Src list" where
  "op_srcs (Lop3 op) = triple_list (lop3_srcs op)"
| "op_srcs (PLop3 op) = triple_list (plop3_srcs op)"
| "op_srcs (PhiSrcs ps) = map snd ps"
| "op_srcs (ParCopyOp op) = map snd (pc_dsts_srcs op)"
| "op_srcs (CopyOp d s) = [s]"
| "op_srcs (Bra l c) = [c]"
| "op_srcs (OtherOp c ds ss) = ss"
| "op_srcs _ = []"

fun op_is_branch :: "Op \<Rightarrow> bool" where
  "op_is_branch (Bra _ _) = True" | "op_is_branch (Sync _) = True" | "op_is_branch (Brk _) = True"
| "op_is_branch (Cont _) = True" | "op_is_branch Exit = True" | "op_is_branch _ = False"

subsection \<open>Instructions\<close>

record InstrDeps =
  delay :: u8
  yld :: bool
  dep_wr_bar :: "8 word"
  dep_rd_bar :: "8 word"
  wt_bar_mask :: u8
  reuse_mask :: u8

text \<open>The two barrier fields are \<^verbatim>\<open>i8\<close>, with \<open>-1\<close> for none.\<close>

definition deps_new :: InstrDeps where
  "deps_new = \<lparr>delay = 0, yld = False, dep_wr_bar = - 1, dep_rd_bar = - 1, wt_bar_mask = 0, reuse_mask = 0\<rparr>"

definition rd_bar :: "InstrDeps \<Rightarrow> u8 option" where
  "rd_bar d = (if sint (dep_rd_bar d) < 0 then None else Some (dep_rd_bar d))"

definition wr_bar :: "InstrDeps \<Rightarrow> u8 option" where
  "wr_bar d = (if sint (dep_wr_bar d) < 0 then None else Some (dep_wr_bar d))"

definition set_rd_bar :: "u8 \<Rightarrow> InstrDeps \<Rightarrow> InstrDeps option" where
  "set_rd_bar idx d = assert_then (idx < 6) (Some (d\<lparr>dep_rd_bar := idx\<rparr>))"

definition set_wr_bar :: "u8 \<Rightarrow> InstrDeps \<Rightarrow> InstrDeps option" where
  "set_wr_bar idx d = assert_then (idx < 6) (Some (d\<lparr>dep_wr_bar := idx\<rparr>))"

definition add_wt_bar_mask :: "u8 \<Rightarrow> InstrDeps \<Rightarrow> InstrDeps option" where
  "add_wt_bar_mask m d = assert_then (m < 64) (Some (d\<lparr>wt_bar_mask := wt_bar_mask d OR m\<rparr>))"

text \<open>\<^verbatim>\<open>1 << idx\<close> on a \<^verbatim>\<open>u8\<close> panics from 8.\<close>

definition add_wt_bar :: "u8 \<Rightarrow> InstrDeps \<Rightarrow> InstrDeps option" where
  "add_wt_bar idx d = assert_then (idx < 8) (add_wt_bar_mask (push_bit (unat idx) 1) d)"

definition add_reuse :: "u8 \<Rightarrow> InstrDeps \<Rightarrow> InstrDeps option" where
  "add_reuse idx d = assert_then (idx < 6) (Some (d\<lparr>reuse_mask := reuse_mask d OR push_bit (unat idx) 1\<rparr>))"

record Instr =
  in_pred :: Predicate
  in_op :: Op
  in_deps :: InstrDeps

definition instr_new :: "Op \<Rightarrow> Instr" where
  "instr_new op = \<lparr>in_pred = pred_of_bool True, in_op = op, in_deps = deps_new\<rparr>"

definition src_iter_ssa :: "Src \<Rightarrow> SSAValue list" where "src_iter_ssa s = sr_iter_ssa (reference s)"

text \<open>\<^verbatim>\<open>for_each_ssa_use\<close> and \<^verbatim>\<open>for_each_ssa_def\<close>, as the values they visit.\<close>

definition ssa_uses :: "Instr \<Rightarrow> SSAValue list" where
  "ssa_uses i = predref_iter_ssa (predicate (in_pred i)) @ concat (map src_iter_ssa (op_srcs (in_op i)))"

definition ssa_defs :: "Instr \<Rightarrow> SSAValue list" where
  "ssa_defs i = concat (map dst_iter_ssa (op_dsts (in_op i)))"

definition is_branch :: "Instr \<Rightarrow> bool" where "is_branch i = op_is_branch (in_op i)"

definition is_branch_always_taken :: "Instr \<Rightarrow> bool option" where
  "is_branch_always_taken i =
     (if pred_is_true (in_pred i)
      then (case in_op i of Bra l c \<Rightarrow> src_is_true c | _ \<Rightarrow> Some (is_branch i))
      else Some False)"

fun is_global :: "MemSpace \<Rightarrow> bool" where "is_global (Global _) = True" | "is_global _ = False"

fun opcode_uses_global_mem :: "Opcode \<Rightarrow> bool" where
  "opcode_uses_global_mem (Atom space) = (space \<noteq> Local)"
| "opcode_uses_global_mem (Ld space) = (space \<noteq> Local)"
| "opcode_uses_global_mem (St space) = (space \<noteq> Local)"
| "opcode_uses_global_mem (Surface _) = True"
| "opcode_uses_global_mem _ = False"

fun uses_global_mem :: "Op \<Rightarrow> bool" where
  "uses_global_mem (OtherOp c _ _) = opcode_uses_global_mem c" | "uses_global_mem _ = False"

fun opcode_writes_global_mem :: "Opcode \<Rightarrow> bool" where
  "opcode_writes_global_mem (Atom space) = is_global space"
| "opcode_writes_global_mem (St space) = is_global space"
| "opcode_writes_global_mem (Surface s) = (s \<in> {SuAtom, SuSt, SuStGa})"
| "opcode_writes_global_mem _ = False"

fun writes_global_mem :: "Op \<Rightarrow> bool" where
  "writes_global_mem (OtherOp c _ _) = opcode_writes_global_mem c" | "writes_global_mem _ = False"

text \<open>The opcodes of \<^verbatim>\<open>can_eliminate\<close> that have a side effect.\<close>

fun has_effect :: "Opcode \<Rightarrow> bool" where
  "has_effect (Surface s) = (s \<in> {SuSt, SuStGa, SuAtom})"
| "has_effect (MemOp m) = (m \<in> {ASt, LdSharedLock, StSCheckUnlock, CCtl, MemBar})"
| "has_effect (St _) = True" | "has_effect (Atom _) = True"
| "has_effect (Control c) = (c \<in> {BSync, WarpSync})"
| "has_effect (Misc m) = (m \<in> {Kill, Nop True, Nop False, BarOp, TexDepBar})"
| "has_effect OutOp = True" | "has_effect OutFinal = True"
| "has_effect (Virtual v) = (v \<in> {RegOut, Annotate})"
| "has_effect (BMov clear) = clear"
| "has_effect _ = False"

fun can_eliminate :: "Op \<Rightarrow> bool" where
  "can_eliminate (OtherOp c _ _) = (\<not> has_effect c)"
| "can_eliminate (Bra _ _) = False" | "can_eliminate (SSy _) = False" | "can_eliminate (Sync _) = False"
| "can_eliminate (Brk _) = False" | "can_eliminate (PBk _) = False" | "can_eliminate (Cont _) = False"
| "can_eliminate (PCnt _) = False" | "can_eliminate Exit = False"
| "can_eliminate _ = True"

fun needs_yield :: "Op \<Rightarrow> bool" where
  "needs_yield (OtherOp c _ _) = (c = Misc BarOp \<or> c = Control BSync)" | "needs_yield _ = False"

subsection \<open>Latency classes\<close>

fun opcode_is_fp64 :: "Opcode \<Rightarrow> bool" where
  "opcode_is_fp64 (Transcendental op) = (op \<in> {Rcp64H, Rsq64H})"
| "opcode_is_fp64 (DoubleAlu _) = True"
| "opcode_is_fp64 (F64Pseudo _) = True"
| "opcode_is_fp64 (F2F src dst) = (fty_bits src = 64 \<or> fty_bits dst = 64)"
| "opcode_is_fp64 (F2I src dst) = (fty_bits src = 64 \<or> ity_bits dst = 64)"
| "opcode_is_fp64 (I2F dst src) = (ity_bits src = 64 \<or> fty_bits dst = 64)"
| "opcode_is_fp64 (FRnd dst src) = (fty_bits src = 64 \<or> fty_bits dst = 64)"
| "opcode_is_fp64 _ = False"

fun is_fp64 :: "Op \<Rightarrow> bool" where
  "is_fp64 (OtherOp c _ _) = opcode_is_fp64 c" | "is_fp64 _ = False"

text \<open>The virtual operations are a panic.\<close>

fun opcode_has_fixed_latency :: "Opcode \<Rightarrow> u8 \<Rightarrow> bool option" where
  "opcode_has_fixed_latency (FloatAlu _) sm = Some True"
| "opcode_has_fixed_latency (IntAlu op) sm =
     Some (if op \<in> {BRev, Flo, PopC} then False else if op \<in> {IMad, IMul} then sm \<ge> 70 else True)"
| "opcode_has_fixed_latency (MoveOp op) sm = Some (op \<noteq> Shfl)"
| "opcode_has_fixed_latency PSetP sm = Some True"
| "opcode_has_fixed_latency (Misc op) sm = Some (op \<in> {Nop True, Nop False, Vote})"
| "opcode_has_fixed_latency (Virtual _) sm = None"
| "opcode_has_fixed_latency _ sm = Some False"

fun has_fixed_latency :: "Op \<Rightarrow> u8 \<Rightarrow> bool option" where
  "has_fixed_latency (OtherOp c _ _) sm = opcode_has_fixed_latency c sm"
| "has_fixed_latency (Lop3 _) sm = Some True" | "has_fixed_latency (PLop3 _) sm = Some True"
| "has_fixed_latency (PhiSrcs _) sm = None" | "has_fixed_latency (PhiDsts _) sm = None"
| "has_fixed_latency (CopyOp _ _) sm = None" | "has_fixed_latency (ParCopyOp _) sm = None"
| "has_fixed_latency _ sm = Some False"

fun no_scoreboard :: "Op \<Rightarrow> bool" where
  "no_scoreboard (OtherOp c _ _) = (c \<in> Control ` {BClear, Break, BSSy, BSync})"
| "no_scoreboard (SSy _) = True" | "no_scoreboard (Sync _) = True" | "no_scoreboard (Brk _) = True"
| "no_scoreboard (PBk _) = True" | "no_scoreboard (Cont _) = True" | "no_scoreboard (PCnt _) = True"
| "no_scoreboard (Bra _ _) = True" | "no_scoreboard Exit = True" | "no_scoreboard _ = False"

text \<open>\<^verbatim>\<open>R2UR\<close> has one source and one destination; reading the register file of an operand can panic.\<close>

definition opcode_is_virtual :: "Opcode \<Rightarrow> Dst list \<Rightarrow> Src list \<Rightarrow> bool option" where
  "opcode_is_virtual c ds ss =
     (case c of
        R2UR \<Rightarrow> do {
          src \<leftarrow> index ss 0;
          u \<leftarrow> src_is_uniform src;
          if u then Some True else do { dst \<leftarrow> index ds 0; f \<leftarrow> dst_file dst; Some (f = Some UPred) }
        }
      | F64Pseudo _ \<Rightarrow> Some True
      | Virtual _ \<Rightarrow> Some True
      | _ \<Rightarrow> Some False)"

fun is_virtual :: "Op \<Rightarrow> bool option" where
  "is_virtual (OtherOp c ds ss) = opcode_is_virtual c ds ss"
| "is_virtual (PhiSrcs _) = Some True" | "is_virtual (PhiDsts _) = Some True"
| "is_virtual (CopyOp _ _) = Some True" | "is_virtual (ParCopyOp _) = Some True"
| "is_virtual _ = Some False"

text \<open>\<^verbatim>\<open>all_dsts_uniform\<close> and \<^verbatim>\<open>Instr::is_uniform\<close>: mixed destinations are a failed assertion.\<close>

fun dsts_uniform_from :: "bool option \<Rightarrow> Dst list \<Rightarrow> bool option option" where
  "dsts_uniform_from u [] = Some u"
| "dsts_uniform_from u (d # ds) =
     (case dst_file d of
        None \<Rightarrow> None
      | Some None \<Rightarrow> dsts_uniform_from u ds
      | Some (Some f) \<Rightarrow> assert_then (u = None \<or> u = Some (is_uniform f)) (dsts_uniform_from (Some (is_uniform f)) ds))"

definition all_dsts_uniform :: "Dst list \<Rightarrow> bool option" where
  "all_dsts_uniform ds = map_option (\<lambda>u. u = Some True) (dsts_uniform_from None ds)"

fun instr_is_uniform :: "Op \<Rightarrow> bool option" where
  "instr_is_uniform (PhiDsts _) = Some False"
| "instr_is_uniform op = all_dsts_uniform (op_dsts op)"

text \<open>
  Property C33.  The classifications of an operation agree with each other: asking for the latency of an
  operation panics only on virtual operations, a write to global memory is a use of it and is never
  eliminated, branches are kept and need no scoreboard, and what needs no scoreboard or works on doubles
  has variable latency.
\<close>

theorem op_classes_consistent:
  "(has_fixed_latency op sm = None \<longrightarrow> is_virtual op = Some True) \<and>
   (writes_global_mem op \<longrightarrow> uses_global_mem op \<and> \<not> can_eliminate op) \<and>
   (op_is_branch op \<longrightarrow> \<not> can_eliminate op \<and> no_scoreboard op \<and> is_virtual op = Some False) \<and>
   (no_scoreboard op \<or> is_fp64 op \<longrightarrow> has_fixed_latency op sm = Some False)"
proof (cases op)
  case (OtherOp c ds ss)
  have "opcode_has_fixed_latency c sm = None \<Longrightarrow> opcode_is_virtual c ds ss = Some True"
    by (cases c) (simp_all add: opcode_is_virtual_def)
  moreover have "opcode_writes_global_mem c \<Longrightarrow> opcode_uses_global_mem c \<and> has_effect c"
    by (cases c) (auto elim: is_global.elims)
  moreover have "c \<in> Control ` X \<or> opcode_is_fp64 c \<Longrightarrow> opcode_has_fixed_latency c sm = Some False" for X
    by (cases c) auto
  ultimately show ?thesis using OtherOp by simp
qed simp_all

theorem op_classes_consistent_witness:
  "let op = OtherOp (St (Global A64)) [] [] in
   writes_global_mem op \<and> uses_global_mem op \<and> \<not> can_eliminate op \<and>
   is_virtual Exit = Some False \<and> no_scoreboard Exit \<and> has_fixed_latency Exit 70 = Some False"
  using op_classes_consistent [of "OtherOp (St (Global A64)) [] []" 70] op_classes_consistent [of Exit 70]
  by (simp add: Let_def)

subsection \<open>Blocks and functions\<close>

record BasicBlock =
  bb_label :: Label
  bb_uniform :: bool
  bb_instrs :: "Instr list"

text \<open>\<^verbatim>\<open>MappedInstrs\<close> (none, one or many) is the list of the instructions.\<close>

definition bb_map_instrs :: "(Instr \<Rightarrow> Instr list) \<Rightarrow> BasicBlock \<Rightarrow> BasicBlock" where
  "bb_map_instrs f b = b\<lparr>bb_instrs := concat (map f (bb_instrs b))\<rparr>"

definition branch :: "BasicBlock \<Rightarrow> Instr option" where
  "branch b = (if bb_instrs b = [] then None
     else if is_branch (last (bb_instrs b)) then Some (last (bb_instrs b)) else None)"

definition branch_ip :: "BasicBlock \<Rightarrow> nat option" where
  "branch_ip b = (if bb_instrs b \<noteq> [] \<and> is_branch (last (bb_instrs b)) then Some (length (bb_instrs b) - 1) else None)"

definition falls_through :: "BasicBlock \<Rightarrow> bool option" where
  "falls_through b = (case branch b of None \<Rightarrow> Some True | Some i \<Rightarrow> map_option Not (is_branch_always_taken i))"

text \<open>The index of the first phi instruction behind annotations, from the front or from the back.\<close>

fun is_annotate :: "Op \<Rightarrow> bool" where
  "is_annotate (OtherOp c _ _) = (c = Virtual Annotate)" | "is_annotate _ = False"

fun is_phi_dsts :: "Op \<Rightarrow> bool" where "is_phi_dsts (PhiDsts _) = True" | "is_phi_dsts _ = False"
fun is_phi_srcs :: "Op \<Rightarrow> bool" where "is_phi_srcs (PhiSrcs _) = True" | "is_phi_srcs _ = False"

fun phi_dsts_ip_from :: "nat \<Rightarrow> Instr list \<Rightarrow> nat option" where
  "phi_dsts_ip_from ip [] = None"
| "phi_dsts_ip_from ip (i # is) =
     (if is_annotate (in_op i) then phi_dsts_ip_from (ip + 1) is
      else if is_phi_dsts (in_op i) then Some ip else None)"

definition phi_dsts_ip :: "BasicBlock \<Rightarrow> nat option" where
  "phi_dsts_ip b = phi_dsts_ip_from 0 (bb_instrs b)"

fun phi_srcs_ip_from :: "(nat \<times> Instr) list \<Rightarrow> nat option" where
  "phi_srcs_ip_from [] = None"
| "phi_srcs_ip_from ((ip, i) # is) =
     (if is_annotate (in_op i) then phi_srcs_ip_from is
      else if is_phi_srcs (in_op i) then Some ip
      else if is_branch i then phi_srcs_ip_from is else None)"

definition phi_srcs_ip :: "BasicBlock \<Rightarrow> nat option" where
  "phi_srcs_ip b = phi_srcs_ip_from (rev (List.enumerate 0 (bb_instrs b)))"

record Function =
  fn_ssa_alloc :: SSAValueAllocator
  fn_phi_alloc :: PhiAllocator
  fn_blocks :: "BasicBlock CFG"

definition fn_map_instrs :: "(Instr \<Rightarrow> Instr list) \<Rightarrow> Function \<Rightarrow> Function" where
  "fn_map_instrs f g = g\<lparr>fn_blocks := (fn_blocks g)\<lparr>cfg_blocks := map (bb_map_instrs f) (cfg_blocks (fn_blocks g))\<rparr>\<rparr>"

text \<open>The instructions in the order of the blocks.\<close>

definition fn_instrs :: "Function \<Rightarrow> Instr list" where
  "fn_instrs f = concat (map bb_instrs (cfg_blocks (fn_blocks f)))"

end
