(* ===== verification/ParCopy.thy ===== *)
theory ParCopy
  imports Ir
begin

text \<open>
  \<^verbatim>\<open>codegen/lower_par_copies.rs\<close>: a parallel copy, which reads all its sources before it writes
  any destination, is lowered to a sequence of copies and swaps.  The lowering is shown never to
  panic on a well-formed parallel copy and to produce a sequence that gives every destination the
  value its source had before, and that changes nothing but destinations and temporaries.
\<close>

subsection \<open>The copy graph\<close>

record CopyNode =
  cn_num_reads :: nat
  cn_src :: int

type_synonym CopyGraph = "CopyNode list"

definition cg_new :: CopyGraph where "cg_new = []"

definition cg_add_node :: "CopyGraph \<Rightarrow> nat \<times> CopyGraph" where
  "cg_add_node g = (length g, g @ [\<lparr>cn_num_reads = 0, cn_src = - 1\<rparr>])"

definition cg_num_reads :: "CopyGraph \<Rightarrow> nat \<Rightarrow> nat option" where
  "cg_num_reads g i = map_option cn_num_reads (index g i)"

text \<open>The outer option is the panic of the index.\<close>

definition cg_src :: "CopyGraph \<Rightarrow> nat \<Rightarrow> nat option option" where
  "cg_src g i = map_option (\<lambda>n. if cn_src n < 0 then None else Some (nat (cn_src n))) (index g i)"

definition cg_add_edge :: "CopyGraph \<Rightarrow> nat \<Rightarrow> nat \<Rightarrow> CopyGraph option" where
  "cg_add_edge g dst_idx src_idx =
     assert_then (dst_idx \<noteq> src_idx)
       (do {
          d \<leftarrow> index g dst_idx;
          assert_then (cn_src d = - 1)
            (let g1 = g[dst_idx := d\<lparr>cn_src := int src_idx\<rparr>] in
             do {
               s \<leftarrow> index g1 src_idx;
               Some (g1[src_idx := s\<lparr>cn_num_reads := cn_num_reads s + 1\<rparr>])
             })
        })"

definition cg_del_edge :: "CopyGraph \<Rightarrow> nat \<Rightarrow> nat \<Rightarrow> (bool \<times> CopyGraph) option" where
  "cg_del_edge g dst_idx src_idx =
     do {
       d \<leftarrow> index g dst_idx;
       assert_then (cn_src d \<ge> 0)
         (let g1 = g[dst_idx := d\<lparr>cn_src := - 1\<rparr>] in
          do {
            s \<leftarrow> index g1 src_idx;
            assert_then (cn_num_reads s > 0)
              (Some (cn_num_reads s - 1 = 0, g1[src_idx := s\<lparr>cn_num_reads := cn_num_reads s - 1\<rparr>]))
          })
     }"

subsection \<open>Lowering\<close>

text \<open>The instructions the builder emits: \<^verbatim>\<open>OpCopy\<close> and \<^verbatim>\<open>OpSwap\<close>.\<close>

datatype CopyInstr = Copy RegRef SrcRef | Swap RegRef RegRef

definition b_swap :: "RegRef \<Rightarrow> RegRef \<Rightarrow> CopyInstr option" where
  "b_swap x y =
     do { fx \<leftarrow> RegRef_file x; fy \<leftarrow> RegRef_file y; assert_then (fx = fy) (Some (Swap x y)) }"

definition copy_needs_tmp :: "RegRef \<Rightarrow> SrcRef \<Rightarrow> bool option" where
  "copy_needs_tmp dst src =
     (case sr_as_reg src of
        Some src_reg \<Rightarrow> do {
          f \<leftarrow> RegRef_file dst;
          if f = Mem \<or> f = Bar
          then map_option (\<lambda>h. f = Mem \<and> h \<noteq> GPR \<or> f = Bar \<and> h = Bar) (RegRef_file src_reg)
          else Some False
        }
      | None \<Rightarrow> map_option (\<lambda>f. f = Mem) (RegRef_file dst))"

definition cycle_use_swap :: "OpParCopy \<Rightarrow> RegFile \<Rightarrow> bool option" where
  "cycle_use_swap pc file =
     (case file of
        GPR \<Rightarrow> (case pc_tmp pc of
                  Some tmp \<Rightarrow> do { f \<leftarrow> RegRef_file tmp; assert_then (f = GPR) (Some False) }
                | None \<Rightarrow> Some True)
      | Bar \<Rightarrow> do { tmp \<leftarrow> pc_tmp pc; assert_then (RegRef_comps tmp \<ge> 2) (Some False) }
      | Mem \<Rightarrow> do { tmp \<leftarrow> pc_tmp pc; assert_then (RegRef_comps tmp \<ge> 2) (Some False) }
      | _ \<Rightarrow> Some True)"

text \<open>The state while the graph is built: the graph, \<^verbatim>\<open>vals\<close> and \<^verbatim>\<open>reg_to_idx\<close>.\<close>

type_synonym build_state = "CopyGraph \<times> SrcRef list \<times> (RegRef \<rightharpoonup> nat)"

definition pc_add_dst :: "nat \<times> Dst \<times> Src \<Rightarrow> build_state \<Rightarrow> build_state option" where
  "pc_add_dst ids st =
     (case ids of (i, dst, _) \<Rightarrow> case st of (g, vals, m) \<Rightarrow> do {
        reg \<leftarrow> dst_as_reg dst;
        assert_then (m reg = None)
         (assert_then (RegRef_comps reg = 1)
           (let (node_idx, g') = cg_add_node g in
            assert_then (node_idx = i \<and> length vals = i)
              (Some (g', vals @ [SrReg reg], m(reg \<mapsto> i)))))
      })"

definition pc_new_node :: "SrcRef \<Rightarrow> CopyGraph \<Rightarrow> SrcRef list \<Rightarrow> (nat \<times> CopyGraph \<times> SrcRef list) option" where
  "pc_new_node src g vals =
     (let (node_idx, g') = cg_add_node g in
      assert_then (node_idx = length vals) (Some (node_idx, g', vals @ [src])))"

definition pc_src_idx :: "SrcRef \<Rightarrow> build_state \<Rightarrow> (nat \<times> build_state) option" where
  "pc_src_idx src st =
     (case st of (g, vals, m) \<Rightarrow>
        case src of
          SrReg reg \<Rightarrow>
            assert_then (RegRef_comps reg = 1)
              (case m reg of
                 Some k \<Rightarrow> Some (k, g, vals, m)
               | None \<Rightarrow> map_option (\<lambda>(k, g', vals'). (k, g', vals', m(reg \<mapsto> k))) (pc_new_node src g vals))
        | _ \<Rightarrow>
            assert_then (sr_get_reg src = None)
              (map_option (\<lambda>(k, g', vals'). (k, g', vals', m)) (pc_new_node src g vals)))"

definition pc_add_src :: "nat \<times> Dst \<times> Src \<Rightarrow> build_state \<Rightarrow> build_state option" where
  "pc_add_src ids st =
     (case ids of (dst_idx, _, src) \<Rightarrow>
        assert_then (is_unmodified src)
          (do {
             (src_idx, g, vals, m) \<leftarrow> pc_src_idx (reference src) st;
             if dst_idx \<noteq> src_idx then map_option (\<lambda>g'. (g', vals, m)) (cg_add_edge g dst_idx src_idx)
             else Some (g, vals, m)
           }))"

definition pc_build :: "OpParCopy \<Rightarrow> (CopyGraph \<times> SrcRef list) option" where
  "pc_build pc =
     do {
       st \<leftarrow> foldM pc_add_dst (List.enumerate 0 (pc_dsts_srcs pc)) (cg_new, [], Map.empty);
       (g, vals, m) \<leftarrow> foldM pc_add_src (List.enumerate 0 (pc_dsts_srcs pc)) st;
       Some (g, vals)
     }"

definition val_reg :: "SrcRef list \<Rightarrow> nat \<Rightarrow> RegRef option" where
  "val_reg vals i = Option.bind (index vals i) sr_as_reg"

text \<open>The ready loop; the stack has its top at the head.\<close>

definition pc_copy :: "OpParCopy \<Rightarrow> RegRef \<Rightarrow> SrcRef \<Rightarrow> CopyInstr list option" where
  "pc_copy pc dst src =
     do {
       needs \<leftarrow> copy_needs_tmp dst src;
       if needs
       then do { t \<leftarrow> pc_tmp pc; tmp \<leftarrow> RegRef_comp t 0; Some [Copy tmp src, Copy dst (SrReg tmp)] }
       else Some [Copy dst src]
     }"

partial_function (option) ready_loop ::
    "OpParCopy \<Rightarrow> SrcRef list \<Rightarrow> nat list \<Rightarrow> CopyGraph \<Rightarrow> CopyInstr list \<Rightarrow> (CopyGraph \<times> CopyInstr list) option"
  where
  "ready_loop pc vals ready g out =
     (case ready of
        [] \<Rightarrow> Some (g, out)
      | dst_idx # ready' \<Rightarrow> do {
          s \<leftarrow> cg_src g dst_idx;
          case s of
            None \<Rightarrow> ready_loop pc vals ready' g out
          | Some src_idx \<Rightarrow> do {
              dst \<leftarrow> val_reg vals dst_idx;
              src \<leftarrow> index vals src_idx;
              is \<leftarrow> pc_copy pc dst src;
              (last_read, g') \<leftarrow> cg_del_edge g dst_idx src_idx;
              ready_loop pc vals (if last_read then src_idx # ready' else ready') g' (out @ is)
            }
        })"

text \<open>The two ways to resolve a cycle.\<close>

partial_function (option) swap_loop ::
    "SrcRef list \<Rightarrow> nat \<Rightarrow> CopyGraph \<Rightarrow> CopyInstr list \<Rightarrow> (CopyGraph \<times> CopyInstr list) option" where
  "swap_loop vals i g out =
     do {
       sj \<leftarrow> cg_src g i;
       j \<leftarrow> sj;
       sk \<leftarrow> cg_src g j;
       k \<leftarrow> sk;
       j_reg \<leftarrow> val_reg vals j;
       k_reg \<leftarrow> val_reg vals k;
       sw \<leftarrow> b_swap j_reg k_reg;
       (_, g1) \<leftarrow> cg_del_edge g i j;
       (_, g2) \<leftarrow> cg_del_edge g1 j k;
       if i = k then Some (g2, out @ [sw])
       else do { g3 \<leftarrow> cg_add_edge g2 i k; swap_loop vals i g3 (out @ [sw]) }
     }"

definition cycle_copy :: "RegRef \<Rightarrow> RegFile \<Rightarrow> RegRef \<Rightarrow> RegRef \<Rightarrow> CopyInstr list option" where
  "cycle_copy t file p_reg j_reg =
     do {
       fj \<leftarrow> RegRef_file j_reg;
       assert_then (fj = file)
         (if file = Bar \<or> file = Mem
          then map_option (\<lambda>copy_tmp. [Copy copy_tmp (SrReg j_reg), Copy p_reg (SrReg copy_tmp)]) (RegRef_comp t 1)
          else Some [Copy p_reg (SrReg j_reg)])
     }"

partial_function (option) tmp_loop ::
    "RegRef \<Rightarrow> RegFile \<Rightarrow> SrcRef list \<Rightarrow> nat \<Rightarrow> nat \<Rightarrow> RegRef \<Rightarrow> CopyGraph \<Rightarrow> CopyInstr list \<Rightarrow>
     (nat \<times> RegRef \<times> CopyGraph \<times> CopyInstr list) option" where
  "tmp_loop t file vals i p p_reg g out =
     do {
       sj \<leftarrow> cg_src g p;
       j \<leftarrow> sj;
       if j = i then Some (p, p_reg, g, out)
       else do {
         j_reg \<leftarrow> val_reg vals j;
         is \<leftarrow> cycle_copy t file p_reg j_reg;
         (_, g') \<leftarrow> cg_del_edge g p j;
         tmp_loop t file vals i j j_reg g' (out @ is)
       }
     }"

definition pc_cycle :: "OpParCopy \<Rightarrow> SrcRef list \<Rightarrow> nat \<Rightarrow> CopyGraph \<times> CopyInstr list \<Rightarrow>
    (CopyGraph \<times> CopyInstr list) option" where
  "pc_cycle pc vals i st =
     (case st of (g, out) \<Rightarrow> do {
        s \<leftarrow> cg_src g i;
        case s of
          None \<Rightarrow> do { n \<leftarrow> cg_num_reads g i; assert_then (n = 0) (Some (g, out)) }
        | Some _ \<Rightarrow> do {
            reg \<leftarrow> val_reg vals i;
            file \<leftarrow> RegRef_file reg;
            use_swap \<leftarrow> cycle_use_swap pc file;
            if use_swap then swap_loop vals i g out
            else do {
              pc_tmp \<leftarrow> pc_tmp pc;
              tmp \<leftarrow> RegRef_comp pc_tmp 0;
              (p, p_reg, g1, out1) \<leftarrow> tmp_loop pc_tmp file vals i i reg g (out @ [Copy tmp (SrReg reg)]);
              (_, g2) \<leftarrow> cg_del_edge g1 p i;
              Some (g2, out1 @ [Copy p_reg (SrReg tmp)])
            }
          }
      })"

definition lower_par_copy :: "OpParCopy \<Rightarrow> CopyInstr list option" where
  "lower_par_copy pc =
     do {
       (g, vals) \<leftarrow> pc_build pc;
       let n = length (pc_dsts_srcs pc);
       reads \<leftarrow> foldM (\<lambda>i acc. map_option (\<lambda>r. if r = 0 then i # acc else acc) (cg_num_reads g i)) [0..<n] [];
       (g1, out) \<leftarrow> ready_loop pc vals reads g [];
       (g2, out2) \<leftarrow> foldM (pc_cycle pc vals) [0..<n] (g1, out);
       Some out2
     }"

subsection \<open>What the instructions do\<close>

text \<open>Register contents, and the values of the sources that are not registers.\<close>

fun src_val :: "(SrcRef \<Rightarrow> 'v) \<Rightarrow> (RegRef \<Rightarrow> 'v) \<Rightarrow> SrcRef \<Rightarrow> 'v" where
  "src_val imm regs (SrReg r) = regs r"
| "src_val imm regs s = imm s"

fun exec1 :: "(SrcRef \<Rightarrow> 'v) \<Rightarrow> CopyInstr \<Rightarrow> (RegRef \<Rightarrow> 'v) \<Rightarrow> (RegRef \<Rightarrow> 'v)" where
  "exec1 imm (Copy d s) regs = regs(d := src_val imm regs s)"
| "exec1 imm (Swap x y) regs = regs(x := regs y, y := regs x)"

definition exec :: "(SrcRef \<Rightarrow> 'v) \<Rightarrow> CopyInstr list \<Rightarrow> (RegRef \<Rightarrow> 'v) \<Rightarrow> (RegRef \<Rightarrow> 'v)" where
  "exec imm is regs = fold (exec1 imm) is regs"

lemma exec_append [simp]: "exec imm (is @ is') regs = exec imm is' (exec imm is regs)"
  by (simp add: exec_def)

lemma exec_simps [simp]:
  "exec imm [] regs = regs" "exec imm (x # is) regs = exec imm is (exec1 imm x regs)"
  by (simp_all add: exec_def)

subsection \<open>Graphs as maps from destinations to sources\<close>

definition readers :: "(nat \<rightharpoonup> nat) \<Rightarrow> nat \<Rightarrow> nat set" where
  "readers E i = {j. E j = Some i}"

definition cg_of :: "nat \<Rightarrow> (nat \<rightharpoonup> nat) \<Rightarrow> CopyGraph" where
  "cg_of N E = map (\<lambda>i. \<lparr>cn_num_reads = card (readers E i),
     cn_src = (case E i of None \<Rightarrow> - 1 | Some s \<Rightarrow> int s)\<rparr>) [0..<N]"

definition edges_ok :: "nat \<Rightarrow> (nat \<rightharpoonup> nat) \<Rightarrow> bool" where
  "edges_ok N E \<longleftrightarrow> (\<forall>d s. E d = Some s \<longrightarrow> d < N \<and> s < N \<and> s \<noteq> d)"

lemma edges_ok_dom: "edges_ok N E \<Longrightarrow> dom E \<subseteq> {..<N}"
  by (auto simp: edges_ok_def)

lemma finite_readers: "edges_ok N E \<Longrightarrow> finite (readers E i)"
  by (rule finite_subset [of _ "{..<N}"]) (auto simp: readers_def edges_ok_def)

lemma edges_ok_simps:
  "edges_ok N E \<Longrightarrow> edges_ok N (E(d := None))"
  "edges_ok N E \<Longrightarrow> d < N \<Longrightarrow> s < N \<Longrightarrow> s \<noteq> d \<Longrightarrow> edges_ok N (E(d \<mapsto> s))"
  "edges_ok N Map.empty"
  by (auto simp: edges_ok_def)

lemma length_cg_of [simp]: "length (cg_of N E) = N"
  by (simp add: cg_of_def)

lemma nth_cg_of [simp]:
  "i < N \<Longrightarrow> cg_of N E ! i = \<lparr>cn_num_reads = card (readers E i), cn_src = (case E i of None \<Rightarrow> - 1 | Some s \<Rightarrow> int s)\<rparr>"
  by (simp add: cg_of_def)

lemma cg_src_of: "i < N \<Longrightarrow> cg_src (cg_of N E) i = Some (E i)"
  by (simp add: cg_src_def split: option.split)

lemma cg_num_reads_of: "i < N \<Longrightarrow> cg_num_reads (cg_of N E) i = Some (card (readers E i))"
  by (simp add: cg_num_reads_def)

lemma cg_add_node_of:
  assumes "edges_ok N E"
  shows "cg_add_node (cg_of N E) = (N, cg_of (Suc N) E)"
proof -
  have "readers E N = {}" using assms by (auto simp: readers_def edges_ok_def)
  moreover have "E N = None" using assms by (cases "E N") (auto simp: edges_ok_def)
  ultimately show ?thesis by (simp add: cg_add_node_def cg_of_def)
qed

lemma cg_add_edge_of:
  assumes "edges_ok N E" and "d < N" and "s < N" and "s \<noteq> d" and "E d = None"
  shows "cg_add_edge (cg_of N E) d s = Some (cg_of N (E(d \<mapsto> s)))"
proof -
  have r: "readers (E(d \<mapsto> s)) i = (if i = s then insert d (readers E i) else readers E i)" for i
    using assms(5) by (auto simp: readers_def)
  have "d \<notin> readers E s" using assms(5) by (auto simp: readers_def)
  then have c: "card (readers (E(d \<mapsto> s)) s) = card (readers E s) + 1"
    using finite_readers [OF assms(1)] by (simp add: r)
  have "(cg_of N E)[d := \<lparr>cn_num_reads = card (readers E d), cn_src = int s\<rparr>,
      s := \<lparr>cn_num_reads = Suc (card (readers E s)), cn_src = (case E s of None \<Rightarrow> - 1 | Some s \<Rightarrow> int s)\<rparr>] =
      cg_of N (E(d \<mapsto> s))" (is "?l = ?r")
  proof (rule nth_equalityI)
    fix i assume "i < length ?l"
    then show "?l ! i = ?r ! i" using assms(2-4) c r by (auto simp: nth_list_update)
  qed simp
  then show ?thesis using assms by (simp add: cg_add_edge_def Let_def)
qed

lemma cg_del_edge_of:
  assumes "edges_ok N E" and "E d = Some s"
  shows "cg_del_edge (cg_of N E) d s = Some (readers (E(d := None)) s = {}, cg_of N (E(d := None)))"
proof -
  have lt: "d < N" "s < N" "s \<noteq> d" using assms by (auto simp: edges_ok_def)
  have r: "readers (E(d := None)) i = (if i = s then readers E i - {d} else readers E i)" for i
    using assms(2) by (auto simp: readers_def)
  have fin: "finite (readers E s)" using finite_readers [OF assms(1)] .
  have d: "d \<in> readers E s" using assms(2) by (simp add: readers_def)
  then have c: "card (readers (E(d := None)) s) = card (readers E s) - 1" "card (readers E s) > 0"
    using fin by (auto simp: r card_gt_0_iff)
  have z: "card (readers E s) - 1 = 0 \<longleftrightarrow> readers (E(d := None)) s = {}"
    using c(1) finite_readers [OF edges_ok_simps(1) [OF assms(1)], of d s] by (metis card_0_eq)
  have "(cg_of N E)[d := \<lparr>cn_num_reads = card (readers E d), cn_src = - 1\<rparr>,
      s := \<lparr>cn_num_reads = card (readers E s) - 1, cn_src = (case E s of None \<Rightarrow> - 1 | Some s \<Rightarrow> int s)\<rparr>] =
      cg_of N (E(d := None))" (is "?l = ?r")
  proof (rule nth_equalityI)
    fix i assume "i < length ?l"
    then show "?l ! i = ?r ! i" using lt c r by (auto simp: nth_list_update)
  qed simp
  then show ?thesis using lt assms(2) c(2) z by (simp add: cg_del_edge_def Let_def)
qed

subsection \<open>The invariant of the lowering\<close>

text \<open>
  The registers of a value list: destinations first, all registers different, and none of them a
  temporary.
\<close>

definition layout :: "nat \<Rightarrow> SrcRef list \<Rightarrow> RegRef set \<Rightarrow> bool" where
  "layout nd vals T \<longleftrightarrow> nd \<le> length vals \<and> (\<forall>i<nd. sr_as_reg (vals ! i) \<noteq> None) \<and>
     (\<forall>i<length vals. \<forall>j<length vals. \<forall>r. vals ! i = SrReg r \<and> vals ! j = SrReg r \<longrightarrow> i = j) \<and>
     (\<forall>r\<in>T. SrReg r \<notin> set vals)"

abbreviation "vreg vals i \<equiv> the (sr_as_reg (vals ! i))"

lemma sr_as_reg_Some [simp]: "sr_as_reg s = Some r \<longleftrightarrow> s = SrReg r"
  by (cases s) auto

lemma layout_reg: "layout nd vals T \<Longrightarrow> i < nd \<Longrightarrow> vals ! i = SrReg (vreg vals i)"
  by (auto simp: layout_def)

lemma layout_val_reg: "layout nd vals T \<Longrightarrow> i < nd \<Longrightarrow> val_reg vals i = Some (vreg vals i)"
  by (auto simp: val_reg_def layout_def)

lemma layout_neq:
  assumes "layout nd vals T" and "i < nd" and "j < length vals" and "i \<noteq> j"
  shows "vals ! j \<noteq> SrReg (vreg vals i)"
  using assms layout_reg [OF assms(1,2)] unfolding layout_def by (metis order.strict_trans2)

lemma layout_tmp: "layout nd vals T \<Longrightarrow> r \<in> T \<Longrightarrow> j < length vals \<Longrightarrow> vals ! j \<noteq> SrReg r"
  by (auto simp: layout_def in_set_conv_nth)

text \<open>
  The contents of the registers at some point: a destination that has lost its edge has the value it
  wants, and the source of an edge holds the value its destination wants; where \<^term>\<open>hole = Some (i, t)\<close>
  the value of node \<^term>\<open>i\<close> is in \<^term>\<open>t\<close> instead.
\<close>

definition held :: "(SrcRef \<Rightarrow> 'v) \<Rightarrow> SrcRef list \<Rightarrow> (nat \<times> RegRef) option \<Rightarrow> (RegRef \<Rightarrow> 'v) \<Rightarrow> nat \<Rightarrow> 'v" where
  "held imm vals hole regs j =
     (case hole of Some (i, t) \<Rightarrow> if j = i then regs t else src_val imm regs (vals ! j)
      | None \<Rightarrow> src_val imm regs (vals ! j))"

definition pc_inv :: "(SrcRef \<Rightarrow> 'v) \<Rightarrow> nat \<Rightarrow> SrcRef list \<Rightarrow> RegRef set \<Rightarrow> (nat \<Rightarrow> 'v) \<Rightarrow> (RegRef \<Rightarrow> 'v) \<Rightarrow>
    (nat \<times> RegRef) option \<Rightarrow> (nat \<rightharpoonup> nat) \<Rightarrow> (RegRef \<Rightarrow> 'v) \<Rightarrow> bool" where
  "pc_inv imm nd vals T want regs0 hole E regs \<longleftrightarrow>
     (\<forall>i<nd. case E i of None \<Rightarrow> regs (vreg vals i) = want i | Some j \<Rightarrow> held imm vals hole regs j = want i) \<and>
     (\<forall>r. r \<notin> T \<and> (\<forall>i<nd. r \<noteq> vreg vals i) \<longrightarrow> regs r = regs0 r)"

lemma pc_invD:
  assumes "pc_inv imm nd vals T want regs0 hole E regs"
  shows "m < nd \<Longrightarrow> E m = Some n \<Longrightarrow> held imm vals hole regs n = want m"
    and "m < nd \<Longrightarrow> E m = None \<Longrightarrow> regs (vreg vals m) = want m"
    and "r \<notin> T \<Longrightarrow> \<forall>i<nd. r \<noteq> vreg vals i \<Longrightarrow> regs r = regs0 r"
proof -
  have a: "\<And>i. i < nd \<Longrightarrow> case E i of None \<Rightarrow> regs (vreg vals i) = want i | Some j \<Rightarrow> held imm vals hole regs j = want i"
    and b: "\<And>r. r \<notin> T \<and> (\<forall>i<nd. r \<noteq> vreg vals i) \<Longrightarrow> regs r = regs0 r"
    using assms by (simp_all add: pc_inv_def)
  show "m < nd \<Longrightarrow> E m = Some n \<Longrightarrow> held imm vals hole regs n = want m"
    and "m < nd \<Longrightarrow> E m = None \<Longrightarrow> regs (vreg vals m) = want m"
    using a [of m] by simp_all
  show "r \<notin> T \<Longrightarrow> \<forall>i<nd. r \<noteq> vreg vals i \<Longrightarrow> regs r = regs0 r" using b by blast
qed

lemma held_None: "held imm vals None regs j = src_val imm regs (vals ! j)"
  by (simp add: held_def)

lemma held_eqI:
  assumes "layout nd vals T" and "j < length vals" and "\<And>r. r \<notin> T \<Longrightarrow> r \<noteq> vreg vals d \<Longrightarrow> regs' r = regs r"
    and "d < nd" and "j \<noteq> d" and "\<And>t. hole = Some (j, t) \<Longrightarrow> regs' t = regs t"
  shows "held imm vals hole regs' j = held imm vals hole regs j"
proof -
  have "regs' r = regs r" if "vals ! j = SrReg r" for r
    using that assms(3) layout_tmp [OF assms(1) _ assms(2)] layout_neq [OF assms(1,4,2)] assms(5) by metis
  then have "src_val imm regs' (vals ! j) = src_val imm regs (vals ! j)" by (cases "vals ! j") auto
  then show ?thesis using assms(6) by (auto simp: held_def split: option.split)
qed

text \<open>Filling one destination: nobody else reads it, except through the hole.\<close>

lemma pc_inv_fill:
  assumes lay: "layout nd vals T" and inv: "pc_inv imm nd vals T want regs0 hole E regs"
    and ok: "edges_ok (length vals) E" "dom E \<subseteq> {..<nd}" and d: "E d = Some s"
    and unread: "\<And>m. E m = Some d \<Longrightarrow> \<exists>t. hole = Some (d, t)"
    and hole: "\<And>i t. hole = Some (i, t) \<Longrightarrow> regs' t = regs t \<and> t \<in> T"
    and fill: "regs' (vreg vals d) = held imm vals hole regs s"
    and same: "\<And>r. r \<notin> T \<Longrightarrow> r \<noteq> vreg vals d \<Longrightarrow> regs' r = regs r"
  shows "pc_inv imm nd vals T want regs0 hole (E(d := None)) regs'"
proof -
  have dn: "d < nd" using ok(2) d by auto
  have "case (E(d := None)) i of None \<Rightarrow> regs' (vreg vals i) = want i | Some j \<Rightarrow> held imm vals hole regs' j = want i"
    if i: "i < nd" for i
  proof (cases "i = d")
    case True
    then show ?thesis using inv i d fill by (auto simp: pc_inv_def split: option.splits)
  next
    case False
    show ?thesis
    proof (cases "E i")
      case None
      have il: "i < length vals" using i lay by (simp add: layout_def)
      have "vreg vals i \<notin> T" using layout_tmp [OF lay _ il] layout_reg [OF lay i] by metis
      moreover have "vreg vals i \<noteq> vreg vals d"
        using layout_neq [OF lay dn il] layout_reg [OF lay i] False by metis
      ultimately have "regs' (vreg vals i) = regs (vreg vals i)" by (rule same)
      then show ?thesis using inv i None False by (auto simp: pc_inv_def split: option.splits)
    next
      case (Some j)
      have jl: "j < length vals" using ok(1) Some by (auto simp: edges_ok_def)
      have "held imm vals hole regs' j = held imm vals hole regs j"
      proof (cases "j = d")
        case True
        then obtain t where "hole = Some (d, t)" using unread Some by blast
        then show ?thesis using True hole by (auto simp: held_def)
      next
        case False
        then show ?thesis using hole by (intro held_eqI [OF lay jl same dn]) auto
      qed
      then show ?thesis using inv i Some False by (auto simp: pc_inv_def split: option.splits)
    qed
  qed
  moreover have "regs' r = regs0 r" if "r \<notin> T" "\<forall>i<nd. r \<noteq> vreg vals i" for r
    using inv that same dn by (auto simp: pc_inv_def)
  ultimately show ?thesis unfolding pc_inv_def by blast
qed

subsection \<open>Copies\<close>

definition copy_seq :: "RegRef set \<Rightarrow> RegRef \<Rightarrow> SrcRef \<Rightarrow> CopyInstr list \<Rightarrow> bool" where
  "copy_seq T d s is \<longleftrightarrow> is = [Copy d s] \<or> (\<exists>t\<in>T. is = [Copy t s, Copy d (SrReg t)])"

lemma copy_seq_exec:
  assumes "copy_seq T d s is"
  shows "exec imm is regs d = src_val imm regs s"
    and "r \<notin> T \<Longrightarrow> r \<noteq> d \<Longrightarrow> exec imm is regs r = regs r"
  using assms by (auto simp: copy_seq_def)

text \<open>The invariant for all initial contents.\<close>

definition inv_all :: "nat \<Rightarrow> SrcRef list \<Rightarrow> RegRef set \<Rightarrow> ((SrcRef \<Rightarrow> 'v) \<Rightarrow> (RegRef \<Rightarrow> 'v) \<Rightarrow> nat \<Rightarrow> 'v) \<Rightarrow>
    (nat \<times> RegRef) option \<Rightarrow> (nat \<rightharpoonup> nat) \<Rightarrow> CopyInstr list \<Rightarrow> bool" where
  "inv_all nd vals T W hole E out \<longleftrightarrow>
     (\<forall>imm regs0. pc_inv imm nd vals T (W imm regs0) regs0 hole E (exec imm out regs0))"

definition graph_ok :: "nat \<Rightarrow> SrcRef list \<Rightarrow> RegRef set \<Rightarrow> (nat \<rightharpoonup> nat) \<Rightarrow> bool" where
  "graph_ok nd vals T E \<longleftrightarrow> layout nd vals T \<and> edges_ok (length vals) E \<and> dom E \<subseteq> {..<nd}"

lemma graph_okD:
  assumes "graph_ok nd vals T E"
  shows "layout nd vals T" "edges_ok (length vals) E" "dom E \<subseteq> {..<nd}"
    and "E d = Some s \<Longrightarrow> d < nd \<and> d < length vals \<and> s < length vals \<and> s \<noteq> d"
  using assms by (auto simp: graph_ok_def edges_ok_def)

lemma graph_ok_del: "graph_ok nd vals T E \<Longrightarrow> graph_ok nd vals T (E(d := None))"
  by (auto simp: graph_ok_def edges_ok_simps)

lemma inv_all_copy:
  assumes g: "graph_ok nd vals T E" and inv: "inv_all nd vals T W None E out"
    and d: "E d = Some s" and "readers E d = {}" and "copy_seq T (vreg vals d) (vals ! s) is"
  shows "inv_all nd vals T W None (E(d := None)) (out @ is)"
  unfolding inv_all_def
proof (intro allI)
  fix imm regs0
  have i: "pc_inv imm nd vals T (W imm regs0) regs0 None E (exec imm out regs0)"
    using inv by (simp add: inv_all_def)
  show "pc_inv imm nd vals T (W imm regs0) regs0 None (E(d := None)) (exec imm (out @ is) regs0)"
    by (rule pc_inv_fill [OF graph_okD(1) [OF g] i graph_okD(2,3) [OF g] d])
       (use assms(4) copy_seq_exec [OF assms(5)] in \<open>auto simp: readers_def held_def\<close>)
qed

subsection \<open>Well-formed parallel copies\<close>

definition tmp_regs :: "OpParCopy \<Rightarrow> RegRef set" where
  "tmp_regs pc = {r. \<exists>t c. pc_tmp pc = Some t \<and> RegRef_comp t c = Some r}"

definition copies_mem :: "OpParCopy \<Rightarrow> bool" where
  "copies_mem pc \<longleftrightarrow> (\<exists>d src. (DstReg d, src) \<in> set (pc_dsts_srcs pc) \<and>
     (RegRef_file d = Some Mem \<or> RegRef_file d = Some Bar))"

text \<open>
  Memory and barrier destinations need a pair of temporaries; without them the temporary is optional,
  but it is a general register.
\<close>

definition tmp_ok :: "OpParCopy \<Rightarrow> bool" where
  "tmp_ok pc \<longleftrightarrow>
     (case pc_tmp pc of
        None \<Rightarrow> \<not> copies_mem pc
      | Some t \<Rightarrow> RegRef_file t = Some GPR \<and> RegRef_comp t 0 \<noteq> None \<and>
          (copies_mem pc \<longrightarrow> RegRef_comp t 1 \<noteq> None))"

definition reg_ok :: "OpParCopy \<Rightarrow> RegRef \<Rightarrow> bool" where
  "reg_ok pc r \<longleftrightarrow> RegRef_comps r = 1 \<and> RegRef_file r \<noteq> None \<and> r \<notin> tmp_regs pc"

definition src_ok :: "OpParCopy \<Rightarrow> Src \<Rightarrow> bool" where
  "src_ok pc src \<longleftrightarrow> is_unmodified src \<and>
     (case sr_as_reg (reference src) of Some r \<Rightarrow> reg_ok pc r | None \<Rightarrow> sr_get_reg (reference src) = None)"

definition reg_edges :: "OpParCopy \<Rightarrow> (RegRef \<times> RegRef) set" where
  "reg_edges pc = {(d, s). \<exists>src. (DstReg d, src) \<in> set (pc_dsts_srcs pc) \<and> reference src = SrReg s}"

definition par_copy_ok :: "OpParCopy \<Rightarrow> bool" where
  "par_copy_ok pc \<longleftrightarrow>
     (\<forall>(dst, src)\<in>set (pc_dsts_srcs pc). (\<exists>d. dst = DstReg d \<and> reg_ok pc d) \<and> src_ok pc src) \<and>
     distinct (map fst (pc_dsts_srcs pc)) \<and>
     (\<forall>(d, s)\<in>reg_edges pc. (s, d) \<in> (reg_edges pc)\<^sup>* \<longrightarrow> RegRef_file d = RegRef_file s) \<and>
     tmp_ok pc"

text \<open>What the value list has to do with the parallel copy.\<close>

definition pc_vals :: "OpParCopy \<Rightarrow> SrcRef list \<Rightarrow> bool" where
  "pc_vals pc vals \<longleftrightarrow> layout (length (pc_dsts_srcs pc)) vals (tmp_regs pc) \<and>
     (\<forall>i<length (pc_dsts_srcs pc). fst (pc_dsts_srcs pc ! i) = DstReg (vreg vals i)) \<and>
     (\<forall>r. SrReg r \<in> set vals \<longrightarrow> RegRef_file r \<noteq> None)"

lemma pc_vals_dst:
  assumes "par_copy_ok pc" and "pc_vals pc vals" and "d < length (pc_dsts_srcs pc)"
  shows "(DstReg (vreg vals d), snd (pc_dsts_srcs pc ! d)) \<in> set (pc_dsts_srcs pc)"
    and "\<exists>f. RegRef_file (vreg vals d) = Some f \<and> (f = Mem \<or> f = Bar \<longrightarrow> copies_mem pc)"
proof -
  show in_set: "(DstReg (vreg vals d), snd (pc_dsts_srcs pc ! d)) \<in> set (pc_dsts_srcs pc)"
    using assms(2,3) by (metis nth_mem pc_vals_def prod.collapse)
  then have "reg_ok pc (vreg vals d)" using assms(1) by (fastforce simp: par_copy_ok_def)
  then show "\<exists>f. RegRef_file (vreg vals d) = Some f \<and> (f = Mem \<or> f = Bar \<longrightarrow> copies_mem pc)"
    using in_set by (auto simp: reg_ok_def copies_mem_def)
qed

lemma pc_copy_seq:
  assumes "par_copy_ok pc" and "pc_vals pc vals" and "d < length (pc_dsts_srcs pc)" and "s < length vals"
  shows "\<exists>is. pc_copy pc (vreg vals d) (vals ! s) = Some is \<and>
    copy_seq (tmp_regs pc) (vreg vals d) (vals ! s) is"
proof -
  obtain f where f: "RegRef_file (vreg vals d) = Some f" "f = Mem \<or> f = Bar \<longrightarrow> copies_mem pc"
    using pc_vals_dst(2) [OF assms(1-3)] by blast
  have fs: "\<exists>h. RegRef_file r = Some h" if "sr_as_reg (vals ! s) = Some r" for r
    using that assms(2,4) by (auto simp: pc_vals_def) (metis nth_mem)
  have "\<exists>b. copy_needs_tmp (vreg vals d) (vals ! s) = Some b \<and> (b \<longrightarrow> f = Mem \<or> f = Bar)"
    using fs f(1) by (cases "sr_as_reg (vals ! s)") (auto simp: copy_needs_tmp_def)
  then obtain b where b: "copy_needs_tmp (vreg vals d) (vals ! s) = Some b" "b \<longrightarrow> f = Mem \<or> f = Bar"
    by blast
  show ?thesis
  proof (cases b)
    case False
    then show ?thesis using b by (simp add: pc_copy_def copy_seq_def)
  next
    case True
    then have "copies_mem pc" using b f by blast
    then obtain t t0 where t: "pc_tmp pc = Some t" "RegRef_comp t 0 = Some t0"
      using assms(1) by (auto simp: par_copy_ok_def tmp_ok_def split: option.splits)
    then have "t0 \<in> tmp_regs pc" by (auto simp: tmp_regs_def)
    then show ?thesis using True b t by (simp add: pc_copy_def copy_seq_def)
  qed
qed

subsection \<open>The ready loop\<close>

definition ready_ok :: "nat \<Rightarrow> (nat \<rightharpoonup> nat) \<Rightarrow> nat list \<Rightarrow> bool" where
  "ready_ok N E ready \<longleftrightarrow> (\<forall>i\<in>set ready. i < N \<and> readers E i = {}) \<and>
     (\<forall>i\<in>dom E. readers E i = {} \<longrightarrow> i \<in> set ready)"

lemma ready_loop_spec:
  assumes "par_copy_ok pc" and "pc_vals pc vals"
    and "graph_ok (length (pc_dsts_srcs pc)) vals (tmp_regs pc) E" and "E \<subseteq>\<^sub>m E0"
    and "ready_ok (length vals) E ready"
    and "inv_all (length (pc_dsts_srcs pc)) vals (tmp_regs pc) W None E out"
  shows "\<exists>E' out'. ready_loop pc vals ready (cg_of (length vals) E) out = Some (cg_of (length vals) E', out') \<and>
    graph_ok (length (pc_dsts_srcs pc)) vals (tmp_regs pc) E' \<and> E' \<subseteq>\<^sub>m E0 \<and>
    (\<forall>i\<in>dom E'. readers E' i \<noteq> {}) \<and>
    inv_all (length (pc_dsts_srcs pc)) vals (tmp_regs pc) W None E' out'"
  using assms(3-6)
proof (induction "2 * card (dom E) + length ready" arbitrary: E ready out rule: less_induct)
  case less
  let ?N = "length vals" and ?nd = "length (pc_dsts_srcs pc)" and ?T = "tmp_regs pc"
  note g = graph_okD [OF less.prems(1)]
  show ?case
  proof (cases ready)
    case Nil
    then have "ready_loop pc vals ready (cg_of ?N E) out = Some (cg_of ?N E, out)"
      by (subst ready_loop.simps) simp
    then show ?thesis using Nil less.prems by (auto simp: ready_ok_def)
  next
    case (Cons d ready')
    have dl: "d < ?N" and dr: "readers E d = {}" using less.prems(3) Cons by (auto simp: ready_ok_def)
    show ?thesis
    proof (cases "E d")
      case None
      have "ready_loop pc vals ready (cg_of ?N E) out = ready_loop pc vals ready' (cg_of ?N E) out"
        using None Cons by (subst ready_loop.simps) (simp add: cg_src_of dl)
      moreover have "ready_ok ?N E ready'" using less.prems(3) Cons None by (auto simp: ready_ok_def)
      ultimately show ?thesis
        using less.hyps [of E ready' out] less.prems(1,2,4) Cons by simp
    next
      case (Some s)
      let ?E = "E(d := None)" and ?ready = "if readers (E(d := None)) s = {} then s # ready' else ready'"
      have lt: "d < ?nd" "s < ?N" using g(4) [OF Some] by auto
      obtain "is" where c: "pc_copy pc (vreg vals d) (vals ! s) = Some is" "copy_seq ?T (vreg vals d) (vals ! s) is"
        using pc_copy_seq [OF assms(1,2) lt] by blast
      have step: "ready_loop pc vals ready (cg_of ?N E) out = ready_loop pc vals ?ready (cg_of ?N ?E) (out @ is)"
        using Cons Some lt dl c(1) layout_val_reg [OF g(1) lt(1)]
        by (subst ready_loop.simps) (simp add: cg_src_of cg_del_edge_of [OF g(2) Some])
      have fin: "finite (dom E)" using g(3) finite_subset by blast
      have "card (dom ?E) < card (dom E)" using fin Some by (intro psubset_card_mono) auto
      then have "2 * card (dom ?E) + length ?ready < 2 * card (dom E) + length ready"
        using Cons by (auto split: if_splits)
      moreover have "graph_ok ?nd vals ?T ?E" using less.prems(1) by (rule graph_ok_del)
      moreover have "?E \<subseteq>\<^sub>m E0" using less.prems(2) by (auto simp: map_le_def)
      moreover have "ready_ok ?N ?E ?ready"
      proof -
        have sub: "readers ?E i \<subseteq> readers E i" for i by (auto simp: readers_def)
        have eq: "readers ?E i = readers E i" if "i \<noteq> s" for i using Some that by (auto simp: readers_def)
        have "i < ?N \<and> readers ?E i = {}" if "i \<in> set ?ready" for i
        proof (cases "i \<in> set ready'")
          case True
          then show ?thesis using less.prems(3) Cons sub [of i] by (auto simp: ready_ok_def)
        next
          case False
          with that have "i = s" "readers ?E s = {}" by (auto split: if_splits)
          then show ?thesis using lt(2) by blast
        qed
        moreover have "i \<in> set ?ready" if "i \<in> dom ?E" "readers ?E i = {}" for i
        proof (cases "i = s")
          case False
          then have "i \<in> set ready" using that eq [of i] less.prems(3) by (auto simp: ready_ok_def)
          then show ?thesis using Cons that(1) by auto
        qed (use that in simp)
        ultimately show ?thesis unfolding ready_ok_def by blast
      qed
      moreover have "inv_all ?nd vals ?T W None ?E (out @ is)"
        using inv_all_copy [OF less.prems(1,4) Some dr c(2)] .
      ultimately show ?thesis unfolding step by (rule less.hyps)
    qed
  qed
qed

subsection \<open>Only cycles are left\<close>

definition perm :: "(nat \<rightharpoonup> nat) \<Rightarrow> bool" where
  "perm E \<longleftrightarrow> inj_on E (dom E) \<and> ran E = dom E"

lemma perm_if_all_read:
  assumes "finite (dom E)" and "\<forall>i\<in>dom E. readers E i \<noteq> {}"
  shows "perm E"
proof -
  let ?f = "\<lambda>i. the (E i)"
  have img: "?f ` dom E = ran E" by (force simp: ran_def image_iff)
  have "dom E \<subseteq> ran E" using assms(2) by (auto simp: readers_def ran_def)
  moreover have "card (ran E) \<le> card (dom E)" using card_image_le [OF assms(1), of ?f] by (simp add: img)
  moreover have "finite (ran E)" using assms(1) img by (metis finite_imageI)
  ultimately have eq: "dom E = ran E" using card_seteq by blast
  then have "card (?f ` dom E) = card (dom E)" unfolding img by simp
  then have "inj_on ?f (dom E)" by (rule eq_card_imp_inj_on [OF assms(1)])
  then have "inj_on E (dom E)" by (auto simp: inj_on_def)
  with eq show ?thesis by (simp add: perm_def)
qed

lemma permD:
  assumes "perm E" and "E m = Some l"
  shows "\<exists>k. E l = Some k" and "E m' = Some l \<Longrightarrow> m' = m"
proof -
  have "l \<in> dom E" using assms by (auto simp: perm_def ran_def)
  then show "\<exists>k. E l = Some k" by blast
  show "m' = m" if "E m' = Some l"
    using assms that unfolding perm_def inj_on_def by (metis domI)
qed

lemma ran_del:
  assumes "inj_on E (dom E)" and "E d = Some s"
  shows "ran (E(d := None)) = ran E - {s}"
proof (rule set_eqI)
  fix x
  have "x \<in> ran (E(d := None)) \<longleftrightarrow> (\<exists>a. a \<noteq> d \<and> E a = Some x)" by (auto simp: ran_def)
  also have "\<dots> \<longleftrightarrow> (\<exists>a. E a = Some x) \<and> x \<noteq> s"
    using assms unfolding inj_on_def by (metis domI option.inject)
  also have "\<dots> \<longleftrightarrow> x \<in> ran E - {s}" by (simp add: ran_def)
  finally show "x \<in> ran (E(d := None)) \<longleftrightarrow> x \<in> ran E - {s}" .
qed

lemma inj_del: "inj_on E (dom E) \<Longrightarrow> inj_on (E(d := None)) (dom (E(d := None)))"
  by (auto simp: inj_on_def dom_def)

lemma inj_upd:
  assumes "inj_on E (dom E)" and "k \<notin> ran E"
  shows "inj_on (E(i \<mapsto> k)) (dom (E(i \<mapsto> k)))"
proof (rule inj_onI)
  fix x y assume h: "x \<in> dom (E(i \<mapsto> k))" "y \<in> dom (E(i \<mapsto> k))" "(E(i \<mapsto> k)) x = (E(i \<mapsto> k)) y"
  have k: "E z \<noteq> Some k" for z using assms(2) by (simp add: ran_def)
  show "x = y" using h k [of x] k [of y] inj_onD [OF assms(1), of x y]
    by (cases "x = i"; cases "y = i") auto
qed

text \<open>Shortening a cycle by one node.\<close>

definition skip :: "nat \<Rightarrow> nat \<Rightarrow> nat \<Rightarrow> (nat \<rightharpoonup> nat) \<Rightarrow> (nat \<rightharpoonup> nat)" where
  "skip i j k E = (if i = k then E(i := None, j := None) else E(i := Some k, j := None))"

lemma perm_skip:
  assumes "perm E" and "E i = Some j" and "E j = Some k" and "i \<noteq> j"
  shows "perm (skip i j k E)"
proof -
  have inj: "inj_on E (dom E)" and ran: "ran E = dom E" using assms(1) by (auto simp: perm_def)
  let ?E = "E(i := None)"
  have ij: "?E j = Some k" using assms by simp
  have r: "ran (?E(j := None)) = ran E - {j} - {k}"
    by (simp only: ran_del [OF inj_del [OF inj, of i] ij] ran_del [OF inj assms(2)])
  have inj2: "inj_on (?E(j := None)) (dom (?E(j := None)))" using inj by (intro inj_del)
  show ?thesis
  proof (cases "i = k")
    case True
    then show ?thesis using r inj2 ran by (auto simp: perm_def skip_def)
  next
    case False
    have k: "k \<in> ran E" using assms(3) by (auto simp: ran_def)
    have jk: "k \<noteq> j" using permD(2) [OF assms(1,2), of j] assms(3,4) by auto
    have E': "skip i j k E = (?E(j := None))(i \<mapsto> k)" using False assms(4) by (auto simp: skip_def)
    have "k \<notin> ran (?E(j := None))" using r by simp
    then have "inj_on (skip i j k E) (dom (skip i j k E))" unfolding E' by (rule inj_upd [OF inj2])
    moreover have "ran (skip i j k E) = insert k (ran (?E(j := None)))"
      unfolding E' using assms(4) by (subst ran_map_upd) simp_all
    ultimately show ?thesis using r ran k jk False assms(2) by (auto simp: perm_def skip_def)
  qed
qed

lemma skip_graph_ok:
  assumes "graph_ok nd vals T E" and "E i = Some j" and "E j = Some k"
  shows "graph_ok nd vals T (skip i j k E)" and "card (dom (skip i j k E)) < card (dom E)"
proof -
  note g = graph_okD [OF assms(1)]
  show "graph_ok nd vals T (skip i j k E)"
    using assms(1) g(4) [OF assms(2)] g(4) [OF assms(3)]
    by (auto simp: graph_ok_def skip_def edges_ok_simps edges_ok_def)
  show "card (dom (skip i j k E)) < card (dom E)"
  proof (rule psubset_card_mono)
    show "finite (dom E)" using g(3) finite_subset by blast
    show "dom (skip i j k E) \<subset> dom E" using assms(2,3) by (auto simp: skip_def)
  qed
qed

lemma pc_inv_swap:
  assumes g: "graph_ok nd vals T E" and p: "perm E" and i: "E i = Some j" and j: "E j = Some k"
    and inv: "pc_inv imm nd vals T want regs0 None E regs"
  shows "pc_inv imm nd vals T want regs0 None (skip i j k E)
    (exec1 imm (Swap (vreg vals j) (vreg vals k)) regs)"
proof -
  let ?x = "vreg vals" and ?E = "skip i j k E"
  let ?regs = "exec1 imm (Swap (vreg vals j) (vreg vals k)) regs"
  note gd = graph_okD [OF g] and lay = graph_okD(1) [OF g]
  obtain l where kl: "E k = Some l" using permD(1) [OF p j] by blast
  have lt: "i < nd" "j < nd" "k < nd" "j \<noteq> i" "k \<noteq> j" "k < length vals" "j < length vals"
    using gd(4) [OF i] gd(4) [OF j] gd(4) [OF kl] by auto
  have ne: "?x m \<noteq> ?x n" if "m < nd" "n < nd" "m \<noteq> n" for m n
    using layout_neq [OF lay that(1), of n] layout_reg [OF lay that(2)] that lay by (auto simp: layout_def)
  have at: "vals ! m = SrReg (?x m)" if "m < nd" for m using layout_reg [OF lay that] .
  have want: "regs (?x j) = want i" "regs (?x k) = want j"
    using pc_invD(1) [OF inv lt(1) i] pc_invD(1) [OF inv lt(2) j] at lt by (metis held_None src_val.simps(1))+
  have other: "?regs (?x m) = regs (?x m)" if "m < nd" "m \<noteq> j" "m \<noteq> k" for m
    using that ne lt by simp
  have src: "src_val imm ?regs (vals ! n) = src_val imm regs (vals ! n)" if "n < length vals" "n \<noteq> j" "n \<noteq> k" for n
    using layout_neq [OF lay lt(2) that(1)] layout_neq [OF lay lt(3) that(1)] that by (cases "vals ! n") auto
  have "case ?E m of None \<Rightarrow> ?regs (?x m) = want m | Some n \<Rightarrow> held imm vals None ?regs n = want m" if m: "m < nd" for m
  proof -
    consider "m = j" | "m = i" "k = i" | "m = i" "k \<noteq> i" | "m \<noteq> i" "m \<noteq> j" by blast
    then show ?thesis
    proof cases
      case 1
      then have "?E m = None" using lt by (simp add: skip_def)
      then show ?thesis using 1 want ne lt by simp
    next
      case 2
      then have "?E m = None" by (simp add: skip_def)
      then show ?thesis using 2 want lt by simp
    next
      case 3
      then have "?E m = Some k" using lt by (simp add: skip_def)
      moreover have "held imm vals None ?regs k = ?regs (?x k)"
        using at [OF lt(3)] by (metis held_None src_val.simps(1))
      ultimately show ?thesis using 3 want by simp
    next
      case 4
      then have E: "?E m = E m" by (simp add: skip_def)
      show ?thesis
      proof (cases "E m")
        case None
        with kl have "m \<noteq> k" by auto
        then show ?thesis using pc_invD(2) [OF inv m None] None 4 other [OF m] unfolding E by simp
      next
        case (Some n)
        have "n \<noteq> j" "n \<noteq> k" using permD(2) [OF p i, of m] permD(2) [OF p j, of m] Some 4 by auto
        then have "held imm vals None ?regs n = held imm vals None regs n"
          using src [of n] gd(4) [OF Some] by (simp add: held_def)
        then show ?thesis using pc_invD(1) [OF inv m Some] Some unfolding E by simp
      qed
    qed
  qed
  moreover have "?regs r = regs0 r" if "r \<notin> T" "\<forall>i<nd. r \<noteq> ?x i" for r
    using pc_invD(3) [OF inv] that lt by simp
  ultimately show ?thesis unfolding pc_inv_def by blast
qed

subsection \<open>Cycles by swaps\<close>

definition same_files :: "SrcRef list \<Rightarrow> (nat \<rightharpoonup> nat) \<Rightarrow> bool" where
  "same_files vals E \<longleftrightarrow> (\<forall>m l. E m = Some l \<longrightarrow>
     (\<exists>f. RegRef_file (vreg vals m) = Some f \<and> RegRef_file (vreg vals l) = Some f))"

lemma same_filesD:
  "same_files vals E \<Longrightarrow> E m = Some l \<Longrightarrow> \<exists>f. RegRef_file (vreg vals m) = Some f \<and> RegRef_file (vreg vals l) = Some f"
  by (simp add: same_files_def)

definition cycles_ok :: "nat \<Rightarrow> SrcRef list \<Rightarrow> RegRef set \<Rightarrow> ((SrcRef \<Rightarrow> 'v) \<Rightarrow> (RegRef \<Rightarrow> 'v) \<Rightarrow> nat \<Rightarrow> 'v) \<Rightarrow>
    (nat \<rightharpoonup> nat) \<Rightarrow> CopyInstr list \<Rightarrow> bool" where
  "cycles_ok nd vals T W E out \<longleftrightarrow> graph_ok nd vals T E \<and> perm E \<and> same_files vals E \<and>
     inv_all nd vals T W None E out"

lemma cycles_okD:
  assumes "cycles_ok nd vals T W E out"
  shows "graph_ok nd vals T E" "perm E" "same_files vals E" "inv_all nd vals T W None E out"
  using assms by (simp_all add: cycles_ok_def)

lemma cycles_ok_skip:
  assumes c: "cycles_ok nd vals T W E out" and i: "E i = Some j" and j: "E j = Some k"
  shows "cycles_ok nd vals T W (skip i j k E) (out @ [Swap (vreg vals j) (vreg vals k)])"
  unfolding cycles_ok_def
proof (intro conjI)
  note cd = cycles_okD [OF c]
  have ij: "i \<noteq> j" using graph_okD(4) [OF cd(1) i] by blast
  show "graph_ok nd vals T (skip i j k E)" using skip_graph_ok(1) [OF cd(1) i j] .
  show "perm (skip i j k E)" using perm_skip [OF cd(2) i j ij] .
  show "same_files vals (skip i j k E)"
    using cd(3) same_filesD [OF cd(3) i] same_filesD [OF cd(3) j]
    unfolding same_files_def skip_def by (auto split: if_splits)
  show "inv_all nd vals T W None (skip i j k E) (out @ [Swap (vreg vals j) (vreg vals k)])"
    using cd(4) pc_inv_swap [OF cd(1,2) i j] unfolding inv_all_def exec_append exec_simps by blast
qed

lemma skip_edges:
  assumes "graph_ok nd vals T E" and "E i = Some j" and "E j = Some k"
  shows "cg_del_edge (cg_of (length vals) E) i j = Some (readers (E(i := None)) j = {}, cg_of (length vals) (E(i := None)))"
    and "cg_del_edge (cg_of (length vals) (E(i := None))) j k =
      Some (readers (E(i := None, j := None)) k = {}, cg_of (length vals) (E(i := None, j := None)))"
    and "i \<noteq> k \<Longrightarrow> cg_add_edge (cg_of (length vals) (E(i := None, j := None))) i k =
      Some (cg_of (length vals) (skip i j k E))"
proof -
  note g = graph_okD [OF assms(1)]
  have ij: "i \<noteq> j" using g(4) [OF assms(2)] by blast
  have g1: "edges_ok (length vals) (E(i := None))" using edges_ok_simps(1) [OF g(2)] .
  then have g2: "edges_ok (length vals) (E(i := None, j := None))" by (rule edges_ok_simps(1))
  show "cg_del_edge (cg_of (length vals) E) i j = Some (readers (E(i := None)) j = {}, cg_of (length vals) (E(i := None)))"
    using cg_del_edge_of [OF g(2) assms(2)] .
  show "cg_del_edge (cg_of (length vals) (E(i := None))) j k =
      Some (readers (E(i := None, j := None)) k = {}, cg_of (length vals) (E(i := None, j := None)))"
    using assms(3) ij by (intro cg_del_edge_of [OF g1]) simp
  show "cg_add_edge (cg_of (length vals) (E(i := None, j := None))) i k = Some (cg_of (length vals) (skip i j k E))"
    if "i \<noteq> k"
  proof -
    have "skip i j k E = (E(i := None, j := None))(i \<mapsto> k)" using that ij by (auto simp: skip_def)
    then show ?thesis
      using cg_add_edge_of [OF g2, of i k] g(4) [OF assms(2)] g(4) [OF assms(3)] that ij by simp
  qed
qed

lemma swap_loop_spec:
  assumes "cycles_ok nd vals T W E out" and "E i = Some j"
  shows "\<exists>E' out'. swap_loop vals i (cg_of (length vals) E) out = Some (cg_of (length vals) E', out') \<and>
    cycles_ok nd vals T W E' out' \<and> E' i = None \<and> dom E' \<subseteq> dom E"
  using assms
proof (induction "card (dom E)" arbitrary: E out j rule: less_induct)
  case less
  let ?N = "length vals"
  note c = cycles_okD [OF less.prems(1)] and g = graph_okD [OF cycles_okD(1) [OF less.prems(1)]]
  obtain k where k: "E j = Some k" using permD(1) [OF c(2) less.prems(2)] by blast
  obtain l where l: "E k = Some l" using permD(1) [OF c(2) k] by blast
  have lt: "i < ?N" "j < ?N" "j < nd" "k < nd" using g(4) [OF less.prems(2)] g(4) [OF k] g(4) [OF l] by auto
  let ?E = "skip i j k E" and ?out = "out @ [Swap (vreg vals j) (vreg vals k)]"
  have sw: "b_swap (vreg vals j) (vreg vals k) = Some (Swap (vreg vals j) (vreg vals k))"
    using same_filesD [OF c(3) k] by (auto simp: b_swap_def)
  note e = skip_edges [OF c(1) less.prems(2) k]
  have step: "swap_loop vals i (cg_of ?N E) out =
      (if i = k then Some (cg_of ?N ?E, ?out) else swap_loop vals i (cg_of ?N ?E) ?out)"
    using lt k less.prems(2) sw e layout_val_reg [OF g(1) lt(3)] layout_val_reg [OF g(1) lt(4)]
    by (subst swap_loop.simps) (auto simp: cg_src_of skip_def)
  have next_ok: "cycles_ok nd vals T W ?E ?out" using cycles_ok_skip [OF less.prems k] .
  have sub: "dom ?E \<subseteq> dom E" using less.prems(2) by (auto simp: skip_def)
  show ?case
  proof (cases "i = k")
    case True
    then have "?E i = None" using g(4) [OF less.prems(2)] by (simp add: skip_def)
    then show ?thesis using step next_ok sub True by auto
  next
    case False
    then have "?E i = Some k" using g(4) [OF less.prems(2)] by (simp add: skip_def)
    from less.hyps [OF skip_graph_ok(2) [OF c(1) less.prems(2) k] next_ok this]
    obtain E' out' where "swap_loop vals i (cg_of ?N ?E) ?out = Some (cg_of ?N E', out')"
      "cycles_ok nd vals T W E' out'" "E' i = None" "dom E' \<subseteq> dom ?E" by blast
    then show ?thesis using step False sub by (intro exI [of _ E'] exI [of _ out']) simp
  qed
qed

subsection \<open>Cycles by a temporary\<close>

definition hole_ok :: "(nat \<rightharpoonup> nat) \<Rightarrow> nat \<Rightarrow> nat \<Rightarrow> bool" where
  "hole_ok E p i \<longleftrightarrow> p \<in> dom E \<and> inj_on E (dom E) \<and> ran E = insert i (dom E - {p}) \<and> (p = i \<or> i \<notin> dom E)"

definition chain_ok :: "nat \<Rightarrow> SrcRef list \<Rightarrow> RegRef set \<Rightarrow> ((SrcRef \<Rightarrow> 'v) \<Rightarrow> (RegRef \<Rightarrow> 'v) \<Rightarrow> nat \<Rightarrow> 'v) \<Rightarrow>
    nat \<Rightarrow> RegRef \<Rightarrow> nat \<Rightarrow> (nat \<rightharpoonup> nat) \<Rightarrow> CopyInstr list \<Rightarrow> bool" where
  "chain_ok nd vals T W i t p E out \<longleftrightarrow> graph_ok nd vals T E \<and> hole_ok E p i \<and> same_files vals E \<and>
     inv_all nd vals T W (Some (i, t)) E out"

lemma chain_okD:
  assumes "chain_ok nd vals T W i t p E out"
  shows "graph_ok nd vals T E" "hole_ok E p i" "same_files vals E" "inv_all nd vals T W (Some (i, t)) E out"
  using assms by (simp_all add: chain_ok_def)

lemma same_files_del: "same_files vals E \<Longrightarrow> same_files vals (E(d := None))"
  by (simp add: same_files_def)

text \<open>The first node is saved in the temporary.\<close>

lemma chain_start:
  fixes W :: "(SrcRef \<Rightarrow> 'v) \<Rightarrow> (RegRef \<Rightarrow> 'v) \<Rightarrow> nat \<Rightarrow> 'v"
  assumes c: "cycles_ok nd vals T W E out" and i: "E i = Some j" and t: "t \<in> T"
  shows "chain_ok nd vals T W i t i E (out @ [Copy t (SrReg (vreg vals i))])"
proof -
  note cd = cycles_okD [OF c] and g = graph_okD [OF cycles_okD(1) [OF c]]
  have "hole_ok E i i" using cd(2) i by (auto simp: hole_ok_def perm_def)
  moreover have "inv_all nd vals T W (Some (i, t)) E (out @ [Copy t (SrReg (vreg vals i))])"
    unfolding inv_all_def
  proof (intro allI)
    fix imm :: "SrcRef \<Rightarrow> 'v" and regs0
    let ?regs = "exec imm out regs0"
    let ?regs' = "exec imm (out @ [Copy t (SrReg (vreg vals i))]) regs0"
    have inv: "pc_inv imm nd vals T (W imm regs0) regs0 None E ?regs" using cd(4) by (simp add: inv_all_def)
    have r': "?regs' = ?regs(t := ?regs (vreg vals i))" by simp
    have iv: "vals ! i = SrReg (vreg vals i)" using layout_reg [OF g(1)] g(4) [OF i] by blast
    have vi: "src_val imm ?regs (vals ! i) = ?regs (vreg vals i)" using iv by (metis src_val.simps(1))
    have src: "src_val imm ?regs' (vals ! n) = src_val imm ?regs (vals ! n)" if "n < length vals" for n
      using layout_tmp [OF g(1) t that] unfolding r' by (cases "vals ! n") auto
    have held: "held imm vals (Some (i, t)) ?regs' n = held imm vals None ?regs n" if "n < length vals" for n
    proof (cases "n = i")
      case True
      then show ?thesis using vi unfolding r' by (simp add: held_def)
    next
      case False
      then show ?thesis using src [OF that] unfolding held_def by simp
    qed
    have "case E m of None \<Rightarrow> ?regs' (vreg vals m) = W imm regs0 m
        | Some n \<Rightarrow> held imm vals (Some (i, t)) ?regs' n = W imm regs0 m" if m: "m < nd" for m
    proof (cases "E m")
      case None
      have "m < length vals" using m g(1) by (simp add: layout_def)
      then have "vreg vals m \<noteq> t" using layout_tmp [OF g(1) t] layout_reg [OF g(1) m] by metis
      then show ?thesis using pc_invD(2) [OF inv m None] None by simp
    next
      case (Some n)
      then show ?thesis using pc_invD(1) [OF inv m Some] held g(4) [OF Some] by simp
    qed
    moreover have "?regs' r = regs0 r" if "r \<notin> T" "\<forall>i<nd. r \<noteq> vreg vals i" for r
      using pc_invD(3) [OF inv] that t by auto
    ultimately show "pc_inv imm nd vals T (W imm regs0) regs0 (Some (i, t)) E ?regs'"
      unfolding pc_inv_def by blast
  qed
  ultimately show ?thesis using cd by (simp add: chain_ok_def)
qed

text \<open>Nobody but the hole reads the node that is about to be filled.\<close>

lemma hole_unread:
  assumes "hole_ok E p i" and "E m = Some p"
  shows "p = i"
proof -
  have "p \<in> ran E" using assms(2) by (auto simp: ran_def)
  then show ?thesis using assms(1) by (auto simp: hole_ok_def)
qed

lemma inv_all_chain:
  assumes c: "chain_ok nd vals T W i t p E out" and t: "t \<in> T" and d: "E p = Some s"
    and seq: "copy_seq (T - {t}) (vreg vals p) (if s = i then SrReg t else vals ! s) is"
  shows "inv_all nd vals T W (Some (i, t)) (E(p := None)) (out @ is)"
  unfolding inv_all_def
proof (intro allI)
  fix imm regs0
  note cd = chain_okD [OF c] and g = graph_okD [OF chain_okD(1) [OF c]]
  have i: "pc_inv imm nd vals T (W imm regs0) regs0 (Some (i, t)) E (exec imm out regs0)"
    using cd(4) by (simp add: inv_all_def)
  have "p < nd" "p < length vals" using g(4) [OF d] by auto
  then have "vreg vals p \<noteq> t" using layout_tmp [OF g(1) t] layout_reg [OF g(1)] by metis
  then have keep: "exec imm is regs t = regs t" for regs
    using copy_seq_exec(2) [OF seq, of t] by simp
  show "pc_inv imm nd vals T (W imm regs0) regs0 (Some (i, t)) (E(p := None)) (exec imm (out @ is) regs0)"
  proof (rule pc_inv_fill [OF g(1) i g(2,3) d])
    show "\<exists>t'. Some (i, t) = Some (p, t')" if "E m = Some p" for m using hole_unread [OF cd(2) that] by simp
    show "exec imm (out @ is) regs0 t' = exec imm out regs0 t' \<and> t' \<in> T" if "Some (i, t) = Some (i', t')" for i' t'
      using that keep t by simp
    show "exec imm (out @ is) regs0 (vreg vals p) = held imm vals (Some (i, t)) (exec imm out regs0) s"
      using copy_seq_exec(1) [OF seq, of imm "exec imm out regs0"] by (cases "s = i") (simp_all add: held_def)
    show "exec imm (out @ is) regs0 r = exec imm out regs0 r" if "r \<notin> T" "r \<noteq> vreg vals p" for r
      using copy_seq_exec(2) [OF seq, of r imm "exec imm out regs0"] that by simp
  qed
qed

lemma chain_step:
  assumes c: "chain_ok nd vals T W i t p E out" and t: "t \<in> T" and d: "E p = Some j" and "j \<noteq> i"
    and "copy_seq (T - {t}) (vreg vals p) (vals ! j) is"
  shows "chain_ok nd vals T W i t j (E(p := None)) (out @ is)"
proof -
  note cd = chain_okD [OF c]
  have h: "p \<in> dom E" "inj_on E (dom E)" "ran E = insert i (dom E - {p})" "p = i \<or> i \<notin> dom E"
    using cd(2) by (auto simp: hole_ok_def)
  have "j \<in> ran E" using d by (auto simp: ran_def)
  then have "j \<in> dom E - {p}" using h(3) assms(4) by auto
  then have "hole_ok (E(p := None)) j i"
    using ran_del [OF h(2) d] inj_del [OF h(2), of p] h(3,4) assms(4) by (auto simp: hole_ok_def)
  then show ?thesis
    using inv_all_chain [OF c t d] assms(4,5) graph_ok_del [OF cd(1), of p] same_files_del [OF cd(3), of p]
    by (simp add: chain_ok_def)
qed

lemma pc_inv_close:
  assumes "pc_inv imm nd vals T want regs0 (Some (i, t)) E regs" and "i \<notin> ran E"
  shows "pc_inv imm nd vals T want regs0 None E regs"
proof -
  have "case E m of None \<Rightarrow> regs (vreg vals m) = want m | Some n \<Rightarrow> held imm vals None regs n = want m"
    if m: "m < nd" for m
  proof (cases "E m")
    case None
    then show ?thesis using pc_invD(2) [OF assms(1) m] by simp
  next
    case (Some n)
    then have "n \<noteq> i" using assms(2) by (auto simp: ran_def)
    then show ?thesis using pc_invD(1) [OF assms(1) m Some] Some by (simp add: held_def)
  qed
  then show ?thesis using pc_invD(3) [OF assms(1)] unfolding pc_inv_def by blast
qed

lemma chain_end:
  assumes c: "chain_ok nd vals T W i t p E out" and t: "t \<in> T" and d: "E p = Some i"
  shows "cycles_ok nd vals T W (E(p := None)) (out @ [Copy (vreg vals p) (SrReg t)])"
proof -
  note cd = chain_okD [OF c] and g = graph_okD [OF chain_okD(1) [OF c]]
  have h: "inj_on E (dom E)" "ran E = insert i (dom E - {p})" "i \<notin> dom E"
    using cd(2) g(4) [OF d] by (auto simp: hole_ok_def)
  have r: "ran (E(p := None)) = dom (E(p := None))" using ran_del [OF h(1) d] h(2,3) by auto
  then have "perm (E(p := None))" using inj_del [OF h(1), of p] by (simp add: perm_def)
  moreover have "inv_all nd vals T W None (E(p := None)) (out @ [Copy (vreg vals p) (SrReg t)])"
  proof -
    have "copy_seq (T - {t}) (vreg vals p) (if i = i then SrReg t else vals ! i) [Copy (vreg vals p) (SrReg t)]"
      by (simp add: copy_seq_def)
    from inv_all_chain [OF c t d this]
    have inv: "inv_all nd vals T W (Some (i, t)) (E(p := None)) (out @ [Copy (vreg vals p) (SrReg t)])" .
    have "i \<notin> ran (E(p := None))" unfolding r using h(3) by simp
    with inv show ?thesis unfolding inv_all_def using pc_inv_close by blast
  qed
  ultimately show ?thesis
    using graph_ok_del [OF cd(1), of p] same_files_del [OF cd(3), of p] by (simp add: cycles_ok_def)
qed

lemma RegRef_comp_distinct:
  assumes "RegRef_comp t 0 = Some t0" and "RegRef_comp t 1 = Some t1"
  shows "t0 \<noteq> t1"
  using assms
  by (auto simp: RegRef_comp_def panic_simps split: option.splits dest!: RegRef_new_fields(1))

lemma cycle_copy_seq:
  assumes "par_copy_ok pc" and t: "pc_tmp pc = Some t" "RegRef_comp t 0 = Some t0"
    and "RegRef_file j_reg = Some file" and "file = Bar \<or> file = Mem \<Longrightarrow> copies_mem pc"
  shows "\<exists>is. cycle_copy t file p_reg j_reg = Some is \<and>
    copy_seq (tmp_regs pc - {t0}) p_reg (SrReg j_reg) is"
proof (cases "file = Bar \<or> file = Mem")
  case True
  then obtain t1 where t1: "RegRef_comp t 1 = Some t1"
    using assms by (auto simp: par_copy_ok_def tmp_ok_def)
  then have "t1 \<in> tmp_regs pc - {t0}" using t RegRef_comp_distinct [OF t(2)] by (auto simp: tmp_regs_def)
  then show ?thesis using True t1 assms(4) by (auto simp: cycle_copy_def copy_seq_def)
next
  case False
  then show ?thesis using assms(4) by (simp add: cycle_copy_def copy_seq_def)
qed

lemma tmp_loop_spec:
  assumes "par_copy_ok pc" and "pc_vals pc vals" and t: "pc_tmp pc = Some t" "RegRef_comp t 0 = Some t0"
    and "chain_ok (length (pc_dsts_srcs pc)) vals (tmp_regs pc) W i t0 p E out"
    and "RegRef_file (vreg vals p) = Some file"
  shows "\<exists>p' E' out'. tmp_loop t file vals i p (vreg vals p) (cg_of (length vals) E) out =
      Some (p', vreg vals p', cg_of (length vals) E', out') \<and>
    chain_ok (length (pc_dsts_srcs pc)) vals (tmp_regs pc) W i t0 p' E' out' \<and> E' p' = Some i \<and>
    dom E' \<subseteq> dom E \<and> (p' = i \<or> i \<notin> dom E')"
  using assms(5,6)
proof (induction "card (dom E)" arbitrary: E p out rule: less_induct)
  case less
  let ?N = "length vals" and ?nd = "length (pc_dsts_srcs pc)" and ?T = "tmp_regs pc"
  note c = chain_okD [OF less.prems(1)] and g = graph_okD [OF chain_okD(1) [OF less.prems(1)]]
  have h: "p \<in> dom E" "ran E = insert i (dom E - {p})" "p = i \<or> i \<notin> dom E"
    using c(2) by (auto simp: hole_ok_def)
  then obtain j where j: "E p = Some j" by blast
  have lt: "p < ?nd" "p < ?N" "j < ?N" using g(4) [OF j] by auto
  have t0: "t0 \<in> ?T" using t by (auto simp: tmp_regs_def)
  show ?case
  proof (cases "j = i")
    case True
    then have "tmp_loop t file vals i p (vreg vals p) (cg_of ?N E) out = Some (p, vreg vals p, cg_of ?N E, out)"
      using j lt by (subst tmp_loop.simps) (simp add: cg_src_of)
    then show ?thesis using less.prems j True h(3) by auto
  next
    case False
    have "j \<in> ran E" using j by (auto simp: ran_def)
    then have "j \<in> dom E" using h(2) False by blast
    then have jn: "j < ?nd" using g(3) by auto
    have fj: "RegRef_file (vreg vals j) = Some file" using same_filesD [OF c(3) j] less.prems(2) by auto
    have "file = Bar \<or> file = Mem \<Longrightarrow> copies_mem pc"
      using pc_vals_dst(2) [OF assms(1,2) jn] fj by auto
    then obtain "is" where is1: "cycle_copy t file (vreg vals p) (vreg vals j) = Some is"
      "copy_seq (?T - {t0}) (vreg vals p) (SrReg (vreg vals j)) is"
      using cycle_copy_seq [OF assms(1) t fj] by blast
    let ?E = "E(p := None)"
    have step: "tmp_loop t file vals i p (vreg vals p) (cg_of ?N E) out =
        tmp_loop t file vals i j (vreg vals j) (cg_of ?N ?E) (out @ is)"
      using j lt False is1(1) layout_val_reg [OF g(1) jn]
      by (subst tmp_loop.simps) (simp add: cg_src_of cg_del_edge_of [OF g(2) j])
    have "copy_seq (?T - {t0}) (vreg vals p) (vals ! j) is" using is1(2) layout_reg [OF g(1) jn] by metis
    then have ch: "chain_ok ?nd vals ?T W i t0 j ?E (out @ is)"
      using chain_step [OF less.prems(1) t0 j False] by blast
    have "card (dom ?E) < card (dom E)"
      using g(3) h(1) by (intro psubset_card_mono) (auto intro: finite_subset)
    from less.hyps [OF this ch fj] obtain p' E' out' where
      "tmp_loop t file vals i j (vreg vals j) (cg_of ?N ?E) (out @ is) = Some (p', vreg vals p', cg_of ?N E', out')"
      "chain_ok ?nd vals ?T W i t0 p' E' out'" "E' p' = Some i" "dom E' \<subseteq> dom ?E" "p' = i \<or> i \<notin> dom E'"
      by blast
    then show ?thesis unfolding step by (intro exI [of _ p'] exI [of _ E'] exI [of _ out']) auto
  qed
qed

subsection \<open>All cycles\<close>

lemma cycle_use_swap_total:
  assumes "par_copy_ok pc" and "file = Mem \<or> file = Bar \<Longrightarrow> copies_mem pc"
  shows "\<exists>b. cycle_use_swap pc file = Some b \<and> (\<not> b \<longrightarrow> (\<exists>t t0. pc_tmp pc = Some t \<and> RegRef_comp t 0 = Some t0))"
proof -
  have tmp: "tmp_ok pc" using assms(1) by (simp add: par_copy_ok_def)
  have two: "RegRef_comps t \<ge> 2" if "RegRef_comp t 1 \<noteq> None" for t
  proof -
    have "1 < RegRef_comps t" using that by (auto simp: RegRef_comp_def assert_then_def split: if_splits)
    then show ?thesis by (simp add: word_less_nat_alt word_le_nat_alt)
  qed
  show ?thesis
    using tmp assms(2) two by (cases "file") (auto simp: cycle_use_swap_def tmp_ok_def split: option.splits)
qed

lemma pc_cycle_spec:
  assumes "par_copy_ok pc" and "pc_vals pc vals" and i: "i < length (pc_dsts_srcs pc)"
    and c: "cycles_ok (length (pc_dsts_srcs pc)) vals (tmp_regs pc) W E out"
  shows "\<exists>E' out'. pc_cycle pc vals i (cg_of (length vals) E, out) = Some (cg_of (length vals) E', out') \<and>
    cycles_ok (length (pc_dsts_srcs pc)) vals (tmp_regs pc) W E' out' \<and> E' i = None \<and> dom E' \<subseteq> dom E"
proof -
  let ?N = "length vals" and ?nd = "length (pc_dsts_srcs pc)" and ?T = "tmp_regs pc"
  note cd = cycles_okD [OF c] and g = graph_okD [OF cycles_okD(1) [OF c]]
  have iN: "i < ?N" using i g(1) by (simp add: layout_def)
  show ?thesis
  proof (cases "E i")
    case None
    have "readers E i = {}" using permD(1) [OF cd(2), of _ i] None by (auto simp: readers_def)
    then have "pc_cycle pc vals i (cg_of ?N E, out) = Some (cg_of ?N E, out)"
      using None iN by (simp add: pc_cycle_def cg_src_of cg_num_reads_of)
    then show ?thesis using c None by auto
  next
    case (Some j)
    obtain f where f: "RegRef_file (vreg vals i) = Some f" "f = Mem \<or> f = Bar \<longrightarrow> copies_mem pc"
      using pc_vals_dst(2) [OF assms(1,2) i] by blast
    obtain b where b: "cycle_use_swap pc f = Some b"
      "\<not> b \<longrightarrow> (\<exists>t t0. pc_tmp pc = Some t \<and> RegRef_comp t 0 = Some t0)"
      using cycle_use_swap_total [OF assms(1)] f(2) by blast
    show ?thesis
    proof (cases b)
      case True
      then have "pc_cycle pc vals i (cg_of ?N E, out) = swap_loop vals i (cg_of ?N E) out"
        using Some iN f(1) b(1) layout_val_reg [OF g(1) i] by (simp add: pc_cycle_def cg_src_of)
      then show ?thesis using swap_loop_spec [OF c Some] by simp
    next
      case False
      then obtain t t0 where t: "pc_tmp pc = Some t" "RegRef_comp t 0 = Some t0" using b(2) by blast
      have t0: "t0 \<in> ?T" using t by (auto simp: tmp_regs_def)
      obtain p E1 out1 where l: "tmp_loop t f vals i i (vreg vals i) (cg_of ?N E)
          (out @ [Copy t0 (SrReg (vreg vals i))]) = Some (p, vreg vals p, cg_of ?N E1, out1)"
        and ch: "chain_ok ?nd vals ?T W i t0 p E1 out1" "E1 p = Some i" "dom E1 \<subseteq> dom E" "p = i \<or> i \<notin> dom E1"
        using tmp_loop_spec [OF assms(1,2) t chain_start [OF c Some t0] f(1)] by blast
      have "edges_ok ?N E1" using graph_okD(2) [OF chain_okD(1) [OF ch(1)]] .
      then have "pc_cycle pc vals i (cg_of ?N E, out) =
          Some (cg_of ?N (E1(p := None)), out1 @ [Copy (vreg vals p) (SrReg t0)])"
        using Some iN f(1) b(1) False t l layout_val_reg [OF g(1) i]
        by (simp add: pc_cycle_def cg_src_of cg_del_edge_of [where E = E1, OF _ ch(2)])
      moreover have "(E1(p := None)) i = None" using ch(4) by auto
      moreover have "dom (E1(p := None)) \<subseteq> dom E" using ch(3) by auto
      ultimately show ?thesis using chain_end [OF ch(1) t0 ch(2)] by blast
    qed
  qed
qed

lemma cycles_spec:
  assumes "par_copy_ok pc" and "pc_vals pc vals" and "n \<le> length (pc_dsts_srcs pc)"
    and "cycles_ok (length (pc_dsts_srcs pc)) vals (tmp_regs pc) W E out"
  shows "\<exists>E' out'. foldM (pc_cycle pc vals) [0..<n] (cg_of (length vals) E, out) = Some (cg_of (length vals) E', out') \<and>
    cycles_ok (length (pc_dsts_srcs pc)) vals (tmp_regs pc) W E' out' \<and> (\<forall>i<n. E' i = None)"
  using assms(3)
proof (induction n)
  case 0
  then show ?case using assms(4) by auto
next
  case (Suc n)
  then obtain E1 out1 where 1: "foldM (pc_cycle pc vals) [0..<n] (cg_of (length vals) E, out) = Some (cg_of (length vals) E1, out1)"
    "cycles_ok (length (pc_dsts_srcs pc)) vals (tmp_regs pc) W E1 out1" "\<forall>i<n. E1 i = None" by auto
  obtain E2 out2 where 2: "pc_cycle pc vals n (cg_of (length vals) E1, out1) = Some (cg_of (length vals) E2, out2)"
    "cycles_ok (length (pc_dsts_srcs pc)) vals (tmp_regs pc) W E2 out2" "E2 n = None" "dom E2 \<subseteq> dom E1"
    using pc_cycle_spec [OF assms(1,2) _ 1(2), of n] Suc.prems by auto
  have "E2 i = None" if "i < Suc n" for i
    using that 1(3) 2(3,4) by (cases "i = n") (auto simp: less_Suc_eq)
  then show ?case using 1(1) 2 by (auto simp: foldM_append)
qed

subsection \<open>Building the graph\<close>

definition build_ok :: "OpParCopy \<Rightarrow> nat \<Rightarrow> CopyGraph \<times> SrcRef list \<times> (RegRef \<rightharpoonup> nat) \<Rightarrow> (nat \<rightharpoonup> nat) \<Rightarrow> bool" where
  "build_ok pc n st E \<longleftrightarrow>
     (case st of (g, vals, m) \<Rightarrow>
        g = cg_of (length vals) E \<and> edges_ok (length vals) E \<and>
        (\<forall>r k. m r = Some k \<longleftrightarrow> k < length vals \<and> vals ! k = SrReg r) \<and>
        (\<forall>r. SrReg r \<in> set vals \<longrightarrow> reg_ok pc r) \<and>
        n \<le> length vals \<and> (\<forall>i<n. \<exists>d. fst (pc_dsts_srcs pc ! i) = DstReg d \<and> vals ! i = SrReg d))"

lemma par_copy_pair:
  assumes "par_copy_ok pc" and "n < length (pc_dsts_srcs pc)"
  shows "\<exists>d. fst (pc_dsts_srcs pc ! n) = DstReg d \<and> reg_ok pc d" and "src_ok pc (snd (pc_dsts_srcs pc ! n))"
proof -
  have "pc_dsts_srcs pc ! n \<in> set (pc_dsts_srcs pc)" using assms(2) by simp
  then show "\<exists>d. fst (pc_dsts_srcs pc ! n) = DstReg d \<and> reg_ok pc d" and "src_ok pc (snd (pc_dsts_srcs pc ! n))"
    using assms(1) by (auto simp: par_copy_ok_def)
qed

lemma add_dsts_spec:
  assumes "par_copy_ok pc" and "n \<le> length (pc_dsts_srcs pc)"
  shows "\<exists>st. foldM pc_add_dst (take n (List.enumerate 0 (pc_dsts_srcs pc))) (cg_new, [], Map.empty) = Some st \<and>
    build_ok pc n st Map.empty \<and> length (fst (snd st)) = n"
  using assms(2)
proof (induction n)
  case 0
  then show ?case by (auto simp: build_ok_def cg_new_def cg_of_def edges_ok_simps)
next
  case (Suc n)
  let ?ps = "pc_dsts_srcs pc"
  obtain g vals m where st: "foldM pc_add_dst (take n (List.enumerate 0 ?ps)) (cg_new, [], Map.empty) = Some (g, vals, m)"
    "build_ok pc n (g, vals, m) Map.empty" "length vals = n" using Suc by auto
  have n: "n < length ?ps" using Suc.prems by simp
  obtain dst src where p: "?ps ! n = (dst, src)" by force
  obtain d where d: "dst = DstReg d" "reg_ok pc d" using par_copy_pair(1) [OF assms(1) n] p by auto
  have m: "m r = Some k \<longleftrightarrow> k < n \<and> vals ! k = SrReg r" for r k using st(2,3) by (simp add: build_ok_def)
  have "m d = None"
  proof (cases "m d")
    case (Some k)
    then have k: "k < n" "vals ! k = SrReg d" using m by auto
    then have "fst (?ps ! k) = DstReg d" using st(2) by (fastforce simp: build_ok_def)
    then have "map fst ?ps ! k = map fst ?ps ! n" using k(1) n p d(1) by simp
    moreover have "distinct (map fst ?ps)" using assms(1) by (simp add: par_copy_ok_def)
    ultimately have "k = n" using k(1) n by (subst (asm) nth_eq_iff_index_eq) auto
    then show ?thesis using k(1) by simp
  qed
  have g: "g = cg_of n Map.empty" using st(2,3) by (simp add: build_ok_def)
  have "List.enumerate 0 ?ps ! n = (n, dst, src)" using n p by (simp add: nth_enumerate_eq)
  then have tk: "take (Suc n) (List.enumerate 0 ?ps) = take n (List.enumerate 0 ?ps) @ [(n, dst, src)]"
    using n by (simp add: take_Suc_conv_app_nth)
  have step: "pc_add_dst (n, dst, src) (g, vals, m) = Some (cg_of (Suc n) Map.empty, vals @ [SrReg d], m(d \<mapsto> n))"
    using d \<open>m d = None\<close> st(3) cg_add_node_of [OF edges_ok_simps(3), of n]
    by (simp add: pc_add_dst_def g reg_ok_def)
  have notin: "\<not> (k < n \<and> vals ! k = SrReg d)" for k using m [of d k] \<open>m d = None\<close> by auto
  have m': "(m(d \<mapsto> n)) r = Some k \<longleftrightarrow> k < Suc n \<and> (vals @ [SrReg d]) ! k = SrReg r" for r k
    using m [of r k] notin [of k] st(3) by (auto simp: nth_append less_Suc_eq)
  have "build_ok pc (Suc n) (cg_of (Suc n) Map.empty, vals @ [SrReg d], m(d \<mapsto> n)) Map.empty"
    unfolding build_ok_def using st(2,3) m' d p
    by (auto simp: build_ok_def edges_ok_simps nth_append less_Suc_eq)
  then show ?case using st(1,3) step tk by (simp add: foldM_append)
qed

lemma pc_src_idx_spec:
  assumes "build_ok pc nd (g, vals, m) E" and "src_ok pc s"
  shows "\<exists>k g' vals' m' xs. pc_src_idx (reference s) (g, vals, m) = Some (k, g', vals', m') \<and>
    build_ok pc nd (g', vals', m') E \<and> k < length vals' \<and> vals' ! k = reference s \<and> vals' = vals @ xs"
proof -
  let ?N = "length vals"
  have b: "g = cg_of ?N E" "edges_ok ?N E" "\<And>r k. m r = Some k \<longleftrightarrow> k < ?N \<and> vals ! k = SrReg r"
    "\<forall>r. SrReg r \<in> set vals \<longrightarrow> reg_ok pc r" "nd \<le> ?N"
    "\<forall>i<nd. \<exists>d. fst (pc_dsts_srcs pc ! i) = DstReg d \<and> vals ! i = SrReg d"
    using assms(1) by (simp_all add: build_ok_def)
  have new: "pc_new_node src g vals = Some (?N, cg_of (Suc ?N) E, vals @ [src])" for src
    using cg_add_node_of [OF b(2)] by (simp add: pc_new_node_def b(1))
  have ok: "edges_ok (Suc ?N) E" using b(2) unfolding edges_ok_def by (metis less_SucI)
  show ?thesis
  proof (cases "sr_as_reg (reference s)")
    case None
    have m': "m r = Some k \<longleftrightarrow> k < Suc ?N \<and> (vals @ [reference s]) ! k = SrReg r" for r k
      using None b(3) by (auto simp: nth_append less_Suc_eq)
    have "SrReg r \<noteq> reference s" for r using None by (cases "reference s") auto
    then have "build_ok pc nd (cg_of (Suc ?N) E, vals @ [reference s], m) E"
      unfolding build_ok_def using b(4-6) ok m' by (auto simp: nth_append)
    moreover have "pc_src_idx (reference s) (g, vals, m) = Some (?N, cg_of (Suc ?N) E, vals @ [reference s], m)"
      using None assms(2) new by (cases "reference s") (auto simp: pc_src_idx_def src_ok_def)
    ultimately show ?thesis by auto
  next
    case (Some r)
    then have r: "reference s = SrReg r" "reg_ok pc r" using assms(2) by (auto simp: src_ok_def)
    show ?thesis
    proof (cases "m r")
      case (Some k)
      then have "pc_src_idx (reference s) (g, vals, m) = Some (k, g, vals, m)"
        using r by (simp add: pc_src_idx_def reg_ok_def)
      then show ?thesis using assms(1) Some b(3) r(1) by auto
    next
      case None
      then have notin: "\<not> (k < ?N \<and> vals ! k = SrReg r)" for k using b(3) [of r k] by auto
      have m': "(m(r \<mapsto> ?N)) r' = Some k \<longleftrightarrow> k < Suc ?N \<and> (vals @ [SrReg r]) ! k = SrReg r'" for r' k
        using b(3) [of r' k] notin [of k] by (auto simp: nth_append less_Suc_eq)
      have "build_ok pc nd (cg_of (Suc ?N) E, vals @ [SrReg r], m(r \<mapsto> ?N)) E"
        unfolding build_ok_def using b(4-6) r(2) ok m' by (auto simp: nth_append)
      moreover have "pc_src_idx (reference s) (g, vals, m) =
          Some (?N, cg_of (Suc ?N) E, vals @ [SrReg r], m(r \<mapsto> ?N))"
        using r None new by (simp add: pc_src_idx_def reg_ok_def)
      ultimately show ?thesis using r(1) by auto
    qed
  qed
qed

definition wants :: "OpParCopy \<Rightarrow> nat \<Rightarrow> SrcRef list \<Rightarrow> (nat \<rightharpoonup> nat) \<Rightarrow> bool" where
  "wants pc n vals E \<longleftrightarrow> dom E \<subseteq> {..<n} \<and>
     (\<forall>i<n. reference (snd (pc_dsts_srcs pc ! i)) = vals ! (case E i of None \<Rightarrow> i | Some j \<Rightarrow> j))"

lemma add_srcs_spec:
  assumes "par_copy_ok pc" and "build_ok pc (length (pc_dsts_srcs pc)) st0 Map.empty"
    and "n \<le> length (pc_dsts_srcs pc)"
  shows "\<exists>g vals m E. foldM pc_add_src (take n (List.enumerate 0 (pc_dsts_srcs pc))) st0 = Some (g, vals, m) \<and>
    build_ok pc (length (pc_dsts_srcs pc)) (g, vals, m) E \<and> wants pc n vals E"
  using assms(3)
proof (induction n)
  case 0
  then show ?case using assms(2) by (cases st0) (auto simp: wants_def)
next
  case (Suc n)
  let ?ps = "pc_dsts_srcs pc"
  obtain g vals m E where st: "foldM pc_add_src (take n (List.enumerate 0 ?ps)) st0 = Some (g, vals, m)"
    "build_ok pc (length ?ps) (g, vals, m) E" "wants pc n vals E" using Suc by auto
  have n: "n < length ?ps" using Suc.prems by simp
  let ?src = "snd (?ps ! n)"
  have src: "src_ok pc ?src" using par_copy_pair(2) [OF assms(1) n] .
  obtain k g' vals' m' xs where k: "pc_src_idx (reference ?src) (g, vals, m) = Some (k, g', vals', m')"
    "build_ok pc (length ?ps) (g', vals', m') E" "k < length vals'" "vals' ! k = reference ?src" "vals' = vals @ xs"
    using pc_src_idx_spec [OF st(2) src] by blast
  let ?E = "if n = k then E else E(n \<mapsto> k)"
  have En: "E n = None" using st(3) by (cases "E n") (auto simp: wants_def)
  have b: "g' = cg_of (length vals') E" "edges_ok (length vals') E" "length ?ps \<le> length vals'"
    using k(2) by (auto simp: build_ok_def)
  have nl: "n < length vals'" using n b(3) by simp
  have add: "k \<noteq> n \<Longrightarrow> cg_add_edge g' n k = Some (cg_of (length vals') (E(n \<mapsto> k)))"
    using cg_add_edge_of [OF b(2) nl k(3) _ En] b(1) by simp
  have "List.enumerate 0 ?ps ! n = (n, ?ps ! n)" using n by (simp add: nth_enumerate_eq)
  then have tk: "take (Suc n) (List.enumerate 0 ?ps) = take n (List.enumerate 0 ?ps) @ [(n, ?ps ! n)]"
    using n by (simp add: take_Suc_conv_app_nth)
  have step: "pc_add_src (n, ?ps ! n) (g, vals, m) = Some (cg_of (length vals') ?E, vals', m')"
    using k(1) src add b(1) by (cases "?ps ! n") (auto simp: pc_add_src_def src_ok_def)
  have "edges_ok (length vals') ?E" using b(2) nl k(3) by (simp add: edges_ok_simps)
  then have "build_ok pc (length ?ps) (cg_of (length vals') ?E, vals', m') ?E" using k(2) by (simp add: build_ok_def)
  moreover have "wants pc (Suc n) vals' ?E"
  proof -
    have len: "length ?ps \<le> length vals" using st(2) by (simp add: build_ok_def)
    have e: "edges_ok (length vals) E" using st(2) by (simp add: build_ok_def)
    have "reference (snd (?ps ! i)) = vals' ! (case ?E i of None \<Rightarrow> i | Some j \<Rightarrow> j)" if "i < Suc n" for i
    proof (cases "i = n")
      case True
      then show ?thesis using k(4) En by (cases "n = k") auto
    next
      case False
      with that have i: "i < n" by simp
      then have "(case E i of None \<Rightarrow> i | Some j \<Rightarrow> j) < length vals"
        using e n len by (auto simp: edges_ok_def split: option.split)
      then have "vals' ! (case E i of None \<Rightarrow> i | Some j \<Rightarrow> j) = vals ! (case E i of None \<Rightarrow> i | Some j \<Rightarrow> j)"
        using k(5) by (simp add: nth_append)
      then show ?thesis using st(3) i False by (simp add: wants_def)
    qed
    moreover have "dom ?E \<subseteq> {..<Suc n}" using st(3) by (auto simp: wants_def)
    ultimately show ?thesis by (simp add: wants_def)
  qed
  ultimately show ?case using st(1) step tk by (auto simp: foldM_append)
qed

lemma pc_build_spec:
  assumes "par_copy_ok pc"
  shows "\<exists>vals E. pc_build pc = Some (cg_of (length vals) E, vals) \<and> pc_vals pc vals \<and>
    graph_ok (length (pc_dsts_srcs pc)) vals (tmp_regs pc) E \<and> wants pc (length (pc_dsts_srcs pc)) vals E"
proof -
  let ?ps = "pc_dsts_srcs pc" and ?nd = "length (pc_dsts_srcs pc)"
  obtain st where st: "foldM pc_add_dst (List.enumerate 0 ?ps) (cg_new, [], Map.empty) = Some st"
    "build_ok pc ?nd st Map.empty" using add_dsts_spec [OF assms order_refl] by auto
  obtain g vals m E where r: "foldM pc_add_src (List.enumerate 0 ?ps) st = Some (g, vals, m)"
    "build_ok pc ?nd (g, vals, m) E" "wants pc ?nd vals E"
    using add_srcs_spec [OF assms st(2) order_refl] by auto
  have b: "g = cg_of (length vals) E" "edges_ok (length vals) E"
    "\<And>r k. m r = Some k \<longleftrightarrow> k < length vals \<and> vals ! k = SrReg r"
    "\<forall>r. SrReg r \<in> set vals \<longrightarrow> reg_ok pc r" "?nd \<le> length vals"
    "\<forall>i<?nd. \<exists>d. fst (?ps ! i) = DstReg d \<and> vals ! i = SrReg d"
    using r(2) by (simp_all add: build_ok_def)
  have "i = j" if "i < length vals" "j < length vals" "vals ! i = SrReg x" "vals ! j = SrReg x" for i j x
    using b(3) [of x i] b(3) [of x j] that by simp
  moreover have "SrReg x \<notin> set vals" if "x \<in> tmp_regs pc" for x using b(4) that by (auto simp: reg_ok_def)
  moreover have "sr_as_reg (vals ! i) \<noteq> None" if "i < ?nd" for i using b(6) that by auto
  ultimately have lay: "layout ?nd vals (tmp_regs pc)" using b(5) unfolding layout_def by blast
  moreover have "fst (?ps ! i) = DstReg (vreg vals i)" if "i < ?nd" for i using b(6) that by auto
  ultimately have "pc_vals pc vals" using b(4) by (auto simp: pc_vals_def reg_ok_def)
  moreover have "graph_ok ?nd vals (tmp_regs pc) E" using lay b(2) r(3) by (simp add: graph_ok_def wants_def)
  moreover have "pc_build pc = Some (cg_of (length vals) E, vals)" using st(1) r(1) b(1) by (simp add: pc_build_def)
  ultimately show ?thesis using r(3) by blast
qed

definition pc_want :: "OpParCopy \<Rightarrow> (SrcRef \<Rightarrow> 'v) \<Rightarrow> (RegRef \<Rightarrow> 'v) \<Rightarrow> nat \<Rightarrow> 'v" where
  "pc_want pc imm regs i = src_val imm regs (reference (snd (pc_dsts_srcs pc ! i)))"

lemma inv_all_start:
  assumes "pc_vals pc vals" and "wants pc (length (pc_dsts_srcs pc)) vals E"
  shows "inv_all (length (pc_dsts_srcs pc)) vals (tmp_regs pc) (pc_want pc) None E []"
proof -
  have lay: "layout (length (pc_dsts_srcs pc)) vals (tmp_regs pc)" using assms(1) by (simp add: pc_vals_def)
  have "case E i of None \<Rightarrow> regs (vreg vals i) = pc_want pc imm regs i
      | Some j \<Rightarrow> held imm vals None regs j = pc_want pc imm regs i"
    if i: "i < length (pc_dsts_srcs pc)" for i imm and regs :: "RegRef \<Rightarrow> 'a"
  proof -
    have w: "pc_want pc imm regs i = src_val imm regs (vals ! (case E i of None \<Rightarrow> i | Some j \<Rightarrow> j))"
      using assms(2) i by (simp add: wants_def pc_want_def)
    have "src_val imm regs (vals ! i) = regs (vreg vals i)" using layout_reg [OF lay i] by (metis src_val.simps(1))
    then show ?thesis using w by (cases "E i") (simp_all add: held_def)
  qed
  then show ?thesis by (simp add: inv_all_def pc_inv_def)
qed

lemma initial_ready:
  "n \<le> N \<Longrightarrow> foldM (\<lambda>i acc. map_option (\<lambda>r. if r = 0 then i # acc else acc) (cg_num_reads (cg_of N E) i)) [0..<n] acc =
     Some (rev (filter (\<lambda>i. card (readers E i) = 0) [0..<n]) @ acc)"
  by (induction n) (auto simp: foldM_append cg_num_reads_of)

text \<open>The edges that are left after the ready loop lie on cycles of the parallel copy.\<close>

lemma same_files_cycles:
  assumes "par_copy_ok pc" and "pc_vals pc vals" and w: "wants pc (length (pc_dsts_srcs pc)) vals E0"
    and g: "graph_ok (length (pc_dsts_srcs pc)) vals (tmp_regs pc) E" and sub: "E \<subseteq>\<^sub>m E0" and p: "perm E"
  shows "same_files vals E"
  unfolding same_files_def
proof (intro allI impI)
  fix m l assume ml: "E m = Some l"
  let ?R = "reg_edges pc" and ?x = "vreg vals"
  note gd = graph_okD [OF g]
  have edge: "(?x a, ?x b) \<in> ?R" if ab: "E a = Some b" for a b
  proof -
    obtain c where "E b = Some c" using permD(1) [OF p ab] by blast
    then have lt: "a < length (pc_dsts_srcs pc)" "b < length (pc_dsts_srcs pc)" using gd(4) ab by blast+
    have "E0 a = Some b" using sub ab unfolding map_le_def by (metis domI)
    then have "reference (snd (pc_dsts_srcs pc ! a)) = vals ! b" using w lt by (simp add: wants_def)
    then have "reference (snd (pc_dsts_srcs pc ! a)) = SrReg (?x b)" using layout_reg [OF gd(1) lt(2)] by metis
    then show ?thesis using pc_vals_dst(1) [OF assms(1,2) lt(1)] by (auto simp: reg_edges_def)
  qed
  let ?O = "{a \<in> dom E. (?x l, ?x a) \<in> ?R\<^sup>*}" and ?f = "\<lambda>a. the (E a)"
  have fin: "finite ?O" using gd(3) by (auto intro: finite_subset)
  have "?f ` ?O \<subseteq> ?O"
  proof (intro subsetI, elim imageE)
    fix b a assume b: "b = ?f a" and "a \<in> ?O"
    then obtain c where c: "E a = Some c" "(?x l, ?x a) \<in> ?R\<^sup>*" by auto
    then have "(?x l, ?x c) \<in> ?R\<^sup>*" using edge by (meson rtrancl.rtrancl_into_rtrancl)
    then show "b \<in> ?O" using permD(1) [OF p c(1)] b c(1) by auto
  qed
  moreover have "inj_on ?f ?O"
  proof (rule inj_onI)
    fix x y assume "x \<in> ?O" "y \<in> ?O" "?f x = ?f y"
    then have "E x = Some (?f y)" "E y = Some (?f y)" by auto
    then show "x = y" using permD(2) [OF p] by blast
  qed
  ultimately have img: "?f ` ?O = ?O" using fin by (intro endo_inj_surj)
  have "l \<in> ?O" using permD(1) [OF p ml] by auto
  then obtain a where a: "a \<in> ?O" "?f a = l" using img by (metis (no_types, lifting) imageE)
  then have "E a = Some l" by auto
  then have "a = m" using permD(2) [OF p ml] by blast
  then have "(?x l, ?x m) \<in> ?R\<^sup>*" using a by simp
  then have "RegRef_file (?x m) = RegRef_file (?x l)" using edge [OF ml] assms(1) by (auto simp: par_copy_ok_def)
  moreover have "m < length (pc_dsts_srcs pc)" using gd(4) [OF ml] by blast
  ultimately show "\<exists>f. RegRef_file (?x m) = Some f \<and> RegRef_file (?x l) = Some f"
    using pc_vals_dst(2) [OF assms(1,2)] by metis
qed

text \<open>The graph is built, and the ready loop leaves only cycles between registers of one file.\<close>

lemma par_copy_ready:
  assumes ok: "par_copy_ok pc"
  obtains vals E0 E1 out1 where "pc_build pc = Some (cg_of (length vals) E0, vals)" "pc_vals pc vals"
    and "graph_ok (length (pc_dsts_srcs pc)) vals (tmp_regs pc) E0" "wants pc (length (pc_dsts_srcs pc)) vals E0"
    and "ready_loop pc vals (rev (filter (\<lambda>i. card (readers E0 i) = 0) [0..<length (pc_dsts_srcs pc)]))
      (cg_of (length vals) E0) [] = Some (cg_of (length vals) E1, out1)"
    and "cycles_ok (length (pc_dsts_srcs pc)) vals (tmp_regs pc) (pc_want pc :: (SrcRef \<Rightarrow> 'v) \<Rightarrow> _) E1 out1"
proof -
  let ?nd = "length (pc_dsts_srcs pc)" and ?T = "tmp_regs pc"
  obtain vals E0 where b: "pc_build pc = Some (cg_of (length vals) E0, vals)" "pc_vals pc vals"
    "graph_ok ?nd vals ?T E0" "wants pc ?nd vals E0" using pc_build_spec [OF ok] by blast
  let ?N = "length vals" and ?ready = "rev (filter (\<lambda>i. card (readers E0 i) = 0) [0..<?nd])"
  note g = graph_okD [OF b(3)]
  have "ready_ok ?N E0 ?ready"
    using finite_readers [OF g(2)] g(1,3) by (auto simp: ready_ok_def layout_def)
  from ready_loop_spec [OF ok b(2,3) map_le_refl this inv_all_start [OF b(2,4)]]
  obtain E1 out1 where 1: "ready_loop pc vals ?ready (cg_of ?N E0) [] = Some (cg_of ?N E1, out1)"
    "graph_ok ?nd vals ?T E1" "E1 \<subseteq>\<^sub>m E0" "\<forall>i\<in>dom E1. readers E1 i \<noteq> {}"
    "inv_all ?nd vals ?T (pc_want pc :: (SrcRef \<Rightarrow> 'v) \<Rightarrow> _) None E1 out1" by blast
  have p: "perm E1" using graph_okD(3) [OF 1(2)] 1(4) by (intro perm_if_all_read) (auto intro: finite_subset)
  have "cycles_ok ?nd vals ?T (pc_want pc :: (SrcRef \<Rightarrow> 'v) \<Rightarrow> _) E1 out1"
    using 1(2,5) p same_files_cycles [OF ok b(2,4) 1(2,3) p] by (simp add: cycles_ok_def)
  with b 1(1) show thesis by (rule that)
qed

lemma lower_par_copy_phases:
  assumes "pc_build pc = Some (cg_of (length vals) E0, vals)" "pc_vals pc vals"
    and "ready_loop pc vals (rev (filter (\<lambda>i. card (readers E0 i) = 0) [0..<length (pc_dsts_srcs pc)]))
      (cg_of (length vals) E0) [] = Some (g1, out1)"
  shows "lower_par_copy pc = map_option snd (foldM (pc_cycle pc vals) [0..<length (pc_dsts_srcs pc)] (g1, out1))"
proof -
  have "length (pc_dsts_srcs pc) \<le> length vals" using assms(2) by (simp add: pc_vals_def layout_def)
  from initial_ready [OF this, of E0 "[]"] assms show ?thesis
    by (simp add: lower_par_copy_def Let_def map_option_case split_def cong: option.case_cong split: option.split)
qed

lemma lower_par_copy_spec:
  assumes ok: "par_copy_ok pc"
  shows "\<exists>is vals. lower_par_copy pc = Some is \<and> pc_vals pc vals \<and>
    inv_all (length (pc_dsts_srcs pc)) vals (tmp_regs pc) (pc_want pc :: (SrcRef \<Rightarrow> 'v) \<Rightarrow> _) None Map.empty is"
proof -
  let ?nd = "length (pc_dsts_srcs pc)" and ?T = "tmp_regs pc" and ?W = "pc_want pc :: (SrcRef \<Rightarrow> 'v) \<Rightarrow> _"
  obtain vals E0 E1 out1 where b: "pc_build pc = Some (cg_of (length vals) E0, vals)" "pc_vals pc vals"
    and r: "ready_loop pc vals (rev (filter (\<lambda>i. card (readers E0 i) = 0) [0..<?nd])) (cg_of (length vals) E0) [] =
      Some (cg_of (length vals) E1, out1)"
    and c: "cycles_ok ?nd vals ?T ?W E1 out1" by (rule par_copy_ready [OF ok])
  from cycles_spec [OF ok b(2) order_refl c]
  obtain E2 out2 where 2: "foldM (pc_cycle pc vals) [0..<?nd] (cg_of (length vals) E1, out1) = Some (cg_of (length vals) E2, out2)"
    "cycles_ok ?nd vals ?T ?W E2 out2" "\<forall>i<?nd. E2 i = None" by blast
  have "E2 = Map.empty"
    using 2(3) graph_okD(3) [OF cycles_okD(1) [OF 2(2)]] by (auto simp: fun_eq_iff dom_def)
  moreover have "lower_par_copy pc = Some out2" using lower_par_copy_phases [OF b r] 2(1) by simp
  ultimately show ?thesis using b(2) cycles_okD(4) [OF 2(2)] by blast
qed

subsection \<open>Properties\<close>

text \<open>
  Property C17.  On every well-formed parallel copy \<^verbatim>\<open>lower_par_copy\<close> returns a sequence of copies
  and swaps after which, whatever the registers held before, every destination holds the value its
  source had before the first instruction, and no register other than the destinations and the
  temporaries has changed.
\<close>

theorem lower_par_copy_correct:
  assumes "par_copy_ok pc"
  shows "\<exists>is. lower_par_copy pc = Some is \<and>
    (\<forall>(imm :: SrcRef \<Rightarrow> 'v) regs.
       (\<forall>d src. (DstReg d, src) \<in> set (pc_dsts_srcs pc) \<longrightarrow>
          exec imm is regs d = src_val imm regs (reference src)) \<and>
       (\<forall>r. r \<notin> tmp_regs pc \<and> DstReg r \<notin> fst ` set (pc_dsts_srcs pc) \<longrightarrow> exec imm is regs r = regs r))"
proof -
  let ?ps = "pc_dsts_srcs pc"
  obtain "is" vals where i: "lower_par_copy pc = Some is" "pc_vals pc vals"
    "inv_all (length ?ps) vals (tmp_regs pc) (pc_want pc :: (SrcRef \<Rightarrow> 'v) \<Rightarrow> _) None Map.empty is"
    using lower_par_copy_spec [OF assms, where ?'v = 'v] by blast
  have at: "fst (?ps ! k) = DstReg (vreg vals k)" if "k < length ?ps" for k using i(2) that by (simp add: pc_vals_def)
  have "exec imm is regs d = src_val imm regs (reference src)"
    if m: "(DstReg d, src) \<in> set ?ps" for imm and regs :: "RegRef \<Rightarrow> 'v" and d src
  proof -
    obtain k where k: "k < length ?ps" "?ps ! k = (DstReg d, src)" using m by (metis in_set_conv_nth)
    have "pc_inv imm (length ?ps) vals (tmp_regs pc) (pc_want pc imm regs) regs None Map.empty (exec imm is regs)"
      using i(3) by (simp add: inv_all_def)
    from pc_invD(2) [OF this k(1)] k at [OF k(1)] show ?thesis by (simp add: pc_want_def)
  qed
  moreover have "exec imm is regs r = regs r"
    if r: "r \<notin> tmp_regs pc" "DstReg r \<notin> fst ` set ?ps" for imm and regs :: "RegRef \<Rightarrow> 'v" and r
  proof -
    have "r \<noteq> vreg vals k" if "k < length ?ps" for k using at [OF that] r(2) that by (metis image_eqI nth_mem)
    moreover have "pc_inv imm (length ?ps) vals (tmp_regs pc) (pc_want pc imm regs) regs None Map.empty (exec imm is regs)"
      using i(3) by (simp add: inv_all_def)
    ultimately show ?thesis using pc_invD(3) r(1) by blast
  qed
  ultimately show ?thesis using i(1) by blast
qed

text \<open>Two general registers exchange their values, and a third is set to a constant.\<close>

definition exchange :: OpParCopy where
  "exchange = \<lparr>pc_dsts_srcs =
     [(DstReg \<lparr>rr_packed = 0\<rparr>, src_of_ref (SrReg \<lparr>rr_packed = 1\<rparr>)),
      (DstReg \<lparr>rr_packed = 1\<rparr>, src_of_ref (SrReg \<lparr>rr_packed = 0\<rparr>)),
      (DstReg \<lparr>rr_packed = 2\<rparr>, src_of_ref (Imm32 5))], pc_tmp = None\<rparr>"

lemma exchange_ok: "par_copy_ok exchange"
proof -
  have r: "RegRef_comps \<lparr>rr_packed = w\<rparr> = 1 \<and> RegRef_file \<lparr>rr_packed = w\<rparr> = Some GPR" if "w \<in> {0, 1, 2}" for w
    using that by (auto simp: RegRef_comps_def RegRef_file_def file_try_from_def)
  have "tmp_regs exchange = {}" by (simp add: tmp_regs_def exchange_def)
  moreover have "\<not> copies_mem exchange" using r by (auto simp: copies_mem_def exchange_def)
  moreover have "RegRef_file d = RegRef_file s" if "(d, s) \<in> reg_edges exchange" for d s
    using that r by (auto simp: reg_edges_def exchange_def src_of_ref_def)
  ultimately show ?thesis
    using r by (auto simp: par_copy_ok_def tmp_ok_def reg_ok_def src_ok_def is_unmodified_def exchange_def src_of_ref_def)
qed

theorem lower_par_copy_correct_witness:
  "\<exists>is. lower_par_copy exchange = Some is \<and>
    (\<forall>(imm :: SrcRef \<Rightarrow> nat) regs.
       (\<forall>d src. (DstReg d, src) \<in> set (pc_dsts_srcs exchange) \<longrightarrow>
          exec imm is regs d = src_val imm regs (reference src)) \<and>
       (\<forall>r. r \<notin> tmp_regs exchange \<and> DstReg r \<notin> fst ` set (pc_dsts_srcs exchange) \<longrightarrow> exec imm is regs r = regs r))"
  by (rule lower_par_copy_correct [OF exchange_ok])

end
