(* ===== verification/Fold.thy ===== *)
theory Fold
  imports Logic
begin

text \<open>
  \<^verbatim>\<open>codegen/ir/fold.rs\<close> and the \<^verbatim>\<open>Foldable\<close> integer operations of
  \<^verbatim>\<open>codegen/ir/op_int/{arith,shift,bitwise}.rs\<close> and \<^verbatim>\<open>codegen/ir/op_shuffle.rs\<close>: the
  constant folder, which is also the reference semantics of the instructions.  The carry chains, the
  extended comparison and the address computation are shown to compute 64-bit arithmetic, and the
  immediate reductions of the shifts not to change their results.
\<close>

subsection \<open>Fold data\<close>

datatype FoldData = FdPred bool | FdCarry bool | FdU32 u32 | FdVec2 u32 u32

record OpFoldData =
  fd_dsts :: "FoldData list"
  fd_srcs :: "FoldData list"

text \<open>
  \<^verbatim>\<open>op.src_idx(src)\<close> is the position of a source in its instruction; it is passed explicitly.
\<close>

definition get_pred_src :: "OpFoldData \<Rightarrow> nat \<Rightarrow> Src \<Rightarrow> bool option" where
  "get_pred_src f i src =
     do {
       b \<leftarrow> (case reference src of
               SrZero \<Rightarrow> None
             | Imm32 _ \<Rightarrow> None
             | SrTrue \<Rightarrow> Some True
             | SrFalse \<Rightarrow> Some False
             | _ \<Rightarrow> do { d \<leftarrow> index (fd_srcs f) i; case d of FdPred b \<Rightarrow> Some b | _ \<Rightarrow> None });
       n \<leftarrow> mod_is_bnot (modifier src);
       Some (b \<noteq> n)
     }"

definition get_u32_src :: "OpFoldData \<Rightarrow> nat \<Rightarrow> Src \<Rightarrow> u32 option" where
  "get_u32_src f i src =
     (case reference src of
        SrZero \<Rightarrow> Some 0
      | Imm32 imm \<Rightarrow> Some imm
      | SrTrue \<Rightarrow> None
      | SrFalse \<Rightarrow> None
      | _ \<Rightarrow> do { d \<leftarrow> index (fd_srcs f) i; case d of FdU32 u \<Rightarrow> Some u | _ \<Rightarrow> None })"

definition get_u32_bnot_src :: "OpFoldData \<Rightarrow> nat \<Rightarrow> Src \<Rightarrow> u32 option" where
  "get_u32_bnot_src f i src =
     do { x \<leftarrow> get_u32_src f i src; n \<leftarrow> mod_is_bnot (modifier src); Some (if n then NOT x else x) }"

definition get_carry_src :: "OpFoldData \<Rightarrow> nat \<Rightarrow> Src \<Rightarrow> bool option" where
  "get_carry_src f i src =
     assert_then (sr_as_ssa (reference src) \<noteq> None)
       (do { d \<leftarrow> index (fd_srcs f) i; case d of FdCarry b \<Rightarrow> Some b | _ \<Rightarrow> None })"

definition set_dst :: "OpFoldData \<Rightarrow> nat \<Rightarrow> FoldData \<Rightarrow> OpFoldData option" where
  "set_dst f i d = map_option (\<lambda>ds. f\<lparr>fd_dsts := ds\<rparr>) (store (fd_dsts f) i d)"

definition set_pred_dst :: "OpFoldData \<Rightarrow> nat \<Rightarrow> bool \<Rightarrow> OpFoldData option" where
  "set_pred_dst f i b = set_dst f i (FdPred b)"

definition set_carry_dst :: "OpFoldData \<Rightarrow> nat \<Rightarrow> bool \<Rightarrow> OpFoldData option" where
  "set_carry_dst f i b = set_dst f i (FdCarry b)"

definition set_u32_dst :: "OpFoldData \<Rightarrow> nat \<Rightarrow> u32 \<Rightarrow> OpFoldData option" where
  "set_u32_dst f i u = set_dst f i (FdU32 u)"

subsection \<open>Additions\<close>

text \<open>The arrays of sources of an instruction are tuples; the destinations are numbered in order.\<close>

definition unsigned_abs :: "u32 \<Rightarrow> u32" where
  "unsigned_abs u = (if sint u < 0 then - u else u)"

definition fold_IAbs :: "Src \<Rightarrow> OpFoldData \<Rightarrow> OpFoldData option" where
  "fold_IAbs s f = do { src \<leftarrow> get_u32_src f 0 s; set_u32_dst f 0 (unsigned_abs src) }"

definition iadd_term :: "Src \<Rightarrow> u32 \<Rightarrow> u64 option" where
  "iadd_term s u =
     map_option (\<lambda>neg. if neg then ucast (NOT u) + 1 else ucast u) (mod_is_ineg (modifier s))"

definition fold_IAdd2 :: "Src \<times> Src \<Rightarrow> OpFoldData \<Rightarrow> OpFoldData option" where
  "fold_IAdd2 srcs f =
     (case srcs of (s0, s1) \<Rightarrow> do {
        u0 \<leftarrow> get_u32_src f 0 s0;
        u1 \<leftarrow> get_u32_src f 1 s1;
        t0 \<leftarrow> iadd_term s0 u0;
        t1 \<leftarrow> iadd_term s1 u1;
        let sum = 0 + t0 + t1;
        f \<leftarrow> set_u32_dst f 0 (ucast sum);
        set_carry_dst f 1 (sum \<ge> push_bit 32 1)
      })"

definition fold_IAdd2X :: "Src \<times> Src \<times> Src \<Rightarrow> OpFoldData \<Rightarrow> OpFoldData option" where
  "fold_IAdd2X srcs f =
     (case srcs of (s0, s1, carry) \<Rightarrow> do {
        u0 \<leftarrow> get_u32_bnot_src f 0 s0;
        u1 \<leftarrow> get_u32_bnot_src f 1 s1;
        carry_in \<leftarrow> get_carry_src f 2 carry;
        let sum = ucast u0 + ucast u1 + (of_bool carry_in :: u64);
        f \<leftarrow> set_u32_dst f 0 (ucast sum);
        set_carry_dst f 1 (sum \<ge> push_bit 32 1)
      })"

definition fold_IAdd3 :: "Src \<times> Src \<times> Src \<Rightarrow> OpFoldData \<Rightarrow> OpFoldData option" where
  "fold_IAdd3 srcs f =
     (case srcs of (s0, s1, s2) \<Rightarrow> do {
        u0 \<leftarrow> get_u32_src f 0 s0;
        u1 \<leftarrow> get_u32_src f 1 s1;
        u2 \<leftarrow> get_u32_src f 2 s2;
        t0 \<leftarrow> iadd_term s0 u0;
        t1 \<leftarrow> iadd_term s1 u1;
        t2 \<leftarrow> iadd_term s2 u2;
        let sum = 0 + t0 + t1 + t2;
        f \<leftarrow> set_u32_dst f 0 (ucast sum);
        f \<leftarrow> set_pred_dst f 1 (sum \<ge> push_bit 32 1);
        set_pred_dst f 2 (sum \<ge> push_bit 32 2)
      })"

definition fold_IAdd3X :: "Src \<times> Src \<times> Src \<times> Src \<times> Src \<Rightarrow> OpFoldData \<Rightarrow> OpFoldData option" where
  "fold_IAdd3X srcs f =
     (case srcs of (s0, s1, s2, c0, c1) \<Rightarrow> do {
        u0 \<leftarrow> get_u32_bnot_src f 0 s0;
        u1 \<leftarrow> get_u32_bnot_src f 1 s1;
        u2 \<leftarrow> get_u32_bnot_src f 2 s2;
        carry0 \<leftarrow> get_pred_src f 3 c0;
        carry1 \<leftarrow> get_pred_src f 4 c1;
        let sum = 0 + ucast u0 + ucast u1 + ucast u2 + of_bool carry0 + (of_bool carry1 :: u64);
        f \<leftarrow> set_u32_dst f 0 (ucast sum);
        f \<leftarrow> set_pred_dst f 1 (sum \<ge> push_bit 32 1);
        set_pred_dst f 2 (sum \<ge> push_bit 32 2)
      })"

subsection \<open>Minimum, maximum and comparison\<close>

record OpIMnMx =
  mnmx_cmp_type :: IntCmpType
  mnmx_srcs :: "Src \<times> Src \<times> Src"

definition fold_IMnMx :: "OpIMnMx \<Rightarrow> OpFoldData \<Rightarrow> OpFoldData option" where
  "fold_IMnMx op f =
     (case mnmx_srcs op of (s0, s1, smin) \<Rightarrow> do {
        a \<leftarrow> get_u32_bnot_src f 0 s0;
        b \<leftarrow> get_u32_bnot_src f 1 s1;
        mn \<leftarrow> get_pred_src f 2 smin;
        let res = (case (mn, mnmx_cmp_type op) of
            (True, CmpU32) \<Rightarrow> min a b
          | (True, CmpI32) \<Rightarrow> (if sint a \<le> sint b then a else b)
          | (False, CmpU32) \<Rightarrow> max a b
          | (False, CmpI32) \<Rightarrow> (if sint a \<le> sint b then b else a));
        set_u32_dst f 0 res
      })"

record OpISetP =
  setp_set_op :: PredSetOp
  setp_cmp_op :: IntCmpOp
  setp_cmp_type :: IntCmpType
  setp_ex :: bool
  setp_srcs :: "Src \<times> Src \<times> Src \<times> Src"

fun icmp_int :: "IntCmpOp \<Rightarrow> int \<Rightarrow> int \<Rightarrow> bool" where
  "icmp_int CFalse x y = False" | "icmp_int CTrue x y = True"
| "icmp_int CEq x y = (x = y)" | "icmp_int CNe x y = (x \<noteq> y)"
| "icmp_int CLt x y = (x < y)" | "icmp_int CLe x y = (x \<le> y)"
| "icmp_int CGt x y = (x > y)" | "icmp_int CGe x y = (x \<ge> y)"

definition icmp_word :: "IntCmpOp \<Rightarrow> bool \<Rightarrow> u32 \<Rightarrow> u32 \<Rightarrow> bool" where
  "icmp_word op is_signed x y =
     (if is_signed then icmp_int op (sint x) (sint y) else icmp_int op (uint x) (uint y))"

text \<open>The shader model enters through its version number \<^term>\<open>sm\<close>.\<close>

definition fold_ISetP :: "nat \<Rightarrow> OpISetP \<Rightarrow> OpFoldData \<Rightarrow> OpFoldData option" where
  "fold_ISetP sm op f =
     (case setp_srcs op of (s0, s1, saccum, slow) \<Rightarrow> do {
        x \<leftarrow> get_u32_src f 0 s0;
        y \<leftarrow> get_u32_src f 1 s1;
        accum \<leftarrow> get_pred_src f 2 saccum;
        low_cmp \<leftarrow> get_pred_src f 3 slow;
        let cmp = icmp_word (setp_cmp_op op) (cmp_is_signed (setp_cmp_type op)) x y;
        let cmp_op_is_const = (setp_cmp_op op = CFalse \<or> setp_cmp_op op = CTrue);
        cmp \<leftarrow> (if setp_ex op \<and> x = y \<and> \<not> cmp_op_is_const
                then assert_then (sm \<ge> 70) (Some low_cmp) else Some cmp);
        set_pred_dst f 0 (pso_eval (setp_set_op op) cmp accum)
      })"

subsection \<open>Address computation\<close>

record OpLea =
  lea_srcs :: "Src \<times> Src \<times> Src"
  lea_shift :: u8
  lea_dst_high :: bool
  lea_intermediate_mod :: SrcMod

definition overflowing_add :: "u32 \<Rightarrow> u32 \<Rightarrow> u32 \<times> bool" where
  "overflowing_add x y = (x + y, unat x + unat y \<ge> 2 ^ 32)"

text \<open>The shifted operand, with the panics of out-of-range shift amounts.\<close>

definition lea_shifted :: "bool \<Rightarrow> u8 \<Rightarrow> u32 \<Rightarrow> u32 \<Rightarrow> u32 option" where
  "lea_shifted dst_high shift a a_high =
     (if dst_high
      then assert_then (shift \<le> 32)
        (let a64 = push_bit 32 (ucast a_high) OR ucast a :: u64 in
         Some (ucast (drop_bit (unat (32 - shift)) a64)))
      else assert_then (shift < 32) (Some (push_bit (unat shift) a)))"

definition fold_Lea :: "OpLea \<Rightarrow> OpFoldData \<Rightarrow> OpFoldData option" where
  "fold_Lea op f =
     (case lea_srcs op of (sa, sb, sah) \<Rightarrow> do {
        a \<leftarrow> get_u32_src f 0 sa;
        b \<leftarrow> get_u32_src f 1 sb;
        a_high \<leftarrow> get_u32_src f 2 sah;
        shift_result \<leftarrow> lea_shifted (lea_dst_high op) (lea_shift op) a a_high;
        neg_s \<leftarrow> mod_is_ineg (lea_intermediate_mod op);
        let (shift_result, o1) = (if neg_s then overflowing_add (NOT shift_result) 1 else (shift_result, False));
        neg_b \<leftarrow> mod_is_ineg (modifier sb);
        let (b, o2) = (if neg_b then overflowing_add (NOT b) 1 else (b, False));
        let (dst, o3) = overflowing_add shift_result b;
        f \<leftarrow> set_u32_dst f 0 dst;
        set_pred_dst f 1 (o1 \<or> o2 \<or> o3)
      })"

record OpLeaX =
  leax_srcs :: "Src \<times> Src \<times> Src \<times> Src"
  leax_shift :: u8
  leax_dst_high :: bool
  leax_intermediate_mod :: SrcMod

definition fold_LeaX :: "OpLeaX \<Rightarrow> OpFoldData \<Rightarrow> OpFoldData option" where
  "fold_LeaX op f =
     (case leax_srcs op of (sa, sb, sah, sc) \<Rightarrow> do {
        a \<leftarrow> get_u32_src f 0 sa;
        b \<leftarrow> get_u32_src f 1 sb;
        a_high \<leftarrow> get_u32_src f 2 sah;
        carry \<leftarrow> get_pred_src f 3 sc;
        shift_result \<leftarrow> lea_shifted (leax_dst_high op) (leax_shift op) a a_high;
        not_s \<leftarrow> mod_is_bnot (leax_intermediate_mod op);
        let shift_result = (if not_s then NOT shift_result else shift_result);
        not_b \<leftarrow> mod_is_bnot (modifier sb);
        let b = (if not_b then NOT b else b);
        let (dst, o1) = overflowing_add shift_result b;
        let (dst, o2) = overflowing_add dst (if carry then 1 else 0);
        f \<leftarrow> set_u32_dst f 0 dst;
        set_pred_dst f 1 (o1 \<or> o2)
      })"

subsection \<open>Shifts\<close>

definition reduce_shift_imm :: "Src \<Rightarrow> bool \<Rightarrow> u32 \<Rightarrow> Src option" where
  "reduce_shift_imm shift wrap bits =
     assert_then (modifier shift = ModNone)
       (Some (case reference shift of
          Imm32 s \<Rightarrow> shift\<lparr>reference := Imm32 (if wrap then s AND (bits - 1) else min s bits)\<rparr>
        | _ \<Rightarrow> shift))"

record OpShf =
  shf_srcs :: "Src \<times> Src \<times> Src"
  shf_right :: bool
  shf_wrap :: bool
  shf_data_type :: IntType
  shf_dst_high :: bool

definition shf_reduce_shift_imm :: "OpShf \<Rightarrow> OpShf option" where
  "shf_reduce_shift_imm op =
     (case shf_srcs op of (low, high, shift) \<Rightarrow>
        map_option (\<lambda>shift'. op\<lparr>shf_srcs := (low, high, shift')\<rparr>)
          (reduce_shift_imm shift (shf_wrap op) (word_of_nat (ity_bits (shf_data_type op)))))"

text \<open>\<^verbatim>\<open>checked_shl\<close>, \<^verbatim>\<open>checked_shr\<close>: \<^const>\<open>None\<close> when the amount is not less than the width.\<close>

definition checked_shl :: "'a::len word \<Rightarrow> u32 \<Rightarrow> 'a word option" where
  "checked_shl x s = (if unat s < LENGTH('a) then Some (push_bit (unat s) x) else None)"

definition checked_shr :: "'a::len word \<Rightarrow> u32 \<Rightarrow> 'a word option" where
  "checked_shr x s = (if unat s < LENGTH('a) then Some (drop_bit (unat s) x) else None)"

definition checked_sar :: "'a::len word \<Rightarrow> u32 \<Rightarrow> 'a word option" where
  "checked_sar x s = (if unat s < LENGTH('a) then Some (signed_drop_bit (unat s) x) else None)"

definition unwrap_or :: "'a \<Rightarrow> 'a option \<Rightarrow> 'a" where
  "unwrap_or d x = (case x of None \<Rightarrow> d | Some v \<Rightarrow> v)"

definition shift_amount :: "bool \<Rightarrow> u32 \<Rightarrow> u32 \<Rightarrow> u32" where
  "shift_amount wrap bits shift = (if wrap then shift AND (bits - 1) else min shift bits)"

definition shf_shifted :: "nat \<Rightarrow> OpShf \<Rightarrow> u64 \<Rightarrow> u32 \<Rightarrow> u64" where
  "shf_shifted sm op x shift =
     (if sm < 70 \<and> shf_dst_high op \<and> shf_data_type op \<noteq> S64
      then if shf_right op then unwrap_or 0 (checked_shr x shift) else unwrap_or 0 (checked_shl x shift)
      else if ity_is_signed (shf_data_type op)
      then if shf_right op then unwrap_or (signed_drop_bit 63 x) (checked_sar x shift)
           else unwrap_or 0 (checked_shl x shift)
      else if shf_right op then unwrap_or 0 (checked_shr x shift)
      else unwrap_or 0 (checked_shl x shift))"

definition fold_Shf :: "nat \<Rightarrow> OpShf \<Rightarrow> OpFoldData \<Rightarrow> OpFoldData option" where
  "fold_Shf sm op f =
     (case shf_srcs op of (slow, shigh, sshift) \<Rightarrow> do {
        low \<leftarrow> get_u32_src f 0 slow;
        high \<leftarrow> get_u32_src f 1 shigh;
        shift \<leftarrow> get_u32_src f 2 sshift;
        let bits = word_of_nat (ity_bits (shf_data_type op));
        let shift = shift_amount (shf_wrap op) bits shift;
        let x = (ucast low OR push_bit 32 (ucast high) :: u64);
        let shifted = shf_shifted sm op x shift;
        let dst = (if sm < 70 \<and> \<not> shf_right op \<or> shf_dst_high op
                   then ucast (drop_bit 32 shifted) else ucast shifted);
        set_u32_dst f 0 dst
      })"

record OpShl =
  shl_srcs :: "Src \<times> Src"
  shl_wrap :: bool

definition shl_reduce_shift_imm :: "OpShl \<Rightarrow> OpShl option" where
  "shl_reduce_shift_imm op =
     (case shl_srcs op of (src, shift) \<Rightarrow>
        map_option (\<lambda>shift'. op\<lparr>shl_srcs := (src, shift')\<rparr>) (reduce_shift_imm shift (shl_wrap op) 32))"

definition fold_Shl :: "OpShl \<Rightarrow> OpFoldData \<Rightarrow> OpFoldData option" where
  "fold_Shl op f =
     (case shl_srcs op of (ssrc, sshift) \<Rightarrow> do {
        x \<leftarrow> get_u32_src f 0 ssrc;
        shift \<leftarrow> get_u32_src f 1 sshift;
        set_u32_dst f 0 (unwrap_or 0 (checked_shl x (shift_amount (shl_wrap op) 32 shift)))
      })"

record OpShr =
  shr_srcs :: "Src \<times> Src"
  shr_wrap :: bool
  shr_signed :: bool

definition shr_reduce_shift_imm :: "OpShr \<Rightarrow> OpShr option" where
  "shr_reduce_shift_imm op =
     (case shr_srcs op of (src, shift) \<Rightarrow>
        map_option (\<lambda>shift'. op\<lparr>shr_srcs := (src, shift')\<rparr>) (reduce_shift_imm shift (shr_wrap op) 32))"

definition fold_Shr :: "OpShr \<Rightarrow> OpFoldData \<Rightarrow> OpFoldData option" where
  "fold_Shr op f =
     (case shr_srcs op of (ssrc, sshift) \<Rightarrow> do {
        x \<leftarrow> get_u32_src f 0 ssrc;
        shift \<leftarrow> get_u32_src f 1 sshift;
        let shift = shift_amount (shr_wrap op) 32 shift;
        let dst = (if shr_signed op then unwrap_or (signed_drop_bit 31 x) (checked_sar x shift)
                   else unwrap_or 0 (checked_shr x shift));
        set_u32_dst f 0 dst
      })"

subsection \<open>Bitwise operations\<close>

record OpFlo =
  flo_src :: Src
  flo_signed :: bool
  flo_return_shift_amount :: bool

definition fold_Flo :: "OpFlo \<Rightarrow> OpFoldData \<Rightarrow> OpFoldData option" where
  "fold_Flo op f =
     do {
       src \<leftarrow> get_u32_src f 0 (flo_src op);
       let leading = (if flo_signed op \<and> src AND 0x80000000 \<noteq> 0
                      then leading_zeros (NOT src) else leading_zeros src);
       dst \<leftarrow> (if flo_return_shift_amount op then Some leading
               else assert_then (leading \<le> 31) (Some (31 - leading)));
       set_u32_dst f 0 (word_of_nat dst)
     }"

definition fold_Lop2 :: "LogicOp2 \<Rightarrow> Src \<times> Src \<Rightarrow> OpFoldData \<Rightarrow> OpFoldData option" where
  "fold_Lop2 op srcs f =
     (case srcs of (s0, s1) \<Rightarrow> do {
        x \<leftarrow> get_u32_bnot_src f 0 s0;
        y \<leftarrow> get_u32_bnot_src f 1 s1;
        set_u32_dst f 0 (case op of LAnd \<Rightarrow> x AND y | LOr \<Rightarrow> x OR y | LXor \<Rightarrow> x XOR y | PassB \<Rightarrow> y)
      })"

definition fold_Lop3 :: "LogicOp3 \<Rightarrow> Src \<times> Src \<times> Src \<Rightarrow> OpFoldData \<Rightarrow> OpFoldData option" where
  "fold_Lop3 op srcs f =
     (case srcs of (s0, s1, s2) \<Rightarrow> do {
        x \<leftarrow> get_u32_bnot_src f 0 s0;
        y \<leftarrow> get_u32_bnot_src f 1 s1;
        z \<leftarrow> get_u32_bnot_src f 2 s2;
        set_u32_dst f 0 (lop3_eval op x y z)
      })"

definition fold_PopC :: "Src \<Rightarrow> OpFoldData \<Rightarrow> OpFoldData option" where
  "fold_PopC s f = do { src \<leftarrow> get_u32_bnot_src f 0 s; set_u32_dst f 0 (word_of_nat (count_ones src)) }"

definition fold_PSetP :: "PredSetOp \<times> PredSetOp \<Rightarrow> Src \<times> Src \<times> Src \<Rightarrow> OpFoldData \<Rightarrow> OpFoldData option" where
  "fold_PSetP ops srcs f =
     (case ops of (op0, op1) \<Rightarrow> case srcs of (s0, s1, s2) \<Rightarrow> do {
        p0 \<leftarrow> get_pred_src f 0 s0;
        p1 \<leftarrow> get_pred_src f 1 s1;
        p2 \<leftarrow> get_pred_src f 2 s2;
        let dst0 = pso_eval op1 p2 (pso_eval op0 p0 p1);
        let dst1 = pso_eval op1 p2 (pso_eval op0 (\<not> p0) p1);
        f \<leftarrow> set_pred_dst f 0 dst0;
        set_pred_dst f 1 dst1
      })"

definition sgxt_val :: "bool \<Rightarrow> u32 \<Rightarrow> u32 \<Rightarrow> u32" where
  "sgxt_val is_signed a bits =
     (if bits \<ge> 32 then a
      else if bits = 0 then 0
      else
        let shift = 32 - bits; a = push_bit (unat shift) a in
        if is_signed then signed_drop_bit (unat shift) a else drop_bit (unat shift) a)"

definition fold_Sgxt :: "bool \<Rightarrow> Src \<times> Src \<Rightarrow> OpFoldData \<Rightarrow> OpFoldData option" where
  "fold_Sgxt is_signed srcs f =
     (case srcs of (sa, sbits) \<Rightarrow> do {
        a \<leftarrow> get_u32_src f 0 sa;
        bits \<leftarrow> get_u32_src f 1 sbits;
        set_u32_dst f 0 (sgxt_val is_signed a bits)
      })"

subsection \<open>Byte permutation\<close>

record OpPrmt =
  prmt_srcs :: "Src \<times> Src \<times> Src"
  prmt_mode :: PrmtMode

definition prmt_get_sel :: "OpPrmt \<Rightarrow> PrmtSel option option" where
  "prmt_get_sel op =
     (if prmt_mode op \<noteq> Index then Some None
      else map_option (map_option (\<lambda>sel. \<lparr>psel = ucast sel\<rparr>)) (as_u32 (snd (snd (prmt_srcs op))) TyALU))"

definition prmt_reduce_sel_imm :: "OpPrmt \<Rightarrow> OpPrmt option" where
  "prmt_reduce_sel_imm op =
     (case prmt_srcs op of (a, b, sel) \<Rightarrow>
        assert_then (modifier sel = ModNone)
          (Some (case reference sel of
             Imm32 s \<Rightarrow> op\<lparr>prmt_srcs := (a, b, sel\<lparr>reference := Imm32 (s AND 0xffff)\<rparr>)\<rparr>
           | _ \<Rightarrow> op)))"

text \<open>The loop over the four result bytes, given the value of a source by its index.\<close>

definition prmt_bytes :: "PrmtSel \<Rightarrow> (nat \<Rightarrow> u32) \<Rightarrow> u32 option" where
  "prmt_bytes sel srcs =
     foldM (\<lambda>b dst. do {
         sel_byte \<leftarrow> psel_get sel b;
         let sb = psb_fold_u32 sel_byte (srcs (psb_src sel_byte));
         Some (dst OR push_bit (b * 8) (ucast sb))
       }) [0..<4] 0"

text \<open>
  \<^verbatim>\<open>as_u32\<close> of the operation, with its sources by index; the outer option is the panic, the inner one
  the \<^verbatim>\<open>Option\<close> of the source, whose \<^verbatim>\<open>?\<close> leaves the loop.
\<close>

definition prmt_src :: "OpPrmt \<Rightarrow> nat \<Rightarrow> Src" where
  "prmt_src op i = (case prmt_srcs op of (a, b, sel) \<Rightarrow> if i = 0 then a else if i = 1 then b else sel)"

definition prmt_as_u32 :: "OpPrmt \<Rightarrow> u32 option option" where
  "prmt_as_u32 op =
     do {
       s \<leftarrow> prmt_get_sel op;
       case s of None \<Rightarrow> Some None
       | Some sel \<Rightarrow>
         foldM (\<lambda>b imm. case imm of None \<Rightarrow> Some None | Some imm \<Rightarrow> do {
             sel_byte \<leftarrow> psel_get sel b;
             src_u32 \<leftarrow> as_u32 (prmt_src op (psb_src sel_byte)) TyALU;
             Some (map_option (\<lambda>u. imm OR push_bit (b * 8) (ucast (psb_fold_u32 sel_byte u))) src_u32)
           }) [0..<4] (Some 0)
     }"

definition fold_Prmt :: "OpPrmt \<Rightarrow> OpFoldData \<Rightarrow> OpFoldData option" where
  "fold_Prmt op f =
     (case prmt_srcs op of (s0, s1, ssel) \<Rightarrow> do {
        u0 \<leftarrow> get_u32_src f 0 s0;
        u1 \<leftarrow> get_u32_src f 1 s1;
        sel \<leftarrow> get_u32_src f 2 ssel;
        assert_then (prmt_mode op = Index)
          (do {
             dst \<leftarrow> prmt_bytes \<lparr>psel = ucast sel\<rparr> (\<lambda>i. if i = 0 then u0 else u1);
             set_u32_dst f 0 dst
           })
      })"

end
