(* ===== verification/FoldArith.thy ===== *)
theory FoldArith
  imports Fold
begin

text \<open>
  The carry chains of the folder compute 64-bit arithmetic: \<^verbatim>\<open>iadd3\<close>/\<^verbatim>\<open>iadd3.x\<close>, \<^verbatim>\<open>iadd2\<close>/\<^verbatim>\<open>iadd2.x\<close>,
  \<^verbatim>\<open>isetp\<close>/\<^verbatim>\<open>isetp.ex\<close> and \<^verbatim>\<open>lea\<close>/\<^verbatim>\<open>lea.x\<close>.  Each half is read as an integer, and one lemma on
  integers (\<^verbatim>\<open>carry_chain\<close>) joins a low sum and a high sum with carry.
\<close>

subsection \<open>Halves as integers\<close>

definition join64 :: "u32 \<Rightarrow> u32 \<Rightarrow> u64" where
  "join64 hi lo = push_bit 32 (ucast hi) OR ucast lo"

lemma ucast_int: "(ucast (a :: u32) :: u64) = word_of_int (uint a)"
  by (rule ucast_eq)

lemma uint_u32: "0 \<le> uint (a :: u32)" "uint (a :: u32) < 2 ^ 32"
  using uint_lt2p [of a] by simp_all

lemma ucast_not_int: "(ucast (NOT (a :: u32)) :: u64) = word_of_int (2 ^ 32 - 1 - uint a)"
proof -
  have "uint (NOT a) = NOT (uint a) mod 2 ^ 32" by (simp add: unsigned_not_eq take_bit_eq_mod)
  also have "\<dots> = (2 ^ 32 - 1 - uint a) mod 2 ^ 32"
    using mod_add_self2 [of "- uint a - 1" "2 ^ 32"] by (simp add: not_eq_complement algebra_simps)
  also have "\<dots> = 2 ^ 32 - 1 - uint a" using uint_u32 [of a] by (intro mod_pos_pos_trivial) linarith+
  finally show ?thesis by (simp only: ucast_int)
qed

lemma join64_int: "join64 hi lo = word_of_int (uint hi * 2 ^ 32 + uint lo)"
proof -
  have "\<not> (bit lo n \<and> 32 \<le> n)" for n using bit_imp_le_length [of lo n] by auto
  then have "join64 hi lo = push_bit 32 (ucast hi) + ucast lo"
    unfolding join64_def
    by (intro disjunctive_add_eq_or [symmetric]) (auto simp: bit_eq_iff bits_simps bit_simps)
  also have "\<dots> = word_of_int (uint hi * 2 ^ 32 + uint lo)"
    by (simp only: push_bit_eq_mult ucast_int wi_hom_add [symmetric] wi_hom_mult [symmetric]) simp
  finally show ?thesis .
qed

text \<open>A high half that adds the carry out of the low half continues the sum modulo \<open>2 ^ 64\<close>.\<close>

lemma mod_diff_mult: "(a - m * k) mod m = a mod (m :: int)"
  by (metis mod_mult_self1_is_0 mod_diff_right_eq diff_zero mod_mult_self2_is_0 mult.commute)

lemma len_num_64: "LENGTH(64) = 64" by simp

lemma carry_chain:
  fixes lo :: u32 and hi :: u32
  assumes "lo = word_of_int X" and "hi = word_of_int (Y + X div 2 ^ 32)"
  shows "join64 hi lo = word_of_int (Y * 2 ^ 32 + X)"
proof -
  let ?M = "2 ^ 32 :: int"
  let ?Z = "Y + X div ?M"
  have "uint hi = ?Z - ?M * (?Z div ?M)" "uint lo = X - ?M * (X div ?M)"
    by (simp_all only: assms uint_word_of_int take_bit_eq_mod minus_mult_div_eq_mod) simp_all
  then have "uint hi * ?M + uint lo = Y * ?M + X - 2 ^ 64 * (?Z div ?M)" by (simp add: algebra_simps)
  then have "join64 hi lo = word_of_int (Y * ?M + X - 2 ^ 64 * (?Z div ?M))" by (simp add: join64_int)
  also have "\<dots> = word_of_int (Y * ?M + X)"
    by (simp only: word_of_int_eq_iff take_bit_eq_mod len_num_64 mod_diff_mult)
  finally show ?thesis .
qed

lemma ucast_sum_int: "(ucast (word_of_int X :: u64) :: u32) = word_of_int X"
  by (simp only: ucast_eq uint_word_of_int word_of_int_eq_iff take_bit_take_bit) (simp add: take_bit_eq_mod mod_mod_cancel)

lemma le_sum_int:
  "0 \<le> X \<Longrightarrow> X < 2 ^ 64 \<Longrightarrow> push_bit 32 k \<le> (word_of_int X :: u64) \<longleftrightarrow> uint (push_bit 32 k :: u64) \<le> X"
  by (simp add: word_le_def uint_word_of_int take_bit_int_eq_self)

text \<open>The modifiers of a negated operand in the low and in the high half of a chain.\<close>

definition ineg_if :: "bool \<Rightarrow> SrcMod" where "ineg_if n = (if n then INeg else ModNone)"
definition bnot_if :: "bool \<Rightarrow> SrcMod" where "bnot_if n = (if n then BNot else ModNone)"
definition neg_if :: "bool \<Rightarrow> 'a::uminus \<Rightarrow> 'a" where "neg_if n x = (if n then - x else x)"

lemma mod_if_simps [simp]:
  "mod_is_ineg (ineg_if n) = Some n" "mod_is_bnot (bnot_if n) = Some n"
  by (simp_all add: ineg_if_def bnot_if_def)

definition lo_term :: "bool \<Rightarrow> u32 \<Rightarrow> int" where
  "lo_term n a = (if n then 2 ^ 32 - uint a else uint a)"

definition hi_term :: "bool \<Rightarrow> u32 \<Rightarrow> int" where
  "hi_term n a = (if n then 2 ^ 32 - 1 - uint a else uint a)"

lemma iadd_term_int:
  "modifier s = ineg_if n \<Longrightarrow> iadd_term s a = Some (word_of_int (lo_term n a))"
proof -
  have "(ucast (NOT a) + 1 :: u64) = word_of_int (2 ^ 32 - uint a)"
    unfolding ucast_not_int wi_hom_syms(1) [where ?b = 1, unfolded word_of_int_1] by simp
  then show "modifier s = ineg_if n \<Longrightarrow> ?thesis"
    by (cases n) (simp_all only: iadd_term_def lo_term_def mod_if_simps option.map if_True if_False ucast_int)
qed

lemma bnot_src_int:
  assumes "get_u32_src f i s = Some b" and "modifier s = bnot_if n"
  obtains b' where "get_u32_bnot_src f i s = Some b'" "(ucast b' :: u64) = word_of_int (hi_term n b)"
proof
  show "get_u32_bnot_src f i s = Some (if n then NOT b else b)"
    using assms by (simp add: get_u32_bnot_src_def)
  show "(ucast (if n then NOT b else b) :: u64) = word_of_int (hi_term n b)"
    by (cases n) (simp_all only: hi_term_def if_True if_False ucast_not_int, rule ucast_int)
qed

lemma term_bounds:
  "0 \<le> lo_term n a" "lo_term n a \<le> 2 ^ 32" "lo_term n a = 2 ^ 32 \<longleftrightarrow> n \<and> a = 0"
  "0 \<le> hi_term n a" "hi_term n a < 2 ^ 32"
proof -
  have a: "0 \<le> uint a" "uint a < 2 ^ 32" "uint a = 0 \<longleftrightarrow> a = 0"
    by (rule uint_u32 uint_0_iff)+
  then show "0 \<le> lo_term n a" "lo_term n a \<le> 2 ^ 32" "0 \<le> hi_term n a" "hi_term n a < 2 ^ 32"
    unfolding lo_term_def hi_term_def by (cases n; simp only: if_True if_False; linarith)+
  show "lo_term n a = 2 ^ 32 \<longleftrightarrow> n \<and> a = 0"
    using a unfolding lo_term_def by (cases n) auto
qed

lemma term_join: "word_of_int (hi_term n b * 2 ^ 32 + lo_term n a) = neg_if n (join64 b a)"
proof (cases n)
  case True
  have "hi_term n b * 2 ^ 32 + lo_term n a = - (uint b * 2 ^ 32 + uint a) - 2 ^ 64 * (- 1)"
    using True by (simp add: hi_term_def lo_term_def algebra_simps)
  then have "word_of_int (hi_term n b * 2 ^ 32 + lo_term n a) = (word_of_int (- (uint b * 2 ^ 32 + uint a)) :: u64)"
    by (simp only: word_of_int_eq_iff take_bit_eq_mod len_num_64 mod_diff_mult)
  with True show ?thesis by (simp only: neg_if_def join64_int wi_hom_neg if_True)
qed (simp only: hi_term_def lo_term_def neg_if_def join64_int if_False)

lemma carry_count:
  assumes "0 \<le> X" and "X < 3 * 2 ^ 32"
  shows "X div 2 ^ 32 = of_bool (push_bit 32 1 \<le> (word_of_int X :: u64)) + of_bool (push_bit 32 2 \<le> (word_of_int X :: u64))"
proof -
  have X: "X < 2 ^ 64" using assms(2) by simp
  have "uint (push_bit 32 1 :: u64) = 2 ^ 32" "uint (push_bit 32 2 :: u64) = 2 * 2 ^ 32" by simp_all
  then have "push_bit 32 1 \<le> (word_of_int X :: u64) \<longleftrightarrow> 2 ^ 32 \<le> X"
      "push_bit 32 2 \<le> (word_of_int X :: u64) \<longleftrightarrow> 2 * 2 ^ 32 \<le> X"
    by (simp_all only: le_sum_int [OF assms(1) X])
  moreover have "X div 2 ^ 32 = of_bool (2 ^ 32 \<le> X) + of_bool (2 * 2 ^ 32 \<le> X)"
  proof -
    consider "X < 2 ^ 32" | "2 ^ 32 \<le> X" "X < 2 * 2 ^ 32" | "2 * 2 ^ 32 \<le> X" by linarith
    then show ?thesis
      using assms by cases (simp_all add: int_div_pos_eq [where ?r = X and ?q = 0] int_div_pos_eq [where ?r = "X - 2 ^ 32" and ?q = 1] int_div_pos_eq [where ?r = "X - 2 * 2 ^ 32" and ?q = 2])
  qed
  ultimately show ?thesis by (simp only:)
qed

definition lo_src :: "OpFoldData \<Rightarrow> nat \<Rightarrow> Src \<Rightarrow> bool \<Rightarrow> u32 \<Rightarrow> bool" where
  "lo_src f i s n a \<longleftrightarrow> get_u32_src f i s = Some a \<and> modifier s = ineg_if n"

definition hi_src :: "OpFoldData \<Rightarrow> nat \<Rightarrow> Src \<Rightarrow> bool \<Rightarrow> u32 \<Rightarrow> bool" where
  "hi_src f i s n b \<longleftrightarrow> get_u32_src f i s = Some b \<and> modifier s = bnot_if n"

lemma set_dst_Some [simp]: "i < length (fd_dsts f) \<Longrightarrow> set_dst f i d = Some (f\<lparr>fd_dsts := (fd_dsts f)[i := d]\<rparr>)"
  by (simp add: set_dst_def)

lemmas set_dst_defs = set_u32_dst_def set_pred_dst_def set_carry_dst_def

lemma list_update_all:
  "length xs = 3 \<Longrightarrow> xs[0 := x, Suc 0 := y, 2 := z] = [x, y, z]"
  "length xs = 2 \<Longrightarrow> xs[0 := x, Suc 0 := y] = [x, y]"
  by (auto simp: numeral_eq_Suc length_Suc_conv)

lemma fold_IAdd3_int:
  assumes "lo_src f 0 l0 n0 a0" "lo_src f 1 l1 n1 a1" "lo_src f 2 l2 n2 a2" "length (fd_dsts f) = 3"
    and X: "X = lo_term n0 a0 + lo_term n1 a1 + lo_term n2 a2"
  shows "fold_IAdd3 (l0, l1, l2) f = Some (f\<lparr>fd_dsts := [FdU32 (word_of_int X),
    FdPred (push_bit 32 1 \<le> (word_of_int X :: u64)), FdPred (push_bit 32 2 \<le> (word_of_int X :: u64))]\<rparr>)"
proof -
  have g: "get_u32_src f 0 l0 = Some a0" "get_u32_src f 1 l1 = Some a1" "get_u32_src f 2 l2 = Some a2"
    using assms by (simp_all add: lo_src_def)
  have t: "iadd_term l0 a0 = Some (word_of_int (lo_term n0 a0))" "iadd_term l1 a1 = Some (word_of_int (lo_term n1 a1))"
      "iadd_term l2 a2 = Some (word_of_int (lo_term n2 a2))"
    using assms by (simp_all add: iadd_term_int lo_src_def)
  have s: "0 + word_of_int (lo_term n0 a0) + word_of_int (lo_term n1 a1) + word_of_int (lo_term n2 a2) = (word_of_int X :: u64)"
    by (simp add: X)
  show ?thesis
    using assms(4) unfolding fold_IAdd3_def prod.case g bind.simps t s Let_def ucast_sum_int set_dst_defs
    by (simp add: list_update_all)
qed

lemma fold_IAdd3X_int:
  assumes "hi_src g 0 h0 n0 b0" "hi_src g 1 h1 n1 b1" "hi_src g 2 h2 n2 b2" "length (fd_dsts g) = 3"
    and c: "get_pred_src g 3 c0 = Some o0" "get_pred_src g 4 c1 = Some o1"
  shows "\<exists>g'. fold_IAdd3X (h0, h1, h2, c0, c1) g = Some g' \<and>
    fd_dsts g' ! 0 = FdU32 (word_of_int (hi_term n0 b0 + hi_term n1 b1 + hi_term n2 b2 + (of_bool o0 + of_bool o1)))"
proof -
  obtain d0 d1 d2 where d: "get_u32_bnot_src g 0 h0 = Some d0" "get_u32_bnot_src g 1 h1 = Some d1" "get_u32_bnot_src g 2 h2 = Some d2"
    and u: "(ucast d0 :: u64) = word_of_int (hi_term n0 b0)" "(ucast d1 :: u64) = word_of_int (hi_term n1 b1)"
      "(ucast d2 :: u64) = word_of_int (hi_term n2 b2)"
    using assms(1-3) unfolding hi_src_def by (metis bnot_src_int)
  have b: "(of_bool o0 :: u64) = word_of_int (of_bool o0)" "(of_bool o1 :: u64) = word_of_int (of_bool o1)" by simp_all
  have s: "0 + ucast d0 + ucast d1 + ucast d2 + of_bool o0 + of_bool o1 =
      (word_of_int (hi_term n0 b0 + hi_term n1 b1 + hi_term n2 b2 + (of_bool o0 + of_bool o1)) :: u64)"
    unfolding u b by simp
  show ?thesis
    unfolding fold_IAdd3X_def d c bind.simps prod.case s Let_def ucast_sum_int set_dst_defs using assms(4)
    by (simp del: wi_hom_syms)
qed

lemma fold_IAdd2_int:
  assumes "lo_src f 0 l0 n0 a0" "lo_src f 1 l1 n1 a1" "length (fd_dsts f) = 2"
    and X: "X = lo_term n0 a0 + lo_term n1 a1"
  shows "fold_IAdd2 (l0, l1) f = Some (f\<lparr>fd_dsts := [FdU32 (word_of_int X), FdCarry (push_bit 32 1 \<le> (word_of_int X :: u64))]\<rparr>)"
proof -
  have g: "get_u32_src f 0 l0 = Some a0" "get_u32_src f 1 l1 = Some a1" using assms by (simp_all add: lo_src_def)
  have t: "iadd_term l0 a0 = Some (word_of_int (lo_term n0 a0))" "iadd_term l1 a1 = Some (word_of_int (lo_term n1 a1))"
    using assms by (simp_all add: iadd_term_int lo_src_def)
  have s: "0 + word_of_int (lo_term n0 a0) + word_of_int (lo_term n1 a1) = (word_of_int X :: u64)" by (simp add: X)
  show ?thesis
    using assms(3) unfolding fold_IAdd2_def prod.case g bind.simps t s Let_def ucast_sum_int set_dst_defs
    by (simp add: list_update_all)
qed

lemma fold_IAdd2X_int:
  assumes "hi_src g 0 h0 n0 b0" "hi_src g 1 h1 n1 b1" "length (fd_dsts g) = 2" and c: "get_carry_src g 2 c0 = Some o0"
  shows "\<exists>g'. fold_IAdd2X (h0, h1, c0) g = Some g' \<and>
    fd_dsts g' ! 0 = FdU32 (word_of_int (hi_term n0 b0 + hi_term n1 b1 + of_bool o0))"
proof -
  obtain d0 d1 where d: "get_u32_bnot_src g 0 h0 = Some d0" "get_u32_bnot_src g 1 h1 = Some d1"
    and u: "(ucast d0 :: u64) = word_of_int (hi_term n0 b0)" "(ucast d1 :: u64) = word_of_int (hi_term n1 b1)"
    using assms(1,2) unfolding hi_src_def by (metis bnot_src_int)
  have b: "(of_bool o0 :: u64) = word_of_int (of_bool o0)" by simp
  have s: "ucast d0 + ucast d1 + of_bool o0 = (word_of_int (hi_term n0 b0 + hi_term n1 b1 + of_bool o0) :: u64)"
    unfolding u b by simp
  show ?thesis
    unfolding fold_IAdd2X_def d c bind.simps prod.case s Let_def ucast_sum_int set_dst_defs using assms(3)
    by simp
qed


text \<open>The result of one instruction wired to a source of the next.\<close>

definition wire :: "nat \<Rightarrow> FoldData \<Rightarrow> OpFoldData \<Rightarrow> OpFoldData" where
  "wire i d g = g\<lparr>fd_srcs := (fd_srcs g)[i := d]\<rparr>"

definition ssa_src :: "Src \<Rightarrow> bool" where
  "ssa_src s \<longleftrightarrow> sr_as_ssa (reference s) \<noteq> None \<and> modifier s = ModNone"

lemma wire_simps [simp]:
  "fd_dsts (wire i d g) = fd_dsts g" "length (fd_srcs (wire i d g)) = length (fd_srcs g)"
  "i \<noteq> j \<Longrightarrow> index (fd_srcs (wire i d g)) j = index (fd_srcs g) j"
  "i < length (fd_srcs g) \<Longrightarrow> fd_srcs (wire i d g) ! i = d"
  by (simp_all add: wire_def index_def)

lemma get_src_wire_other [simp]:
  "i \<noteq> j \<Longrightarrow> get_u32_src (wire i d g) j s = get_u32_src g j s"
  "i \<noteq> j \<Longrightarrow> get_pred_src (wire i d g) j s = get_pred_src g j s"
  "i \<noteq> j \<Longrightarrow> hi_src (wire i d g) j s n b \<longleftrightarrow> hi_src g j s n b"
  by (simp_all add: get_u32_src_def get_pred_src_def hi_src_def split: SrcRef.splits)

lemma get_src_wire_same [simp]:
  assumes "i < length (fd_srcs g)" "ssa_src s"
  shows "get_pred_src (wire i (FdPred b) g) i s = Some b" "get_carry_src (wire i (FdCarry b) g) i s = Some b"
  using assms by (auto simp: get_pred_src_def get_carry_src_def ssa_src_def elim!: sr_as_ssa.elims)

lemma src_of_ref_sel [simp]: "reference (src_of_ref r) = r" "modifier (src_of_ref r) = ModNone"
  by (simp_all add: src_of_ref_def)

text \<open>
  Property C24.  An \<^verbatim>\<open>iadd3\<close> on the low halves followed by an \<^verbatim>\<open>iadd3.x\<close> on the high halves that
  takes its two carries, with each negated operand negated in the low half and complemented in the
  high half, computes the 64-bit sum of the operands with those signs: both folds return, and the two
  results joined are the wrapping 64-bit sum.  The one exception is the sum of three negated operands
  whose low halves are all zero (the encoders refuse two negated operands).
\<close>

theorem iadd3_chain_64:
  assumes lo: "lo_src f 0 l0 n0 a0" "lo_src f 1 l1 n1 a1" "lo_src f 2 l2 n2 a2" "length (fd_dsts f) = 3"
    and hi: "hi_src g 0 h0 n0 b0" "hi_src g 1 h1 n1 b1" "hi_src g 2 h2 n2 b2" "length (fd_dsts g) = 3"
      "length (fd_srcs g) = 5" "ssa_src c0" "ssa_src c1"
    and nz: "\<not> (n0 \<and> n1 \<and> n2 \<and> a0 = 0 \<and> a1 = 0 \<and> a2 = 0)"
  shows "\<exists>f' g' lo hi. fold_IAdd3 (l0, l1, l2) f = Some f' \<and>
    fold_IAdd3X (h0, h1, h2, c0, c1) (wire 3 (fd_dsts f' ! 1) (wire 4 (fd_dsts f' ! 2) g)) = Some g' \<and>
    fd_dsts f' ! 0 = FdU32 lo \<and> fd_dsts g' ! 0 = FdU32 hi \<and>
    join64 hi lo = neg_if n0 (join64 b0 a0) + neg_if n1 (join64 b1 a1) + neg_if n2 (join64 b2 a2)"
proof -
  define X where "X = lo_term n0 a0 + lo_term n1 a1 + lo_term n2 a2"
  define Y where "Y = hi_term n0 b0 + hi_term n1 b1 + hi_term n2 b2"
  define o0 where "o0 \<longleftrightarrow> push_bit 32 1 \<le> (word_of_int X :: u64)"
  define o1 where "o1 \<longleftrightarrow> push_bit 32 2 \<le> (word_of_int X :: u64)"
  have "0 \<le> X" "X < 3 * 2 ^ 32"
    using nz term_bounds(1-3) [of n0 a0] term_bounds(1-3) [of n1 a1] term_bounds(1-3) [of n2 a2] unfolding X_def by linarith+
  then have c: "X div 2 ^ 32 = of_bool o0 + of_bool o1" unfolding o0_def o1_def by (rule carry_count)
  have "join64 (word_of_int (Y + (of_bool o0 + of_bool o1))) (word_of_int X) = word_of_int (Y * 2 ^ 32 + X)"
    by (rule carry_chain [OF refl]) (simp only: c)
  also have "\<dots> = neg_if n0 (join64 b0 a0) + neg_if n1 (join64 b1 a1) + neg_if n2 (join64 b2 a2)"
    unfolding term_join [symmetric] X_def Y_def by (simp add: algebra_simps)
  finally have j: "join64 (word_of_int (Y + (of_bool o0 + of_bool o1))) (word_of_int X) = \<dots>" .
  let ?g = "wire 3 (FdPred o0) (wire 4 (FdPred o1) g)"
  have "\<exists>g'. fold_IAdd3X (h0, h1, h2, c0, c1) ?g = Some g' \<and> fd_dsts g' ! 0 = FdU32 (word_of_int (Y + (of_bool o0 + of_bool o1)))"
    unfolding Y_def by (rule fold_IAdd3X_int) (use hi in simp_all)
  then show ?thesis
    using fold_IAdd3_int [OF lo X_def] j unfolding o0_def [symmetric] o1_def [symmetric] by fastforce
qed

theorem iadd3_chain_64_witness:
  "let src = (\<lambda>u m. \<lparr>reference = Imm32 u, modifier = m, swizzle = SwNone\<rparr>);
       f = \<lparr>fd_dsts = [FdU32 0, FdPred False, FdPred False], fd_srcs = [FdU32 0, FdU32 0, FdU32 0, FdPred False, FdPred False]\<rparr>;
       c = src_of_ref (SrSSA (Small [\<lparr>ssa_packed = 1\<rparr>])) in
   \<exists>f' g' lo hi. fold_IAdd3 (src 0xffffffff ModNone, src 1 ModNone, src 2 INeg) f = Some f' \<and>
    fold_IAdd3X (src 0 ModNone, src 0 ModNone, src 0 BNot, c, c) (wire 3 (fd_dsts f' ! 1) (wire 4 (fd_dsts f' ! 2) f)) = Some g' \<and>
    fd_dsts f' ! 0 = FdU32 lo \<and> fd_dsts g' ! 0 = FdU32 hi \<and>
    join64 hi lo = neg_if False (join64 0 0xffffffff) + neg_if False (join64 0 1) + neg_if True (join64 0 2)"
  unfolding Let_def
  by (rule iadd3_chain_64) (simp_all add: lo_src_def hi_src_def get_u32_src_def ineg_if_def bnot_if_def ssa_src_def)

text \<open>
  An \<^verbatim>\<open>iadd2\<close> followed by an \<^verbatim>\<open>iadd2.x\<close> through the carry flag computes the wrapping
  64-bit sum or difference of its operands, except when both operands are negated and both low halves
  are zero.
\<close>

theorem iadd2_chain_64:
  assumes lo: "lo_src f 0 l0 n0 a0" "lo_src f 1 l1 n1 a1" "length (fd_dsts f) = 2"
    and hi: "hi_src g 0 h0 n0 b0" "hi_src g 1 h1 n1 b1" "length (fd_dsts g) = 2" "length (fd_srcs g) = 3" "ssa_src c0"
    and nz: "\<not> (n0 \<and> n1 \<and> a0 = 0 \<and> a1 = 0)"
  shows "\<exists>f' g' lo hi. fold_IAdd2 (l0, l1) f = Some f' \<and>
    fold_IAdd2X (h0, h1, c0) (wire 2 (fd_dsts f' ! 1) g) = Some g' \<and>
    fd_dsts f' ! 0 = FdU32 lo \<and> fd_dsts g' ! 0 = FdU32 hi \<and>
    join64 hi lo = neg_if n0 (join64 b0 a0) + neg_if n1 (join64 b1 a1)"
proof -
  define X where "X = lo_term n0 a0 + lo_term n1 a1"
  define Y where "Y = hi_term n0 b0 + hi_term n1 b1"
  define o0 where "o0 \<longleftrightarrow> push_bit 32 1 \<le> (word_of_int X :: u64)"
  have X: "0 \<le> X" "X < 2 * 2 ^ 32"
    using nz term_bounds(1-3) [of n0 a0] term_bounds(1-3) [of n1 a1] unfolding X_def by linarith+
  then have c: "X div 2 ^ 32 = of_bool o0"
    using carry_count [of X] le_sum_int [of X 2] unfolding o0_def by simp
  have "join64 (word_of_int (Y + of_bool o0)) (word_of_int X) = word_of_int (Y * 2 ^ 32 + X)"
    by (rule carry_chain [OF refl]) (simp only: c)
  also have "\<dots> = neg_if n0 (join64 b0 a0) + neg_if n1 (join64 b1 a1)"
    unfolding term_join [symmetric] X_def Y_def by (simp add: algebra_simps)
  finally have j: "join64 (word_of_int (Y + of_bool o0)) (word_of_int X) = \<dots>" .
  have "\<exists>g'. fold_IAdd2X (h0, h1, c0) (wire 2 (FdCarry o0) g) = Some g' \<and> fd_dsts g' ! 0 = FdU32 (word_of_int (Y + of_bool o0))"
    unfolding Y_def by (rule fold_IAdd2X_int) (use hi in simp_all)
  then show ?thesis
    using fold_IAdd2_int [OF lo X_def] j unfolding o0_def [symmetric] by fastforce
qed

theorem iadd2_chain_64_witness:
  "let src = (\<lambda>u m. \<lparr>reference = Imm32 u, modifier = m, swizzle = SwNone\<rparr>);
       f = \<lparr>fd_dsts = [FdU32 0, FdCarry False], fd_srcs = [FdU32 0, FdU32 0, FdCarry False]\<rparr>;
       c0 = src_of_ref (SrSSA (Small [\<lparr>ssa_packed = 1\<rparr>])) in
   \<exists>f' g' lo hi. fold_IAdd2 (src 0xffffffff ModNone, src 2 INeg) f = Some f' \<and>
    fold_IAdd2X (src 5 ModNone, src 3 BNot, c0) (wire 2 (fd_dsts f' ! 1) f) = Some g' \<and>
    fd_dsts f' ! 0 = FdU32 lo \<and> fd_dsts g' ! 0 = FdU32 hi \<and>
    join64 hi lo = neg_if False (join64 5 0xffffffff) + neg_if True (join64 3 2)"
  unfolding Let_def
  by (rule iadd2_chain_64) (simp_all add: lo_src_def hi_src_def get_u32_src_def ineg_if_def bnot_if_def ssa_src_def)

subsection \<open>Comparison\<close>

lemma uint_join64: "uint (join64 hi lo) = uint hi * 2 ^ 32 + uint lo"
proof -
  have "uint hi * 2 ^ 32 + uint lo \<le> (2 ^ 32 - 1) * 2 ^ 32 + (2 ^ 32 - 1)"
    using uint_u32 [of hi] uint_u32 [of lo] by (intro add_mono mult_right_mono) auto
  then show ?thesis
    unfolding join64_int uint_word_of_int using uint_u32 [of hi] uint_u32 [of lo]
    by (intro mod_pos_pos_trivial) auto
qed

lemma lex_int:
  fixes a b c d M :: int
  assumes "0 \<le> c" "c < M" "0 \<le> d" "d < M"
  shows "a * M + c < b * M + d \<longleftrightarrow> a < b \<or> a = b \<and> c < d"
    and "a * M + c = b * M + d \<longleftrightarrow> a = b \<and> c = d"
proof -
  have l: "a * M + c < b * M + d" if "a < b" "0 \<le> d" "c < M" for a b c d :: int
  proof -
    have "(a + 1) * M \<le> b * M" using that assms by (intro mult_right_mono) auto
    then show ?thesis using that by (simp add: algebra_simps)
  qed
  show "a * M + c < b * M + d \<longleftrightarrow> a < b \<or> a = b \<and> c < d"
    using l [of a b d c] l [of b a c d] assms by (cases a b rule: linorder_cases) auto
  show "a * M + c = b * M + d \<longleftrightarrow> a = b \<and> c = d"
    using l [of a b d c] l [of b a c d] assms by (cases a b rule: linorder_cases) auto
qed

lemma sint_mod: "sint (w :: 'a::len word) = (uint w + 2 ^ (LENGTH('a) - 1)) mod 2 ^ LENGTH('a) - 2 ^ (LENGTH('a) - 1)"
  by (simp add: sint_uint signed_take_bit_eq_take_bit_shift take_bit_eq_mod)

lemma sint_if: "sint (w :: 'a::len word) = (if uint w < 2 ^ (LENGTH('a) - 1) then uint w else uint w - 2 ^ LENGTH('a))"
proof -
  have p: "(2 :: int) ^ LENGTH('a) = 2 * 2 ^ (LENGTH('a) - 1)" by (simp flip: power_Suc)
  have u: "0 \<le> uint w" "uint w < 2 * 2 ^ (LENGTH('a) - 1)" using uint_lt2p [of w] unfolding p by simp_all
  show ?thesis
  proof (cases "uint w < 2 ^ (LENGTH('a) - 1)")
    case True
    with u show ?thesis unfolding sint_mod p by (subst mod_pos_pos_trivial) auto
  next
    case False
    then have "(uint w + 2 ^ (LENGTH('a) - 1)) mod (2 * 2 ^ (LENGTH('a) - 1)) = uint w - 2 ^ (LENGTH('a) - 1)"
      using u mod_add_self2 [of "uint w - 2 ^ (LENGTH('a) - 1)" "2 * 2 ^ (LENGTH('a) - 1)"] by (simp add: add.commute)
    with False show ?thesis unfolding sint_mod p by simp
  qed
qed

lemma sint_join64: "sint (join64 hi lo) = sint hi * 2 ^ 32 + uint lo"
proof -
  have "uint hi * 2 ^ 32 + uint lo < 2 ^ 63 \<longleftrightarrow> uint hi < 2 ^ 31"
    using lex_int(1) [of "uint lo" "2 ^ 32" 0 "uint hi" "2 ^ 31"] uint_u32 [of lo] by simp
  then show ?thesis unfolding sint_if uint_join64 by (auto simp: algebra_simps)
qed

definition icmp_word64 :: "IntCmpOp \<Rightarrow> bool \<Rightarrow> u64 \<Rightarrow> u64 \<Rightarrow> bool" where
  "icmp_word64 op is_signed x y =
     (if is_signed then icmp_int op (sint x) (sint y) else icmp_int op (uint x) (uint y))"

lemma icmp_int_lex:
  assumes "0 \<le> c" "c < M" "0 \<le> d" "d < M"
  shows "icmp_int op (a * M + c) (b * M + d) =
    (if a = b \<and> op \<noteq> CFalse \<and> op \<noteq> CTrue then icmp_int op c d else icmp_int op a b)"
  using lex_int [OF assms, of a b] lex_int [OF assms(3,4,1,2), of b a] by (cases op) auto

lemma icmp_word64_halves:
  "icmp_word64 op s (join64 x1 x0) (join64 y1 y0) =
    (if x1 = y1 \<and> op \<noteq> CFalse \<and> op \<noteq> CTrue then icmp_word op False x0 y0 else icmp_word op s x1 y1)"
  using icmp_int_lex [OF uint_u32 [of x0] uint_u32 [of y0], of op]
  by (auto simp: icmp_word64_def icmp_word_def uint_join64 sint_join64 word_uint_eq_iff [symmetric] dest: signed_word_eqI)

text \<open>
  Property C26.  On shader models from 70, an unsigned \<^verbatim>\<open>isetp\<close> on the low halves followed by an
  \<^verbatim>\<open>isetp.ex\<close> on the high halves that takes its result computes the 64-bit comparison (signed when
  the high comparison is) combined with the accumulator, for every comparison operator.
\<close>

theorem isetp_ex_64:
  assumes sm: "70 \<le> sm"
    and lo: "setp_ex lo = False" "setp_cmp_type lo = CmpU32" "setp_set_op lo = PAnd" "setp_srcs lo = (l0, l1, la, ll)"
      "get_u32_src f 0 l0 = Some x0" "get_u32_src f 1 l1 = Some y0" "get_pred_src f 2 la = Some True"
      "get_pred_src f 3 ll = Some z" "fd_dsts f \<noteq> []"
    and hi: "setp_ex hi" "setp_cmp_op hi = setp_cmp_op lo" "setp_srcs hi = (h0, h1, ha, hl)"
      "get_u32_src g 0 h0 = Some x1" "get_u32_src g 1 h1 = Some y1" "get_pred_src g 2 ha = Some acc" "fd_dsts g \<noteq> []"
      "length (fd_srcs g) = 4" "ssa_src hl"
  shows "\<exists>f' g'. fold_ISetP sm lo f = Some f' \<and> fold_ISetP sm hi (wire 3 (fd_dsts f' ! 0) g) = Some g' \<and>
     fd_dsts g' ! 0 = FdPred (pso_eval (setp_set_op hi)
       (icmp_word64 (setp_cmp_op hi) (cmp_is_signed (setp_cmp_type hi)) (join64 x1 x0) (join64 y1 y0)) acc)"
  using assms by (auto simp: fold_ISetP_def set_dst_defs icmp_word64_halves Let_def)

theorem isetp_ex_64_witness:
  "let src = (\<lambda>u. src_of_ref (Imm32 u)); t = src_of_ref SrTrue;
       lo = \<lparr>setp_set_op = PAnd, setp_cmp_op = CLt, setp_cmp_type = CmpU32, setp_ex = False, setp_srcs = (src 5, src 7, t, t)\<rparr>;
       hi = \<lparr>setp_set_op = POr, setp_cmp_op = CLt, setp_cmp_type = CmpI32, setp_ex = True,
             setp_srcs = (src 0xffffffff, src 0xffffffff, src_of_ref SrFalse, src_of_ref (SrSSA (Small [\<lparr>ssa_packed = 1\<rparr>])))\<rparr>;
       f = \<lparr>fd_dsts = [FdPred False], fd_srcs = [FdU32 0, FdU32 0, FdPred False, FdPred False]\<rparr> in
   \<exists>f' g'. fold_ISetP 75 lo f = Some f' \<and> fold_ISetP 75 hi (wire 3 (fd_dsts f' ! 0) f) = Some g' \<and>
     fd_dsts g' ! 0 = FdPred (pso_eval (setp_set_op hi)
       (icmp_word64 (setp_cmp_op hi) (cmp_is_signed (setp_cmp_type hi)) (join64 0xffffffff 5) (join64 0xffffffff 7)) False)"
  unfolding Let_def
  by (rule isetp_ex_64 [where z = True], simp_all) (simp_all add: get_u32_src_def get_pred_src_def ssa_src_def)

subsection \<open>Address computation\<close>

lemma overflowing_add_int:
  "overflowing_add x y = (word_of_int (uint x + uint y), 2 ^ 32 \<le> uint x + uint y)"
proof -
  have "2 ^ 32 \<le> unat x + unat y \<longleftrightarrow> int (2 ^ 32) \<le> int (unat x + unat y)" by (rule of_nat_le_iff [symmetric])
  then show ?thesis unfolding overflowing_add_def word_add_def by (simp only: of_nat_add uint_nat of_nat_power of_nat_numeral)
qed

lemma uint_not: "uint (NOT (a :: u32)) = 2 ^ 32 - 1 - uint a"
proof -
  have "uint (ucast (NOT a) :: u64) = (2 ^ 32 - 1 - uint a) mod 2 ^ 64"
    unfolding ucast_not_int uint_word_of_int by simp
  also have "\<dots> = 2 ^ 32 - 1 - uint a"
    using uint_u32 [of a] power_increasing [of 32 64 "2 :: int"] by (intro mod_pos_pos_trivial) linarith+
  finally show ?thesis using uint_up_ucast [of "NOT a", where ?'b = 64] by (simp add: is_up)
qed

text \<open>The negation of an operand of \<^verbatim>\<open>lea\<close> overflows on zero only.\<close>

lemma neg_overflow:
  "(if n then overflowing_add (NOT a) 1 else (a, False)) = (word_of_int (lo_term n a), n \<and> a = 0)"
proof (cases n)
  case True
  then show ?thesis
    using uint_0_iff [of a] uint_u32 [of a]
    unfolding overflowing_add_int uint_not lo_term_def uint_1 if_True by auto
qed (simp add: lo_term_def)

lemma shift_halves:
  assumes "n < 32"
  shows "push_bit n (join64 ah a) = join64 (ucast (drop_bit (32 - n) (join64 ah a))) (push_bit n a)"
proof (rule bit_word_eqI)
  fix i assume "i < LENGTH(64)"
  then have i: "i < 64" by simp
  have "bit a k \<Longrightarrow> k < 32" "bit ah k \<Longrightarrow> k < 32" for k using bit_imp_le_length by force+
  then show "bit (push_bit n (join64 ah a)) i \<longleftrightarrow> bit (join64 (ucast (drop_bit (32 - n) (join64 ah a))) (push_bit n a)) i"
    using assms i by (cases "i < 32") (auto simp: join64_def bit_simps algebra_simps)
qed


lemma lea_carry:
  assumes "\<not> (n \<and> a = 0 \<and> m \<and> b = 0)"
  shows "overflowing_add (word_of_int (lo_term n a)) (word_of_int (lo_term m b)) = (x, c) \<Longrightarrow>
    x = word_of_int (lo_term n a + lo_term m b) \<and> ((n \<and> a = 0 \<or> m \<and> b = 0 \<or> c) \<longleftrightarrow> 2 ^ 32 \<le> lo_term n a + lo_term m b)"
proof -
  have u: "uint (word_of_int (lo_term n a) :: u32) = (if n \<and> a = 0 then 0 else lo_term n a)" for n a
  proof (cases "n \<and> a = 0")
    case False
    then have "lo_term n a < 2 ^ 32" using term_bounds(2,3) [of n a] by linarith
    with False show ?thesis using term_bounds(1) [of n a] by (auto simp: uint_word_of_int)
  qed (simp add: lo_term_def)
  show "overflowing_add (word_of_int (lo_term n a)) (word_of_int (lo_term m b)) = (x, c) \<Longrightarrow>
    x = word_of_int (lo_term n a + lo_term m b) \<and> ((n \<and> a = 0 \<or> m \<and> b = 0 \<or> c) \<longleftrightarrow> 2 ^ 32 \<le> lo_term n a + lo_term m b)"
    using assms term_bounds(1-3) [of n a] term_bounds(1-3) [of m b]
    unfolding overflowing_add_def overflowing_add_int [unfolded overflowing_add_def] u by auto
qed

lemma fold_Lea_int:
  assumes "lea_srcs lo = (la, lb, lh)" "lea_shift lo = s" "s < 32" "\<not> lea_dst_high lo" "lea_intermediate_mod lo = ineg_if n"
    and "get_u32_src f 0 la = Some a" "lo_src f 1 lb m b" "get_u32_src f 2 lh = Some z" "length (fd_dsts f) = 2"
    and nz: "\<not> (n \<and> push_bit (unat s) a = 0 \<and> m \<and> b = 0)"
    and X: "X = lo_term n (push_bit (unat s) a) + lo_term m b"
  shows "fold_Lea lo f = Some (f\<lparr>fd_dsts := [FdU32 (word_of_int X), FdPred (2 ^ 32 \<le> X)]\<rparr>)"
proof -
  let ?sl = "push_bit (unat s) a"
  obtain x c where o: "overflowing_add (word_of_int (lo_term n ?sl)) (word_of_int (lo_term m b)) = (x, c)"
    by fastforce
  have xc: "x = word_of_int X" "(n \<and> ?sl = 0 \<or> m \<and> b = 0 \<or> c) \<longleftrightarrow> 2 ^ 32 \<le> X"
    using lea_carry [OF nz o] unfolding X by blast+
  have g: "lea_shifted (lea_dst_high lo) (lea_shift lo) a z = Some ?sl" using assms by (simp add: lea_shifted_def)
  have b: "get_u32_src f 1 lb = Some b" "mod_is_ineg (modifier lb) = Some m" "mod_is_ineg (lea_intermediate_mod lo) = Some n"
    using assms by (simp_all add: lo_src_def)
  show ?thesis
    unfolding fold_Lea_def assms(1,6,8) g b bind.simps prod.case Let_def neg_overflow o xc set_dst_defs
    using assms(9) by (simp add: list_update_all)
qed

lemma fold_LeaX_int:
  assumes "leax_srcs hi = (ha, hb, hh, hc)" "leax_shift hi = s" "s < 32" "leax_dst_high hi" "leax_intermediate_mod hi = bnot_if n"
    and "get_u32_src g 0 ha = Some a" "hi_src g 1 hb m b" "get_u32_src g 2 hh = Some ah" "get_pred_src g 3 hc = Some c"
    and "length (fd_dsts g) = 2"
    and sh: "sh = ucast (drop_bit (32 - unat s) (join64 ah a))"
  shows "\<exists>g'. fold_LeaX hi g = Some g' \<and> fd_dsts g' ! 0 = FdU32 (word_of_int (hi_term n sh + hi_term m b + of_bool c))"
proof -
  have "unat (32 - s) = 32 - unat s" using assms(3) by (simp add: unat_sub word_le_nat_alt word_less_nat_alt)
  then have g: "lea_shifted (leax_dst_high hi) (leax_shift hi) a ah = Some sh"
    using assms(2,4) less_imp_le [OF assms(3)] by (simp add: lea_shifted_def join64_def sh)
  have b: "get_u32_src g 1 hb = Some b" "mod_is_bnot (modifier hb) = Some m" "mod_is_bnot (leax_intermediate_mod hi) = Some n"
    using assms by (simp_all add: hi_src_def)
  have t: "(if n then NOT w else w) = word_of_int (hi_term n w)" for n and w :: u32
    using word_of_int_uint [of "NOT w"] unfolding uint_not hi_term_def by (cases n) simp_all
  have c: "(if c then 1 else 0 :: u32) = word_of_int (of_bool c)" by simp
  have s: "(x :: u32) + y = fst (overflowing_add x y)" for x y by (simp add: overflowing_add_def)
  have "fst (overflowing_add (fst (overflowing_add (word_of_int (hi_term n sh)) (word_of_int (hi_term m b)))) (word_of_int (of_bool c))) =
      (word_of_int (hi_term n sh + hi_term m b + of_bool c) :: u32)"
    by (simp add: overflowing_add_def)
  then show ?thesis
    unfolding fold_LeaX_def assms(1,6,8,9) g b bind.simps prod.case Let_def t c set_dst_defs
    using assms(10) by (simp add: case_prod_unfold)
qed

text \<open>
  Property C25.  A \<^verbatim>\<open>lea\<close> on the low halves followed by a \<^verbatim>\<open>lea.hi.x\<close> that takes its carry computes the
  64-bit address \<^emph>\<open>base plus index shifted left\<close>, for every shift below 32 and with either term negated,
  except when both are negated and their low halves are zero.
\<close>

theorem lea_chain_64:
  assumes lo: "lea_srcs lo = (la, lb, lh)" "lea_shift lo = s" "s < 32" "\<not> lea_dst_high lo" "lea_intermediate_mod lo = ineg_if n"
      "get_u32_src f 0 la = Some a" "lo_src f 1 lb m b0" "get_u32_src f 2 lh = Some z" "length (fd_dsts f) = 2"
    and hi: "leax_srcs hi = (ha, hb, hh, hc)" "leax_shift hi = s" "leax_dst_high hi" "leax_intermediate_mod hi = bnot_if n"
      "get_u32_src g 0 ha = Some a" "hi_src g 1 hb m b1" "get_u32_src g 2 hh = Some ah" "ssa_src hc"
      "length (fd_dsts g) = 2" "length (fd_srcs g) = 4"
    and nz: "\<not> (n \<and> push_bit (unat s) a = 0 \<and> m \<and> b0 = 0)"
  shows "\<exists>f' g' rlo rhi. fold_Lea lo f = Some f' \<and> fold_LeaX hi (wire 3 (fd_dsts f' ! 1) g) = Some g' \<and>
    fd_dsts f' ! 0 = FdU32 rlo \<and> fd_dsts g' ! 0 = FdU32 rhi \<and>
    join64 rhi rlo = neg_if n (push_bit (unat s) (join64 ah a)) + neg_if m (join64 b1 b0)"
proof -
  define sl where "sl = push_bit (unat s) a"
  define sh :: u32 where "sh = ucast (drop_bit (32 - unat s) (join64 ah a))"
  define X where "X = lo_term n sl + lo_term m b0"
  define Y where "Y = hi_term n sh + hi_term m b1"
  have "0 \<le> X" "X < 2 * 2 ^ 32"
    using nz term_bounds(1-3) [of n sl] term_bounds(1-3) [of m b0] unfolding X_def sl_def [symmetric] by linarith+
  then have c: "X div 2 ^ 32 = of_bool (2 ^ 32 \<le> X)"
    using carry_count [of X] le_sum_int [of X 1] le_sum_int [of X 2] by simp
  have "join64 (word_of_int (Y + of_bool (2 ^ 32 \<le> X))) (word_of_int X) = word_of_int (Y * 2 ^ 32 + X)"
    by (rule carry_chain [OF refl]) (simp only: c)
  also have "\<dots> = neg_if n (join64 sh sl) + neg_if m (join64 b1 b0)"
    unfolding term_join [symmetric] X_def Y_def by (simp add: algebra_simps)
  also have "join64 sh sl = push_bit (unat s) (join64 ah a)"
    unfolding sh_def sl_def using assms(3) by (intro shift_halves [symmetric]) (simp add: word_less_nat_alt)
  finally have j: "join64 (word_of_int (Y + of_bool (2 ^ 32 \<le> X))) (word_of_int X) =
      neg_if n (push_bit (unat s) (join64 ah a)) + neg_if m (join64 b1 b0)" .
  have "\<exists>g'. fold_LeaX hi (wire 3 (FdPred (2 ^ 32 \<le> X)) g) = Some g' \<and>
      fd_dsts g' ! 0 = FdU32 (word_of_int (Y + of_bool (2 ^ 32 \<le> X)))"
    unfolding Y_def by (rule fold_LeaX_int [OF hi(1,2) lo(3) hi(3,4)]) (use hi sh_def in simp_all)
  then show ?thesis
    using fold_Lea_int [OF lo nz X_def [unfolded sl_def]] j by fastforce
qed

theorem lea_chain_64_witness:
  "let src = (\<lambda>u. src_of_ref (Imm32 u));
       lo = \<lparr>lea_srcs = (src 0xc0000001, src 0xfffffff0, src 0), lea_shift = 2, lea_dst_high = False, lea_intermediate_mod = ModNone\<rparr>;
       hi = \<lparr>leax_srcs = (src 0xc0000001, src 7, src 1, src_of_ref (SrSSA (Small [\<lparr>ssa_packed = 1\<rparr>]))), leax_shift = 2,
             leax_dst_high = True, leax_intermediate_mod = ModNone\<rparr>;
       f = \<lparr>fd_dsts = [FdU32 0, FdPred False], fd_srcs = [FdU32 0, FdU32 0, FdU32 0, FdPred False]\<rparr> in
   \<exists>f' g' rlo rhi. fold_Lea lo f = Some f' \<and> fold_LeaX hi (wire 3 (fd_dsts f' ! 1) f) = Some g' \<and>
    fd_dsts f' ! 0 = FdU32 rlo \<and> fd_dsts g' ! 0 = FdU32 rhi \<and>
    join64 rhi rlo = neg_if False (push_bit (unat (2 :: u8)) (join64 1 0xc0000001)) + neg_if False (join64 7 0xfffffff0)"
  unfolding Let_def
  by (rule lea_chain_64 [where z = 0], simp_all)
     (simp_all add: lo_src_def hi_src_def get_u32_src_def ineg_if_def bnot_if_def ssa_src_def)

end
