(* ===== verification/FoldShift.thy ===== *)
theory FoldShift
  imports Fold
begin

text \<open>
  The shifts, the bit scan, the field extension and the byte permutation of the folder: the immediate
  reductions do not change the results, and each operation is compared with a reference definition.
\<close>

subsection \<open>Shift amounts\<close>

lemma shift_amount_idem: "shift_amount w b (shift_amount w b s) = shift_amount w b s"
  by (simp add: shift_amount_def and.assoc)

lemma reduce_shift_imm_amount:
  assumes "reduce_shift_imm s wrap bits = Some s'"
  shows "map_option (shift_amount wrap bits) (get_u32_src f i s') = map_option (shift_amount wrap bits) (get_u32_src f i s)"
  using assms shift_amount_idem [of wrap bits]
  by (auto simp: reduce_shift_imm_def assert_then_eq_Some get_u32_src_def shift_amount_def split: SrcRef.splits if_splits)

lemma reduce_shift_imm_panics [simp]: "reduce_shift_imm s wrap bits = None \<longleftrightarrow> modifier s \<noteq> ModNone"
  by (simp add: reduce_shift_imm_def assert_then_def)

lemma shf_shifted_srcs [simp]: "shf_shifted sm (op\<lparr>shf_srcs := x\<rparr>) = shf_shifted sm op"
  by (cases op) (simp add: fun_eq_iff shf_shifted_def cong: if_cong)

lemma fold_Shf_amount:
  assumes "map_option (shift_amount (shf_wrap op) (word_of_nat (ity_bits (shf_data_type op)))) (get_u32_src f 2 s') =
    map_option (shift_amount (shf_wrap op) (word_of_nat (ity_bits (shf_data_type op)))) (get_u32_src f 2 s)"
    and "shf_srcs op = (low, high, s)"
  shows "fold_Shf sm (op\<lparr>shf_srcs := (low, high, s')\<rparr>) f = fold_Shf sm op f"
  using assms by (cases "get_u32_src f 2 s'"; cases "get_u32_src f 2 s") (simp_all add: fold_Shf_def Let_def cong: if_cong)

lemma fold_Shl_amount:
  assumes "map_option (shift_amount (shl_wrap op) 32) (get_u32_src f 1 s') = map_option (shift_amount (shl_wrap op) 32) (get_u32_src f 1 s)"
    and "shl_srcs op = (x, s)"
  shows "fold_Shl (op\<lparr>shl_srcs := (x, s')\<rparr>) f = fold_Shl op f"
  using assms by (cases "get_u32_src f 1 s'"; cases "get_u32_src f 1 s") (simp_all add: fold_Shl_def)

lemma fold_Shr_amount:
  assumes "map_option (shift_amount (shr_wrap op) 32) (get_u32_src f 1 s') = map_option (shift_amount (shr_wrap op) 32) (get_u32_src f 1 s)"
    and "shr_srcs op = (x, s)"
  shows "fold_Shr (op\<lparr>shr_srcs := (x, s')\<rparr>) f = fold_Shr op f"
  using assms by (cases "get_u32_src f 1 s'"; cases "get_u32_src f 1 s") (simp_all add: fold_Shr_def cong: if_cong)

text \<open>
  Property C28.  Reducing an immediate shift amount (masking it when the shift wraps, clamping it to the
  width when it does not) does not change what \<^verbatim>\<open>shf\<close>, \<^verbatim>\<open>shl\<close> and \<^verbatim>\<open>shr\<close> compute, on any data;
  it panics exactly on a modified shift source.
\<close>

theorem reduce_shift_imm_sound:
  "(case shf_reduce_shift_imm shf of None \<Rightarrow> modifier (snd (snd (shf_srcs shf))) \<noteq> ModNone
     | Some shf' \<Rightarrow> fold_Shf sm shf' f = fold_Shf sm shf f) \<and>
   (case shl_reduce_shift_imm shl of None \<Rightarrow> modifier (snd (shl_srcs shl)) \<noteq> ModNone
     | Some shl' \<Rightarrow> fold_Shl shl' f = fold_Shl shl f) \<and>
   (case shr_reduce_shift_imm shr of None \<Rightarrow> modifier (snd (shr_srcs shr)) \<noteq> ModNone
     | Some shr' \<Rightarrow> fold_Shr shr' f = fold_Shr shr f)"
  by (auto simp: shf_reduce_shift_imm_def shl_reduce_shift_imm_def shr_reduce_shift_imm_def
    dest!: reduce_shift_imm_amount intro!: fold_Shf_amount fold_Shl_amount fold_Shr_amount split: option.splits prod.splits)

subsection \<open>Bit scan\<close>

lemma leading_zeros_le: "leading_zeros (w :: 'a::len word) \<le> LENGTH('a)"
  unfolding leading_zeros_def using length_takeWhile_le [of _ "rev [0..<LENGTH('a)]"] by simp

lemma leading_zeros_highest:
  fixes w :: "'a::len word"
  assumes "w \<noteq> 0"
  shows "leading_zeros w < LENGTH('a)" and "LENGTH('a) - 1 - leading_zeros w = Max {i. bit w i}"
proof -
  let ?n = "LENGTH('a)"
  let ?P = "\<lambda>i. \<not> bit w i"
  obtain k where k: "bit w k" "k < ?n" using assms bit_eqI [of w 0] bit_imp_le_length by (metis bit_0_eq bot_apply bot_bool_def)
  define l where "l = leading_zeros w"
  have rn: "rev [0..<?n] ! i = ?n - 1 - i" if "i < ?n" for i using that by (simp add: rev_nth)
  show l: "leading_zeros w < ?n"
  proof (rule ccontr)
    assume "\<not> ?thesis"
    then have "takeWhile ?P (rev [0..<?n]) = rev [0..<?n]"
      using leading_zeros_le [of w] unfolding leading_zeros_def
      by (metis le_antisym length_rev length_upt diff_zero not_less takeWhile_eq_take take_all_iff order_refl)
    then have "?P k" using k(2) by (metis atLeastLessThan_iff le0 set_rev set_takeWhileD set_upt)
    with k show False by simp
  qed
  have hit: "bit w (?n - 1 - leading_zeros w)"
    using nth_length_takeWhile [of ?P "rev [0..<?n]"] l rn unfolding leading_zeros_def by simp
  have above: "\<not> bit w j" if "?n - 1 - leading_zeros w < j" for j
  proof
    assume j: "bit w j"
    then have jn: "j < ?n" by (rule bit_imp_le_length)
    have "?n - 1 - j < leading_zeros w" using that jn l by linarith
    then have "?P (rev [0..<?n] ! (?n - 1 - j))"
      unfolding leading_zeros_def by (metis nth_mem set_takeWhileD takeWhile_nth)
    with j jn rn [of "?n - 1 - j"] show False by simp
  qed
  have "finite {i. bit w i}" by (rule finite_subset [of _ "{..<?n}"]) (auto dest: bit_imp_le_length)
  then show "?n - 1 - leading_zeros w = Max {i. bit w i}"
    using hit above by (intro Max_eqI [symmetric]) (auto simp: not_less [symmetric])
qed

lemma leading_zeros_0: "leading_zeros (0 :: 'a::len word) = LENGTH('a)"
  unfolding leading_zeros_def by (subst takeWhile_eq_all_conv [THEN iffD2]) auto

text \<open>The word whose highest bit \<^verbatim>\<open>flo\<close> looks for.\<close>

definition flo_word :: "OpFlo \<Rightarrow> u32 \<Rightarrow> u32" where
  "flo_word op u = (if flo_signed op \<and> sint u < 0 then NOT u else u)"

text \<open>
  Property C29.  \<^verbatim>\<open>flo\<close> folds to the position of the highest bit that differs from the sign, or to its
  distance from the top when it returns a shift amount; when there is no such bit, the shift amount is 32
  and the position is a panic of the folder (\<^verbatim>\<open>31 - leading\<close> underflows).
\<close>

theorem fold_Flo_spec:
  assumes "get_u32_src f 0 (flo_src op) = Some u" and "fd_dsts f \<noteq> []"
  shows "fold_Flo op f =
    (if flo_word op u = 0 then if flo_return_shift_amount op then set_u32_dst f 0 32 else None
     else set_u32_dst f 0 (if flo_return_shift_amount op then 31 - word_of_nat (Max {i. bit (flo_word op u) i})
       else word_of_nat (Max {i. bit (flo_word op u) i})))"
proof -
  have "u AND 0x80000000 \<noteq> 0 \<longleftrightarrow> bit u 31"
    using test_bit_mask [of u 31] by simp
  also have "\<dots> \<longleftrightarrow> sint u < 0" using bit_last_iff [of u] by simp
  finally have w: "(if flo_signed op \<and> u AND 0x80000000 \<noteq> 0 then leading_zeros (NOT u) else leading_zeros u) = leading_zeros (flo_word op u)"
    by (auto simp: flo_word_def)
  show ?thesis
  proof (cases "flo_word op u = 0")
    case True
    then show ?thesis using assms unfolding fold_Flo_def assms(1) bind.simps Let_def w by (simp add: leading_zeros_0)
  next
    case False
    from leading_zeros_highest [OF this] have l: "leading_zeros (flo_word op u) \<le> 31"
      and m: "31 - leading_zeros (flo_word op u) = Max {i. bit (flo_word op u) i}" by simp_all
    have "word_of_nat (leading_zeros (flo_word op u)) = 31 - (word_of_nat (31 - leading_zeros (flo_word op u)) :: u32)"
      using l by (simp add: of_nat_diff)
    with False l m show ?thesis unfolding fold_Flo_def assms(1) bind.simps Let_def w by simp
  qed
qed

theorem fold_Flo_spec_witness:
  "let op = \<lparr>flo_src = src_of_ref SrZero, flo_signed = False, flo_return_shift_amount = False\<rparr>;
       f = \<lparr>fd_dsts = [FdU32 7], fd_srcs = [FdU32 0]\<rparr> in
   fold_Flo op f = None"
  unfolding Let_def
  by (subst fold_Flo_spec [where u = 0]) (simp_all add: get_u32_src_def src_of_ref_def flo_word_def)

subsection \<open>Field extension\<close>

text \<open>
  \<^verbatim>\<open>sgxt\<close> folds to the low bits of its source, sign-extended or zero-extended, for every
  width, including zero and widths of 32 and more.
\<close>

theorem sgxt_extends:
  "sgxt_val s a bits =
     (if bits = 0 then 0 else if s then signed_take_bit (unat bits - 1) a else take_bit (unat bits) a)"
proof (rule bit_word_eqI)
  fix n assume "n < LENGTH(32)"
  then have n: "n < 32" by simp
  have big: "32 \<le> bits \<longleftrightarrow> 32 \<le> unat bits" by (simp add: word_le_nat_alt)
  have small: "unat (32 - bits) = 32 - unat bits" if "unat bits < 32"
    using that by (simp add: unat_sub word_le_nat_alt)
  have z: "bits = 0 \<longleftrightarrow> unat bits = 0" by (simp add: unat_eq_0)
  show "bit (sgxt_val s a bits) n \<longleftrightarrow>
      bit (if bits = 0 then 0 else if s then signed_take_bit (unat bits - 1) a else take_bit (unat bits) a) n"
    using n unfolding sgxt_val_def big z
    by (cases "unat bits < 32"; cases "n = unat bits - 1")
       (auto simp: small Let_def bit_simps min_def bit_signed_take_bit_iff bit_take_bit_iff dest: bit_imp_le_length)
qed

subsection \<open>Byte permutation\<close>

text \<open>The byte selected by a nibble from the eight bytes of the two sources.\<close>

definition prmt_byte :: "u32 \<Rightarrow> u32 \<Rightarrow> u32 \<Rightarrow> nat \<Rightarrow> u8" where
  "prmt_byte u0 u1 sel b =
     (let nib = drop_bit (4 * b) sel;
          byte = ucast (drop_bit (8 * unat (take_bit 3 nib)) (push_bit 32 (ucast u1) OR ucast u0 :: u64)) in
      if bit nib 3 then if bit byte 7 then 0xff else 0 else byte)"

lemma byte_of_pair:
  fixes u0 u1 :: u32
  assumes "k < 4" "j < 2"
  shows "(ucast (drop_bit (8 * (k + 4 * j)) (push_bit 32 (ucast u1) OR ucast u0 :: u64)) :: u8) =
    ucast (drop_bit (k * 8) (if j = 0 then u0 else u1))"
proof (rule bit_word_eqI)
  fix n assume "n < LENGTH(8)"
  then have n: "n < 8" by simp
  have "bit u0 i \<Longrightarrow> i < 32" "bit u1 i \<Longrightarrow> i < 32" for i using bit_imp_le_length by force+
  then show "bit (ucast (drop_bit (8 * (k + 4 * j)) (push_bit 32 (ucast u1) OR ucast u0 :: u64)) :: u8) n \<longleftrightarrow>
      bit (ucast (drop_bit (k * 8) (if j = 0 then u0 else u1)) :: u8) n"
    using n assms by (cases "j = 0") (auto simp: less_2_cases_iff bit_simps algebra_simps dest: bit_imp_le_length)
qed

lemma sign_fill: "signed_drop_bit 7 (w :: u8) = (if bit w 7 then 0xff else 0)"
proof (rule bit_word_eqI)
  fix n assume "n < LENGTH(8)"
  then have n: "n < 8" by simp
  have "bit (0xff :: u8) n" using n bit_mask_iff [where ?'a = u8, of 8 n] by (simp add: mask_eq_exp_minus_1)
  then show "bit (signed_drop_bit 7 w) n \<longleftrightarrow> bit (if bit w 7 then 0xff else 0 :: u8) n"
    using n by (cases "n = 0") (auto simp: bit_signed_drop_bit_iff)
qed

lemma psb_index:
  "psb_byte s + 4 * psb_src s = unat (take_bit 3 (psb s))" "psb_byte s < 4" "psb_src s < 2"
proof -
  have e: "psb s AND 3 = take_bit 2 (psb s)" using take_bit_eq_mask [of 2 "psb s"] by (simp add: mask_eq_exp_minus_1)
  have "psb_byte s = take_bit 2 (unat (psb s))" unfolding psb_byte_def e by (rule unsigned_take_bit_eq)
  then have b: "psb_byte s = unat (psb s) mod 4" by (simp add: take_bit_eq_mod)
  have e2: "drop_bit 2 (psb s) AND 1 = take_bit 1 (drop_bit 2 (psb s))"
    using take_bit_eq_mask [of 1 "drop_bit 2 (psb s)"] by simp
  have "psb_src s = take_bit 1 (drop_bit 2 (unat (psb s)))"
    unfolding psb_src_def e2 unsigned_take_bit_eq unsigned_drop_bit_eq unsigned_take_bit_eq [symmetric] take_bit_length_eq ..
  then have c: "psb_src s = unat (psb s) div 4 mod 2" by (simp add: take_bit_eq_mod drop_bit_eq_div)
  have "unat (take_bit 3 (psb s)) = unat (psb s) mod (4 * 2)" unfolding unsigned_take_bit_eq by (simp add: take_bit_eq_mod)
  then show "psb_byte s + 4 * psb_src s = unat (take_bit 3 (psb s))" unfolding b c by (simp only: mod_mult2_eq)
  show "psb_byte s < 4" "psb_src s < 2" unfolding b c by simp_all
qed

lemma psb_fold_byte:
  assumes "psb s = ucast (drop_bit (b * 4) (ucast sel :: u16) AND 0xf)" "b < 4"
  shows "psb_fold_u32 s (if psb_src s = 0 then u0 else u1) = prmt_byte u0 u1 sel b"
proof -
  have bits: "bit (psb s) i \<longleftrightarrow> i < 4 \<and> bit sel (b * 4 + i)" for i
  proof -
    have "bit (0xf :: u16) i \<longleftrightarrow> i < 4" using bit_mask_iff [where ?'a = u16, of 4 i] by (auto simp: mask_eq_exp_minus_1)
    then show ?thesis using assms by (auto simp: bit_simps)
  qed
  have t: "unat (take_bit 3 (drop_bit (4 * b) sel)) = unat (take_bit 3 (psb s))"
  proof -
    have "take_bit 3 (drop_bit (4 * b) sel) = ucast (take_bit 3 (psb s))"
      by (rule bit_word_eqI) (auto simp: bit_simps bits algebra_simps)
    moreover have "unat (take_bit 3 (psb s)) < 2 ^ 8" by (rule order.strict_trans2 [OF unsigned_less]) simp
    ultimately show ?thesis by (simp add: unsigned_ucast_eq take_bit_nat_eq_self_iff)
  qed
  have m: "psb_msb s \<longleftrightarrow> bit (drop_bit (4 * b) sel) 3"
    using test_bit_mask [of "psb s" 3] bits [of 3] by (simp add: psb_msb_def bit_simps algebra_simps)
  show ?thesis
    unfolding psb_fold_u32_def prmt_byte_def Let_def t m psb_index(1) [symmetric] byte_of_pair [OF psb_index(2,3)] sign_fill ..
qed


lemma prmt_bytes_eq:
  "prmt_bytes \<lparr>psel = ucast sel\<rparr> (\<lambda>i. if i = 0 then u0 else u1) =
     Some (ucast (prmt_byte u0 u1 sel 0) OR push_bit 8 (ucast (prmt_byte u0 u1 sel 1)) OR
       push_bit 16 (ucast (prmt_byte u0 u1 sel 2)) OR push_bit 24 (ucast (prmt_byte u0 u1 sel 3)))"
proof -
  have step: "do { sel_byte \<leftarrow> psel_get \<lparr>psel = ucast sel\<rparr> b;
         let sb = psb_fold_u32 sel_byte (if psb_src sel_byte = 0 then u0 else u1);
         Some (dst OR push_bit (b * 8) (ucast sb)) } = Some (dst OR push_bit (b * 8) (ucast (prmt_byte u0 u1 sel b)))"
    if "b < 4" for b and dst :: u32
    using that psb_fold_byte [of "\<lparr>psb = ucast (drop_bit (b * 4) (ucast sel :: u16) AND 0xf)\<rparr>" b sel u0 u1]
    by (simp add: psel_get_def)
  have "[0..<4] = [0, 1, 2, 3 :: nat]" by (simp add: upt_rec)
  then have "foldM (\<lambda>b dst. Some (dst OR push_bit (b * 8) (ucast (prmt_byte u0 u1 sel b)))) [0..<4] (0 :: u32) =
      Some (ucast (prmt_byte u0 u1 sel 0) OR push_bit 8 (ucast (prmt_byte u0 u1 sel 1)) OR
       push_bit 16 (ucast (prmt_byte u0 u1 sel 2)) OR push_bit 24 (ucast (prmt_byte u0 u1 sel 3)))"
    by (simp add: or.assoc)
  moreover have "prmt_bytes \<lparr>psel = ucast sel\<rparr> (\<lambda>i. if i = 0 then u0 else u1) =
      foldM (\<lambda>b dst. Some (dst OR push_bit (b * 8) (ucast (prmt_byte u0 u1 sel b)))) [0..<4] 0"
    unfolding prmt_bytes_def by (rule foldM_cong [OF refl refl], rule step) simp
  ultimately show ?thesis by simp
qed

lemma byte_of_bytes:
  fixes B :: "nat \<Rightarrow> u8"
  assumes "b < 4"
  shows "ucast (drop_bit (8 * b) (ucast (B 0) OR push_bit 8 (ucast (B (Suc 0))) OR push_bit 16 (ucast (B 2)) OR push_bit 24 (ucast (B 3)) :: u32)) = B b"
proof (rule bit_word_eqI)
  fix n assume "n < LENGTH(8)"
  then have n: "n < 8" by simp
  have "bit (B i) k \<Longrightarrow> k < 8" for i k using bit_imp_le_length by force
  moreover have "b = 0 \<or> b = 1 \<or> b = 2 \<or> b = 3" using assms by linarith
  ultimately show "bit (ucast (drop_bit (8 * b) (ucast (B 0) OR push_bit 8 (ucast (B (Suc 0))) OR push_bit 16 (ucast (B 2)) OR push_bit 24 (ucast (B 3)) :: u32)) :: u8) n \<longleftrightarrow> bit (B b) n"
    using n by (auto simp: bit_simps dest: bit_imp_le_length)
qed

text \<open>
  Property C27.  In index mode \<^verbatim>\<open>prmt\<close> folds to the word whose four bytes are picked, by the four low nibbles
  of the selector, from the eight bytes of the two sources, with the sign of the byte replicated when
  the top bit of the nibble is set.
\<close>

theorem fold_Prmt_bytes:
  assumes "prmt_mode op = Index" "prmt_srcs op = (s0, s1, ss)" "fd_dsts f \<noteq> []" "b < 4"
    and "get_u32_src f 0 s0 = Some u0" "get_u32_src f 1 s1 = Some u1" "get_u32_src f 2 ss = Some sel"
  shows "\<exists>dst. fold_Prmt op f = set_u32_dst f 0 dst \<and> ucast (drop_bit (8 * b) dst) = prmt_byte u0 u1 sel b"
  using byte_of_bytes [OF assms(4), of "prmt_byte u0 u1 sel"]
  by (intro exI conjI, use assms in \<open>simp add: fold_Prmt_def prmt_bytes_eq\<close>) simp

theorem fold_Prmt_bytes_witness:
  "let src = (\<lambda>u. src_of_ref (Imm32 u)); op = \<lparr>prmt_srcs = (src 0x33221100, src 0x77e65544, src 0x3fe7), prmt_mode = Index\<rparr>;
       f = \<lparr>fd_dsts = [FdU32 0], fd_srcs = []\<rparr> in
   \<exists>dst. fold_Prmt op f = set_u32_dst f 0 dst \<and> ucast (drop_bit (8 * 1) dst) = prmt_byte 0x33221100 0x77e65544 0x3fe7 1"
  unfolding Let_def
  by (rule fold_Prmt_bytes, simp_all) (simp_all add: get_u32_src_def src_of_ref_def)

end
