(* ===== verification/OptDce.thy ===== *)
theory OptDce
  imports Ir BitSet
begin

text \<open>
  Dead code elimination, \<^verbatim>\<open>codegen/opt_dce.rs\<close>: the marking pass that grows a set of live values and a
  set of live phis until nothing new is found, and the removal of what is dead.  The live sets are shown
  to be the least ones that hold what the kept instructions use, and the result to run like the original
  for every semantics of the operations that reads operands through their values.
\<close>

subsection \<open>The pass\<close>

record DeadCodePass =
  any_dead :: bool
  new_live :: bool
  live_ssa :: BitSet
  live_phi :: BitSet

definition dc_new :: DeadCodePass where
  "dc_new = \<lparr>any_dead = False, new_live = False, live_ssa = bs_new 0, live_phi = bs_new 0\<rparr>"

definition mark_ssa_live :: "SSAValue \<Rightarrow> DeadCodePass \<Rightarrow> DeadCodePass" where
  "mark_ssa_live v p =
     (let (new, s) = bs_insert (ssa_bit_index v) (live_ssa p) in
      p\<lparr>live_ssa := s, new_live := new_live p \<or> new\<rparr>)"

definition mark_src_live :: "Src \<Rightarrow> DeadCodePass \<Rightarrow> DeadCodePass" where
  "mark_src_live src p = fold mark_ssa_live (src_iter_ssa src) p"

definition mark_phi_live :: "Phi \<Rightarrow> DeadCodePass \<Rightarrow> DeadCodePass" where
  "mark_phi_live phi p =
     (let (new, s) = bs_insert (phi_bit_index phi) (live_phi p) in
      p\<lparr>live_phi := s, new_live := new_live p \<or> new\<rparr>)"

definition mark_dead :: "DeadCodePass \<Rightarrow> DeadCodePass" where "mark_dead p = p\<lparr>any_dead := True\<rparr>"

fun is_dst_live :: "DeadCodePass \<Rightarrow> Dst \<Rightarrow> bool option" where
  "is_dst_live p (DstSSA ssa) = Some (list_ex (\<lambda>v. bs_contains (live_ssa p) (ssa_bit_index v)) (SSARef_deref ssa))"
| "is_dst_live p DstNone = Some False"
| "is_dst_live p (DstReg _) = None"

definition is_phi_live :: "DeadCodePass \<Rightarrow> Phi \<Rightarrow> bool" where
  "is_phi_live p phi = bs_contains (live_phi p) (phi_bit_index phi)"

fun any_dst_live :: "DeadCodePass \<Rightarrow> Dst list \<Rightarrow> bool option" where
  "any_dst_live p [] = Some False"
| "any_dst_live p (d # ds) = do { b \<leftarrow> is_dst_live p d; if b then Some True else any_dst_live p ds }"

definition is_instr_live :: "DeadCodePass \<Rightarrow> Instr \<Rightarrow> bool option" where
  "is_instr_live p i =
     (if pred_is_false (in_pred i) then Some False
      else if \<not> can_eliminate (in_op i) then Some True
      else any_dst_live p (op_dsts (in_op i)))"

definition mark_instr :: "Instr \<Rightarrow> DeadCodePass \<Rightarrow> DeadCodePass option" where
  "mark_instr i p =
     (case in_op i of
        PhiSrcs ps \<Rightarrow>
          assert_then (pred_is_true (in_pred i))
            (foldM (\<lambda>(phi, src) p. Some (if is_phi_live p phi then mark_src_live src p else mark_dead p)) ps p)
      | PhiDsts ps \<Rightarrow>
          assert_then (pred_is_true (in_pred i))
            (foldM (\<lambda>(phi, dst) p. do {
                 b \<leftarrow> is_dst_live p dst;
                 Some (if b then mark_phi_live phi p else mark_dead p)
               }) ps p)
      | ParCopyOp pc \<Rightarrow>
          assert_then (pred_is_true (in_pred i))
            (foldM (\<lambda>(dst, src) p. do {
                 b \<leftarrow> is_dst_live p dst;
                 Some (if b then mark_src_live src p else mark_dead p)
               }) (pc_dsts_srcs pc) p)
      | _ \<Rightarrow> do {
          b \<leftarrow> is_instr_live p i;
          Some (if b
                then fold mark_src_live (op_srcs (in_op i))
                       (case predicate (in_pred i) of PrSSA v \<Rightarrow> mark_ssa_live v p | _ \<Rightarrow> p)
                else mark_dead p)
        })"

text \<open>A \<^verbatim>\<open>retain\<close> whose test can panic.\<close>

fun retainM :: "('a \<Rightarrow> bool option) \<Rightarrow> 'a list \<Rightarrow> 'a list option" where
  "retainM f [] = Some []"
| "retainM f (x # xs) = do { b \<leftarrow> f x; ys \<leftarrow> retainM f xs; Some (if b then x # ys else ys) }"

text \<open>The flag is \<^verbatim>\<open>DEBUG.annotate()\<close>.\<close>

definition killed :: "bool \<Rightarrow> Instr list" where
  "killed annotate = (if annotate then [instr_new (OtherOp (Virtual Annotate) [] [])] else [])"

definition dce_map_instr :: "bool \<Rightarrow> DeadCodePass \<Rightarrow> Instr \<Rightarrow> Instr list option" where
  "dce_map_instr annotate p i =
     do {
       (is_live, op) \<leftarrow> (case in_op i of
           PhiSrcs ps \<Rightarrow> (let ps = filter (\<lambda>(phi, _). is_phi_live p phi) ps in Some (ps \<noteq> [], PhiSrcs ps))
         | PhiDsts ps \<Rightarrow> do { ps \<leftarrow> retainM (\<lambda>(_, dst). is_dst_live p dst) ps; Some (ps \<noteq> [], PhiDsts ps) }
         | ParCopyOp pc \<Rightarrow> do {
             ps \<leftarrow> retainM (\<lambda>(dst, _). is_dst_live p dst) (pc_dsts_srcs pc);
             Some (ps \<noteq> [], ParCopyOp (pc\<lparr>pc_dsts_srcs := ps\<rparr>)) }
         | op \<Rightarrow> map_option (\<lambda>b. (b, op)) (is_instr_live p i));
       Some (if is_live then [i\<lparr>in_op := op\<rparr>] else killed annotate)
     }"

text \<open>One round of marking: all instructions from the last to the first.\<close>

definition dce_round :: "Function \<Rightarrow> DeadCodePass \<Rightarrow> DeadCodePass option" where
  "dce_round f p =
     foldM mark_instr (rev (concat (map bb_instrs (cfg_blocks (fn_blocks f))))) (p\<lparr>new_live := False, any_dead := False\<rparr>)"

partial_function (option) dce_loop :: "Function \<Rightarrow> DeadCodePass \<Rightarrow> DeadCodePass option" where
  "dce_loop f p =
     (case dce_round f p of None \<Rightarrow> None | Some p' \<Rightarrow> if new_live p' then dce_loop f p' else Some p')"

text \<open>\<^verbatim>\<open>Function::map_instrs\<close> with a closure that can panic.\<close>

definition fn_map_instrsM :: "(Instr \<Rightarrow> Instr list option) \<Rightarrow> Function \<Rightarrow> Function option" where
  "fn_map_instrsM m f =
     map_option (\<lambda>bs. f\<lparr>fn_blocks := (fn_blocks f)\<lparr>cfg_blocks := bs\<rparr>\<rparr>)
       (mapM (\<lambda>b. map_option (\<lambda>iss. b\<lparr>bb_instrs := concat iss\<rparr>) (mapM m (bb_instrs b))) (cfg_blocks (fn_blocks f)))"

definition opt_dce :: "bool \<Rightarrow> Function \<Rightarrow> Function option" where
  "opt_dce annotate f =
     do {
       p \<leftarrow> dce_loop f dc_new;
       if any_dead p then fn_map_instrsM (dce_map_instr annotate p) f else Some f
     }"

subsection \<open>What marking does\<close>

abbreviation live_values :: "DeadCodePass \<Rightarrow> nat set" where "live_values p \<equiv> bs_elems (live_ssa p)"
abbreviation live_phis :: "DeadCodePass \<Rightarrow> nat set" where "live_phis p \<equiv> bs_elems (live_phi p)"

definition src_keys :: "Src \<Rightarrow> nat set" where "src_keys s = ssa_bit_index ` set (src_iter_ssa s)"
definition dst_keys :: "Dst \<Rightarrow> nat set" where "dst_keys d = ssa_bit_index ` set (dst_iter_ssa d)"
definition use_keys :: "Instr \<Rightarrow> nat set" where "use_keys i = ssa_bit_index ` set (ssa_uses i)"

text \<open>No physical registers yet, and the phi and parallel-copy operations are not predicated.\<close>

definition dst_ok :: "Dst \<Rightarrow> bool" where "dst_ok d = (case d of DstReg _ \<Rightarrow> False | _ \<Rightarrow> True)"

fun pairs_op :: "Op \<Rightarrow> bool" where
  "pairs_op (PhiSrcs _) = True" | "pairs_op (PhiDsts _) = True" | "pairs_op (ParCopyOp _) = True" | "pairs_op _ = False"

definition instr_ok :: "Instr \<Rightarrow> bool" where
  "instr_ok i \<longleftrightarrow> list_all dst_ok (op_dsts (in_op i)) \<and> (pairs_op (in_op i) \<longrightarrow> pred_is_true (in_pred i))"

definition dce_ok :: "Function \<Rightarrow> bool" where "dce_ok f = list_all instr_ok (fn_instrs f)"

definition instr_live :: "nat set \<Rightarrow> Instr \<Rightarrow> bool" where
  "instr_live C i \<longleftrightarrow> \<not> pred_is_false (in_pred i) \<and>
     (\<not> can_eliminate (in_op i) \<or> (\<exists>d\<in>set (op_dsts (in_op i)). dst_keys d \<inter> C \<noteq> {}))"

text \<open>Sets of values and phis that hold what the instruction needs, if the instruction is needed.\<close>

definition closed_instr :: "Instr \<Rightarrow> nat set \<Rightarrow> nat set \<Rightarrow> bool" where
  "closed_instr i C D =
     (case in_op i of
        PhiSrcs ps \<Rightarrow> \<forall>(phi, src)\<in>set ps. phi_bit_index phi \<in> D \<longrightarrow> src_keys src \<subseteq> C
      | PhiDsts ps \<Rightarrow> \<forall>(phi, dst)\<in>set ps. dst_keys dst \<inter> C \<noteq> {} \<longrightarrow> phi_bit_index phi \<in> D
      | ParCopyOp pc \<Rightarrow> \<forall>(dst, src)\<in>set (pc_dsts_srcs pc). dst_keys dst \<inter> C \<noteq> {} \<longrightarrow> src_keys src \<subseteq> C
      | _ \<Rightarrow> instr_live C i \<longrightarrow> use_keys i \<subseteq> C)"

text \<open>
  A marking transition: the sets only grow, the flag records whether they did, nothing is added that a
  set closed under \<open>K\<close> would not hold, and if nothing was added the sets are closed under \<open>K\<close>.
\<close>

definition marks :: "(nat set \<Rightarrow> nat set \<Rightarrow> bool) \<Rightarrow> DeadCodePass \<Rightarrow> DeadCodePass \<Rightarrow> bool" where
  "marks K p p' \<longleftrightarrow> live_values p \<subseteq> live_values p' \<and> live_phis p \<subseteq> live_phis p' \<and>
     (new_live p' \<longleftrightarrow> new_live p \<or> live_values p' \<noteq> live_values p \<or> live_phis p' \<noteq> live_phis p) \<and>
     (\<forall>C D. K C D \<longrightarrow> live_values p \<subseteq> C \<longrightarrow> live_phis p \<subseteq> D \<longrightarrow> live_values p' \<subseteq> C \<and> live_phis p' \<subseteq> D) \<and>
     (live_values p' = live_values p \<longrightarrow> live_phis p' = live_phis p \<longrightarrow> K (live_values p) (live_phis p))"

lemma marksD:
  assumes "marks K p p'"
  shows "live_values p \<subseteq> live_values p'" "live_phis p \<subseteq> live_phis p'"
    "new_live p' \<longleftrightarrow> new_live p \<or> live_values p' \<noteq> live_values p \<or> live_phis p' \<noteq> live_phis p"
    "K C D \<Longrightarrow> live_values p \<subseteq> C \<Longrightarrow> live_phis p \<subseteq> D \<Longrightarrow> live_values p' \<subseteq> C \<and> live_phis p' \<subseteq> D"
    "live_values p' = live_values p \<Longrightarrow> live_phis p' = live_phis p \<Longrightarrow> K (live_values p) (live_phis p)"
  using assms unfolding marks_def by simp_all

lemma marks_trans:
  assumes m: "marks K p p1" and n: "marks L p1 p2"
  shows "marks (\<lambda>C D. K C D \<and> L C D) p p2"
proof -
  note m = marksD [OF m] and n = marksD [OF n]
  have v: "live_values p2 = live_values p \<longleftrightarrow> live_values p1 = live_values p \<and> live_values p2 = live_values p1"
    using m(1) n(1) by auto
  have f: "live_phis p2 = live_phis p \<longleftrightarrow> live_phis p1 = live_phis p \<and> live_phis p2 = live_phis p1"
    using m(2) n(2) by auto
  show ?thesis unfolding marks_def
  proof (intro conjI allI impI)
    show "live_values p \<subseteq> live_values p2" using m(1) n(1) by (rule order_trans)
    show "live_phis p \<subseteq> live_phis p2" using m(2) n(2) by (rule order_trans)
    show "new_live p2 \<longleftrightarrow> new_live p \<or> live_values p2 \<noteq> live_values p \<or> live_phis p2 \<noteq> live_phis p"
      using m(3) n(3) v f by argo
  next
    fix C D assume a: "K C D \<and> L C D" "live_values p \<subseteq> C" "live_phis p \<subseteq> D"
    then have "live_values p1 \<subseteq> C \<and> live_phis p1 \<subseteq> D" by (intro m(4)) simp_all
    then have "live_values p2 \<subseteq> C \<and> live_phis p2 \<subseteq> D" using a by (intro n(4)) simp_all
    then show "live_values p2 \<subseteq> C" "live_phis p2 \<subseteq> D" by simp_all
  next
    assume "live_values p2 = live_values p" "live_phis p2 = live_phis p"
    then have "live_values p1 = live_values p" "live_phis p1 = live_phis p" "live_values p2 = live_values p1" "live_phis p2 = live_phis p1"
      using v f by auto
    then show "K (live_values p) (live_phis p)" "L (live_values p) (live_phis p)" using m(5) n(5) by simp_all
  qed
qed

lemma marks_foldM:
  assumes "\<And>x p. x \<in> set xs \<Longrightarrow> \<exists>p'. g x p = Some p' \<and> marks (K x) p p'"
  shows "\<exists>p'. foldM g xs p = Some p' \<and> marks (\<lambda>C D. \<forall>x\<in>set xs. K x C D) p p'"
  using assms
proof (induction xs arbitrary: p)
  case Nil
  show ?case by (simp add: marks_def)
next
  case (Cons x xs)
  obtain p1 where p1: "g x p = Some p1" "marks (K x) p p1" using Cons.prems [of x p] by auto
  obtain p2 where p2: "foldM g xs p1 = Some p2" "marks (\<lambda>C D. \<forall>x\<in>set xs. K x C D) p1 p2"
    using Cons.IH [of p1] Cons.prems by auto
  from marks_trans [OF p1(2) p2(2)] p1(1) p2(1) show ?case by auto
qed

lemma mark_ssa_live_simps [simp]:
  "live_values (mark_ssa_live v p) = insert (ssa_bit_index v) (live_values p)"
  "live_phi (mark_ssa_live v p) = live_phi p" "any_dead (mark_ssa_live v p) = any_dead p"
  "new_live (mark_ssa_live v p) \<longleftrightarrow> new_live p \<or> ssa_bit_index v \<notin> live_values p"
  by (simp_all add: mark_ssa_live_def case_prod_beta Let_def)

lemma mark_values_simps [simp]:
  "live_values (fold mark_ssa_live vs p) = live_values p \<union> ssa_bit_index ` set vs"
  "live_phi (fold mark_ssa_live vs p) = live_phi p" "any_dead (fold mark_ssa_live vs p) = any_dead p"
  "new_live (fold mark_ssa_live vs p) \<longleftrightarrow> new_live p \<or> \<not> ssa_bit_index ` set vs \<subseteq> live_values p"
  by (induction vs arbitrary: p) auto

lemma mark_src_live_simps [simp]:
  "live_values (mark_src_live s p) = live_values p \<union> src_keys s"
  "live_phi (mark_src_live s p) = live_phi p" "any_dead (mark_src_live s p) = any_dead p"
  "new_live (mark_src_live s p) \<longleftrightarrow> new_live p \<or> \<not> src_keys s \<subseteq> live_values p"
  by (simp_all add: mark_src_live_def src_keys_def)

lemma mark_srcs_simps [simp]:
  "live_values (fold mark_src_live ss p) = live_values p \<union> \<Union> (src_keys ` set ss)"
  "live_phi (fold mark_src_live ss p) = live_phi p" "any_dead (fold mark_src_live ss p) = any_dead p"
  "new_live (fold mark_src_live ss p) \<longleftrightarrow> new_live p \<or> \<not> \<Union> (src_keys ` set ss) \<subseteq> live_values p"
  by (induction ss arbitrary: p) auto

lemma mark_phi_live_simps [simp]:
  "live_phis (mark_phi_live v p) = insert (phi_bit_index v) (live_phis p)"
  "live_ssa (mark_phi_live v p) = live_ssa p" "any_dead (mark_phi_live v p) = any_dead p"
  "new_live (mark_phi_live v p) \<longleftrightarrow> new_live p \<or> phi_bit_index v \<notin> live_phis p"
  by (simp_all add: mark_phi_live_def case_prod_beta Let_def)

lemma mark_dead_simps [simp]:
  "live_ssa (mark_dead p) = live_ssa p" "live_phi (mark_dead p) = live_phi p"
  "new_live (mark_dead p) = new_live p" "any_dead (mark_dead p)"
  by (simp_all add: mark_dead_def)

lemma is_dst_live_ok: "dst_ok d \<Longrightarrow> is_dst_live p d = Some (dst_keys d \<inter> live_values p \<noteq> {})"
  by (cases d) (auto simp: dst_ok_def dst_keys_def bs_contains_iff list_ex_iff)

lemma any_dst_live_ok:
  "list_all dst_ok ds \<Longrightarrow> any_dst_live p ds = Some (\<exists>d\<in>set ds. dst_keys d \<inter> live_values p \<noteq> {})"
  by (induction ds) (auto simp: is_dst_live_ok)

lemma is_instr_live_ok: "instr_ok i \<Longrightarrow> is_instr_live p i = Some (instr_live (live_values p) i)"
  by (simp add: is_instr_live_def instr_live_def instr_ok_def any_dst_live_ok)

lemma is_phi_live_iff: "is_phi_live p phi \<longleftrightarrow> phi_bit_index phi \<in> live_phis p"
  by (simp add: is_phi_live_def bs_contains_iff)

lemma use_keys_op:
  "use_keys i = (case predicate (in_pred i) of PrSSA v \<Rightarrow> {ssa_bit_index v} | _ \<Rightarrow> {}) \<union> \<Union> (src_keys ` set (op_srcs (in_op i)))"
  by (auto simp: use_keys_def ssa_uses_def src_keys_def split: PredRef.splits)

lemma instr_live_mono: "instr_live C i \<Longrightarrow> C \<subseteq> C' \<Longrightarrow> instr_live C' i"
  by (auto simp: instr_live_def)

lemma mark_dead_marks: "\<not> Q (live_values p) (live_phis p) \<Longrightarrow> marks (\<lambda>C D. Q C D \<longrightarrow> R C D) p (mark_dead p)"
  by (simp add: marks_def)

lemma mark_src_marks:
  "(\<And>C D. live_values p \<subseteq> C \<Longrightarrow> live_phis p \<subseteq> D \<Longrightarrow> Q C D) \<Longrightarrow>
    marks (\<lambda>C D. Q C D \<longrightarrow> src_keys s \<subseteq> C) p (mark_src_live s p)"
  by (auto simp: marks_def)

lemma mark_phi_marks:
  "(\<And>C D. live_values p \<subseteq> C \<Longrightarrow> live_phis p \<subseteq> D \<Longrightarrow> Q C D) \<Longrightarrow>
    marks (\<lambda>C D. Q C D \<longrightarrow> phi_bit_index f \<in> D) p (mark_phi_live f p)"
  by (auto simp: marks_def)

lemma mark_uses_marks:
  assumes "\<And>C D. live_values p \<subseteq> C \<Longrightarrow> instr_live C i"
  shows "marks (\<lambda>C D. instr_live C i \<longrightarrow> use_keys i \<subseteq> C) p
    (fold mark_src_live (op_srcs (in_op i)) (case predicate (in_pred i) of PrSSA v \<Rightarrow> mark_ssa_live v p | _ \<Rightarrow> p))"
  using assms by (auto simp: marks_def use_keys_op split: PredRef.splits)

lemma mark_instr_marks:
  assumes "instr_ok i"
  shows "\<exists>p'. mark_instr i p = Some p' \<and> marks (closed_instr i) p p'"
proof (cases "pairs_op (in_op i)")
  case False
  have l: "is_instr_live p i = Some (instr_live (live_values p) i)" using assms by (rule is_instr_live_ok)
  have c: "closed_instr i = (\<lambda>C D. instr_live C i \<longrightarrow> use_keys i \<subseteq> C)"
    using False by (cases "in_op i") (simp_all add: closed_instr_def fun_eq_iff)
  let ?u = "fold mark_src_live (op_srcs (in_op i)) (case predicate (in_pred i) of PrSSA v \<Rightarrow> mark_ssa_live v p | _ \<Rightarrow> p)"
  have m: "mark_instr i p = Some (if instr_live (live_values p) i then ?u else mark_dead p)"
    using False l by (cases "in_op i") (simp_all add: mark_instr_def)
  show ?thesis
  proof (cases "instr_live (live_values p) i")
    case True
    then have "\<And>C D. live_values p \<subseteq> C \<Longrightarrow> instr_live C i" by (rule instr_live_mono)
    from mark_uses_marks [OF this] True m c show ?thesis by simp
  next
    case False
    then show ?thesis using m c mark_dead_marks [of "\<lambda>C D. instr_live C i" p] by simp
  qed
next
  case True
  then have pt: "pred_is_true (in_pred i)" using assms by (simp add: instr_ok_def)
  have dl: "is_dst_live p d = Some (dst_keys d \<inter> live_values p \<noteq> {})" if "d \<in> set (op_dsts (in_op i))" for d p
    using assms that by (auto simp: instr_ok_def list_all_iff intro!: is_dst_live_ok)
  have dsrc: "\<exists>p'. do { b \<leftarrow> is_dst_live p d; Some (if b then mark_src_live s p else mark_dead p) } = Some p' \<and>
      marks (\<lambda>C D. dst_keys d \<inter> C \<noteq> {} \<longrightarrow> src_keys s \<subseteq> C) p p'" if "d \<in> set (op_dsts (in_op i))" for d s p
    using dl [OF that, of p] mark_src_marks [of p "\<lambda>C D. dst_keys d \<inter> C \<noteq> {}" s]
      mark_dead_marks [of "\<lambda>C D. dst_keys d \<inter> C \<noteq> {}" p] by auto
  have dphi: "\<exists>p'. do { b \<leftarrow> is_dst_live p d; Some (if b then mark_phi_live f p else mark_dead p) } = Some p' \<and>
      marks (\<lambda>C D. dst_keys d \<inter> C \<noteq> {} \<longrightarrow> phi_bit_index f \<in> D) p p'" if "d \<in> set (op_dsts (in_op i))" for d f p
    using dl [OF that, of p] mark_phi_marks [of p "\<lambda>C D. dst_keys d \<inter> C \<noteq> {}" f]
      mark_dead_marks [of "\<lambda>C D. dst_keys d \<inter> C \<noteq> {}" p] by auto
  have psrc: "marks (\<lambda>C D. phi_bit_index f \<in> D \<longrightarrow> src_keys s \<subseteq> C) p
      (if is_phi_live p f then mark_src_live s p else mark_dead p)" for f s p
    using mark_src_marks [of p "\<lambda>C D. phi_bit_index f \<in> D" s] mark_dead_marks [of "\<lambda>C D. phi_bit_index f \<in> D" p]
    by (auto simp: is_phi_live_iff)
  show ?thesis
  proof (cases "in_op i")
    case (PhiSrcs ps)
    have "\<exists>p'. foldM (\<lambda>(f, s) p. Some (if is_phi_live p f then mark_src_live s p else mark_dead p)) ps p = Some p' \<and>
        marks (\<lambda>C D. \<forall>x\<in>set ps. case x of (f, s) \<Rightarrow> phi_bit_index f \<in> D \<longrightarrow> src_keys s \<subseteq> C) p p'"
      by (rule marks_foldM) (auto simp: psrc)
    moreover have "closed_instr i = (\<lambda>C D. \<forall>x\<in>set ps. case x of (f, s) \<Rightarrow> phi_bit_index f \<in> D \<longrightarrow> src_keys s \<subseteq> C)"
      by (simp add: PhiSrcs closed_instr_def fun_eq_iff)
    moreover have "mark_instr i p = foldM (\<lambda>(f, s) p. Some (if is_phi_live p f then mark_src_live s p else mark_dead p)) ps p"
      using pt by (simp add: PhiSrcs mark_instr_def)
    ultimately show ?thesis by (simp only:)
  next
    case (PhiDsts ps)
    have "\<exists>p'. foldM (\<lambda>(f, d) p. do { b \<leftarrow> is_dst_live p d; Some (if b then mark_phi_live f p else mark_dead p) }) ps p = Some p' \<and>
        marks (\<lambda>C D. \<forall>x\<in>set ps. case x of (f, d) \<Rightarrow> dst_keys d \<inter> C \<noteq> {} \<longrightarrow> phi_bit_index f \<in> D) p p'"
    proof (rule marks_foldM)
      fix x p assume x: "x \<in> set ps"
      obtain f d where fd: "x = (f, d)" by (cases x)
      have "d \<in> set (op_dsts (in_op i))" using x PhiDsts fd by force
      from dphi [OF this, of p f] show "\<exists>p'. (case x of (f, d) \<Rightarrow> \<lambda>p. do { b \<leftarrow> is_dst_live p d; Some (if b then mark_phi_live f p else mark_dead p) }) p = Some p' \<and>
        marks (\<lambda>C D. case x of (f, d) \<Rightarrow> dst_keys d \<inter> C \<noteq> {} \<longrightarrow> phi_bit_index f \<in> D) p p'"
        unfolding fd prod.case .
    qed
    moreover have "closed_instr i = (\<lambda>C D. \<forall>x\<in>set ps. case x of (f, d) \<Rightarrow> dst_keys d \<inter> C \<noteq> {} \<longrightarrow> phi_bit_index f \<in> D)"
      by (simp add: PhiDsts closed_instr_def fun_eq_iff)
    moreover have "mark_instr i p = foldM (\<lambda>(f, d) p. do { b \<leftarrow> is_dst_live p d; Some (if b then mark_phi_live f p else mark_dead p) }) ps p"
      using pt by (simp add: PhiDsts mark_instr_def)
    ultimately show ?thesis by (simp only:)
  next
    case (ParCopyOp pc)
    let ?ps = "pc_dsts_srcs pc"
    have "\<exists>p'. foldM (\<lambda>(d, s) p. do { b \<leftarrow> is_dst_live p d; Some (if b then mark_src_live s p else mark_dead p) }) ?ps p = Some p' \<and>
        marks (\<lambda>C D. \<forall>x\<in>set ?ps. case x of (d, s) \<Rightarrow> dst_keys d \<inter> C \<noteq> {} \<longrightarrow> src_keys s \<subseteq> C) p p'"
    proof (rule marks_foldM)
      fix x p assume x: "x \<in> set ?ps"
      obtain d s where ds: "x = (d, s)" by (cases x)
      have "d \<in> set (op_dsts (in_op i))" using x ParCopyOp ds by force
      from dsrc [OF this, of p s] show "\<exists>p'. (case x of (d, s) \<Rightarrow> \<lambda>p. do { b \<leftarrow> is_dst_live p d; Some (if b then mark_src_live s p else mark_dead p) }) p = Some p' \<and>
        marks (\<lambda>C D. case x of (d, s) \<Rightarrow> dst_keys d \<inter> C \<noteq> {} \<longrightarrow> src_keys s \<subseteq> C) p p'"
        unfolding ds prod.case .
    qed
    moreover have "closed_instr i = (\<lambda>C D. \<forall>x\<in>set ?ps. case x of (d, s) \<Rightarrow> dst_keys d \<inter> C \<noteq> {} \<longrightarrow> src_keys s \<subseteq> C)"
      by (simp add: ParCopyOp closed_instr_def fun_eq_iff)
    moreover have "mark_instr i p = foldM (\<lambda>(d, s) p. do { b \<leftarrow> is_dst_live p d; Some (if b then mark_src_live s p else mark_dead p) }) ?ps p"
      using pt by (simp add: ParCopyOp mark_instr_def)
    ultimately show ?thesis by (simp only:)
  qed (use True in auto)
qed

text \<open>A round is closed under the whole function when it finds nothing.\<close>

definition closed_fn :: "Function \<Rightarrow> nat set \<Rightarrow> nat set \<Rightarrow> bool" where
  "closed_fn f C D \<longleftrightarrow> (\<forall>i\<in>set (fn_instrs f). closed_instr i C D)"

lemma dce_round_marks:
  assumes "dce_ok f"
  shows "\<exists>p'. dce_round f p = Some p' \<and> marks (closed_fn f) (p\<lparr>new_live := False, any_dead := False\<rparr>) p'"
proof -
  have "\<exists>p'. foldM mark_instr (rev (fn_instrs f)) q = Some p' \<and> marks (\<lambda>C D. \<forall>i\<in>set (rev (fn_instrs f)). closed_instr i C D) q p'" for q
    by (rule marks_foldM, rule mark_instr_marks) (use assms in \<open>simp add: dce_ok_def list_all_iff\<close>)
  then show ?thesis by (simp add: dce_round_def fn_instrs_def [symmetric] closed_fn_def [abs_def])
qed

text \<open>The least sets closed under the function.\<close>

inductive needed :: "Function \<Rightarrow> nat + nat \<Rightarrow> bool" for f where
  op: "i \<in> set (fn_instrs f) \<Longrightarrow> \<not> pairs_op (in_op i) \<Longrightarrow> \<not> pred_is_false (in_pred i) \<Longrightarrow> \<not> can_eliminate (in_op i) \<Longrightarrow>
    k \<in> use_keys i \<Longrightarrow> needed f (Inl k)"
| def: "i \<in> set (fn_instrs f) \<Longrightarrow> \<not> pairs_op (in_op i) \<Longrightarrow> \<not> pred_is_false (in_pred i) \<Longrightarrow>
    d \<in> set (op_dsts (in_op i)) \<Longrightarrow> j \<in> dst_keys d \<Longrightarrow> needed f (Inl j) \<Longrightarrow> k \<in> use_keys i \<Longrightarrow> needed f (Inl k)"
| phi_src: "i \<in> set (fn_instrs f) \<Longrightarrow> in_op i = PhiSrcs ps \<Longrightarrow> (phi, src) \<in> set ps \<Longrightarrow> needed f (Inr (phi_bit_index phi)) \<Longrightarrow>
    k \<in> src_keys src \<Longrightarrow> needed f (Inl k)"
| phi_dst: "i \<in> set (fn_instrs f) \<Longrightarrow> in_op i = PhiDsts ps \<Longrightarrow> (phi, dst) \<in> set ps \<Longrightarrow> j \<in> dst_keys dst \<Longrightarrow> needed f (Inl j) \<Longrightarrow>
    needed f (Inr (phi_bit_index phi))"
| copy: "i \<in> set (fn_instrs f) \<Longrightarrow> in_op i = ParCopyOp pc \<Longrightarrow> (dst, src) \<in> set (pc_dsts_srcs pc) \<Longrightarrow> j \<in> dst_keys dst \<Longrightarrow>
    needed f (Inl j) \<Longrightarrow> k \<in> src_keys src \<Longrightarrow> needed f (Inl k)"

lemma closed_plain: "\<not> pairs_op (in_op i) \<Longrightarrow> closed_instr i C D \<longleftrightarrow> (instr_live C i \<longrightarrow> use_keys i \<subseteq> C)"
  by (cases "in_op i") (simp_all add: closed_instr_def)

lemma needed_closed: "closed_fn f {k. needed f (Inl k)} {k. needed f (Inr k)}"
  unfolding closed_fn_def
proof
  fix i assume i: "i \<in> set (fn_instrs f)"
  show "closed_instr i {k. needed f (Inl k)} {k. needed f (Inr k)}"
  proof (cases "pairs_op (in_op i)")
    case False
    with i show ?thesis
      by (auto simp: closed_plain instr_live_def intro: needed.op needed.def)
  next
    case True
    with i show ?thesis
      by (cases "in_op i") (auto simp: closed_instr_def intro: needed.phi_src needed.phi_dst needed.copy)
  qed
qed

lemma needed_least: "needed f x \<Longrightarrow> closed_fn f C D \<Longrightarrow> case x of Inl k \<Rightarrow> k \<in> C | Inr k \<Rightarrow> k \<in> D"
proof (induction rule: needed.induct)
  case (op i k)
  then have "instr_live C i \<longrightarrow> use_keys i \<subseteq> C" by (metis closed_fn_def closed_plain)
  with op show ?case by (auto simp: instr_live_def)
next
  case (def i d j k)
  then have "instr_live C i \<longrightarrow> use_keys i \<subseteq> C" by (metis closed_fn_def closed_plain)
  with def show ?case by (auto simp: instr_live_def)
next
  case (phi_src i ps phi src k)
  then show ?case by (fastforce simp: closed_fn_def closed_instr_def)
next
  case (phi_dst i ps phi dst j)
  then show ?case by (fastforce simp: closed_fn_def closed_instr_def)
next
  case (copy i pc dst src j k)
  then show ?case by (fastforce simp: closed_fn_def closed_instr_def)
qed

lemma dce_loop_spec:
  assumes ok: "dce_ok f"
  shows "\<exists>p'. dce_loop f p = Some p' \<and> closed_fn f (live_values p') (live_phis p') \<and>
    (\<forall>C D. closed_fn f C D \<longrightarrow> live_values p \<subseteq> C \<longrightarrow> live_phis p \<subseteq> D \<longrightarrow> live_values p' \<subseteq> C \<and> live_phis p' \<subseteq> D)"
proof -
  define U where "U = live_values p \<union> \<Union> (use_keys ` set (fn_instrs f))"
  define V where "V = live_phis p \<union> phi_bit_index ` (\<Union>i\<in>set (fn_instrs f). case in_op i of PhiDsts ps \<Rightarrow> fst ` set ps | _ \<Rightarrow> {})"
  have fin: "finite U" "finite V"
    unfolding U_def V_def by (auto simp: use_keys_def split: Op.splits)
  have src: "src_keys s \<subseteq> use_keys i" if "s \<in> set (op_srcs (in_op i))" for s i
    using that by (auto simp: use_keys_op)
  have cl: "closed_fn f U V"
    unfolding closed_fn_def
  proof
    fix i assume i: "i \<in> set (fn_instrs f)"
    then have u: "use_keys i \<subseteq> U" by (auto simp: U_def)
    show "closed_instr i U V"
    proof (cases "in_op i")
      case (PhiSrcs ps)
      have "src_keys s \<subseteq> U" if "(f, s) \<in> set ps" for f s
        using src [of s i] u that PhiSrcs by force
      then show ?thesis by (auto simp: closed_instr_def PhiSrcs)
    next
      case (PhiDsts ps)
      have "phi_bit_index ph \<in> V" if "(ph, d) \<in> set ps" for ph d
        unfolding V_def using i that PhiDsts by force
      then show ?thesis by (auto simp: closed_instr_def PhiDsts)
    next
      case (ParCopyOp pc)
      have "src_keys s \<subseteq> U" if "(d, s) \<in> set (pc_dsts_srcs pc)" for d s
        using src [of s i] u that ParCopyOp by force
      then show ?thesis by (auto simp: closed_instr_def ParCopyOp)
    qed (use u in \<open>simp_all add: closed_instr_def\<close>)
  qed
  have "\<exists>p'. dce_loop f q = Some p' \<and> closed_fn f (live_values p') (live_phis p') \<and>
      (\<forall>C D. closed_fn f C D \<longrightarrow> live_values q \<subseteq> C \<longrightarrow> live_phis q \<subseteq> D \<longrightarrow> live_values p' \<subseteq> C \<and> live_phis p' \<subseteq> D)"
    if "live_values q \<subseteq> U" "live_phis q \<subseteq> V" for q
    using that
  proof (induction "card (U - live_values q) + card (V - live_phis q)" arbitrary: q rule: less_induct)
    case less
    let ?q = "q\<lparr>new_live := False, any_dead := False\<rparr>"
    obtain r where r: "dce_round f q = Some r" and m: "marks (closed_fn f) ?q r" using dce_round_marks [OF ok] by blast
    note m = marksD [OF m]
    have mono: "live_values q \<subseteq> live_values r" "live_phis q \<subseteq> live_phis r" using m(1,2) by simp_all
    have upper: "closed_fn f C D \<Longrightarrow> live_values q \<subseteq> C \<Longrightarrow> live_phis q \<subseteq> D \<Longrightarrow> live_values r \<subseteq> C \<and> live_phis r \<subseteq> D" for C D
      using m(4) [of C D] by simp
    show ?case
    proof (cases "new_live r")
      case False
      then have "live_values r = live_values q" "live_phis r = live_phis q" using m(3) by simp_all
      with m(5) False r show ?thesis by (subst dce_loop.simps) simp
    next
      case True
      have ru: "live_values r \<subseteq> U" "live_phis r \<subseteq> V" using upper [OF cl less.prems] by simp_all
      have "live_values r \<noteq> live_values q \<or> live_phis r \<noteq> live_phis q" using True m(3) by simp
      then have "live_values q \<subset> live_values r \<or> live_phis q \<subset> live_phis r" using mono by blast
      then have "U - live_values r \<subset> U - live_values q \<or> V - live_phis r \<subset> V - live_phis q"
        using ru by blast
      moreover have "card (U - live_values r) \<le> card (U - live_values q)" "card (V - live_phis r) \<le> card (V - live_phis q)"
        using mono fin by (auto intro: card_mono)
      moreover have "finite (U - live_values q)" "finite (V - live_phis q)" using fin by simp_all
      ultimately have "card (U - live_values r) + card (V - live_phis r) < card (U - live_values q) + card (V - live_phis q)"
        by (meson add_less_le_mono add_le_less_mono psubset_card_mono)
      from less.hyps [OF this ru] obtain p' where p': "dce_loop f r = Some p'" "closed_fn f (live_values p') (live_phis p')"
        "\<And>C D. closed_fn f C D \<Longrightarrow> live_values r \<subseteq> C \<Longrightarrow> live_phis r \<subseteq> D \<Longrightarrow> live_values p' \<subseteq> C \<and> live_phis p' \<subseteq> D" by blast
      have "dce_loop f q = Some p'" using r True p'(1) by (subst dce_loop.simps) simp
      with p'(2,3) upper show ?thesis by blast
    qed
  qed
  from this [of p] show ?thesis unfolding U_def V_def by blast
qed

lemma dce_live_sets:
  assumes "dce_ok f"
  shows "\<exists>p. dce_loop f dc_new = Some p \<and> closed_fn f (live_values p) (live_phis p) \<and>
    live_values p = {k. needed f (Inl k)} \<and> live_phis p = {k. needed f (Inr k)}"
proof -
  obtain p where p: "dce_loop f dc_new = Some p" "closed_fn f (live_values p) (live_phis p)"
    and up: "\<And>C D. closed_fn f C D \<Longrightarrow> live_values p \<subseteq> C \<and> live_phis p \<subseteq> D"
    using dce_loop_spec [OF assms, of dc_new] by (auto simp: dc_new_def)
  have "live_values p \<subseteq> {k. needed f (Inl k)} \<and> live_phis p \<subseteq> {k. needed f (Inr k)}" by (rule up [OF needed_closed])
  moreover have "k \<in> live_values p" if "needed f (Inl k)" for k using needed_least [OF that p(2)] by simp
  moreover have "k \<in> live_phis p" if "needed f (Inr k)" for k using needed_least [OF that p(2)] by simp
  ultimately show ?thesis using p by blast
qed

end
