(* ===== verification/DceSem.thy ===== *)
theory DceSem
  imports OptDce
begin

text \<open>
  Dead code elimination keeps the runs of a function: a semantics of the operations given from outside,
  the execution of blocks, the simulation between a function and what \<^verbatim>\<open>opt_dce.rs\<close> leaves of it.
\<close>

subsection \<open>Running a function\<close>

text \<open>
  A semantics of the operations, given from outside: the components of a source read in an environment
  of values, the values of the destinations of an operation, its effect on the rest of the machine
  (memory and the choice of the next block), and the truth of a guard.  Values are kept by the index of
  their SSA value, phis by their own.
\<close>

record ('v, 'm) Sem =
  src_val :: "Src \<Rightarrow> (nat \<Rightarrow> 'v) \<Rightarrow> nat \<Rightarrow> 'v"
  op_val :: "Op \<Rightarrow> (nat \<Rightarrow> 'v) \<Rightarrow> 'm \<Rightarrow> nat \<Rightarrow> nat \<Rightarrow> 'v"
  op_mem :: "Op \<Rightarrow> (nat \<Rightarrow> 'v) \<Rightarrow> 'm \<Rightarrow> 'm"
  guard_val :: "PredRef \<Rightarrow> (nat \<Rightarrow> 'v) \<Rightarrow> bool"

record ('v, 'm) Machine =
  env :: "nat \<Rightarrow> 'v"
  phis :: "nat \<Rightarrow> 'v"
  mem :: 'm

definition write_dst :: "Dst \<times> (nat \<Rightarrow> 'v) \<Rightarrow> (nat \<Rightarrow> 'v) \<Rightarrow> nat \<Rightarrow> 'v" where
  "write_dst dv e = (case dv of (d, vals) \<Rightarrow>
     fold (\<lambda>(j, v) e. e(ssa_bit_index v := vals j)) (List.enumerate 0 (dst_iter_ssa d)) e)"

definition writes :: "(Dst \<times> (nat \<Rightarrow> 'v)) list \<Rightarrow> (nat \<Rightarrow> 'v) \<Rightarrow> nat \<Rightarrow> 'v" where
  "writes = fold write_dst"

text \<open>The phi and copy operations read all their sources before they write.\<close>

fun exec_op :: "('v, 'm) Sem \<Rightarrow> Op \<Rightarrow> ('v, 'm) Machine \<Rightarrow> ('v, 'm) Machine" where
  "exec_op sem (PhiSrcs ps) st =
     st\<lparr>phis := fold (\<lambda>(phi, src) g. g(phi_bit_index phi := src_val sem src (env st) 0)) ps (phis st)\<rparr>"
| "exec_op sem (PhiDsts ps) st =
     st\<lparr>env := writes (map (\<lambda>(phi, dst). (dst, \<lambda>_. phis st (phi_bit_index phi))) ps) (env st)\<rparr>"
| "exec_op sem (ParCopyOp pc) st =
     st\<lparr>env := writes (map (\<lambda>(dst, src). (dst, src_val sem src (env st))) (pc_dsts_srcs pc)) (env st)\<rparr>"
| "exec_op sem op st =
     st\<lparr>env := writes (List.zip (op_dsts op) (map (op_val sem op (env st) (mem st)) [0..<length (op_dsts op)])) (env st),
        mem := op_mem sem op (env st) (mem st)\<rparr>"

definition exec_instr :: "('v, 'm) Sem \<Rightarrow> Instr \<Rightarrow> ('v, 'm) Machine \<Rightarrow> ('v, 'm) Machine" where
  "exec_instr sem i st =
     (if guard_val sem (predicate (in_pred i)) (env st) \<noteq> inverted (in_pred i) then exec_op sem (in_op i) st else st)"

definition exec_instrs :: "('v, 'm) Sem \<Rightarrow> Instr list \<Rightarrow> ('v, 'm) Machine \<Rightarrow> ('v, 'm) Machine" where
  "exec_instrs sem = fold (exec_instr sem)"

text \<open>Blocks executed one after the other; the machine chooses the next one.\<close>

fun run_blocks :: "('v, 'm) Sem \<Rightarrow> (nat \<Rightarrow> 'm \<Rightarrow> nat) \<Rightarrow> Function \<Rightarrow> nat \<Rightarrow> nat \<times> ('v, 'm) Machine \<Rightarrow> nat \<times> ('v, 'm) Machine" where
  "run_blocks sem nxt f 0 s = s"
| "run_blocks sem nxt f (Suc n) (b, st) =
     (if b < length (cfg_blocks (fn_blocks f))
      then let st' = exec_instrs sem (bb_instrs (cfg_blocks (fn_blocks f) ! b)) st in
           run_blocks sem nxt f n (nxt b (mem st'), st')
      else (b, st))"

text \<open>
  What the pass relies on: an operation and a guard see the environment only through the values they
  name, \<^verbatim>\<open>PT\<close> is true, and an operation that may be eliminated, or an annotation, changes nothing but
  its destinations.
\<close>

definition agree :: "nat set \<Rightarrow> (nat \<Rightarrow> 'v) \<Rightarrow> (nat \<Rightarrow> 'v) \<Rightarrow> bool" where
  "agree C e e' \<longleftrightarrow> (\<forall>k\<in>C. e k = e' k)"

definition sem_ok :: "('v, 'm) Sem \<Rightarrow> bool" where
  "sem_ok sem \<longleftrightarrow>
     (\<forall>s e e'. agree (src_keys s) e e' \<longrightarrow> src_val sem s e = src_val sem s e') \<and>
     (\<forall>op e e' m. agree (\<Union> (src_keys ` set (op_srcs op))) e e' \<longrightarrow>
        op_val sem op e m = op_val sem op e' m \<and> op_mem sem op e m = op_mem sem op e' m) \<and>
     (\<forall>op e m. can_eliminate op \<or> is_annotate op \<longrightarrow> op_mem sem op e m = m) \<and>
     (\<forall>p e e'. agree (ssa_bit_index ` set (predref_iter_ssa p)) e e' \<longrightarrow> guard_val sem p e = guard_val sem p e') \<and>
     (\<forall>e. guard_val sem PrNone e)"

lemma agree_write:
  "agree C e e' \<Longrightarrow> agree C (write_dst dv e) (write_dst dv e')"
proof -
  have "agree C e e' \<Longrightarrow> agree C (fold (\<lambda>(j, v) e. e(ssa_bit_index v := vals j)) xs e)
      (fold (\<lambda>(j, v) e. e(ssa_bit_index v := vals j)) xs e')" for xs and vals :: "nat \<Rightarrow> 'a" and e e' :: "nat \<Rightarrow> 'a"
    by (induction xs arbitrary: e e') (auto simp: agree_def)
  then show "agree C e e' \<Longrightarrow> ?thesis" by (simp add: write_dst_def split: prod.splits)
qed

lemma agree_skip_write:
  assumes "agree C e e'" "dst_keys (fst dv) \<inter> C = {}"
  shows "agree C (write_dst dv e) e'"
proof -
  have "k \<notin> ssa_bit_index ` snd ` set xs \<Longrightarrow> fold (\<lambda>(j, v) e. e(ssa_bit_index v := vals j)) xs e k = e k"
    for xs k and vals :: "nat \<Rightarrow> 'a" and e :: "nat \<Rightarrow> 'a"
    by (induction xs arbitrary: e) (simp_all add: case_prod_beta)
  moreover have "snd ` set (List.enumerate 0 (dst_iter_ssa d)) = set (dst_iter_ssa d)" for d
    by (metis map_snd_enumerate set_map)
  ultimately have "k \<notin> dst_keys (fst dv) \<Longrightarrow> write_dst dv e k = e k" for k
    by (cases dv) (simp add: write_dst_def dst_keys_def)
  then have "k \<in> C \<Longrightarrow> write_dst dv e k = e k" for k using assms(2) by blast
  then show ?thesis using assms(1) by (simp add: agree_def)
qed

lemma agree_writes_filter:
  "agree C e e' \<Longrightarrow> agree C (writes dvs e) (writes (filter (\<lambda>(d, _). dst_keys d \<inter> C \<noteq> {}) dvs) e')"
proof (induction dvs arbitrary: e e')
  case (Cons dv dvs)
  show ?case
  proof (cases "dst_keys (fst dv) \<inter> C = {}")
    case True
    from Cons.IH [OF agree_skip_write [OF Cons.prems True]] True show ?thesis
      by (simp add: writes_def case_prod_beta)
  next
    case False
    from Cons.IH [OF agree_write [OF Cons.prems, of dv]] False show ?thesis
      by (simp add: writes_def case_prod_beta)
  qed
qed (simp add: writes_def)

lemma agree_writes: "agree C e e' \<Longrightarrow> agree C (writes dvs e) (writes dvs e')"
  by (induction dvs arbitrary: e e') (simp_all add: writes_def agree_write)

definition sim :: "nat set \<Rightarrow> nat set \<Rightarrow> ('v, 'm) Machine \<Rightarrow> ('v, 'm) Machine \<Rightarrow> bool" where
  "sim C D st st' \<longleftrightarrow> agree C (env st) (env st') \<and> agree D (phis st) (phis st') \<and> mem st = mem st'"

text \<open>What the removal leaves of an instruction, for given live sets.\<close>

definition prune :: "bool \<Rightarrow> nat set \<Rightarrow> nat set \<Rightarrow> Instr \<Rightarrow> Instr list" where
  "prune annotate C D i =
     (let (is_live, op) = (case in_op i of
           PhiSrcs ps \<Rightarrow> (let ps = filter (\<lambda>(phi, _). phi_bit_index phi \<in> D) ps in (ps \<noteq> [], PhiSrcs ps))
         | PhiDsts ps \<Rightarrow> (let ps = filter (\<lambda>(_, dst). dst_keys dst \<inter> C \<noteq> {}) ps in (ps \<noteq> [], PhiDsts ps))
         | ParCopyOp pc \<Rightarrow> (let ps = filter (\<lambda>(dst, _). dst_keys dst \<inter> C \<noteq> {}) (pc_dsts_srcs pc) in
             (ps \<noteq> [], ParCopyOp (pc\<lparr>pc_dsts_srcs := ps\<rparr>)))
         | op \<Rightarrow> (instr_live C i, op)) in
      if is_live then [i\<lparr>in_op := op\<rparr>] else killed annotate)"

lemma retainM_filter: "(\<And>x. x \<in> set xs \<Longrightarrow> f x = Some (g x)) \<Longrightarrow> retainM f xs = Some (filter g xs)"
  by (induction xs) auto

lemma dce_map_instr_prune:
  assumes "instr_ok i"
  shows "dce_map_instr annotate p i = Some (prune annotate (live_values p) (live_phis p) i)"
proof -
  have dl: "is_dst_live p d = Some (dst_keys d \<inter> live_values p \<noteq> {})" if "d \<in> set (op_dsts (in_op i))" for d
    using assms that by (auto simp: instr_ok_def list_all_iff intro!: is_dst_live_ok)
  show ?thesis
  proof (cases "in_op i")
    case (PhiDsts ps)
    have "retainM (\<lambda>(_, dst). is_dst_live p dst) ps = Some (filter (\<lambda>(_, dst). dst_keys dst \<inter> live_values p \<noteq> {}) ps)"
      by (rule retainM_filter) (use dl PhiDsts in force)
    then show ?thesis by (simp add: dce_map_instr_def prune_def PhiDsts Let_def)
  next
    case (ParCopyOp pc)
    have "retainM (\<lambda>(dst, _). is_dst_live p dst) (pc_dsts_srcs pc) =
        Some (filter (\<lambda>(dst, _). dst_keys dst \<inter> live_values p \<noteq> {}) (pc_dsts_srcs pc))"
      by (rule retainM_filter) (use dl ParCopyOp in force)
    then show ?thesis by (simp add: dce_map_instr_def prune_def ParCopyOp Let_def)
  qed (simp_all add: dce_map_instr_def prune_def is_phi_live_iff is_instr_live_ok [OF assms] Let_def)
qed

lemma sem_okD:
  assumes "sem_ok sem"
  shows "agree (src_keys s) e e' \<Longrightarrow> src_val sem s e = src_val sem s e'"
    "agree (\<Union> (src_keys ` set (op_srcs op))) e e' \<Longrightarrow> op_val sem op e m = op_val sem op e' m"
    "agree (\<Union> (src_keys ` set (op_srcs op))) e e' \<Longrightarrow> op_mem sem op e m = op_mem sem op e' m"
    "can_eliminate op \<or> is_annotate op \<Longrightarrow> op_mem sem op e m = m"
    "agree (ssa_bit_index ` set (predref_iter_ssa p)) e e' \<Longrightarrow> guard_val sem p e = guard_val sem p e'"
    "guard_val sem PrNone e"
  using assms unfolding sem_ok_def by blast+

lemma agree_mono: "agree C e e' \<Longrightarrow> B \<subseteq> C \<Longrightarrow> agree B e e'"
  by (auto simp: agree_def)

lemma exec_true:
  "sem_ok sem \<Longrightarrow> pred_is_true (in_pred i) \<Longrightarrow> exec_instr sem i st = exec_op sem (in_op i) st"
  by (simp add: exec_instr_def pred_is_true_def sem_okD(6))

lemma exec_killed: "sem_ok sem \<Longrightarrow> exec_instrs sem (killed annotate) st = st"
  using sem_okD(4) [of sem "OtherOp (Virtual Annotate) [] []"]
  by (simp add: killed_def exec_instrs_def exec_true instr_new_def pred_is_true_def pred_of_bool_def writes_def)

lemma agree_phi_fold:
  assumes "\<And>phi src. (phi, src) \<in> set ps \<Longrightarrow> phi_bit_index phi \<in> D \<Longrightarrow> v src = v' src" "agree D g g'"
  shows "agree D (fold (\<lambda>(phi, src) g. g(phi_bit_index phi := v src)) ps g)
    (fold (\<lambda>(phi, src) g. g(phi_bit_index phi := v' src)) (filter (\<lambda>(phi, _). phi_bit_index phi \<in> D) ps) g')"
  using assms
proof (induction ps arbitrary: g g')
  case (Cons x ps)
  obtain phi src where x: "x = (phi, src)" by (cases x)
  have p: "\<And>phi src. (phi, src) \<in> set ps \<Longrightarrow> phi_bit_index phi \<in> D \<Longrightarrow> v src = v' src"
    using Cons.prems(1) by auto
  show ?case
  proof (cases "phi_bit_index phi \<in> D")
    case True
    then have "agree D (g(phi_bit_index phi := v src)) (g'(phi_bit_index phi := v' src))"
      using Cons.prems x by (auto simp: agree_def)
    from Cons.IH [OF p this] True x show ?thesis by (simp del: fun_upd_apply)
  next
    case False
    then have "agree D (g(phi_bit_index phi := v src)) g'" using Cons.prems(2) by (auto simp: agree_def)
    from Cons.IH [OF p this] False x show ?thesis by (simp del: fun_upd_apply)
  qed
qed simp

lemma exec_pair:
  assumes "sem_ok sem" "pred_is_true (in_pred i)" "xs = [] \<Longrightarrow> exec_op sem op st' = st'"
  shows "exec_instrs sem (if xs \<noteq> [] then [i\<lparr>in_op := op\<rparr>] else killed annotate) st' = exec_op sem op st'"
  using assms exec_true [OF assms(1), of "i\<lparr>in_op := op\<rparr>" st']
  by (cases "xs = []") (simp_all add: exec_killed, simp add: exec_instrs_def)

lemma filter_map_pairs:
  "filter (\<lambda>(d, _). P d) (map (\<lambda>(x, y). (x, g y)) xs) = map (\<lambda>(x, y). (x, g y)) (filter (\<lambda>(x, _). P x) xs)"
  "filter (\<lambda>(d, _). P d) (map (\<lambda>(x, y). (y, h x)) ys) = map (\<lambda>(x, y). (y, h x)) (filter (\<lambda>(_, y). P y) ys)"
  by (induction xs, auto, induction ys, auto)

lemma exec_prune:
  assumes ok: "instr_ok i" and cl: "closed_instr i C D" and sem: "sem_ok sem" and s: "sim C D st st'"
  shows "sim C D (exec_instr sem i st) (exec_instrs sem (prune annotate C D i) st')"
proof -
  have e: "agree C (env st) (env st')" and f: "agree D (phis st) (phis st')" and m: "mem st = mem st'"
    using s by (simp_all add: sim_def)
  note semD = sem_okD [OF sem]
  have srcv: "src_val sem s (env st) = src_val sem s (env st')" if "src_keys s \<subseteq> C" for s
    by (rule semD(1), rule agree_mono [OF e that])
  show ?thesis
  proof (cases "pairs_op (in_op i)")
    case True
    then have pt: "pred_is_true (in_pred i)" using ok by (simp add: instr_ok_def)
    show ?thesis
    proof (cases "in_op i")
      case (PhiSrcs ps)
      let ?ps = "filter (\<lambda>(phi, _). phi_bit_index phi \<in> D) ps"
      have v: "src_val sem src (env st) 0 = src_val sem src (env st') 0" if "(phi, src) \<in> set ps" "phi_bit_index phi \<in> D" for phi src
        using srcv [of src] cl that PhiSrcs by (fastforce simp: closed_instr_def)
      have "exec_instrs sem (prune annotate C D i) st' = exec_op sem (PhiSrcs ?ps) st'"
        using exec_pair [OF sem pt, of ?ps "PhiSrcs ?ps" st'] by (simp add: prune_def PhiSrcs Let_def)
      moreover have "exec_instr sem i st = exec_op sem (PhiSrcs ps) st" using exec_true [OF sem pt] PhiSrcs by simp
      ultimately show ?thesis
        using e m agree_phi_fold [of ps D "\<lambda>src. src_val sem src (env st) 0" "\<lambda>src. src_val sem src (env st') 0", OF v f]
        by (simp add: sim_def)
    next
      case (PhiDsts ps)
      let ?ps = "filter (\<lambda>(_, dst). dst_keys dst \<inter> C \<noteq> {}) ps"
      let ?w = "\<lambda>st. \<lambda>(phi, dst). (dst, \<lambda>_ :: nat. phis st (phi_bit_index phi))"
      have "map (?w st) ?ps = map (?w st') ?ps"
      proof (rule map_cong [OF refl])
        fix x assume x: "x \<in> set ?ps"
        obtain q d where qd: "x = (q, d)" by (cases x)
        have "phi_bit_index q \<in> D" using cl x qd PhiDsts by (fastforce simp: closed_instr_def)
        with f have "phis st (phi_bit_index q) = phis st' (phi_bit_index q)" by (simp add: agree_def)
        then show "?w st x = ?w st' x" by (simp add: qd)
      qed
      moreover have "filter (\<lambda>(d, _). dst_keys d \<inter> C \<noteq> {}) (map (?w st) ps) = map (?w st) ?ps"
        by (rule filter_map_pairs(2))
      ultimately have "agree C (writes (map (?w st) ps) (env st)) (writes (map (?w st') ?ps) (env st'))"
        using agree_writes_filter [OF e, of "map (?w st) ps"] by (simp only:)
      moreover have "exec_instrs sem (prune annotate C D i) st' = exec_op sem (PhiDsts ?ps) st'"
        using exec_pair [OF sem pt, of ?ps "PhiDsts ?ps" st'] by (simp add: prune_def PhiDsts Let_def writes_def)
      moreover have "exec_instr sem i st = exec_op sem (PhiDsts ps) st" using exec_true [OF sem pt] PhiDsts by simp
      ultimately show ?thesis using f m by (simp add: sim_def)
    next
      case (ParCopyOp pc)
      let ?ps = "filter (\<lambda>(dst, _). dst_keys dst \<inter> C \<noteq> {}) (pc_dsts_srcs pc)"
      let ?w = "\<lambda>st. \<lambda>(dst, src). (dst, src_val sem src (env st))"
      have "map (?w st) ?ps = map (?w st') ?ps"
      proof (rule map_cong [OF refl])
        fix x assume x: "x \<in> set ?ps"
        obtain d s where ds: "x = (d, s)" by (cases x)
        have "src_keys s \<subseteq> C" using cl x ds ParCopyOp by (fastforce simp: closed_instr_def)
        from srcv [OF this] show "?w st x = ?w st' x" by (simp add: ds)
      qed
      moreover have "filter (\<lambda>(d, _). dst_keys d \<inter> C \<noteq> {}) (map (?w st) (pc_dsts_srcs pc)) = map (?w st) ?ps"
        by (rule filter_map_pairs(1))
      ultimately have "agree C (writes (map (?w st) (pc_dsts_srcs pc)) (env st)) (writes (map (?w st') ?ps) (env st'))"
        using agree_writes_filter [OF e, of "map (?w st) (pc_dsts_srcs pc)"] by (simp only:)
      moreover have "exec_instrs sem (prune annotate C D i) st' = exec_op sem (ParCopyOp (pc\<lparr>pc_dsts_srcs := ?ps\<rparr>)) st'"
        using exec_pair [OF sem pt, of ?ps "ParCopyOp (pc\<lparr>pc_dsts_srcs := ?ps\<rparr>)" st'] by (simp add: prune_def ParCopyOp Let_def writes_def)
      moreover have "exec_instr sem i st = exec_op sem (ParCopyOp pc) st" using exec_true [OF sem pt] ParCopyOp by simp
      ultimately show ?thesis using f m by (simp add: sim_def)
    qed (use True in simp_all)
  next
    case False
    have x: "exec_op sem (in_op i) st = st\<lparr>env := writes (List.zip (op_dsts (in_op i)) (map (op_val sem (in_op i) (env st) (mem st)) [0..<length (op_dsts (in_op i))])) (env st),
        mem := op_mem sem (in_op i) (env st) (mem st)\<rparr>" for st
      using False by (cases "in_op i") simp_all
    have p: "prune annotate C D i = (if instr_live C i then [i] else killed annotate)"
      using False by (cases "in_op i") (simp_all add: prune_def)
    show ?thesis
    proof (cases "instr_live C i")
      case True
      then have u: "use_keys i \<subseteq> C" using cl False by (simp add: closed_plain)
      have a: "agree (\<Union> (src_keys ` set (op_srcs (in_op i)))) (env st) (env st')"
        by (rule agree_mono [OF e]) (use u in \<open>auto simp: use_keys_op\<close>)
      have g: "guard_val sem (predicate (in_pred i)) (env st) = guard_val sem (predicate (in_pred i)) (env st')"
        by (rule semD(5), rule agree_mono [OF e]) (use u in \<open>auto simp: use_keys_def ssa_uses_def\<close>)
      show ?thesis
        using semD(2,3) [OF a] e f m p True g by (simp add: exec_instr_def exec_instrs_def x sim_def agree_writes)
    next
      case False
      then have d: "pred_is_false (in_pred i) \<or> can_eliminate (in_op i) \<and> (\<forall>d\<in>set (op_dsts (in_op i)). dst_keys d \<inter> C = {})"
        by (auto simp: instr_live_def)
      have "sim C D (exec_instr sem i st) st'"
      proof (cases "pred_is_false (in_pred i)")
        case True
        then show ?thesis using s semD(6) by (simp add: exec_instr_def pred_is_false_def)
      next
        case False
        then have c: "can_eliminate (in_op i)" and nd: "\<forall>d\<in>set (op_dsts (in_op i)). dst_keys d \<inter> C = {}" using d by auto
        have "filter (\<lambda>(d, _). dst_keys d \<inter> C \<noteq> {}) (List.zip (op_dsts (in_op i)) vs) = []" for vs :: "(nat \<Rightarrow> 'a) list"
          using nd by (auto simp: filter_empty_conv dest: set_zip_leftD)
        then have "agree C (writes (List.zip (op_dsts (in_op i)) vs) (env st)) (env st')" for vs
          using agree_writes_filter [OF e, of "List.zip (op_dsts (in_op i)) vs"] by (simp add: writes_def)
        then show ?thesis using s semD(4) c e f m by (simp add: exec_instr_def x sim_def)
      qed
      with p False show ?thesis by (simp add: exec_killed [OF sem])
    qed
  qed
qed

lemma exec_instrs_append: "exec_instrs sem (xs @ ys) st = exec_instrs sem ys (exec_instrs sem xs st)"
  by (simp add: exec_instrs_def)

lemma exec_prunes:
  assumes "\<And>i. i \<in> set is \<Longrightarrow> instr_ok i \<and> closed_instr i C D" "sem_ok sem" "sim C D st st'"
  shows "sim C D (exec_instrs sem is st) (exec_instrs sem (concat (map (prune annotate C D) is)) st')"
  using assms
proof (induction "is" arbitrary: st st')
  case (Cons i "is")
  have "sim C D (exec_instr sem i st) (exec_instrs sem (prune annotate C D i) st')"
    using Cons.prems by (intro exec_prune) simp_all
  from Cons.IH [OF _ Cons.prems(2) this] Cons.prems(1) show ?case
    by (simp add: exec_instrs_append) (simp add: exec_instrs_def)
qed (simp add: exec_instrs_def)

lemma mapM_Some: "(\<And>x. x \<in> set xs \<Longrightarrow> f x = Some (g x)) \<Longrightarrow> mapM f xs = Some (map g xs)"
  by (induction xs) auto

text \<open>The function that the removal gives, for given live sets.\<close>

definition pruned :: "bool \<Rightarrow> nat set \<Rightarrow> nat set \<Rightarrow> Function \<Rightarrow> Function" where
  "pruned annotate C D f = fn_map_instrs (prune annotate C D) f"

lemma fn_map_instrsM_pruned:
  assumes "dce_ok f"
  shows "fn_map_instrsM (dce_map_instr annotate p) f = Some (pruned annotate (live_values p) (live_phis p) f)"
proof -
  have "instr_ok i" if "b \<in> set (cfg_blocks (fn_blocks f))" "i \<in> set (bb_instrs b)" for b i
    using assms that by (auto simp: dce_ok_def fn_instrs_def list_all_iff)
  then have "mapM (\<lambda>b. map_option (\<lambda>iss. b\<lparr>bb_instrs := concat iss\<rparr>) (mapM (dce_map_instr annotate p) (bb_instrs b)))
      (cfg_blocks (fn_blocks f)) = Some (map (bb_map_instrs (prune annotate (live_values p) (live_phis p))) (cfg_blocks (fn_blocks f)))"
    by (intro mapM_Some) (simp add: mapM_Some dce_map_instr_prune bb_map_instrs_def)
  then show ?thesis by (simp add: fn_map_instrsM_def pruned_def fn_map_instrs_def)
qed

lemma run_pruned:
  assumes "dce_ok f" "closed_fn f C D" "sem_ok sem" "sim C D st st'"
  shows "fst (run_blocks sem nxt f n (b, st)) = fst (run_blocks sem nxt (pruned annotate C D f) n (b, st')) \<and>
    sim C D (snd (run_blocks sem nxt f n (b, st))) (snd (run_blocks sem nxt (pruned annotate C D f) n (b, st')))"
  using assms(4)
proof (induction n arbitrary: b st st')
  case (Suc n)
  let ?bs = "cfg_blocks (fn_blocks f)"
  have bs: "cfg_blocks (fn_blocks (pruned annotate C D f)) = map (bb_map_instrs (prune annotate C D)) ?bs"
    by (simp add: pruned_def fn_map_instrs_def)
  show ?case
  proof (cases "b < length ?bs")
    case True
    have "instr_ok i \<and> closed_instr i C D" if "i \<in> set (bb_instrs (?bs ! b))" for i
      using assms(1,2) that True nth_mem [OF True]
      by (auto simp: dce_ok_def closed_fn_def fn_instrs_def list_all_iff)
    from exec_prunes [OF this assms(3) Suc.prems]
    have s: "sim C D (exec_instrs sem (bb_instrs (?bs ! b)) st)
        (exec_instrs sem (bb_instrs (map (bb_map_instrs (prune annotate C D)) ?bs ! b)) st')"
      using True by (simp add: bb_map_instrs_def)
    from Suc.IH [OF this] s True show ?thesis by (simp add: bs Let_def sim_def)
  qed (use Suc.prems bs in simp)
qed simp

lemma sim_refl [simp]: "sim C D st st" by (simp add: sim_def agree_def)

text \<open>
  Property C12.  Dead code elimination succeeds on every function in SSA form, and the result runs like the
  original under every semantics that reads operands through the values they name and gives an operation
  that may be eliminated no effect but its destinations: from the same start, after any number of blocks,
  the same block comes next, memory is the same, and so is every value that is needed.
\<close>

theorem dce_preserves_runs:
  assumes "dce_ok f" and "sem_ok sem"
  shows "\<exists>f'. opt_dce annotate f = Some f' \<and>
    (\<forall>n. fst (run_blocks sem nxt f n (b, st)) = fst (run_blocks sem nxt f' n (b, st)) \<and>
      mem (snd (run_blocks sem nxt f n (b, st))) = mem (snd (run_blocks sem nxt f' n (b, st))) \<and>
      (\<forall>k. needed f (Inl k) \<longrightarrow>
        env (snd (run_blocks sem nxt f n (b, st))) k = env (snd (run_blocks sem nxt f' n (b, st))) k))"
proof -
  obtain p where p: "dce_loop f dc_new = Some p" "closed_fn f (live_values p) (live_phis p)"
      "live_values p = {k. needed f (Inl k)}"
    using dce_live_sets [OF assms(1)] by blast
  show ?thesis
  proof (cases "any_dead p")
    case True
    let ?f = "pruned annotate (live_values p) (live_phis p) f"
    have "opt_dce annotate f = Some ?f"
      using p(1) True by (simp add: opt_dce_def fn_map_instrsM_pruned [OF assms(1)])
    moreover note run_pruned [OF assms(1) p(2) assms(2) sim_refl]
    ultimately show ?thesis
      using p(3) by (intro exI [of _ ?f]) (simp add: sim_def agree_def)
  next
    case False
    then show ?thesis using p(1) by (simp add: opt_dce_def)
  qed
qed

text \<open>An instance: a stored constant, and a dead operation between its definition and the store.\<close>

definition demo_value :: "u32 \<Rightarrow> SSARef" where "demo_value i = the (SSARef_new [\<lparr>ssa_packed = i\<rparr>])"

definition demo_instrs :: "bool \<Rightarrow> Instr list" where
  "demo_instrs dead =
     [instr_new (OtherOp (MoveOp Mov) [DstSSA (demo_value 1)] [src_of_ref (Imm32 5)])] @
     (if dead then [instr_new (OtherOp (IntAlu IAbs) [DstSSA (demo_value 2)] [src_of_ref (SrSSA (demo_value 1))])] else []) @
     [instr_new (OtherOp (St (Global A64)) [] [src_of_ref (SrSSA (demo_value 1))]), instr_new Exit]"

definition demo_fn :: "bool \<Rightarrow> Function" where
  "demo_fn dead = \<lparr>fn_ssa_alloc = \<lparr>sa_count = 2\<rparr>, fn_phi_alloc = pa_new,
     fn_blocks = cfg_default\<lparr>cfg_blocks := [\<lparr>bb_label = 0, bb_uniform = True, bb_instrs = demo_instrs dead\<rparr>]\<rparr>\<rparr>"

definition demo_src :: "Src \<Rightarrow> (nat \<Rightarrow> nat) \<Rightarrow> nat \<Rightarrow> nat" where
  "demo_src s e j = (case src_iter_ssa s of [] \<Rightarrow> (case reference s of Imm32 u \<Rightarrow> unat u | _ \<Rightarrow> 0) | v # _ \<Rightarrow> e (ssa_bit_index v))"

definition demo_sem :: "(nat, nat list) Sem" where
  "demo_sem = \<lparr>src_val = demo_src,
     op_val = (\<lambda>op e m i j. sum_list (map (\<lambda>s. demo_src s e 0) (op_srcs op))),
     op_mem = (\<lambda>op e m. if can_eliminate op \<or> is_annotate op then m else map (\<lambda>s. demo_src s e 0) (op_srcs op) @ m),
     guard_val = (\<lambda>p e. case p of PrSSA v \<Rightarrow> e (ssa_bit_index v) \<noteq> 0 | _ \<Rightarrow> True)\<rparr>"

lemma demo_src_agree: "agree (src_keys s) e e' \<Longrightarrow> demo_src s e = demo_src s e'"
  by (auto simp: demo_src_def agree_def src_keys_def split: list.splits)

lemma demo_sem_ok: "sem_ok demo_sem"
proof -
  have "map (\<lambda>s. demo_src s e 0) ss = map (\<lambda>s. demo_src s e' 0) ss"
    if "agree (\<Union> (src_keys ` set ss)) e e'" for ss e e'
    using that by (intro map_cong refl fun_cong [OF demo_src_agree]) (auto simp: agree_def)
  then show ?thesis
    unfolding sem_ok_def demo_sem_def
    by (auto simp: agree_def fun_eq_iff split: PredRef.splits intro!: fun_cong [OF demo_src_agree] arg_cong [of _ _ sum_list])
qed

lemma demo_deref [simp]: "SSARef_deref (demo_value 1) = [\<lparr>ssa_packed = 1\<rparr>]" "SSARef_deref (demo_value 2) = [\<lparr>ssa_packed = 2\<rparr>]"
  by code_simp+

lemma demo_ok: "dce_ok (demo_fn True)"
  by (simp add: dce_ok_def fn_instrs_def demo_fn_def demo_instrs_def instr_ok_def instr_new_def dst_ok_def)

declare dce_loop.simps [code]

lemma demo_dce: "map_option fn_instrs (opt_dce False (demo_fn True)) = Some (demo_instrs False)"
  by code_simp

theorem dce_preserves_runs_witness:
  "\<exists>f'. opt_dce False (demo_fn True) = Some f' \<and> fn_instrs f' = demo_instrs False \<and>
     (let st = \<lparr>env = (\<lambda>_. 0), phis = (\<lambda>_. 0), mem = []\<rparr>;
          r = run_blocks demo_sem (\<lambda>b m. 1) (demo_fn True) 2 (0, st);
          r' = run_blocks demo_sem (\<lambda>b m. 1) f' 2 (0, st) in
      fst r = fst r' \<and> mem (snd r) = mem (snd r') \<and> mem (snd r) = [5])"
proof -
  let ?st = "\<lparr>env = (\<lambda>_. 0), phis = (\<lambda>_. 0), mem = []\<rparr>"
  have "mem (snd (run_blocks demo_sem (\<lambda>b m. 1) (demo_fn True) 2 (0, ?st))) = [5]" by code_simp
  then show ?thesis
    using dce_preserves_runs [OF demo_ok demo_sem_ok, of False "\<lambda>b m. 1" 0 ?st] demo_dce
    by (auto simp: Let_def)
qed

text \<open>
  Property C13.  The marking loop ends on every function in SSA form, and the values and phis it marks are
  exactly those that a kept instruction needs, directly or through a chain of needed definitions.
\<close>

theorem dce_live_exact:
  assumes "dce_ok f"
  shows "\<exists>p. dce_loop f dc_new = Some p \<and>
    bs_elems (live_ssa p) = {k. needed f (Inl k)} \<and> bs_elems (live_phi p) = {k. needed f (Inr k)}"
  using dce_live_sets [OF assms] by blast

theorem dce_live_exact_witness:
  "\<exists>p. dce_loop (demo_fn True) dc_new = Some p \<and>
    bs_elems (live_ssa p) = {k. needed (demo_fn True) (Inl k)} \<and> bs_elems (live_phi p) = {k. needed (demo_fn True) (Inr k)}"
  by (rule dce_live_exact [OF demo_ok])

end
