(* ===== verification/OptLop.thy ===== *)
theory OptLop
  imports Ir
begin

text \<open>
  Logic operation folding, \<^verbatim>\<open>codegen/opt_lop.rs\<close>: the pass absorbs inverted, constant, repeated and unused
  sources into the truth table of a \<^verbatim>\<open>lop3\<close> or \<^verbatim>\<open>plop3\<close> and merges the tables of single-use operations
  into their users.  It is shown to end without a panic and to keep the equations between SSA values that
  the operations of a function state.
\<close>

subsection \<open>The pass\<close>

record LopEntry =
  le_op :: LogicOp3
  le_srcs_used :: u8
  le_srcs :: "Src \<times> Src \<times> Src"

record LopPass =
  use_counts :: "SSAValue \<rightharpoonup> u32"
  ssa_lop :: "SSAValue \<rightharpoonup> LopEntry"

fun ref_const :: "SrcRef \<Rightarrow> bool option" where
  "ref_const SrZero = Some False" | "ref_const SrFalse = Some False" | "ref_const SrTrue = Some True"
| "ref_const (Imm32 u) = (if u = 0 then Some False else if u = - 1 then Some True else None)"
| "ref_const _ = None"

definition src_as_bool :: "Src \<Rightarrow> bool option option" where
  "src_as_bool src = assert_then (is_unmodified src) (Some (ref_const (reference src)))"

text \<open>The counters are \<^verbatim>\<open>u32\<close>, so the increment can overflow.\<close>

definition lp_count :: "SSAValue \<Rightarrow> (SSAValue \<rightharpoonup> u32) \<Rightarrow> (SSAValue \<rightharpoonup> u32) option" where
  "lp_count ssa m =
     (case m ssa of None \<Rightarrow> Some (m(ssa \<mapsto> 1)) | Some c \<Rightarrow> assert_then (c \<noteq> - 1) (Some (m(ssa \<mapsto> c + 1))))"

fun ref_ssa_vec :: "SrcRef \<Rightarrow> SSAValue list" where
  "ref_ssa_vec (SrSSA vec) = SSARef_deref vec" | "ref_ssa_vec _ = []"

definition counted_uses :: "Instr \<Rightarrow> SSAValue list" where
  "counted_uses i = predref_iter_ssa (predicate (in_pred i)) @
     concat (map (\<lambda>s. ref_ssa_vec (reference s)) (op_srcs (in_op i)))"

definition lp_new :: "Function \<Rightarrow> LopPass option" where
  "lp_new f =
     do {
       counts \<leftarrow> foldM (\<lambda>i m. foldM lp_count (counted_uses i) m) (fn_instrs f) Map.empty;
       Some \<lparr>use_counts = counts, ssa_lop = Map.empty\<rparr>
     }"

definition used_mask :: "LogicOp3 \<Rightarrow> Src \<times> Src \<times> Src \<Rightarrow> u8 option" where
  "used_mask op srcs =
     foldM (\<lambda>i srcs_used. do {
         u \<leftarrow> src_used op i;
         if u then do { b \<leftarrow> src_as_bool (nth_src i srcs); assert_then (b = None) (Some (srcs_used OR push_bit i 1)) }
         else Some srcs_used
       }) [0..<3] 0"

definition add_lop :: "SSAValue \<Rightarrow> LogicOp3 \<Rightarrow> Src \<times> Src \<times> Src \<Rightarrow> LopPass \<Rightarrow> LopPass option" where
  "add_lop ssa op srcs p =
     do {
       used \<leftarrow> used_mask op srcs;
       Some (p\<lparr>ssa_lop := (ssa_lop p)(ssa \<mapsto> \<lparr>le_op = op, le_srcs_used = used, le_srcs = srcs\<rparr>)\<rparr>)
     }"

definition eval_lut :: "LogicOp3 \<Rightarrow> 'a::len word \<times> 'a word \<times> 'a word \<Rightarrow> 'a word" where
  "eval_lut op s = lop3_eval op (nth_src 0 s) (nth_src 1 s) (nth_src 2 s)"

definition dedup_srcs :: "Src \<times> Src \<times> Src \<Rightarrow> LogicOp3 \<Rightarrow> LogicOp3 option" where
  "dedup_srcs srcs op =
     foldM (\<lambda>(i, j) op.
       if reference (nth_src i srcs) = reference (nth_src j srcs)
       then assert_then (is_unmodified (nth_src i srcs)) (assert_then (is_unmodified (nth_src j srcs))
         (Some (new_lut (\<lambda>x y z. let s = (x, y, z); s = with_src j (nth_src i s) s in eval_lut op s))))
       else Some op)
       (concat (map (\<lambda>i. map (Pair i) [i + 1..<3]) [0..<2])) op"

text \<open>
  The inner loop of \<^verbatim>\<open>try_prop_to_src\<close>: the next slot that may be overwritten.  The outer option is a
  panic, the inner one the early return.
\<close>

function next_slot :: "nat \<Rightarrow> Src \<times> Src \<times> Src \<Rightarrow> nat \<Rightarrow> nat option option" where
  "next_slot src_idx srcs next_src =
     (if next_src \<ge> 3 then Some None
      else if next_src = src_idx then Some (Some next_src)
      else do {
        b \<leftarrow> src_as_bool (nth_src next_src srcs);
        if b \<noteq> None then Some (Some next_src) else next_slot src_idx srcs (next_src + 1)
      })"
  by auto
termination by (relation "measure (\<lambda>(_, _, n). 3 - n)") auto

text \<open>For each source of the entry the slot it goes to; \<^verbatim>\<open>usize::MAX\<close> is \<open>None\<close>.\<close>

fun entry_slots :: "LopEntry \<Rightarrow> nat \<Rightarrow> Src \<times> Src \<times> Src \<Rightarrow> nat list \<Rightarrow> (nat \<Rightarrow> nat option) \<Rightarrow> nat \<Rightarrow>
    (nat \<Rightarrow> nat option) option option" where
  "entry_slots entry src_idx srcs [] entry_srcs next_src = Some (Some entry_srcs)"
| "entry_slots entry src_idx srcs (i # is) entry_srcs next_src =
     (if le_srcs_used entry AND push_bit i 1 = 0 then entry_slots entry src_idx srcs is entry_srcs next_src
      else case List.find (\<lambda>j. reference (nth_src i (le_srcs entry)) = reference (nth_src j srcs)) [0..<3] of
        Some j \<Rightarrow> entry_slots entry src_idx srcs is (entry_srcs(i := Some j)) next_src
      | None \<Rightarrow> do {
          r \<leftarrow> next_slot src_idx srcs next_src;
          case r of
            None \<Rightarrow> Some None
          | Some k \<Rightarrow> entry_slots entry src_idx srcs is (entry_srcs(i := Some k)) (k + 1)
        })"

definition cleared_src :: "RegFile \<Rightarrow> Src option" where
  "cleared_src file = (case file of
       GPR \<Rightarrow> Some (src_of_ref SrZero) | UGPR \<Rightarrow> Some (src_of_ref SrZero)
     | Pred \<Rightarrow> Some (src_of_ref SrTrue) | UPred \<Rightarrow> Some (src_of_ref SrTrue)
     | _ \<Rightarrow> None)"

definition place_srcs :: "LopEntry \<Rightarrow> (nat \<Rightarrow> nat option) \<Rightarrow> Src \<times> Src \<times> Src \<Rightarrow> Src \<times> Src \<times> Src" where
  "place_srcs entry entry_srcs srcs =
     fold (\<lambda>i srcs. case entry_srcs i of None \<Rightarrow> srcs | Some k \<Rightarrow> with_src k (nth_src i (le_srcs entry)) srcs) [0..<3] srcs"

definition merged_lut :: "LopEntry \<Rightarrow> (nat \<Rightarrow> nat option) \<Rightarrow> nat \<Rightarrow> LogicOp3 \<Rightarrow> LogicOp3" where
  "merged_lut entry entry_srcs src_idx op =
     new_lut (\<lambda>x y z.
       let s = (x, y, z);
           es = fold (\<lambda>i es. case entry_srcs i of None \<Rightarrow> es | Some k \<Rightarrow> with_src i (nth_src k s) es) [0..<3] (0, 0, 0);
           e = eval_lut (le_op entry) es;
           s = with_src src_idx e s
       in eval_lut op s)"

text \<open>One turn of the loop: the inner \<open>None\<close> is a return.\<close>

definition prop_step :: "LopPass \<Rightarrow> nat \<Rightarrow> LogicOp3 list \<Rightarrow> Src \<times> Src \<times> Src \<Rightarrow>
    (LogicOp3 list \<times> (Src \<times> Src \<times> Src)) option option" where
  "prop_step p src_idx ops srcs =
     assert_then (is_unmodified (nth_src src_idx srcs))
       (case reference (nth_src src_idx srcs) of
          SrSSA vec \<Rightarrow> assert_then (SSARef_comps vec = 1) (do {
            ssa \<leftarrow> index (SSARef_deref vec) 0;
            case ssa_lop p ssa of
              None \<Rightarrow> Some None
            | Some entry \<Rightarrow> do {
                entry_use_count \<leftarrow> use_counts p ssa;
                if count_ones (le_srcs_used entry) > 1 \<and> entry_use_count > 1 then Some None
                else do {
                  r \<leftarrow> entry_slots entry src_idx srcs [0..<3] (\<lambda>_. None) 0;
                  case r of
                    None \<Rightarrow> Some None
                  | Some entry_srcs \<Rightarrow> do {
                      file \<leftarrow> ssa_file ssa;
                      clear \<leftarrow> cleared_src file;
                      Some (Some (map (merged_lut entry entry_srcs src_idx) ops,
                        place_srcs entry entry_srcs (with_src src_idx clear srcs)))
                    }
                }
              }
          })
        | _ \<Rightarrow> Some None)"

partial_function (option) try_prop_to_src :: "LopPass \<Rightarrow> nat \<Rightarrow> LogicOp3 list \<Rightarrow> Src \<times> Src \<times> Src \<Rightarrow>
    (LogicOp3 list \<times> (Src \<times> Src \<times> Src)) option" where
  "try_prop_to_src p src_idx ops srcs =
     (case prop_step p src_idx ops srcs of
        None \<Rightarrow> None
      | Some None \<Rightarrow> Some (ops, srcs)
      | Some (Some (ops', srcs')) \<Rightarrow> try_prop_to_src p src_idx ops' srcs')"

definition prop_all :: "LopPass \<Rightarrow> LogicOp3 list \<Rightarrow> Src \<times> Src \<times> Src \<Rightarrow> (LogicOp3 list \<times> (Src \<times> Src \<times> Src)) option" where
  "prop_all p ops srcs = foldM (\<lambda>i (ops, srcs). try_prop_to_src p i ops srcs) [0..<3] (ops, srcs)"

text \<open>
  The loop of \<^verbatim>\<open>opt_lop3\<close> and \<^verbatim>\<open>opt_plop3\<close> over the sources: constants go into the tables, unused sources are
  replaced by \<^verbatim>\<open>RZ\<close> or \<^verbatim>\<open>PT\<close>.
\<close>

definition fix_consts :: "SrcRef \<Rightarrow> LogicOp3 list \<Rightarrow> Src \<times> Src \<times> Src \<Rightarrow> (LogicOp3 list \<times> (Src \<times> Src \<times> Src)) option" where
  "fix_consts unused ops srcs =
     foldM (\<lambda>i (ops, srcs). do {
         b \<leftarrow> src_as_bool (nth_src i srcs);
         ops \<leftarrow> (case b of None \<Rightarrow> Some ops | Some b \<Rightarrow> mapM (fix_src i b) ops);
         used \<leftarrow> mapM (\<lambda>op. src_used op i) ops;
         Some (ops, if list_ex (\<lambda>u. u) used then srcs else with_src i (src_of_ref unused) srcs)
       }) [0..<3] (ops, srcs)"

text \<open>A destination that is an SSA value gets an entry.\<close>

definition record_dst :: "Dst \<Rightarrow> LogicOp3 \<Rightarrow> Src \<times> Src \<times> Src \<Rightarrow> LopPass \<Rightarrow> LopPass option" where
  "record_dst dst op srcs p =
     (case dst of
        DstSSA ssa \<Rightarrow> assert_then (SSARef_comps ssa = 1) (do { v \<leftarrow> index (SSARef_deref ssa) 0; add_lop v op srcs p })
      | _ \<Rightarrow> Some p)"

definition opt_lop3 :: "OpLop3 \<Rightarrow> LopPass \<Rightarrow> (OpLop3 \<times> LopPass) option" where
  "opt_lop3 op p =
     do {
       lop \<leftarrow> dedup_srcs (lop3_srcs op) (lop3_op op);
       (ops, srcs) \<leftarrow> fix_consts SrZero [lop] (lop3_srcs op);
       (ops, srcs) \<leftarrow> prop_all p ops srcs;
       lop \<leftarrow> index ops 0;
       p \<leftarrow> record_dst (lop3_dst op) lop srcs p;
       Some (op\<lparr>lop3_srcs := srcs, lop3_op := lop\<rparr>, p)
     }"

definition absorb_bnot :: "LogicOp3 list \<Rightarrow> Src \<times> Src \<times> Src \<Rightarrow> (LogicOp3 list \<times> (Src \<times> Src \<times> Src)) option" where
  "absorb_bnot ops srcs =
     foldM (\<lambda>i (ops, srcs). do {
         b \<leftarrow> mod_is_bnot (modifier (nth_src i srcs));
         if b then do {
           ops \<leftarrow> mapM (invert_src i) ops;
           Some (ops, with_src i ((nth_src i srcs)\<lparr>modifier := ModNone\<rparr>) srcs)
         } else Some (ops, srcs)
       }) [0..<3] (ops, srcs)"

definition opt_plop3 :: "OpPLop3 \<Rightarrow> LopPass \<Rightarrow> (OpPLop3 \<times> LopPass) option" where
  "opt_plop3 op p =
     do {
       (ops, srcs) \<leftarrow> absorb_bnot [fst (plop3_ops op), snd (plop3_ops op)] (plop3_srcs op);
       ops \<leftarrow> mapM (dedup_srcs srcs) ops;
       (ops, srcs) \<leftarrow> fix_consts SrTrue ops srcs;
       (ops, srcs) \<leftarrow> prop_all p ops srcs;
       op0 \<leftarrow> index ops 0;
       op1 \<leftarrow> index ops 1;
       p \<leftarrow> record_dst (fst (plop3_dsts op)) op0 srcs p;
       p \<leftarrow> record_dst (snd (plop3_dsts op)) op1 srcs p;
       Some (op\<lparr>plop3_srcs := srcs, plop3_ops := (op0, op1)\<rparr>, p)
     }"

definition lop_instr :: "Instr \<Rightarrow> LopPass \<Rightarrow> (Instr \<times> LopPass) option" where
  "lop_instr i p =
     (case in_op i of
        Lop3 op \<Rightarrow> map_option (\<lambda>(op, p). (i\<lparr>in_op := Lop3 op\<rparr>, p)) (opt_lop3 op p)
      | PLop3 op \<Rightarrow> map_option (\<lambda>(op, p). (i\<lparr>in_op := PLop3 op\<rparr>, p)) (opt_plop3 op p)
      | _ \<Rightarrow> Some (i, p))"

definition lop_block :: "BasicBlock \<Rightarrow> LopPass \<Rightarrow> (BasicBlock \<times> LopPass) option" where
  "lop_block b p = map_option (\<lambda>(is, p). (b\<lparr>bb_instrs := is\<rparr>, p)) (traverseM lop_instr (bb_instrs b) p)"

definition lop_run :: "Function \<Rightarrow> LopPass \<Rightarrow> (Function \<times> LopPass) option" where
  "lop_run f p =
     map_option (\<lambda>(bs, p). (f\<lparr>fn_blocks := (fn_blocks f)\<lparr>cfg_blocks := bs\<rparr>\<rparr>, p))
       (traverseM lop_block (cfg_blocks (fn_blocks f)) p)"

definition opt_lop :: "Function \<Rightarrow> Function option" where
  "opt_lop f = do { p \<leftarrow> lp_new f; map_option fst (lop_run f p) }"

subsection \<open>Tables\<close>

abbreviation "tab op t \<equiv> bit (lut op) (row3 t)"

definition map3 :: "('a \<Rightarrow> 'b) \<Rightarrow> 'a \<times> 'a \<times> 'a \<Rightarrow> 'b \<times> 'b \<times> 'b" where
  "map3 f t = (case t of (x, y, z) \<Rightarrow> (f x, f y, f z))"

lemma nth_map3 [simp]: "nth_src i (map3 f t) = f (nth_src i t)"
  by (cases t) (simp add: map3_def nth_src_def)

lemma nth_with_src [simp]: "k < 3 \<Longrightarrow> nth_src k (with_src j v t) = (if k = j then v else nth_src k t)"
  by (cases t) (auto simp: with_src_def nth_src_def)

lemma map3_with_src: "map3 f (with_src j v t) = with_src j (f v) (map3 f t)"
  by (cases t) (simp add: with_src_def map3_def)

lemma triple_eqI:
  assumes "\<And>i. i < 3 \<Longrightarrow> nth_src i t = nth_src i t'"
  shows "t = t'"
  using assms [of 0] assms [of 1] assms [of 2] by (cases t; cases t') (simp add: nth_src_def)

abbreviation "plane t n \<equiv> map3 (\<lambda>w. bit w n) t"

lemma bit_eval_lut: "n < LENGTH('a) \<Longrightarrow> bit (eval_lut op s) n = tab op (plane s n)"
  for s :: "'a::len word \<times> 'a word \<times> 'a word"
  by (cases s) (simp add: eval_lut_def bit_lop3_eval nth_src_def map3_def)

lemma tab_new_lut:
  assumes "\<And>x y z n. n < 8 \<Longrightarrow> bit (f x y z) n = F (plane (x, y, z) n)"
  shows "tab (new_lut f) t = F t"
proof -
  obtain x y z where t: "t = (x, y, z)" by (cases t)
  have "plane (0xf0, 0xcc, 0xaa :: u8) (row x y z) = (x, y, z)"
    by (cases x; cases y; cases z) (simp_all add: row_def map3_def)
  then show ?thesis using assms [OF row_lt, of "0xf0" "0xcc" "0xaa" x y z] t
    by (simp add: new_lut_def SRC_MASKS_def)
qed

definition indep :: "LogicOp3 \<Rightarrow> nat \<Rightarrow> bool" where
  "indep op k \<longleftrightarrow> (\<forall>t v. tab op (with_src k v t) = tab op t)"

lemma src_used_indep: "i < 3 \<Longrightarrow> src_used op i = Some (\<not> indep op i)"
proof -
  assume i: "i < 3"
  have "with_src i (nth_src i t) t = t" for t :: "bool \<times> bool \<times> bool"
    using i by (intro triple_eqI) simp
  then have n: "tab op t = tab op (with_src i (nth_src i t) t)" for t by simp
  have "indep op i \<longleftrightarrow> (\<forall>t. tab op (with_src i True t) = tab op (with_src i False t))"
  proof
    assume "\<forall>t. tab op (with_src i True t) = tab op (with_src i False t)"
    then have "tab op (with_src i v t) = tab op (with_src i w t)" for v w t by (cases v; cases w) (simp_all del: split_paired_All)
    then show "indep op i" unfolding indep_def using n by blast
  qed (simp add: indep_def del: split_paired_All)
  then show ?thesis by (simp add: src_used_bit [OF i])
qed

lemma tab_cong:
  assumes "\<And>k. k < 3 \<Longrightarrow> nth_src k t = nth_src k t' \<or> indep op k"
  shows "tab op t = tab op t'"
proof -
  have w: "tab op (with_src k (nth_src k t') u) = tab op u" if "k < 3" "nth_src k u = nth_src k t" for k u
    using assms [OF that(1)]
  proof
    assume "nth_src k t = nth_src k t'"
    then have "with_src k (nth_src k t') u = u" using that by (intro triple_eqI) simp
    then show ?thesis by simp
  qed (simp only: indep_def)
  have "t' = with_src 2 (nth_src 2 t') (with_src 1 (nth_src 1 t') (with_src 0 (nth_src 0 t') t))"
    by (intro triple_eqI) (auto dest: upto3)
  then show ?thesis using w [of 0 t] w [of 1 "with_src 0 (nth_src 0 t') t"]
      w [of 2 "with_src 1 (nth_src 1 t') (with_src 0 (nth_src 0 t') t)"] by simp
qed

lemma tab_fix_src:
  assumes "i < 3"
  shows "\<exists>op'. fix_src i v op = Some op' \<and> (\<forall>t. tab op' t = tab op (with_src i v t))"
  by (rule bit_fix_src [OF assms])

lemma tab_dedup:
  "tab (new_lut (\<lambda>x y z. let s = (x, y, z); s = with_src j (nth_src i s) s in eval_lut op s)) t =
     tab op (with_src j (nth_src i t) t)"
  by (rule tab_new_lut) (simp add: Let_def bit_eval_lut map3_with_src del: split_paired_All)

lemma upt3: "[0..<3] = [0, 1, 2 :: nat]" by (simp add: upt_rec)

definition entry_args :: "(nat \<Rightarrow> nat option) \<Rightarrow> bool \<times> bool \<times> bool \<Rightarrow> bool \<times> bool \<times> bool" where
  "entry_args entry_srcs t = (let a = \<lambda>i. case entry_srcs i of None \<Rightarrow> False | Some k \<Rightarrow> nth_src k t in (a 0, a 1, a 2))"

lemma nth_entry_args: "i < 3 \<Longrightarrow> nth_src i (entry_args es t) = (case es i of None \<Rightarrow> False | Some k \<Rightarrow> nth_src k t)"
  by (drule upto3) (auto simp: entry_args_def nth_src_def Let_def)

lemma plane_entry_args:
  fixes s :: "u8 \<times> u8 \<times> u8"
  shows "plane (fold (\<lambda>i es. case entry_srcs i of None \<Rightarrow> es | Some k \<Rightarrow> with_src i (nth_src k s) es) [0..<3] (0, 0, 0)) n =
    entry_args entry_srcs (plane s n)"
  by (rule triple_eqI, drule upto3)
    (auto simp: upt3 entry_args_def Let_def nth_src_def with_src_def map3_def split: option.splits prod.splits)

lemma tab_merged:
  "tab (merged_lut entry es idx op) t = tab op (with_src idx (tab (le_op entry) (entry_args es t)) t)"
  unfolding merged_lut_def Let_def
  by (rule tab_new_lut) (simp add: bit_eval_lut map3_with_src plane_entry_args)

subsection \<open>The values of sources and the equations of operations\<close>

text \<open>
  An environment gives a value to every SSA value and to every reference the pass does not look into
  (constant buffers, registers).  A predicate is the word of all ones or all zeros, as in the tables.
\<close>

record Vals =
  val_ssa :: "SSAValue \<Rightarrow> u32"
  val_other :: "SrcRef \<Rightarrow> u32"

fun ref_val :: "Vals \<Rightarrow> SrcRef \<Rightarrow> u32" where
  "ref_val e SrZero = 0" | "ref_val e SrFalse = 0" | "ref_val e SrTrue = - 1" | "ref_val e (Imm32 u) = u"
| "ref_val e (SrSSA vec) = val_ssa e (SSARef_deref vec ! 0)" | "ref_val e r = val_other e r"

definition lop_src_val :: "Vals \<Rightarrow> Src \<Rightarrow> u32" where
  "lop_src_val e s = (if modifier s = BNot then NOT (ref_val e (reference s)) else ref_val e (reference s))"

definition lop_val :: "Vals \<Rightarrow> LogicOp3 \<Rightarrow> Src \<times> Src \<times> Src \<Rightarrow> u32" where
  "lop_val e op srcs = eval_lut op (map3 (lop_src_val e) srcs)"

definition dst_eq :: "Vals \<Rightarrow> Dst \<Rightarrow> u32 \<Rightarrow> bool" where
  "dst_eq e d w = (case d of DstSSA r \<Rightarrow> val_ssa e (SSARef_deref r ! 0) = w | _ \<Rightarrow> True)"

fun lop_eq :: "Vals \<Rightarrow> Op \<Rightarrow> bool" where
  "lop_eq e (Lop3 op) = dst_eq e (lop3_dst op) (lop_val e (lop3_op op) (lop3_srcs op))"
| "lop_eq e (PLop3 op) =
     (dst_eq e (fst (plop3_dsts op)) (lop_val e (fst (plop3_ops op)) (plop3_srcs op)) \<and>
      dst_eq e (snd (plop3_dsts op)) (lop_val e (snd (plop3_ops op)) (plop3_srcs op)))"
| "lop_eq e _ = True"

text \<open>The value at one bit: the table applied to the bits of the sources.\<close>

abbreviation "src_plane e srcs n \<equiv> map3 (\<lambda>s. bit (lop_src_val e s) n) srcs"

lemma bit_lop_val: "n < 32 \<Longrightarrow> bit (lop_val e op srcs) n = tab op (src_plane e srcs n)"
  by (cases srcs) (simp add: lop_val_def bit_eval_lut map3_def)

lemma lop_val_eqI:
  "(\<And>n. n < 32 \<Longrightarrow> tab op (src_plane e srcs n) = tab op' (src_plane e srcs' n)) \<Longrightarrow> lop_val e op srcs = lop_val e op' srcs'"
  by (rule bit_word_eqI) (simp add: bit_lop_val)

lemma src_val_ref:
  "is_unmodified s \<Longrightarrow> is_unmodified s' \<Longrightarrow> reference s = reference s' \<Longrightarrow> lop_src_val e s = lop_src_val e s'"
  by (simp add: lop_src_val_def is_unmodified_def)

lemma src_val_const:
  assumes "ref_const (reference s) = Some b" "is_unmodified s" "n < 32"
  shows "bit (lop_src_val e s) n = b"
  using assms by (cases "reference s") (auto simp: lop_src_val_def is_unmodified_def split: if_splits)

subsection \<open>What the pass keeps true\<close>

text \<open>
  A source the pass accepts: unmodified, and a single counted SSA value of a register file it knows.
\<close>

definition src_fit :: "LopPass \<Rightarrow> Src \<Rightarrow> bool" where
  "src_fit p s \<longleftrightarrow> is_unmodified s \<and>
     (\<forall>vec. reference s = SrSSA vec \<longrightarrow> SSARef_comps vec = 1 \<and>
        (\<exists>v. SSARef_deref vec = [v] \<and> use_counts p v \<noteq> None \<and> ssa_file v \<in> Some ` {GPR, UGPR, Pred, UPred}))"

definition before :: "(SSAValue \<Rightarrow> nat) \<Rightarrow> SSAValue set \<Rightarrow> Src \<Rightarrow> bool" where
  "before rank B s \<longleftrightarrow> (\<forall>v\<in>set (ref_ssa_vec (reference s)). \<forall>w\<in>B. rank v < rank w)"

definition entry_ok :: "LopPass \<Rightarrow> (SSAValue \<Rightarrow> nat) \<Rightarrow> SSAValue \<Rightarrow> LopEntry \<Rightarrow> bool" where
  "entry_ok p rank v ent \<longleftrightarrow> (\<forall>i<3. (bit (le_srcs_used ent) i \<longleftrightarrow> \<not> indep (le_op ent) i) \<and>
     (bit (le_srcs_used ent) i \<longrightarrow> src_fit p (nth_src i (le_srcs ent)) \<and>
        ref_const (reference (nth_src i (le_srcs ent))) = None \<and> before rank {v} (nth_src i (le_srcs ent))))"

definition lop_inv :: "(SSAValue \<Rightarrow> nat) \<Rightarrow> LopPass \<Rightarrow> bool" where
  "lop_inv rank p \<longleftrightarrow> (\<forall>v ent. ssa_lop p v = Some ent \<longrightarrow> entry_ok p rank v ent)"

definition entries_hold :: "Vals \<Rightarrow> LopPass \<Rightarrow> bool" where
  "entries_hold e p \<longleftrightarrow> (\<forall>v ent. ssa_lop p v = Some ent \<longrightarrow> val_ssa e v = lop_val e (le_op ent) (le_srcs ent))"

text \<open>Sources in the middle of the rewriting of one operation: no table depends on a constant.\<close>

definition srcs_ok :: "LopPass \<Rightarrow> (SSAValue \<Rightarrow> nat) \<Rightarrow> SSAValue set \<Rightarrow> LogicOp3 list \<Rightarrow> Src \<times> Src \<times> Src \<Rightarrow> bool" where
  "srcs_ok p rank B ops srcs \<longleftrightarrow> (\<forall>i<3. src_fit p (nth_src i srcs) \<and> before rank B (nth_src i srcs) \<and>
     (ref_const (reference (nth_src i srcs)) \<noteq> None \<longrightarrow> (\<forall>op\<in>set ops. indep op i)))"

subsection \<open>Slots\<close>

lemma src_as_bool_fit: "src_fit p s \<Longrightarrow> src_as_bool s = Some (ref_const (reference s))"
  by (simp add: src_fit_def src_as_bool_def)

lemma next_slot_spec:
  assumes "\<And>i. i < 3 \<Longrightarrow> src_fit p (nth_src i srcs)"
  shows "\<exists>r. next_slot idx srcs next = Some r \<and>
    (\<forall>k. r = Some k \<longrightarrow> next \<le> k \<and> k < 3 \<and> (k = idx \<or> ref_const (reference (nth_src k srcs)) \<noteq> None))"
proof (induction "3 - next" arbitrary: "next" rule: less_induct)
  case less
  show ?case
  proof (cases "next < 3 \<and> next \<noteq> idx \<and> ref_const (reference (nth_src next srcs)) = None")
    case True
    with less [of "next + 1"] src_as_bool_fit [OF assms, of "next"] show ?thesis
      by (subst next_slot.simps) fastforce
  next
    case False
    with src_as_bool_fit [OF assms, of "next"] show ?thesis
      by (subst next_slot.simps) auto
  qed
qed

lemma mask_bit: "i < 3 \<Longrightarrow> (m AND push_bit i 1 = 0) = (\<not> bit m i)" for m :: u8
  by (simp add: and_exp_eq_0_iff_not_bit push_bit_eq_mult)

text \<open>
  The slots found so far: a source of the entry goes to a slot with the same reference, or to one that
  is free and below the next candidate; free slots are given out once.
\<close>

definition slots_part :: "LopEntry \<Rightarrow> nat \<Rightarrow> Src \<times> Src \<times> Src \<Rightarrow> (nat \<Rightarrow> nat option) \<Rightarrow> nat \<Rightarrow> bool" where
  "slots_part ent idx srcs es next \<longleftrightarrow>
     (\<forall>i k. es i = Some k \<longrightarrow> i < 3 \<and> k < 3 \<and> bit (le_srcs_used ent) i \<and>
        (reference (nth_src i (le_srcs ent)) = reference (nth_src k srcs) \<or>
         (k = idx \<or> ref_const (reference (nth_src k srcs)) \<noteq> None) \<and> k < next \<and> (\<forall>j. es j = Some k \<longrightarrow> j = i)))"

lemma slots_partD:
  assumes "slots_part ent idx srcs es next" "es i = Some k"
  shows "i < 3" "k < 3" "bit (le_srcs_used ent) i"
    "reference (nth_src i (le_srcs ent)) = reference (nth_src k srcs) \<or>
     (k = idx \<or> ref_const (reference (nth_src k srcs)) \<noteq> None) \<and> k < next \<and> (\<forall>j. es j = Some k \<longrightarrow> j = i)"
  using assms unfolding slots_part_def by blast+

text \<open>A used source of the entry is neither a constant nor the value that is replaced.\<close>

definition fresh_entry :: "LopEntry \<Rightarrow> nat \<Rightarrow> Src \<times> Src \<times> Src \<Rightarrow> bool" where
  "fresh_entry ent idx srcs \<longleftrightarrow> (\<forall>i<3. bit (le_srcs_used ent) i \<longrightarrow>
     ref_const (reference (nth_src i (le_srcs ent))) = None \<and>
     reference (nth_src i (le_srcs ent)) \<noteq> reference (nth_src idx srcs))"

lemma slots_part_match:
  assumes "slots_part ent idx srcs es next" "fresh_entry ent idx srcs" "i < 3" "j < 3" "bit (le_srcs_used ent) i"
    "es i = None" "reference (nth_src i (le_srcs ent)) = reference (nth_src j srcs)"
  shows "slots_part ent idx srcs (es(i := Some j)) next"
proof -
  have "j \<noteq> idx" "ref_const (reference (nth_src j srcs)) = None"
    using assms(2,3,5,7) by (auto simp: fresh_entry_def)
  then have free: "b \<noteq> j" if "b = idx \<or> ref_const (reference (nth_src b srcs)) \<noteq> None" for b using that by auto
  show ?thesis unfolding slots_part_def
  proof (intro allI impI)
    fix a b assume a: "(es(i := Some j)) a = Some b"
    show "a < 3 \<and> b < 3 \<and> bit (le_srcs_used ent) a \<and>
        (reference (nth_src a (le_srcs ent)) = reference (nth_src b srcs) \<or>
         (b = idx \<or> ref_const (reference (nth_src b srcs)) \<noteq> None) \<and> b < next \<and> (\<forall>c. (es(i := Some j)) c = Some b \<longrightarrow> c = a))"
    proof (cases "a = i")
      case False
      with a have "es a = Some b" by simp
      from slots_partD [OF assms(1) this] free show ?thesis by auto
    qed (use a assms in simp)
  qed
qed

lemma slots_part_free:
  assumes "slots_part ent idx srcs es next" "fresh_entry ent idx srcs" "i < 3" "k < 3" "bit (le_srcs_used ent) i"
    "es i = None" "k = idx \<or> ref_const (reference (nth_src k srcs)) \<noteq> None" "next \<le> k"
  shows "slots_part ent idx srcs (es(i := Some k)) (k + 1)"
proof -
  have "j = i" if "(es(i := Some k)) j = Some k" for j
  proof (rule ccontr)
    assume "j \<noteq> i"
    with that have j: "es j = Some k" by simp
    note slots_partD [OF assms(1) j]
    with assms(2,7,8) show False by (auto simp: fresh_entry_def)
  qed
  then have uniq: "\<forall>c. (es(i := Some k)) c = Some k \<longrightarrow> c = i" by blast
  show ?thesis unfolding slots_part_def
  proof (intro allI impI)
    fix a b assume a: "(es(i := Some k)) a = Some b"
    show "a < 3 \<and> b < 3 \<and> bit (le_srcs_used ent) a \<and>
        (reference (nth_src a (le_srcs ent)) = reference (nth_src b srcs) \<or>
         (b = idx \<or> ref_const (reference (nth_src b srcs)) \<noteq> None) \<and> b < k + 1 \<and> (\<forall>c. (es(i := Some k)) c = Some b \<longrightarrow> c = a))"
    proof (cases "a = i")
      case True
      with a have "b = k" by simp
      have "(k = idx \<or> ref_const (reference (nth_src k srcs)) \<noteq> None) \<and> k < k + 1 \<and> (\<forall>c. (es(i := Some k)) c = Some k \<longrightarrow> c = i)"
        using assms(7) uniq less_add_one [of k] by blast
      then show ?thesis unfolding True \<open>b = k\<close> using assms(3-5) by blast
    next
      case False
      with a have b: "es a = Some b" by simp
      from slots_partD [OF assms(1) b] assms(8) show ?thesis by auto
    qed
  qed
qed

lemma entry_slots_spec:
  assumes "\<And>i. i < 3 \<Longrightarrow> src_fit p (nth_src i srcs)" "fresh_entry ent idx srcs"
    and "slots_part ent idx srcs es next" "set is \<subseteq> {..<3}" "distinct is" "\<And>i. i \<in> set is \<Longrightarrow> es i = None"
  shows "\<exists>r. entry_slots ent idx srcs is es next = Some r \<and>
    (\<forall>es'. r = Some es' \<longrightarrow> (\<exists>m. slots_part ent idx srcs es' m) \<and>
       (\<forall>i. i \<notin> set is \<longrightarrow> es' i = es i) \<and> (\<forall>i\<in>set is. bit (le_srcs_used ent) i \<longrightarrow> es' i \<noteq> None))"
  using assms(3-6)
proof (induction "is" arbitrary: es "next")
  case (Cons i "is")
  let ?find = "List.find (\<lambda>j. reference (nth_src i (le_srcs ent)) = reference (nth_src j srcs)) [0..<3]"
  have i: "i < 3" "i \<notin> set is" "es i = None" using Cons.prems by auto
  have step: ?case if "slots_part ent idx srcs (es(i := Some k)) m"
    "entry_slots ent idx srcs (i # is) es next = entry_slots ent idx srcs is (es(i := Some k)) m" for k m
  proof -
    have "set is \<subseteq> {..<3}" "distinct is" "\<And>j. j \<in> set is \<Longrightarrow> (es(i := Some k)) j = None"
      using Cons.prems i by auto
    from Cons.IH [OF that(1) this] obtain r where r: "entry_slots ent idx srcs is (es(i := Some k)) m = Some r"
      "\<And>es'. r = Some es' \<Longrightarrow> (\<exists>m. slots_part ent idx srcs es' m) \<and>
       (\<forall>x. x \<notin> set is \<longrightarrow> es' x = (es(i := Some k)) x) \<and> (\<forall>i\<in>set is. bit (le_srcs_used ent) i \<longrightarrow> es' i \<noteq> None)" by blast
    show ?thesis
    proof (rule exI [of _ r], intro conjI allI impI)
      show "entry_slots ent idx srcs (i # is) es next = Some r" using that(2) r(1) by (simp only:)
      fix es' assume "r = Some es'"
      note es' = r(2) [OF this]
      then show "\<exists>m. slots_part ent idx srcs es' m" by blast
      show "es' x = es x" if "x \<notin> set (i # is)" for x using es' that by simp
      show "\<forall>x\<in>set (i # is). bit (le_srcs_used ent) x \<longrightarrow> es' x \<noteq> None" using es' i(2) by auto
    qed
  qed
  show ?case
  proof (cases "bit (le_srcs_used ent) i")
    case used: True
    show ?thesis
    proof (cases ?find)
      case (Some j)
      then have "j < 3" "reference (nth_src i (le_srcs ent)) = reference (nth_src j srcs)"
        by (auto simp: find_Some_iff)
      from slots_part_match [OF Cons.prems(1) assms(2) i(1) this(1) used i(3) this(2)] Some used i
      show ?thesis by (intro step) (simp_all add: mask_bit)
    next
      case None
      obtain r where r: "next_slot idx srcs next = Some r"
        "\<And>k. r = Some k \<Longrightarrow> next \<le> k \<and> k < 3 \<and> (k = idx \<or> ref_const (reference (nth_src k srcs)) \<noteq> None)"
        using next_slot_spec [OF assms(1)] by blast
      show ?thesis
      proof (cases r)
        case (Some k)
        with r(2) have "slots_part ent idx srcs (es(i := Some k)) (k + 1)"
          by (intro slots_part_free [OF Cons.prems(1) assms(2) i(1) _ used i(3)]) auto
        with None used i r(1) Some show ?thesis by (intro step) (simp_all add: mask_bit)
      qed (use None used i r(1) in \<open>simp add: mask_bit\<close>)
    qed
  next
    case False
    with Cons.IH [OF Cons.prems(1)] Cons.prems i show ?thesis by (fastforce simp: mask_bit)
  qed
qed auto

subsection \<open>One turn of the loop\<close>

lemma slots_same:
  assumes "slots_part ent idx srcs es m" "fresh_entry ent idx srcs" "es i = Some k" "es j = Some k"
  shows "reference (nth_src i (le_srcs ent)) = reference (nth_src j (le_srcs ent))"
  using slots_partD [OF assms(1,3)] slots_partD [OF assms(1,4)] assms(2-4) by auto

lemma place_cases:
  assumes "k < 3"
  shows "(\<exists>i\<in>set is. es i = Some k \<and>
      nth_src k (fold (\<lambda>i srcs. case es i of None \<Rightarrow> srcs | Some k \<Rightarrow> with_src k (nth_src i (le_srcs ent)) srcs) is t) =
        nth_src i (le_srcs ent)) \<or>
    (\<forall>i\<in>set is. es i \<noteq> Some k) \<and>
      nth_src k (fold (\<lambda>i srcs. case es i of None \<Rightarrow> srcs | Some k \<Rightarrow> with_src k (nth_src i (le_srcs ent)) srcs) is t) = nth_src k t"
  using assms by (induction "is" rule: rev_induct) (auto split: option.splits)

definition src_rank :: "(SSAValue \<Rightarrow> nat) \<Rightarrow> Src \<Rightarrow> nat" where
  "src_rank rank s = (case reference s of SrSSA vec \<Rightarrow> Suc (rank (SSARef_deref vec ! 0)) | _ \<Rightarrow> 0)"

lemma clear_fit:
  "f \<in> {GPR, UGPR, Pred, UPred} \<Longrightarrow> \<exists>c. cleared_src f = Some c \<and> src_fit p c \<and> before rank B c \<and>
     ref_const (reference c) \<noteq> None \<and> src_rank rank c = 0"
  by (auto simp: cleared_src_def src_fit_def before_def src_rank_def src_of_ref_def is_unmodified_def)

text \<open>An entry merged into the source \<open>idx\<close>, which is its value \<open>v\<close>.\<close>

lemma merge_sound:
  assumes ent: "entry_ok p rank v ent" and ok: "srcs_ok p rank B ops srcs" and idx: "idx < 3"
    and v: "reference (nth_src idx srcs) = SrSSA vec" "SSARef_deref vec = [v]"
    and fresh: "fresh_entry ent idx srcs" and slots: "slots_part ent idx srcs es m"
    and full: "\<And>i. i < 3 \<Longrightarrow> bit (le_srcs_used ent) i \<Longrightarrow> es i \<noteq> None"
    and clear: "src_fit p c" "before rank B c" "ref_const (reference c) \<noteq> None" "src_rank rank c = 0"
  defines "srcs' \<equiv> place_srcs ent es (with_src idx c srcs)"
  shows "srcs_ok p rank B (map (merged_lut ent es idx) ops) srcs'"
    and "src_rank rank (nth_src idx srcs') < src_rank rank (nth_src idx srcs)"
    and "val_ssa e v = lop_val e (le_op ent) (le_srcs ent) \<Longrightarrow> op \<in> set ops \<Longrightarrow>
      lop_val e op srcs = lop_val e (merged_lut ent es idx op) srcs'"
proof -
  have used: "i < 3 \<and> src_fit p (nth_src i (le_srcs ent)) \<and> ref_const (reference (nth_src i (le_srcs ent))) = None \<and>
      before rank {v} (nth_src i (le_srcs ent))" if "es i = Some k" for i k
    using slots_partD [OF slots that] ent by (simp add: entry_ok_def)
  have pl: "(\<exists>i. es i = Some k \<and> nth_src k srcs' = nth_src i (le_srcs ent)) \<or>
      (\<forall>i. es i \<noteq> Some k) \<and> nth_src k srcs' = (if k = idx then c else nth_src k srcs)" if "k < 3" for k
    using place_cases [OF that, of "[0..<3]" es ent "with_src idx c srcs"] that slots_partD(1) [OF slots]
    unfolding srcs'_def place_srcs_def by auto
  have vB: "before rank B (nth_src idx srcs)" using ok idx by (simp add: srcs_ok_def)
  have bB: "before rank B (nth_src i (le_srcs ent))" if "es i = Some k" for i k
    using used [OF that] vB v by (fastforce simp: before_def)
  show "src_rank rank (nth_src idx srcs') < src_rank rank (nth_src idx srcs)"
  proof -
    have "src_rank rank (nth_src i (le_srcs ent)) < Suc (rank v)" if "es i = Some k" for i k
      using used [OF that] by (auto simp: src_rank_def before_def src_fit_def split: SrcRef.splits)
    then show ?thesis using pl [OF idx] clear(4) v by (auto simp: src_rank_def)
  qed
  show "srcs_ok p rank B (map (merged_lut ent es idx) ops) srcs'"
    unfolding srcs_ok_def
  proof (intro allI impI conjI)
    fix k :: nat assume k: "k < 3"
    show "src_fit p (nth_src k srcs')" using pl [OF k] used clear ok k by (auto simp: srcs_ok_def)
    show "before rank B (nth_src k srcs')" using pl [OF k] bB clear ok k by (auto simp: srcs_ok_def)
    assume c: "ref_const (reference (nth_src k srcs')) \<noteq> None"
    then have n: "\<And>i. es i \<noteq> Some k" and o': "k = idx \<or> (\<forall>op\<in>set ops. indep op k)"
      using pl [OF k] used ok k by (auto simp: srcs_ok_def)
    have "entry_args es (with_src k x t) = entry_args es t" for x t
    proof (rule triple_eqI)
      fix i :: nat assume "i < 3"
      then show "nth_src i (entry_args es (with_src k x t)) = nth_src i (entry_args es t)"
        using n [of i] slots_partD(2) [OF slots, of i] by (simp add: nth_entry_args split: option.splits)
    qed
    moreover have "tab op (with_src idx y (with_src k x t)) = tab op (with_src idx y t)" if "op \<in> set ops" for op x y t
    proof (cases "k = idx")
      case False
      then have "with_src idx y (with_src k x t) = with_src k x (with_src idx y t)" by (intro triple_eqI) simp
      with False o' that show ?thesis by (simp add: indep_def del: split_paired_All)
    qed (simp add: with_src_idem)
    ultimately show "\<forall>op\<in>set (map (merged_lut ent es idx) ops). indep op k"
      by (simp add: indep_def tab_merged del: split_paired_All)
  qed
  assume e: "val_ssa e v = lop_val e (le_op ent) (le_srcs ent)" and op: "op \<in> set ops"
  show "lop_val e op srcs = lop_val e (merged_lut ent es idx op) srcs'"
  proof (rule lop_val_eqI)
    fix n :: nat assume n: "n < 32"
    have same: "lop_src_val e (nth_src k srcs') = lop_src_val e (nth_src i (le_srcs ent))" if i: "es i = Some k" for i k
    proof -
      have "k < 3" using slots_partD [OF slots i] by simp
      with pl [of k] i obtain j where j: "es j = Some k" "nth_src k srcs' = nth_src j (le_srcs ent)" by auto
      then show ?thesis using slots_same [OF slots fresh i j(1)] used [OF i] used [OF j(1)]
        by (auto simp: src_fit_def intro: src_val_ref)
    qed
    have "tab (le_op ent) (entry_args es (src_plane e srcs' n)) = tab (le_op ent) (src_plane e (le_srcs ent) n)"
    proof (rule tab_cong)
      fix i :: nat assume i: "i < 3"
      show "nth_src i (entry_args es (src_plane e srcs' n)) = nth_src i (src_plane e (le_srcs ent) n) \<or> indep (le_op ent) i"
        using full [OF i] same [of i] ent i by (auto simp: nth_entry_args entry_ok_def)
    qed
    also have "\<dots> = bit (val_ssa e v) n" using e n by (simp only: bit_lop_val)
    also have "val_ssa e v = lop_src_val e (nth_src idx srcs)"
      using v ok idx by (simp add: lop_src_val_def srcs_ok_def src_fit_def is_unmodified_def)
    finally have E: "tab (le_op ent) (entry_args es (src_plane e srcs' n)) = bit (lop_src_val e (nth_src idx srcs)) n" .
    show "tab op (src_plane e srcs n) = tab (merged_lut ent es idx op) (src_plane e srcs' n)"
      unfolding tab_merged E
    proof (rule tab_cong)
      fix k :: nat assume k: "k < 3"
      show "nth_src k (src_plane e srcs n) = nth_src k (with_src idx (bit (lop_src_val e (nth_src idx srcs)) n) (src_plane e srcs' n)) \<or> indep op k"
      proof (cases "k = idx \<or> (\<forall>i. es i \<noteq> Some k)")
        case True
        then show ?thesis using pl [OF k] k by auto
      next
        case False
        then obtain i where i: "es i = Some k" "k \<noteq> idx" by auto
        from slots_partD(4) [OF slots i(1)] have "reference (nth_src i (le_srcs ent)) = reference (nth_src k srcs) \<or> indep op k"
          using i(2) ok k op by (auto simp: srcs_ok_def)
        moreover have "lop_src_val e (nth_src i (le_srcs ent)) = lop_src_val e (nth_src k srcs)"
          if "reference (nth_src i (le_srcs ent)) = reference (nth_src k srcs)"
          using used [OF i(1)] ok k that by (intro src_val_ref) (simp_all add: srcs_ok_def src_fit_def)
        ultimately show ?thesis using same [OF i(1)] i k by auto
      qed
    qed
  qed
qed

lemma prop_step_spec:
  assumes inv: "lop_inv rank p" and ok: "srcs_ok p rank B ops srcs" and idx: "idx < 3"
  shows "prop_step p idx ops srcs = Some None \<or>
    (\<exists>ops' srcs'. prop_step p idx ops srcs = Some (Some (ops', srcs')) \<and> srcs_ok p rank B ops' srcs' \<and> length ops' = length ops \<and>
       src_rank rank (nth_src idx srcs') < src_rank rank (nth_src idx srcs) \<and>
       (\<forall>e. entries_hold e p \<longrightarrow> list_all2 (\<lambda>op op'. lop_val e op srcs = lop_val e op' srcs') ops ops'))"
proof (cases "\<exists>vec v ent. reference (nth_src idx srcs) = SrSSA vec \<and> SSARef_deref vec = [v] \<and> ssa_lop p v = Some ent")
  case True
  then obtain vec v ent where v: "reference (nth_src idx srcs) = SrSSA vec" "SSARef_deref vec = [v]" and ent: "ssa_lop p v = Some ent"
    by blast
  have fit: "src_fit p (nth_src i srcs)" if "i < 3" for i using ok that by (simp add: srcs_ok_def)
  have f: "is_unmodified (nth_src idx srcs)" "SSARef_comps vec = 1" "use_counts p v \<noteq> None" "ssa_file v \<in> Some ` {GPR, UGPR, Pred, UPred}"
    using fit [OF idx] v by (auto simp: src_fit_def)
  have eok: "entry_ok p rank v ent" using inv ent by (simp add: lop_inv_def)
  have fresh: "fresh_entry ent idx srcs" unfolding fresh_entry_def
  proof (intro allI impI conjI)
    fix i :: nat assume i: "i < 3" "bit (le_srcs_used ent) i"
    with eok have b: "before rank {v} (nth_src i (le_srcs ent))" and "ref_const (reference (nth_src i (le_srcs ent))) = None"
      by (simp_all add: entry_ok_def)
    then show "ref_const (reference (nth_src i (le_srcs ent))) = None" by blast
    show "reference (nth_src i (le_srcs ent)) \<noteq> reference (nth_src idx srcs)" using b v by (auto simp: before_def)
  qed
  obtain rf where rf: "ssa_file v = Some rf" "rf \<in> {GPR, UGPR, Pred, UPred}" using f(4) by blast
  from clear_fit [OF rf(2), of p rank B] obtain c where c: "cleared_src rf = Some c" "src_fit p c" "before rank B c" "ref_const (reference c) \<noteq> None" "src_rank rank c = 0"
    by blast
  have "slots_part ent idx srcs (\<lambda>_. None) 0" by (simp add: slots_part_def)
  from entry_slots_spec [OF fit fresh this, of "[0..<3]"]
  obtain r where r: "entry_slots ent idx srcs [0..<3] (\<lambda>_. None) 0 = Some r"
    "\<And>es. r = Some es \<Longrightarrow> (\<exists>m. slots_part ent idx srcs es m) \<and> (\<forall>i<3. bit (le_srcs_used ent) i \<longrightarrow> es i \<noteq> None)" by (fastforce simp: atLeast0LessThan)
  have step: "prop_step p idx ops srcs = (if count_ones (le_srcs_used ent) > 1 \<and> the (use_counts p v) > 1 then Some None
      else case r of None \<Rightarrow> Some None
        | Some es \<Rightarrow> Some (Some (map (merged_lut ent es idx) ops, place_srcs ent es (with_src idx c srcs))))"
    using f v ent r(1) rf(1) c(1) by (auto simp: prop_step_def split: option.splits)
  show ?thesis
  proof (cases r)
    case (Some es)
    with r(2) obtain m where m: "slots_part ent idx srcs es m" and full: "\<And>i. i < 3 \<Longrightarrow> bit (le_srcs_used ent) i \<Longrightarrow> es i \<noteq> None" by blast
    note ms = merge_sound [OF eok ok idx v fresh m full c(2-5)]
    have "list_all2 (\<lambda>op op'. lop_val e op srcs = lop_val e op' (place_srcs ent es (with_src idx c srcs))) ops (map (merged_lut ent es idx) ops)"
      if "entries_hold e p" for e
      using ms(3) that ent by (auto simp: entries_hold_def list_all2_map2 intro!: list.rel_refl_strong)
    with ms(1,2) Some show ?thesis unfolding step by (simp del: split_paired_Ex)
  qed (simp add: step)
next
  case False
  have fit: "src_fit p (nth_src idx srcs)" using ok idx by (simp add: srcs_ok_def)
  have "prop_step p idx ops srcs = Some None"
    using False fit by (cases "reference (nth_src idx srcs)") (auto simp: prop_step_def src_fit_def split: option.splits)
  then show ?thesis by blast
qed

lemma try_prop_spec:
  assumes inv: "lop_inv rank p" and idx: "idx < 3" and "srcs_ok p rank B ops srcs"
  shows "\<exists>ops' srcs'. try_prop_to_src p idx ops srcs = Some (ops', srcs') \<and> srcs_ok p rank B ops' srcs' \<and> length ops' = length ops \<and>
    (\<forall>e. entries_hold e p \<longrightarrow> list_all2 (\<lambda>op op'. lop_val e op srcs = lop_val e op' srcs') ops ops')"
  using assms(3)
proof (induction "src_rank rank (nth_src idx srcs)" arbitrary: ops srcs rule: less_induct)
  case less
  from prop_step_spec [OF inv less.prems idx] show ?case
  proof (elim disjE exE conjE)
    assume "prop_step p idx ops srcs = Some None"
    then show ?thesis using less.prems by (subst try_prop_to_src.simps) (simp add: list_all2_refl)
  next
    fix ops1 srcs1
    assume s: "prop_step p idx ops srcs = Some (Some (ops1, srcs1))" "srcs_ok p rank B ops1 srcs1" "length ops1 = length ops"
      "src_rank rank (nth_src idx srcs1) < src_rank rank (nth_src idx srcs)"
      and e: "\<forall>e. entries_hold e p \<longrightarrow> list_all2 (\<lambda>op op'. lop_val e op srcs = lop_val e op' srcs1) ops ops1"
    from less.hyps [OF s(4,2)] obtain ops' srcs' where r: "try_prop_to_src p idx ops1 srcs1 = Some (ops', srcs')"
      "srcs_ok p rank B ops' srcs'" "length ops' = length ops1"
      "\<forall>e. entries_hold e p \<longrightarrow> list_all2 (\<lambda>op op'. lop_val e op srcs1 = lop_val e op' srcs') ops1 ops'" by blast
    have "list_all2 (\<lambda>op op'. lop_val e op srcs = lop_val e op' srcs') ops ops'" if "entries_hold e p" for e
      by (rule list_all2_trans [OF _ e [rule_format, OF that] r(4) [rule_format, OF that]]) simp
    then show ?thesis using s(1,3) r by (subst try_prop_to_src.simps) simp
  qed
qed

subsection \<open>Inverted, repeated, constant and unused sources\<close>

abbreviation "same_vals e ops srcs ops' srcs' \<equiv> list_all2 (\<lambda>op op'. lop_val e op srcs = lop_val e op' srcs') ops ops'"

lemma same_vals_trans: "same_vals e ops srcs ops1 srcs1 \<Longrightarrow> same_vals e ops1 srcs1 ops2 srcs2 \<Longrightarrow> same_vals e ops srcs ops2 srcs2"
  by (erule list_all2_trans [rotated]) simp_all

lemma mapM_total: "(\<And>x. x \<in> set xs \<Longrightarrow> \<exists>y. f x = Some y \<and> R x y) \<Longrightarrow> \<exists>ys. mapM f xs = Some ys \<and> list_all2 R xs ys"
proof (induction xs)
  case (Cons x xs)
  from Cons.prems [of x] Cons.IH Cons.prems show ?case by fastforce
qed simp

lemma dedup_spec:
  assumes "\<And>i. i < 3 \<Longrightarrow> is_unmodified (nth_src i srcs)"
  shows "\<exists>op'. dedup_srcs srcs op = Some op' \<and> (\<forall>e. lop_val e op srcs = lop_val e op' srcs)"
  unfolding dedup_srcs_def
proof (rule foldM_total, blast)
  fix x op1 assume x: "x \<in> set (concat (map (\<lambda>i. map (Pair i) [i + 1..<3]) [0..<2]))" and op1: "\<forall>e. lop_val e op srcs = lop_val e op1 srcs"
  obtain i j where ij: "x = (i, j)" "i < 3" "j < 3" using x by auto
  let ?op = "new_lut (\<lambda>x y z. let s = (x, y, z); s = with_src j (nth_src i s) s in eval_lut op1 s)"
  have "lop_val e op1 srcs = lop_val e ?op srcs" if eq: "reference (nth_src i srcs) = reference (nth_src j srcs)" for e
  proof (rule lop_val_eqI)
    fix n
    have "lop_src_val e (nth_src i srcs) = lop_src_val e (nth_src j srcs)" by (rule src_val_ref) (use assms ij eq in auto)
    then have "with_src j (nth_src i (src_plane e srcs n)) (src_plane e srcs n) = src_plane e srcs n"
      using ij by (intro triple_eqI) auto
    then show "tab op1 (src_plane e srcs n) = tab ?op (src_plane e srcs n)" unfolding tab_dedup by simp
  qed
  then show "\<exists>s'. (case x of (i, j) \<Rightarrow> \<lambda>op.
       if reference (nth_src i srcs) = reference (nth_src j srcs)
       then assert_then (is_unmodified (nth_src i srcs)) (assert_then (is_unmodified (nth_src j srcs))
         (Some (new_lut (\<lambda>x y z. let s = (x, y, z); s = with_src j (nth_src i s) s in eval_lut op s))))
       else Some op) op1 = Some s' \<and> (\<forall>e. lop_val e op srcs = lop_val e s' srcs)"
    using op1 ij assms [OF ij(2)] assms [OF ij(3)] by simp
qed

text \<open>Absorbing a constant: the table forgets the source.\<close>

lemma fix_all:
  assumes "i < 3" "ref_const (reference (nth_src i srcs)) = Some b" "is_unmodified (nth_src i srcs)"
  shows "\<exists>ops'. mapM (fix_src i b) ops = Some ops' \<and> (\<forall>op\<in>set ops'. indep op i) \<and>
    (\<forall>k<3. (\<forall>op\<in>set ops. indep op k) \<longrightarrow> (\<forall>op\<in>set ops'. indep op k)) \<and> (\<forall>e. same_vals e ops srcs ops' srcs)"
proof -
  define R where "R op op' \<longleftrightarrow> (\<forall>t. tab op' t = tab op (with_src i b t))" for op op' :: LogicOp3
  have "\<exists>op'. fix_src i b op = Some op' \<and> R op op'" for op
    unfolding R_def by (rule tab_fix_src [OF assms(1)])
  then obtain ops' where ops': "mapM (fix_src i b) ops = Some ops'" "list_all2 R ops ops'"
    using mapM_total [of ops "fix_src i b" R] by blast
  have set: "\<exists>op\<in>set ops. R op op'" if "op' \<in> set ops'" for op'
    using that ops'(2) by (auto simp: list_all2_conv_all_nth in_set_conv_nth) (metis nth_mem)
  have 1: "indep op' i" if "R op op'" for op op'
    using that by (simp add: R_def indep_def with_src_idem del: split_paired_All)
  have 2: "indep op' k" if "R op op'" "indep op k" "k < 3" for op op' k
  proof (cases "k = i")
    case False
    then have "with_src i b (with_src k v t) = with_src k v (with_src i b t)" for v t by (intro triple_eqI) simp
    with that show ?thesis by (simp add: R_def indep_def del: split_paired_All)
  qed (use 1 that in blast)
  have 3: "lop_val e op srcs = lop_val e op' srcs" if "R op op'" for e op op'
  proof (rule lop_val_eqI)
    fix n :: nat assume "n < 32"
    then have "with_src i b (src_plane e srcs n) = src_plane e srcs n"
      using src_val_const [OF assms(2,3)] assms(1) by (intro triple_eqI) simp
    with that show "tab op (src_plane e srcs n) = tab op' (src_plane e srcs n)" by (simp add: R_def del: split_paired_All)
  qed
  have "\<forall>op\<in>set ops'. indep op i" using set 1 by blast
  moreover have "\<forall>k<3. (\<forall>op\<in>set ops. indep op k) \<longrightarrow> (\<forall>op\<in>set ops'. indep op k)"
    using set 2 by blast
  moreover have "same_vals e ops srcs ops' srcs" for e
    by (rule list_all2_mono [OF ops'(2)]) (rule 3)
  ultimately show ?thesis using ops'(1) by blast
qed

lemma mapM_src_used: "i < 3 \<Longrightarrow> mapM (\<lambda>op. src_used op i) ops = Some (map (\<lambda>op. \<not> indep op i) ops)"
  by (induction ops) (simp_all add: src_used_indep)

lemma drop_unused:
  assumes "i < 3" "\<forall>op\<in>set ops. indep op i"
  shows "same_vals e ops srcs ops (with_src i s srcs)"
proof -
  have "lop_val e op srcs = lop_val e op (with_src i s srcs)" if "indep op i" for op
    by (rule lop_val_eqI, rule tab_cong) (use that in auto)
  then show ?thesis using assms(2) by (auto intro: list.rel_refl_strong)
qed

lemma fix_consts_spec:
  assumes srcs: "\<And>i. i < 3 \<Longrightarrow> src_fit p (nth_src i srcs) \<and> before rank B (nth_src i srcs)"
    and u: "unused \<in> {SrZero, SrTrue}"
  shows "\<exists>ops' srcs'. fix_consts unused ops srcs = Some (ops', srcs') \<and> srcs_ok p rank B ops' srcs' \<and>
    (\<forall>e. same_vals e ops srcs ops' srcs')"
proof -
  let ?P = "\<lambda>n (ops', srcs'). (\<forall>i<3. src_fit p (nth_src i srcs') \<and> before rank B (nth_src i srcs') \<and>
     (i < n \<longrightarrow> ref_const (reference (nth_src i srcs')) \<noteq> None \<longrightarrow> (\<forall>op\<in>set ops'. indep op i))) \<and>
     (\<forall>e. same_vals e ops srcs ops' srcs')"
  let ?f = "\<lambda>i (ops, srcs). do {
         b \<leftarrow> src_as_bool (nth_src i srcs);
         ops \<leftarrow> (case b of None \<Rightarrow> Some ops | Some b \<Rightarrow> mapM (fix_src i b) ops);
         used \<leftarrow> mapM (\<lambda>op. src_used op i) ops;
         Some (ops, if list_ex (\<lambda>u. u) used then srcs else with_src i (src_of_ref unused) srcs)
       }"
  have "\<exists>s. foldM ?f [0..<3] (ops, srcs) = Some s \<and> ?P 3 s"
  proof (rule foldM_upt [where P = ?P])
    show "?P 0 (ops, srcs)" using srcs by (simp add: list.rel_refl)
  next
    fix i s assume i: "i < 3" and P: "?P i s"
    obtain ops1 srcs1 where s: "s = (ops1, srcs1)" by (cases s)
    note P = P [unfolded s prod.case]
    have fit: "src_fit p (nth_src k srcs1) \<and> before rank B (nth_src k srcs1)" if "k < 3" for k
      using conjunct1 [OF P, rule_format, OF that] by blast
    have con: "\<forall>op\<in>set ops1. indep op k" if "k < i" "ref_const (reference (nth_src k srcs1)) \<noteq> None" for k
      using conjunct1 [OF P, rule_format, OF order.strict_trans [OF that(1) i]] that by blast
    have eq: "same_vals e ops srcs ops1 srcs1" for e using conjunct2 [OF P] by blast
    note sb = src_as_bool_fit [OF conjunct1 [OF fit [OF i]]]
    have "\<exists>ops2. (case ref_const (reference (nth_src i srcs1)) of None \<Rightarrow> Some ops1 | Some b \<Rightarrow> mapM (fix_src i b) ops1) = Some ops2 \<and>
        (ref_const (reference (nth_src i srcs1)) \<noteq> None \<longrightarrow> (\<forall>op\<in>set ops2. indep op i)) \<and>
        (\<forall>k<3. (\<forall>op\<in>set ops1. indep op k) \<longrightarrow> (\<forall>op\<in>set ops2. indep op k)) \<and> (\<forall>e. same_vals e ops1 srcs1 ops2 srcs1)"
    proof (cases "ref_const (reference (nth_src i srcs1))")
      case (Some b)
      then show ?thesis using fix_all [OF i Some, of ops1] fit [OF i] by (simp add: src_fit_def)
    qed (simp add: list.rel_refl)
    then obtain ops2 where ops2: "(case ref_const (reference (nth_src i srcs1)) of None \<Rightarrow> Some ops1 | Some b \<Rightarrow> mapM (fix_src i b) ops1) = Some ops2"
      "ref_const (reference (nth_src i srcs1)) \<noteq> None \<Longrightarrow> \<forall>op\<in>set ops2. indep op i"
      "\<And>k. k < 3 \<Longrightarrow> \<forall>op\<in>set ops1. indep op k \<Longrightarrow> \<forall>op\<in>set ops2. indep op k" "\<And>e. same_vals e ops1 srcs1 ops2 srcs1" by blast
    let ?srcs = "if list_ex (\<lambda>u. u) (map (\<lambda>op. \<not> indep op i) ops2) then srcs1 else with_src i (src_of_ref unused) srcs1"
    have f: "?f i s = Some (ops2, ?srcs)" using sb ops2(1) mapM_src_used [OF i] by (simp add: s)
    have uf: "src_fit p (src_of_ref unused) \<and> before rank B (src_of_ref unused)"
      using u by (auto simp: src_fit_def src_of_ref_def is_unmodified_def before_def)
    have "same_vals e ops2 srcs1 ops2 ?srcs" for e
      using drop_unused [OF i, of ops2 e srcs1] by (auto simp: list_ex_iff list.rel_refl)
    then have "same_vals e ops srcs ops2 ?srcs" for e
      using same_vals_trans [OF eq [of e]] same_vals_trans [OF ops2(4) [of e]] by blast
    moreover have "\<forall>op\<in>set ops2. indep op k" if "k < Suc i" "ref_const (reference (nth_src k ?srcs)) \<noteq> None" for k
    proof (cases "k = i")
      case True
      with that ops2(2) show ?thesis by (auto simp: list_ex_iff split: if_splits)
    next
      case False
      have k: "k < i" "k < 3" using False that(1) i by linarith+
      then have "nth_src k ?srcs = nth_src k srcs1" using False by simp
      with that(2) have "ref_const (reference (nth_src k srcs1)) \<noteq> None" by (simp only: not_False_eq_True)
      then show ?thesis by (rule ops2(3) [OF k(2) con [OF k(1)]])
    qed
    moreover have "src_fit p (nth_src k ?srcs) \<and> before rank B (nth_src k ?srcs)" if "k < 3" for k
      using fit [OF that] uf that by auto
    ultimately show "\<exists>s'. ?f i s = Some s' \<and> ?P (Suc i) s'"
      unfolding f by (intro exI [of _ "(ops2, ?srcs)"]) (simp only: prod.case simp_thms, blast)
  qed
  then show ?thesis unfolding fix_consts_def srcs_ok_def by fastforce
qed

text \<open>A source that may be complemented.\<close>

definition neg_fit :: "Src \<Rightarrow> bool" where
  "neg_fit s \<longleftrightarrow> modifier s \<in> {ModNone, BNot} \<and> swizzle s = SwNone"

lemma invert_all:
  assumes "i < 3" "modifier (nth_src i srcs) = BNot"
  shows "\<exists>ops'. mapM (invert_src i) ops = Some ops' \<and>
    (\<forall>e. same_vals e ops srcs ops' (with_src i ((nth_src i srcs)\<lparr>modifier := ModNone\<rparr>) srcs))"
proof -
  let ?srcs = "with_src i ((nth_src i srcs)\<lparr>modifier := ModNone\<rparr>) srcs"
  define R where "R op op' \<longleftrightarrow> (\<forall>t. tab op' t = tab op (with_src i (\<not> nth_src i t) t))" for op op' :: LogicOp3
  have "\<exists>op'. invert_src i op = Some op' \<and> R op op'" for op
    unfolding R_def by (rule bit_invert_src [OF assms(1)])
  then obtain ops' where ops': "mapM (invert_src i) ops = Some ops'" "list_all2 R ops ops'"
    using mapM_total [of ops "invert_src i" R] by blast
  have "lop_val e op srcs = lop_val e op' ?srcs" if "R op op'" for e op op'
  proof (rule lop_val_eqI)
    fix n :: nat assume n: "n < 32"
    have "with_src i (\<not> nth_src i (src_plane e ?srcs n)) (src_plane e ?srcs n) = src_plane e srcs n"
      using assms n by (intro triple_eqI) (auto simp: lop_src_val_def bit_not_iff)
    with that show "tab op (src_plane e srcs n) = tab op' (src_plane e ?srcs n)" by (simp add: R_def del: split_paired_All)
  qed
  then have "same_vals e ops srcs ops' ?srcs" for e by (intro list_all2_mono [OF ops'(2)])
  then show ?thesis using ops'(1) by blast
qed

lemma absorb_bnot_spec:
  assumes srcs: "\<And>i. i < 3 \<Longrightarrow> neg_fit (nth_src i srcs)"
  shows "\<exists>ops' srcs'. absorb_bnot ops srcs = Some (ops', srcs') \<and>
    (\<forall>i<3. is_unmodified (nth_src i srcs') \<and> reference (nth_src i srcs') = reference (nth_src i srcs)) \<and>
    (\<forall>e. same_vals e ops srcs ops' srcs')"
proof -
  let ?P = "\<lambda>n (ops', srcs'). (\<forall>i<3. neg_fit (nth_src i srcs') \<and> reference (nth_src i srcs') = reference (nth_src i srcs) \<and>
     (i < n \<longrightarrow> is_unmodified (nth_src i srcs'))) \<and> (\<forall>e. same_vals e ops srcs ops' srcs')"
  let ?f = "\<lambda>i (ops, srcs). do {
         b \<leftarrow> mod_is_bnot (modifier (nth_src i srcs));
         if b then do {
           ops \<leftarrow> mapM (invert_src i) ops;
           Some (ops, with_src i ((nth_src i srcs)\<lparr>modifier := ModNone\<rparr>) srcs)
         } else Some (ops, srcs)
       }"
  have "\<exists>s. foldM ?f [0..<3] (ops, srcs) = Some s \<and> ?P 3 s"
  proof (rule foldM_upt [where P = ?P])
    show "?P 0 (ops, srcs)" using srcs by (simp add: list.rel_refl)
  next
    fix i s assume i: "i < 3" and P: "?P i s"
    obtain ops1 srcs1 where s: "s = (ops1, srcs1)" by (cases s)
    note P = P [unfolded s prod.case]
    have fit: "neg_fit (nth_src k srcs1) \<and> reference (nth_src k srcs1) = reference (nth_src k srcs) \<and> (k < i \<longrightarrow> is_unmodified (nth_src k srcs1))"
      if "k < 3" for k using conjunct1 [OF P, rule_format, OF that] by blast
    show "\<exists>s'. ?f i s = Some s' \<and> ?P (Suc i) s'"
    proof (cases "modifier (nth_src i srcs1) = BNot")
      case True
      from invert_all [OF i True, of ops1] obtain ops2 where ops2: "mapM (invert_src i) ops1 = Some ops2"
        "\<And>e. same_vals e ops1 srcs1 ops2 (with_src i ((nth_src i srcs1)\<lparr>modifier := ModNone\<rparr>) srcs1)" by blast
      have "same_vals e ops srcs ops2 (with_src i ((nth_src i srcs1)\<lparr>modifier := ModNone\<rparr>) srcs1)" for e
        using same_vals_trans conjunct2 [OF P] ops2(2) by blast
      then show ?thesis using fit i ops2(1) True
        by (auto simp: s neg_fit_def is_unmodified_def less_Suc_eq)
    next
      case False
      then have "modifier (nth_src i srcs1) = ModNone" "is_unmodified (nth_src i srcs1)"
        using fit [OF i] by (auto simp: neg_fit_def is_unmodified_def)
      then show ?thesis using fit conjunct2 [OF P] by (auto simp: s less_Suc_eq)
    qed
  qed
  then show ?thesis unfolding absorb_bnot_def by fastforce
qed

subsection \<open>Entries\<close>

lemma used_mask_spec:
  assumes ok: "srcs_ok p rank B ops srcs" and op: "op \<in> set ops"
  shows "\<exists>m. used_mask op srcs = Some m \<and> (\<forall>i<3. bit m i \<longleftrightarrow> \<not> indep op i)"
proof -
  let ?P = "\<lambda>n m. \<forall>i<3. bit (m :: u8) i \<longleftrightarrow> i < n \<and> \<not> indep op i"
  have "\<exists>m. used_mask op srcs = Some m \<and> ?P 3 m"
    unfolding used_mask_def
  proof (rule foldM_upt [where P = ?P])
    fix i and m :: u8 assume i: "i < 3" and m: "?P i m"
    have "src_as_bool (nth_src i srcs) = Some (ref_const (reference (nth_src i srcs)))"
      by (rule src_as_bool_fit [of p]) (use ok i in \<open>simp add: srcs_ok_def\<close>)
    moreover have "ref_const (reference (nth_src i srcs)) = None" if "\<not> indep op i" using ok op i that by (auto simp: srcs_ok_def)
    moreover have "bit (push_bit i (1 :: u8)) k \<longleftrightarrow> k = i" if "k < 3" for k
      using i that by (auto simp: bit_push_bit_iff bit_1_iff)
    ultimately show "\<exists>s'. do {
         u \<leftarrow> src_used op i;
         if u then do { b \<leftarrow> src_as_bool (nth_src i srcs); assert_then (b = None) (Some (m OR push_bit i 1)) }
         else Some m } = Some s' \<and> ?P (Suc i) s'"
      using m src_used_indep [OF i, of op] by (auto simp: bit_or_iff less_Suc_eq)
  qed simp
  then show ?thesis by auto
qed

definition dst_fit :: "SSAValue set \<Rightarrow> Dst \<Rightarrow> bool" where
  "dst_fit B d \<longleftrightarrow> (\<forall>r. d = DstSSA r \<longrightarrow> SSARef_comps r = 1 \<and> (\<exists>v\<in>B. SSARef_deref r = [v]))"

lemma entry_ok_counts: "use_counts p' = use_counts p \<Longrightarrow> entry_ok p' rank v ent = entry_ok p rank v ent"
  by (simp add: entry_ok_def src_fit_def)

lemma srcs_ok_counts: "use_counts p' = use_counts p \<Longrightarrow> srcs_ok p' rank B ops srcs = srcs_ok p rank B ops srcs"
  by (simp add: srcs_ok_def src_fit_def)

lemma record_dst_spec:
  assumes inv: "lop_inv rank p" and ok: "srcs_ok p rank B ops srcs" and op: "op \<in> set ops" and d: "dst_fit B d"
  shows "\<exists>p'. record_dst d op srcs p = Some p' \<and> lop_inv rank p' \<and> use_counts p' = use_counts p \<and>
    (\<forall>e. entries_hold e p \<longrightarrow> dst_eq e d (lop_val e op srcs) \<longrightarrow> entries_hold e p')"
proof (cases d)
  case (DstSSA r)
  with d obtain v where v: "v \<in> B" "SSARef_deref r = [v]" "SSARef_comps r = 1" by (auto simp: dst_fit_def)
  from used_mask_spec [OF ok op] obtain m where m: "used_mask op srcs = Some m" "\<forall>i<3. bit m i \<longleftrightarrow> \<not> indep op i" by blast
  let ?ent = "\<lparr>le_op = op, le_srcs_used = m, le_srcs = srcs\<rparr>"
  let ?p = "p\<lparr>ssa_lop := (ssa_lop p)(v \<mapsto> ?ent)\<rparr>"
  have "entry_ok p rank v ?ent" unfolding entry_ok_def
  proof (intro allI impI conjI)
    fix i :: nat assume i: "i < 3"
    show "bit (le_srcs_used ?ent) i \<longleftrightarrow> \<not> indep (le_op ?ent) i" using m(2) i by simp
    have s: "src_fit p (nth_src i srcs)" "before rank B (nth_src i srcs)"
      "ref_const (reference (nth_src i srcs)) \<noteq> None \<Longrightarrow> \<forall>op\<in>set ops. indep op i"
      using ok [unfolded srcs_ok_def, rule_format, OF i] by blast+
    assume "bit (le_srcs_used ?ent) i"
    then have "\<not> indep op i" using m(2) i by simp
    then have "ref_const (reference (nth_src i srcs)) = None" using s(3) op by blast
    then show "src_fit p (nth_src i (le_srcs ?ent))" "ref_const (reference (nth_src i (le_srcs ?ent))) = None"
      "before rank {v} (nth_src i (le_srcs ?ent))"
      using s op v(1) by (auto simp: before_def)
  qed
  then have e: "entry_ok ?p rank v ?ent" by (subst entry_ok_counts [of _ p]) simp_all
  have "entry_ok ?p rank w ent" if "ssa_lop ?p w = Some ent" for w ent
  proof (cases "w = v")
    case False
    with that have "ssa_lop p w = Some ent" by simp
    with inv have "entry_ok p rank w ent" unfolding lop_inv_def by blast
    then show ?thesis by (subst entry_ok_counts [of _ p]) simp_all
  qed (use that e in simp)
  then have "lop_inv rank ?p" unfolding lop_inv_def by blast
  moreover have "record_dst d op srcs p = Some ?p" using DstSSA v m(1) by (simp add: record_dst_def add_lop_def)
  ultimately show ?thesis using DstSSA v by (auto simp: entries_hold_def dst_eq_def)
qed (simp_all add: record_dst_def inv)

subsection \<open>Operations, blocks and functions\<close>

lemma prop_all_spec:
  assumes inv: "lop_inv rank p" and ok: "srcs_ok p rank B ops srcs"
  shows "\<exists>ops' srcs'. prop_all p ops srcs = Some (ops', srcs') \<and> srcs_ok p rank B ops' srcs' \<and>
    length ops' = length ops \<and> (\<forall>e. entries_hold e p \<longrightarrow> same_vals e ops srcs ops' srcs')"
proof -
  let ?P = "\<lambda>s. case s of (ops', srcs') \<Rightarrow> (srcs_ok p rank B ops' srcs' \<and> length ops' = length ops) \<and> (\<forall>e. entries_hold e p \<longrightarrow> same_vals e ops srcs ops' srcs')"
  have "\<exists>s. prop_all p ops srcs = Some s \<and> ?P s"
    unfolding prop_all_def
  proof (rule foldM_total [where P = ?P])
    show "?P (ops, srcs)" using ok by (simp add: list.rel_refl)
  next
    fix i s assume i: "i \<in> set [0..<3]" and P: "?P s"
    obtain ops1 srcs1 where s: "s = (ops1, srcs1)" by (cases s)
    note P = P [unfolded s prod.case]
    from try_prop_spec [OF inv _ conjunct1 [OF conjunct1 [OF P]], of i] i obtain ops2 srcs2 where
      r: "try_prop_to_src p i ops1 srcs1 = Some (ops2, srcs2)" "srcs_ok p rank B ops2 srcs2" "length ops2 = length ops1"
      "\<And>e. entries_hold e p \<Longrightarrow> same_vals e ops1 srcs1 ops2 srcs2" by auto
    have "same_vals e ops srcs ops2 srcs2" if "entries_hold e p" for e
      using same_vals_trans [OF conjunct2 [OF P, rule_format, OF that] r(4) [OF that]] .
    then show "\<exists>s'. (case s of (ops, srcs) \<Rightarrow> try_prop_to_src p i ops srcs) = Some s' \<and> ?P s'"
      using r(1-3) conjunct1 [OF P] by (simp add: s)
  qed
  then show ?thesis by auto
qed

text \<open>
  What an operation has to look like: single-component sources and destinations, known register files,
  counted values, and sources that come before the destinations in some order of the values.
\<close>

definition src_shape :: "Src \<Rightarrow> bool" where
  "src_shape s \<longleftrightarrow> (\<forall>vec. reference s = SrSSA vec \<longrightarrow> SSARef_comps vec = 1 \<and>
     (\<exists>v. SSARef_deref vec = [v] \<and> ssa_file v \<in> Some ` {GPR, UGPR, Pred, UPred}))"

definition dst_values :: "Dst list \<Rightarrow> SSAValue set" where
  "dst_values ds = set (concat (map dst_iter_ssa ds))"

definition lop_shape :: "(SSAValue \<Rightarrow> nat) \<Rightarrow> Dst list \<Rightarrow> Src \<times> Src \<times> Src \<Rightarrow> bool" where
  "lop_shape rank ds srcs \<longleftrightarrow>
     (\<forall>d\<in>set ds. dst_fit (dst_values ds) d) \<and>
     (\<forall>i<3. src_shape (nth_src i srcs) \<and> before rank (dst_values ds) (nth_src i srcs))"

fun lop_ok :: "(SSAValue \<Rightarrow> nat) \<Rightarrow> Op \<Rightarrow> bool" where
  "lop_ok rank (Lop3 op) \<longleftrightarrow> lop_shape rank [lop3_dst op] (lop3_srcs op) \<and> (\<forall>i<3. is_unmodified (nth_src i (lop3_srcs op)))"
| "lop_ok rank (PLop3 op) \<longleftrightarrow> lop_shape rank [fst (plop3_dsts op), snd (plop3_dsts op)] (plop3_srcs op) \<and>
     (\<forall>i<3. neg_fit (nth_src i (plop3_srcs op)))"
| "lop_ok rank _ \<longleftrightarrow> True"

definition all_counted :: "LopPass \<Rightarrow> Instr \<Rightarrow> bool" where
  "all_counted p i \<longleftrightarrow> (\<forall>v\<in>set (counted_uses i). use_counts p v \<noteq> None)"

lemma shape_fit:
  "is_unmodified s \<Longrightarrow> reference s = reference s' \<Longrightarrow> src_shape s' \<Longrightarrow>
    (\<And>v. v \<in> set (ref_ssa_vec (reference s')) \<Longrightarrow> use_counts p v \<noteq> None) \<Longrightarrow> src_fit p s"
  by (auto simp: src_fit_def src_shape_def)

lemma nth_src_in: "i < 3 \<Longrightarrow> nth_src i t \<in> set (triple_list t)"
  by (cases t) (auto simp: nth_src_def)

text \<open>How a stretch of code and the state of the pass change together.\<close>

definition same_frame :: "Instr \<Rightarrow> Instr \<Rightarrow> bool" where
  "same_frame i i' \<longleftrightarrow> in_pred i' = in_pred i \<and> in_deps i' = in_deps i \<and> op_dsts (in_op i') = op_dsts (in_op i) \<and>
     (case in_op i of Lop3 _ \<Rightarrow> \<exists>op. in_op i' = Lop3 op | PLop3 _ \<Rightarrow> \<exists>op. in_op i' = PLop3 op | op \<Rightarrow> in_op i' = op)"

definition eqs :: "Vals \<Rightarrow> Instr list \<Rightarrow> bool" where "eqs e is = list_all (\<lambda>i. lop_eq e (in_op i)) is"

definition lop_rel :: "(SSAValue \<Rightarrow> nat) \<Rightarrow> LopPass \<Rightarrow> Instr list \<Rightarrow> Instr list \<Rightarrow> LopPass \<Rightarrow> bool" where
  "lop_rel rank p is is' p' \<longleftrightarrow> lop_inv rank p' \<and> use_counts p' = use_counts p \<and> list_all2 same_frame is is' \<and>
     (\<forall>e. entries_hold e p \<longrightarrow> (eqs e is' \<longleftrightarrow> eqs e is) \<and> (eqs e is \<longrightarrow> entries_hold e p'))"

lemma lop_rel_append:
  "lop_rel rank p xs xs' p1 \<Longrightarrow> lop_rel rank p1 ys ys' p2 \<Longrightarrow> lop_rel rank p (xs @ ys) (xs' @ ys') p2"
  unfolding lop_rel_def by (auto simp: eqs_def intro: list_all2_appendI)

lemma traverse_rel:
  assumes "lop_inv rank p"
    and "\<And>x p'. x \<in> set xs \<Longrightarrow> lop_inv rank p' \<Longrightarrow> use_counts p' = use_counts p \<Longrightarrow>
      \<exists>y p''. g x p' = Some (y, p'') \<and> lop_rel rank p' (h x) (h y) p''"
  shows "\<exists>ys p'. traverseM g xs p = Some (ys, p') \<and> lop_rel rank p (concat (map h xs)) (concat (map h ys)) p'"
  using assms
proof (induction xs arbitrary: p)
  case Nil
  then show ?case by (simp add: lop_rel_def eqs_def)
next
  case (Cons x xs)
  from Cons.prems(2) [of x p] Cons.prems(1) obtain y p1 where y: "g x p = Some (y, p1)" "lop_rel rank p (h x) (h y) p1" by auto
  then have "lop_inv rank p1" "use_counts p1 = use_counts p" by (simp_all add: lop_rel_def)
  with Cons.IH [of p1] Cons.prems(2) obtain ys p2 where
    ys: "traverseM g xs p1 = Some (ys, p2)" "lop_rel rank p1 (concat (map h xs)) (concat (map h ys)) p2" by auto
  from lop_rel_append [OF y(2) ys(2)] y(1) ys(1) show ?case by auto
qed

lemma opt_lop3_spec:
  assumes inv: "lop_inv rank p" and ok: "lop_shape rank [lop3_dst op] (lop3_srcs op)"
    and un: "\<And>i. i < 3 \<Longrightarrow> is_unmodified (nth_src i (lop3_srcs op))"
    and cnt: "\<And>i v. i < 3 \<Longrightarrow> v \<in> set (ref_ssa_vec (reference (nth_src i (lop3_srcs op)))) \<Longrightarrow> use_counts p v \<noteq> None"
  shows "\<exists>op' p'. opt_lop3 op p = Some (op', p') \<and> lop3_dst op' = lop3_dst op \<and> lop_inv rank p' \<and> use_counts p' = use_counts p \<and>
    (\<forall>e. entries_hold e p \<longrightarrow> (lop_eq e (Lop3 op') \<longleftrightarrow> lop_eq e (Lop3 op)) \<and> (lop_eq e (Lop3 op) \<longrightarrow> entries_hold e p'))"
proof -
  let ?B = "dst_values [lop3_dst op]"
  have fit: "src_fit p (nth_src i (lop3_srcs op)) \<and> before rank ?B (nth_src i (lop3_srcs op))" if "i < 3" for i
    using ok that shape_fit [OF un [OF that] refl _ cnt [OF that]] unfolding lop_shape_def by blast
  have dfit: "dst_fit ?B (lop3_dst op)" using ok by (simp add: lop_shape_def)
  from dedup_spec [OF un, of "lop3_op op"] obtain lop where d: "dedup_srcs (lop3_srcs op) (lop3_op op) = Some lop"
    "\<And>e. lop_val e (lop3_op op) (lop3_srcs op) = lop_val e lop (lop3_srcs op)" by blast
  from fix_consts_spec [OF fit, of SrZero "[lop]"] obtain ops1 srcs1 where f: "fix_consts SrZero [lop] (lop3_srcs op) = Some (ops1, srcs1)"
    "srcs_ok p rank ?B ops1 srcs1" "\<And>e. same_vals e [lop] (lop3_srcs op) ops1 srcs1" by blast
  from prop_all_spec [OF inv f(2)] obtain ops2 srcs2 where r: "prop_all p ops1 srcs1 = Some (ops2, srcs2)"
    "srcs_ok p rank ?B ops2 srcs2" "length ops2 = length ops1" "\<And>e. entries_hold e p \<Longrightarrow> same_vals e ops1 srcs1 ops2 srcs2" by blast
  have "length ops2 = 1" using list_all2_lengthD [OF f(3)] r(3) by simp
  then obtain lop2 where ops2: "ops2 = [lop2]" by (auto simp: length_Suc_conv)
  have val: "lop_val e lop2 srcs2 = lop_val e (lop3_op op) (lop3_srcs op)" if "entries_hold e p" for e
    using same_vals_trans [OF f(3) r(4) [OF that]] d(2) by (simp add: ops2)
  from record_dst_spec [OF inv r(2) _ dfit, of lop2] obtain p' where p': "record_dst (lop3_dst op) lop2 srcs2 p = Some p'"
    "lop_inv rank p'" "use_counts p' = use_counts p"
    "\<And>e. entries_hold e p \<Longrightarrow> dst_eq e (lop3_dst op) (lop_val e lop2 srcs2) \<Longrightarrow> entries_hold e p'" by (auto simp: ops2)
  have "opt_lop3 op p = Some (op\<lparr>lop3_srcs := srcs2, lop3_op := lop2\<rparr>, p')"
    using d(1) f(1) r(1) p'(1) by (simp add: opt_lop3_def ops2)
  then show ?thesis using p' val by auto
qed

lemma opt_plop3_spec:
  assumes inv: "lop_inv rank p" and ok: "lop_shape rank [fst (plop3_dsts op), snd (plop3_dsts op)] (plop3_srcs op)"
    and un: "\<And>i. i < 3 \<Longrightarrow> neg_fit (nth_src i (plop3_srcs op))"
    and cnt: "\<And>i v. i < 3 \<Longrightarrow> v \<in> set (ref_ssa_vec (reference (nth_src i (plop3_srcs op)))) \<Longrightarrow> use_counts p v \<noteq> None"
  shows "\<exists>op' p'. opt_plop3 op p = Some (op', p') \<and> plop3_dsts op' = plop3_dsts op \<and> lop_inv rank p' \<and> use_counts p' = use_counts p \<and>
    (\<forall>e. entries_hold e p \<longrightarrow> (lop_eq e (PLop3 op') \<longleftrightarrow> lop_eq e (PLop3 op)) \<and> (lop_eq e (PLop3 op) \<longrightarrow> entries_hold e p'))"
proof -
  let ?ds = "[fst (plop3_dsts op), snd (plop3_dsts op)]" and ?ops = "[fst (plop3_ops op), snd (plop3_ops op)]"
  let ?B = "dst_values ?ds" and ?s = "plop3_srcs op"
  from absorb_bnot_spec [OF un, of ?ops] obtain ops0 srcs0 where a: "absorb_bnot ?ops ?s = Some (ops0, srcs0)"
    "\<And>i. i < 3 \<Longrightarrow> is_unmodified (nth_src i srcs0) \<and> reference (nth_src i srcs0) = reference (nth_src i ?s)"
    "\<And>e. same_vals e ?ops ?s ops0 srcs0" by blast
  have fit: "src_fit p (nth_src i srcs0) \<and> before rank ?B (nth_src i srcs0)" if "i < 3" for i
  proof
    have sh: "src_shape (nth_src i ?s)" "before rank ?B (nth_src i ?s)" using ok that unfolding lop_shape_def by blast+
    show "src_fit p (nth_src i srcs0)" using a(2) [OF that] sh(1) cnt [OF that] by (intro shape_fit [of _ "nth_src i ?s"]) auto
    show "before rank ?B (nth_src i srcs0)" using a(2) [OF that] sh(2) by (simp add: before_def)
  qed
  have dfit: "dst_fit ?B (fst (plop3_dsts op))" "dst_fit ?B (snd (plop3_dsts op))" using ok by (simp_all add: lop_shape_def)
  have un0: "is_unmodified (nth_src i srcs0)" if "i < 3" for i using a(2) [OF that] by simp
  from dedup_spec [OF un0] mapM_total [of ops0 "dedup_srcs srcs0" "\<lambda>op op'. \<forall>e. lop_val e op srcs0 = lop_val e op' srcs0"]
  obtain ops1 where d: "mapM (dedup_srcs srcs0) ops0 = Some ops1" "list_all2 (\<lambda>op op'. \<forall>e. lop_val e op srcs0 = lop_val e op' srcs0) ops0 ops1"
    by blast
  have d2: "same_vals e ops0 srcs0 ops1 srcs0" for e by (rule list_all2_mono [OF d(2)]) simp
  from fix_consts_spec [OF fit, of SrTrue ops1] obtain ops2 srcs2 where f: "fix_consts SrTrue ops1 srcs0 = Some (ops2, srcs2)"
    "srcs_ok p rank ?B ops2 srcs2" "\<And>e. same_vals e ops1 srcs0 ops2 srcs2" by blast
  from prop_all_spec [OF inv f(2)] obtain ops3 srcs3 where r: "prop_all p ops2 srcs2 = Some (ops3, srcs3)"
    "srcs_ok p rank ?B ops3 srcs3" "length ops3 = length ops2" "\<And>e. entries_hold e p \<Longrightarrow> same_vals e ops2 srcs2 ops3 srcs3" by blast
  have "length ops3 = 2"
    using list_all2_lengthD [OF a(3)] list_all2_lengthD [OF d2] list_all2_lengthD [OF f(3)] r(3) by simp
  then obtain op0 op1 where ops3: "ops3 = [op0, op1]" by (auto simp: length_Suc_conv numeral_2_eq_2)
  have "same_vals e ?ops ?s ops3 srcs3" if "entries_hold e p" for e
    by (rule same_vals_trans [OF a(3) same_vals_trans [OF d2 same_vals_trans [OF f(3) r(4) [OF that]]]])
  then have val: "lop_val e (fst (plop3_ops op)) ?s = lop_val e op0 srcs3" "lop_val e (snd (plop3_ops op)) ?s = lop_val e op1 srcs3"
    if "entries_hold e p" for e using that by (simp_all add: ops3)
  from record_dst_spec [OF inv r(2) _ dfit(1), of op0] obtain p1 where p1: "record_dst (fst (plop3_dsts op)) op0 srcs3 p = Some p1"
    "lop_inv rank p1" "use_counts p1 = use_counts p"
    "\<And>e. entries_hold e p \<Longrightarrow> dst_eq e (fst (plop3_dsts op)) (lop_val e op0 srcs3) \<Longrightarrow> entries_hold e p1" by (auto simp: ops3)
  have "srcs_ok p1 rank ?B ops3 srcs3" using r(2) srcs_ok_counts [OF p1(3)] by blast
  from record_dst_spec [OF p1(2) this _ dfit(2), of op1] obtain p2 where p2: "record_dst (snd (plop3_dsts op)) op1 srcs3 p1 = Some p2"
    "lop_inv rank p2" "use_counts p2 = use_counts p1"
    "\<And>e. entries_hold e p1 \<Longrightarrow> dst_eq e (snd (plop3_dsts op)) (lop_val e op1 srcs3) \<Longrightarrow> entries_hold e p2" by (auto simp: ops3)
  have "opt_plop3 op p = Some (op\<lparr>plop3_srcs := srcs3, plop3_ops := (op0, op1)\<rparr>, p2)"
    using a(1) d(1) f(1) r(1) p1(1) p2(1) by (simp add: opt_plop3_def ops3)
  then show ?thesis using p1 p2 val by auto
qed

lemma lop_instr_spec:
  assumes inv: "lop_inv rank p" and ok: "lop_ok rank (in_op i)" and cnt: "all_counted p i"
  shows "\<exists>i' p'. lop_instr i p = Some (i', p') \<and> lop_rel rank p [i] [i'] p'"
proof -
  have c: "use_counts p v \<noteq> None" if "triple_list t = op_srcs (in_op i)"
    "k < 3" "v \<in> set (ref_ssa_vec (reference (nth_src k t)))" for t k v
    using cnt that(3) nth_src_in [OF that(2), of t] unfolding that(1) by (auto simp: all_counted_def counted_uses_def)
  show ?thesis
  proof (cases "in_op i")
    case (Lop3 op)
    have sh: "lop_shape rank [lop3_dst op] (lop3_srcs op)" "\<And>k. k < 3 \<Longrightarrow> is_unmodified (nth_src k (lop3_srcs op))"
      using ok Lop3 by auto
    have t: "triple_list (lop3_srcs op) = op_srcs (in_op i)" using Lop3 by simp
    have "\<exists>op' p'. opt_lop3 op p = Some (op', p') \<and> lop3_dst op' = lop3_dst op \<and> lop_inv rank p' \<and> use_counts p' = use_counts p \<and>
        (\<forall>e. entries_hold e p \<longrightarrow> (lop_eq e (Lop3 op') \<longleftrightarrow> lop_eq e (Lop3 op)) \<and> (lop_eq e (Lop3 op) \<longrightarrow> entries_hold e p'))"
      by (rule opt_lop3_spec [OF inv sh(1)]) (fact sh(2), rule c [OF t])
    then show ?thesis using Lop3 by (auto simp: lop_instr_def lop_rel_def eqs_def same_frame_def)
  next
    case (PLop3 op)
    have sh: "lop_shape rank [fst (plop3_dsts op), snd (plop3_dsts op)] (plop3_srcs op)" "\<And>k. k < 3 \<Longrightarrow> neg_fit (nth_src k (plop3_srcs op))"
      using ok PLop3 by auto
    have t: "triple_list (plop3_srcs op) = op_srcs (in_op i)" using PLop3 by simp
    have "\<exists>op' p'. opt_plop3 op p = Some (op', p') \<and> plop3_dsts op' = plop3_dsts op \<and> lop_inv rank p' \<and> use_counts p' = use_counts p \<and>
        (\<forall>e. entries_hold e p \<longrightarrow> (lop_eq e (PLop3 op') \<longleftrightarrow> lop_eq e (PLop3 op)) \<and> (lop_eq e (PLop3 op) \<longrightarrow> entries_hold e p'))"
      by (rule opt_plop3_spec [OF inv sh(1)]) (fact sh(2), rule c [OF t])
    then show ?thesis using PLop3 by (auto simp: lop_instr_def lop_rel_def eqs_def same_frame_def)
  qed (simp_all add: lop_instr_def lop_rel_def eqs_def same_frame_def inv)
qed

lemma lop_block_spec:
  assumes inv: "lop_inv rank p" and "\<And>i. i \<in> set (bb_instrs b) \<Longrightarrow> lop_ok rank (in_op i) \<and> all_counted p i"
  shows "\<exists>b' p'. lop_block b p = Some (b', p') \<and> lop_rel rank p (bb_instrs b) (bb_instrs b') p'"
proof -
  have "\<exists>is p'. traverseM lop_instr (bb_instrs b) p = Some (is, p') \<and>
      lop_rel rank p (concat (map (\<lambda>i. [i]) (bb_instrs b))) (concat (map (\<lambda>i. [i]) is)) p'"
  proof (rule traverse_rel [OF inv])
    fix i p' assume "i \<in> set (bb_instrs b)" "lop_inv rank p'" "use_counts p' = use_counts p"
    then show "\<exists>y p''. lop_instr i p' = Some (y, p'') \<and> lop_rel rank p' [i] [y] p''"
      using assms(2) [of i] by (intro lop_instr_spec) (simp_all add: all_counted_def)
  qed
  then show ?thesis by (auto simp: lop_block_def)
qed

lemma count_uses:
  assumes "length vs + N < 2 ^ 32" "\<And>v c. m v = Some c \<Longrightarrow> unat c \<le> N"
  shows "\<exists>m'. foldM lp_count vs m = Some m' \<and> dom m' = dom m \<union> set vs"
  using assms
proof (induction vs arbitrary: m N)
  case (Cons v vs)
  have "\<exists>m1. lp_count v m = Some m1 \<and> dom m1 = insert v (dom m) \<and> (\<forall>w c. m1 w = Some c \<longrightarrow> unat c \<le> Suc N)"
  proof (cases "m v")
    case None
    then show ?thesis using Cons.prems(2) by (auto simp: lp_count_def le_SucI)
  next
    case (Some c)
    have c: "unat c \<le> N" using Cons.prems(2) [OF Some] .
    then have "unat c \<noteq> 2 ^ 32 - 1" using Cons.prems(1) by simp
    then have c1: "c \<noteq> - 1" by (auto simp: unsigned_minus_1_eq_mask mask_eq_exp_minus_1)
    have "unat (c + 1) \<le> Suc (unat c)" by (metis unat_word_ariths(1) unat_1 mod_less_eq_dividend add.commute plus_1_eq_Suc)
    then have "unat (c + 1) \<le> Suc N" using c by simp
    then show ?thesis using c1 Some Cons.prems(2) by (auto simp: lp_count_def le_SucI)
  qed
  then obtain m1 where m1: "lp_count v m = Some m1" "dom m1 = insert v (dom m)" "\<And>w c. m1 w = Some c \<Longrightarrow> unat c \<le> Suc N" by blast
  from Cons.IH [of "Suc N" m1] Cons.prems(1) m1(3) obtain m2 where "foldM lp_count vs m1 = Some m2" "dom m2 = dom m1 \<union> set vs" by auto
  with m1 show ?case by auto
qed simp

text \<open>
  A function the pass is made for: logic operations on single values, fewer than $2^{32}$ uses, and an
  order of the values in which every logic operation comes after its sources, as in SSA form.
\<close>

definition lop_wf :: "(SSAValue \<Rightarrow> nat) \<Rightarrow> Function \<Rightarrow> bool" where
  "lop_wf rank f \<longleftrightarrow> list_all (\<lambda>i. lop_ok rank (in_op i)) (fn_instrs f) \<and>
     length (concat (map counted_uses (fn_instrs f))) < 2 ^ 32"

lemma lp_new_spec:
  assumes "length (concat (map counted_uses (fn_instrs f))) < 2 ^ 32"
  shows "\<exists>p. lp_new f = Some p \<and> ssa_lop p = Map.empty \<and> (\<forall>i\<in>set (fn_instrs f). all_counted p i)"
proof -
  obtain m where "foldM lp_count (concat (map counted_uses (fn_instrs f))) Map.empty = Some m"
    "dom m = set (concat (map counted_uses (fn_instrs f)))"
    using count_uses [of "concat (map counted_uses (fn_instrs f))" 0 Map.empty] assms by auto
  then show ?thesis by (fastforce simp: lp_new_def foldM_concat all_counted_def)
qed

text \<open>
  Property C14.  \<^verbatim>\<open>opt_lop\<close> ends without a panic on every well-formed function, changes nothing but the tables
  and sources of logic operations, and keeps their meaning: an environment satisfies the equations
  ``destination = table of the sources'' of the result exactly when it satisfies those of the original.
\<close>

theorem opt_lop_keeps_equations:
  assumes "lop_wf rank f"
  shows "\<exists>f'. opt_lop f = Some f' \<and> list_all2 same_frame (fn_instrs f) (fn_instrs f') \<and>
    (\<forall>e. eqs e (fn_instrs f') \<longleftrightarrow> eqs e (fn_instrs f))"
proof -
  obtain p where p: "lp_new f = Some p" "ssa_lop p = Map.empty" "\<forall>i\<in>set (fn_instrs f). all_counted p i"
    using lp_new_spec assms unfolding lop_wf_def by blast
  have inv: "lop_inv rank p" and hold: "entries_hold e p" for e using p(2) by (simp_all add: lop_inv_def entries_hold_def)
  have "\<exists>bs p'. traverseM lop_block (cfg_blocks (fn_blocks f)) p = Some (bs, p') \<and>
      lop_rel rank p (concat (map bb_instrs (cfg_blocks (fn_blocks f)))) (concat (map bb_instrs bs)) p'"
  proof (rule traverse_rel [OF inv])
    fix b p' assume "b \<in> set (cfg_blocks (fn_blocks f))" "lop_inv rank p'" "use_counts p' = use_counts p"
    then show "\<exists>y p''. lop_block b p' = Some (y, p'') \<and> lop_rel rank p' (bb_instrs b) (bb_instrs y) p''"
      using assms p(3) by (intro lop_block_spec) (auto simp: lop_wf_def list_all_iff fn_instrs_def all_counted_def)
  qed
  then obtain bs p' where bs: "traverseM lop_block (cfg_blocks (fn_blocks f)) p = Some (bs, p')"
    "lop_rel rank p (fn_instrs f) (concat (map bb_instrs bs)) p'" by (auto simp: fn_instrs_def)
  have "opt_lop f = Some (f\<lparr>fn_blocks := (fn_blocks f)\<lparr>cfg_blocks := bs\<rparr>\<rparr>)"
    using p(1) bs(1) by (simp add: opt_lop_def lop_run_def)
  moreover have "list_all2 same_frame (fn_instrs f) (concat (map bb_instrs bs))" "eqs e (concat (map bb_instrs bs)) \<longleftrightarrow> eqs e (fn_instrs f)" for e
    using bs(2) hold by (simp_all add: lop_rel_def)
  ultimately show ?thesis by (simp add: fn_instrs_def)
qed

text \<open>An instance: \<open>v2 = v1 AND 0xffffffff\<close>, \<open>v3 = v2 XOR v1\<close>, \<open>p4 = NOT p5 AND PT\<close>.\<close>

declare try_prop_to_src.simps [code]

definition lop_ref :: "u32 \<Rightarrow> SSARef" where "lop_ref i = the (SSARef_new [\<lparr>ssa_packed = i\<rparr>])"

definition lop_demo :: Function where
  "lop_demo = \<lparr>fn_ssa_alloc = \<lparr>sa_count = 5\<rparr>, fn_phi_alloc = pa_new,
     fn_blocks = cfg_default\<lparr>cfg_blocks := [\<lparr>bb_label = 0, bb_uniform = False, bb_instrs =
       [instr_new (Lop3 \<lparr>lop3_dst = DstSSA (lop_ref 2),
          lop3_srcs = (src_of_ref (SrSSA (lop_ref 1)), src_of_ref (Imm32 (- 1)), src_of_ref SrZero), lop3_op = to_lut LAnd\<rparr>),
        instr_new (Lop3 \<lparr>lop3_dst = DstSSA (lop_ref 3),
          lop3_srcs = (src_of_ref (SrSSA (lop_ref 2)), src_of_ref (SrSSA (lop_ref 1)), src_of_ref SrZero), lop3_op = to_lut LXor\<rparr>),
        instr_new (PLop3 \<lparr>plop3_dsts = (DstSSA (lop_ref 4), DstNone),
          plop3_srcs = ((src_of_ref (SrSSA (lop_ref 5)))\<lparr>modifier := BNot\<rparr>, src_of_ref SrTrue, src_of_ref SrTrue),
          plop3_ops = (to_lut LAnd, new_const False)\<rparr>)]\<rparr>]\<rparr>\<rparr>"

lemma lop_ref_simps:
  "SSARef_deref (lop_ref 1) = [\<lparr>ssa_packed = 1\<rparr>]" "SSARef_deref (lop_ref 2) = [\<lparr>ssa_packed = 2\<rparr>]"
  "SSARef_deref (lop_ref 3) = [\<lparr>ssa_packed = 3\<rparr>]" "SSARef_deref (lop_ref 4) = [\<lparr>ssa_packed = 4\<rparr>]"
  "SSARef_deref (lop_ref 5) = [\<lparr>ssa_packed = 5\<rparr>]"
  "SSARef_comps (lop_ref 1) = 1" "SSARef_comps (lop_ref 2) = 1" "SSARef_comps (lop_ref 3) = 1"
  "SSARef_comps (lop_ref 4) = 1" "SSARef_comps (lop_ref 5) = 1"
  "ssa_file \<lparr>ssa_packed = 1\<rparr> = Some GPR" "ssa_file \<lparr>ssa_packed = 2\<rparr> = Some GPR" "ssa_file \<lparr>ssa_packed = 5\<rparr> = Some GPR"
  by code_simp+

lemma all3: "(\<forall>i<3. P i) \<longleftrightarrow> P 0 \<and> P 1 \<and> P (2 :: nat)"
  by (auto dest: upto3)

lemma lop_demo_wf: "lop_wf (\<lambda>v. [9, 0, 1, 2, 3, 0] ! unat (ssa_packed v)) lop_demo"
proof -
  have "length (concat (map counted_uses (fn_instrs lop_demo))) = 4" by code_simp
  then show ?thesis unfolding lop_wf_def
    by (simp add: lop_demo_def fn_instrs_def instr_new_def cfg_default_def lop_shape_def all3 nth_src_def src_shape_def
      dst_values_def dst_fit_def lop_ref_simps before_def src_of_ref_def is_unmodified_def neg_fit_def)
qed

theorem opt_lop_keeps_equations_witness:
  "\<exists>f'. opt_lop lop_demo = Some f' \<and> list_all2 same_frame (fn_instrs lop_demo) (fn_instrs f') \<and>
    (\<forall>e. eqs e (fn_instrs f') \<longleftrightarrow> eqs e (fn_instrs lop_demo))"
  by (rule opt_lop_keeps_equations [OF lop_demo_wf])

end
