(* ===== verification/JumpThread.thy ===== *)
theory JumpThread
  imports Ir
begin

text \<open>
  Jump threading, \<^verbatim>\<open>codegen/opt_jump_thread.rs\<close>, with the removal of dead convergence marks of
  \<^verbatim>\<open>codegen/opt_crs.rs\<close>.  Branches to trivial blocks are shown to be replaced by branches that reach the
  same exits in the same state, for every meaning of the instructions, and the rebuilt edges to be the
  ones the branches take.
\<close>

subsection \<open>The pass\<close>

fun clone_branch :: "Op \<Rightarrow> Op option" where
  "clone_branch (Bra target cnd) = do { t \<leftarrow> src_is_true cnd; assert_then t (Some (Bra target cnd)) }"
| "clone_branch Exit = Some Exit"
| "clone_branch _ = None"

type_synonym Replacements = "Label \<rightharpoonup> Op"

text \<open>The branch of a block after the replacement, and whether there was progress.\<close>

definition thread_branch :: "Replacements \<Rightarrow> Op \<Rightarrow> (Op \<times> bool) option" where
  "thread_branch reps op =
     (case op of
        Bra target cnd \<Rightarrow>
          (case reps target of
             None \<Rightarrow> Some (op, False)
           | Some replacement \<Rightarrow> do {
               always \<leftarrow> src_is_true cnd;
               if always then do { op' \<leftarrow> clone_branch replacement; Some (op', True) }
               else case replacement of
                 Bra target' _ \<Rightarrow> Some (Bra target' cnd, True)
               | _ \<Rightarrow> Some (op, False)
             })
      | _ \<Rightarrow> Some (op, False))"

definition thread_last :: "Replacements \<Rightarrow> Instr list \<Rightarrow> (Instr list \<times> bool) option" where
  "thread_last reps is =
     (if is = [] then Some ([], False)
      else do {
        (op, progress) \<leftarrow> thread_branch reps (in_op (last is));
        Some (butlast is @ [(last is)\<lparr>in_op := op\<rparr>], progress)
      })"

definition add_replacement :: "BasicBlock list \<Rightarrow> nat \<Rightarrow> Replacements \<Rightarrow> Replacements option" where
  "add_replacement bs i reps =
     do {
       b \<leftarrow> index bs i;
       case bb_instrs b of
         [instr] \<Rightarrow> do {
           t \<leftarrow> is_branch_always_taken instr;
           if t then do { op \<leftarrow> clone_branch (in_op instr); Some (reps(bb_label b \<mapsto> op)) } else Some reps
         }
       | [] \<Rightarrow>
           if i + 1 < length bs then do {
             next \<leftarrow> index bs (i + 1);
             let target_label = bb_label next;
             op \<leftarrow> (case reps target_label of
                      None \<Rightarrow> Some (Bra target_label (src_of_ref (sr_of_bool True)))
                    | Some r \<Rightarrow> clone_branch r);
             Some (reps(bb_label b \<mapsto> op))
           } else Some reps
       | _ \<Rightarrow> Some reps
     }"

definition thread_block :: "nat \<Rightarrow> BasicBlock list \<times> Replacements \<times> bool \<Rightarrow> (BasicBlock list \<times> Replacements \<times> bool) option" where
  "thread_block i st =
     (case st of (bs, reps, progress) \<Rightarrow> do {
        b \<leftarrow> index bs i;
        (is, p) \<leftarrow> thread_last reps (bb_instrs b);
        let bs = bs[i := b\<lparr>bb_instrs := is\<rparr>];
        reps \<leftarrow> add_replacement bs i reps;
        Some (bs, reps, progress \<or> p)
      })"

text \<open>Collecting into a hash map: of two blocks with one label the later wins.\<close>

definition label_to_idx :: "BasicBlock list \<Rightarrow> Label \<rightharpoonup> nat" where
  "label_to_idx bs = map_of (rev (List.zip (map bb_label bs) [0..<length bs]))"

definition block_edges :: "BasicBlock list \<Rightarrow> nat \<Rightarrow> BasicBlock CFGBuilder \<Rightarrow> BasicBlock CFGBuilder option" where
  "block_edges bs i builder =
     do {
       b \<leftarrow> index bs i;
       falls \<leftarrow> falls_through b;
       let builder = (if falls then cb_add_edge builder i (i + 1) else builder);
       case branch b of
         None \<Rightarrow> Some builder
       | Some instr \<Rightarrow>
           (case in_op instr of
              Bra target _ \<Rightarrow>
                Some (case label_to_idx bs target of None \<Rightarrow> builder | Some to \<Rightarrow> cb_add_edge builder i to)
            | Exit \<Rightarrow> Some builder
            | _ \<Rightarrow> None)
     }"

definition rewrite_cfg :: "Function \<Rightarrow> Function option" where
  "rewrite_cfg f =
     (let bs = cfg_blocks (fn_blocks f) in
      do {
        builder \<leftarrow> foldM (block_edges bs) [0..<length bs] cb_new;
        let builder = fold (\<lambda>b builder. snd (cb_add_block builder b)) bs builder;
        Some (f\<lparr>fn_blocks := cb_build builder\<rparr>)
      })"

definition set_blocks :: "BasicBlock list \<Rightarrow> Function \<Rightarrow> Function" where
  "set_blocks bs f = f\<lparr>fn_blocks := (fn_blocks f)\<lparr>cfg_blocks := bs\<rparr>\<rparr>"

definition jump_thread :: "Function \<Rightarrow> (Function \<times> bool) option" where
  "jump_thread f =
     (let bs = cfg_blocks (fn_blocks f) in
      do {
        (bs, _, progress) \<leftarrow> foldM thread_block (rev [0..<length bs]) (bs, Map.empty, False);
        let f = set_blocks bs f;
        f \<leftarrow> (if progress then rewrite_cfg f else Some f);
        Some (f, progress)
      })"

definition drops_branch :: "BasicBlock list \<Rightarrow> nat \<Rightarrow> bool" where
  "drops_branch bs i =
     (case branch (bs ! i) of
        Some b \<Rightarrow> (case in_op b of Bra target _ \<Rightarrow> target = bb_label (bs ! (i + 1)) | _ \<Rightarrow> False)
      | None \<Rightarrow> False)"

text \<open>\<^verbatim>\<open>blocks.len() - 1\<close> underflows without blocks; every index below is in range.\<close>

definition opt_fall_through :: "Function \<Rightarrow> Function option" where
  "opt_fall_through f =
     (let bs = cfg_blocks (fn_blocks f) in
      assert_then (bs \<noteq> [])
        (Some (set_blocks
          (fold (\<lambda>i bs. if drops_branch bs i then bs[i := (bs ! i)\<lparr>bb_instrs := butlast (bb_instrs (bs ! i))\<rparr>] else bs)
             [0..<length bs - 1] bs) f)))"

definition opt_jump_thread :: "Function \<Rightarrow> Function option" where
  "opt_jump_thread f = do { (f, progress) \<leftarrow> jump_thread f; if progress then opt_fall_through f else Some f }"

subsection \<open>Dead convergence marks\<close>

fun crs_target :: "Op \<Rightarrow> Label option" where
  "crs_target (Sync target) = Some target" | "crs_target (Brk target) = Some target"
| "crs_target (Cont target) = Some target" | "crs_target _ = None"

definition live_targets :: "Function \<Rightarrow> Label set" where
  "live_targets f = fold (\<lambda>b s.
       if bb_instrs b = [] then s
       else case crs_target (in_op (last (bb_instrs b))) of None \<Rightarrow> s | Some l \<Rightarrow> insert l s)
     (cfg_blocks (fn_blocks f)) {}"

definition crs_keep :: "Label set \<Rightarrow> Op \<Rightarrow> bool" where
  "crs_keep live op = (case op of SSy target \<Rightarrow> target \<in> live | PBk target \<Rightarrow> target \<in> live | PCnt target \<Rightarrow> target \<in> live | _ \<Rightarrow> True)"

definition opt_crs :: "Function \<Rightarrow> Function" where
  "opt_crs f = fn_map_instrs (\<lambda>i. if crs_keep (live_targets f) (in_op i) then [i] else []) f"

subsection \<open>Runs to an exit\<close>

text \<open>
  The meaning of instructions, given from outside: the effect of an instruction that is not a branch,
  and the truth of guards and branch conditions.
\<close>

record 'm BranchSem =
  bs_exec :: "Instr \<Rightarrow> 'm \<Rightarrow> 'm"
  bs_pred :: "Predicate \<Rightarrow> 'm \<Rightarrow> bool"
  bs_cond :: "Src \<Rightarrow> 'm \<Rightarrow> bool"

definition branch_sem_ok :: "'m BranchSem \<Rightarrow> bool" where
  "branch_sem_ok sem \<longleftrightarrow> (\<forall>c m. src_is_true c = Some True \<longrightarrow> bs_cond sem c m) \<and>
     (\<forall>p m. pred_is_true p \<longrightarrow> bs_pred sem p m)"

fun op_taken :: "'m BranchSem \<Rightarrow> Op \<Rightarrow> 'm \<Rightarrow> bool" where
  "op_taken sem (Bra _ c) m = bs_cond sem c m" | "op_taken sem _ m = True"

definition payload :: "BasicBlock \<Rightarrow> Instr list" where
  "payload b = (case branch b of None \<Rightarrow> bb_instrs b | Some _ \<Rightarrow> butlast (bb_instrs b))"

text \<open>The state at the exit, from block \<open>i\<close>, if the exit is reached within the given number of blocks.\<close>

fun run_exit :: "'m BranchSem \<Rightarrow> BasicBlock list \<Rightarrow> nat \<Rightarrow> nat \<Rightarrow> 'm \<Rightarrow> 'm option" where
  "run_exit sem bs 0 i m = None"
| "run_exit sem bs (Suc n) i m =
     (if i < length bs
      then let m = fold (bs_exec sem) (payload (bs ! i)) m in
        (case branch (bs ! i) of
           None \<Rightarrow> run_exit sem bs n (Suc i) m
         | Some b \<Rightarrow>
             if bs_pred sem (in_pred b) m \<and> op_taken sem (in_op b) m
             then (case in_op b of
                     Exit \<Rightarrow> Some m
                   | Bra l _ \<Rightarrow> (case label_to_idx bs l of None \<Rightarrow> None | Some j \<Rightarrow> run_exit sem bs n j m)
                   | _ \<Rightarrow> None)
             else run_exit sem bs n (Suc i) m)
      else None)"

definition exits :: "'m BranchSem \<Rightarrow> BasicBlock list \<Rightarrow> nat \<Rightarrow> 'm \<Rightarrow> 'm \<Rightarrow> bool" where
  "exits sem bs i m m' \<longleftrightarrow> (\<exists>n. run_exit sem bs n i m = Some m')"

definition run_op :: "'m BranchSem \<Rightarrow> BasicBlock list \<Rightarrow> nat \<Rightarrow> Op \<Rightarrow> 'm \<Rightarrow> 'm option" where
  "run_op sem bs n op m = (case op of
       Exit \<Rightarrow> Some m
     | Bra l _ \<Rightarrow> (case label_to_idx bs l of None \<Rightarrow> None | Some j \<Rightarrow> run_exit sem bs n j m)
     | _ \<Rightarrow> None)"

definition run_block :: "'m BranchSem \<Rightarrow> BasicBlock list \<Rightarrow> nat \<Rightarrow> nat \<Rightarrow> Instr list \<Rightarrow> 'm \<Rightarrow> 'm option" where
  "run_block sem bs n i is m =
     (let b = \<lparr>bb_label = 0, bb_uniform = False, bb_instrs = is\<rparr>; m = fold (bs_exec sem) (payload b) m in
      case branch b of
        None \<Rightarrow> run_exit sem bs n (Suc i) m
      | Some b \<Rightarrow> if bs_pred sem (in_pred b) m \<and> op_taken sem (in_op b) m then run_op sem bs n (in_op b) m
                 else run_exit sem bs n (Suc i) m)"

lemma run_exit_Suc:
  "run_exit sem bs (Suc n) i m = (if i < length bs then run_block sem bs n i (bb_instrs (bs ! i)) m else None)"
  by (simp add: run_block_def run_op_def payload_def branch_def Let_def split: option.splits)

declare run_exit.simps(2) [simp del]

lemma run_exit_mono: "run_exit sem bs n i m = Some m' \<Longrightarrow> run_exit sem bs (Suc n) i m = Some m'"
proof (induction n arbitrary: i m)
  case (Suc n)
  have "run_op sem bs n op m1 = Some m' \<Longrightarrow> run_op sem bs (Suc n) op m1 = Some m'" for op m1
    using Suc.IH by (auto simp: run_op_def split: Op.splits option.splits)
  then have "run_block sem bs n i is m = Some m' \<Longrightarrow> run_block sem bs (Suc n) i is m = Some m'" for "is" m
    using Suc.IH by (auto simp: run_block_def Let_def split: option.splits if_splits)
  with Suc.prems show ?case by (simp add: run_exit_Suc [of sem bs "Suc n"] run_exit_Suc [of sem bs n] split: if_splits)
qed simp

lemma run_exit_le: "n \<le> k \<Longrightarrow> run_exit sem bs n i m = Some m' \<Longrightarrow> run_exit sem bs k i m = Some m'"
  by (induction k) (auto simp: le_Suc_eq dest: run_exit_mono)

lemma run_op_le: "n \<le> k \<Longrightarrow> run_op sem bs n op m = Some m' \<Longrightarrow> run_op sem bs k op m = Some m'"
  by (auto simp: run_op_def split: Op.splits option.splits intro: run_exit_le)

subsection \<open>Equivalent branches\<close>

text \<open>
  A branch that may stand for another: it is taken when the other is, and reaches the same exits, in no
  more blocks.
\<close>

definition op_eqv :: "'m BranchSem \<Rightarrow> BasicBlock list \<Rightarrow> Op \<Rightarrow> Op \<Rightarrow> bool" where
  "op_eqv sem bs op op' \<longleftrightarrow> op_is_branch op = op_is_branch op' \<and> (\<forall>m. op_taken sem op m = op_taken sem op' m) \<and>
     (\<forall>n m m'. run_op sem bs n op m = Some m' \<longrightarrow> run_op sem bs n op' m = Some m') \<and>
     (\<forall>n m m'. run_op sem bs n op' m = Some m' \<longrightarrow> (\<exists>k. run_op sem bs k op m = Some m'))"

lemma op_eqv_refl [simp]: "op_eqv sem bs op op" by (auto simp: op_eqv_def)

definition instrs_eqv :: "'m BranchSem \<Rightarrow> BasicBlock list \<Rightarrow> Instr list \<Rightarrow> Instr list \<Rightarrow> bool" where
  "instrs_eqv sem bs is is' \<longleftrightarrow> is = is' \<or>
     (\<exists>xs i op. is = xs @ [i] \<and> is' = xs @ [i\<lparr>in_op := op\<rparr>] \<and> op_is_branch (in_op i) \<and> op_eqv sem bs (in_op i) op)"

definition blocks_eqv :: "'m BranchSem \<Rightarrow> BasicBlock list \<Rightarrow> BasicBlock list \<Rightarrow> bool" where
  "blocks_eqv sem bs bs' \<longleftrightarrow> map bb_label bs = map bb_label bs' \<and>
     (\<forall>i<length bs. instrs_eqv sem bs (bb_instrs (bs ! i)) (bb_instrs (bs' ! i)))"

lemma label_to_idx_cong: "map bb_label bs = map bb_label bs' \<Longrightarrow> label_to_idx bs = label_to_idx bs'"
  by (metis label_to_idx_def length_map)

lemma run_block_last:
  "op_is_branch (in_op i) \<Longrightarrow> run_block sem bs n j (xs @ [i]) m =
    (let m = fold (bs_exec sem) xs m in
     if bs_pred sem (in_pred i) m \<and> op_taken sem (in_op i) m then run_op sem bs n (in_op i) m else run_exit sem bs n (Suc j) m)"
  by (simp add: run_block_def payload_def branch_def is_branch_def Let_def)

lemma blocks_eqv_run:
  assumes "blocks_eqv sem bs bs'"
  shows "run_exit sem bs n i m = Some m' \<Longrightarrow> run_exit sem bs' n i m = Some m'"
proof (induction n arbitrary: i m)
  case (Suc n)
  note L = label_to_idx_cong [OF conjunct1 [OF assms [unfolded blocks_eqv_def]]]
  have len: "length bs = length bs'" using assms by (auto simp: blocks_eqv_def dest: map_eq_imp_length_eq)
  have op: "run_op sem bs n op m1 = Some m' \<Longrightarrow> run_op sem bs' n op m1 = Some m'" for op m1
    using Suc.IH by (auto simp: run_op_def L split: Op.splits option.splits)
  have i: "i < length bs" "run_block sem bs n i (bb_instrs (bs ! i)) m = Some m'"
    using Suc.prems unfolding run_exit_Suc by (auto split: if_splits)
  have "run_block sem bs' n i (bb_instrs (bs' ! i)) m = Some m'"
    using conjunct2 [OF assms [unfolded blocks_eqv_def], rule_format, OF i(1)] unfolding instrs_eqv_def
  proof (elim disjE exE conjE)
    assume "bb_instrs (bs ! i) = bb_instrs (bs' ! i)"
    then show ?thesis using i(2) op Suc.IH
      by (auto simp: run_block_def Let_def split: option.splits if_splits)
  next
    fix xs j op' assume e: "bb_instrs (bs ! i) = xs @ [j]" "bb_instrs (bs' ! i) = xs @ [j\<lparr>in_op := op'\<rparr>]"
      and br: "op_is_branch (in_op j)" and ev: "op_eqv sem bs (in_op j) op'"
    then show ?thesis using i(2) op Suc.IH
      by (auto simp: run_block_last op_eqv_def Let_def split: if_splits)
  qed
  then show ?case using i(1) len by (simp add: run_exit_Suc)
qed simp

lemma run_block_back:
  assumes "\<And>op m1. run_op sem bs' n op m1 = Some m' \<Longrightarrow> \<exists>k. run_op sem bs k op m1 = Some m'"
    and "\<And>i m. run_exit sem bs' n i m = Some m' \<Longrightarrow> \<exists>k. run_exit sem bs k i m = Some m'"
    and "run_block sem bs' n i is m = Some m'"
  shows "\<exists>k. run_block sem bs k i is m = Some m'"
  using assms unfolding run_block_def Let_def
  by (cases "branch \<lparr>bb_label = 0, bb_uniform = False, bb_instrs = is\<rparr>") (simp, auto split: if_splits)

lemma blocks_eqv_run_back:
  assumes "blocks_eqv sem bs bs'"
  shows "run_exit sem bs' n i m = Some m' \<Longrightarrow> \<exists>k. run_exit sem bs k i m = Some m'"
proof (induction n arbitrary: i m)
  case (Suc n)
  note L = label_to_idx_cong [OF conjunct1 [OF assms [unfolded blocks_eqv_def]]]
  have len: "length bs = length bs'" using assms by (auto simp: blocks_eqv_def dest: map_eq_imp_length_eq)
  have op: "run_op sem bs' n op m1 = Some m' \<Longrightarrow> \<exists>k. run_op sem bs k op m1 = Some m'" for op m1
    using Suc.IH by (auto simp: run_op_def L split: Op.splits option.splits)
  have i: "i < length bs" "run_block sem bs' n i (bb_instrs (bs' ! i)) m = Some m'"
    using Suc.prems unfolding run_exit_Suc len by (auto split: if_splits)
  have "\<exists>k. run_block sem bs k i (bb_instrs (bs ! i)) m = Some m'"
    using conjunct2 [OF assms [unfolded blocks_eqv_def], rule_format, OF i(1)] unfolding instrs_eqv_def
  proof (elim disjE exE conjE)
    assume "bb_instrs (bs ! i) = bb_instrs (bs' ! i)"
    then show ?thesis using i(2) op Suc.IH run_block_back [of sem bs' n m' bs] by simp
  next
    fix xs j op' assume e: "bb_instrs (bs ! i) = xs @ [j]" "bb_instrs (bs' ! i) = xs @ [j\<lparr>in_op := op'\<rparr>]"
      and br: "op_is_branch (in_op j)" and ev: "op_eqv sem bs (in_op j) op'"
    then have br': "op_is_branch (in_op (j\<lparr>in_op := op'\<rparr>))" by (simp add: op_eqv_def)
    let ?m = "fold (bs_exec sem) xs m"
    show ?thesis
    proof (cases "bs_pred sem (in_pred j) ?m \<and> op_taken sem (in_op j) ?m")
      case True
      then have "run_op sem bs' n op' ?m = Some m'"
        using i(2) ev unfolding e run_block_last [OF br'] by (simp add: op_eqv_def Let_def)
      with op ev obtain k where "run_op sem bs k (in_op j) ?m = Some m'" unfolding op_eqv_def by blast
      with True show ?thesis unfolding e run_block_last [OF br] by (auto simp: Let_def)
    next
      case False
      then have "run_exit sem bs' n (Suc i) ?m = Some m'"
        using i(2) ev unfolding e run_block_last [OF br'] by (auto simp: op_eqv_def Let_def)
      with Suc.IH False show ?thesis unfolding e run_block_last [OF br] by (auto simp: Let_def)
    qed
  qed
  then obtain k where "run_block sem bs k i (bb_instrs (bs ! i)) m = Some m'" by blast
  then have "run_exit sem bs (Suc k) i m = Some m'" using i(1) by (simp add: run_exit_Suc)
  then show ?case by blast
qed simp

lemma blocks_eqv_exits: "blocks_eqv sem bs bs' \<Longrightarrow> exits sem bs' i m m' \<longleftrightarrow> exits sem bs i m m'"
  unfolding exits_def by (metis blocks_eqv_run blocks_eqv_run_back)

subsection \<open>Replacements\<close>

lemma op_eqv_trans: "op_eqv sem bs op op1 \<Longrightarrow> op_eqv sem bs op1 op2 \<Longrightarrow> op_eqv sem bs op op2"
  unfolding op_eqv_def by (metis (no_types, lifting))

text \<open>The branches the pass accepts, and blocks with branches at their end only.\<close>

fun br_ok :: "Op \<Rightarrow> bool" where
  "br_ok (Bra _ c) \<longleftrightarrow> src_is_true c \<noteq> None" | "br_ok Exit \<longleftrightarrow> True" | "br_ok op \<longleftrightarrow> \<not> op_is_branch op"

definition instrs_ok :: "Instr list \<Rightarrow> bool" where
  "instrs_ok is \<longleftrightarrow> list_all (\<lambda>i. \<not> is_branch i) (butlast is) \<and> (is \<noteq> [] \<longrightarrow> br_ok (in_op (last is)))"

definition jt_ok :: "BasicBlock list \<Rightarrow> bool" where
  "jt_ok bs \<longleftrightarrow> distinct (map bb_label bs) \<and> list_all (\<lambda>b. instrs_ok (bb_instrs b)) bs"

lemma label_index: "distinct (map bb_label bs) \<Longrightarrow> i < length bs \<Longrightarrow> label_to_idx bs (bb_label (bs ! i)) = Some i"
  unfolding label_to_idx_def
  by (rule map_of_is_SomeI) (force simp: rev_map [symmetric] set_zip)+

definition reps_ok :: "'m BranchSem \<Rightarrow> BasicBlock list \<Rightarrow> Replacements \<Rightarrow> bool" where
  "reps_ok sem bs reps \<longleftrightarrow> (\<forall>l r. reps l = Some r \<longrightarrow> clone_branch r = Some r \<and>
     (\<forall>c n m m'. run_op sem bs n (Bra l c) m = Some m' \<longrightarrow> run_op sem bs n r m = Some m') \<and>
     (\<forall>c n m m'. run_op sem bs n r m = Some m' \<longrightarrow> (\<exists>k. run_op sem bs k (Bra l c) m = Some m')))"

lemma clone_cases: "clone_branch r = Some r \<Longrightarrow> r = Exit \<or> (\<exists>l c. r = Bra l c \<and> src_is_true c = Some True)"
  by (cases r) (auto simp: assert_then_eq_Some split: bind_splits)

lemma thread_branch_spec:
  assumes sem: "branch_sem_ok sem" and reps: "reps_ok sem bs reps" and ok: "br_ok op"
  shows "\<exists>op' p. thread_branch reps op = Some (op', p) \<and> op_eqv sem bs op op' \<and> br_ok op' \<and> (\<not> op_is_branch op \<or> \<not> p \<longrightarrow> op' = op)"
proof (cases "\<exists>l c r. op = Bra l c \<and> reps l = Some r")
  case True
  then obtain l c r where op: "op = Bra l c" and r: "reps l = Some r" by blast
  from reps r have R: "clone_branch r = Some r"
    "\<And>c n m m'. run_op sem bs n (Bra l c) m = Some m' \<Longrightarrow> run_op sem bs n r m = Some m'"
    "\<And>c n m m'. run_op sem bs n r m = Some m' \<Longrightarrow> \<exists>k. run_op sem bs k (Bra l c) m = Some m'"
    unfolding reps_ok_def by blast+
  obtain t where t: "src_is_true c = Some t" using ok op by auto
  show ?thesis
  proof (cases t)
    case True
    have "op_taken sem op m" for m using sem t True op by (simp add: branch_sem_ok_def)
    moreover have "op_taken sem r m \<and> op_is_branch r" for m using clone_cases [OF R(1)] sem by (auto simp: branch_sem_ok_def)
    ultimately have "op_eqv sem bs op r" using R(2,3) by (simp add: op_eqv_def op)
    moreover have "br_ok r" using clone_cases [OF R(1)] by auto
    ultimately show ?thesis using R(1) t True r by (simp add: thread_branch_def op, blast)
  next
    case False
    from clone_cases [OF R(1)] show ?thesis
    proof (elim disjE exE conjE)
      fix l' c' assume "r = Bra l' c'"
      moreover have "run_op sem bs n (Bra l' c) m = run_op sem bs n (Bra l' c') m" for n m by (simp add: run_op_def)
      ultimately have "op_eqv sem bs op (Bra l' c)" using R(2,3) by (auto simp: op_eqv_def op)
      with t False r \<open>r = Bra l' c'\<close> show ?thesis by (simp add: thread_branch_def op, blast)
    qed (use t False r in \<open>intro exI [of _ op] exI [of _ False], simp add: thread_branch_def op\<close>)
  qed
next
  case False
  then have "thread_branch reps op = Some (op, False)" by (cases op) (auto simp: thread_branch_def split: option.splits)
  with ok show ?thesis by (simp, blast)
qed

lemma thread_last_spec:
  assumes sem: "branch_sem_ok sem" and reps: "reps_ok sem bs reps" and ok: "instrs_ok is"
  shows "\<exists>is' p. thread_last reps is = Some (is', p) \<and> instrs_eqv sem bs is is' \<and> instrs_ok is' \<and> (\<not> p \<longrightarrow> is' = is)"
proof (cases "is = []")
  case True
  then show ?thesis by (simp add: thread_last_def instrs_eqv_def instrs_ok_def, blast)
next
  case False
  then have isl: "is = butlast is @ [last is]" by simp
  from thread_branch_spec [OF sem reps, of "in_op (last is)"] ok False obtain op p where
    op: "thread_branch reps (in_op (last is)) = Some (op, p)" "op_eqv sem bs (in_op (last is)) op" "br_ok op"
      "\<not> op_is_branch (in_op (last is)) \<or> \<not> p \<longrightarrow> op = in_op (last is)" by (auto simp: instrs_ok_def)
  let ?is = "butlast is @ [(last is)\<lparr>in_op := op\<rparr>]"
  have "instrs_eqv sem bs is ?is"
  proof (cases "op_is_branch (in_op (last is))")
    case True
    with op(2) show ?thesis unfolding instrs_eqv_def by (intro disjI2 exI [of _ "butlast is"] exI [of _ "last is"] exI [of _ op]) (simp add: False)
  next
    case False
    with op(4) isl show ?thesis by (simp add: instrs_eqv_def)
  qed
  moreover have "instrs_ok ?is" using ok op(3) by (simp add: instrs_ok_def)
  moreover have "?is = is" if "\<not> p" using op(4) that isl by simp
  ultimately show ?thesis using op(1) False by (simp add: thread_last_def)
qed

lemma instrs_eqv_trans: "instrs_eqv sem bs is is1 \<Longrightarrow> instrs_eqv sem bs is1 is2 \<Longrightarrow> instrs_eqv sem bs is is2"
proof (cases "is = is1 \<or> is1 = is2")
  case False
  assume e: "instrs_eqv sem bs is is1" "instrs_eqv sem bs is1 is2"
  with False obtain xs i op ys j op2 where
    1: "is = xs @ [i]" "is1 = xs @ [i\<lparr>in_op := op\<rparr>]" "op_is_branch (in_op i)" "op_eqv sem bs (in_op i) op" and
    2: "is1 = ys @ [j]" "is2 = ys @ [j\<lparr>in_op := op2\<rparr>]" "op_eqv sem bs (in_op j) op2"
    unfolding instrs_eqv_def by blast
  from 1(2) 2(1) have j: "ys = xs" "j = i\<lparr>in_op := op\<rparr>" by simp_all
  have "op_eqv sem bs (in_op i) op2" using op_eqv_trans [OF 1(4)] 2(3) j by simp
  with 1 2(2) j show ?thesis unfolding instrs_eqv_def by auto
qed auto

text \<open>A trivial block: what it falls or branches to stands for it.\<close>

lemma reps_ok_upd:
  assumes "reps_ok sem bs reps" "clone_branch r = Some r" "label_to_idx bs l = Some i"
    and "\<And>n m m'. run_exit sem bs n i m = Some m' \<Longrightarrow> run_op sem bs n r m = Some m'"
    and "\<And>n m m'. run_op sem bs n r m = Some m' \<Longrightarrow> \<exists>k. run_exit sem bs k i m = Some m'"
  shows "reps_ok sem bs (reps(l \<mapsto> r))"
proof -
  have "run_op sem bs n (Bra l c) m = run_exit sem bs n i m" for n c m using assms(3) by (simp add: run_op_def)
  with assms show ?thesis unfolding reps_ok_def by (simp add: fun_upd_apply)
qed

lemma instrs_eqv_single: "instrs_eqv sem bs is [j] \<Longrightarrow> op_is_branch (in_op j) \<Longrightarrow>
    \<exists>i. is = [i] \<and> in_pred j = in_pred i \<and> op_is_branch (in_op i) \<and> op_eqv sem bs (in_op i) (in_op j)"
  unfolding instrs_eqv_def by (auto simp: append_eq_Cons_conv Cons_eq_append_conv)

lemma always_taken_cases:
  assumes "instrs_ok [j]"
  shows "\<exists>t. is_branch_always_taken j = Some t \<and> (t \<longrightarrow> pred_is_true (in_pred j) \<and> op_is_branch (in_op j) \<and> clone_branch (in_op j) = Some (in_op j))"
  using assms by (cases "in_op j") (auto simp: is_branch_always_taken_def instrs_ok_def is_branch_def)

lemma add_replacement_spec:
  assumes sem: "branch_sem_ok sem" and ok: "jt_ok bs" and reps: "reps_ok sem bs reps"
    and eqv: "blocks_eqv sem bs bs'" and ok': "list_all (\<lambda>b. instrs_ok (bb_instrs b)) bs'" and i: "i < length bs"
  shows "\<exists>reps'. add_replacement bs' i reps = Some reps' \<and> reps_ok sem bs reps'"
proof -
  have labs: "map bb_label bs = map bb_label bs'" using eqv by (simp add: blocks_eqv_def)
  have len: "length bs' = length bs" using map_eq_imp_length_eq [OF labs] by simp
  have lab: "bb_label (bs' ! j) = bb_label (bs ! j)" if "j < length bs" for j
    using arg_cong [OF labs, of "\<lambda>ls. ls ! j"] that len by simp
  have idx: "label_to_idx bs (bb_label (bs' ! j)) = Some j" if "j < length bs" for j
    using ok that lab [OF that] label_index by (simp add: jt_ok_def)
  have ie: "instrs_eqv sem bs (bb_instrs (bs ! i)) (bb_instrs (bs' ! i))" using eqv i by (simp add: blocks_eqv_def)
  have b: "index bs' i = Some (bs' ! i)" using i len by (simp add: index_def)
  consider (one) j where "bb_instrs (bs' ! i) = [j]" | (none) "bb_instrs (bs' ! i) = []" "i + 1 < length bs"
    | (other) "\<nexists>j. bb_instrs (bs' ! i) = [j]" "bb_instrs (bs' ! i) = [] \<longrightarrow> \<not> i + 1 < length bs" by blast
  then show ?thesis
  proof cases
    case one
    then have "instrs_ok [j]" using ok' i len by (metis list_all_length)
    then obtain t where t: "is_branch_always_taken j = Some t"
      "t \<Longrightarrow> pred_is_true (in_pred j) \<and> op_is_branch (in_op j) \<and> clone_branch (in_op j) = Some (in_op j)"
      using always_taken_cases by blast
    show ?thesis
    proof (cases t)
      case True
      obtain k where k: "bb_instrs (bs ! i) = [k]" "in_pred j = in_pred k" "op_is_branch (in_op k)" "op_eqv sem bs (in_op k) (in_op j)"
        using instrs_eqv_single ie one t(2) [OF True] by metis
      have "bs_pred sem (in_pred k) m \<and> op_taken sem (in_op k) m" for m
      proof
        show "bs_pred sem (in_pred k) m" using t(2) [OF True] k(2) sem by (simp add: branch_sem_ok_def)
        have "op_taken sem (in_op j) m" using clone_cases [of "in_op j"] t(2) [OF True] sem by (auto simp: branch_sem_ok_def)
        then show "op_taken sem (in_op k) m" using k(4) by (simp add: op_eqv_def)
      qed
      then have r: "run_exit sem bs (Suc n) i m = run_op sem bs n (in_op k) m" for n m
        using i run_block_last [OF k(3), of sem bs n i "[]" m] by (simp add: run_exit_Suc k(1))
      have "reps_ok sem bs (reps(bb_label (bs' ! i) \<mapsto> in_op j))"
      proof (rule reps_ok_upd [OF reps _ idx [OF i]])
        show "clone_branch (in_op j) = Some (in_op j)" using t(2) [OF True] by simp
        fix n m m'
        show "run_op sem bs n (in_op j) m = Some m'" if "run_exit sem bs n i m = Some m'"
          using that r k(4) run_op_le [of "n - 1" n sem bs "in_op j" m m'] by (cases n) (auto simp: op_eqv_def)
        show "\<exists>k. run_exit sem bs k i m = Some m'" if "run_op sem bs n (in_op j) m = Some m'"
          using that r k(4) unfolding op_eqv_def by metis
      qed
      then show ?thesis using one t(1) t(2) [OF True] True b by (simp add: add_replacement_def)
    qed (use one t(1) b reps in \<open>simp add: add_replacement_def\<close>)
  next
    case none
    let ?l = "bb_label (bs' ! Suc i)"
    define r where "r = (case reps ?l of None \<Rightarrow> Bra ?l (src_of_ref (sr_of_bool True)) | Some r \<Rightarrow> r)"
    have rc: "clone_branch r = Some r"
      using reps by (auto simp: r_def reps_ok_def src_is_true_def as_bool_def src_of_ref_def sr_of_bool_def split: option.splits)
    have f: "(case reps ?l of None \<Rightarrow> Some (Bra ?l (src_of_ref (sr_of_bool True))) | Some r \<Rightarrow> clone_branch r) = Some r"
      using reps by (auto simp: r_def reps_ok_def split: option.splits)
    have n1: "index bs' (Suc i) = Some (bs' ! Suc i)" using none(2) len by (simp add: index_def)
    have "bb_instrs (bs ! i) = []" using ie none(1) by (simp add: instrs_eqv_def)
    then have run: "run_exit sem bs (Suc n) i m = run_exit sem bs n (Suc i) m" for n m
      using i by (simp add: run_exit_Suc run_block_def payload_def branch_def)
    have l: "run_op sem bs n (Bra ?l c) m = run_exit sem bs n (Suc i) m" for n c m
      using idx [OF none(2)] by (simp add: run_op_def)
    have fw: "run_op sem bs n r m = Some m'" if "run_exit sem bs n (Suc i) m = Some m'" for n m m'
      using that reps l unfolding r_def reps_ok_def by (cases "reps ?l") auto
    have bw: "\<exists>k. run_exit sem bs k (Suc i) m = Some m'" if "run_op sem bs n r m = Some m'" for n m m'
    proof (cases "reps ?l")
      case (Some q)
      then have "run_op sem bs n q m = Some m'" using that by (simp add: r_def)
      with reps Some have "\<exists>k. run_op sem bs k (Bra ?l (src_of_ref SrTrue)) m = Some m'" unfolding reps_ok_def by blast
      then show ?thesis unfolding l .
    qed (use that l in \<open>auto simp: r_def\<close>)
    have "reps_ok sem bs (reps(bb_label (bs' ! i) \<mapsto> r))"
    proof (rule reps_ok_upd [OF reps rc idx [OF i]])
      fix n m m'
      show "run_op sem bs n r m = Some m'" if "run_exit sem bs n i m = Some m'"
        using that run fw run_op_le [of "n - 1" n sem bs r m m'] by (cases n) auto
      show "\<exists>k. run_exit sem bs k i m = Some m'" if "run_op sem bs n r m = Some m'"
        using bw [OF that] run by metis
    qed
    moreover have "add_replacement bs' i reps = Some (reps(bb_label (bs' ! i) \<mapsto> r))"
      using none b n1 f len by (simp add: add_replacement_def Let_def)
    ultimately show ?thesis by blast
  next
    case other
    then show ?thesis using b reps len by (cases "bb_instrs (bs' ! i)") (auto simp: add_replacement_def split: list.splits)
  qed
qed

lemma blocks_eqv_update:
  assumes "blocks_eqv sem bs bs'" "i < length bs" "instrs_eqv sem bs (bb_instrs (bs' ! i)) is"
  shows "blocks_eqv sem bs (bs'[i := (bs' ! i)\<lparr>bb_instrs := is\<rparr>])"
proof -
  have labs: "map bb_label bs = map bb_label bs'" and e: "\<And>j. j < length bs \<Longrightarrow> instrs_eqv sem bs (bb_instrs (bs ! j)) (bb_instrs (bs' ! j))"
    using assms(1) by (simp_all add: blocks_eqv_def)
  have len: "length bs' = length bs" using map_eq_imp_length_eq [OF labs] by simp
  have "map bb_label (bs'[i := (bs' ! i)\<lparr>bb_instrs := is\<rparr>]) = map bb_label bs'"
    using assms(2) len by (intro nth_equalityI) (simp_all add: nth_list_update)
  moreover have "instrs_eqv sem bs (bb_instrs (bs ! j)) (bb_instrs (bs'[i := (bs' ! i)\<lparr>bb_instrs := is\<rparr>] ! j))" if "j < length bs" for j
    using e [OF that] instrs_eqv_trans [OF e [OF assms(2)] assms(3)] that len by (cases "j = i") simp_all
  ultimately show ?thesis using labs by (simp add: blocks_eqv_def)
qed

definition thread_inv :: "'m BranchSem \<Rightarrow> BasicBlock list \<Rightarrow> BasicBlock list \<times> Replacements \<times> bool \<Rightarrow> bool" where
  "thread_inv sem bs st \<longleftrightarrow> (case st of (bs', reps, progress) \<Rightarrow>
     blocks_eqv sem bs bs' \<and> reps_ok sem bs reps \<and> list_all (\<lambda>b. instrs_ok (bb_instrs b)) bs' \<and> (\<not> progress \<longrightarrow> bs' = bs))"

lemma thread_block_spec:
  assumes sem: "branch_sem_ok sem" and ok: "jt_ok bs" and inv: "thread_inv sem bs st" and i: "i < length bs"
  shows "\<exists>st'. thread_block i st = Some st' \<and> thread_inv sem bs st'"
proof -
  obtain bs' reps progress where st: "st = (bs', reps, progress)" by (cases st)
  have eqv: "blocks_eqv sem bs bs'" and reps: "reps_ok sem bs reps" and ok': "list_all (\<lambda>b. instrs_ok (bb_instrs b)) bs'"
    using inv by (simp_all add: thread_inv_def st)
  have len: "length bs' = length bs"
    using map_eq_imp_length_eq [OF conjunct1 [OF eqv [unfolded blocks_eqv_def]]] by simp
  have "instrs_ok (bb_instrs (bs' ! i))" using ok' i len by (simp add: list_all_length)
  from thread_last_spec [OF sem reps this] obtain is1 p where is1:
    "thread_last reps (bb_instrs (bs' ! i)) = Some (is1, p)" "instrs_eqv sem bs (bb_instrs (bs' ! i)) is1" "instrs_ok is1"
    "\<not> p \<longrightarrow> is1 = bb_instrs (bs' ! i)" by blast
  let ?bs = "bs'[i := (bs' ! i)\<lparr>bb_instrs := is1\<rparr>]"
  have e: "blocks_eqv sem bs ?bs" by (rule blocks_eqv_update [OF eqv i is1(2)])
  have o: "list_all (\<lambda>b. instrs_ok (bb_instrs b)) ?bs"
    using ok' is1(3) len i by (auto simp: list_all_length nth_list_update)
  from add_replacement_spec [OF sem ok reps e o i] obtain reps' where
    "add_replacement ?bs i reps = Some reps'" "reps_ok sem bs reps'" by blast
  moreover have "\<not> p \<longrightarrow> ?bs = bs'" using is1(4) by simp
  ultimately show ?thesis using e o is1(1) i len inv by (auto simp: thread_block_def st thread_inv_def index_def Let_def)
qed

subsection \<open>Edges\<close>

text \<open>The blocks that may follow a block.\<close>

definition flow :: "BasicBlock list \<Rightarrow> nat \<Rightarrow> nat list" where
  "flow bs i = (if falls_through (bs ! i) = Some True then [Suc i] else []) @
     (case branch (bs ! i) of
        None \<Rightarrow> []
      | Some b \<Rightarrow> (case in_op b of
            Bra l _ \<Rightarrow> (case label_to_idx bs l of None \<Rightarrow> [] | Some j \<Rightarrow> [j])
          | _ \<Rightarrow> []))"

definition edges_match :: "BasicBlock CFG \<Rightarrow> bool" where
  "edges_match g \<longleftrightarrow> (\<forall>i<length (cfg_blocks g). set (successors g i) = set (flow (cfg_blocks g) i))"

lemma falls_through_ok:
  assumes "instrs_ok (bb_instrs b)"
  shows "\<exists>t. falls_through b = Some t"
  using assms by (cases "in_op (last (bb_instrs b))")
    (auto simp: falls_through_def branch_def instrs_ok_def is_branch_def is_branch_always_taken_def)

lemma block_edges_spec:
  assumes "i < length bs" "instrs_ok (bb_instrs (bs ! i))"
  shows "\<exists>b'. block_edges bs i b = Some b' \<and> cb_blocks b' = cb_blocks b \<and>
    cb_edges b' = cb_edges b @ map (\<lambda>j. \<lparr>e_from = i, e_to = j\<rparr>) (flow bs i)"
proof -
  obtain t where t: "falls_through (bs ! i) = Some t" using falls_through_ok [OF assms(2)] by blast
  have br: "br_ok (in_op k) \<and> is_branch k" if "branch (bs ! i) = Some k" for k
    using that assms(2) by (auto simp: branch_def instrs_ok_def split: if_splits)
  show ?thesis
  proof (cases "branch (bs ! i)")
    case None
    with t assms(1) show ?thesis by (simp add: block_edges_def index_def flow_def cb_add_edge_def)
  next
    case (Some k)
    with br [OF Some] t assms(1) show ?thesis
      by (cases "in_op k") (auto simp: block_edges_def index_def flow_def cb_add_edge_def is_branch_def split: option.splits)
  qed
qed

lemma all_edges_spec:
  assumes "\<And>i. i < length bs \<Longrightarrow> instrs_ok (bb_instrs (bs ! i))"
  shows "\<exists>b. foldM (block_edges bs) [0..<length bs] cb_new = Some b \<and> cb_blocks b = [] \<and>
    cb_edges b = concat (map (\<lambda>i. map (\<lambda>j. \<lparr>e_from = i, e_to = j\<rparr>) (flow bs i)) [0..<length bs])"
proof -
  let ?P = "\<lambda>n b. cb_blocks b = [] \<and> cb_edges b = concat (map (\<lambda>i. map (\<lambda>j. \<lparr>e_from = i, e_to = j\<rparr>) (flow bs i)) [0..<n])"
  show ?thesis
  proof (rule foldM_upt [where P = ?P])
    show "?P 0 cb_new" by (simp add: cb_new_def)
    fix i and b :: "BasicBlock CFGBuilder" assume i: "i < length bs" "?P i b"
    from block_edges_spec [OF i(1) assms [OF i(1)], of b] i(2)
    show "\<exists>b'. block_edges bs i b = Some b' \<and> ?P (Suc i) b'" by auto
  qed
qed

lemma rewrite_cfg_spec:
  assumes "list_all (\<lambda>b. instrs_ok (bb_instrs b)) (cfg_blocks (fn_blocks f))"
  shows "\<exists>f'. rewrite_cfg f = Some f' \<and> cfg_blocks (fn_blocks f') = cfg_blocks (fn_blocks f) \<and> edges_match (fn_blocks f')"
proof -
  let ?bs = "cfg_blocks (fn_blocks f)"
  obtain b where b: "foldM (block_edges ?bs) [0..<length ?bs] cb_new = Some b" "cb_blocks b = []"
    "cb_edges b = concat (map (\<lambda>i. map (\<lambda>j. \<lparr>e_from = i, e_to = j\<rparr>) (flow ?bs i)) [0..<length ?bs])"
    using all_edges_spec [of ?bs] assms by (auto simp: list_all_length)
  let ?b = "fold (\<lambda>b builder. snd (cb_add_block builder b)) ?bs b"
  have "cb_blocks (fold (\<lambda>b builder. snd (cb_add_block builder b)) xs b) = cb_blocks b @ xs \<and>
      cb_edges (fold (\<lambda>b builder. snd (cb_add_block builder b)) xs b) = cb_edges b" for xs and b :: "BasicBlock CFGBuilder"
    by (induction xs arbitrary: b) (simp_all add: cb_add_block_def)
  then have bb: "cb_blocks ?b = ?bs" "cb_edges ?b = cb_edges b" using b(2) by simp_all
  have "set (successors (cb_build ?b) i) = set (flow ?bs i)" if "i < length ?bs" for i
    using that by (force simp: build_edges bb b(3))
  then have "edges_match (cb_build ?b)" by (simp add: edges_match_def bb(1))
  with b(1) bb(1) show ?thesis by (simp add: rewrite_cfg_def Let_def)
qed

subsection \<open>Branches to the next block\<close>

lemma run_exit_cong:
  assumes "map bb_label bs' = map bb_label bs"
    and "\<And>i n m. i < length bs \<Longrightarrow> run_block sem bs n i (bb_instrs (bs' ! i)) m = run_block sem bs n i (bb_instrs (bs ! i)) m"
  shows "run_exit sem bs' n i m = run_exit sem bs n i m"
proof (induction n arbitrary: i m)
  case (Suc n)
  note L = label_to_idx_cong [OF assms(1)] and len = map_eq_imp_length_eq [OF assms(1)]
  have "run_op sem bs' n op m1 = run_op sem bs n op m1" for op m1
    using Suc.IH by (simp add: run_op_def L split: Op.splits option.splits)
  then have "run_block sem bs' n i is m = run_block sem bs n i is m" for "is"
    using Suc.IH by (simp add: run_block_def Let_def split: option.split)
  then show ?case using assms(2) len by (simp add: run_exit_Suc)
qed simp

definition pop_inv :: "'m BranchSem \<Rightarrow> BasicBlock list \<Rightarrow> BasicBlock list \<Rightarrow> bool" where
  "pop_inv sem bs bs' \<longleftrightarrow> jt_ok bs' \<and> map bb_label bs' = map bb_label bs \<and>
     (\<forall>n i m. run_exit sem bs' n i m = run_exit sem bs n i m) \<and>
     (\<forall>i<length bs. set (flow bs' i) = set (flow bs i))"

lemma pop_spec:
  assumes ok: "jt_ok bs" and i: "i < length bs - 1" and d: "drops_branch bs i"
  shows "pop_inv sem bs (bs[i := (bs ! i)\<lparr>bb_instrs := butlast (bb_instrs (bs ! i))\<rparr>])" (is "pop_inv sem bs ?bs")
proof -
  have i': "i < length bs" "Suc i < length bs" using i by simp_all
  obtain k c where k: "branch (bs ! i) = Some k" "in_op k = Bra (bb_label (bs ! Suc i)) c"
    using d by (auto simp: drops_branch_def split: option.splits Op.splits)
  let ?xs = "butlast (bb_instrs (bs ! i))"
  have ne: "bb_instrs (bs ! i) \<noteq> []" and lk: "last (bb_instrs (bs ! i)) = k" "is_branch k"
    using k(1) by (auto simp: branch_def split: if_splits)
  then have xs: "bb_instrs (bs ! i) = ?xs @ [k]" by (metis append_butlast_last_id)
  have nb: "\<forall>j\<in>set ?xs. \<not> is_branch j" using ok nth_mem [OF i'(1)] by (auto simp: jt_ok_def list_all_iff instrs_ok_def)
  have nbr: "branch \<lparr>bb_label = l, bb_uniform = u, bb_instrs = ?xs\<rparr> = None" for l u
    using nb by (auto simp: branch_def)
  have nb2: "branch ((bs ! i)\<lparr>bb_instrs := ?xs\<rparr>) = None" using nb by (auto simp: branch_def)
  have labs: "map bb_label ?bs = map bb_label bs"
    using i'(1) by (intro nth_equalityI) (simp_all add: nth_list_update)
  have idx: "label_to_idx bs (bb_label (bs ! Suc i)) = Some (Suc i)" using ok i'(2) by (simp add: jt_ok_def label_index)
  have "run_block sem bs n i ?xs m = run_block sem bs n i (bb_instrs (bs ! i)) m" for n m
  proof -
    have "run_block sem bs n i ?xs m = run_exit sem bs n (Suc i) (fold (bs_exec sem) ?xs m)"
      using nbr by (simp add: run_block_def payload_def)
    moreover have "run_block sem bs n i (?xs @ [k]) m = run_exit sem bs n (Suc i) (fold (bs_exec sem) ?xs m)"
      using lk(2) idx by (simp add: run_block_last is_branch_def Let_def k(2) run_op_def)
    ultimately show ?thesis using xs by simp
  qed
  then have run: "run_exit sem ?bs n j m = run_exit sem bs n j m" for n j m
    by (intro run_exit_cong [OF labs]) (auto simp: nth_list_update i'(1))
  have "instrs_ok ?xs"
    unfolding instrs_ok_def
  proof
    show "list_all (\<lambda>i. \<not> is_branch i) (butlast ?xs)" using nb by (auto simp: list_all_iff dest: in_set_butlastD)
    show "?xs \<noteq> [] \<longrightarrow> br_ok (in_op (last ?xs))"
    proof
      assume "?xs \<noteq> []"
      then have "\<not> op_is_branch (in_op (last ?xs))" using nb last_in_set is_branch_def by metis
      then show "br_ok (in_op (last ?xs))" by (cases "in_op (last ?xs)") simp_all
    qed
  qed
  then have "jt_ok ?bs" using ok labs i'(1) by (auto simp: jt_ok_def list_all_length nth_list_update)
  moreover have "set (flow ?bs j) = set (flow bs j)" if "j < length bs" for j
  proof (cases "j = i")
    case True
    then show ?thesis using i'(1) nb2 k idx by (auto simp: flow_def falls_through_def)
  qed (simp add: flow_def label_to_idx_cong [OF labs])
  ultimately show ?thesis using labs run by (simp add: pop_inv_def)
qed

lemma pop_inv_trans: "pop_inv sem bs bs1 \<Longrightarrow> pop_inv sem bs1 bs2 \<Longrightarrow> pop_inv sem bs bs2"
proof -
  assume a: "pop_inv sem bs bs1" "pop_inv sem bs1 bs2"
  have "length bs1 = length bs" using a(1) map_eq_imp_length_eq unfolding pop_inv_def by blast
  with a show ?thesis by (simp add: pop_inv_def)
qed

lemma opt_fall_through_spec:
  assumes ok: "jt_ok (cfg_blocks (fn_blocks f))" and ne: "cfg_blocks (fn_blocks f) \<noteq> []" and e: "edges_match (fn_blocks f)"
  shows "\<exists>f'. opt_fall_through f = Some f' \<and> edges_match (fn_blocks f') \<and>
    (\<forall>n i m. run_exit sem (cfg_blocks (fn_blocks f')) n i m = run_exit sem (cfg_blocks (fn_blocks f)) n i m) \<and>
    map bb_label (cfg_blocks (fn_blocks f')) = map bb_label (cfg_blocks (fn_blocks f))"
proof -
  let ?bs = "cfg_blocks (fn_blocks f)"
  let ?g = "\<lambda>i bs. if drops_branch bs i then bs[i := (bs ! i)\<lparr>bb_instrs := butlast (bb_instrs (bs ! i))\<rparr>] else bs"
  have "pop_inv sem ?bs (fold ?g is bs')" if "pop_inv sem ?bs bs'" "set is \<subseteq> {..<length ?bs - 1}" for "is" bs'
    using that
  proof (induction "is" arbitrary: bs')
    case (Cons i "is")
    have len: "length bs' = length ?bs" using Cons.prems(1) map_eq_imp_length_eq unfolding pop_inv_def by blast
    have "pop_inv sem ?bs (?g i bs')"
    proof (cases "drops_branch bs' i")
      case True
      have "pop_inv sem bs' (bs'[i := (bs' ! i)\<lparr>bb_instrs := butlast (bb_instrs (bs' ! i))\<rparr>])"
        using Cons.prems len by (intro pop_spec True) (auto simp: pop_inv_def)
      with Cons.prems(1) True show ?thesis by (simp add: pop_inv_trans)
    qed (simp add: Cons.prems)
    from Cons.IH [OF this] Cons.prems(2) show ?case by simp
  qed simp
  moreover have "pop_inv sem ?bs ?bs" using ok by (simp add: pop_inv_def)
  ultimately have p: "pop_inv sem ?bs (fold ?g [0..<length ?bs - 1] ?bs)" by (simp add: atLeast0LessThan)
  let ?f = "set_blocks (fold ?g [0..<length ?bs - 1] ?bs) f"
  have "opt_fall_through f = Some ?f" using ne by (simp add: opt_fall_through_def Let_def)
  moreover have "edges_match (fn_blocks ?f)"
    using e p map_eq_imp_length_eq [of bb_label "fold ?g [0..<length ?bs - 1] ?bs" bb_label ?bs]
    by (simp add: edges_match_def set_blocks_def pop_inv_def successors_def)
  moreover have "cfg_blocks (fn_blocks ?f) = fold ?g [0..<length ?bs - 1] ?bs" by (simp add: set_blocks_def)
  ultimately show ?thesis using p by (simp add: pop_inv_def)
qed

text \<open>
  Property C16.  Jump threading does not panic on blocks whose only branches are a final \<^verbatim>\<open>bra\<close> or \<^verbatim>\<open>exit\<close>,
  and keeps what a function computes: for every meaning of its instructions, from every block and
  state, an exit is reached in a state exactly when the original reaches it in that state.  Edges that
  are the targets of the branches still are.
\<close>

theorem opt_jump_thread_keeps_exits:
  assumes "jt_ok (cfg_blocks (fn_blocks f))" and "branch_sem_ok sem"
  shows "\<exists>f'. opt_jump_thread f = Some f' \<and>
    (\<forall>i m m'. exits sem (cfg_blocks (fn_blocks f')) i m m' \<longleftrightarrow> exits sem (cfg_blocks (fn_blocks f)) i m m') \<and>
    (edges_match (fn_blocks f) \<longrightarrow> edges_match (fn_blocks f'))"
proof -
  let ?bs = "cfg_blocks (fn_blocks f)"
  have "thread_inv sem ?bs (?bs, Map.empty, False)"
    using assms(1) by (simp add: thread_inv_def blocks_eqv_def instrs_eqv_def reps_ok_def jt_ok_def)
  from foldM_total [where P = "thread_inv sem ?bs", OF this, of "rev [0..<length ?bs]" thread_block]
  obtain bs' reps progress where t: "foldM thread_block (rev [0..<length ?bs]) (?bs, Map.empty, False) = Some (bs', reps, progress)"
    "thread_inv sem ?bs (bs', reps, progress)"
    using thread_block_spec [OF assms(2,1)] by auto
  have eqv: "blocks_eqv sem ?bs bs'" and ok': "list_all (\<lambda>b. instrs_ok (bb_instrs b)) bs'"
    using t(2) by (simp_all add: thread_inv_def)
  show ?thesis
  proof (cases progress)
    case False
    then have "bs' = ?bs" using t(2) by (simp add: thread_inv_def)
    then show ?thesis using t(1) False by (simp add: opt_jump_thread_def jump_thread_def Let_def set_blocks_def)
  next
    case True
    have jt: "jt_ok bs'" using assms(1) eqv ok' by (simp add: jt_ok_def blocks_eqv_def)
    obtain f1 where f1: "rewrite_cfg (set_blocks bs' f) = Some f1" "cfg_blocks (fn_blocks f1) = bs'" "edges_match (fn_blocks f1)"
      using rewrite_cfg_spec [of "set_blocks bs' f"] ok' by (auto simp: set_blocks_def)
    have "bs' \<noteq> []" using t(1) True eqv by (auto simp: blocks_eqv_def)
    with opt_fall_through_spec [of f1 sem] jt f1(2,3) obtain f2 where f2: "opt_fall_through f1 = Some f2" "edges_match (fn_blocks f2)"
      "\<And>n i m. run_exit sem (cfg_blocks (fn_blocks f2)) n i m = run_exit sem bs' n i m" by auto
    have "opt_jump_thread f = Some f2" using t(1) True f1(1) f2(1) by (simp add: opt_jump_thread_def jump_thread_def Let_def)
    moreover have "exits sem (cfg_blocks (fn_blocks f2)) i m m' \<longleftrightarrow> exits sem ?bs i m m'" for i m m'
      using f2(3) blocks_eqv_exits [OF eqv] by (simp add: exits_def)
    ultimately show ?thesis using f2(2) by blast
  qed
qed

text \<open>An instance: a conditional branch to a trivial block, and a jump that becomes a fall-through.\<close>

definition jt_bra :: "Label \<Rightarrow> Instr" where "jt_bra l = instr_new (Bra l (src_of_ref SrTrue))"

definition jt_demo :: Function where
  "jt_demo = \<lparr>fn_ssa_alloc = sa_new, fn_phi_alloc = pa_new,
     fn_blocks = cfg_default\<lparr>cfg_blocks :=
       [\<lparr>bb_label = 10, bb_uniform = True, bb_instrs = [(jt_bra 20)\<lparr>in_pred := \<lparr>predicate = PrReg \<lparr>rr_packed = 0\<rparr>, inverted = False\<rparr>\<rparr>]\<rparr>,
        \<lparr>bb_label = 15, bb_uniform = True, bb_instrs = [instr_new (OtherOp (St Local) [] []), jt_bra 20]\<rparr>,
        \<lparr>bb_label = 20, bb_uniform = True, bb_instrs = [jt_bra 30]\<rparr>,
        \<lparr>bb_label = 30, bb_uniform = True, bb_instrs = [instr_new (OtherOp (St Shared) [] []), instr_new Exit]\<rparr>],
       cfg_successors := [0 \<mapsto> [1, 2], 1 \<mapsto> [2], 2 \<mapsto> [3]], cfg_predecessors := [1 \<mapsto> [0], 2 \<mapsto> [0, 1], 3 \<mapsto> [2]]\<rparr>\<rparr>"

definition jt_sem :: "nat BranchSem" where
  "jt_sem = \<lparr>bs_exec = (\<lambda>i m. m + 1), bs_pred = (\<lambda>p m. predicate p = PrNone \<and> \<not> inverted p \<or> m = 0), bs_cond = (\<lambda>c m. True)\<rparr>"

lemma jt_demo_ok: "jt_ok (cfg_blocks (fn_blocks jt_demo))" "branch_sem_ok jt_sem"
  by (simp add: jt_ok_def jt_demo_def jt_bra_def instr_new_def cfg_default_def instrs_ok_def is_branch_def
      src_is_true_def as_bool_def src_of_ref_def)
    (simp add: branch_sem_ok_def jt_sem_def pred_is_true_def)

lemma jt_demo_edges: "edges_match (fn_blocks jt_demo)"
proof -
  have "\<forall>i\<in>set [0..<4]. set (successors (fn_blocks jt_demo) i) = set (flow (cfg_blocks (fn_blocks jt_demo)) i)" by code_simp
  moreover have "length (cfg_blocks (fn_blocks jt_demo)) = 4" by (simp add: jt_demo_def)
  ultimately show ?thesis by (simp add: edges_match_def)
qed

theorem opt_jump_thread_keeps_exits_witness:
  "\<exists>f'. opt_jump_thread jt_demo = Some f' \<and>
    (\<forall>i m m'. exits jt_sem (cfg_blocks (fn_blocks f')) i m m' \<longleftrightarrow> exits jt_sem (cfg_blocks (fn_blocks jt_demo)) i m m') \<and>
    edges_match (fn_blocks f') \<and>
    map (\<lambda>b. map in_op (bb_instrs b)) (cfg_blocks (fn_blocks f')) =
      [[Bra 30 (src_of_ref SrTrue)], [OtherOp (St Local) [] [], Bra 30 (src_of_ref SrTrue)], [], [OtherOp (St Shared) [] [], Exit]]"
proof -
  have "map_option (\<lambda>f'. map (\<lambda>b. map in_op (bb_instrs b)) (cfg_blocks (fn_blocks f'))) (opt_jump_thread jt_demo) =
    Some [[Bra 30 (src_of_ref SrTrue)], [OtherOp (St Local) [] [], Bra 30 (src_of_ref SrTrue)], [], [OtherOp (St Shared) [] [], Exit]]"
    by code_simp
  with opt_jump_thread_keeps_exits [OF jt_demo_ok] jt_demo_edges show ?thesis by auto
qed

text \<open>What \<^verbatim>\<open>opt_crs\<close> leaves: every mark of convergence that some block ends by jumping to.\<close>

lemma live_targets_iff:
  "l \<in> live_targets f \<longleftrightarrow> (\<exists>b\<in>set (cfg_blocks (fn_blocks f)). bb_instrs b \<noteq> [] \<and> crs_target (in_op (last (bb_instrs b))) = Some l)"
proof -
  let ?g = "\<lambda>b s. if bb_instrs b = [] then s
       else case crs_target (in_op (last (bb_instrs b))) of None \<Rightarrow> s | Some l \<Rightarrow> insert l s"
  have "l \<in> fold ?g bs s \<longleftrightarrow> l \<in> s \<or> (\<exists>b\<in>set bs. bb_instrs b \<noteq> [] \<and> crs_target (in_op (last (bb_instrs b))) = Some l)" for bs :: "BasicBlock list" and s
    by (induction bs arbitrary: s) (auto split: option.splits)
  then show ?thesis by (simp add: live_targets_def)
qed

lemma opt_crs_instrs: "fn_instrs (opt_crs f) = filter (\<lambda>i. crs_keep (live_targets f) (in_op i)) (fn_instrs f)"
proof -
  have "concat (map (\<lambda>i. if P i then [i] else []) xs) = filter P xs" for P and xs :: "Instr list" by (induction xs) auto
  then show ?thesis by (simp add: opt_crs_def fn_instrs_def fn_map_instrs_def bb_map_instrs_def comp_def filter_concat)
qed

end
