(* ===== verification/CopySwap.thy ===== *)
theory CopySwap
  imports Ir Fold
begin

text \<open>
  \<^verbatim>\<open>codegen/lower_copy_swap.rs\<close>: after register allocation a copy, a swap or an \<^verbatim>\<open>OpR2UR\<close> becomes machine
  operations, chosen by the register files of its two ends; registers of the memory file are spill
  slots above the shader's own local memory.  The first part is the pass; the second the machine the
  operations run on.
\<close>


subsection \<open>The instructions emitted\<close>

text \<open>The operations the pass builds, with the fields it sets.\<close>

datatype MachOp =
    OpMov Dst Src u8
  | OpSel Dst "Src \<times> Src \<times> Src"
  | OpBMov Dst Src bool
  | OpLdc Dst Src
  | OpLdLocal Dst Src u32
  | OpStLocal "Src \<times> Src" u32
  | OpLop2 Dst "Src \<times> Src" LogicOp2
  | OpLop3 OpLop3
  | OpPLop3 OpPLop3
  | OpPSetP "Dst \<times> Dst" "PredSetOp \<times> PredSetOp" "Src \<times> Src \<times> Src"
  | OpISetP Dst OpISetP
  | OpVoteAny "Dst \<times> Dst" Src
  | OpR2UR Dst Src
  | OpAnnotate

record ShaderModel =
  sm_num :: nat
  sm_amd :: bool

text \<open>\<^verbatim>\<open>SrcRef::is_predicate\<close> of an operand, and the immediates.\<close>

abbreviation "src_imm_bool b \<equiv> src_of_ref (sr_of_bool b)"
abbreviation "src_imm_u32 u \<equiv> src_of_ref (sr_of_u32 u)"
abbreviation "src_zero \<equiv> src_of_ref SrZero"
abbreviation "reg_src r \<equiv> src_of_ref (SrReg r)"

subsection \<open>\<^verbatim>\<open>Builder::lop2_to\<close>\<close>

text \<open>One source at a time: its negation goes into the table.\<close>

definition absorb_not0 :: "LogicOp3 \<Rightarrow> LogicOp3" where
  "absorb_not0 op = new_lut (\<lambda>x y _. lop3_eval op (NOT x) y 0)"

definition absorb_not1 :: "LogicOp3 \<Rightarrow> LogicOp3" where
  "absorb_not1 op = new_lut (\<lambda>x y _. lop3_eval op x (NOT y) 0)"

fun pred_set_op :: "LogicOp2 \<Rightarrow> PredSetOp" where
  "pred_set_op LAnd = PAnd" | "pred_set_op LOr = POr" | "pred_set_op LXor = PXor" | "pred_set_op PassB = PAnd"

definition lop2_to :: "ShaderModel \<Rightarrow> Dst \<Rightarrow> LogicOp2 \<Rightarrow> Src \<Rightarrow> Src \<Rightarrow> MachOp list option" where
  "lop2_to sm dst op x y =
     do {
       is_pred \<leftarrow> (case dst of
           DstNone \<Rightarrow> None
         | DstSSA ssa \<Rightarrow> map_option is_predicate (SSARef_file ssa)
         | DstReg reg \<Rightarrow> map_option is_predicate (RegRef_file reg));
       px \<leftarrow> sr_is_predicate (reference x);
       py \<leftarrow> sr_is_predicate (reference y);
       assert_then (px = is_pred) (assert_then (py = is_pred)
         (if sm_num sm \<ge> 70 then do {
            nx \<leftarrow> mod_is_bnot (modifier x);
            let (lop, x) = (if nx then (absorb_not0 (to_lut op), x\<lparr>modifier := ModNone\<rparr>) else (to_lut op, x));
            ny \<leftarrow> mod_is_bnot (modifier y);
            let (lop, y) = (if ny then (absorb_not1 lop, y\<lparr>modifier := ModNone\<rparr>) else (lop, y));
            Some (if is_pred
              then [OpPLop3 \<lparr>plop3_dsts = (dst, DstNone), plop3_srcs = (x, y, src_imm_bool True), plop3_ops = (lop, new_const False)\<rparr>]
              else [OpLop3 \<lparr>lop3_dst = dst, lop3_srcs = (x, y, src_imm_u32 0), lop3_op = lop\<rparr>])
          }
          else if is_pred then
            Some [OpPSetP (dst, DstNone) (pred_set_op op, PAnd)
              (if op = PassB then src_imm_bool True else x, y, src_imm_bool True)]
          else Some [OpLop2 dst (x, y) op]))
     }"

subsection \<open>The pass\<close>

record LowerCopySwap =
  lcs_start :: u32
  lcs_size :: u32

definition lcs_new :: "u32 \<Rightarrow> LowerCopySwap" where
  "lcs_new shared_local_mem_size = \<lparr>lcs_start = shared_local_mem_size, lcs_size = shared_local_mem_size\<rparr>"

text \<open>
  The address of a spill slot and the new size of the local memory; the additions and the conversion
  to \<^verbatim>\<open>i32\<close> can panic.
\<close>

definition slot_addr :: "LowerCopySwap \<Rightarrow> RegRef \<Rightarrow> (u32 \<times> LowerCopySwap) option" where
  "slot_addr p reg =
     assert_then (unat (RegRef_base_idx reg) * 4 < 2 ^ 32 \<and> unat (lcs_start p) + unat (RegRef_base_idx reg) * 4 < 2 ^ 32)
       (let addr = lcs_start p + RegRef_base_idx reg * 4 in
        assert_then (unat addr + 4 < 2 ^ 32)
          (let p' = p\<lparr>lcs_size := max (lcs_size p) (addr + 4)\<rparr> in
           assert_then (addr < 2 ^ 31) (Some (addr, p'))))"

definition copy_modified_pred :: "ShaderModel \<Rightarrow> Dst \<Rightarrow> Src \<Rightarrow> MachOp list option" where
  "copy_modified_pred sm dst src =
     do {
       bnot \<leftarrow> mod_is_bnot (modifier src);
       case reference src of
         SrTrue \<Rightarrow> lop2_to sm dst PassB (src_imm_bool True) (src_imm_bool (\<not> bnot))
       | SrFalse \<Rightarrow> lop2_to sm dst PassB (src_imm_bool True) (src_imm_bool bnot)
       | SrZero \<Rightarrow> lop2_to sm dst PassB (src_imm_bool True) (src_imm_bool bnot)
       | SrReg reg \<Rightarrow> do {
           f \<leftarrow> RegRef_file reg;
           if is_predicate f then lop2_to sm dst PassB (src_imm_bool True) src
           else Some [OpISetP dst \<lparr>setp_set_op = PAnd, setp_cmp_op = (if bnot then CEq else CNe),
             setp_cmp_type = CmpU32, setp_ex = False,
             setp_srcs = (reg_src reg, src_zero, src_of_ref SrTrue, src_of_ref SrFalse)\<rparr>]
         }
       | _ \<Rightarrow> None
     }"

definition copy_to_gpr :: "ShaderModel \<Rightarrow> RegFile \<Rightarrow> LowerCopySwap \<Rightarrow> Dst \<Rightarrow> Src \<Rightarrow> (MachOp list \<times> LowerCopySwap) option" where
  "copy_to_gpr sm file p dst src =
     (case reference src of
        SrZero \<Rightarrow> Some ([OpMov dst src 0xf], p)
      | Imm32 _ \<Rightarrow> Some ([OpMov dst src 0xf], p)
      | SrCBuf _ \<Rightarrow> Some (if file = UGPR \<or> sm_amd sm \<or> sm_num sm \<ge> 100 then [OpLdc dst src] else [OpMov dst src 0xf], p)
      | SrTrue \<Rightarrow> Some ([OpMov dst (src_imm_u32 1) 0xf], p)
      | SrFalse \<Rightarrow> Some ([OpMov dst src_zero 0xf], p)
      | SrSSA _ \<Rightarrow> None
      | SrReg src_reg \<Rightarrow> do {
          f \<leftarrow> RegRef_file src_reg;
          if is_gpr f then Some ([OpMov dst src 0xf], p)
          else if is_predicate f then do { nsrc \<leftarrow> src_bnot src; Some ([OpSel dst (nsrc, src_zero, src_imm_u32 1)], p) }
          else if f = Bar then Some ([OpBMov dst src False], p)
          else if f = Mem then do { (addr, p) \<leftarrow> slot_addr p src_reg; Some ([OpLdLocal dst src_zero addr], p) }
          else None
        })"

definition copy_to_pred :: "ShaderModel \<Rightarrow> Dst \<Rightarrow> Src \<Rightarrow> MachOp list option" where
  "copy_to_pred sm dst src =
     (case reference src of
        SrTrue \<Rightarrow> lop2_to sm dst PassB (src_imm_bool True) (src_imm_bool True)
      | SrFalse \<Rightarrow> lop2_to sm dst PassB (src_imm_bool True) (src_imm_bool False)
      | SrReg src_reg \<Rightarrow> do {
          f \<leftarrow> RegRef_file src_reg;
          if f = Pred then lop2_to sm dst PassB (src_imm_bool True) src
          else if f = UPred then
            Some [OpPLop3 \<lparr>plop3_dsts = (dst, DstNone), plop3_srcs = (src_imm_bool True, src_imm_bool True, src),
              plop3_ops = (new_lut (\<lambda>_ _ z. z), new_const False)\<rparr>]
          else None
        }
      | _ \<Rightarrow> None)"

definition copy_to_bar :: "Dst \<Rightarrow> Src \<Rightarrow> MachOp list option" where
  "copy_to_bar dst src =
     (case reference src of
        SrReg src_reg \<Rightarrow> do { f \<leftarrow> RegRef_file src_reg; assert_then (is_gpr f) (Some [OpBMov dst src False]) }
      | _ \<Rightarrow> None)"

definition copy_to_mem :: "LowerCopySwap \<Rightarrow> RegRef \<Rightarrow> Src \<Rightarrow> (MachOp list \<times> LowerCopySwap) option" where
  "copy_to_mem p dst_reg src =
     (case reference src of
        SrReg src_reg \<Rightarrow> do {
          f \<leftarrow> RegRef_file src_reg;
          assert_then (f = GPR) (do { (addr, p) \<leftarrow> slot_addr p dst_reg; Some ([OpStLocal (src_zero, src) addr], p) })
        }
      | _ \<Rightarrow> None)"

definition lower_copy :: "ShaderModel \<Rightarrow> LowerCopySwap \<Rightarrow> Dst \<Rightarrow> Src \<Rightarrow> (MachOp list \<times> LowerCopySwap) option" where
  "lower_copy sm p dst src =
     do {
       dst_reg \<leftarrow> dst_as_reg dst;
       file \<leftarrow> RegRef_file dst_reg;
       uni \<leftarrow> src_is_uniform src;
       assert_then (RegRef_comps dst_reg = 1) (assert_then (uni \<or> \<not> is_uniform file)
         (if \<not> is_unmodified src then
            (if is_predicate file then map_option (\<lambda>ops. (ops, p)) (copy_modified_pred sm dst src)
             else Some ([OpMov dst src 0xf], p))
          else if is_gpr file then copy_to_gpr sm file p dst src
          else if is_predicate file then map_option (\<lambda>ops. (ops, p)) (copy_to_pred sm dst src)
          else if file = Bar then map_option (\<lambda>ops. (ops, p)) (copy_to_bar dst src)
          else if file = Mem then copy_to_mem p dst_reg src
          else None))
     }"

definition lower_r2ur :: "ShaderModel \<Rightarrow> LowerCopySwap \<Rightarrow> Dst \<Rightarrow> Src \<Rightarrow> (MachOp list \<times> LowerCopySwap) option" where
  "lower_r2ur sm p dst src =
     assert_then (is_unmodified src) (do {
       uni \<leftarrow> src_is_uniform src;
       if uni then lower_copy sm p dst src
       else do {
         src_reg \<leftarrow> sr_as_reg (reference src);
         src_file \<leftarrow> RegRef_file src_reg;
         dst_reg \<leftarrow> dst_as_reg dst;
         dst_file \<leftarrow> RegRef_file dst_reg;
         if src_file = GPR then assert_then (dst_file = UGPR) (Some ([OpR2UR dst src], p))
         else if src_file = Pred then assert_then (dst_file = UPred) (Some ([OpVoteAny (DstNone, dst) src], p))
         else None
       }
     })"

definition lower_swap :: "ShaderModel \<Rightarrow> Dst \<times> Dst \<Rightarrow> Src \<times> Src \<Rightarrow> MachOp list option" where
  "lower_swap sm dsts srcs =
     do {
       x \<leftarrow> dst_as_reg (fst dsts);
       y \<leftarrow> dst_as_reg (snd dsts);
       fx \<leftarrow> RegRef_file x;
       fy \<leftarrow> RegRef_file y;
       assert_then (fx = fy \<and> fx \<noteq> Mem \<and> RegRef_comps x = 1 \<and> RegRef_comps y = 1)
         (assert_then (is_unmodified (fst srcs) \<and> sr_as_reg (reference (fst srcs)) = Some y \<and>
            is_unmodified (snd srcs) \<and> sr_as_reg (reference (snd srcs)) = Some x)
         (if x = y then Some []
          else if is_predicate fx \<and> sm_num sm \<ge> 70 then
            Some [OpPLop3 \<lparr>plop3_dsts = (DstReg x, DstReg y), plop3_srcs = (reg_src x, reg_src y, src_imm_bool True),
              plop3_ops = (new_lut (\<lambda>_ y _. y), new_lut (\<lambda>x _ _. x))\<rparr>]
          else do {
            a \<leftarrow> lop2_to sm (DstReg x) LXor (reg_src x) (reg_src y);
            b \<leftarrow> lop2_to sm (DstReg y) LXor (reg_src x) (reg_src y);
            c \<leftarrow> lop2_to sm (DstReg x) LXor (reg_src x) (reg_src y);
            Some (a @ b @ c)
          }))
     }"

text \<open>
  One instruction of \<^verbatim>\<open>run\<close>: the other instructions are kept.  \<open>annotate\<close> is the debug flag.
\<close>

datatype LowInstr = Kept Instr | Emitted MachOp

definition lcs_instr :: "bool \<Rightarrow> ShaderModel \<Rightarrow> LowerCopySwap \<Rightarrow> Instr \<Rightarrow> (LowInstr list \<times> LowerCopySwap) option" where
  "lcs_instr annotate sm p i =
     (let emit = map_option (\<lambda>(ops, p). (map Emitted (if annotate then OpAnnotate # ops else ops), p)) in
      case in_op i of
        OtherOp R2UR [dst] [src] \<Rightarrow> assert_then (pred_is_true (in_pred i)) (emit (lower_r2ur sm p dst src))
      | CopyOp dst src \<Rightarrow> assert_then (pred_is_true (in_pred i)) (emit (lower_copy sm p dst src))
      | OtherOp (Virtual SwapOp) [d0, d1] [s0, s1] \<Rightarrow>
          assert_then (pred_is_true (in_pred i)) (emit (map_option (\<lambda>ops. (ops, p)) (lower_swap sm (d0, d1) (s0, s1))))
      | _ \<Rightarrow> Some ([Kept i], p))"

definition lcs_instrs :: "bool \<Rightarrow> ShaderModel \<Rightarrow> Instr list \<Rightarrow> LowerCopySwap \<Rightarrow> (LowInstr list \<times> LowerCopySwap) option" where
  "lcs_instrs annotate sm is p =
     foldM (\<lambda>i (out, p). map_option (\<lambda>(is', p). (out @ is', p)) (lcs_instr annotate sm p i)) is ([], p)"

text \<open>\<^verbatim>\<open>Shader::lower_copy_swap\<close>: all blocks of all functions, and the new size of the local memory.\<close>

definition lower_copy_swap :: "bool \<Rightarrow> ShaderModel \<Rightarrow> Function list \<Rightarrow> u32 \<Rightarrow> (LowInstr list list list \<times> u32) option" where
  "lower_copy_swap annotate sm fs shared_local_mem_size =
     do {
       (fs', p) \<leftarrow> foldM (\<lambda>f (out, p). do {
           (bs, p) \<leftarrow> foldM (\<lambda>b (bs, p). do { (is, p) \<leftarrow> lcs_instrs annotate sm (bb_instrs b) p; Some (bs @ [is], p) })
             (cfg_blocks (fn_blocks f)) ([], p);
           Some (out @ [bs], p)
         }) fs ([], lcs_new shared_local_mem_size);
       Some (fs', lcs_size p)
     }"


subsection \<open>What the operations do\<close>

text \<open>
  The machine: one thread's registers (a predicate holds 0 or 1) and its local memory by byte address of
  a word.  \<open>imm\<close> gives the values of constant buffers, \<open>md\<close> the effect of the source modifiers other than
  negated predicates.
\<close>

record Mach =
  m_regs :: "RegRef \<Rightarrow> u32"
  m_mem :: "u32 \<Rightarrow> u32"

record MachEnv =
  env_imm :: "SrcRef \<Rightarrow> u32"
  env_md :: "SrcMod \<Rightarrow> SrcSwizzle \<Rightarrow> u32 \<Rightarrow> u32"

fun const_val :: "MachEnv \<Rightarrow> SrcRef \<Rightarrow> u32" where
  "const_val env SrZero = 0" | "const_val env SrFalse = 0" | "const_val env SrTrue = 1"
| "const_val env (Imm32 u) = u" | "const_val env r = env_imm env r"

fun base_val :: "MachEnv \<Rightarrow> (RegRef \<Rightarrow> u32) \<Rightarrow> SrcRef \<Rightarrow> u32" where
  "base_val env regs (SrReg r) = regs r"
| "base_val env regs s = const_val env s"

definition op_val :: "MachEnv \<Rightarrow> (RegRef \<Rightarrow> u32) \<Rightarrow> Src \<Rightarrow> u32" where
  "op_val env regs s =
     (let v = base_val env regs (reference s) in
      if is_unmodified s then v else env_md env (modifier s) (swizzle s) v)"

definition pred_val :: "MachEnv \<Rightarrow> (RegRef \<Rightarrow> u32) \<Rightarrow> Src \<Rightarrow> bool" where
  "pred_val env regs s \<longleftrightarrow> (base_val env regs (reference s) \<noteq> 0) \<noteq> (modifier s = BNot)"

definition put_dst :: "Dst \<Rightarrow> u32 \<Rightarrow> Mach \<Rightarrow> Mach" where
  "put_dst d v st = (case d of DstReg r \<Rightarrow> st\<lparr>m_regs := (m_regs st)(r := v)\<rparr> | _ \<Rightarrow> st)"

definition table_val :: "MachEnv \<Rightarrow> (RegRef \<Rightarrow> u32) \<Rightarrow> Src \<times> Src \<times> Src \<Rightarrow> LogicOp3 \<Rightarrow> bool" where
  "table_val env regs srcs op =
     bit (lut op) (row (pred_val env regs (nth_src 0 srcs)) (pred_val env regs (nth_src 1 srcs)) (pred_val env regs (nth_src 2 srcs)))"

fun mach_exec :: "MachEnv \<Rightarrow> MachOp \<Rightarrow> Mach \<Rightarrow> Mach" where
  "mach_exec env (OpMov d s q) st = put_dst d (op_val env (m_regs st) s) st"
| "mach_exec env (OpSel d (c, a, b)) st =
     put_dst d (if pred_val env (m_regs st) c then op_val env (m_regs st) a else op_val env (m_regs st) b) st"
| "mach_exec env (OpBMov d s clear) st = put_dst d (op_val env (m_regs st) s) st"
| "mach_exec env (OpLdc d s) st = put_dst d (op_val env (m_regs st) s) st"
| "mach_exec env (OpLdLocal d a off) st = put_dst d (m_mem st (op_val env (m_regs st) a + off)) st"
| "mach_exec env (OpStLocal (a, v) off) st =
     st\<lparr>m_mem := (m_mem st)(op_val env (m_regs st) a + off := op_val env (m_regs st) v)\<rparr>"
| "mach_exec env (OpLop2 d (a, b) op) st =
     put_dst d (let x = op_val env (m_regs st) a; y = op_val env (m_regs st) b in
       case op of LAnd \<Rightarrow> x AND y | LOr \<Rightarrow> x OR y | LXor \<Rightarrow> x XOR y | PassB \<Rightarrow> y) st"
| "mach_exec env (OpLop3 op) st =
     put_dst (lop3_dst op) (lop3_eval (lop3_op op) (op_val env (m_regs st) (nth_src 0 (lop3_srcs op)))
       (op_val env (m_regs st) (nth_src 1 (lop3_srcs op))) (op_val env (m_regs st) (nth_src 2 (lop3_srcs op)))) st"
| "mach_exec env (OpPLop3 op) st =
     put_dst (snd (plop3_dsts op)) (of_bool (table_val env (m_regs st) (plop3_srcs op) (snd (plop3_ops op))))
       (put_dst (fst (plop3_dsts op)) (of_bool (table_val env (m_regs st) (plop3_srcs op) (fst (plop3_ops op)))) st)"
| "mach_exec env (OpPSetP (d0, d1) (op0, op1) (a, b, c)) st =
     (let x = pso_eval op0 (pred_val env (m_regs st) a) (pred_val env (m_regs st) b); z = pred_val env (m_regs st) c in
      put_dst d1 (of_bool (pso_eval op1 (\<not> x) z)) (put_dst d0 (of_bool (pso_eval op1 x z)) st))"
| "mach_exec env (OpISetP d op) st =
     (case setp_srcs op of (a, b, accum, low) \<Rightarrow>
        put_dst d (of_bool (pso_eval (setp_set_op op)
          (icmp_word (setp_cmp_op op) (cmp_is_signed (setp_cmp_type op)) (op_val env (m_regs st) a) (op_val env (m_regs st) b))
          (pred_val env (m_regs st) accum))) st)"
| "mach_exec env (OpVoteAny (d0, d1) p) st = put_dst d1 (of_bool (pred_val env (m_regs st) p)) (put_dst d0 0 st)"
| "mach_exec env (OpR2UR d s) st = put_dst d (op_val env (m_regs st) s) st"
| "mach_exec env OpAnnotate st = st"

definition mach_run :: "MachEnv \<Rightarrow> MachOp list \<Rightarrow> Mach \<Rightarrow> Mach" where
  "mach_run env ops st = fold (mach_exec env) ops st"

text \<open>
  The registers as the copies see them: a register of the memory file is a slot above the shader's
  own local memory.
\<close>

definition slot :: "u32 \<Rightarrow> RegRef \<Rightarrow> u32" where
  "slot start r = start + RegRef_base_idx r * 4"

definition view :: "u32 \<Rightarrow> Mach \<Rightarrow> RegRef \<Rightarrow> u32" where
  "view start st r = (if RegRef_file r = Some Mem then m_mem st (slot start r) else m_regs st r)"

definition preds_ok :: "Mach \<Rightarrow> bool" where
  "preds_ok st \<longleftrightarrow> (\<forall>r f. RegRef_file r = Some f \<and> is_predicate f \<longrightarrow> m_regs st r \<in> {0, 1})"

text \<open>The value a copy transfers; a predicate destination reads its source as a truth value.\<close>

definition copy_val :: "MachEnv \<Rightarrow> RegFile \<Rightarrow> (RegRef \<Rightarrow> u32) \<Rightarrow> Src \<Rightarrow> u32" where
  "copy_val env file regs s =
     (if is_unmodified s \<or> \<not> is_predicate file then op_val env regs s else of_bool (pred_val env regs s))"

lemma is_predicate_iff: "is_predicate f \<longleftrightarrow> f = Pred \<or> f = UPred"
  by (cases f) auto

lemma put_dst_simps [simp]:
  "m_mem (put_dst d v st) = m_mem st" "put_dst DstNone v st = st"
  "m_regs (put_dst (DstReg r) v st) = (m_regs st)(r := v)"
  by (auto simp: put_dst_def split: Dst.splits)

lemma row_eqs [simp]:
  "bit (0xcc :: u8) (row x y z) = y" "bit (0xf0 :: u8) (row x y z) = x" "bit (0xaa :: u8) (row x y z) = z"
  by (cases x; cases y; cases z; simp add: row_def)+

lemma table_luts [simp]:
  "bit (lut (to_lut PassB)) (row x y z) = y"
  "bit (lut (to_lut LXor)) (row x y z) = (x \<noteq> y)"
  "bit (lut (new_lut (\<lambda>_ y _. y))) (row x y z) = y"
  "bit (lut (new_lut (\<lambda>x _ _. x))) (row x y z) = x"
  "bit (lut (new_lut (\<lambda>_ _ z. z))) (row x y z) = z"
  by (cases x; cases y; cases z; simp add: new_lut_def SRC_MASKS_def row_def)+

lemma absorb_not1_passb: "bit (lut (absorb_not1 (to_lut PassB))) (row x y z) = (\<not> y)"
proof -
  have "lut (absorb_not1 (to_lut PassB)) = 0x33" by code_simp
  then show ?thesis by (cases x; cases y; cases z) (simp_all add: row_def)
qed

text \<open>The effect of \<^verbatim>\<open>lop2_to\<close> with \<^verbatim>\<open>PassB\<close> on a predicate.\<close>

lemma passb_pred:
  assumes "RegRef_file r = Some f" and "is_predicate f" and "sr_is_predicate (reference s) = Some True"
    and "modifier s = ModNone \<or> modifier s = BNot"
  shows "\<exists>op. lop2_to sm (DstReg r) PassB (src_imm_bool True) s = Some [op] \<and>
    (\<forall>env st. mach_exec env op st = put_dst (DstReg r) (of_bool (pred_val env (m_regs st) s)) st)"
proof -
  have T: "pred_val env regs (src_imm_bool True)" for env regs
    by (simp add: pred_val_def src_of_ref_def sr_of_bool_def)
  show ?thesis
    using assms T
    by (auto simp: lop2_to_def src_of_ref_def sr_of_bool_def Let_def table_val_def nth_src_def pred_val_def absorb_not1_passb
        new_const_def simp del: to_lut.simps)
qed

end
