(* ===== verification/CopySwapCorrect.thy ===== *)
theory CopySwapCorrect
  imports CopySwap
begin

text \<open>
  The lowering of copies and swaps is correct: for every pair of register files the pass accepts, the
  operations it emits transfer exactly the copy's value (or exchange exactly the two registers), change
  nothing else, and touch local memory only between the shader's own and the reported size.
\<close>


subsection \<open>Copies\<close>

definition slot_ok :: "u32 \<Rightarrow> RegRef \<Rightarrow> bool" where
  "slot_ok start r \<longleftrightarrow> unat start + unat (RegRef_base_idx r) * 4 < 2 ^ 31"

text \<open>The copies the pass accepts: the register files the hardware can move between.\<close>

definition copy_ok :: "u32 \<Rightarrow> RegRef \<Rightarrow> Src \<Rightarrow> bool" where
  "copy_ok start dst src \<longleftrightarrow> RegRef_comps dst = 1 \<and>
     (case RegRef_file dst of
        None \<Rightarrow> False
      | Some f \<Rightarrow>
          (case reference src of
             SrSSA _ \<Rightarrow> False
           | SrReg r \<Rightarrow> RegRef_comps r = 1 \<and>
               (case RegRef_file r of
                  None \<Rightarrow> False
                | Some g \<Rightarrow> (is_uniform f \<longrightarrow> is_uniform g) \<and>
                    (if is_unmodified src
                     then is_gpr f \<and> g \<noteq> Carry \<and> (g = Mem \<longrightarrow> slot_ok start r) \<or> is_predicate f \<and> is_predicate g \<or>
                       f = Bar \<and> is_gpr g \<or> f = Mem \<and> g = GPR \<and> slot_ok start dst
                     else g \<noteq> Mem \<and> (is_gpr f \<or> is_predicate f \<and> modifier src \<in> {ModNone, BNot})))
           | SrCBuf _ \<Rightarrow> is_gpr f
           | Imm32 _ \<Rightarrow> is_gpr f
           | SrZero \<Rightarrow> is_gpr f \<or> is_predicate f \<and> \<not> is_unmodified src \<and> modifier src \<in> {ModNone, BNot}
           | _ \<Rightarrow> is_gpr f \<or> is_predicate f \<and> modifier src \<in> {ModNone, BNot}))"

definition copies :: "u32 \<Rightarrow> MachOp list \<Rightarrow> RegRef \<Rightarrow> (MachEnv \<Rightarrow> Mach \<Rightarrow> u32) \<Rightarrow> bool" where
  "copies start ops dst val \<longleftrightarrow> (\<forall>env st. preds_ok st \<longrightarrow> preds_ok (mach_run env ops st) \<and>
     (\<forall>a. a < start \<longrightarrow> m_mem (mach_run env ops st) a = m_mem st a) \<and>
     (\<forall>r. RegRef_comps r = 1 \<longrightarrow> view start (mach_run env ops st) r = (if r = dst then val env st else view start st r)))"

lemma mach_run_simps [simp]:
  "mach_run env [] st = st" "mach_run env (op # ops) st = mach_run env ops (mach_exec env op st)"
  "mach_run env (ops @ ops') st = mach_run env ops' (mach_run env ops st)"
  by (simp_all add: mach_run_def)

text \<open>One operation that writes one register outside the memory file.\<close>

lemma copies_put:
  assumes "RegRef_file dst = Some f" "f \<noteq> Mem"
    and "\<And>env st. preds_ok st \<Longrightarrow> mach_exec env op st = put_dst (DstReg dst) (val env st) st"
    and "\<And>env st. preds_ok st \<Longrightarrow> is_predicate f \<Longrightarrow> val env st \<in> {0, 1}"
  shows "copies start [op] dst val"
  using assms unfolding copies_def by (auto simp: view_def preds_ok_def)

lemma and_7_cases: "(x AND 7 :: u32) \<in> {0, 1, 2, 3, 4, 5, 6, 7}"
proof -
  have "unat (x AND 7) \<le> 7" using word_and_le1 [of x 7] by (simp add: word_le_nat_alt)
  then have "unat (x AND 7) \<in> {0, 1, 2, 3, 4, 5, 6, 7}" by auto
  then have "word_of_nat (unat (x AND 7)) \<in> (word_of_nat :: nat \<Rightarrow> u32) ` {0, 1, 2, 3, 4, 5, 6, 7}" by (rule imageI)
  then show ?thesis by simp
qed

lemma comps_1_field: "RegRef_comps r = 1 \<Longrightarrow> drop_bit 26 (rr_packed r) AND 7 = 0"
  using and_7_cases [of "drop_bit 26 (rr_packed r)"] by (auto simp: RegRef_comps_def)

lemma file_field: "RegRef_file r = Some f \<Longrightarrow> drop_bit 29 (rr_packed r) AND 7 = ucast (file_u8 f)"
  using and_7_cases [of "drop_bit 29 (rr_packed r)"] by (auto simp: RegRef_file_def file_try_from_def)

lemma field_bit:
  fixes a b :: "'a::len word"
  assumes "take_bit k (drop_bit m a) = take_bit k (drop_bit m b)" "m \<le> i" "i < m + k"
  shows "bit a i = bit b i"
proof -
  have "bit (take_bit k (drop_bit m a)) (i - m) = bit (take_bit k (drop_bit m b)) (i - m)" using assms(1) by simp
  then show ?thesis using assms(2,3) by (auto simp add: bit_take_bit_iff bit_drop_bit_eq)
qed

lemma regref_eqI:
  assumes "RegRef_comps r = 1" "RegRef_comps r' = 1" "RegRef_file r = Some f" "RegRef_file r' = Some f"
    and "RegRef_base_idx r = RegRef_base_idx r'"
  shows "r = r'"
proof -
  have m: "(0x03ffffff :: u32) = mask 26" "(7 :: u32) = mask 3" by (simp_all add: mask_eq_exp_minus_1)
  let ?a = "rr_packed r" and ?b = "rr_packed r'"
  have "take_bit 26 ?a = take_bit 26 ?b" using assms(5) by (simp add: RegRef_base_idx_def m take_bit_eq_mask)
  moreover have "take_bit 3 (drop_bit 26 ?a) = take_bit 3 (drop_bit 26 ?b)"
    using comps_1_field [OF assms(1)] comps_1_field [OF assms(2)] by (simp add: m take_bit_eq_mask)
  moreover have "take_bit 3 (drop_bit 29 ?a) = take_bit 3 (drop_bit 29 ?b)"
    using file_field [OF assms(3)] file_field [OF assms(4)] by (simp add: m take_bit_eq_mask)
  ultimately have "bit ?a i = bit ?b i" if "i < 32" for i
    using that field_bit [of 26 0 ?a ?b i] field_bit [of 3 26 ?a ?b i] field_bit [of 3 29 ?a ?b i]
    by (cases "i < 26"; cases "i < 29") simp_all
  then have "?a = ?b" by (intro bit_word_eqI) simp
  then show ?thesis by (cases r; cases r') simp
qed

lemma base_idx_lt: "unat (RegRef_base_idx r) < 2 ^ 26"
proof -
  have "RegRef_base_idx r \<le> 0x03ffffff" unfolding RegRef_base_idx_def by (rule word_and_le1)
  then show ?thesis by (simp add: word_le_nat_alt)
qed

lemma idx4_unat: "unat (RegRef_base_idx r * 4) = unat (RegRef_base_idx r) * 4"
proof -
  have "unat (RegRef_base_idx r) * unat (4 :: u32) < 2 ^ LENGTH(32)" using base_idx_lt [of r] by simp
  then show ?thesis using unat_mult_lem [of "RegRef_base_idx r" 4] by simp
qed

lemma slot_unat: "slot_ok start r \<Longrightarrow> unat (slot start r) = unat start + unat (RegRef_base_idx r) * 4"
proof -
  assume "slot_ok start r"
  then have "unat start + unat (RegRef_base_idx r * 4) < 2 ^ LENGTH(32)" by (simp add: slot_ok_def idx4_unat)
  then have "unat (start + RegRef_base_idx r * 4) = unat start + unat (RegRef_base_idx r * 4)"
    by (rule unat_add_lem [THEN iffD1])
  then show ?thesis by (simp add: slot_def idx4_unat)
qed

lemma slot_inj:
  assumes "RegRef_file r = Some Mem" "RegRef_file r' = Some Mem" "RegRef_comps r = 1" "RegRef_comps r' = 1"
    and "slot start r = slot start r'"
  shows "r = r'"
proof -
  have "RegRef_base_idx r * 4 = RegRef_base_idx r' * 4" using assms(5) by (simp add: slot_def)
  then have "unat (RegRef_base_idx r * 4) = unat (RegRef_base_idx r' * 4)" by simp
  then have "RegRef_base_idx r = RegRef_base_idx r'" by (simp add: idx4_unat word_unat_eq_iff)
  then show ?thesis using regref_eqI assms(1-4) by blast
qed

lemma slot_addr_spec:
  assumes "slot_ok (lcs_start p) r"
  shows "slot_addr p r = Some (slot (lcs_start p) r, p\<lparr>lcs_size := max (lcs_size p) (slot (lcs_start p) r + 4)\<rparr>)"
proof -
  have "unat (slot (lcs_start p) r) < 2 ^ 31" using slot_unat [OF assms] assms by (simp add: slot_ok_def)
  then have "slot (lcs_start p) r < 2 ^ 31" by (simp add: word_less_nat_alt)
  then show ?thesis using assms slot_unat [OF assms] base_idx_lt [of r]
    by (simp add: slot_addr_def slot_ok_def slot_def Let_def)
qed

text \<open>Every slot the emitted code touches lies between the old and the new size of the local memory.\<close>

fun op_slots :: "MachOp \<Rightarrow> u32 set" where
  "op_slots (OpLdLocal _ _ off) = {off}" | "op_slots (OpStLocal _ off) = {off}" | "op_slots _ = {}"

definition slots_in :: "LowerCopySwap \<Rightarrow> MachOp list \<Rightarrow> LowerCopySwap \<Rightarrow> bool" where
  "slots_in p ops p' \<longleftrightarrow> lcs_start p' = lcs_start p \<and> lcs_size p \<le> lcs_size p' \<and>
     (\<forall>op\<in>set ops. \<forall>a\<in>op_slots op. lcs_start p \<le> a \<and> unat a + 4 \<le> unat (lcs_size p'))"

lemma slots_in_none: "(\<And>op. op \<in> set ops \<Longrightarrow> op_slots op = {}) \<Longrightarrow> slots_in p ops p"
  by (simp add: slots_in_def)

lemma slots_in_slot:
  assumes "slot_ok (lcs_start p) r" and "\<And>op. op \<in> set ops \<Longrightarrow> op_slots op \<subseteq> {slot (lcs_start p) r}"
  shows "slots_in p ops (p\<lparr>lcs_size := max (lcs_size p) (slot (lcs_start p) r + 4)\<rparr>)"
proof -
  have u: "unat (slot (lcs_start p) r + 4) = unat (slot (lcs_start p) r) + 4"
    using slot_unat [OF assms(1)] assms(1) by (simp add: slot_ok_def unat_word_ariths)
  have "unat (slot (lcs_start p) r) + 4 \<le> unat (max (lcs_size p) (slot (lcs_start p) r + 4))"
    using u by (metis max.cobounded2 word_le_nat_alt)
  moreover have "lcs_start p \<le> slot (lcs_start p) r" using slot_unat [OF assms(1)] by (simp add: word_le_nat_alt)
  ultimately show ?thesis using assms(2) by (fastforce simp: slots_in_def)
qed


lemma view_reg: "RegRef_file r = Some g \<Longrightarrow> g \<noteq> Mem \<Longrightarrow> view start st r = m_regs st r"
  by (simp add: view_def)

lemma view_mem: "RegRef_file r = Some Mem \<Longrightarrow> view start st r = m_mem st (slot start r)"
  by (simp add: view_def)

abbreviation "copied start ops dst f src \<equiv> copies start ops dst (\<lambda>env st. copy_val env f (view start st) src)"

lemma copy_ok_reg:
  assumes "copy_ok start dst src" and "RegRef_file dst = Some f" and "reference src = SrReg r"
  obtains g where "RegRef_file r = Some g" "RegRef_comps r = 1" "is_uniform f \<longrightarrow> is_uniform g"
    "if is_unmodified src
     then is_gpr f \<and> g \<noteq> Carry \<and> (g = Mem \<longrightarrow> slot_ok start r) \<or> is_predicate f \<and> is_predicate g \<or>
       f = Bar \<and> is_gpr g \<or> f = Mem \<and> g = GPR \<and> slot_ok start dst
     else g \<noteq> Mem \<and> (is_gpr f \<or> is_predicate f \<and> modifier src \<in> {ModNone, BNot})"
  using assms by (auto simp: copy_ok_def split: option.splits)

lemma gpr_not: "is_gpr f \<Longrightarrow> f \<noteq> Mem \<and> \<not> is_predicate f"
  by (cases f) auto

lemma unmod: "is_unmodified s \<Longrightarrow> op_val env regs s = base_val env regs (reference s)"
  by (simp add: op_val_def)

lemma copy_to_gpr_spec:
  assumes ok: "copy_ok (lcs_start p) dst src" and f: "RegRef_file dst = Some f" "is_gpr f" and u: "is_unmodified src"
  shows "\<exists>ops p'. copy_to_gpr sm f p (DstReg dst) src = Some (ops, p') \<and> slots_in p ops p' \<and>
    copied (lcs_start p) ops dst f src"
proof -
  let ?st = "lcs_start p"
  note g = gpr_not [OF f(2)]
  have put: "copied ?st [op] dst f src"
    if "\<And>env st. preds_ok st \<Longrightarrow> mach_exec env op st = put_dst (DstReg dst) (base_val env (view ?st st) (reference src)) st" for op
    by (rule copies_put [OF f(1)]) (use that g u in \<open>auto simp: copy_val_def unmod\<close>)
  have nosl: "slots_in p [op] p" if "op_slots op = {}" for op using that by (intro slots_in_none) simp
  show ?thesis
  proof (cases "reference src")
    case (SrReg r)
    obtain h where h: "RegRef_file r = Some h" "h \<noteq> Carry" "h = Mem \<Longrightarrow> slot_ok ?st r"
      by (rule copy_ok_reg [OF ok f(1) SrReg], rule that) (use u g f(2) in auto)
    consider "is_gpr h" | "is_predicate h" | "h = Bar" | "h = Mem" using h(2) by (cases h) auto
    then show ?thesis
    proof cases
      case 1
      have "copied ?st [OpMov (DstReg dst) src 0xf] dst f src"
        by (rule put) (use h(1) gpr_not [OF 1] SrReg u in \<open>auto simp: unmod view_reg\<close>)
      with 1 SrReg h(1) show ?thesis by (auto simp: copy_to_gpr_def intro!: nosl)
    next
      case 2
      then have nm: "h \<noteq> Mem" "\<not> is_gpr h" by (cases h; simp)+
      have "copied ?st [OpSel (DstReg dst) (src\<lparr>modifier := BNot\<rparr>, src_zero, src_imm_u32 1)] dst f src"
      proof (rule put)
        fix env and st :: Mach assume "preds_ok st"
        then have "m_regs st r \<in> {0, 1}" using h(1) 2 by (auto simp: preds_ok_def)
        then show "mach_exec env (OpSel (DstReg dst) (src\<lparr>modifier := BNot\<rparr>, src_zero, src_imm_u32 1)) st =
            put_dst (DstReg dst) (base_val env (view ?st st) (reference src)) st"
          using SrReg view_reg [OF h(1) nm(1)]
          by (auto simp: pred_val_def op_val_def src_of_ref_def is_unmodified_def sr_of_u32_def)
      qed
      then show ?thesis
        using 2 nm SrReg h(1) u by (auto simp: copy_to_gpr_def src_bnot_def is_unmodified_def intro!: nosl)
    next
      case 3
      have "copied ?st [OpBMov (DstReg dst) src False] dst f src"
        by (rule put) (use h(1) 3 SrReg u in \<open>auto simp: unmod view_reg\<close>)
      with 3 SrReg h(1) show ?thesis by (auto simp: copy_to_gpr_def intro!: nosl)
    next
      case 4
      note so = h(3) [OF 4]
      have "copied ?st [OpLdLocal (DstReg dst) src_zero (slot ?st r)] dst f src"
        by (rule put) (use h(1) 4 SrReg in \<open>auto simp: view_mem op_val_def src_of_ref_def is_unmodified_def\<close>)
      then show ?thesis
        using 4 SrReg h(1) by (auto simp: copy_to_gpr_def slot_addr_spec [OF so] intro!: slots_in_slot [OF so])
    qed
  next
    case (SrSSA v)
    with ok f(1) show ?thesis by (simp add: copy_ok_def)
  next
    case (SrCBuf c)
    have "copied ?st [op] dst f src" if "op \<in> {OpMov (DstReg dst) src 0xf, OpLdc (DstReg dst) src}" for op
      by (rule put) (use that SrCBuf u in \<open>auto simp: unmod\<close>)
    with SrCBuf show ?thesis by (auto simp: copy_to_gpr_def intro!: nosl)
  qed (use u in \<open>auto simp: copy_to_gpr_def op_val_def src_of_ref_def sr_of_u32_def is_unmodified_def intro!: nosl put\<close>)
qed


lemma copy_val_pred:
  assumes "is_predicate f" and "RegRef_file r = Some g" and "is_predicate g" and "reference src = SrReg r"
    and "is_unmodified src" and "preds_ok st"
  shows "copy_val env f (view start st) src = of_bool (pred_val env (m_regs st) src)"
proof -
  have "g \<noteq> Mem" using assms(3) by (cases g) auto
  then have "view start st r = m_regs st r" using assms(2) by (simp add: view_def)
  moreover have "m_regs st r \<in> {0, 1}" using assms(2,3,6) by (auto simp: preds_ok_def)
  ultimately show ?thesis
    using assms(4,5) by (auto simp: copy_val_def op_val_def pred_val_def is_unmodified_def)
qed

text \<open>Copies to predicates, unmodified and modified.\<close>

lemma copied_pred:
  assumes "RegRef_file dst = Some f" "is_predicate f"
    and "\<And>env st. preds_ok st \<Longrightarrow> mach_exec env op st = put_dst (DstReg dst) (of_bool (b env st)) st"
    and "\<And>env st. preds_ok st \<Longrightarrow> copy_val env f (view start st) src = of_bool (b env st)"
  shows "copied start [op] dst f src"
  by (rule copies_put [OF assms(1)]) (use assms in \<open>auto simp: is_predicate_iff\<close>)

lemma imm_bool_simps [simp]:
  "sr_is_predicate (reference (src_imm_bool b)) = Some True" "modifier (src_imm_bool b) = ModNone"
  "pred_val env regs (src_imm_bool b) = b"
  by (auto simp: src_of_ref_def sr_of_bool_def pred_val_def)

lemma passb_copied:
  assumes f: "RegRef_file dst = Some f" "is_predicate f" and s: "sr_is_predicate (reference s) = Some True"
    "modifier s = ModNone \<or> modifier s = BNot"
    and v: "\<And>env st. preds_ok st \<Longrightarrow> copy_val env f (view start st) src = of_bool (pred_val env (m_regs st) s)"
  shows "\<exists>ops. lop2_to sm (DstReg dst) PassB (src_imm_bool True) s = Some ops \<and>
    copied start ops dst f src \<and> (\<forall>op\<in>set ops. op_slots op = {})"
proof -
  obtain op where op: "lop2_to sm (DstReg dst) PassB (src_imm_bool True) s = Some [op]"
    "\<And>env st. mach_exec env op st = put_dst (DstReg dst) (of_bool (pred_val env (m_regs st) s)) st"
    using passb_pred [OF f s] by blast
  moreover have "op_slots op = {}"
    using op(1) by (auto simp: lop2_to_def Let_def assert_then_eq_Some split: Option.bind_splits if_splits)
  ultimately show ?thesis using copied_pred [OF f op(2) v] by auto
qed

lemma copy_to_pred_spec:
  assumes ok: "copy_ok start dst src" and f: "RegRef_file dst = Some f" "is_predicate f" and u: "is_unmodified src"
  shows "\<exists>ops. copy_to_pred sm (DstReg dst) src = Some ops \<and> copied start ops dst f src \<and> (\<forall>op\<in>set ops. op_slots op = {})"
proof -
  have nf: "\<not> is_gpr f" "f \<noteq> Bar" "f \<noteq> Mem" using f(2) by (cases f; simp)+
  have m: "modifier src = ModNone" using u by (simp add: is_unmodified_def)
  show ?thesis
  proof (cases "reference src")
    case (SrReg r)
    obtain g where g: "RegRef_file r = Some g" "is_predicate g"
      using copy_ok_reg [OF ok f(1) SrReg] u nf by metis
    have v: "copy_val env f (view start st) src = of_bool (pred_val env (m_regs st) src)" if "preds_ok st" for env st
      by (rule copy_val_pred [OF f(2) g SrReg u that])
    show ?thesis
    proof (cases "g = Pred")
      case True
      have "sr_is_predicate (reference src) = Some True" using SrReg g by simp
      from passb_copied [OF f this _ v] m SrReg g(1) True show ?thesis by (auto simp: copy_to_pred_def)
    next
      case False
      then have "g = UPred" using g(2) by (auto simp: is_predicate_iff)
      moreover have "copied start [OpPLop3 \<lparr>plop3_dsts = (DstReg dst, DstNone),
          plop3_srcs = (src_imm_bool True, src_imm_bool True, src), plop3_ops = (new_lut (\<lambda>_ _ z. z), new_const False)\<rparr>] dst f src"
        by (rule copied_pred [OF f _ v]) (simp_all add: table_val_def nth_src_def)
      ultimately show ?thesis using SrReg g(1) by (simp add: copy_to_pred_def)
    qed
  next
    case SrTrue
    then show ?thesis
      using passb_copied [OF f, of "src_imm_bool True" start src sm] u
      by (auto simp: copy_to_pred_def copy_val_def op_val_def)
  next
    case SrFalse
    then show ?thesis
      using passb_copied [OF f, of "src_imm_bool False" start src sm] u
      by (auto simp: copy_to_pred_def copy_val_def op_val_def)
  qed (use ok f nf u in \<open>auto simp: copy_ok_def\<close>)
qed

lemma copy_modified_pred_spec:
  assumes ok: "copy_ok start dst src" and f: "RegRef_file dst = Some f" "is_predicate f" and u: "\<not> is_unmodified src"
  shows "\<exists>ops. copy_modified_pred sm (DstReg dst) src = Some ops \<and> copied start ops dst f src \<and> (\<forall>op\<in>set ops. op_slots op = {})"
proof -
  have nf: "\<not> is_gpr f" "f \<noteq> Bar" "f \<noteq> Mem" using f(2) by (cases f; simp)+
  have m: "modifier src = ModNone \<or> modifier src = BNot"
    using ok f nf u by (auto simp: copy_ok_def split: SrcRef.splits option.splits)
  have cv: "copy_val env f regs src = of_bool (pred_val env regs src)" for env regs using u f(2) by (simp add: copy_val_def)
  have imm: "\<exists>ops. lop2_to sm (DstReg dst) PassB (src_imm_bool True) (src_imm_bool b) = Some ops \<and>
      copied start ops dst f src \<and> (\<forall>op\<in>set ops. op_slots op = {})"
    if "\<And>env regs. pred_val env regs src = b" for b
    using passb_copied [OF f, of "src_imm_bool b" start src sm] that by (simp add: cv)
  show ?thesis
  proof (cases "reference src")
    case (SrReg r)
    obtain g where g: "RegRef_file r = Some g" "g \<noteq> Mem"
      using copy_ok_reg [OF ok f(1) SrReg] u nf by metis
    have pv: "pred_val env (view start st) src = pred_val env (m_regs st) src" for env st
      using g SrReg by (simp add: pred_val_def view_def)
    show ?thesis
    proof (cases "is_predicate g")
      case True
      have "sr_is_predicate (reference src) = Some True" using SrReg g True by simp
      from passb_copied [OF f this m, of start src sm] cv pv m SrReg g(1) True show ?thesis
        by (auto simp: copy_modified_pred_def)
    next
      case False
      have "copied start [OpISetP (DstReg dst) \<lparr>setp_set_op = PAnd, setp_cmp_op = (if modifier src = BNot then CEq else CNe),
          setp_cmp_type = CmpU32, setp_ex = False,
          setp_srcs = (reg_src r, src_zero, src_of_ref SrTrue, src_of_ref SrFalse)\<rparr>] dst f src"
        by (rule copied_pred [OF f, where b = "\<lambda>env st. pred_val env (m_regs st) src"])
           (use SrReg cv pv in \<open>auto simp: op_val_def src_of_ref_def is_unmodified_def icmp_word_def pred_val_def uint_0_iff\<close>)
      with m SrReg g False show ?thesis by (auto simp: copy_modified_pred_def)
    qed
  next
    case SrTrue
    with m imm [of "modifier src \<noteq> BNot"] show ?thesis by (auto simp: copy_modified_pred_def pred_val_def)
  next
    case SrFalse
    with m imm [of "modifier src = BNot"] show ?thesis by (auto simp: copy_modified_pred_def pred_val_def)
  next
    case SrZero
    with m imm [of "modifier src = BNot"] show ?thesis by (auto simp: copy_modified_pred_def pred_val_def)
  qed (use ok f nf u in \<open>auto simp: copy_ok_def\<close>)
qed


lemma copy_to_mem_spec:
  assumes ok: "copy_ok (lcs_start p) dst src" and f: "RegRef_file dst = Some Mem" and u: "is_unmodified src"
  shows "\<exists>ops p'. copy_to_mem p dst src = Some (ops, p') \<and> slots_in p ops p' \<and> copied (lcs_start p) ops dst Mem src"
proof -
  obtain r where r: "reference src = SrReg r" using ok f u by (auto simp: copy_ok_def split: SrcRef.splits)
  have g: "RegRef_file r = Some GPR" and so: "slot_ok (lcs_start p) dst" and c: "RegRef_comps dst = 1"
    using ok f u r by (auto simp: copy_ok_def split: option.splits)
  have "copied (lcs_start p) [OpStLocal (src_zero, src) (slot (lcs_start p) dst)] dst Mem src"
    unfolding copies_def
  proof (intro allI impI conjI)
    fix env :: MachEnv and st :: Mach assume "preds_ok st"
    let ?st = "mach_run env [OpStLocal (src_zero, src) (slot (lcs_start p) dst)] st"
    have ex: "?st = st\<lparr>m_mem := (m_mem st)(slot (lcs_start p) dst := m_regs st r)\<rparr>"
      using u r by (simp add: op_val_def src_of_ref_def is_unmodified_def)
    show "preds_ok ?st" using \<open>preds_ok st\<close> unfolding ex by (simp add: preds_ok_def)
    have "lcs_start p \<le> slot (lcs_start p) dst" using slot_unat [OF so] by (simp add: word_le_nat_alt)
    then show "m_mem ?st a = m_mem st a" if "a < lcs_start p" for a using that unfolding ex by auto
    fix r' assume r': "RegRef_comps r' = 1"
    show "view (lcs_start p) ?st r' = (if r' = dst then copy_val env Mem (view (lcs_start p) st) src else view (lcs_start p) st r')"
    proof (cases "RegRef_file r' = Some Mem")
      case True
      have "slot (lcs_start p) r' = slot (lcs_start p) dst \<longleftrightarrow> r' = dst" using slot_inj [OF True f r' c] by blast
      then show ?thesis using True f r g u unfolding ex by (simp add: view_def copy_val_def op_val_def)
    next
      case False
      then have "r' \<noteq> dst" using f by auto
      with False show ?thesis unfolding ex by (simp add: view_def)
    qed
  qed
  then show ?thesis
    using r g by (auto simp: copy_to_mem_def slot_addr_spec [OF so] intro!: slots_in_slot [OF so])
qed

lemma copy_to_bar_spec:
  assumes ok: "copy_ok start dst src" and f: "RegRef_file dst = Some Bar" and u: "is_unmodified src"
  shows "\<exists>ops. copy_to_bar (DstReg dst) src = Some ops \<and> copied start ops dst Bar src \<and> (\<forall>op\<in>set ops. op_slots op = {})"
proof -
  obtain r where r: "reference src = SrReg r" using ok f u by (auto simp: copy_ok_def split: SrcRef.splits)
  obtain g where g: "RegRef_file r = Some g" "is_gpr g"
    using ok f u r by (auto simp: copy_ok_def split: option.splits)
  have "copied start [OpBMov (DstReg dst) src False] dst Bar src"
    by (rule copies_put [OF f]) (use g r u gpr_not [OF g(2)] in \<open>auto simp: copy_val_def op_val_def view_def\<close>)
  then show ?thesis using r g by (simp add: copy_to_bar_def)
qed

lemma lower_copy_spec:
  assumes ok: "copy_ok (lcs_start p) dst src" and f: "RegRef_file dst = Some f"
  shows "\<exists>ops p'. lower_copy sm p (DstReg dst) src = Some (ops, p') \<and> slots_in p ops p' \<and> copied (lcs_start p) ops dst f src"
proof -
  have c: "RegRef_comps dst = 1" using ok by (simp add: copy_ok_def)
  obtain uni where uni: "src_is_uniform src = Some uni" "uni \<or> \<not> is_uniform f"
    using ok f by (auto simp: copy_ok_def src_is_uniform_def split: SrcRef.splits option.splits)
  note unf = lower_copy_def [of sm p "DstReg dst" src]
  show ?thesis
  proof (cases "is_unmodified src")
    case False
    show ?thesis
    proof (cases "is_predicate f")
      case True
      from copy_modified_pred_spec [OF ok f True False, of sm] f c uni False True show ?thesis
        by (auto simp: unf intro!: slots_in_none)
    next
      case np: False
      have fm: "f \<noteq> Mem" and src: "\<And>r. reference src = SrReg r \<Longrightarrow> \<exists>g. RegRef_file r = Some g \<and> g \<noteq> Mem"
        using ok f False np gpr_not [of f] by (auto simp: copy_ok_def split: SrcRef.splits option.splits if_splits)
      have "op_val env (view (lcs_start p) st) src = op_val env (m_regs st) src" for env st
        using src by (cases "reference src") (fastforce simp: op_val_def view_def Let_def)+
      then have "copied (lcs_start p) [OpMov (DstReg dst) src 0xf] dst f src"
        by (intro copies_put [OF f fm]) (use np in \<open>auto simp: copy_val_def\<close>)
      with f c uni False np show ?thesis by (auto simp: unf intro!: slots_in_none)
    qed
  next
    case True
    have "f \<noteq> Carry" using ok f True by (auto simp: copy_ok_def split: SrcRef.splits option.splits)
    then consider "is_gpr f" | "is_predicate f" | "f = Bar" | "f = Mem" by (cases f) auto
    then show ?thesis
    proof cases
      case 1
      from copy_to_gpr_spec [OF ok f 1 True, of sm] f c uni True 1 show ?thesis by (auto simp: unf)
    next
      case 2
      then have "\<not> is_gpr f" by (cases f) auto
      with copy_to_pred_spec [OF ok f 2 True, of sm] f c uni True 2 show ?thesis
        by (auto simp: unf intro!: slots_in_none)
    next
      case 3
      with copy_to_bar_spec [OF ok _ True] f c uni True show ?thesis by (auto simp: unf intro!: slots_in_none)
    next
      case 4
      with copy_to_mem_spec [OF ok _ True] f c uni True show ?thesis by (auto simp: unf)
    qed
  qed
qed

subsection \<open>Swaps\<close>

definition swaps :: "u32 \<Rightarrow> MachOp list \<Rightarrow> RegRef \<Rightarrow> RegRef \<Rightarrow> bool" where
  "swaps start ops x y \<longleftrightarrow> (\<forall>env st. preds_ok st \<longrightarrow> preds_ok (mach_run env ops st) \<and>
     (\<forall>a. a < start \<longrightarrow> m_mem (mach_run env ops st) a = m_mem st a) \<and>
     (\<forall>r. view start (mach_run env ops st) r =
        (if r = x then view start st y else if r = y then view start st x else view start st r)))"

lemma xor_swap: "(a XOR b) XOR b = a" "(a XOR b) XOR a = b" for a b :: u32
  by (rule bit_word_eqI; auto simp: bit_xor_iff)+

lemma lxor_gpr:
  assumes "RegRef_file x = Some f" "RegRef_file y = Some f" "\<not> is_predicate f" "RegRef_file d = Some f"
  shows "\<exists>op. lop2_to sm (DstReg d) LXor (reg_src x) (reg_src y) = Some [op] \<and> op_slots op = {} \<and>
    (\<forall>env st. mach_exec env op st = put_dst (DstReg d) (m_regs st x XOR m_regs st y) st)"
proof -
  have "lop3_eval (to_lut LXor) a b (0 :: u32) = a XOR b" for a b by (simp add: to_lut_eval del: to_lut.simps)
  then show ?thesis
    using assms
    by (auto simp: lop2_to_def src_of_ref_def op_val_def is_unmodified_def nth_src_def sr_of_u32_def simp del: to_lut.simps)
qed

lemma lxor_pred:
  assumes "RegRef_file x = Some f" "RegRef_file y = Some f" "is_predicate f" "RegRef_file d = Some f"
  shows "\<exists>op. lop2_to sm (DstReg d) LXor (reg_src x) (reg_src y) = Some [op] \<and> op_slots op = {} \<and>
    (\<forall>env st. mach_exec env op st = put_dst (DstReg d) (of_bool ((m_regs st x \<noteq> 0) \<noteq> (m_regs st y \<noteq> 0))) st)"
  using assms
  by (auto simp: lop2_to_def src_of_ref_def pred_val_def table_val_def nth_src_def sr_of_bool_def new_const_def simp del: to_lut.simps)

lemma lower_swap_spec:
  assumes f: "RegRef_file x = Some f" "RegRef_file y = Some f" "f \<noteq> Mem"
    and c: "RegRef_comps x = 1" "RegRef_comps y = 1"
  shows "\<exists>ops. lower_swap sm (DstReg x, DstReg y) (reg_src y, reg_src x) = Some ops \<and>
    (\<forall>op\<in>set ops. op_slots op = {}) \<and> swaps start ops x y"
proof -
  have um: "is_unmodified (reg_src r)" "reference (reg_src r) = SrReg r" for r
    by (simp_all add: is_unmodified_def src_of_ref_def)
  have put: "swaps start ops x y"
    if "\<And>env st. preds_ok st \<Longrightarrow> mach_run env ops st = st\<lparr>m_regs := (m_regs st)(x := m_regs st y, y := m_regs st x)\<rparr>" for ops
    using that f by (auto simp: swaps_def view_def preds_ok_def)
  show ?thesis
  proof (cases "x = y")
    case True
    have "swaps start [] x y" by (rule put) (simp add: True)
    with True f c um show ?thesis by (auto simp: lower_swap_def)
  next
    case ne: False
    show ?thesis
    proof (cases "is_predicate f")
      case True
      have b: "m_regs st x \<in> {0, 1}" "m_regs st y \<in> {0, 1}" if "preds_ok st" for st
        using that f True by (auto simp: preds_ok_def)
      show ?thesis
      proof (cases "sm_num sm \<ge> 70")
        case sm: True
        let ?op = "OpPLop3 \<lparr>plop3_dsts = (DstReg x, DstReg y), plop3_srcs = (reg_src x, reg_src y, src_imm_bool True),
          plop3_ops = (new_lut (\<lambda>_ y _. y), new_lut (\<lambda>x _ _. x))\<rparr>"
        have "swaps start [?op] x y"
        proof (rule put)
          fix env and st :: Mach assume "preds_ok st"
          then show "mach_run env [?op] st = st\<lparr>m_regs := (m_regs st)(x := m_regs st y, y := m_regs st x)\<rparr>"
            using b [of st] by (auto simp: table_val_def nth_src_def pred_val_def um put_dst_def src_of_ref_def)
        qed
        with True sm ne f c um show ?thesis by (auto simp: lower_swap_def)
      next
        case sm: False
        obtain a where a: "lop2_to sm (DstReg x) LXor (reg_src x) (reg_src y) = Some [a]" "op_slots a = {}"
          "\<And>env st. mach_exec env a st = put_dst (DstReg x) (of_bool ((m_regs st x \<noteq> 0) \<noteq> (m_regs st y \<noteq> 0))) st"
          using lxor_pred [OF f(1,2) True f(1)] by blast
        obtain a' where a': "lop2_to sm (DstReg y) LXor (reg_src x) (reg_src y) = Some [a']" "op_slots a' = {}"
          "\<And>env st. mach_exec env a' st = put_dst (DstReg y) (of_bool ((m_regs st x \<noteq> 0) \<noteq> (m_regs st y \<noteq> 0))) st"
          using lxor_pred [OF f(1,2) True f(2)] by blast
        have "swaps start [a, a', a] x y"
        proof (rule put)
          fix env and st :: Mach assume "preds_ok st"
          then show "mach_run env [a, a', a] st = st\<lparr>m_regs := (m_regs st)(x := m_regs st y, y := m_regs st x)\<rparr>"
            using b [of st] ne by (auto simp: a(3) a'(3) put_dst_def fun_upd_twist)
        qed
        with True sm ne f c um a a' show ?thesis by (auto simp: lower_swap_def)
      qed
    next
      case False
      obtain a where a: "lop2_to sm (DstReg x) LXor (reg_src x) (reg_src y) = Some [a]" "op_slots a = {}"
        "\<And>env st. mach_exec env a st = put_dst (DstReg x) (m_regs st x XOR m_regs st y) st"
        using lxor_gpr [OF f(1,2) False f(1)] by blast
      obtain a' where a': "lop2_to sm (DstReg y) LXor (reg_src x) (reg_src y) = Some [a']" "op_slots a' = {}"
        "\<And>env st. mach_exec env a' st = put_dst (DstReg y) (m_regs st x XOR m_regs st y) st"
        using lxor_gpr [OF f(1,2) False f(2)] by blast
      have "swaps start [a, a', a] x y"
      proof (rule put)
        fix env and st :: Mach
        show "mach_run env [a, a', a] st = st\<lparr>m_regs := (m_regs st)(x := m_regs st y, y := m_regs st x)\<rparr>"
          using ne by (auto simp: a(3) a'(3) put_dst_def fun_upd_twist xor_swap)
      qed
      with False ne f c um a a' show ?thesis by (auto simp: lower_swap_def)
    qed
  qed
qed

end
