(* ===== verification/ParCopyMachine.thy ===== *)
theory ParCopyMachine
  imports ParCopy CopySwapCorrect
begin

text \<open>
  \<^verbatim>\<open>Shader::lower_par_copies\<close> followed by \<^verbatim>\<open>Shader::lower_copy_swap\<close>.  Every copy and swap the first pass
  emits for a parallel copy between movable register files is one the second pass accepts (by
  computation induction over its three loops), so that the correctness of the two passes composes to
  the parallel assignment on the machine.
\<close>

subsection \<open>\<^verbatim>\<open>Shader::lower_par_copies\<close>\<close>

text \<open>What \<^verbatim>\<open>copy_to\<close> and \<^verbatim>\<open>swap\<close> of the builder push.\<close>

fun copy_instr :: "CopyInstr \<Rightarrow> Instr" where
  "copy_instr (Copy d s) = instr_new (CopyOp (DstReg d) (src_of_ref s))"
| "copy_instr (Swap x y) = instr_new (OtherOp (Virtual SwapOp) [DstReg x, DstReg y] [reg_src y, reg_src x])"

abbreviation "annotate_instr \<equiv> instr_new (OtherOp (Virtual Annotate) [] [])"

definition lpc_instr :: "bool \<Rightarrow> Instr \<Rightarrow> Instr list option" where
  "lpc_instr annotate i =
     (case in_op i of
        ParCopyOp pc \<Rightarrow> assert_then (pred_is_true (in_pred i))
          (map_option (\<lambda>is. (if annotate then [annotate_instr] else []) @ map copy_instr is) (lower_par_copy pc))
      | _ \<Rightarrow> Some [i])"

definition lower_par_copies :: "bool \<Rightarrow> Instr list \<Rightarrow> Instr list option" where
  "lower_par_copies annotate is = foldM (\<lambda>i out. map_option (\<lambda>is'. out @ is') (lpc_instr annotate i)) is []"

subsection \<open>Parallel copies the machine can perform\<close>

text \<open>What can be read into a general register, for a temporary.\<close>

definition gpr_readable :: "u32 \<Rightarrow> SrcRef \<Rightarrow> bool" where
  "gpr_readable start s =
     (case s of
        SrSSA _ \<Rightarrow> False
      | SrReg r \<Rightarrow> RegRef_comps r = 1 \<and>
          (case RegRef_file r of None \<Rightarrow> False | Some g \<Rightarrow> g \<noteq> Carry \<and> (g = Mem \<longrightarrow> slot_ok start r))
      | _ \<Rightarrow> True)"

definition pair_ok :: "u32 \<Rightarrow> RegRef \<Rightarrow> SrcRef \<Rightarrow> bool" where
  "pair_ok start d s =
     (case RegRef_file d of
        None \<Rightarrow> False
      | Some Mem \<Rightarrow> slot_ok start d \<and> gpr_readable start s
      | Some Bar \<Rightarrow> (case s of
           SrReg r \<Rightarrow> RegRef_comps r = 1 \<and> RegRef_file r \<in> {Some GPR, Some UGPR, Some Bar}
         | _ \<Rightarrow> False)
      | Some _ \<Rightarrow> copy_ok start d (src_of_ref s))"

definition pairs_ok :: "u32 \<Rightarrow> OpParCopy \<Rightarrow> bool" where
  "pairs_ok start pc \<longleftrightarrow> (\<forall>(dst, src)\<in>set (pc_dsts_srcs pc).
     case dst of DstReg d \<Rightarrow> pair_ok start d (reference src) | _ \<Rightarrow> False)"

definition copy_instr_ok :: "u32 \<Rightarrow> CopyInstr \<Rightarrow> bool" where
  "copy_instr_ok start i =
     (case i of
        Copy d s \<Rightarrow> copy_ok start d (src_of_ref s)
      | Swap x y \<Rightarrow> RegRef_comps x = 1 \<and> RegRef_comps y = 1 \<and>
          (\<exists>f. RegRef_file x = Some f \<and> RegRef_file y = Some f \<and> f \<noteq> Mem))"

lemma src_of_ref_simps [simp]:
  "reference (src_of_ref s) = s" "is_unmodified (src_of_ref s)" "modifier (src_of_ref s) = ModNone"
  by (simp_all add: src_of_ref_def is_unmodified_def)

lemma copy_instr_ok_gpr:
  assumes "RegRef_file t = Some GPR" "RegRef_comps t = 1" "gpr_readable start s"
  shows "copy_instr_ok start (Copy t s)"
  using assms by (auto simp: copy_instr_ok_def copy_ok_def gpr_readable_def split: SrcRef.splits option.splits)

lemma copy_instr_ok_from_gpr:
  assumes "RegRef_file t = Some GPR" "RegRef_comps t = 1" "RegRef_comps d = 1"
    and "RegRef_file d = Some GPR \<or> RegRef_file d = Some Bar \<or> RegRef_file d = Some Mem \<and> slot_ok start d"
  shows "copy_instr_ok start (Copy d (SrReg t))"
  using assms by (auto simp: copy_instr_ok_def copy_ok_def)

lemma tmp_regs_fields:
  assumes "tmp_ok pc" "t \<in> tmp_regs pc"
  shows "RegRef_file t = Some GPR" "RegRef_comps t = 1"
proof -
  obtain t0 c where t: "pc_tmp pc = Some t0" "RegRef_comp t0 c = Some t" using assms(2) by (auto simp: tmp_regs_def)
  then have "RegRef_file t0 = Some GPR" using assms(1) by (simp add: tmp_ok_def)
  with t(2) have "RegRef_new GPR (RegRef_base_idx t0 + ucast c) 1 = Some t"
    by (auto simp: RegRef_comp_def assert_then_def split: if_splits)
  from RegRef_new_fields [OF this] show "RegRef_file t = Some GPR" "RegRef_comps t = 1" by simp_all
qed

text \<open>The copies of one pair, of the ready loop.\<close>

lemma pc_copy_emits:
  assumes pc: "tmp_ok pc" and "pair_ok start d s" "RegRef_comps d = 1" and c: "pc_copy pc d s = Some is"
  shows "\<forall>i\<in>set is. copy_instr_ok start i"
proof -
  obtain f where f: "RegRef_file d = Some f" using assms(2) by (auto simp: pair_ok_def split: option.splits)
  obtain b where b: "copy_needs_tmp d s = Some b" using c by (auto simp: pc_copy_def bind_eq_Some_conv)
  show ?thesis
  proof (cases b)
    case True
    then obtain t0 t where t: "pc_tmp pc = Some t0" "RegRef_comp t0 0 = Some t" "is = [Copy t s, Copy d (SrReg t)]"
      using c b by (auto simp: pc_copy_def bind_eq_Some_conv)
    then have "t \<in> tmp_regs pc" by (auto simp: tmp_regs_def)
    note tg = tmp_regs_fields [OF pc this]
    have fm: "f = Mem \<or> f = Bar"
      using b True f by (auto simp: copy_needs_tmp_def split: option.splits if_splits)
    then have "gpr_readable start s"
      using assms(2) f by (auto simp: pair_ok_def gpr_readable_def split: SrcRef.splits)
    moreover have "f = Mem \<Longrightarrow> slot_ok start d" using assms(2) f by (simp add: pair_ok_def)
    ultimately show ?thesis
      using copy_instr_ok_gpr [OF tg] copy_instr_ok_from_gpr [OF tg assms(3)] f fm t(3) by auto
  next
    case False
    then have i: "is = [Copy d s]" using c b by (simp add: pc_copy_def)
    have "copy_ok start d (src_of_ref s)"
      using assms(2,3) f b False
      by (cases f) (auto simp: pair_ok_def copy_ok_def copy_needs_tmp_def gpr_readable_def split: SrcRef.splits option.splits)
    with i show ?thesis by (simp add: copy_instr_ok_def)
  qed
qed

subsection \<open>Every copy emitted can be performed\<close>

definition edge_in :: "CopyGraph \<Rightarrow> nat \<Rightarrow> nat \<Rightarrow> bool" where
  "edge_in g a b \<longleftrightarrow> cg_src g a = Some (Some b)"

lemma del_edge_edges:
  assumes "cg_del_edge g i j = Some (l, g')" "edge_in g' a b"
  shows "edge_in g a b" "a \<noteq> i"
  using assms
  by (auto simp: edge_in_def cg_del_edge_def cg_src_def panic_simps bind_eq_Some_conv Let_def nth_list_update split: if_splits)

lemma add_edge_edges:
  assumes "cg_add_edge g i k = Some g'" "edge_in g' a b"
  shows "edge_in g a b \<or> a = i \<and> b = k"
  using assms
  by (auto simp: edge_in_def cg_add_edge_def cg_src_def panic_simps bind_eq_Some_conv Let_def nth_list_update split: if_splits)

abbreviation "all_ok start out \<equiv> \<forall>i\<in>set out. copy_instr_ok start i"

definition pair_edges :: "u32 \<Rightarrow> SrcRef list \<Rightarrow> CopyGraph \<Rightarrow> bool" where
  "pair_edges start vals g \<longleftrightarrow> (\<forall>a b. edge_in g a b \<longrightarrow> a < length vals \<and> b < length vals \<and>
     (\<forall>d. vals ! a = SrReg d \<longrightarrow> RegRef_comps d = 1 \<and> pair_ok start d (vals ! b)))"

lemma pair_edges_del: "pair_edges start vals g \<Longrightarrow> cg_del_edge g i j = Some (l, g') \<Longrightarrow> pair_edges start vals g'"
  unfolding pair_edges_def by (meson del_edge_edges(1))

lemma ready_loop_emits:
  assumes "ready_loop pc vals ready g out = Some y"
    and "tmp_ok pc" "pair_edges start vals g" "all_ok start out"
  shows "all_ok start (snd y)"
proof -
  have "tmp_ok pc \<and> pair_edges start vals g \<and> all_ok start out \<longrightarrow> all_ok start (snd y)"
    using assms(1)
  proof (induction rule: ready_loop.raw_induct [rotated, consumes 1, case_names step])
    case (step f pc vals ready g out y)
    show ?case
    proof (cases ready)
      case Nil
      then show ?thesis using step by auto
    next
      case (Cons d rest)
      obtain s where s: "cg_src g d = Some s" using step(2) Cons by (auto simp: bind_eq_Some_conv)
      show ?thesis
      proof (cases s)
        case None
        then have "f pc vals rest g out = Some y" using step(2) Cons s by simp
        from step(1) [OF this] show ?thesis .
      next
        case (Some k)
        obtain dst src "is" l g' where e: "val_reg vals d = Some dst" "index vals k = Some src"
          "pc_copy pc dst src = Some is" "cg_del_edge g d k = Some (l, g')"
          "f pc vals (if l then k # rest else rest) g' (out @ is) = Some y"
          using step(2) Cons s Some by (auto simp: bind_eq_Some_conv)
        show ?thesis
        proof (intro impI)
          assume h: "tmp_ok pc \<and> pair_edges start vals g \<and> all_ok start out"
          have "edge_in g d k" using s Some by (simp add: edge_in_def)
          then have "RegRef_comps dst = 1 \<and> pair_ok start dst src"
            using h e(1,2) unfolding pair_edges_def by (auto simp: val_reg_def panic_simps bind_eq_Some_conv)
          then have "all_ok start is" using pc_copy_emits e(3) h by blast
          then show "all_ok start (snd y)" using step(1) [OF e(5)] pair_edges_del [OF _ e(4)] h by auto
        qed
      qed
    qed
  qed
  then show ?thesis using assms by blast
qed

text \<open>On the cycles both ends of every edge are single registers of one file.\<close>

definition cycle_reg :: "u32 \<Rightarrow> SrcRef list \<Rightarrow> RegFile \<Rightarrow> nat \<Rightarrow> bool" where
  "cycle_reg start vals f a \<longleftrightarrow> (\<forall>r. val_reg vals a = Some r \<longrightarrow>
     RegRef_comps r = 1 \<and> RegRef_file r = Some f \<and> (f = Mem \<longrightarrow> slot_ok start r))"

definition cycle_edges :: "u32 \<Rightarrow> SrcRef list \<Rightarrow> CopyGraph \<Rightarrow> bool" where
  "cycle_edges start vals g \<longleftrightarrow> (\<forall>a b. edge_in g a b \<longrightarrow> (\<exists>f. cycle_reg start vals f a \<and> cycle_reg start vals f b))"

lemma cycle_edges_del: "cycle_edges start vals g \<Longrightarrow> cg_del_edge g i j = Some (l, g') \<Longrightarrow> cycle_edges start vals g'"
  unfolding cycle_edges_def by (meson del_edge_edges(1))

lemma cycle_edgeD:
  assumes "cycle_edges start vals g" "edge_in g a b" "cycle_reg start vals f a" "val_reg vals a = Some r"
  shows "cycle_reg start vals f b"
proof -
  obtain f' where "cycle_reg start vals f' a" "cycle_reg start vals f' b"
    using assms(1,2) unfolding cycle_edges_def by blast
  moreover then have "f' = f" using assms(3,4) by (simp add: cycle_reg_def)
  ultimately show ?thesis by simp
qed

lemma swap_loop_emits:
  assumes "swap_loop vals i g out = Some y"
    and "val_reg vals i = Some r" "cycle_reg start vals f i" "f \<noteq> Mem" "cycle_edges start vals g" "all_ok start out"
  shows "cycle_edges start vals (fst y) \<and> all_ok start (snd y)"
proof -
  have "(\<exists>r. val_reg vals i = Some r) \<and> cycle_reg start vals f i \<and> f \<noteq> Mem \<and> cycle_edges start vals g \<and> all_ok start out \<longrightarrow>
      cycle_edges start vals (fst y) \<and> all_ok start (snd y)"
    using assms(1)
  proof (induction rule: swap_loop.raw_induct [rotated, consumes 1, case_names step])
    case (step loop vals i g out y)
    obtain j k jr kr sw l1 g1 l2 g2 where e: "edge_in g i j" "edge_in g j k" "val_reg vals j = Some jr"
      "val_reg vals k = Some kr" "b_swap jr kr = Some sw" "cg_del_edge g i j = Some (l1, g1)" "cg_del_edge g1 j k = Some (l2, g2)"
      "(if i = k then Some (g2, out @ [sw]) else Option.bind (cg_add_edge g2 i k) (\<lambda>g3. loop vals i g3 (out @ [sw]))) = Some y"
      using step(2) by (auto simp: bind_eq_Some_conv edge_in_def)
    show ?case
    proof (intro impI)
      assume h: "(\<exists>r. val_reg vals i = Some r) \<and> cycle_reg start vals f i \<and> f \<noteq> Mem \<and> cycle_edges start vals g \<and> all_ok start out"
      then have cj: "cycle_reg start vals f j" using cycle_edgeD [OF _ e(1)] by blast
      then have ck: "cycle_reg start vals f k" using cycle_edgeD [OF _ e(2) _ e(3)] h by blast
      have "sw = Swap jr kr" using e(5) by (auto simp: b_swap_def panic_simps bind_eq_Some_conv)
      then have "copy_instr_ok start sw"
        using cj ck e(3,4) h by (auto simp: copy_instr_ok_def cycle_reg_def)
      then have out: "all_ok start (out @ [sw])" using h by auto
      have g2: "cycle_edges start vals g2" using h cycle_edges_del [OF cycle_edges_del [OF _ e(6)] e(7)] by blast
      show "cycle_edges start vals (fst y) \<and> all_ok start (snd y)"
      proof (cases "i = k")
        case True
        then show ?thesis using e(8) g2 out by auto
      next
        case False
        then obtain g3 where g3: "cg_add_edge g2 i k = Some g3" "loop vals i g3 (out @ [sw]) = Some y"
          using e(8) by (auto simp: bind_eq_Some_conv)
        have "cycle_edges start vals g3"
          using g2 add_edge_edges [OF g3(1)] h ck unfolding cycle_edges_def by blast
        then show ?thesis using step(1) [OF g3(2)] h out by blast
      qed
    qed
  qed
  then show ?thesis using assms by blast
qed

lemma cycle_copy_emits:
  assumes pc: "tmp_ok pc" "pc_tmp pc = Some t" and c: "cycle_copy t f p_reg j_reg = Some is"
    and "f = GPR \<or> f = Bar \<or> f = Mem"
    and p: "RegRef_comps p_reg = 1" "RegRef_file p_reg = Some f" "f = Mem \<longrightarrow> slot_ok start p_reg"
    and j: "RegRef_comps j_reg = 1" "RegRef_file j_reg = Some f" "f = Mem \<longrightarrow> slot_ok start j_reg"
  shows "all_ok start is"
proof (cases "f = Bar \<or> f = Mem")
  case True
  then obtain c where c: "RegRef_comp t 1 = Some c" "is = [Copy c (SrReg j_reg), Copy p_reg (SrReg c)]"
    using c by (auto simp: cycle_copy_def panic_simps bind_eq_Some_conv)
  then have "c \<in> tmp_regs pc" using pc(2) by (auto simp: tmp_regs_def)
  note tg = tmp_regs_fields [OF pc(1) this]
  have "gpr_readable start (SrReg j_reg)" using j True by (auto simp: gpr_readable_def)
  then show ?thesis
    using copy_instr_ok_gpr [OF tg] copy_instr_ok_from_gpr [OF tg p(1)] p c(2) True by auto
next
  case False
  then have "f = GPR" "is = [Copy p_reg (SrReg j_reg)]"
    using assms(4) c by (auto simp: cycle_copy_def panic_simps bind_eq_Some_conv)
  then show ?thesis using copy_instr_ok_from_gpr [of j_reg p_reg] p j by simp
qed

lemma tmp_loop_emits:
  assumes "tmp_loop t f vals i p p_reg g out = Some y"
    and "tmp_ok pc" "pc_tmp pc = Some t" "f = GPR \<or> f = Bar \<or> f = Mem"
    and "val_reg vals p = Some p_reg" "cycle_reg start vals f p" "cycle_edges start vals g" "all_ok start out"
  shows "cycle_edges start vals (fst (snd (snd y))) \<and> all_ok start (snd (snd (snd y))) \<and>
    val_reg vals (fst y) = Some (fst (snd y)) \<and> cycle_reg start vals f (fst y)"
proof -
  have "pc_tmp pc = Some t \<and> (f = GPR \<or> f = Bar \<or> f = Mem) \<and>
      val_reg vals p = Some p_reg \<and> cycle_reg start vals f p \<and> cycle_edges start vals g \<and> all_ok start out \<longrightarrow>
      cycle_edges start vals (fst (snd (snd y))) \<and> all_ok start (snd (snd (snd y))) \<and>
      val_reg vals (fst y) = Some (fst (snd y)) \<and> cycle_reg start vals f (fst y)"
    using assms(1)
  proof (induction rule: tmp_loop.raw_induct [rotated, consumes 1, case_names step])
    case (step loop t f vals i p p_reg g out y)
    obtain j where j: "edge_in g p j" using step(2) by (auto simp: bind_eq_Some_conv edge_in_def)
    show ?case
    proof (cases "j = i")
      case True
      then have "y = (p, p_reg, g, out)" using step(2) j by (simp add: edge_in_def)
      then show ?thesis by simp
    next
      case False
      then obtain jr "is" l g' where e: "val_reg vals j = Some jr" "cycle_copy t f p_reg jr = Some is"
        "cg_del_edge g p j = Some (l, g')" "loop t f vals i j jr g' (out @ is) = Some y"
        using step(2) j by (auto simp: bind_eq_Some_conv edge_in_def)
      show ?thesis
      proof (intro impI)
        assume h: "pc_tmp pc = Some t \<and> (f = GPR \<or> f = Bar \<or> f = Mem) \<and>
          val_reg vals p = Some p_reg \<and> cycle_reg start vals f p \<and> cycle_edges start vals g \<and> all_ok start out"
        then have cj: "cycle_reg start vals f j" using cycle_edgeD [OF _ j] by blast
        have "all_ok start is"
          by (rule cycle_copy_emits [OF assms(2) _ e(2)]) (use h cj e(1) in \<open>auto simp: cycle_reg_def\<close>)
        then show "cycle_edges start vals (fst (snd (snd y))) \<and> all_ok start (snd (snd (snd y))) \<and>
          val_reg vals (fst y) = Some (fst (snd y)) \<and> cycle_reg start vals f (fst y)"
          using step(1) [OF e(4)] h cj e(1) cycle_edges_del [OF _ e(3)] by auto
      qed
    qed
  qed
  then show ?thesis using assms by blast
qed

lemma pc_cycle_emits:
  assumes pc: "tmp_ok pc" and c: "pc_cycle pc vals i (g, out) = Some y"
    and i: "\<And>r. val_reg vals i = Some r \<Longrightarrow> \<exists>f. cycle_reg start vals f i"
    and g: "cycle_edges start vals g" and o: "all_ok start out"
  shows "cycle_edges start vals (fst y) \<and> all_ok start (snd y)"
proof -
  obtain s where s: "cg_src g i = Some s" using c by (auto simp: pc_cycle_def bind_eq_Some_conv)
  show ?thesis
  proof (cases s)
    case None
    then have "y = (g, out)" using c s by (auto simp: pc_cycle_def bind_eq_Some_conv panic_simps)
    then show ?thesis using g o by simp
  next
    case (Some j)
    obtain reg f b where e: "val_reg vals i = Some reg" "RegRef_file reg = Some f" "cycle_use_swap pc f = Some b"
      and k: "(if b then swap_loop vals i g out else do {
        t \<leftarrow> pc_tmp pc; tmp \<leftarrow> RegRef_comp t 0;
        (p, p_reg, g1, out1) \<leftarrow> tmp_loop t f vals i i reg g (out @ [Copy tmp (SrReg reg)]);
        (_, g2) \<leftarrow> cg_del_edge g1 p i;
        Some (g2, out1 @ [Copy p_reg (SrReg tmp)]) }) = Some y"
      using c s Some by (auto simp: pc_cycle_def bind_eq_Some_conv)
    obtain f' where "cycle_reg start vals f' i" using i e(1) by blast
    then have ci: "cycle_reg start vals f i" using e(1,2) by (auto simp: cycle_reg_def)
    show ?thesis
    proof (cases b)
      case True
      then have "f \<noteq> Mem" using e(3) by (auto simp: cycle_use_swap_def panic_simps bind_eq_Some_conv)
      then show ?thesis using swap_loop_emits [OF _ e(1) ci _ g o] k True by auto
    next
      case False
      then have f: "f = GPR \<or> f = Bar \<or> f = Mem" using e(3) by (auto simp: cycle_use_swap_def split: RegFile.splits)
      obtain t tmp p p_reg g1 out1 l g2 where t: "pc_tmp pc = Some t" "RegRef_comp t 0 = Some tmp"
        "tmp_loop t f vals i i reg g (out @ [Copy tmp (SrReg reg)]) = Some (p, p_reg, g1, out1)"
        "cg_del_edge g1 p i = Some (l, g2)" "y = (g2, out1 @ [Copy p_reg (SrReg tmp)])"
        using k False by (auto simp: bind_eq_Some_conv)
      have "tmp \<in> tmp_regs pc" using t(1,2) by (auto simp: tmp_regs_def)
      note tg = tmp_regs_fields [OF pc this]
      have "gpr_readable start (SrReg reg)"
        using ci e(1,2) f by (auto simp: gpr_readable_def cycle_reg_def)
      then have "all_ok start (out @ [Copy tmp (SrReg reg)])" using o copy_instr_ok_gpr [OF tg] by auto
      from tmp_loop_emits [OF t(3) pc t(1) f e(1) ci g this]
      have l: "cycle_edges start vals g1" "all_ok start out1" "val_reg vals p = Some p_reg" "cycle_reg start vals f p"
        by simp_all
      have "copy_instr_ok start (Copy p_reg (SrReg tmp))"
        by (rule copy_instr_ok_from_gpr [OF tg]) (use l(3,4) f in \<open>auto simp: cycle_reg_def\<close>)
      then show ?thesis using t(5) l(1,2) cycle_edges_del [OF _ t(4)] by auto
    qed
  qed
qed

text \<open>The destinations, as the pairs have them.\<close>

lemma pair_of_dst:
  assumes "par_copy_ok pc" "pairs_ok start pc" "pc_vals pc vals" "i < length (pc_dsts_srcs pc)"
  shows "RegRef_comps (vreg vals i) = 1" "pair_ok start (vreg vals i) (reference (snd (pc_dsts_srcs pc ! i)))"
  using pc_vals_dst(1) [OF assms(1,3,4)] assms(1,2)
  by (fastforce simp: par_copy_ok_def reg_ok_def pairs_ok_def)+

lemma dst_cycle_reg:
  assumes "par_copy_ok pc" "pairs_ok start pc" "pc_vals pc vals" "i < length (pc_dsts_srcs pc)"
    and "RegRef_file (vreg vals i) = Some f"
  shows "cycle_reg start vals f i"
proof -
  have "layout (length (pc_dsts_srcs pc)) vals (tmp_regs pc)" using assms(3) by (simp add: pc_vals_def)
  then have "val_reg vals i = Some (vreg vals i)" using layout_val_reg assms(4) by blast
  then show ?thesis
    using pair_of_dst [OF assms(1-4)] assms(5) by (auto simp: cycle_reg_def pair_ok_def)
qed

lemma edge_in_cg_of: "edge_in (cg_of N E) a b \<longleftrightarrow> a < N \<and> E a = Some b"
  by (cases "a < N") (auto simp: edge_in_def cg_src_of, auto simp: cg_src_def panic_simps)

theorem lower_par_copy_emits:
  assumes pc: "par_copy_ok pc" "pairs_ok start pc" and l: "lower_par_copy pc = Some is"
  shows "all_ok start is"
proof -
  let ?nd = "length (pc_dsts_srcs pc)"
  obtain vals E0 E1 out1 where b: "pc_build pc = Some (cg_of (length vals) E0, vals)" "pc_vals pc vals"
    and g: "graph_ok ?nd vals (tmp_regs pc) E0" "wants pc ?nd vals E0"
    and r: "ready_loop pc vals (rev (filter (\<lambda>i. card (readers E0 i) = 0) [0..<?nd])) (cg_of (length vals) E0) [] =
      Some (cg_of (length vals) E1, out1)"
    and c: "cycles_ok ?nd vals (tmp_regs pc) (pc_want pc :: (SrcRef \<Rightarrow> nat) \<Rightarrow> _) E1 out1"
    by (rule par_copy_ready [OF pc(1)])
  have t: "tmp_ok pc" using pc(1) by (simp add: par_copy_ok_def)
  note gd = graph_okD [OF g(1)] and cd = cycles_okD [OF c]
  have "pair_edges start vals (cg_of (length vals) E0)"
    unfolding pair_edges_def edge_in_cg_of
  proof (intro allI impI)
    fix a k assume "a < length vals \<and> E0 a = Some k"
    then have k: "E0 a = Some k" "a < ?nd" "a < length vals" "k < length vals" using gd(4) by blast+
    then have "reference (snd (pc_dsts_srcs pc ! a)) = vals ! k" using g(2) by (simp add: wants_def)
    then show "a < length vals \<and> k < length vals \<and>
        (\<forall>d. vals ! a = SrReg d \<longrightarrow> RegRef_comps d = 1 \<and> pair_ok start d (vals ! k))"
      using pair_of_dst [OF pc b(2) k(2)] k by auto
  qed
  from ready_loop_emits [OF r t this] have out1: "all_ok start out1" by simp
  have edges: "cycle_edges start vals (cg_of (length vals) E1)"
    unfolding cycle_edges_def edge_in_cg_of
  proof (intro allI impI)
    fix a k assume ak: "a < length vals \<and> E1 a = Some k"
    then obtain l where "E1 k = Some l" using permD(1) [OF cd(2)] by blast
    then have lt: "a < ?nd" "k < ?nd" using graph_okD(4) [OF cd(1)] ak by blast+
    obtain f where "RegRef_file (vreg vals a) = Some f" "RegRef_file (vreg vals k) = Some f"
      using same_filesD [OF cd(3)] ak by blast
    then show "\<exists>f. cycle_reg start vals f a \<and> cycle_reg start vals f k" using dst_cycle_reg [OF pc b(2)] lt by blast
  qed
  obtain st where f: "foldM (pc_cycle pc vals) [0..<?nd] (cg_of (length vals) E1, out1) = Some st" "snd st = is"
    using l unfolding lower_par_copy_phases [OF b r] by auto
  define P where "P = (\<lambda>st. cycle_edges start vals (fst st) \<and> all_ok start (snd st))"
  have "P st"
  proof (rule foldM_invariant [OF f(1)])
    show "P (cg_of (length vals) E1, out1)" using edges out1 by (simp add: P_def)
    fix i st st' assume i: "i \<in> set [0..<?nd]" "P st" "pc_cycle pc vals i st = Some st'"
    then have "\<exists>f. RegRef_file (vreg vals i) = Some f" using pc_vals_dst(2) [OF pc(1) b(2), of i] by auto
    then have "\<exists>f. cycle_reg start vals f i" using dst_cycle_reg [OF pc b(2), of i] i(1) by auto
    then show "P st'" using pc_cycle_emits [OF t, of vals i "fst st" "snd st" st' start] i unfolding P_def by simp
  qed
  then show ?thesis using f(2) by (simp add: P_def)
qed

subsection \<open>The two passes together\<close>

lemma base_val_src_val: "base_val env regs s = src_val (const_val env) regs s"
  by (cases s) auto

lemma slots_in_trans: "slots_in p ops p' \<Longrightarrow> slots_in p' ops' p'' \<Longrightarrow> slots_in p (ops @ ops') p''"
  unfolding slots_in_def by (auto simp: word_le_nat_alt) (meson le_trans)+

lemma lcs_instrs_Cons:
  "lcs_instrs annotate sm (i # is) p = do {
     (xs, p') \<leftarrow> lcs_instr annotate sm p i;
     (ys, p'') \<leftarrow> lcs_instrs annotate sm is p';
     Some (xs @ ys, p'') }"
proof -
  let ?f = "\<lambda>i (out, p). map_option (\<lambda>(is', p). (out @ is', p)) (lcs_instr annotate sm p i)"
  have acc: "foldM ?f is (out, q) = map_option (\<lambda>(ys, q'). (out @ ys, q')) (foldM ?f is ([], q))" for "is" out q
  proof (induction "is" arbitrary: out q)
    case (Cons i "is")
    show ?case
    proof (cases "lcs_instr annotate sm q i")
      case (Some y)
      then show ?thesis using Cons [of "fst y" "snd y"] Cons [of "out @ fst y" "snd y"]
        by (cases y) (simp add: option.map_comp o_def split_def)
    qed simp
  qed simp
  show ?thesis
  proof (cases "lcs_instr annotate sm p i")
    case (Some y)
    obtain xs p' where y: "y = (xs, p')" by (cases y)
    have "lcs_instrs annotate sm (i # is) p = foldM ?f is (xs, p')" by (simp add: lcs_instrs_def Some y)
    also have "\<dots> = map_option (\<lambda>(ys, q'). (xs @ ys, q')) (lcs_instrs annotate sm is p')"
      unfolding lcs_instrs_def by (rule acc)
    finally show ?thesis by (simp add: Some y map_option_case split_def split: option.split)
  qed (simp add: lcs_instrs_def)
qed

text \<open>The emitted operations in a lowered list.\<close>

definition low_ops :: "LowInstr list \<Rightarrow> MachOp list" where
  "low_ops ls = concat (map (\<lambda>l. case l of Emitted op \<Rightarrow> [op] | Kept _ \<Rightarrow> []) ls)"

lemma low_ops_simps [simp]:
  "low_ops [] = []" "low_ops (xs @ ys) = low_ops xs @ low_ops ys" "low_ops (map Emitted ops) = ops"
  "low_ops (Emitted op # ls) = op # low_ops ls" "low_ops (Kept i # ls) = low_ops ls"
  by (auto simp: low_ops_def o_def)

definition same_view :: "u32 \<Rightarrow> (RegRef \<Rightarrow> u32) \<Rightarrow> Mach \<Rightarrow> bool" where
  "same_view start regs st \<longleftrightarrow> (\<forall>r. RegRef_comps r = 1 \<longrightarrow> view start st r = regs r)"

lemma copy_instr_runs:
  assumes ok: "copy_instr_ok (lcs_start p) i"
  shows "\<exists>out p'. lcs_instr annotate sm p (copy_instr i) = Some (out, p') \<and> slots_in p (low_ops out) p' \<and>
    (\<forall>env st regs. preds_ok st \<and> same_view (lcs_start p) regs st \<longrightarrow> preds_ok (mach_run env (low_ops out) st) \<and>
       (\<forall>a. a < lcs_start p \<longrightarrow> m_mem (mach_run env (low_ops out) st) a = m_mem st a) \<and> same_view (lcs_start p) (exec1 (const_val env) i regs) (mach_run env (low_ops out) st))"
proof (cases i)
  case (Copy d s)
  have ok: "copy_ok (lcs_start p) d (src_of_ref s)" using ok Copy by (simp add: copy_instr_ok_def)
  then obtain f where f: "RegRef_file d = Some f" by (auto simp: copy_ok_def split: option.splits)
  obtain ops p' where l: "lower_copy sm p (DstReg d) (src_of_ref s) = Some (ops, p')" "slots_in p ops p'"
    "copied (lcs_start p) ops d f (src_of_ref s)" using lower_copy_spec [OF ok f] by blast
  let ?out = "map Emitted (if annotate then OpAnnotate # ops else ops)"
  have run: "mach_run env (low_ops ?out) st = mach_run env ops st" for env st by simp
  have val: "copy_val env f (view (lcs_start p) st) (src_of_ref s) = src_val (const_val env) regs s"
    if "same_view (lcs_start p) regs st" for env st regs
    using that ok by (cases s) (auto simp: copy_val_def op_val_def same_view_def copy_ok_def split: option.splits)
  have "same_view (lcs_start p) (exec1 (const_val env) i regs) (mach_run env ops st)"
    if "preds_ok st" "same_view (lcs_start p) regs st" for env st regs
    using l(3) val [OF that(2), of env] that by (auto simp: copies_def Copy same_view_def)
  moreover have "preds_ok (mach_run env ops st) \<and> (\<forall>a. a < lcs_start p \<longrightarrow> m_mem (mach_run env ops st) a = m_mem st a)"
    if "preds_ok st" for env st
    using l(3) that by (auto simp: copies_def)
  moreover have "slots_in p (low_ops ?out) p'" using l(2) by (auto simp: slots_in_def)
  moreover have "lcs_instr annotate sm p (copy_instr i) = Some (?out, p')"
    using l(1) by (simp add: Copy lcs_instr_def instr_new_def pred_is_true_def pred_of_bool_def)
  ultimately show ?thesis using run by metis
next
  case (Swap x y)
  then obtain f where f: "RegRef_file x = Some f" "RegRef_file y = Some f" "f \<noteq> Mem"
    "RegRef_comps x = 1" "RegRef_comps y = 1" using ok by (auto simp: copy_instr_ok_def)
  obtain ops where l: "lower_swap sm (DstReg x, DstReg y) (reg_src y, reg_src x) = Some ops"
    "\<forall>op\<in>set ops. op_slots op = {}" "swaps (lcs_start p) ops x y" using lower_swap_spec [OF f] by blast
  let ?out = "map Emitted (if annotate then OpAnnotate # ops else ops)"
  have run: "mach_run env (low_ops ?out) st = mach_run env ops st" for env st by simp
  have "same_view (lcs_start p) (exec1 (const_val env) i regs) (mach_run env ops st)"
    if "preds_ok st" "same_view (lcs_start p) regs st" for env st regs
    using l(3) that f by (auto simp: swaps_def Swap same_view_def)
  moreover have "preds_ok (mach_run env ops st) \<and> (\<forall>a. a < lcs_start p \<longrightarrow> m_mem (mach_run env ops st) a = m_mem st a)"
    if "preds_ok st" for env st
    using l(3) that by (auto simp: swaps_def)
  moreover have "slots_in p (low_ops ?out) p" using l(2) by (auto simp: slots_in_def)
  moreover have "lcs_instr annotate sm p (copy_instr i) = Some (?out, p)"
    using l(1) by (simp add: Swap lcs_instr_def instr_new_def pred_is_true_def pred_of_bool_def)
  ultimately show ?thesis using run by metis
qed

lemma copy_instrs_run:
  assumes "all_ok (lcs_start p) is"
  shows "\<exists>out p'. lcs_instrs annotate sm (map copy_instr is) p = Some (out, p') \<and> slots_in p (low_ops out) p' \<and>
    (\<forall>env st regs. preds_ok st \<and> same_view (lcs_start p) regs st \<longrightarrow> preds_ok (mach_run env (low_ops out) st) \<and>
       (\<forall>a. a < lcs_start p \<longrightarrow> m_mem (mach_run env (low_ops out) st) a = m_mem st a) \<and> same_view (lcs_start p) (exec (const_val env) is regs) (mach_run env (low_ops out) st))"
  using assms
proof (induction "is" arbitrary: p)
  case Nil
  then show ?case by (simp add: lcs_instrs_def slots_in_def)
next
  case (Cons i "is")
  obtain out1 p1 where 1: "lcs_instr annotate sm p (copy_instr i) = Some (out1, p1)" "slots_in p (low_ops out1) p1"
    "\<And>env st regs. preds_ok st \<and> same_view (lcs_start p) regs st \<Longrightarrow> preds_ok (mach_run env (low_ops out1) st) \<and>
       (\<forall>a. a < lcs_start p \<longrightarrow> m_mem (mach_run env (low_ops out1) st) a = m_mem st a) \<and> same_view (lcs_start p) (exec1 (const_val env) i regs) (mach_run env (low_ops out1) st)"
    using copy_instr_runs [of p i] Cons.prems by force
  have st: "lcs_start p1 = lcs_start p" using 1(2) by (simp add: slots_in_def)
  obtain out2 p2 where 2: "lcs_instrs annotate sm (map copy_instr is) p1 = Some (out2, p2)" "slots_in p1 (low_ops out2) p2"
    "\<And>env st regs. preds_ok st \<and> same_view (lcs_start p) regs st \<Longrightarrow> preds_ok (mach_run env (low_ops out2) st) \<and>
       (\<forall>a. a < lcs_start p \<longrightarrow> m_mem (mach_run env (low_ops out2) st) a = m_mem st a) \<and> same_view (lcs_start p) (exec (const_val env) is regs) (mach_run env (low_ops out2) st)"
    using Cons.IH [of p1] Cons.prems st by force
  have "lcs_instrs annotate sm (map copy_instr (i # is)) p = Some (out1 @ out2, p2)"
    using 1(1) 2(1) by (simp add: lcs_instrs_Cons)
  moreover have "slots_in p (low_ops (out1 @ out2)) p2" using slots_in_trans [OF 1(2) 2(2)] by simp
  moreover have "preds_ok (mach_run env (low_ops (out1 @ out2)) st) \<and>
      (\<forall>a. a < lcs_start p \<longrightarrow> m_mem (mach_run env (low_ops (out1 @ out2)) st) a = m_mem st a) \<and>
      same_view (lcs_start p) (exec (const_val env) (i # is) regs) (mach_run env (low_ops (out1 @ out2)) st)"
    if h: "preds_ok st \<and> same_view (lcs_start p) regs st" for env st regs
  proof -
    note s1 = 1(3) [OF h, of env]
    then have "preds_ok (mach_run env (low_ops out1) st) \<and>
      same_view (lcs_start p) (exec1 (const_val env) i regs) (mach_run env (low_ops out1) st)" by blast
    from s1 2(3) [OF this, of env] show ?thesis by simp
  qed
  ultimately show ?case by blast
qed

subsection \<open>Properties\<close>

lemma lower_par_copies_one:
  assumes "in_op i = ParCopyOp pc" "pred_is_true (in_pred i)" "lower_par_copy pc = Some is"
  shows "lower_par_copies annotate [i] = Some ((if annotate then [annotate_instr] else []) @ map copy_instr is)"
  using assms by (simp add: lower_par_copies_def lpc_instr_def)

lemma annotated_run:
  assumes "lcs_instrs annotate sm is p = Some (out, p')"
  shows "\<exists>out'. lcs_instrs annotate sm ((if annotate then [annotate_instr] else []) @ is) p = Some (out', p') \<and> low_ops out' = low_ops out"
  using assms by (auto simp: lcs_instrs_Cons lcs_instr_def instr_new_def)

text \<open>
  Property C18.  Register allocation's parallel copies reach the machine intact.  A well-formed parallel
  copy between register files the hardware can move, given to \<^verbatim>\<open>lower_par_copies\<close> and its result to
  \<^verbatim>\<open>lower_copy_swap\<close>, becomes machine operations after which every destination, a register or a spill
  slot, holds the value its source had before the first of them; every other register and slot except
  the temporaries is unchanged, predicates stay truth values, the shader's own local memory below
  \<open>lcs_start\<close> is untouched, and every slot accessed lies inside the local memory size reported.
\<close>

theorem par_copy_on_machine:
  assumes i: "in_op i = ParCopyOp pc" "pred_is_true (in_pred i)" and ok: "par_copy_ok pc" "pairs_ok (lcs_start p) pc"
  shows "\<exists>is out p'. lower_par_copies annotate [i] = Some is \<and> lcs_instrs annotate sm is p = Some (out, p') \<and>
    slots_in p (low_ops out) p' \<and>
    (\<forall>env st. preds_ok st \<longrightarrow>
      (let st' = mach_run env (low_ops out) st in
       preds_ok st' \<and> (\<forall>a. a < lcs_start p \<longrightarrow> m_mem st' a = m_mem st a) \<and>
       (\<forall>d src. (DstReg d, src) \<in> set (pc_dsts_srcs pc) \<longrightarrow>
          view (lcs_start p) st' d = op_val env (view (lcs_start p) st) src) \<and>
       (\<forall>r. RegRef_comps r = 1 \<and> r \<notin> tmp_regs pc \<and> DstReg r \<notin> fst ` set (pc_dsts_srcs pc) \<longrightarrow>
          view (lcs_start p) st' r = view (lcs_start p) st r)))"
proof -
  let ?ps = "pc_dsts_srcs pc" and ?s = "lcs_start p"
  obtain "is" vals where l: "lower_par_copy pc = Some is" "pc_vals pc vals"
    "inv_all (length ?ps) vals (tmp_regs pc) (pc_want pc :: (SrcRef \<Rightarrow> u32) \<Rightarrow> _) None Map.empty is"
    using lower_par_copy_spec [OF ok(1), where ?'v = u32] by blast
  obtain out p' where o: "lcs_instrs annotate sm (map copy_instr is) p = Some (out, p')" "slots_in p (low_ops out) p'"
    "\<And>env st regs. preds_ok st \<and> same_view ?s regs st \<Longrightarrow> preds_ok (mach_run env (low_ops out) st) \<and>
       (\<forall>a. a < ?s \<longrightarrow> m_mem (mach_run env (low_ops out) st) a = m_mem st a) \<and>
       same_view ?s (exec (const_val env) is regs) (mach_run env (low_ops out) st)"
    using copy_instrs_run [OF lower_par_copy_emits [OF ok l(1)]] by blast
  obtain out' where o': "lcs_instrs annotate sm ((if annotate then [annotate_instr] else []) @ map copy_instr is) p =
      Some (out', p')" "low_ops out' = low_ops out" using annotated_run [OF o(1)] by blast
  have run: "let st' = mach_run env (low_ops out) st in
       preds_ok st' \<and> (\<forall>a. a < ?s \<longrightarrow> m_mem st' a = m_mem st a) \<and>
       (\<forall>d src. (DstReg d, src) \<in> set ?ps \<longrightarrow> view ?s st' d = op_val env (view ?s st) src) \<and>
       (\<forall>r. RegRef_comps r = 1 \<and> r \<notin> tmp_regs pc \<and> DstReg r \<notin> fst ` set ?ps \<longrightarrow> view ?s st' r = view ?s st r)"
    if st: "preds_ok st" for env st
  proof -
    let ?regs = "view ?s st" and ?st' = "mach_run env (low_ops out) st"
    have o: "preds_ok ?st'" "\<forall>a. a < ?s \<longrightarrow> m_mem ?st' a = m_mem st a"
      "same_view ?s (exec (const_val env) is ?regs) ?st'"
      using o(3) [of st ?regs env] st by (auto simp: same_view_def)
    have inv: "pc_inv (const_val env) (length ?ps) vals (tmp_regs pc) (pc_want pc (const_val env) ?regs) ?regs None Map.empty
        (exec (const_val env) is ?regs)"
      using l(3) by (simp add: inv_all_def)
    have at: "fst (?ps ! k) = DstReg (vreg vals k)" if "k < length ?ps" for k using l(2) that by (simp add: pc_vals_def)
    have "view ?s ?st' d = op_val env ?regs src" if m: "(DstReg d, src) \<in> set ?ps" for d src
    proof -
      obtain k where k: "k < length ?ps" "?ps ! k = (DstReg d, src)" using m by (metis in_set_conv_nth)
      have "RegRef_comps d = 1" "is_unmodified src"
        using ok(1) m by (fastforce simp: par_copy_ok_def reg_ok_def src_ok_def)+
      then show ?thesis
        using pc_invD(2) [OF inv k(1)] k at [OF k(1)] o(3)
        by (simp add: pc_want_def same_view_def op_val_def base_val_src_val)
    qed
    moreover have "view ?s ?st' r = ?regs r"
      if r: "RegRef_comps r = 1" "r \<notin> tmp_regs pc" "DstReg r \<notin> fst ` set ?ps" for r
    proof -
      have "r \<noteq> vreg vals k" if "k < length ?ps" for k using at [OF that] r(3) that by (metis image_eqI nth_mem)
      then have "exec (const_val env) is ?regs r = ?regs r" using pc_invD(3) [OF inv] r(2) by blast
      then show ?thesis using o(3) r(1) by (simp add: same_view_def)
    qed
    ultimately show ?thesis using o(1,2) by (simp add: Let_def)
  qed
  show ?thesis
    by (intro exI conjI, rule lower_par_copies_one [OF i l(1)], rule o'(1), use o(2) o'(2) run in simp_all)
qed

text \<open>Two spill slots exchange their values through a pair of temporaries, and a register is set.\<close>

definition spill_exchange :: OpParCopy where
  "spill_exchange = \<lparr>pc_dsts_srcs =
     [(DstReg \<lparr>rr_packed = 0xC0000000\<rparr>, src_of_ref (SrReg \<lparr>rr_packed = 0xC0000001\<rparr>)),
      (DstReg \<lparr>rr_packed = 0xC0000001\<rparr>, src_of_ref (SrReg \<lparr>rr_packed = 0xC0000000\<rparr>)),
      (DstReg \<lparr>rr_packed = 5\<rparr>, src_of_ref (Imm32 7))], pc_tmp = Some \<lparr>rr_packed = 0x0400000A\<rparr>\<rparr>"

lemma spill_exchange_regs:
  "RegRef_comps \<lparr>rr_packed = 0xC0000000\<rparr> = 1" "RegRef_comps \<lparr>rr_packed = 0xC0000001\<rparr> = 1" "RegRef_comps \<lparr>rr_packed = 5\<rparr> = 1"
  "RegRef_comps \<lparr>rr_packed = 0x0400000A\<rparr> = 2"
  "RegRef_file \<lparr>rr_packed = 0xC0000000\<rparr> = Some Mem" "RegRef_file \<lparr>rr_packed = 0xC0000001\<rparr> = Some Mem"
  "RegRef_file \<lparr>rr_packed = 5\<rparr> = Some GPR" "RegRef_file \<lparr>rr_packed = 0x0400000A\<rparr> = Some GPR"
  "RegRef_comp \<lparr>rr_packed = 0x0400000A\<rparr> 0 = Some \<lparr>rr_packed = 10\<rparr>" "RegRef_comp \<lparr>rr_packed = 0x0400000A\<rparr> 1 = Some \<lparr>rr_packed = 11\<rparr>"
  by code_simp+

lemma spill_exchange_tmps: "tmp_regs spill_exchange \<subseteq> {\<lparr>rr_packed = 10\<rparr>, \<lparr>rr_packed = 11\<rparr>}"
proof -
  have "r \<in> {\<lparr>rr_packed = 10\<rparr>, \<lparr>rr_packed = 11\<rparr>}" if "RegRef_comp \<lparr>rr_packed = 0x0400000A\<rparr> c = Some r" for c r
  proof -
    have "c < 2" using that spill_exchange_regs(4) by (auto simp: RegRef_comp_def panic_simps)
    then have "unat c = 0 \<or> unat c = 1" by (auto simp: word_less_nat_alt)
    then have "c = 0 \<or> c = 1" by (auto simp: word_unat_eq_iff)
    then show ?thesis using that spill_exchange_regs(9,10) by auto
  qed
  then show ?thesis by (auto simp: tmp_regs_def spill_exchange_def)
qed

lemma spill_exchange_set:
  "set (pc_dsts_srcs spill_exchange) = {(DstReg \<lparr>rr_packed = 0xC0000000\<rparr>, src_of_ref (SrReg \<lparr>rr_packed = 0xC0000001\<rparr>)),
     (DstReg \<lparr>rr_packed = 0xC0000001\<rparr>, src_of_ref (SrReg \<lparr>rr_packed = 0xC0000000\<rparr>)),
     (DstReg \<lparr>rr_packed = 5\<rparr>, src_of_ref (Imm32 7))}"
  "distinct (map fst (pc_dsts_srcs spill_exchange))" "pc_tmp spill_exchange = Some \<lparr>rr_packed = 0x0400000A\<rparr>"
  by (simp_all add: spill_exchange_def)

lemma spill_exchange_ok: "par_copy_ok spill_exchange" "pairs_ok 16 spill_exchange"
proof -
  note r = spill_exchange_regs and s = spill_exchange_set
  have edges: "RegRef_file d = RegRef_file s" if "(d, s) \<in> reg_edges spill_exchange" for d s
    using that unfolding reg_edges_def spill_exchange_set(1) by (elim CollectE exE) (auto simp: r)
  have e: "\<forall>(d, s)\<in>reg_edges spill_exchange. (s, d) \<in> (reg_edges spill_exchange)\<^sup>* \<longrightarrow> RegRef_file d = RegRef_file s"
    by (clarify, rule edges)
  have ro: "reg_ok spill_exchange \<lparr>rr_packed = 0xC0000000\<rparr>" "reg_ok spill_exchange \<lparr>rr_packed = 0xC0000001\<rparr>"
    "reg_ok spill_exchange \<lparr>rr_packed = 5\<rparr>"
    using r spill_exchange_tmps by (auto simp: reg_ok_def)
  have so: "src_ok spill_exchange (src_of_ref (SrReg x))" if "reg_ok spill_exchange x" for x
    using that by (simp add: src_ok_def)
  have si: "src_ok spill_exchange (src_of_ref (Imm32 7))" by (simp add: src_ok_def)
  have t: "tmp_ok spill_exchange" by (simp add: tmp_ok_def s(3) r)
  show "par_copy_ok spill_exchange"
    unfolding par_copy_ok_def s(1) using ro so si s(2) t e by simp
  have "slot_ok 16 \<lparr>rr_packed = 0xC0000000\<rparr>" "slot_ok 16 \<lparr>rr_packed = 0xC0000001\<rparr>"
    by (simp_all add: slot_ok_def RegRef_base_idx_def)
  then show "pairs_ok 16 spill_exchange"
    unfolding pairs_ok_def s(1) by (simp add: r pair_ok_def gpr_readable_def copy_ok_def)
qed

theorem par_copy_on_machine_witness:
  "let sm = \<lparr>sm_num = 75, sm_amd = False\<rparr>; s = 16 in
   \<exists>is out p'. lower_par_copies True [instr_new (ParCopyOp spill_exchange)] = Some is \<and>
    lcs_instrs True sm is (lcs_new s) = Some (out, p') \<and> slots_in (lcs_new s) (low_ops out) p' \<and>
    view s (mach_run \<lparr>env_imm = (\<lambda>_. 0), env_md = (\<lambda>_ _ v. v)\<rparr> (low_ops out) \<lparr>m_regs = (\<lambda>_. 0), m_mem = (\<lambda>a. a)\<rparr>)
      \<lparr>rr_packed = 0xC0000000\<rparr> = 20"
proof -
  let ?sm = "\<lparr>sm_num = 75, sm_amd = False\<rparr>" and ?st = "\<lparr>m_regs = (\<lambda>_. 0), m_mem = (\<lambda>a. a)\<rparr>"
  let ?env = "\<lparr>env_imm = (\<lambda>_. 0), env_md = (\<lambda>_ _ v. v)\<rparr> :: MachEnv"
  have i: "in_op (instr_new (ParCopyOp spill_exchange)) = ParCopyOp spill_exchange"
    "pred_is_true (in_pred (instr_new (ParCopyOp spill_exchange)))"
    by (simp_all add: instr_new_def pred_is_true_def pred_of_bool_def)
  have s: "lcs_start (lcs_new 16) = 16" by (simp add: lcs_new_def)
  have p: "preds_ok ?st" by (simp add: preds_ok_def)
  have m: "(DstReg \<lparr>rr_packed = 0xC0000000\<rparr>, src_of_ref (SrReg \<lparr>rr_packed = 0xC0000001\<rparr>)) \<in> set (pc_dsts_srcs spill_exchange)"
    by (simp add: spill_exchange_def)
  have v: "op_val ?env (view 16 ?st) (src_of_ref (SrReg \<lparr>rr_packed = 0xC0000001\<rparr>)) = 20"
    using spill_exchange_regs by (simp add: op_val_def view_def slot_def RegRef_base_idx_def)
  obtain "is" out p' where o: "lower_par_copies True [instr_new (ParCopyOp spill_exchange)] = Some is"
    "lcs_instrs True ?sm is (lcs_new 16) = Some (out, p')" "slots_in (lcs_new 16) (low_ops out) p'"
    and r: "preds_ok ?st \<longrightarrow> (let st' = mach_run ?env (low_ops out) ?st in
       preds_ok st' \<and> (\<forall>a. a < 16 \<longrightarrow> m_mem st' a = m_mem ?st a) \<and>
       (\<forall>d src. (DstReg d, src) \<in> set (pc_dsts_srcs spill_exchange) \<longrightarrow> view 16 st' d = op_val ?env (view 16 ?st) src) \<and>
       (\<forall>r. RegRef_comps r = 1 \<and> r \<notin> tmp_regs spill_exchange \<and> DstReg r \<notin> fst ` set (pc_dsts_srcs spill_exchange) \<longrightarrow>
          view 16 st' r = view 16 ?st r))"
    using par_copy_on_machine [OF i spill_exchange_ok(1), of "lcs_new 16" True ?sm] spill_exchange_ok(2) unfolding s by blast
  have "view 16 (mach_run ?env (low_ops out) ?st) \<lparr>rr_packed = 0xC0000000\<rparr> = 20"
    using r p m v unfolding Let_def by metis
  then show ?thesis using o unfolding Let_def by blast
qed

text \<open>
  Property C19.  For every copy between register files the pass accepts, \<^verbatim>\<open>lower_copy\<close> does not panic and the
  operations it chooses transfer exactly the copy's value, whatever the machine held: the destination
  register or spill slot receives it, every other register and slot keeps its contents, and the shader's
  own local memory is untouched.
\<close>

theorem lower_copy_correct:
  assumes "copy_ok (lcs_start p) dst src" and "RegRef_file dst = Some f"
  shows "\<exists>ops p'. lower_copy sm p (DstReg dst) src = Some (ops, p') \<and> slots_in p ops p' \<and>
    (\<forall>env st. preds_ok st \<longrightarrow>
      (let st' = mach_run env ops st in
       preds_ok st' \<and> (\<forall>a. a < lcs_start p \<longrightarrow> m_mem st' a = m_mem st a) \<and>
       view (lcs_start p) st' dst = copy_val env f (view (lcs_start p) st) src \<and>
       (\<forall>r. RegRef_comps r = 1 \<and> r \<noteq> dst \<longrightarrow> view (lcs_start p) st' r = view (lcs_start p) st r)))"
proof -
  have "RegRef_comps dst = 1" using assms(1) by (simp add: copy_ok_def)
  moreover obtain ops p' where "lower_copy sm p (DstReg dst) src = Some (ops, p')" "slots_in p ops p'"
    "copied (lcs_start p) ops dst f src" using lower_copy_spec [OF assms, of sm] by blast
  ultimately show ?thesis by (intro exI [of _ ops] exI [of _ p']) (simp add: copies_def Let_def)
qed

theorem lower_copy_correct_witness:
  "let p = lcs_new 16; dst = \<lparr>rr_packed = 5\<rparr>; src = src_of_ref (SrReg \<lparr>rr_packed = 0xC0000001\<rparr>) in
   \<exists>ops p'. lower_copy \<lparr>sm_num = 75, sm_amd = False\<rparr> p (DstReg dst) src = Some (ops, p') \<and> slots_in p ops p'"
proof -
  have ok: "copy_ok (lcs_start (lcs_new 16)) \<lparr>rr_packed = 5\<rparr> (src_of_ref (SrReg \<lparr>rr_packed = 0xC0000001\<rparr>))"
  proof -
    have "slot_ok 16 \<lparr>rr_packed = 0xC0000001\<rparr>" by (simp add: slot_ok_def RegRef_base_idx_def)
    then show ?thesis by (simp add: copy_ok_def spill_exchange_regs lcs_new_def)
  qed
  from lower_copy_correct [OF ok spill_exchange_regs(7), of "\<lparr>sm_num = 75, sm_amd = False\<rparr>"] show ?thesis
    unfolding Let_def by blast
qed

end
