(* ===== verification/OptPrmt.thy ===== *)
theory OptPrmt
  imports Ir FoldShift
begin

text \<open>
  Byte permutation folding, \<^verbatim>\<open>codegen/opt_prmt.rs\<close>: a permutation of permutations becomes one permutation
  of the original sources, with constant bytes collected in one immediate.  First the pass; then what its
  collector of sources (\<^verbatim>\<open>PrmtSrcs\<close>) promises: every byte added can be read back, and stays readable.
\<close>

subsection \<open>Collecting the sources of a permutation\<close>

text \<open>\<^verbatim>\<open>imm_src = usize::MAX\<close> is \<^const>\<open>None\<close>.\<close>

record PrmtSrcs =
  ps_srcs :: "SrcRef list"
  ps_num :: nat
  ps_imm :: "nat option"
  ps_bytes :: nat

definition ps_new :: PrmtSrcs where
  "ps_new = \<lparr>ps_srcs = [SrZero, SrZero], ps_num = 0, ps_imm = None, ps_bytes = 0\<rparr>"

text \<open>The position of the source, if there is room for it.\<close>

definition try_add_src :: "SrcRef \<Rightarrow> PrmtSrcs \<Rightarrow> nat option \<times> PrmtSrcs" where
  "try_add_src src ps =
     (case find (\<lambda>i. ps_srcs ps ! i = src) [0..<ps_num ps] of
        Some i \<Rightarrow> (Some i, ps)
      | None \<Rightarrow>
          if ps_num ps < 2
          then (Some (ps_num ps), ps\<lparr>ps_num := ps_num ps + 1, ps_srcs := (ps_srcs ps)[ps_num ps := src]\<rparr>)
          else (None, ps))"

text \<open>The position of the byte in the one immediate source; the outer option is the panic.\<close>

definition ps_push_byte :: "nat \<Rightarrow> u32 \<Rightarrow> u8 \<Rightarrow> PrmtSrcs \<Rightarrow> (nat option \<times> PrmtSrcs) option" where
  "ps_push_byte k imm u ps =
     (let b = ps_bytes ps in
      assert_then (b * 8 < 32)
        (Some (Some b, ps\<lparr>ps_bytes := b + 1, ps_srcs := (ps_srcs ps)[k := Imm32 (imm OR push_bit (b * 8) (ucast u))]\<rparr>)))"

definition try_add_imm_u8 :: "u8 \<Rightarrow> PrmtSrcs \<Rightarrow> (nat option \<times> PrmtSrcs) option" where
  "try_add_imm_u8 u ps =
     (if ps_imm ps = None \<and> ps_num ps \<ge> 2 then Some (None, ps)
      else
        let (k, ps) = (case ps_imm ps of
          Some k \<Rightarrow> (k, ps)
        | None \<Rightarrow> (ps_num ps, ps\<lparr>ps_imm := Some (ps_num ps), ps_num := ps_num ps + 1\<rparr>)) in
        do {
          s \<leftarrow> index (ps_srcs ps) k;
          case s of
            SrZero \<Rightarrow> if u = 0 then assert_then (ps_bytes ps \<le> 1) (Some (Some 0, ps\<lparr>ps_bytes := 1\<rparr>)) else ps_push_byte k 0 u ps
          | Imm32 imm \<Rightarrow> ps_push_byte k imm u ps
          | _ \<Rightarrow> None
        })"

subsection \<open>The pass\<close>

record PrmtEntry =
  pe_sel :: PrmtSel
  pe_srcs :: "SrcRef list"

type_synonym PrmtPass = "SSAValue \<rightharpoonup> PrmtEntry"

definition add_prmt :: "Dst \<Rightarrow> OpPrmt \<Rightarrow> PrmtPass \<Rightarrow> PrmtPass option" where
  "add_prmt dst op p =
     (case dst of
        DstSSA dst_ssa \<Rightarrow>
          assert_then (SSARef_comps dst_ssa = 1) (do {
            v \<leftarrow> index (SSARef_deref dst_ssa) 0;
            s \<leftarrow> prmt_get_sel op;
            case s of
              None \<Rightarrow> Some p
            | Some sel \<Rightarrow>
                assert_then (is_unmodified (prmt_src op 0) \<and> is_unmodified (prmt_src op 1))
                  (Some (p(v \<mapsto> \<lparr>pe_sel = sel, pe_srcs = [reference (prmt_src op 0), reference (prmt_src op 1)]\<rparr>)))
          })
      | _ \<Rightarrow> Some p)"

definition get_prmt_for_src :: "PrmtPass \<Rightarrow> Src \<Rightarrow> PrmtEntry option option" where
  "get_prmt_for_src p src =
     assert_then (is_unmodified src)
       (case reference src of
          SrSSA vec \<Rightarrow> assert_then (SSARef_comps vec = 1) (map_option p (index (SSARef_deref vec) 0))
        | _ \<Rightarrow> Some None)"

definition set_src :: "nat \<Rightarrow> Src \<Rightarrow> OpPrmt \<Rightarrow> OpPrmt" where
  "set_src i s op =
     (case prmt_srcs op of (a, b, c) \<Rightarrow>
        op\<lparr>prmt_srcs := (if i = 0 then (s, b, c) else if i = 1 then (a, s, c) else (a, b, s))\<rparr>)"

definition sel_src :: "PrmtSel \<Rightarrow> Src" where "sel_src sel = src_of_ref (sr_of_u32 (ucast (psel sel)))"

text \<open>\<^verbatim>\<open>PrmtSelByte::INVALID\<close>.\<close>

definition psb_invalid :: PrmtSelByte where "psb_invalid = \<lparr>psb = 0xff\<rparr>"

text \<open>
  One byte of \<^verbatim>\<open>try_opt_prmt_src\<close>; the state is the new selector and \<^verbatim>\<open>src_prmt_src\<close> (with
  \<^verbatim>\<open>usize::MAX\<close> as \<^const>\<open>None\<close>), and \<^const>\<open>None\<close> once the function has returned false.
\<close>

definition opt_src_byte :: "PrmtSel \<Rightarrow> PrmtEntry \<Rightarrow> nat \<Rightarrow> nat \<Rightarrow> (PrmtSelByte list \<times> nat option) option \<Rightarrow>
    (PrmtSelByte list \<times> nat option) option option" where
  "opt_src_byte op_sel ent src_idx i st =
     (case st of
        None \<Rightarrow> Some None
      | Some (new_sel, src_prmt_src) \<Rightarrow> do {
          ob \<leftarrow> psel_get op_sel i;
          if psb_src ob \<noteq> src_idx then Some (Some (new_sel[i := ob], src_prmt_src))
          else do {
            sb \<leftarrow> psel_get (pe_sel ent) (psb_byte ob);
            if src_prmt_src \<noteq> None \<and> src_prmt_src \<noteq> Some (psb_src sb) then Some None
            else do {
              nb \<leftarrow> psb_new src_idx (psb_byte sb) (psb_msb ob \<or> psb_msb sb);
              Some (Some (new_sel[i := nb], Some (psb_src sb)))
            }
          }
        })"

text \<open>The rewritten operation when the function returns true; \<^const>\<open>None\<close> is false.\<close>

definition try_opt_prmt_src :: "PrmtPass \<Rightarrow> OpPrmt \<Rightarrow> nat \<Rightarrow> OpPrmt option option" where
  "try_opt_prmt_src p op src_idx =
     do {
       s \<leftarrow> prmt_get_sel op;
       case s of None \<Rightarrow> Some None
       | Some op_sel \<Rightarrow> do {
         e \<leftarrow> get_prmt_for_src p (prmt_src op src_idx);
         case e of None \<Rightarrow> Some None
         | Some ent \<Rightarrow> do {
           r \<leftarrow> foldM (opt_src_byte op_sel ent src_idx) [0..<4] (Some (replicate 4 psb_invalid, None));
           case r of None \<Rightarrow> Some None
           | Some (new_sel, src_prmt_src) \<Rightarrow> do {
             sel \<leftarrow> psel_new new_sel;
             new_src \<leftarrow> (case src_prmt_src of
                None \<Rightarrow> Some (src_of_ref (sr_of_u32 0))
              | Some k \<Rightarrow> map_option src_of_ref (index (pe_srcs ent) k));
             Some (Some (set_src src_idx new_src (set_src 2 (sel_src sel) op)))
           }
         }
       }
     }"

text \<open>The source byte a selector byte stands for, seen through the permutation that defines its source.\<close>

datatype SelItem = ImmByte u8 | RefByte SrcRef nat bool

definition sel_item :: "PrmtPass \<Rightarrow> OpPrmt \<Rightarrow> PrmtSelByte \<Rightarrow> SelItem option" where
  "sel_item p op ob =
     (let src = prmt_src op (psb_src ob) in
      do {
        e \<leftarrow> get_prmt_for_src p src;
        case e of
          Some ent \<Rightarrow> do {
            sb \<leftarrow> psel_get (pe_sel ent) (psb_byte ob);
            r \<leftarrow> index (pe_srcs ent) (psb_src sb);
            ou \<leftarrow> sr_as_u32 r;
            Some (case ou of
              Some u \<Rightarrow> let b = psb_fold_u32 sb u in ImmByte (if psb_msb ob then signed_drop_bit 7 b else b)
            | None \<Rightarrow> RefByte r (psb_byte sb) (psb_msb ob \<or> psb_msb sb))
          }
        | None \<Rightarrow> do {
            ou \<leftarrow> as_u32 src TyALU;
            case ou of
              Some u \<Rightarrow> Some (ImmByte (psb_fold_u32 ob u))
            | None \<Rightarrow> assert_then (is_unmodified src) (Some (RefByte (reference src) (psb_byte ob) (psb_msb ob)))
          }
      })"

definition add_item :: "SelItem \<Rightarrow> PrmtSrcs \<Rightarrow> (PrmtSelByte option \<times> PrmtSrcs) option" where
  "add_item item ps =
     (case item of
        ImmByte u \<Rightarrow> do {
          (k, ps) \<leftarrow> try_add_imm_u8 u ps;
          case k of
            None \<Rightarrow> Some (None, ps)
          | Some byte_idx \<Rightarrow> do { s \<leftarrow> ps_imm ps; nb \<leftarrow> psb_new s byte_idx False; Some (Some nb, ps) }
        }
      | RefByte r byte_idx msb \<Rightarrow>
          (case try_add_src r ps of
             (None, ps) \<Rightarrow> Some (None, ps)
           | (Some src_idx, ps) \<Rightarrow> do { nb \<leftarrow> psb_new src_idx byte_idx msb; Some (Some nb, ps) }))"

definition opt_prmt4_byte :: "PrmtPass \<Rightarrow> OpPrmt \<Rightarrow> PrmtSel \<Rightarrow> nat \<Rightarrow> (PrmtSrcs \<times> PrmtSelByte list) option \<Rightarrow>
    (PrmtSrcs \<times> PrmtSelByte list) option option" where
  "opt_prmt4_byte p op op_sel i st =
     (case st of
        None \<Rightarrow> Some None
      | Some (srcs, new_sel) \<Rightarrow> do {
          ob \<leftarrow> psel_get op_sel i;
          item \<leftarrow> sel_item p op ob;
          (nb, srcs) \<leftarrow> add_item item srcs;
          Some (map_option (\<lambda>nb. (srcs, new_sel[i := nb])) nb)
        })"

definition try_opt_prmt4 :: "PrmtPass \<Rightarrow> OpPrmt \<Rightarrow> OpPrmt option option" where
  "try_opt_prmt4 p op =
     do {
       s \<leftarrow> prmt_get_sel op;
       case s of None \<Rightarrow> Some None
       | Some op_sel \<Rightarrow> do {
         r \<leftarrow> foldM (opt_prmt4_byte p op op_sel) [0..<4] (Some (ps_new, replicate 4 psb_invalid));
         case r of None \<Rightarrow> Some None
         | Some (srcs, new_sel) \<Rightarrow> do {
             sel \<leftarrow> psel_new new_sel;
             s0 \<leftarrow> index (ps_srcs srcs) 0;
             s1 \<leftarrow> index (ps_srcs srcs) 1;
             Some (if sel = op_sel \<and> s0 = reference (prmt_src op 0) \<and> s1 = reference (prmt_src op 1) then None
               else Some (set_src 0 (src_of_ref s0) (set_src 1 (src_of_ref s1) (set_src 2 (sel_src sel) op))))
           }
       }
     }"

partial_function (option) prmt_src_loop :: "PrmtPass \<Rightarrow> nat \<Rightarrow> OpPrmt \<Rightarrow> OpPrmt option" where
  "prmt_src_loop p i op =
     do {
       r \<leftarrow> try_opt_prmt_src p op i;
       case r of None \<Rightarrow> Some op | Some op' \<Rightarrow> prmt_src_loop p i op'
     }"

partial_function (option) prmt4_loop :: "PrmtPass \<Rightarrow> OpPrmt \<Rightarrow> OpPrmt option" where
  "prmt4_loop p op =
     do {
       r \<leftarrow> try_opt_prmt4 p op;
       case r of None \<Rightarrow> Some op | Some op' \<Rightarrow> prmt4_loop p op'
     }"

declare prmt_src_loop.simps [code] prmt4_loop.simps [code]

definition opt_prmt_op :: "Dst \<Rightarrow> OpPrmt \<Rightarrow> PrmtPass \<Rightarrow> (OpPrmt \<times> PrmtPass) option" where
  "opt_prmt_op dst op p =
     do {
       op \<leftarrow> foldM (prmt_src_loop p) [0..<2] op;
       op \<leftarrow> prmt4_loop p op;
       p \<leftarrow> add_prmt dst op p;
       Some (op, p)
     }"

definition prmt_instr :: "Instr \<Rightarrow> PrmtPass \<Rightarrow> (Instr \<times> PrmtPass) option" where
  "prmt_instr i p =
     (case in_op i of
        OtherOp (MoveOp (Prmt mode)) [dst] [a, b, sel] \<Rightarrow>
          map_option (\<lambda>(op, p). (case prmt_srcs op of (a, b, sel) \<Rightarrow>
              i\<lparr>in_op := OtherOp (MoveOp (Prmt (prmt_mode op))) [dst] [a, b, sel]\<rparr>, p))
            (opt_prmt_op dst \<lparr>prmt_srcs = (a, b, sel), prmt_mode = mode\<rparr> p)
      | _ \<Rightarrow> Some (i, p))"

definition prmt_block :: "BasicBlock \<Rightarrow> PrmtPass \<Rightarrow> (BasicBlock \<times> PrmtPass) option" where
  "prmt_block b p = map_option (\<lambda>(is, p). (b\<lparr>bb_instrs := is\<rparr>, p)) (traverseM prmt_instr (bb_instrs b) p)"

definition opt_prmt :: "Function \<Rightarrow> Function option" where
  "opt_prmt f =
     map_option (\<lambda>(bs, p). f\<lparr>fn_blocks := (fn_blocks f)\<lparr>cfg_blocks := bs\<rparr>\<rparr>)
       (traverseM prmt_block (cfg_blocks (fn_blocks f)) Map.empty)"

subsection \<open>Selector bytes\<close>

lemma psb_new_spec:
  assumes "s < 2" "k < 4"
  shows "\<exists>b. psb_new s k m = Some b \<and> psb_src b = s \<and> psb_byte b = k \<and> psb_msb b = m \<and> psb b \<le> 0xf"
proof -
  have "s = 0 \<or> s = 1" "k = 0 \<or> k = 1 \<or> k = 2 \<or> k = 3" using assms by auto
  then show ?thesis
    by (elim disjE; cases m) (simp_all add: psb_new_def psb_src_def psb_byte_def psb_msb_def Let_def)
qed

lemma upt4: "[0..<4] = [0, 1, 2, 3 :: nat]"
  by (simp add: upt_rec)

lemma lt4: "i < 4 \<longleftrightarrow> i = 0 \<or> i = 1 \<or> i = 2 \<or> i = (3 :: nat)"
  by auto

lemma le_f_bits: "(w :: u8) \<le> 0xf \<Longrightarrow> bit w n \<Longrightarrow> n < 4"
proof -
  assume w: "w \<le> 0xf" and n: "bit w n"
  have "unat w < 2 ^ 4" using w by (simp add: word_le_nat_alt)
  then have "take_bit 4 w = w" by (simp add: word_unat_eq_iff unsigned_take_bit_eq take_bit_nat_eq_self)
  then show "n < 4" using n by (metis bit_take_bit_iff)
qed

lemma psel_new_spec:
  assumes "length bs = 4" "\<And>i. i < 4 \<Longrightarrow> psb (bs ! i) \<le> 0xf"
  shows "\<exists>sel. psel_new bs = Some sel \<and> (\<forall>i<4. psel_get sel i = Some (bs ! i))"
proof -
  obtain b0 b1 b2 b3 where bs: "bs = [b0, b1, b2, b3]"
    using assms(1) by (auto simp: numeral_eq_Suc length_Suc_conv)
  have le: "psb b0 \<le> 0xf" "psb b1 \<le> 0xf" "psb b2 \<le> 0xf" "psb b3 \<le> 0xf"
    using assms(2) [of 0] assms(2) [of 1] assms(2) [of 2] assms(2) [of 3] by (simp_all add: bs)
  let ?w = "ucast (psb b0) OR push_bit 4 (ucast (psb b1)) OR push_bit 8 (ucast (psb b2)) OR push_bit 12 (ucast (psb b3)) :: u16"
  have n: "psel_new bs = Some \<lparr>psel = ?w\<rparr>"
    using le by (simp add: psel_new_def upt4 bs index_def or.assoc)
  have f: "bit (0xf :: u16) i \<longleftrightarrow> i < 4" for i
    using bit_mask_iff [where ?'a = u16, of 4 i] by (auto simp: mask_eq_exp_minus_1)
  have "ucast (drop_bit (4 * i) ?w AND 0xf) = psb ([b0, b1, b2, b3] ! i)" if "i < 4" for i
  proof (rule bit_word_eqI)
    fix n assume "n < LENGTH(8)"
    show "bit (ucast (drop_bit (4 * i) ?w AND 0xf) :: u8) n \<longleftrightarrow> bit (psb ([b0, b1, b2, b3] ! i)) n"
      using that le_f_bits le f unfolding lt4
      by (elim disjE) (auto simp: bit_simps dest: le_f_bits)
  qed
  then have "psel_get \<lparr>psel = ?w\<rparr> i = Some (bs ! i)" if "i < 4" for i
    using that by (simp add: psel_get_def bs mult.commute)
  then show ?thesis using n by blast
qed

subsection \<open>Packing four bytes into two sources\<close>

definition item_ok :: "SelItem \<Rightarrow> bool" where
  "item_ok item \<longleftrightarrow> (case item of ImmByte _ \<Rightarrow> True | RefByte r k _ \<Rightarrow> sr_as_u32 r = Some None \<and> k < 4)"

definition imm_val :: "SrcRef \<Rightarrow> u32" where "imm_val r = (case r of Imm32 u \<Rightarrow> u | _ \<Rightarrow> 0)"

text \<open>
  The immediate source is zero, or its bytes from \<open>ps_bytes\<close> on are free.
\<close>

definition ps_inv :: "PrmtSrcs \<Rightarrow> bool" where
  "ps_inv ps \<longleftrightarrow> length (ps_srcs ps) = 2 \<and> ps_num ps \<le> 2 \<and> (\<forall>i. ps_num ps \<le> i \<and> i < 2 \<longrightarrow> ps_srcs ps ! i = SrZero) \<and>
     (case ps_imm ps of
        None \<Rightarrow> ps_bytes ps = 0
      | Some k \<Rightarrow> k < ps_num ps \<and> (ps_srcs ps ! k = SrZero \<and> ps_bytes ps \<le> 1 \<or>
          (\<exists>u. ps_srcs ps ! k = Imm32 u) \<and> (\<forall>n. bit (imm_val (ps_srcs ps ! k)) n \<longrightarrow> n < 8 * ps_bytes ps)))"

text \<open>The byte a selector byte reads from the sources collected.\<close>

definition item_in :: "PrmtSrcs \<Rightarrow> SelItem \<Rightarrow> PrmtSelByte \<Rightarrow> bool" where
  "item_in ps item nb \<longleftrightarrow> psb nb \<le> 0xf \<and>
     (case item of
        ImmByte u \<Rightarrow> ps_imm ps = Some (psb_src nb) \<and> \<not> psb_msb nb \<and> psb_byte nb < ps_bytes ps \<and>
          ucast (drop_bit (8 * psb_byte nb) (imm_val (ps_srcs ps ! psb_src nb))) = u
      | RefByte r k m \<Rightarrow> psb_src nb < ps_num ps \<and> ps_imm ps \<noteq> Some (psb_src nb) \<and> ps_srcs ps ! psb_src nb = r \<and>
          psb_byte nb = k \<and> psb_msb nb = m)"

abbreviation (input) "keeps ps ps' \<equiv> \<forall>item nb. item_in ps item nb \<longrightarrow> item_in ps' item nb"

lemma item_in_mono:
  assumes "ps_num ps \<le> ps_num ps'" "ps_bytes ps \<le> ps_bytes ps'"
    and "\<And>i. i < ps_num ps \<Longrightarrow> ps_imm ps \<noteq> Some i \<Longrightarrow> ps_srcs ps' ! i = ps_srcs ps ! i \<and> ps_imm ps' \<noteq> Some i"
    and "\<And>k i. ps_imm ps = Some k \<Longrightarrow> i < ps_bytes ps \<Longrightarrow> ps_imm ps' = Some k \<and>
      (ucast (drop_bit (8 * i) (imm_val (ps_srcs ps' ! k))) :: u8) = ucast (drop_bit (8 * i) (imm_val (ps_srcs ps ! k)))"
  shows "keeps ps ps'"
  using assms by (fastforce simp: item_in_def split: SelItem.splits)

lemma try_add_src_spec:
  assumes inv: "ps_inv ps" and r: "sr_as_u32 r = Some None"
  shows "case try_add_src r ps of (None, ps') \<Rightarrow> True | (Some k, ps') \<Rightarrow>
     ps_inv ps' \<and> ps_bytes ps' = ps_bytes ps \<and> k < 2 \<and> k < ps_num ps' \<and> ps_imm ps' \<noteq> Some k \<and> ps_srcs ps' ! k = r \<and> keeps ps ps'"
proof -
  have nz: "r \<noteq> SrZero" "\<And>u. r \<noteq> Imm32 u" using r by auto
  show ?thesis
  proof (cases "find (\<lambda>i. ps_srcs ps ! i = r) [0..<ps_num ps]")
    case (Some i)
    then have "i < ps_num ps" "ps_srcs ps ! i = r" by (auto simp: find_Some_iff)
    moreover then have "ps_imm ps \<noteq> Some i" using inv nz by (auto simp: ps_inv_def)
    ultimately show ?thesis using Some inv by (auto simp: try_add_src_def ps_inv_def)
  next
    case None
    show ?thesis
    proof (cases "ps_num ps < 2")
      case True
      let ?n = "ps_num ps" and ?ps = "ps\<lparr>ps_num := ps_num ps + 1, ps_srcs := (ps_srcs ps)[ps_num ps := r]\<rparr>"
      have "ps_inv ?ps" using inv True by (auto simp: ps_inv_def nth_list_update split: option.splits)
      moreover have "ps_imm ps \<noteq> Some ?n" using inv by (auto simp: ps_inv_def)
      moreover have "keeps ps ?ps"
        using inv by (intro item_in_mono) (auto simp: ps_inv_def)
      ultimately show ?thesis using None True inv by (simp add: try_add_src_def ps_inv_def)
    qed (simp add: None try_add_src_def)
  qed
qed

lemma byte_bits: "bit (ucast (w :: u8) :: u32) n \<Longrightarrow> n < 8"
  by (auto simp: bit_simps dest: bit_imp_le_length)

lemma imm_byte_or:
  fixes imm :: u32 and u :: u8
  assumes "\<And>n. bit imm n \<Longrightarrow> n < 8 * b" "b < 4"
  shows "(ucast (drop_bit (8 * b) (imm OR push_bit (b * 8) (ucast u))) :: u8) = u"
    and "i < b \<Longrightarrow> (ucast (drop_bit (8 * i) (imm OR push_bit (b * 8) (ucast u))) :: u8) = ucast (drop_bit (8 * i) imm)"
    and "bit (imm OR push_bit (b * 8) (ucast u)) n \<Longrightarrow> n < 8 * (b + 1)"
proof -
  show "(ucast (drop_bit (8 * b) (imm OR push_bit (b * 8) (ucast u))) :: u8) = u"
    by (rule bit_word_eqI) (use assms in \<open>auto simp: bit_simps algebra_simps\<close>)
  show "(ucast (drop_bit (8 * i) (imm OR push_bit (b * 8) (ucast u))) :: u8) = ucast (drop_bit (8 * i) imm)" if "i < b"
    by (rule bit_word_eqI) (use assms that in \<open>auto simp: bit_simps algebra_simps\<close>)
  show "n < 8 * (b + 1)" if n: "bit (imm OR push_bit (b * 8) (ucast u)) n"
  proof (cases "bit imm n")
    case False
    then have "bit (push_bit (b * 8) (ucast u :: u32)) n" using n by (simp add: bit_or_iff)
    then have "b * 8 \<le> n" "bit (ucast u :: u32) (n - b * 8)" by (auto simp: bit_push_bit_iff)
    then show ?thesis using byte_bits by fastforce
  qed (use assms in fastforce)
qed

text \<open>An immediate slot, fresh or in use.\<close>

definition imm_slot :: "PrmtSrcs \<Rightarrow> nat \<Rightarrow> bool" where
  "imm_slot ps k \<longleftrightarrow> ps_inv ps \<and> ps_imm ps = Some k"

lemma imm_slotD:
  assumes "imm_slot ps k"
  shows "length (ps_srcs ps) = 2" "k < ps_num ps" "ps_num ps \<le> 2" "k < 2"
    and "ps_srcs ps ! k = SrZero \<and> ps_bytes ps \<le> 1 \<or>
      (\<exists>u. ps_srcs ps ! k = Imm32 u \<and> (\<forall>n. bit u n \<longrightarrow> n < 8 * ps_bytes ps))"
  using assms by (auto simp: imm_slot_def ps_inv_def imm_val_def)

lemma ps_push_byte_spec:
  assumes s: "imm_slot ps k" and b: "ps_bytes ps \<le> 3"
    and imm: "ps_srcs ps ! k = SrZero \<and> imm = 0 \<or> ps_srcs ps ! k = Imm32 imm"
  shows "\<exists>ps'. ps_push_byte k imm u ps = Some (Some (ps_bytes ps), ps') \<and> ps_inv ps' \<and> ps_bytes ps' = ps_bytes ps + 1 \<and>
    ps_imm ps' = Some k \<and> ucast (drop_bit (8 * ps_bytes ps) (imm_val (ps_srcs ps' ! k))) = u \<and> keeps ps ps'"
proof -
  note d = imm_slotD [OF s]
  let ?b = "ps_bytes ps"
  let ?w = "imm OR push_bit (?b * 8) (ucast u)"
  let ?ps = "ps\<lparr>ps_bytes := ?b + 1, ps_srcs := (ps_srcs ps)[k := Imm32 ?w]\<rparr>"
  have bits: "n < 8 * ?b" if "bit imm n" for n using d(5) imm that by auto
  have b4: "?b < 4" using b by simp
  have inv: "ps_inv ps" and k: "ps_imm ps = Some k" using s by (simp_all add: imm_slot_def)
  have "n < 8 * (?b + 1)" if "bit ?w n" for n by (rule imm_byte_or(3) [OF bits b4 that])
  then have "\<forall>n. bit ?w n \<longrightarrow> n < 8 * Suc ?b" by simp
  then have "ps_inv ?ps" using inv k d by (auto simp: ps_inv_def imm_val_def)
  moreover have "keeps ps ?ps"
  proof (rule item_in_mono)
    fix k' i assume "ps_imm ps = Some k'" "i < ?b"
    then have "k' = k" "(ucast (drop_bit (8 * i) ?w) :: u8) = ucast (drop_bit (8 * i) imm)"
      using k imm_byte_or(2) [of imm ?b i u] bits b4 by auto
    then show "ps_imm ?ps = Some k' \<and>
        (ucast (drop_bit (8 * i) (imm_val (ps_srcs ?ps ! k'))) :: u8) = ucast (drop_bit (8 * i) (imm_val (ps_srcs ps ! k')))"
      using k d imm by (auto simp: imm_val_def)
  qed (use k d in auto)
  moreover have "ucast (drop_bit (8 * ?b) (imm_val (ps_srcs ?ps ! k))) = u"
    using imm_byte_or(1) [of imm ?b u] bits b4 d by (simp add: imm_val_def)
  moreover have "ps_push_byte k imm u ps = Some (Some ?b, ?ps)" using b4 by (simp add: ps_push_byte_def Let_def)
  ultimately show ?thesis using k by auto
qed

lemma try_add_imm_u8_spec:
  assumes inv: "ps_inv ps" and b: "ps_bytes ps \<le> 3"
  shows "\<exists>r ps'. try_add_imm_u8 u ps = Some (r, ps') \<and> (r = None \<or>
    (\<exists>i k. r = Some i \<and> ps_inv ps' \<and> ps_bytes ps' \<le> ps_bytes ps + 1 \<and> i < ps_bytes ps' \<and> i < 4 \<and> ps_imm ps' = Some k \<and> k < 2 \<and>
       ucast (drop_bit (8 * i) (imm_val (ps_srcs ps' ! k))) = u \<and> keeps ps ps'))"
proof (cases "ps_imm ps = None \<and> ps_num ps \<ge> 2")
  case True
  then show ?thesis by (simp add: try_add_imm_u8_def)
next
  case False
  define k ps1 where "k = (case ps_imm ps of Some k \<Rightarrow> k | None \<Rightarrow> ps_num ps)"
    and "ps1 = (case ps_imm ps of Some k \<Rightarrow> ps | None \<Rightarrow> ps\<lparr>ps_imm := Some (ps_num ps), ps_num := ps_num ps + 1\<rparr>)"
  have def: "try_add_imm_u8 u ps = do {
      s \<leftarrow> index (ps_srcs ps1) k;
      case s of
        SrZero \<Rightarrow> if u = 0 then assert_then (ps_bytes ps1 \<le> 1) (Some (Some 0, ps1\<lparr>ps_bytes := 1\<rparr>)) else ps_push_byte k 0 u ps1
      | Imm32 imm \<Rightarrow> ps_push_byte k imm u ps1
      | _ \<Rightarrow> None }"
    using False by (auto simp: try_add_imm_u8_def k_def ps1_def split: option.split)
  have s: "imm_slot ps1 k" using False inv by (auto simp: imm_slot_def k_def ps1_def ps_inv_def imm_val_def split: option.splits)
  have keep: "keeps ps ps1" using inv
    by (intro item_in_mono) (auto simp: ps1_def ps_inv_def split: option.splits)
  have b1: "ps_bytes ps1 = ps_bytes ps" by (simp add: ps1_def split: option.split)
  note d = imm_slotD [OF s]
  have inv1: "ps_inv ps1" "ps_imm ps1 = Some k" using s by (simp_all add: imm_slot_def)
  have idx: "index (ps_srcs ps1) k = Some (ps_srcs ps1 ! k)" using d by (simp add: panic_simps)
  show ?thesis
  proof (cases "ps_srcs ps1 ! k = SrZero \<and> u = 0")
    case True
    let ?ps = "ps1\<lparr>ps_bytes := 1\<rparr>"
    have "ps_inv ?ps" using inv1 True d by (auto simp: ps_inv_def)
    moreover have b1': "ps_bytes ps1 \<le> 1" using d(5) True by auto
    moreover have "keeps ps1 ?ps" using inv1 b1' by (intro item_in_mono) auto
    moreover have "try_add_imm_u8 u ps = Some (Some 0, ?ps)" using True b1' idx unfolding def by simp
    moreover have "ucast (drop_bit (8 * 0) (imm_val (ps_srcs ?ps ! k))) = u" using True by (simp add: imm_val_def)
    ultimately show ?thesis using keep inv1 d b1
      by (intro exI [of _ "Some 0"] exI [of _ ?ps]) (auto intro!: exI [of _ k])
  next
    case False
    obtain imm where imm: "ps_srcs ps1 ! k = SrZero \<and> imm = 0 \<or> ps_srcs ps1 ! k = Imm32 imm" using d(5) by auto
    then have "try_add_imm_u8 u ps = ps_push_byte k imm u ps1" using False idx by (auto simp: def)
    moreover obtain ps' where "ps_push_byte k imm u ps1 = Some (Some (ps_bytes ps1), ps')" "ps_inv ps'"
      "ps_bytes ps' = ps_bytes ps1 + 1" "ps_imm ps' = Some k"
      "ucast (drop_bit (8 * ps_bytes ps1) (imm_val (ps_srcs ps' ! k))) = u" "keeps ps1 ps'"
      using ps_push_byte_spec [OF s _ imm, of u] b b1 by auto
    ultimately show ?thesis using keep b b1 d(4)
      by (intro exI [of _ "Some (ps_bytes ps1)"] exI [of _ ps']) (auto intro!: exI [of _ k])
  qed
qed

lemma add_item_spec:
  assumes inv: "ps_inv ps" and b: "ps_bytes ps \<le> 3" and ok: "item_ok item"
  shows "\<exists>r ps'. add_item item ps = Some (r, ps') \<and> (r = None \<or>
    (\<exists>nb. r = Some nb \<and> ps_inv ps' \<and> ps_bytes ps' \<le> ps_bytes ps + 1 \<and> item_in ps' item nb \<and> keeps ps ps'))"
proof (cases item)
  case (ImmByte u)
  obtain r ps' where a: "try_add_imm_u8 u ps = Some (r, ps')" "r = None \<or>
    (\<exists>i k. r = Some i \<and> ps_inv ps' \<and> ps_bytes ps' \<le> ps_bytes ps + 1 \<and> i < ps_bytes ps' \<and> i < 4 \<and> ps_imm ps' = Some k \<and> k < 2 \<and>
       ucast (drop_bit (8 * i) (imm_val (ps_srcs ps' ! k))) = u \<and> keeps ps ps')"
    using try_add_imm_u8_spec [OF inv b, of u] by blast
  show ?thesis
  proof (cases r)
    case None
    then show ?thesis using a(1) ImmByte by (simp add: add_item_def)
  next
    case (Some i)
    then obtain k where k: "ps_inv ps'" "ps_bytes ps' \<le> ps_bytes ps + 1" "i < ps_bytes ps'" "i < 4" "ps_imm ps' = Some k" "k < 2"
      "ucast (drop_bit (8 * i) (imm_val (ps_srcs ps' ! k))) = u" "keeps ps ps'" using a(2) by auto
    obtain nb where nb: "psb_new k i False = Some nb" "psb_src nb = k" "psb_byte nb = i" "\<not> psb_msb nb" "psb nb \<le> 0xf"
      using psb_new_spec [OF k(6,4)] by blast
    have "item_in ps' item nb" using nb k ImmByte by (simp add: item_in_def)
    then show ?thesis using a(1) Some ImmByte k nb(1)
      by (intro exI [of _ "Some nb"] exI [of _ ps']) (simp add: add_item_def)
  qed
next
  case (RefByte r k m)
  have ok: "sr_as_u32 r = Some None" "k < 4" using ok RefByte by (simp_all add: item_ok_def)
  obtain x ps' where x: "try_add_src r ps = (x, ps')" by force
  show ?thesis
  proof (cases x)
    case None
    then show ?thesis using x RefByte by (simp add: add_item_def)
  next
    case (Some i)
    then have a: "ps_inv ps'" "ps_bytes ps' = ps_bytes ps" "i < 2" "i < ps_num ps'" "ps_imm ps' \<noteq> Some i" "ps_srcs ps' ! i = r" "keeps ps ps'"
      using try_add_src_spec [OF inv ok(1)] x by auto
    obtain nb where nb: "psb_new i k m = Some nb" "psb_src nb = i" "psb_byte nb = k" "psb_msb nb = m" "psb nb \<le> 0xf"
      using psb_new_spec [OF a(3) ok(2)] by blast
    have "item_in ps' item nb" using nb a RefByte by (simp add: item_in_def)
    then show ?thesis using x Some RefByte a nb(1)
      by (intro exI [of _ "Some nb"] exI [of _ ps']) (simp add: add_item_def)
  qed
qed

end
