(* ===== verification/OptPrmtCorrect.thy ===== *)
theory OptPrmtCorrect
  imports OptPrmt
begin

text \<open>
  Byte permutation folding ends without a panic and keeps the value of every permutation.  The loop over
  one source ends by the order of definitions.  The loop over both sources ends because each round either
  replaces a source by an earlier one or brings the operation into the packed form, which the next round
  leaves alone.
\<close>

definition pack_byte :: "SelItem list \<Rightarrow> nat \<Rightarrow> (PrmtSrcs \<times> PrmtSelByte list) option \<Rightarrow> (PrmtSrcs \<times> PrmtSelByte list) option option" where
  "pack_byte items i st =
     (case st of
        None \<Rightarrow> Some None
      | Some (srcs, new_sel) \<Rightarrow> do {
          (nb, srcs) \<leftarrow> add_item (items ! i) srcs;
          Some (map_option (\<lambda>nb. (srcs, new_sel[i := nb])) nb)
        })"

definition pack :: "SelItem list \<Rightarrow> (PrmtSrcs \<times> PrmtSelByte list) option option" where
  "pack items = foldM (pack_byte items) [0..<4] (Some (ps_new, replicate 4 psb_invalid))"

lemma pack_spec:
  assumes ok: "\<And>i. i < 4 \<Longrightarrow> item_ok (items ! i)"
  shows "\<exists>r. pack items = Some r \<and> (r = None \<or>
    (\<exists>ps sel. r = Some (ps, sel) \<and> length sel = 4 \<and> ps_inv ps \<and> (\<forall>i<4. item_in ps (items ! i) (sel ! i))))"
proof -
  let ?P = "\<lambda>n st. st = None \<or> (\<exists>ps sel. st = Some (ps, sel) \<and> length sel = 4 \<and> ps_inv ps \<and> ps_bytes ps \<le> n \<and>
    (\<forall>i<n. item_in ps (items ! i) (sel ! i)))"
  have "\<exists>r. foldM (pack_byte items) [0..<4] (Some (ps_new, replicate 4 psb_invalid)) = Some r \<and> ?P 4 r"
  proof (rule foldM_upt [where P = ?P])
    show "?P 0 (Some (ps_new, replicate 4 psb_invalid))" by (auto simp: ps_inv_def ps_new_def nth_Cons split: nat.splits)
    fix i st assume i: "i < 4" and P: "?P i st"
    show "\<exists>st'. pack_byte items i st = Some st' \<and> ?P (Suc i) st'"
    proof (cases st)
      case None
      then show ?thesis by (simp add: pack_byte_def)
    next
      case (Some y)
      then obtain ps sel where s: "st = Some (ps, sel)" "length sel = 4" "ps_inv ps" "ps_bytes ps \<le> i"
        "\<forall>j<i. item_in ps (items ! j) (sel ! j)" using P by auto
      have "ps_bytes ps \<le> 3" using s(4) i by simp
      from add_item_spec [OF s(3) this ok [OF i]] obtain r ps' where a: "add_item (items ! i) ps = Some (r, ps')"
        "r = None \<or> (\<exists>nb. r = Some nb \<and> ps_inv ps' \<and> ps_bytes ps' \<le> ps_bytes ps + 1 \<and> item_in ps' (items ! i) nb \<and> keeps ps ps')"
        by blast
      show ?thesis
      proof (cases r)
        case None
        then show ?thesis using a(1) s(1) by (simp add: pack_byte_def)
      next
        case (Some nb)
        then have "ps_inv ps'" "ps_bytes ps' \<le> ps_bytes ps + 1" "item_in ps' (items ! i) nb" "keeps ps ps'" using a(2) by auto
        then have "\<forall>j<Suc i. item_in ps' (items ! j) (sel[i := nb] ! j)" "ps_bytes ps' \<le> Suc i"
          using s i by (auto simp: nth_list_update less_Suc_eq)
        then show ?thesis using Some a(1) s(1,2) \<open>ps_inv ps'\<close> by (simp add: pack_byte_def)
      qed
    qed
  qed
  then show ?thesis unfolding pack_def by blast
qed

subsection \<open>Values\<close>

text \<open>
  An environment gives the values of the SSA values and of the sources the pass does not look into
  (constant buffers, registers).
\<close>

fun ref_val :: "(SSAValue \<Rightarrow> u32) \<Rightarrow> (SrcRef \<Rightarrow> u32) \<Rightarrow> SrcRef \<Rightarrow> u32" where
  "ref_val e c SrZero = 0" | "ref_val e c (Imm32 u) = u" | "ref_val e c (SrSSA vec) = e (SSARef_deref vec ! 0)"
| "ref_val e c r = c r"

definition prmt_value :: "(SSAValue \<Rightarrow> u32) \<Rightarrow> (SrcRef \<Rightarrow> u32) \<Rightarrow> OpPrmt \<Rightarrow> u32 option" where
  "prmt_value e c op =
     (case prmt_get_sel op of
        Some (Some sel) \<Rightarrow> prmt_bytes sel (\<lambda>k. ref_val e c (reference (prmt_src op k)))
      | _ \<Rightarrow> None)"

definition picked :: "bool \<Rightarrow> nat \<Rightarrow> u32 \<Rightarrow> u8" where
  "picked m k w = (let b = ucast (drop_bit (8 * k) w) in if m then signed_drop_bit 7 b else b)"

lemma fold_picked: "psb_fold_u32 sb w = picked (psb_msb sb) (psb_byte sb) w"
  by (simp add: psb_fold_u32_def picked_def Let_def mult.commute)

lemma sign_fill_idem: "signed_drop_bit 7 (signed_drop_bit 7 (w :: u8)) = signed_drop_bit 7 w"
  unfolding sign_fill [of w] by (simp add: sign_fill)

lemma sign_fill14: "signed_drop_bit 14 (w :: u8) = signed_drop_bit 7 w"
  using sign_fill_idem [of w] by simp

lemma prmt_bytes_total:
  assumes "\<And>b. b < 4 \<Longrightarrow> psel_get sel b = Some (sb b)"
  obtains w where "prmt_bytes sel vals = Some w"
    and "\<And>b. b < 4 \<Longrightarrow> ucast (drop_bit (8 * b) w) = psb_fold_u32 (sb b) (vals (psb_src (sb b)))"
proof
  let ?B = "\<lambda>b. psb_fold_u32 (sb b) (vals (psb_src (sb b)))"
  let ?w = "ucast (?B 0) OR push_bit 8 (ucast (?B (Suc 0))) OR push_bit 16 (ucast (?B 2)) OR push_bit 24 (ucast (?B 3)) :: u32"
  show "prmt_bytes sel vals = Some ?w"
    using assms by (simp add: prmt_bytes_def upt4 Let_def or.assoc)
  show "ucast (drop_bit (8 * b) ?w) = psb_fold_u32 (sb b) (vals (psb_src (sb b)))" if "b < 4" for b
    by (rule byte_of_bytes [OF that])
qed

lemma psel_get_total: "b < 4 \<Longrightarrow> \<exists>sb. psel_get sel b = Some sb"
  by (simp add: psel_get_def)

lemma prmt_bytes_cong:
  assumes "\<And>b sb sb'. b < 4 \<Longrightarrow> psel_get sel b = Some sb \<Longrightarrow> psel_get sel' b = Some sb' \<Longrightarrow>
    psb_fold_u32 sb (vals (psb_src sb)) = psb_fold_u32 sb' (vals' (psb_src sb'))"
  shows "prmt_bytes sel vals = prmt_bytes sel' vals'"
  unfolding prmt_bytes_def
proof (rule foldM_cong [OF refl refl])
  fix b dst assume "b \<in> set [0..<4]"
  then have b: "b < 4" by simp
  from psel_get_total [OF b] obtain sb where 1: "psel_get sel b = Some sb" by blast
  from psel_get_total [OF b] obtain sb' where 2: "psel_get sel' b = Some sb'" by blast
  show "do { sel_byte \<leftarrow> psel_get sel b; let sb = psb_fold_u32 sel_byte (vals (psb_src sel_byte));
       Some (dst OR push_bit (b * 8) (ucast sb)) } =
     do { sel_byte \<leftarrow> psel_get sel' b; let sb = psb_fold_u32 sel_byte (vals' (psb_src sel_byte));
       Some (dst OR push_bit (b * 8) (ucast sb)) }"
    using 1 2 assms [OF b 1 2] by simp
qed

subsection \<open>Well-formed permutations\<close>

text \<open>Single values in SSA form; predicate constants are no sources of a permutation.\<close>

definition ref_ok :: "SrcRef \<Rightarrow> bool" where
  "ref_ok r \<longleftrightarrow> (case r of
     SrSSA vec \<Rightarrow> SSARef_comps vec = 1 \<and> SSARef_deref vec \<noteq> []
   | SrTrue \<Rightarrow> False | SrFalse \<Rightarrow> False | _ \<Rightarrow> True)"

definition ref_rank :: "(SSAValue \<Rightarrow> nat) \<Rightarrow> SrcRef \<Rightarrow> nat" where
  "ref_rank rank r = (case r of SrSSA vec \<Rightarrow> Suc (rank (SSARef_deref vec ! 0)) | _ \<Rightarrow> 0)"

text \<open>\<open>B\<close> holds the value the operation defines: its sources are defined before.\<close>

definition bounded_ref :: "(SSAValue \<Rightarrow> nat) \<Rightarrow> SSAValue set \<Rightarrow> SrcRef \<Rightarrow> bool" where
  "bounded_ref rank B r \<longleftrightarrow> ref_ok r \<and> (\<forall>w\<in>B. ref_rank rank r \<le> rank w)"

definition prmt_srcs_ok :: "(SSAValue \<Rightarrow> nat) \<Rightarrow> SSAValue set \<Rightarrow> OpPrmt \<Rightarrow> bool" where
  "prmt_srcs_ok rank B op \<longleftrightarrow> (\<forall>k<2. is_unmodified (prmt_src op k) \<and> bounded_ref rank B (reference (prmt_src op k)))"

definition pass_ok :: "(SSAValue \<Rightarrow> nat) \<Rightarrow> PrmtPass \<Rightarrow> bool" where
  "pass_ok rank p \<longleftrightarrow> (\<forall>v ent. p v = Some ent \<longrightarrow> length (pe_srcs ent) = 2 \<and> (\<forall>r\<in>set (pe_srcs ent). bounded_ref rank {v} r))"

definition entry_vals :: "(SSAValue \<Rightarrow> u32) \<Rightarrow> (SrcRef \<Rightarrow> u32) \<Rightarrow> PrmtPass \<Rightarrow> bool" where
  "entry_vals e c p \<longleftrightarrow> (\<forall>v ent. p v = Some ent \<longrightarrow> prmt_bytes (pe_sel ent) (\<lambda>k. ref_val e c (pe_srcs ent ! k)) = Some (e v))"

lemma as_u32_ref: "is_unmodified s \<Longrightarrow> ref_ok (reference s) \<Longrightarrow> as_u32 s TyALU = sr_as_u32 (reference s)"
  by (auto simp: as_u32_def ref_ok_def split: SrcRef.splits)

lemma sr_as_u32_ok: "ref_ok r \<Longrightarrow> sr_as_u32 r = Some None \<or> (\<exists>u. sr_as_u32 r = Some (Some u) \<and> ref_rank rank r = 0 \<and> (\<forall>e c. ref_val e c r = u))"
  by (cases r) (auto simp: ref_ok_def ref_rank_def)

lemma get_prmt_spec:
  assumes "is_unmodified s" "ref_ok (reference s)"
  shows "\<exists>e. get_prmt_for_src p s = Some e \<and>
    (\<forall>ent. e = Some ent \<longrightarrow> (\<exists>vec. reference s = SrSSA vec \<and> p (SSARef_deref vec ! 0) = Some ent))"
  using assms by (cases "reference s") (auto simp: get_prmt_for_src_def ref_ok_def index_def)

fun item_val :: "(SSAValue \<Rightarrow> u32) \<Rightarrow> (SrcRef \<Rightarrow> u32) \<Rightarrow> SelItem \<Rightarrow> u8" where
  "item_val e c (ImmByte u) = u"
| "item_val e c (RefByte r k m) = picked m k (ref_val e c r)"

fun item_rank :: "(SSAValue \<Rightarrow> nat) \<Rightarrow> SelItem \<Rightarrow> nat" where
  "item_rank rank (ImmByte u) = 0"
| "item_rank rank (RefByte r k m) = ref_rank rank r"

fun item_bound :: "(SSAValue \<Rightarrow> nat) \<Rightarrow> SSAValue set \<Rightarrow> SelItem \<Rightarrow> bool" where
  "item_bound rank B (ImmByte u) = True"
| "item_bound rank B (RefByte r k m) = bounded_ref rank B r"

text \<open>The byte read without looking through a permutation.\<close>

definition plain_item :: "SrcRef \<Rightarrow> PrmtSelByte \<Rightarrow> SelItem" where
  "plain_item r ob = (case sr_as_u32 r of Some (Some u) \<Rightarrow> ImmByte (psb_fold_u32 ob u) | _ \<Rightarrow> RefByte r (psb_byte ob) (psb_msb ob))"

lemma byte_of_entry:
  assumes "prmt_bytes sel vals = Some w" "b < 4" "psel_get sel b = Some sb"
  shows "ucast (drop_bit (8 * b) w) = psb_fold_u32 sb (vals (psb_src sb))"
proof -
  obtain g where g: "\<And>b. b < 4 \<Longrightarrow> psel_get sel b = Some (g b)" using psel_get_total [of _ sel] by metis
  show ?thesis by (rule prmt_bytes_total [of sel g vals]) (use g assms in auto)
qed

lemma sel_item_spec:
  assumes p: "pass_ok rank p" and op: "prmt_srcs_ok rank B op"
  shows "\<exists>item. sel_item p op ob = Some item \<and> item_ok item \<and> item_bound rank B item \<and>
    (\<forall>e c. entry_vals e c p \<longrightarrow> item_val e c item = psb_fold_u32 ob (ref_val e c (reference (prmt_src op (psb_src ob))))) \<and>
    (if get_prmt_for_src p (prmt_src op (psb_src ob)) = Some None
     then item = plain_item (reference (prmt_src op (psb_src ob))) ob \<and> item_rank rank item = ref_rank rank (reference (prmt_src op (psb_src ob)))
     else item_rank rank item < ref_rank rank (reference (prmt_src op (psb_src ob))))"
proof -
  let ?src = "prmt_src op (psb_src ob)"
  have s: "is_unmodified ?src" "ref_ok (reference ?src)" "\<forall>w\<in>B. ref_rank rank (reference ?src) \<le> rank w"
    using op psb_index(3) [of ob] by (auto simp: prmt_srcs_ok_def bounded_ref_def)
  obtain e where e: "get_prmt_for_src p ?src = Some e"
    "\<And>ent. e = Some ent \<Longrightarrow> \<exists>vec. reference ?src = SrSSA vec \<and> p (SSARef_deref vec ! 0) = Some ent"
    using get_prmt_spec [OF s(1,2), of p] by blast
  show ?thesis
  proof (cases e)
    case None
    then show ?thesis
      using e(1) s as_u32_ref [OF s(1,2)] sr_as_u32_ok [OF s(2), of rank] psb_index(2) [of ob]
      by (auto simp: sel_item_def plain_item_def item_ok_def bounded_ref_def fold_picked)
  next
    case (Some ent)
    then obtain vec where vec: "reference ?src = SrSSA vec" "p (SSARef_deref vec ! 0) = Some ent" using e(2) by blast
    let ?v = "SSARef_deref vec ! 0"
    have ent: "length (pe_srcs ent) = 2" "\<And>r. r \<in> set (pe_srcs ent) \<Longrightarrow> bounded_ref rank {?v} r"
      using p vec(2) by (auto simp: pass_ok_def)
    obtain sb where sb: "psel_get (pe_sel ent) (psb_byte ob) = Some sb" using psel_get_total [OF psb_index(2)] by blast
    let ?r = "pe_srcs ent ! psb_src sb"
    have r: "index (pe_srcs ent) (psb_src sb) = Some ?r" "?r \<in> set (pe_srcs ent)"
      using ent(1) psb_index(3) [of sb] by (auto simp: index_def)
    then have ro: "ref_ok ?r" "ref_rank rank ?r \<le> rank ?v" using ent(2) by (auto simp: bounded_ref_def)
    have rk: "ref_rank rank (reference ?src) = Suc (rank ?v)" using vec(1) by (simp add: ref_rank_def)
    have ev: "ucast (drop_bit (8 * psb_byte ob) (e v)) = psb_fold_u32 sb (ref_val e c ?r)" if "entry_vals e c p" "v = ?v" for e c v
    proof -
      have "prmt_bytes (pe_sel ent) (\<lambda>k. ref_val e c (pe_srcs ent ! k)) = Some (e v)"
        using that vec(2) by (auto simp: entry_vals_def)
      from byte_of_entry [OF this psb_index(2) sb] show ?thesis by simp
    qed
    have val: "psb_fold_u32 ob (ref_val e c (reference ?src)) =
        (let b = psb_fold_u32 sb (ref_val e c ?r) in if psb_msb ob then signed_drop_bit 7 b else b)"
      if "entry_vals e c p" for e c
      using ev [OF that] vec(1) by (simp add: fold_picked picked_def Let_def)
    consider "sr_as_u32 ?r = Some None" | u where "sr_as_u32 ?r = Some (Some u)" "\<And>e c. ref_val e c ?r = u"
      using sr_as_u32_ok [OF ro(1)] by blast
    then show ?thesis
    proof cases
      case 1
      let ?item = "RefByte ?r (psb_byte sb) (psb_msb ob \<or> psb_msb sb)"
      have "item_val e c ?item = psb_fold_u32 ob (ref_val e c (reference ?src))" if "entry_vals e c p" for e c
        unfolding val [OF that] by (auto simp: fold_picked picked_def Let_def sign_fill14)
      moreover have "sel_item p op ob = Some ?item" using e(1) Some sb r(1) 1 by (simp add: sel_item_def)
      moreover have "bounded_ref rank B ?r" using ro s(3) rk by (fastforce simp: bounded_ref_def)
      moreover have "item_rank rank ?item < ref_rank rank (reference ?src)" using ro(2) rk by simp
      ultimately show ?thesis using 1 e(1) Some psb_index(2) [of sb] by (auto simp: item_ok_def)
    next
      case 2
      let ?item = "ImmByte (let b = psb_fold_u32 sb u in if psb_msb ob then signed_drop_bit 7 b else b)"
      have "sel_item p op ob = Some ?item" using e(1) Some sb r(1) 2(1) by (simp add: sel_item_def Let_def)
      moreover have "item_val e c ?item = psb_fold_u32 ob (ref_val e c (reference ?src))" if "entry_vals e c p" for e c
        unfolding val [OF that] 2(2) by simp
      moreover have "item_rank rank ?item < ref_rank rank (reference ?src)" using rk by simp
      ultimately show ?thesis using e(1) Some by (auto simp: item_ok_def)
    qed
  qed
qed

subsection \<open>\<^verbatim>\<open>try_opt_prmt4\<close>\<close>

text \<open>The sources collected are constants or sources of the four bytes.\<close>

definition from_items :: "SelItem set \<Rightarrow> SrcRef list \<Rightarrow> bool" where
  "from_items items rs \<longleftrightarrow> (\<forall>r\<in>set rs. r = SrZero \<or> (\<exists>u. r = Imm32 u) \<or> (\<exists>k m. RefByte r k m \<in> items))"

lemma from_items_update:
  "from_items items rs \<Longrightarrow> r = SrZero \<or> (\<exists>u. r = Imm32 u) \<or> (\<exists>k m. RefByte r k m \<in> items) \<Longrightarrow> from_items items (rs[i := r])"
  unfolding from_items_def using set_update_subset_insert [of rs i r] by blast

lemma try_add_src_from:
  "try_add_src r ps = (k, ps') \<Longrightarrow> RefByte r b m \<in> items \<Longrightarrow> from_items items (ps_srcs ps) \<Longrightarrow> from_items items (ps_srcs ps')"
  by (auto simp: try_add_src_def split: option.splits if_splits intro!: from_items_update)

lemma ps_push_byte_from:
  "ps_push_byte j imm u ps = Some (k, ps') \<Longrightarrow> from_items items (ps_srcs ps) \<Longrightarrow> from_items items (ps_srcs ps')"
  by (auto simp: ps_push_byte_def Let_def panic_simps intro!: from_items_update)

lemma try_add_imm_from:
  assumes "try_add_imm_u8 u ps = Some (k, ps')" and f: "from_items items (ps_srcs ps)"
  shows "from_items items (ps_srcs ps')"
proof (cases "ps_imm ps = None \<and> ps_num ps \<ge> 2")
  case True
  then show ?thesis using assms by (simp add: try_add_imm_u8_def)
next
  case False
  obtain j ps1 s where j: "from_items items (ps_srcs ps1)" "(case s of
        SrZero \<Rightarrow> if u = 0 then assert_then (ps_bytes ps1 \<le> 1) (Some (Some 0, ps1\<lparr>ps_bytes := 1\<rparr>)) else ps_push_byte j 0 u ps1
      | Imm32 imm \<Rightarrow> ps_push_byte j imm u ps1
      | _ \<Rightarrow> None) = Some (k, ps')"
  proof (cases "ps_imm ps")
    case None
    let ?ps = "ps\<lparr>ps_imm := Some (ps_num ps), ps_num := ps_num ps + 1\<rparr>"
    obtain s where "(case s of
        SrZero \<Rightarrow> if u = 0 then assert_then (ps_bytes ?ps \<le> 1) (Some (Some 0, ?ps\<lparr>ps_bytes := 1\<rparr>)) else ps_push_byte (ps_num ps) 0 u ?ps
      | Imm32 imm \<Rightarrow> ps_push_byte (ps_num ps) imm u ?ps
      | _ \<Rightarrow> None) = Some (k, ps')"
      using assms(1) None False by (auto simp: try_add_imm_u8_def bind_eq_Some_conv simp del: One_nat_def)
    with that [of ?ps "ps_num ps" s] f show ?thesis by simp
  next
    case (Some j)
    obtain s where "(case s of
        SrZero \<Rightarrow> if u = 0 then assert_then (ps_bytes ps \<le> 1) (Some (Some 0, ps\<lparr>ps_bytes := 1\<rparr>)) else ps_push_byte j 0 u ps
      | Imm32 imm \<Rightarrow> ps_push_byte j imm u ps
      | _ \<Rightarrow> None) = Some (k, ps')"
      using assms(1) Some by (auto simp: try_add_imm_u8_def bind_eq_Some_conv)
    with that [of ps j s] f show ?thesis by simp
  qed
  show ?thesis
  proof (cases s)
    case SrZero
    then show ?thesis using j ps_push_byte_from by (cases "u = 0") (auto simp: panic_simps)
  qed (use j ps_push_byte_from in auto)
qed

lemma add_item_from:
  assumes a: "add_item item ps = Some (r, ps')" and "item \<in> items" "from_items items (ps_srcs ps)"
  shows "from_items items (ps_srcs ps')"
proof (cases item)
  case (ImmByte u)
  then obtain k ps1 where k: "try_add_imm_u8 u ps = Some (k, ps1)" using a by (auto simp: add_item_def bind_eq_Some_conv)
  then have "ps' = ps1" using a ImmByte by (cases k) (auto simp: add_item_def bind_eq_Some_conv)
  then show ?thesis using try_add_imm_from [OF k] assms(3) by simp
next
  case (RefByte x b m)
  obtain k ps1 where k: "try_add_src x ps = (k, ps1)" by force
  then have "ps' = ps1" using a RefByte by (cases k) (auto simp: add_item_def bind_eq_Some_conv)
  then show ?thesis using try_add_src_from [OF k] assms(2,3) RefByte by blast
qed

lemma pack_from:
  assumes "pack items = Some (Some (ps, sel))" "length items = 4"
  shows "from_items (set items) (ps_srcs ps)"
proof -
  define P where "P = (\<lambda>st :: (PrmtSrcs \<times> PrmtSelByte list) option. \<forall>ps sel. st = Some (ps, sel) \<longrightarrow> from_items (set items) (ps_srcs ps))"
  have "P (Some (ps, sel))"
  proof (rule foldM_invariant [OF assms(1) [unfolded pack_def]])
    show "P (Some (ps_new, replicate 4 psb_invalid))" by (simp add: P_def from_items_def ps_new_def)
    fix i st st' assume i: "i \<in> set [0..<4]" "P st" "pack_byte items i st = Some st'"
    then have "items ! i \<in> set items" using assms(2) by simp
    then show "P st'" using i add_item_from [of "items ! i" _ _ _ "set items"]
      by (auto simp: P_def pack_byte_def bind_eq_Some_conv split: option.splits prod.splits)
  qed
  then show ?thesis by (simp add: P_def)
qed

text \<open>Reading the sources collected gives back the bytes packed.\<close>

lemma item_in_plain:
  assumes "ps_inv ps" "item_in ps item nb" "item_ok item"
  shows "plain_item (ps_srcs ps ! psb_src nb) nb = item" "item_rank rank item = ref_rank rank (ps_srcs ps ! psb_src nb)"
    and "item_val e c item = psb_fold_u32 nb (ref_val e c (ps_srcs ps ! psb_src nb))"
proof -
  let ?r = "ps_srcs ps ! psb_src nb"
  have "plain_item ?r nb = item \<and> item_rank rank item = ref_rank rank ?r \<and> item_val e c item = psb_fold_u32 nb (ref_val e c ?r)"
  proof (cases item)
    case (ImmByte u)
    then have k: "ps_imm ps = Some (psb_src nb)" "\<not> psb_msb nb" "ucast (drop_bit (8 * psb_byte nb) (imm_val ?r)) = u"
      using assms(2) by (simp_all add: item_in_def)
    have "?r = SrZero \<or> (\<exists>w. ?r = Imm32 w)" using assms(1) k(1) by (auto simp: ps_inv_def)
    then show ?thesis using k(2,3) ImmByte by (auto simp: plain_item_def fold_picked picked_def imm_val_def ref_rank_def)
  next
    case (RefByte r k m)
    then have "?r = r" "psb_byte nb = k" "psb_msb nb = m" "sr_as_u32 r = Some None"
      using assms(2,3) by (simp_all add: item_in_def item_ok_def)
    then show ?thesis using RefByte by (simp add: plain_item_def fold_picked)
  qed
  then show "plain_item ?r nb = item" "item_rank rank item = ref_rank rank ?r"
    "item_val e c item = psb_fold_u32 nb (ref_val e c ?r)" by blast+
qed

text \<open>What \<^verbatim>\<open>try_opt_prmt4\<close> leaves behind.\<close>

definition packed :: "OpPrmt \<Rightarrow> PrmtSel \<Rightarrow> SelItem list \<Rightarrow> bool" where
  "packed op sel items \<longleftrightarrow> length items = 4 \<and> (\<forall>i<4. item_ok (items ! i)) \<and>
     (\<exists>ps nsel. pack items = Some (Some (ps, nsel)) \<and> psel_new nsel = Some sel \<and>
        reference (prmt_src op 0) = ps_srcs ps ! 0 \<and> reference (prmt_src op 1) = ps_srcs ps ! 1)"

definition sel_byte :: "PrmtSel \<Rightarrow> nat \<Rightarrow> PrmtSelByte" where "sel_byte sel i = the (psel_get sel i)"

lemma sel_byte: "i < 4 \<Longrightarrow> psel_get sel i = Some (sel_byte sel i)"
  using psel_get_total [of i sel] by (auto simp: sel_byte_def)

abbreviation "picked_ref op sel i \<equiv> reference (prmt_src op (psb_src (sel_byte sel i)))"

lemma packedE:
  assumes "packed op sel items" "i < 4"
  shows "plain_item (picked_ref op sel i) (sel_byte sel i) = items ! i"
    and "ref_rank rank (picked_ref op sel i) = item_rank rank (items ! i)"
    and "psb_fold_u32 (sel_byte sel i) (ref_val e c (picked_ref op sel i)) = item_val e c (items ! i)"
proof -
  obtain ps nsel where p: "pack items = Some (Some (ps, nsel))" "psel_new nsel = Some sel"
    and r: "reference (prmt_src op 0) = ps_srcs ps ! 0" "reference (prmt_src op 1) = ps_srcs ps ! 1"
    and ok: "\<And>i. i < 4 \<Longrightarrow> item_ok (items ! i)" using assms(1) by (auto simp: packed_def)
  from pack_spec [OF ok] p(1) have s: "length nsel = 4" "ps_inv ps" "\<And>i. i < 4 \<Longrightarrow> item_in ps (items ! i) (nsel ! i)" by auto
  have "psb (nsel ! i) \<le> 0xf" if "i < 4" for i using s(3) [OF that] by (simp add: item_in_def)
  from psel_new_spec [OF s(1) this] p(2) have "psel_get sel i = Some (nsel ! i)" using assms(2) by auto
  then have n: "sel_byte sel i = nsel ! i" by (simp add: sel_byte_def)
  have "psb_src (nsel ! i) = 0 \<or> psb_src (nsel ! i) = 1" using psb_index(3) [of "nsel ! i"] by linarith
  then have ref: "reference (prmt_src op (psb_src (nsel ! i))) = ps_srcs ps ! psb_src (nsel ! i)" using r by auto
  from item_in_plain [OF s(2) s(3) [OF assms(2)] ok [OF assms(2)]]
  show "plain_item (picked_ref op sel i) (sel_byte sel i) = items ! i"
    "ref_rank rank (picked_ref op sel i) = item_rank rank (items ! i)"
    "psb_fold_u32 (sel_byte sel i) (ref_val e c (picked_ref op sel i)) = item_val e c (items ! i)"
    unfolding n ref by simp_all
qed

lemma src_of_ref_parts [simp]: "reference (src_of_ref r) = r" "is_unmodified (src_of_ref r)"
  by (simp_all add: src_of_ref_def is_unmodified_def)

lemma set_src_simps [simp]:
  "prmt_mode (set_src i s op) = prmt_mode op"
  "i < 3 \<Longrightarrow> k < 3 \<Longrightarrow> prmt_src (set_src i s op) k = (if k = i then s else prmt_src op k)"
  by (cases "prmt_srcs op"; auto simp: set_src_def prmt_src_def)+

lemma prmt_get_sel_src:
  "prmt_get_sel op = (if prmt_mode op \<noteq> Index then Some None
     else map_option (map_option (\<lambda>sel. \<lparr>psel = ucast sel\<rparr>)) (as_u32 (prmt_src op 2) TyALU))"
  by (cases "prmt_srcs op") (simp add: prmt_get_sel_def prmt_src_def)

lemma sel_src_as_u32: "as_u32 (sel_src sel) TyALU = Some (Some (ucast (psel sel)))"
  by (auto simp: sel_src_def as_u32_def sr_of_u32_def)

lemma sel_roundtrip: "\<lparr>psel = ucast (ucast (psel sel) :: u32)\<rparr> = sel"
proof -
  have "ucast (ucast (psel sel) :: u32) = psel sel" by (rule bit_word_eqI) (auto simp: bit_simps)
  then show ?thesis by simp
qed

lemma prmt_get_sel_set:
  "prmt_mode op = Index \<Longrightarrow> prmt_src op 2 = sel_src sel \<Longrightarrow> prmt_get_sel op = Some (Some sel)"
  by (simp add: prmt_get_sel_src sel_src_as_u32 sel_roundtrip)

lemma get_sel_index: "prmt_get_sel op = Some (Some sel) \<Longrightarrow> prmt_mode op = Index"
  by (auto simp: prmt_get_sel_src split: if_splits)

definition op_rank :: "(SSAValue \<Rightarrow> nat) \<Rightarrow> OpPrmt \<Rightarrow> PrmtSel \<Rightarrow> nat" where
  "op_rank rank op sel = (\<Sum>i<4. ref_rank rank (picked_ref op sel i))"

definition prmt_measure :: "(SSAValue \<Rightarrow> nat) \<Rightarrow> OpPrmt \<Rightarrow> PrmtSel \<Rightarrow> nat" where
  "prmt_measure rank op sel = 2 * op_rank rank op sel + of_bool (\<nexists>items. packed op sel items)"

definition prmt_bounded :: "(SSAValue \<Rightarrow> nat) \<Rightarrow> SSAValue set \<Rightarrow> OpPrmt \<Rightarrow> PrmtSel \<Rightarrow> bool" where
  "prmt_bounded rank B op sel \<longleftrightarrow> prmt_get_sel op = Some (Some sel) \<and> prmt_srcs_ok rank B op"

definition same_value :: "PrmtPass \<Rightarrow> OpPrmt \<Rightarrow> OpPrmt \<Rightarrow> bool" where
  "same_value p op op' \<longleftrightarrow> prmt_mode op' = prmt_mode op \<and> (\<forall>e c. entry_vals e c p \<longrightarrow> prmt_value e c op' = prmt_value e c op)"

lemma prmt_value_bytes:
  assumes "prmt_get_sel op = Some (Some sel)" "prmt_get_sel op' = Some (Some sel')"
    and "\<And>b. b < 4 \<Longrightarrow> psb_fold_u32 (sel_byte sel b) (ref_val e c (picked_ref op sel b)) =
      psb_fold_u32 (sel_byte sel' b) (ref_val e c (picked_ref op' sel' b))"
  shows "prmt_value e c op = prmt_value e c op'"
proof -
  have "prmt_bytes sel (\<lambda>k. ref_val e c (reference (prmt_src op k))) = prmt_bytes sel' (\<lambda>k. ref_val e c (reference (prmt_src op' k)))"
    by (rule prmt_bytes_cong) (use assms(3) sel_byte in auto)
  then show ?thesis using assms(1,2) by (simp add: prmt_value_def)
qed

lemma pack_loop:
  assumes "\<And>i. i < 4 \<Longrightarrow> sel_item p op (sel_byte sel i) = Some (items ! i)"
  shows "foldM (opt_prmt4_byte p op sel) [0..<4] (Some (ps_new, replicate 4 psb_invalid)) = pack items"
  unfolding pack_def
proof (rule foldM_cong [OF refl refl])
  fix i st assume "i \<in> set [0..<4]"
  then have "i < 4" by simp
  then show "opt_prmt4_byte p op sel i st = pack_byte items i st"
    using assms sel_byte [of i sel] by (simp add: opt_prmt4_byte_def pack_byte_def split: option.split)
qed

lemma try_opt_prmt4_spec:
  assumes p: "pass_ok rank p" and op: "prmt_bounded rank B op sel"
  shows "\<exists>r. try_opt_prmt4 p op = Some r \<and> (r = None \<or> (\<exists>op' sel'. r = Some op' \<and> prmt_bounded rank B op' sel' \<and>
    same_value p op op' \<and> prmt_measure rank op' sel' < prmt_measure rank op sel))"
proof -
  have gs: "prmt_get_sel op = Some (Some sel)" and so: "prmt_srcs_ok rank B op" using op by (simp_all add: prmt_bounded_def)
  have "\<exists>item. sel_item p op (sel_byte sel i) = Some item" for i using sel_item_spec [OF p so] by blast
  then obtain it where it: "\<And>i. sel_item p op (sel_byte sel i) = Some (it i)" by metis
  define items where "items = map it [0..<4]"
  have nth: "items ! i = it i" "items ! i \<in> set items" if "i < 4" for i using that by (auto simp: items_def)
  note spec = sel_item_spec [OF p so, of "sel_byte sel _", unfolded it option.inject]
  have ok: "item_ok (items ! i)" if "i < 4" for i using spec [of i] nth [OF that] by auto
  have val: "item_val e c (items ! i) = psb_fold_u32 (sel_byte sel i) (ref_val e c (picked_ref op sel i))"
    if "i < 4" "entry_vals e c p" for i e c using spec [of i] nth [OF that(1)] that(2) by auto
  have le: "item_rank rank (items ! i) \<le> ref_rank rank (picked_ref op sel i)" if "i < 4" for i
    using spec [of i] nth [OF that] by (auto split: if_splits)
  have less: "item_rank rank (items ! i) < ref_rank rank (picked_ref op sel i) \<or> items ! i = plain_item (picked_ref op sel i) (sel_byte sel i)"
    if "i < 4" for i using spec [of i] nth [OF that] by (auto split: if_splits)
  have bnd: "bounded_ref rank B r" if "RefByte r k m \<in> set items" for r k m
  proof -
    obtain i where "i < 4" "it i = RefByte r k m" using \<open>RefByte r k m \<in> set items\<close> by (auto simp: items_def)
    moreover have "item_bound rank B (it i)" using spec [of i] by blast
    ultimately show ?thesis by simp
  qed
  have loop: "foldM (opt_prmt4_byte p op sel) [0..<4] (Some (ps_new, replicate 4 psb_invalid)) = pack items"
    by (rule pack_loop) (simp add: it nth)
  obtain r where r: "pack items = Some r" "r = None \<or>
    (\<exists>ps nsel. r = Some (ps, nsel) \<and> length nsel = 4 \<and> ps_inv ps \<and> (\<forall>i<4. item_in ps (items ! i) (nsel ! i)))"
    using pack_spec [OF ok] by blast
  show ?thesis
  proof (cases r)
    case None
    then show ?thesis using gs loop r(1) by (simp add: try_opt_prmt4_def)
  next
    case (Some y)
    then obtain ps nsel where y: "r = Some (ps, nsel)" "length nsel = 4" "ps_inv ps" "\<And>i. i < 4 \<Longrightarrow> item_in ps (items ! i) (nsel ! i)"
      using r(2) by auto
    have "psb (nsel ! i) \<le> 0xf" if "i < 4" for i using y(4) [OF that] by (simp add: item_in_def)
    from psel_new_spec [OF y(2) this] obtain sel' where sel': "psel_new nsel = Some sel'" by blast
    have len: "length (ps_srcs ps) = 2" using y(3) by (simp add: ps_inv_def)
    let ?s0 = "ps_srcs ps ! 0" and ?s1 = "ps_srcs ps ! 1"
    define op' where "op' = set_src 0 (src_of_ref ?s0) (set_src 1 (src_of_ref ?s1) (set_src 2 (sel_src sel') op))"
    have step: "try_opt_prmt4 p op = Some (if sel' = sel \<and> ?s0 = reference (prmt_src op 0) \<and> ?s1 = reference (prmt_src op 1) then None else Some op')"
    proof -
      have "index (ps_srcs ps) 0 = Some ?s0" "index (ps_srcs ps) 1 = Some ?s1" using len by (simp_all add: index_def)
      then show ?thesis using gs loop r(1) y(1) sel' by (simp add: try_opt_prmt4_def op'_def)
    qed
    have mode: "prmt_mode op' = Index" using get_sel_index [OF gs] by (simp add: op'_def)
    have gs': "prmt_get_sel op' = Some (Some sel')" by (rule prmt_get_sel_set [OF mode]) (simp add: op'_def)
    have src': "prmt_src op' 0 = src_of_ref ?s0" "prmt_src op' 1 = src_of_ref ?s1" by (simp_all add: op'_def)
    have packed: "packed op' sel' items"
      using ok r(1) y(1) sel' src' by (auto simp: packed_def items_def)
    have "from_items (set items) (ps_srcs ps)" using pack_from [of items ps nsel] r(1) y(1) by (simp add: items_def)
    then have "bounded_ref rank B r" if "r \<in> set (ps_srcs ps)" for r
      using that bnd by (fastforce simp: from_items_def bounded_ref_def ref_ok_def ref_rank_def)
    then have "prmt_srcs_ok rank B op'"
      using len src' by (auto simp: prmt_srcs_ok_def less_2_cases_iff)
    then have b': "prmt_bounded rank B op' sel'" using gs' by (simp add: prmt_bounded_def)
    have "same_value p op op'"
      unfolding same_value_def using get_sel_index [OF gs] mode
      by (auto intro!: prmt_value_bytes [OF gs' gs] simp: packedE(3) [OF packed] val)
    moreover have "prmt_measure rank op' sel' < prmt_measure rank op sel"
      if ne: "\<not> (sel' = sel \<and> ?s0 = reference (prmt_src op 0) \<and> ?s1 = reference (prmt_src op 1))"
    proof -
      have op'r: "op_rank rank op' sel' = (\<Sum>i<4. item_rank rank (items ! i))"
        unfolding op_rank_def by (rule sum.cong) (use packedE(2) [OF packed] in auto)
      have oq: "op_rank rank op sel = (\<Sum>i<4. ref_rank rank (picked_ref op sel i))" by (simp add: op_rank_def)
      have m': "prmt_measure rank op' sel' = 2 * op_rank rank op' sel'" using packed by (auto simp: prmt_measure_def)
      show ?thesis
      proof (cases "\<exists>i<4. item_rank rank (items ! i) < ref_rank rank (picked_ref op sel i)")
        case True
        then have "op_rank rank op' sel' < op_rank rank op sel"
          unfolding op'r oq using le by (intro sum_strict_mono_ex1) auto
        then show ?thesis using m' by (simp add: prmt_measure_def)
      next
        case False
        then have plain: "items ! i = plain_item (picked_ref op sel i) (sel_byte sel i)" if "i < 4" for i using less that by blast
        have "\<not> packed op sel items'" for items'
        proof
          assume q: "packed op sel items'"
          then have "items' ! i = items ! i" if "i < 4" for i using packedE(1) [OF q that] plain [OF that] by simp
          then have "items' = items" using q by (intro nth_equalityI) (auto simp: packed_def items_def)
          then show False using q r(1) y(1) sel' ne by (auto simp: packed_def)
        qed
        moreover have "op_rank rank op' sel' \<le> op_rank rank op sel"
          unfolding op'r oq using le by (intro sum_mono) auto
        ultimately show ?thesis using m' by (simp add: prmt_measure_def)
      qed
    qed
    ultimately show ?thesis using step b' by auto
  qed
qed

subsection \<open>\<^verbatim>\<open>try_opt_prmt_src\<close>\<close>

lemma psel_get_valid: "psel_get sel i = Some b \<Longrightarrow> psb b \<le> 0xf"
proof -
  assume "psel_get sel i = Some b"
  then have b: "psb b = ucast (drop_bit (i * 4) (psel sel) AND 0xf)" by (auto simp: psel_get_def panic_simps)
  have "unat (drop_bit (i * 4) (psel sel) AND 0xf) \<le> 15"
    using word_and_le1 [of "drop_bit (i * 4) (psel sel)" 15] by (simp add: word_le_nat_alt)
  then show ?thesis unfolding b by (simp add: word_le_nat_alt unsigned_ucast_eq take_bit_eq_mod)
qed

lemma through_entry:
  assumes "entry_vals e c p" "p v = Some ent" "psel_get (pe_sel ent) (psb_byte ob) = Some sb"
  shows "psb_fold_u32 ob (e v) = picked (psb_msb ob \<or> psb_msb sb) (psb_byte sb) (ref_val e c (pe_srcs ent ! psb_src sb))"
proof -
  have "prmt_bytes (pe_sel ent) (\<lambda>k. ref_val e c (pe_srcs ent ! k)) = Some (e v)"
    using assms(1,2) by (auto simp: entry_vals_def)
  from byte_of_entry [OF this psb_index(2) assms(3)] show ?thesis
    by (auto simp: fold_picked picked_def Let_def sign_fill14)
qed

text \<open>A byte after the source \<open>k\<close> has been replaced by a source of the permutation that defines it.\<close>

definition byte_moved :: "PrmtSel \<Rightarrow> PrmtEntry \<Rightarrow> nat \<Rightarrow> nat option \<Rightarrow> nat \<Rightarrow> PrmtSelByte \<Rightarrow> bool" where
  "byte_moved sel ent k s i nb \<longleftrightarrow> psb nb \<le> 0xf \<and>
     (if psb_src (sel_byte sel i) \<noteq> k then nb = sel_byte sel i
      else \<exists>sb. psel_get (pe_sel ent) (psb_byte (sel_byte sel i)) = Some sb \<and> s = Some (psb_src sb) \<and>
        psb_src nb = k \<and> psb_byte nb = psb_byte sb \<and> psb_msb nb = (psb_msb (sel_byte sel i) \<or> psb_msb sb))"

lemma opt_src_bytes:
  assumes k: "k < 2"
  shows "\<exists>r. foldM (opt_src_byte sel ent k) [0..<4] (Some (replicate 4 psb_invalid, None)) = Some r \<and>
    (r = None \<or> (\<exists>ns s. r = Some (ns, s) \<and> length ns = 4 \<and> (\<forall>x. s = Some x \<longrightarrow> x < 2) \<and>
       (\<forall>i<4. byte_moved sel ent k s i (ns ! i))))"
proof -
  let ?P = "\<lambda>n r. r = None \<or> (\<exists>ns s. r = Some (ns, s) \<and> length ns = 4 \<and> (\<forall>x. s = Some x \<longrightarrow> x < 2) \<and>
       (\<forall>i<n. byte_moved sel ent k s i (ns ! i)))"
  show ?thesis
  proof (rule foldM_upt [where P = ?P])
    fix i st assume i: "i < 4" and P: "?P i st"
    show "\<exists>st'. opt_src_byte sel ent k i st = Some st' \<and> ?P (Suc i) st'"
    proof (cases st)
      case None
      then show ?thesis by (simp add: opt_src_byte_def)
    next
      case (Some y)
      then obtain ns s where s: "st = Some (ns, s)" "length ns = 4" "\<And>x. s = Some x \<Longrightarrow> x < 2"
        "\<And>j. j < i \<Longrightarrow> byte_moved sel ent k s j (ns ! j)" using P by auto
      let ?ob = "sel_byte sel i"
      have ob: "psel_get sel i = Some ?ob" "psb ?ob \<le> 0xf" using sel_byte [OF i] psel_get_valid by blast+
      show ?thesis
      proof (cases "psb_src ?ob = k")
        case False
        have "byte_moved sel ent k s j (ns[i := ?ob] ! j)" if "j < Suc i" for j
          using that s(2,4) i ob False by (cases "j = i") (auto simp: byte_moved_def)
        then show ?thesis using False s ob by (simp add: opt_src_byte_def)
      next
        case True
        obtain sb where sb: "psel_get (pe_sel ent) (psb_byte ?ob) = Some sb" using psel_get_total [OF psb_index(2)] by blast
        show ?thesis
        proof (cases "s \<noteq> None \<and> s \<noteq> Some (psb_src sb)")
          case out: True
          then show ?thesis using True s ob sb by (simp add: opt_src_byte_def)
        next
          case out: False
          obtain nb where nb: "psb_new k (psb_byte sb) (psb_msb ?ob \<or> psb_msb sb) = Some nb" "psb_src nb = k"
            "psb_byte nb = psb_byte sb" "psb_msb nb = (psb_msb ?ob \<or> psb_msb sb)" "psb nb \<le> 0xf"
            using psb_new_spec [OF k psb_index(2)] by blast
          have "opt_src_byte sel ent k i st = Some (Some (ns[i := nb], Some (psb_src sb)))"
            using True s(1) ob sb nb(1) out by (simp add: opt_src_byte_def)
          moreover have "byte_moved sel ent k (Some (psb_src sb)) j (ns[i := nb] ! j)" if "j < Suc i" for j
          proof (cases "j = i")
            case True
            then show ?thesis using nb sb \<open>psb_src ?ob = k\<close> i s(2) by (auto simp: byte_moved_def)
          next
            case False
            then have "byte_moved sel ent k s j (ns ! j)" using that s(4) by simp
            moreover have "s = None \<or> s = Some (psb_src sb)" using out by blast
            ultimately show ?thesis using False by (auto simp: byte_moved_def split: if_splits)
          qed
          ultimately show ?thesis using s(2) psb_index(3) [of sb] by auto
        qed
      qed
    qed
  qed auto
qed

lemma try_opt_prmt_src_spec:
  assumes p: "pass_ok rank p" and op: "prmt_bounded rank B op sel" and k: "k < 2"
  shows "\<exists>r. try_opt_prmt_src p op k = Some r \<and> (r = None \<or> (\<exists>op' sel'. r = Some op' \<and> prmt_bounded rank B op' sel' \<and>
    same_value p op op' \<and> ref_rank rank (reference (prmt_src op' k)) < ref_rank rank (reference (prmt_src op k))))"
proof -
  have gs: "prmt_get_sel op = Some (Some sel)" and so: "prmt_srcs_ok rank B op" using op by (simp_all add: prmt_bounded_def)
  have s: "is_unmodified (prmt_src op k)" "ref_ok (reference (prmt_src op k))" "\<forall>w\<in>B. ref_rank rank (reference (prmt_src op k)) \<le> rank w"
    using so k by (auto simp: prmt_srcs_ok_def bounded_ref_def)
  obtain en where en: "get_prmt_for_src p (prmt_src op k) = Some en"
    "\<And>ent. en = Some ent \<Longrightarrow> \<exists>vec. reference (prmt_src op k) = SrSSA vec \<and> p (SSARef_deref vec ! 0) = Some ent"
    using get_prmt_spec [OF s(1,2), of p] by blast
  show ?thesis
  proof (cases en)
    case None
    then show ?thesis using gs en(1) by (simp add: try_opt_prmt_src_def)
  next
    case (Some ent)
    then obtain vec where vec: "reference (prmt_src op k) = SrSSA vec" "p (SSARef_deref vec ! 0) = Some ent" using en(2) by blast
    let ?v = "SSARef_deref vec ! 0"
    have ent: "length (pe_srcs ent) = 2" "\<And>r. r \<in> set (pe_srcs ent) \<Longrightarrow> bounded_ref rank {?v} r"
      using p vec(2) by (auto simp: pass_ok_def)
    have rk: "ref_rank rank (reference (prmt_src op k)) = Suc (rank ?v)" using vec(1) by (simp add: ref_rank_def)
    obtain r where r: "foldM (opt_src_byte sel ent k) [0..<4] (Some (replicate 4 psb_invalid, None)) = Some r"
      "r = None \<or> (\<exists>ns s. r = Some (ns, s) \<and> length ns = 4 \<and> (\<forall>x. s = Some x \<longrightarrow> x < 2) \<and> (\<forall>i<4. byte_moved sel ent k s i (ns ! i)))"
      using opt_src_bytes [OF k] by blast
    show ?thesis
    proof (cases r)
      case None
      then show ?thesis using gs en(1) Some r(1) by (simp add: try_opt_prmt_src_def)
    next
      case r': (Some y)
      then obtain ns x where y: "r = Some (ns, x)" "length ns = 4" "\<And>a. x = Some a \<Longrightarrow> a < 2" "\<And>i. i < 4 \<Longrightarrow> byte_moved sel ent k x i (ns ! i)"
        using r(2) by auto
      have "psb (ns ! i) \<le> 0xf" if "i < 4" for i using y(4) [OF that] by (simp add: byte_moved_def)
      from psel_new_spec [OF y(2) this] obtain sel' where sel': "psel_new ns = Some sel'" "\<And>i. i < 4 \<Longrightarrow> psel_get sel' i = Some (ns ! i)" by blast
      define ref where "ref = (case x of None \<Rightarrow> SrZero | Some a \<Rightarrow> pe_srcs ent ! a)"
      define op' where "op' = set_src k (src_of_ref ref) (set_src 2 (sel_src sel') op)"
      have "(case x of None \<Rightarrow> Some (src_of_ref (sr_of_u32 0)) | Some a \<Rightarrow> map_option src_of_ref (index (pe_srcs ent) a)) = Some (src_of_ref ref)"
        using y(3) ent(1) by (auto simp: ref_def sr_of_u32_def index_def split: option.split)
      then have step: "try_opt_prmt_src p op k = Some (Some op')"
        using gs en(1) Some r(1) y(1) sel'(1) by (simp add: try_opt_prmt_src_def op'_def)
      have gs': "prmt_get_sel op' = Some (Some sel')"
        by (rule prmt_get_sel_set) (use get_sel_index [OF gs] k in \<open>simp_all add: op'_def\<close>)
      have "bounded_ref rank {?v} ref"
        using ent y(3) by (auto simp: ref_def bounded_ref_def ref_ok_def ref_rank_def split: option.split)
      then have ref: "ref_ok ref" "ref_rank rank ref \<le> rank ?v" by (auto simp: bounded_ref_def)
      have src': "prmt_src op' j = (if j = k then src_of_ref ref else prmt_src op j)" if "j < 2" for j
        using that k by (simp add: op'_def)
      have "prmt_srcs_ok rank B op'"
        using so ref s(3) rk unfolding prmt_srcs_ok_def by (fastforce simp: src' bounded_ref_def)
      then have "prmt_bounded rank B op' sel'" using gs' by (simp add: prmt_bounded_def)
      moreover have "same_value p op op'"
        unfolding same_value_def
      proof (intro conjI allI impI)
        show "prmt_mode op' = prmt_mode op" by (simp add: op'_def)
        fix e c assume ev: "entry_vals e c p"
        show "prmt_value e c op' = prmt_value e c op"
        proof (rule prmt_value_bytes [OF gs' gs])
          fix b :: nat assume b: "b < 4"
          let ?ob = "sel_byte sel b"
          have nb: "sel_byte sel' b = ns ! b" using sel'(2) [OF b] by (simp add: sel_byte_def)
          have mv: "byte_moved sel ent k x b (ns ! b)" by (rule y(4) [OF b])
          have lt: "psb_src (ns ! b) < 2" "psb_src ?ob < 2" by (rule psb_index(3))+
          show "psb_fold_u32 (sel_byte sel' b) (ref_val e c (picked_ref op' sel' b)) =
              psb_fold_u32 ?ob (ref_val e c (picked_ref op sel b))"
          proof (cases "psb_src ?ob = k")
            case False
            then have "ns ! b = ?ob" using mv by (simp add: byte_moved_def)
            then show ?thesis using False lt by (simp add: nb src')
          next
            case True
            then obtain sb where sb: "psel_get (pe_sel ent) (psb_byte ?ob) = Some sb" "x = Some (psb_src sb)" "psb_src (ns ! b) = k"
              "psb_byte (ns ! b) = psb_byte sb" "psb_msb (ns ! b) = (psb_msb ?ob \<or> psb_msb sb)"
              using mv by (auto simp: byte_moved_def)
            have "psb_fold_u32 ?ob (ref_val e c (picked_ref op sel b)) = psb_fold_u32 ?ob (e ?v)" using True vec(1) by simp
            also have "\<dots> = picked (psb_msb (ns ! b)) (psb_byte (ns ! b)) (ref_val e c ref)"
              using through_entry [OF ev vec(2) sb(1)] sb by (simp add: ref_def)
            finally show ?thesis using sb(3) k by (simp add: nb src' fold_picked)
          qed
        qed
      qed
      moreover have "ref_rank rank (reference (prmt_src op' k)) < ref_rank rank (reference (prmt_src op k))"
        using ref(2) rk k by (simp add: src')
      ultimately show ?thesis using step by blast
    qed
  qed
qed

subsection \<open>The loops\<close>

definition prmt_fit :: "(SSAValue \<Rightarrow> nat) \<Rightarrow> SSAValue set \<Rightarrow> OpPrmt \<Rightarrow> bool" where
  "prmt_fit rank B op \<longleftrightarrow>
     (case prmt_get_sel op of None \<Rightarrow> False | Some None \<Rightarrow> True | Some (Some _) \<Rightarrow> prmt_srcs_ok rank B op)"

lemma prmt_fit_cases:
  assumes "prmt_fit rank B op"
  obtains "prmt_get_sel op = Some None" | sel where "prmt_bounded rank B op sel"
  using assms by (auto simp: prmt_fit_def prmt_bounded_def split: option.splits)

lemma bounded_fit: "prmt_bounded rank B op sel \<Longrightarrow> prmt_fit rank B op"
  by (simp add: prmt_fit_def prmt_bounded_def)

lemma same_value_refl: "same_value p op op"
  by (simp add: same_value_def)

lemma same_value_trans: "same_value p op op' \<Longrightarrow> same_value p op' op'' \<Longrightarrow> same_value p op op''"
  by (simp add: same_value_def)

lemma prmt_src_loop_bounded:
  assumes p: "pass_ok rank p" and k: "k < 2" and op: "prmt_bounded rank B op sel"
  shows "\<exists>op'. prmt_src_loop p k op = Some op' \<and> prmt_fit rank B op' \<and> same_value p op op'"
  using op
proof (induction "ref_rank rank (reference (prmt_src op k))" arbitrary: op sel rule: less_induct)
  case less
  obtain r where r: "try_opt_prmt_src p op k = Some r" "r = None \<or> (\<exists>op' sel'. r = Some op' \<and> prmt_bounded rank B op' sel' \<and>
    same_value p op op' \<and> ref_rank rank (reference (prmt_src op' k)) < ref_rank rank (reference (prmt_src op k)))"
    using try_opt_prmt_src_spec [OF p less.prems k] by blast
  show ?case
  proof (cases r)
    case None
    then have "prmt_src_loop p k op = Some op" using r(1) by (subst prmt_src_loop.simps) simp
    then show ?thesis using bounded_fit [OF less.prems] same_value_refl by blast
  next
    case (Some op1)
    then obtain sel1 where 1: "prmt_bounded rank B op1 sel1" "same_value p op op1"
      "ref_rank rank (reference (prmt_src op1 k)) < ref_rank rank (reference (prmt_src op k))" using r(2) by auto
    from less.hyps [OF 1(3,1)] obtain op' where "prmt_src_loop p k op1 = Some op'" "prmt_fit rank B op'" "same_value p op1 op'" by blast
    moreover have "prmt_src_loop p k op = prmt_src_loop p k op1" using r(1) Some by (subst prmt_src_loop.simps) simp
    ultimately show ?thesis using same_value_trans [OF 1(2)] by auto
  qed
qed

lemma prmt4_loop_bounded:
  assumes p: "pass_ok rank p" and op: "prmt_bounded rank B op sel"
  shows "\<exists>op'. prmt4_loop p op = Some op' \<and> prmt_fit rank B op' \<and> same_value p op op'"
  using op
proof (induction "prmt_measure rank op sel" arbitrary: op sel rule: less_induct)
  case less
  obtain r where r: "try_opt_prmt4 p op = Some r" "r = None \<or> (\<exists>op' sel'. r = Some op' \<and> prmt_bounded rank B op' sel' \<and>
    same_value p op op' \<and> prmt_measure rank op' sel' < prmt_measure rank op sel)"
    using try_opt_prmt4_spec [OF p less.prems] by blast
  show ?case
  proof (cases r)
    case None
    then have "prmt4_loop p op = Some op" using r(1) by (subst prmt4_loop.simps) simp
    then show ?thesis using bounded_fit [OF less.prems] same_value_refl by blast
  next
    case (Some op1)
    then obtain sel1 where 1: "prmt_bounded rank B op1 sel1" "same_value p op op1" "prmt_measure rank op1 sel1 < prmt_measure rank op sel"
      using r(2) by auto
    from less.hyps [OF 1(3,1)] obtain op' where "prmt4_loop p op1 = Some op'" "prmt_fit rank B op'" "same_value p op1 op'" by blast
    moreover have "prmt4_loop p op = prmt4_loop p op1" using r(1) Some by (subst prmt4_loop.simps) simp
    ultimately show ?thesis using same_value_trans [OF 1(2)] by auto
  qed
qed

lemma prmt_loops:
  assumes p: "pass_ok rank p" and op: "prmt_fit rank B op"
  shows "k < 2 \<Longrightarrow> \<exists>op'. prmt_src_loop p k op = Some op' \<and> prmt_fit rank B op' \<and> same_value p op op'"
    and "\<exists>op'. prmt4_loop p op = Some op' \<and> prmt_fit rank B op' \<and> same_value p op op'"
proof -
  show "\<exists>op'. prmt_src_loop p k op = Some op' \<and> prmt_fit rank B op' \<and> same_value p op op'" if k: "k < 2"
    using op
  proof (cases rule: prmt_fit_cases)
    case 1
    then have "prmt_src_loop p k op = Some op" by (subst prmt_src_loop.simps) (simp add: try_opt_prmt_src_def)
    then show ?thesis using op same_value_refl by blast
  qed (rule prmt_src_loop_bounded [OF p k])
  show "\<exists>op'. prmt4_loop p op = Some op' \<and> prmt_fit rank B op' \<and> same_value p op op'"
    using op
  proof (cases rule: prmt_fit_cases)
    case 1
    then have "prmt4_loop p op = Some op" by (subst prmt4_loop.simps) (simp add: try_opt_prmt4_def)
    then show ?thesis using op same_value_refl by blast
  qed (rule prmt4_loop_bounded [OF p])
qed

subsection \<open>The whole pass\<close>

definition prmt_dst_ok :: "Dst \<Rightarrow> bool" where
  "prmt_dst_ok dst \<longleftrightarrow> (case dst of DstSSA vec \<Rightarrow> SSARef_comps vec = 1 \<and> SSARef_deref vec \<noteq> [] | _ \<Rightarrow> True)"

definition prmt_defs :: "Dst \<Rightarrow> SSAValue set" where
  "prmt_defs dst = (case dst of DstSSA vec \<Rightarrow> {SSARef_deref vec ! 0} | _ \<Rightarrow> {})"

text \<open>What a permutation with a constant selector says about its destination.\<close>

definition prmt_eq :: "(SSAValue \<Rightarrow> u32) \<Rightarrow> (SrcRef \<Rightarrow> u32) \<Rightarrow> Dst \<Rightarrow> OpPrmt \<Rightarrow> bool" where
  "prmt_eq e c dst op \<longleftrightarrow> (case prmt_value e c op of None \<Rightarrow> True | Some w \<Rightarrow> (\<forall>v\<in>prmt_defs dst. e v = w))"

lemma prmt_value_Some:
  assumes "prmt_get_sel op = Some (Some sel)"
  obtains w where "prmt_bytes sel (\<lambda>k. ref_val e c (reference (prmt_src op k))) = Some w" "prmt_value e c op = Some w"
  using prmt_bytes_total [of sel "sel_byte sel" "\<lambda>k. ref_val e c (reference (prmt_src op k))"] sel_byte assms
  by (metis (no_types, lifting) option.simps(5) prmt_value_def)

lemma ref_val_pair:
  "prmt_bytes sel (\<lambda>k. ref_val e c ([reference (prmt_src op 0), reference (prmt_src op 1)] ! k)) =
   prmt_bytes sel (\<lambda>k. ref_val e c (reference (prmt_src op k)))"
proof (rule prmt_bytes_cong)
  fix b sb sb' assume "psel_get sel b = Some sb" "psel_get sel b = Some sb'"
  moreover have "psb_src sb = 0 \<or> psb_src sb = 1" using psb_index(3) [of sb] by linarith
  ultimately show "psb_fold_u32 sb (ref_val e c ([reference (prmt_src op 0), reference (prmt_src op 1)] ! psb_src sb)) =
     psb_fold_u32 sb' (ref_val e c (reference (prmt_src op (psb_src sb'))))" by auto
qed

lemma add_prmt_spec:
  assumes p: "pass_ok rank p" and d: "prmt_dst_ok dst" and op: "prmt_fit rank (prmt_defs dst) op"
  shows "\<exists>p'. add_prmt dst op p = Some p' \<and> pass_ok rank p' \<and>
    (\<forall>e c. entry_vals e c p \<and> prmt_eq e c dst op \<longrightarrow> entry_vals e c p')"
proof (cases dst)
  case (DstSSA vec)
  let ?v = "SSARef_deref vec ! 0"
  have v: "SSARef_comps vec = 1" "index (SSARef_deref vec) 0 = Some ?v" "prmt_defs dst = {?v}"
    using d DstSSA by (auto simp: prmt_dst_ok_def index_def prmt_defs_def)
  show ?thesis
    using op
  proof (cases rule: prmt_fit_cases)
    case 1
    then show ?thesis using DstSSA v p by (simp add: add_prmt_def)
  next
    case (2 sel)
    let ?ent = "\<lparr>pe_sel = sel, pe_srcs = [reference (prmt_src op 0), reference (prmt_src op 1)]\<rparr>"
    have gs: "prmt_get_sel op = Some (Some sel)" and so: "prmt_srcs_ok rank {?v} op" using 2 v(3) by (simp_all add: prmt_bounded_def)
    have "add_prmt dst op p = Some (p(?v \<mapsto> ?ent))" using DstSSA v gs so by (simp add: add_prmt_def prmt_srcs_ok_def)
    moreover have "pass_ok rank (p(?v \<mapsto> ?ent))" using p so by (auto simp: pass_ok_def prmt_srcs_ok_def)
    moreover have "entry_vals e c (p(?v \<mapsto> ?ent))" if h: "entry_vals e c p" "prmt_eq e c dst op" for e c
    proof -
      obtain w where w: "prmt_bytes sel (\<lambda>k. ref_val e c (reference (prmt_src op k))) = Some w" "prmt_value e c op = Some w"
        using prmt_value_Some [OF gs] by blast
      then have "e ?v = w" using h(2) v(3) by (simp add: prmt_eq_def)
      then show ?thesis using h(1) w(1) ref_val_pair [of sel e c op] by (auto simp: entry_vals_def)
    qed
    ultimately show ?thesis by blast
  qed
qed (use p in \<open>simp_all add: add_prmt_def\<close>)

lemma opt_prmt_op_spec:
  assumes p: "pass_ok rank p" and d: "prmt_dst_ok dst" and op: "prmt_fit rank (prmt_defs dst) op"
  shows "\<exists>op' p'. opt_prmt_op dst op p = Some (op', p') \<and> pass_ok rank p' \<and> same_value p op op' \<and>
    (\<forall>e c. entry_vals e c p \<and> prmt_eq e c dst op \<longrightarrow> entry_vals e c p')"
proof -
  obtain a where a: "prmt_src_loop p 0 op = Some a" "prmt_fit rank (prmt_defs dst) a" "same_value p op a"
    using prmt_loops(1) [OF p op, of 0] by auto
  obtain b where b: "prmt_src_loop p 1 a = Some b" "prmt_fit rank (prmt_defs dst) b" "same_value p a b"
    using prmt_loops(1) [OF p a(2), of 1] by auto
  obtain op' where c: "prmt4_loop p b = Some op'" "prmt_fit rank (prmt_defs dst) op'" "same_value p b op'"
    using prmt_loops(2) [OF p b(2)] by auto
  obtain p' where p': "add_prmt dst op' p = Some p'" "pass_ok rank p'"
    "\<And>e c. entry_vals e c p \<and> prmt_eq e c dst op' \<Longrightarrow> entry_vals e c p'" using add_prmt_spec [OF p d c(2)] by blast
  have sv: "same_value p op op'" using same_value_trans [OF same_value_trans [OF a(3) b(3)] c(3)] .
  have u: "[0..<2] = [0, 1 :: nat]" by (simp add: upt_rec)
  have "opt_prmt_op dst op p = Some (op', p')" using a(1) b(1) c(1) p'(1) by (simp add: opt_prmt_op_def u)
  moreover have "entry_vals e c p'" if "entry_vals e c p \<and> prmt_eq e c dst op" for e c
    using p'(3) [of e c] that sv by (simp add: same_value_def prmt_eq_def)
  ultimately show ?thesis using p'(2) sv by blast
qed

text \<open>The permutation of an instruction.\<close>

definition prmt_view :: "Instr \<Rightarrow> (Dst \<times> OpPrmt) option" where
  "prmt_view i =
     (case in_op i of
        OtherOp (MoveOp (Prmt mode)) [dst] [a, b, sel] \<Rightarrow> Some (dst, \<lparr>prmt_srcs = (a, b, sel), prmt_mode = mode\<rparr>)
      | _ \<Rightarrow> None)"

definition instr_value :: "(SSAValue \<Rightarrow> u32) \<Rightarrow> (SrcRef \<Rightarrow> u32) \<Rightarrow> Instr \<Rightarrow> u32 option" where
  "instr_value e c i = (case prmt_view i of None \<Rightarrow> None | Some (_, op) \<Rightarrow> prmt_value e c op)"

definition prmt_eqs :: "(SSAValue \<Rightarrow> u32) \<Rightarrow> (SrcRef \<Rightarrow> u32) \<Rightarrow> Instr list \<Rightarrow> bool" where
  "prmt_eqs e c is = list_all (\<lambda>i. case prmt_view i of None \<Rightarrow> True | Some (dst, op) \<Rightarrow> prmt_eq e c dst op) is"

text \<open>Only the sources of permutations change.\<close>

definition prmt_frame :: "Instr \<Rightarrow> Instr \<Rightarrow> bool" where
  "prmt_frame i i' \<longleftrightarrow> in_pred i' = in_pred i \<and> in_deps i' = in_deps i \<and>
     (case prmt_view i of
        None \<Rightarrow> in_op i' = in_op i
      | Some (dst, op) \<Rightarrow> (\<exists>op'. prmt_view i' = Some (dst, op') \<and> prmt_mode op' = prmt_mode op))"

definition prmt_wf_instr :: "(SSAValue \<Rightarrow> nat) \<Rightarrow> Instr \<Rightarrow> bool" where
  "prmt_wf_instr rank i \<longleftrightarrow> (case prmt_view i of None \<Rightarrow> True | Some (dst, op) \<Rightarrow> prmt_dst_ok dst \<and> prmt_fit rank (prmt_defs dst) op)"

definition prmt_wf :: "(SSAValue \<Rightarrow> nat) \<Rightarrow> Function \<Rightarrow> bool" where
  "prmt_wf rank f \<longleftrightarrow> list_all (prmt_wf_instr rank) (fn_instrs f)"

definition prmt_rel :: "PrmtPass \<Rightarrow> Instr list \<Rightarrow> Instr list \<Rightarrow> PrmtPass \<Rightarrow> bool" where
  "prmt_rel p is is' p' \<longleftrightarrow> list_all2 prmt_frame is is' \<and>
     (\<forall>e c. entry_vals e c p \<longrightarrow> (prmt_eqs e c is' \<longleftrightarrow> prmt_eqs e c is) \<and>
        (prmt_eqs e c is \<longrightarrow> entry_vals e c p' \<and> map (instr_value e c) is' = map (instr_value e c) is))"

lemma prmt_rel_append:
  "prmt_rel p xs xs' p1 \<Longrightarrow> prmt_rel p1 ys ys' p2 \<Longrightarrow> prmt_rel p (xs @ ys) (xs' @ ys') p2"
  unfolding prmt_rel_def by (auto simp: prmt_eqs_def intro: list_all2_appendI)

lemma prmt_view_op:
  assumes "prmt_view i = Some (dst, op)"
  obtains a b sel where "in_op i = OtherOp (MoveOp (Prmt (prmt_mode op))) [dst] [a, b, sel]" "prmt_srcs op = (a, b, sel)"
  using assms by (auto simp: prmt_view_def split: Op.splits Opcode.splits MoveOp.splits list.splits)

lemma prmt_instr_None: "prmt_view i = None \<Longrightarrow> prmt_instr i p = Some (i, p)"
  by (auto simp: prmt_view_def prmt_instr_def split: Op.splits Opcode.splits MoveOp.splits list.splits)

lemma prmt_instr_spec:
  assumes p: "pass_ok rank p" and w: "prmt_wf_instr rank i"
  shows "\<exists>i' p'. prmt_instr i p = Some (i', p') \<and> pass_ok rank p' \<and> prmt_rel p [i] [i'] p'"
proof (cases "prmt_view i")
  case None
  then show ?thesis using p prmt_instr_None [of i p] by (simp add: prmt_rel_def prmt_frame_def prmt_eqs_def)
next
  case (Some y)
  then obtain dst op where v: "prmt_view i = Some (dst, op)" by (cases y) auto
  obtain a b sel where i: "in_op i = OtherOp (MoveOp (Prmt (prmt_mode op))) [dst] [a, b, sel]" "prmt_srcs op = (a, b, sel)"
    using v by (rule prmt_view_op)
  have "prmt_dst_ok dst" "prmt_fit rank (prmt_defs dst) op" using w v by (simp_all add: prmt_wf_instr_def)
  from opt_prmt_op_spec [OF p this] obtain op' p' where o: "opt_prmt_op dst op p = Some (op', p')" "pass_ok rank p'" "same_value p op op'"
    "\<And>e c. entry_vals e c p \<and> prmt_eq e c dst op \<Longrightarrow> entry_vals e c p'" by blast
  obtain a' b' sel' where s': "prmt_srcs op' = (a', b', sel')" by (cases "prmt_srcs op'")
  let ?i = "i\<lparr>in_op := OtherOp (MoveOp (Prmt (prmt_mode op'))) [dst] [a', b', sel']\<rparr>"
  have opv: "\<lparr>prmt_srcs = (a, b, sel), prmt_mode = prmt_mode op\<rparr> = op" "\<lparr>prmt_srcs = (a', b', sel'), prmt_mode = prmt_mode op'\<rparr> = op'"
    using i(2) s' by simp_all
  have "prmt_instr i p = Some (?i, p')" using i o(1) s' by (simp add: prmt_instr_def opv(1))
  moreover have v': "prmt_view ?i = Some (dst, op')" by (simp add: prmt_view_def opv(2))
  moreover have "prmt_rel p [i] [?i] p'"
    using v v' o(3,4) by (auto simp: prmt_rel_def prmt_frame_def prmt_eqs_def instr_value_def same_value_def prmt_eq_def)
  ultimately show ?thesis using o(2) by blast
qed

lemma prmt_block_spec:
  assumes p: "pass_ok rank p" and w: "list_all (prmt_wf_instr rank) (bb_instrs b)"
  shows "\<exists>b' p'. prmt_block b p = Some (b', p') \<and> pass_ok rank p' \<and> prmt_rel p (bb_instrs b) (bb_instrs b') p'"
proof -
  have "\<exists>is p'. traverseM prmt_instr (bb_instrs b) p = Some (is, p') \<and> pass_ok rank p' \<and>
      prmt_rel p (concat (map (\<lambda>i. [i]) (bb_instrs b))) (concat (map (\<lambda>i. [i]) is)) p'"
    by (rule traverseM_rel [where R = prmt_rel and I = "pass_ok rank"])
       (use p w prmt_instr_spec prmt_rel_append in \<open>auto simp: list_all_iff prmt_rel_def [of _ "[]"] prmt_eqs_def\<close>)
  then show ?thesis by (auto simp: prmt_block_def)
qed

text \<open>
  Property C15.  \<^verbatim>\<open>opt_prmt\<close> ends without a panic on every well-formed function and changes only the sources of
  permutations.  An environment satisfies the equations ``destination = bytes picked from the sources'' of
  the result exactly when it satisfies those of the original, and in such an environment every permutation
  with a constant selector computes the same word as before.
\<close>

theorem opt_prmt_keeps_values:
  assumes "prmt_wf rank f"
  shows "\<exists>f'. opt_prmt f = Some f' \<and> list_all2 prmt_frame (fn_instrs f) (fn_instrs f') \<and>
    (\<forall>e c. (prmt_eqs e c (fn_instrs f') \<longleftrightarrow> prmt_eqs e c (fn_instrs f)) \<and>
      (prmt_eqs e c (fn_instrs f) \<longrightarrow> map (instr_value e c) (fn_instrs f') = map (instr_value e c) (fn_instrs f)))"
proof -
  have p: "pass_ok rank Map.empty" by (simp add: pass_ok_def)
  have "\<exists>bs p'. traverseM prmt_block (cfg_blocks (fn_blocks f)) Map.empty = Some (bs, p') \<and> pass_ok rank p' \<and>
      prmt_rel Map.empty (concat (map bb_instrs (cfg_blocks (fn_blocks f)))) (concat (map bb_instrs bs)) p'"
  proof (rule traverseM_rel [where R = prmt_rel and I = "pass_ok rank"])
    fix b q assume "b \<in> set (cfg_blocks (fn_blocks f))" "pass_ok rank q"
    then show "\<exists>b' q'. prmt_block b q = Some (b', q') \<and> pass_ok rank q' \<and> prmt_rel q (bb_instrs b) (bb_instrs b') q'"
      using assms by (intro prmt_block_spec) (auto simp: prmt_wf_def fn_instrs_def list_all_iff)
  qed (use p prmt_rel_append in \<open>auto simp: prmt_rel_def [of _ "[]"] prmt_eqs_def\<close>)
  then obtain bs p' where r: "traverseM prmt_block (cfg_blocks (fn_blocks f)) Map.empty = Some (bs, p')"
    "prmt_rel Map.empty (fn_instrs f) (concat (map bb_instrs bs)) p'" by (auto simp: fn_instrs_def)
  have "entry_vals e c Map.empty" for e c by (simp add: entry_vals_def)
  with r show ?thesis by (auto simp: opt_prmt_def prmt_rel_def fn_instrs_def)
qed

text \<open>The bytes of a value are reversed twice, and the result is mixed with a constant.\<close>

definition prmt_ref :: "u32 \<Rightarrow> SSARef" where "prmt_ref i = the (SSARef_new [\<lparr>ssa_packed = i\<rparr>])"

definition prmt_demo_op :: "u32 \<Rightarrow> Src \<Rightarrow> Src \<Rightarrow> u32 \<Rightarrow> Instr" where
  "prmt_demo_op d a b sel = instr_new (OtherOp (MoveOp (Prmt Index)) [DstSSA (prmt_ref d)] [a, b, src_of_ref (Imm32 sel)])"

definition prmt_demo :: Function where
  "prmt_demo = \<lparr>fn_ssa_alloc = \<lparr>sa_count = 4\<rparr>, fn_phi_alloc = pa_new,
     fn_blocks = cfg_default\<lparr>cfg_blocks := [\<lparr>bb_label = 0, bb_uniform = False, bb_instrs =
       [prmt_demo_op 2 (src_of_ref (SrSSA (prmt_ref 1))) (src_of_ref SrZero) 0x0123,
        prmt_demo_op 3 (src_of_ref (SrSSA (prmt_ref 2))) (src_of_ref SrZero) 0x0123,
        prmt_demo_op 4 (src_of_ref (SrSSA (prmt_ref 3))) (src_of_ref (Imm32 0xff00)) 0x5B10]\<rparr>]\<rparr>\<rparr>"

lemma prmt_ref_simps:
  "SSARef_deref (prmt_ref 1) = [\<lparr>ssa_packed = 1\<rparr>]" "SSARef_deref (prmt_ref 2) = [\<lparr>ssa_packed = 2\<rparr>]"
  "SSARef_deref (prmt_ref 3) = [\<lparr>ssa_packed = 3\<rparr>]" "SSARef_deref (prmt_ref 4) = [\<lparr>ssa_packed = 4\<rparr>]"
  "SSARef_comps (prmt_ref 1) = 1" "SSARef_comps (prmt_ref 2) = 1" "SSARef_comps (prmt_ref 3) = 1" "SSARef_comps (prmt_ref 4) = 1"
  by code_simp+

text \<open>The pass sees through both permutations and through the constant.\<close>

lemma prmt_demo_result:
  "map_option (\<lambda>f. map in_op (fn_instrs f)) (opt_prmt prmt_demo) = Some (map in_op
     [prmt_demo_op 2 (src_of_ref (SrSSA (prmt_ref 1))) (src_of_ref SrZero) 0x0123,
      prmt_demo_op 3 (src_of_ref (SrSSA (prmt_ref 1))) (src_of_ref SrZero) 0x3210,
      prmt_demo_op 4 (src_of_ref (SrSSA (prmt_ref 1))) (src_of_ref (Imm32 0xff)) 0x4B10])"
  by code_simp

lemma prmt_demo_wf: "prmt_wf (\<lambda>v. unat (ssa_packed v)) prmt_demo"
  unfolding prmt_wf_def
  by (simp add: prmt_demo_def fn_instrs_def prmt_demo_op_def instr_new_def cfg_default_def prmt_wf_instr_def prmt_view_def
      prmt_dst_ok_def prmt_defs_def prmt_fit_def prmt_get_sel_def as_u32_def prmt_ref_simps prmt_srcs_ok_def prmt_src_def
      bounded_ref_def ref_ok_def ref_rank_def less_2_cases_iff)

theorem opt_prmt_keeps_values_witness:
  "\<exists>f'. opt_prmt prmt_demo = Some f' \<and> list_all2 prmt_frame (fn_instrs prmt_demo) (fn_instrs f') \<and>
    prmt_eqs (\<lambda>_. 0) (\<lambda>_. 0) (fn_instrs f') = prmt_eqs (\<lambda>_. 0) (\<lambda>_. 0) (fn_instrs prmt_demo)"
  using opt_prmt_keeps_values [OF prmt_demo_wf] by blast

end
