(* ===== verification/Sched.thy ===== *)
theory Sched
  imports Ir
begin

text \<open>
  The instruction scheduler after register allocation (\<^verbatim>\<open>codegen/opt_instr_sched_common.rs\<close>,
  \<^verbatim>\<open>codegen/opt_instr_sched_postpass.rs\<close> and the \<^verbatim>\<open>RegTracker\<close> of \<^verbatim>\<open>codegen/reg_tracker.rs\<close>): the
  dependency graph of a block, its statistics, the two ready lists and the list scheduler, and the driver
  over the blocks of a function.  The latencies a shader model reports are the methods of
  \<^verbatim>\<open>&dyn ShaderModel\<close>, gathered in a record of functions.
\<close>

subsection \<open>Dependency graphs\<close>

text \<open>A \<^verbatim>\<open>u32\<close> cycle count is a natural number; its addition panics on overflow.\<close>

definition fits_u32 :: "nat \<Rightarrow> bool" where "fits_u32 n \<longleftrightarrow> n < 2 ^ 32"

lemma fits_u32_code [code]: "fits_u32 n \<longleftrightarrow> int n < 4294967296"
  by (simp add: fits_u32_def)

definition cycles_add :: "nat \<Rightarrow> nat \<Rightarrow> nat option" where
  "cycles_add a b = assert_then (fits_u32 (a + b)) (Some (a + b))"

record DepEdge =
  de_latency :: nat
  de_head :: nat

record NodeLabel =
  cycles_to_end :: nat
  use_count :: nat
  ready_cycle :: nat
  exec_latency :: nat

record DepNode =
  dn_label :: NodeLabel
  dn_edges :: "DepEdge list"

type_synonym DepGraph = "DepNode list"

definition label_default :: NodeLabel where
  "label_default = \<lparr>cycles_to_end = 0, use_count = 0, ready_cycle = 0, exec_latency = 0\<rparr>"

definition dg_new :: "nat \<Rightarrow> DepGraph" where
  "dg_new n = replicate n \<lparr>dn_label = label_default, dn_edges = []\<rparr>"

definition dg_add_edge :: "nat \<Rightarrow> nat \<Rightarrow> nat \<Rightarrow> DepGraph \<Rightarrow> DepGraph option" where
  "dg_add_edge tail head latency g =
     assert_then (head < length g)
       (do { n \<leftarrow> index g tail;
             Some (g[tail := n\<lparr>dn_edges := dn_edges n @ [\<lparr>de_latency = latency, de_head = head\<rparr>]\<rparr>]) })"

definition dg_reverse :: "DepGraph \<Rightarrow> DepGraph option" where
  "dg_reverse g =
     foldM (\<lambda>(tail, es) g. foldM (\<lambda>e g. dg_add_edge (de_head e) tail (de_latency e) g) es g)
       (List.enumerate 0 (map dn_edges g)) (map (\<lambda>n. n\<lparr>dn_edges := []\<rparr>) g)"

definition dg_map_label :: "nat \<Rightarrow> (NodeLabel \<Rightarrow> NodeLabel) \<Rightarrow> DepGraph \<Rightarrow> DepGraph option" where
  "dg_map_label i f g = do { n \<leftarrow> index g i; Some (g[i := n\<lparr>dn_label := f (dn_label n)\<rparr>]) }"

subsection \<open>Side effects\<close>

datatype SideEffect = SeNone | SeMemory | SeBarrier

fun opcode_side_effect :: "Opcode \<Rightarrow> SideEffect" where
  "opcode_side_effect (Matrix m) = (if m = Ldsm then SeMemory else SeNone)"
| "opcode_side_effect (Texture _) = SeMemory" | "opcode_side_effect (Surface _) = SeMemory"
| "opcode_side_effect (MemOp m) = (if m \<in> {Ipa, Ldc} then SeNone else SeMemory)"
| "opcode_side_effect (Ld _) = SeMemory" | "opcode_side_effect (St _) = SeMemory" | "opcode_side_effect (Atom _) = SeMemory"
| "opcode_side_effect (Control _) = SeBarrier"
| "opcode_side_effect (BMov _) = SeMemory"
| "opcode_side_effect OutOp = SeBarrier" | "opcode_side_effect OutFinal = SeBarrier"
| "opcode_side_effect (Misc m) =
     (case m of PixLd \<Rightarrow> SeNone | Vote \<Rightarrow> SeNone | Match \<Rightarrow> SeNone
      | Nop labelled \<Rightarrow> if labelled then SeBarrier else SeNone | _ \<Rightarrow> SeBarrier)"
| "opcode_side_effect (Virtual v) = (if v \<in> {Annotate, SwapOp, Undef} then SeNone else SeBarrier)"
| "opcode_side_effect _ = SeNone"

fun side_effect_type :: "Op \<Rightarrow> SideEffect" where
  "side_effect_type (OtherOp c _ _) = opcode_side_effect c"
| "side_effect_type (Lop3 _) = SeNone" | "side_effect_type (PLop3 _) = SeNone"
| "side_effect_type (ParCopyOp _) = SeNone" | "side_effect_type (CopyOp _ _) = SeNone"
| "side_effect_type _ = SeBarrier"

subsection \<open>Latencies\<close>

text \<open>
  What the scheduler asks of \<^verbatim>\<open>&dyn ShaderModel\<close>.  The answers are those of an operation the shader model supports:
  some of its implementations abort the compiler on an operation that does not exist on the hardware, and
  such an operation is outside the model.
\<close>

record SchedModel =
  sc_sm :: nat
  op_needs_scoreboard :: "Op \<Rightarrow> bool"
  exec_latency_of :: "Op \<Rightarrow> nat"
  raw_latency :: "Op \<Rightarrow> nat \<Rightarrow> Op \<Rightarrow> nat \<Rightarrow> nat"
  war_latency :: "Op \<Rightarrow> nat \<Rightarrow> Op \<Rightarrow> nat \<Rightarrow> nat"
  waw_latency :: "Op \<Rightarrow> nat \<Rightarrow> bool \<Rightarrow> Op \<Rightarrow> nat \<Rightarrow> nat"
  paw_latency :: "Op \<Rightarrow> nat \<Rightarrow> nat"
  worst_latency :: "Op \<Rightarrow> nat \<Rightarrow> nat"

fun opcode_variable_latency :: "nat \<Rightarrow> Opcode \<Rightarrow> nat option" where
  "opcode_variable_latency sm Rro = Some 15" | "opcode_variable_latency sm (Transcendental _) = Some 15"
| "opcode_variable_latency sm (DoubleAlu op) = Some (if op \<in> {DFma, DSetP} then 54 else 48)"
| "opcode_variable_latency sm (F64Pseudo _) = Some 200"
| "opcode_variable_latency sm (IntAlu op) =
     (if op \<in> {BRev, Flo, PopC} then Some 15 else if op \<in> {IMad, IMul} then assert_then (sm < 70) (Some 86) else None)"
| "opcode_variable_latency sm (F2F _ _) = Some 15" | "opcode_variable_latency sm (F2I _ _) = Some 15"
| "opcode_variable_latency sm (I2F _ _) = Some 15" | "opcode_variable_latency sm I2I = Some 15"
| "opcode_variable_latency sm (FRnd _ _) = Some 15"
| "opcode_variable_latency sm (MoveOp op) = (if op = Shfl then Some 15 else None)"
| "opcode_variable_latency sm Redux = Some 15" | "opcode_variable_latency sm R2UR = Some 15"
| "opcode_variable_latency sm (Texture _) = Some 32" | "opcode_variable_latency sm (Surface _) = Some 32"
| "opcode_variable_latency sm (MemOp op) = Some (if op = Ldc then 4 else 32)"
| "opcode_variable_latency sm (Ld _) = Some 32" | "opcode_variable_latency sm (St _) = Some 32"
| "opcode_variable_latency sm (Atom _) = Some 32"
| "opcode_variable_latency sm (Matrix op) = Some (if op \<in> {Hmma, Imma} then 22 else 32)"
| "opcode_variable_latency sm (Control op) = (if op = WarpSync then Some 16 else None)"
| "opcode_variable_latency sm (BMov _) = Some 16"
| "opcode_variable_latency sm OutOp = Some 2" | "opcode_variable_latency sm OutFinal = Some 2"
| "opcode_variable_latency sm (Misc op) =
     (if op \<in> {BarOp, TexDepBar, CS2R, Isberd, ViLd, Kill, PixLd, S2R, Match} then Some 16 else None)"
| "opcode_variable_latency sm _ = None"

definition estimate_variable_latency :: "'a SchedModel_scheme \<Rightarrow> Op \<Rightarrow> nat option" where
  "estimate_variable_latency sm op =
     (if \<not> op_needs_scoreboard sm op then Some 0
      else case op of OtherOp c _ _ \<Rightarrow> opcode_variable_latency (sc_sm sm) c | _ \<Rightarrow> None)"

subsection \<open>Tracking registers\<close>

text \<open>
  \<^verbatim>\<open>RegTracker\<close> is a function from register cells; indexing it with a register reference gives the cells
  of the reference, none for barriers, and panics on memory and out of the arrays' bounds.
\<close>

type_synonym RegCell = "RegFile \<times> nat"

fun tracker_size :: "RegFile \<Rightarrow> nat" where
  "tracker_size GPR = 255" | "tracker_size UGPR = 80" | "tracker_size Pred = 7" | "tracker_size UPred = 7"
| "tracker_size Carry = 1" | "tracker_size Bar = 0" | "tracker_size Mem = 0"

definition reg_cells :: "RegRef \<Rightarrow> RegCell list option" where
  "reg_cells reg =
     do {
       f \<leftarrow> RegRef_file reg;
       let (first, end') = RegRef_idx_range reg;
       if f = Bar then Some []
       else if f = Mem then None
       else assert_then (unat end' \<le> tracker_size f) (Some (map (Pair f) [unat first..<unat end']))
     }"

text \<open>The cells \<^verbatim>\<open>for_each_instr_{pred,src,dst}_mut\<close> visit, with the operand index.\<close>

definition operand_cells :: "RegRef option list \<Rightarrow> (nat \<times> RegCell) list option" where
  "operand_cells rs =
     map_option concat (mapM (\<lambda>(i, r). case r of None \<Rightarrow> Some [] | Some reg \<Rightarrow> map_option (map (Pair i)) (reg_cells reg))
       (List.enumerate 0 rs))"

definition pred_cells :: "Instr \<Rightarrow> RegCell list option" where
  "pred_cells i = (case predicate (in_pred i) of PrReg reg \<Rightarrow> reg_cells reg | _ \<Rightarrow> Some [])"

definition src_cells :: "Instr \<Rightarrow> (nat \<times> RegCell) list option" where
  "src_cells i = operand_cells (map (\<lambda>s. sr_get_reg (reference s)) (op_srcs (in_op i)))"

definition dst_cells :: "Instr \<Rightarrow> (nat \<times> RegCell) list option" where
  "dst_cells i = operand_cells (map (\<lambda>d. case d of DstReg r \<Rightarrow> Some r | _ \<Rightarrow> None) (op_dsts (in_op i)))"

subsection \<open>The dependency graph\<close>

text \<open>
  A use is the instruction and the operand's index; the source marks a guard predicate with the index
  \<^verbatim>\<open>usize::MAX\<close>, here \<^const>\<open>None\<close>.
\<close>

record RegUse =
  ru_reads :: "(nat \<times> nat option) list"
  ru_write :: "(nat \<times> nat) option"

definition ru_new :: RegUse where "ru_new = \<lparr>ru_reads = [], ru_write = None\<rparr>"

definition add_read :: "nat \<times> nat option \<Rightarrow> RegUse \<Rightarrow> RegUse" where
  "add_read dep u = u\<lparr>ru_reads := ru_reads u @ [dep]\<rparr>"

definition set_write :: "nat \<times> nat \<Rightarrow> RegUse \<Rightarrow> RegUse" where
  "set_write dep u = u\<lparr>ru_write := Some dep, ru_reads := []\<rparr>"

record DepState =
  ds_graph :: DepGraph
  ds_uses :: "RegCell \<Rightarrow> RegUse"
  ds_memory :: "nat option"
  ds_barrier :: "nat option"

text \<open>The serialisation edges of a memory operation or barrier.\<close>

definition dep_side_effect :: "Instr list \<Rightarrow> nat \<Rightarrow> DepState \<Rightarrow> DepState option" where
  "dep_side_effect instrs ip s =
     (case side_effect_type (in_op (instrs ! ip)) of
        SeNone \<Rightarrow> Some s
      | SeBarrier \<Rightarrow> do {
          g \<leftarrow> foldM (\<lambda>other g. dg_add_edge ip other 0 g)
                 [ip + 1..<case ds_barrier s of None \<Rightarrow> length instrs | Some b \<Rightarrow> b] (ds_graph s);
          Some (s\<lparr>ds_graph := g, ds_barrier := Some ip\<rparr>)
        }
      | SeMemory \<Rightarrow> do {
          g \<leftarrow> (case ds_memory s of None \<Rightarrow> Some (ds_graph s) | Some m \<Rightarrow> dg_add_edge ip m 0 (ds_graph s));
          Some (s\<lparr>ds_graph := g, ds_memory := Some ip\<rparr>)
        })"

text \<open>``Barriers take two cycles to become active''.\<close>

definition sb_latency :: "'a SchedModel_scheme \<Rightarrow> Op \<Rightarrow> nat \<Rightarrow> nat" where
  "sb_latency sm op l = (if op_needs_scoreboard sm op then max l 2 else l)"

text \<open>The edges of the \<^verbatim>\<open>i\<close>-th destination to the uses of one of its cells.\<close>

definition dep_dst_edges ::
  "'a SchedModel_scheme \<Rightarrow> Instr list \<Rightarrow> nat \<Rightarrow> nat \<Rightarrow> RegUse \<Rightarrow> DepGraph \<Rightarrow> DepGraph option" where
  "dep_dst_edges sm instrs ip i u g =
     (let instr = instrs ! ip; op = in_op instr in do {
        g \<leftarrow> (case ru_write u of
               None \<Rightarrow> Some g
             | Some (w_ip, w_dst_idx) \<Rightarrow>
                 dg_add_edge ip w_ip
                   (sb_latency sm op (waw_latency sm op i (predicate (in_pred instr) \<noteq> PrNone) (in_op (instrs ! w_ip)) w_dst_idx)) g);
        foldM (\<lambda>(r_ip, r_src_idx) g. do {
            est \<leftarrow> estimate_variable_latency sm op;
            dg_add_edge ip r_ip
              (max (case r_src_idx of None \<Rightarrow> paw_latency sm op i | Some src \<Rightarrow> raw_latency sm op i (in_op (instrs ! r_ip)) src)
                 est) g })
          (ru_reads u) g })"

text \<open>The edge of the \<^verbatim>\<open>i\<close>-th source to the next write of one of its cells.\<close>

definition dep_src_edges ::
  "'a SchedModel_scheme \<Rightarrow> Instr list \<Rightarrow> nat \<Rightarrow> nat \<Rightarrow> RegUse \<Rightarrow> DepGraph \<Rightarrow> DepGraph option" where
  "dep_src_edges sm instrs ip i u g =
     (let op = in_op (instrs ! ip) in
      case ru_write u of
        None \<Rightarrow> Some g
      | Some (w_ip, w_dst_idx) \<Rightarrow>
          dg_add_edge ip w_ip (sb_latency sm op (war_latency sm op i (in_op (instrs ! w_ip)) w_dst_idx)) g)"

definition track :: "RegCell \<Rightarrow> (RegUse \<Rightarrow> RegUse) \<Rightarrow> (RegCell \<Rightarrow> RegUse) \<Rightarrow> RegCell \<Rightarrow> RegUse" where
  "track x f uses = uses(x := f (uses x))"

text \<open>The uses of an instruction, its writes first as the walk is in reverse.\<close>

definition dep_track ::
  "nat \<Rightarrow> (nat \<times> RegCell) list \<Rightarrow> RegCell list \<Rightarrow> (nat \<times> RegCell) list \<Rightarrow> (RegCell \<Rightarrow> RegUse) \<Rightarrow> RegCell \<Rightarrow> RegUse" where
  "dep_track ip dsts preds srcs uses =
     fold (\<lambda>(i, x). track x (add_read (ip, Some i))) srcs
       (fold (\<lambda>x. track x (add_read (ip, None))) preds
         (fold (\<lambda>(i, x). track x (set_write (ip, i))) dsts uses))"

definition dep_label :: "'a SchedModel_scheme \<Rightarrow> Instr list \<Rightarrow> nat \<Rightarrow> NodeLabel \<Rightarrow> NodeLabel option" where
  "dep_label sm instrs ip l =
     (let op = in_op (instrs ! ip) in do {
        est \<leftarrow> estimate_variable_latency sm op;
        var_latency \<leftarrow> cycles_add est (exec_latency_of sm (in_op (last instrs)));
        Some (l\<lparr>exec_latency := exec_latency_of sm op,
                ready_cycle := max (fold max (map (worst_latency sm op) [0..<length (op_dsts op)]) 0) var_latency\<rparr>) })"

definition dep_step :: "'a SchedModel_scheme \<Rightarrow> Instr list \<Rightarrow> nat \<Rightarrow> DepState \<Rightarrow> DepState option" where
  "dep_step sm instrs ip s =
     (let instr = instrs ! ip in do {
        g \<leftarrow> (case ds_barrier s of None \<Rightarrow> Some (ds_graph s) | Some b \<Rightarrow> dg_add_edge ip b 0 (ds_graph s));
        s \<leftarrow> dep_side_effect instrs ip (s\<lparr>ds_graph := g\<rparr>);
        dsts \<leftarrow> dst_cells instr;
        g \<leftarrow> foldM (\<lambda>(i, x). dep_dst_edges sm instrs ip i (ds_uses s x)) dsts (ds_graph s);
        srcs \<leftarrow> src_cells instr;
        g \<leftarrow> foldM (\<lambda>(i, x). dep_src_edges sm instrs ip i (ds_uses s x)) srcs g;
        preds \<leftarrow> pred_cells instr;
        node \<leftarrow> index g ip;
        label \<leftarrow> dep_label sm instrs ip (dn_label node);
        Some (s\<lparr>ds_graph := g[ip := node\<lparr>dn_label := label\<rparr>], ds_uses := dep_track ip dsts preds srcs (ds_uses s)\<rparr>) })"

definition generate_dep_graph :: "'a SchedModel_scheme \<Rightarrow> Instr list \<Rightarrow> DepGraph option" where
  "generate_dep_graph sm instrs =
     map_option ds_graph
       (foldM (dep_step sm instrs) (rev [0..<length instrs])
         \<lparr>ds_graph = dg_new (length instrs), ds_uses = \<lambda>_. ru_new, ds_memory = None, ds_barrier = None\<rparr>)"

subsection \<open>Statistics\<close>

definition max_delay :: "nat \<Rightarrow> DepGraph \<Rightarrow> nat option" where
  "max_delay i g = do {
     node \<leftarrow> index g i;
     foldM (\<lambda>e m. assert_then (i < de_head e) (do {
         h \<leftarrow> index g (de_head e);
         d \<leftarrow> cycles_add (cycles_to_end (dn_label h)) (de_latency e);
         Some (max m d) })) (dn_edges node) 0 }"

definition calc_statistics_step :: "nat \<Rightarrow> DepGraph \<times> nat list \<Rightarrow> (DepGraph \<times> nat list) option" where
  "calc_statistics_step i = (\<lambda>(g, initial_ready_list). do {
     d \<leftarrow> max_delay i g;
     node \<leftarrow> index g i;
     let uses = length (dn_edges node);
     assert_then (fits_u32 uses) (do {
       g \<leftarrow> dg_map_label i (\<lambda>l. l\<lparr>cycles_to_end := d, use_count := uses\<rparr>) g;
       Some (g, if uses = 0 then initial_ready_list @ [i] else initial_ready_list) }) })"

definition calc_statistics :: "DepGraph \<Rightarrow> (DepGraph \<times> nat list) option" where
  "calc_statistics g = foldM calc_statistics_step (rev [0..<length g]) (g, [])"

subsection \<open>Ready lists\<close>

text \<open>\<^verbatim>\<open>ReadyInstr\<close> and \<^verbatim>\<open>FutureReadyInstr\<close>, with the lexicographic order the source derives; \<^verbatim>\<open>Reverse\<close> turns the first key of the latter around.\<close>

datatype ReadyInstr = ReadyInstr (ri_cycles_to_end: nat) (ri_index: nat)
datatype FutureReadyInstr = FutureReadyInstr (fri_ready_cycle: nat) (fri_index: nat)

instantiation ReadyInstr :: linorder
begin

definition less_eq_ReadyInstr :: "ReadyInstr \<Rightarrow> ReadyInstr \<Rightarrow> bool" where
  "less_eq_ReadyInstr a b \<longleftrightarrow>
     ri_cycles_to_end a < ri_cycles_to_end b \<or> ri_cycles_to_end a = ri_cycles_to_end b \<and> ri_index a \<le> ri_index b"

definition less_ReadyInstr :: "ReadyInstr \<Rightarrow> ReadyInstr \<Rightarrow> bool" where
  "less_ReadyInstr a b \<longleftrightarrow>
     ri_cycles_to_end a < ri_cycles_to_end b \<or> ri_cycles_to_end a = ri_cycles_to_end b \<and> ri_index a < ri_index b"

instance
  by standard (auto simp: less_eq_ReadyInstr_def less_ReadyInstr_def ReadyInstr.expand)

end

instantiation FutureReadyInstr :: linorder
begin

definition less_eq_FutureReadyInstr :: "FutureReadyInstr \<Rightarrow> FutureReadyInstr \<Rightarrow> bool" where
  "less_eq_FutureReadyInstr a b \<longleftrightarrow>
     fri_ready_cycle b < fri_ready_cycle a \<or> fri_ready_cycle a = fri_ready_cycle b \<and> fri_index a \<le> fri_index b"

definition less_FutureReadyInstr :: "FutureReadyInstr \<Rightarrow> FutureReadyInstr \<Rightarrow> bool" where
  "less_FutureReadyInstr a b \<longleftrightarrow>
     fri_ready_cycle b < fri_ready_cycle a \<or> fri_ready_cycle a = fri_ready_cycle b \<and> fri_index a < fri_index b"

instance
  by standard (auto simp: less_eq_FutureReadyInstr_def less_FutureReadyInstr_def FutureReadyInstr.expand)

end

text \<open>\<^verbatim>\<open>BinaryHeap\<close>: a bag whose greatest element is on top.\<close>

type_synonym 'a BinaryHeap = "'a list"

definition bh_push :: "'a \<Rightarrow> 'a BinaryHeap \<Rightarrow> 'a BinaryHeap" where "bh_push x h = x # h"

definition bh_peek :: "'a::linorder BinaryHeap \<Rightarrow> 'a option" where
  "bh_peek h = (if h = [] then None else Some (Max (set h)))"

definition bh_pop :: "'a::linorder BinaryHeap \<Rightarrow> ('a \<times> 'a BinaryHeap) option" where
  "bh_pop h = map_option (\<lambda>x. (x, remove1 x h)) (bh_peek h)"

definition ready_instr_new :: "DepGraph \<Rightarrow> nat \<Rightarrow> ReadyInstr option" where
  "ready_instr_new g i = do {
     node \<leftarrow> index g i;
     c \<leftarrow> cycles_add (cycles_to_end (dn_label node)) (exec_latency (dn_label node));
     Some (ReadyInstr c i) }"

text \<open>\<^verbatim>\<open>saturating_sub\<close> is the subtraction of natural numbers.\<close>

definition future_ready_instr_new :: "DepGraph \<Rightarrow> nat \<Rightarrow> FutureReadyInstr option" where
  "future_ready_instr_new g i =
     map_option (\<lambda>node. FutureReadyInstr (ready_cycle (dn_label node) - exec_latency (dn_label node)) i) (index g i)"

subsection \<open>List scheduling\<close>

record OrderState =
  os_graph :: DepGraph
  os_ready :: "ReadyInstr BinaryHeap"
  os_future :: "FutureReadyInstr BinaryHeap"
  os_cycle :: nat
  os_order :: "nat list"

text \<open>The inner \<^verbatim>\<open>while\<close> loop: what is ready by now leaves the future list.\<close>

partial_function (option) move_ready :: "OrderState \<Rightarrow> OrderState option" where
  "move_ready s =
     (case bh_pop (os_future s) of
        None \<Rightarrow> Some s
      | Some (fri, future) \<Rightarrow>
          if os_cycle s < fri_ready_cycle fri then Some s
          else do {
            r \<leftarrow> ready_instr_new (os_graph s) (fri_index fri);
            move_ready (s\<lparr>os_ready := bh_push r (os_ready s), os_future := future\<rparr>)
          })"

text \<open>An edge of a scheduled instruction: its head is ready later, and after its last use it is a candidate.\<close>

definition release_step ::
  "nat \<Rightarrow> DepEdge \<Rightarrow> DepGraph \<times> FutureReadyInstr BinaryHeap \<Rightarrow> (DepGraph \<times> FutureReadyInstr BinaryHeap) option" where
  "release_step cycle e = (\<lambda>(g, future). do {
     node \<leftarrow> index g (de_head e);
     c \<leftarrow> cycles_add cycle (de_latency e);
     let l = dn_label node;
     assert_then (0 < use_count l) (do {
       let l' = l\<lparr>ready_cycle := max (ready_cycle l) c, use_count := use_count l - 1\<rparr>;
       let g' = g[de_head e := node\<lparr>dn_label := l'\<rparr>];
       if use_count l' = 0
         then do { fri \<leftarrow> future_ready_instr_new g' (de_head e); Some (g', bh_push fri future) }
         else Some (g', future) }) })"

definition schedule_step :: "nat \<Rightarrow> OrderState \<Rightarrow> OrderState option" where
  "schedule_step next_idx s = do {
     node \<leftarrow> index (os_graph s) next_idx;
     cycle \<leftarrow> cycles_add (os_cycle s) (exec_latency (dn_label node));
     (g, future) \<leftarrow> foldM (release_step cycle) (dn_edges node)
       ((os_graph s)[next_idx := node\<lparr>dn_edges := []\<rparr>], os_future s);
     Some (s\<lparr>os_graph := g, os_future := future, os_cycle := cycle, os_order := os_order s @ [next_idx]\<rparr>) }"

partial_function (option) order_loop :: "OrderState \<Rightarrow> OrderState option" where
  "order_loop s = do {
     s \<leftarrow> move_ready s;
     case bh_pop (os_ready s) of
       None \<Rightarrow>
         (case bh_peek (os_future s) of
            None \<Rightarrow> Some s
          | Some fri \<Rightarrow>
              if os_cycle s < fri_ready_cycle fri then order_loop (s\<lparr>os_cycle := fri_ready_cycle fri\<rparr>) else None)
     | Some (r, ready) \<Rightarrow> do {
         s \<leftarrow> schedule_step (ri_index r) (s\<lparr>os_ready := ready\<rparr>);
         order_loop s
       } }"

definition generate_order :: "DepGraph \<Rightarrow> nat list \<Rightarrow> (nat list \<times> nat) option" where
  "generate_order g init_ready_list = do {
     future \<leftarrow> mapM (future_ready_instr_new g) init_ready_list;
     s \<leftarrow> order_loop \<lparr>os_graph = g, os_ready = [], os_future = future, os_cycle = 0, os_order = []\<rparr>;
     Some (os_order s, os_cycle s) }"

text \<open>``Instruction scheduled twice'' is the panic of \<^verbatim>\<open>sched_buffer\<close>.\<close>

definition take_instr :: "nat \<Rightarrow> Instr option list \<Rightarrow> (Instr \<times> Instr option list) option" where
  "take_instr i instrs = do { e \<leftarrow> index instrs i; instr \<leftarrow> e; Some (instr, instrs[i := None]) }"

definition sched_buffer :: "'a SchedModel_scheme \<Rightarrow> Instr list \<Rightarrow> (Instr list \<times> nat) option" where
  "sched_buffer sm instrs = do {
     g \<leftarrow> generate_dep_graph sm instrs;
     (g, init_ready_list) \<leftarrow> calc_statistics g;
     g \<leftarrow> dg_reverse g;
     (new_order, cycle_count) \<leftarrow> generate_order g init_ready_list;
     (instrs, _) \<leftarrow> traverseM take_instr (rev new_order) (map Some instrs);
     Some (instrs, cycle_count) }"

text \<open>
  The driver.  \<^verbatim>\<open>estimate_block_weight\<close> works in floating point on the depth of the block's loops; it is the
  parameter \<^term>\<open>weight\<close>.  Its query of the depth also fills the graph's cache of the dominator analysis, which
  no step of this pass reads but that query and which does not depend on the instructions; the cache is left
  out of the result.
\<close>

definition sched_block ::
  "'a SchedModel_scheme \<Rightarrow> (BasicBlock CFG \<Rightarrow> nat \<Rightarrow> nat option) \<Rightarrow> nat \<Rightarrow> BasicBlock CFG \<times> nat \<Rightarrow> (BasicBlock CFG \<times> nat) option" where
  "sched_block sm weight i = (\<lambda>(cfg, static_cycle_count). do {
     block \<leftarrow> index (cfg_blocks cfg) i;
     (instrs, cycle_count) \<leftarrow> sched_buffer sm (bb_instrs block);
     assert_then (length instrs = length (bb_instrs block)) (do {
       let cfg = cfg\<lparr>cfg_blocks := (cfg_blocks cfg)[i := block\<lparr>bb_instrs := instrs\<rparr>]\<rparr>;
       w \<leftarrow> weight cfg i;
       assert_then (cycle_count * w + static_cycle_count < 2 ^ 64)
         (Some (cfg, cycle_count * w + static_cycle_count)) }) })"

definition opt_instr_sched_postpass ::
  "'a SchedModel_scheme \<Rightarrow> (BasicBlock CFG \<Rightarrow> nat \<Rightarrow> nat option) \<Rightarrow> Function \<Rightarrow> (Function \<times> nat) option" where
  "opt_instr_sched_postpass sm weight f =
     map_option (\<lambda>(cfg, n). (f\<lparr>fn_blocks := cfg\<rparr>, n))
       (foldM (sched_block sm weight) [0..<length (cfg_blocks (fn_blocks f))] (fn_blocks f, 0))"

text \<open>Over the functions of a shader, with the sum of their cycle counts.\<close>

definition sched_shader ::
  "'a SchedModel_scheme \<Rightarrow> (BasicBlock CFG \<Rightarrow> nat \<Rightarrow> nat option) \<Rightarrow> Function list \<Rightarrow> (Function list \<times> nat) option" where
  "sched_shader sm weight fs =
     traverseM (\<lambda>f n. do { (f, c) \<leftarrow> opt_instr_sched_postpass sm weight f; assert_then (n + c < 2 ^ 64) (Some (f, n + c)) }) fs 0"

declare move_ready.simps [code] order_loop.simps [code]

end
