(* ===== verification/SchedOrder.thy ===== *)
theory SchedOrder
  imports Sched "HOL-Library.Multiset"
begin

text \<open>
  What the list scheduler returns: every node of the graph once, and each node behind the nodes it waits for.
  The heap is used through the interface of a priority queue.
\<close>

subsection \<open>The heap as a priority queue\<close>

locale max_queue =
  fixes push :: "'a::linorder \<Rightarrow> 'q \<Rightarrow> 'q" and peek :: "'q \<Rightarrow> 'a option" and pop :: "'q \<Rightarrow> ('a \<times> 'q) option"
    and bag :: "'q \<Rightarrow> 'a multiset"
  assumes bag_push: "bag (push x q) = add_mset x (bag q)"
    and peek_None: "peek q = None \<longleftrightarrow> bag q = {#}"
    and peek_Some: "peek q = Some x \<Longrightarrow> x \<in># bag q \<and> (\<forall>y \<in># bag q. y \<le> x)"
    and pop_None: "pop q = None \<longleftrightarrow> peek q = None"
    and pop_Some: "pop q = Some (x, q') \<Longrightarrow> peek q = Some x \<and> bag q = add_mset x (bag q')"
begin

lemma pop_greatest: "pop q = Some (x, q') \<Longrightarrow> y \<in># bag q' \<Longrightarrow> y \<le> x"
  using peek_Some pop_Some by fastforce

lemma pop_empty: "pop q = None \<Longrightarrow> bag q = {#}"
  by (simp add: pop_None peek_None)

lemma pop_image: "pop q = Some (x, q') \<Longrightarrow> image_mset f (bag q) = add_mset (f x) (image_mset f (bag q'))"
  using pop_Some by fastforce

lemma push_image: "image_mset f (bag (push x q)) = add_mset (f x) (image_mset f (bag q))"
  by (simp add: bag_push)

lemma pop_size: "pop q = Some (x, q') \<Longrightarrow> size (bag q') < size (bag q)"
  using pop_Some by fastforce

end

interpretation bh: max_queue bh_push bh_peek bh_pop mset
proof unfold_locales
  fix q q' :: "'a list" and x
  show "bh_peek q = Some x \<Longrightarrow> x \<in># mset q \<and> (\<forall>y \<in># mset q. y \<le> x)"
    by (auto simp: bh_peek_def split: if_splits)
  show "bh_pop q = Some (x, q') \<Longrightarrow> bh_peek q = Some x \<and> mset q = add_mset x (mset q')"
    by (auto simp: bh_peek_def bh_pop_def split: if_splits)
qed (auto simp: bh_peek_def bh_pop_def bh_push_def)

subsection \<open>What the scheduler keeps\<close>

text \<open>The heads of the edges of each node, and the number of edges into a node.\<close>

definition heads :: "DepGraph \<Rightarrow> nat list list" where
  "heads g = map (\<lambda>n. map de_head (dn_edges n)) g"

definition in_count :: "nat list list \<Rightarrow> nat \<Rightarrow> nat" where
  "in_count E t = sum_list (map (\<lambda>hs. count_list hs t) E)"

definition uses_left :: "DepGraph \<Rightarrow> nat \<Rightarrow> nat" where "uses_left g t = use_count (dn_label (g ! t))"

definition queued :: "OrderState \<Rightarrow> nat multiset" where
  "queued s = image_mset ri_index (mset (os_ready s)) + image_mset fri_index (mset (os_future s))"

text \<open>The nodes that wait for no other, and are not scheduled.\<close>

definition candidates :: "nat \<Rightarrow> (nat \<Rightarrow> nat) \<Rightarrow> nat list \<Rightarrow> nat set" where
  "candidates n uses order = {t. t < n \<and> t \<notin> set order \<and> uses t = 0}"

text \<open>\<^term>\<open>a\<close> stands before \<^term>\<open>b\<close>.\<close>

definition list_before :: "'a list \<Rightarrow> 'a \<Rightarrow> 'a \<Rightarrow> bool" where
  "list_before xs a b \<longleftrightarrow> (\<exists>us vs ws. xs = us @ a # vs @ b # ws)"

definition order_inv :: "nat list list \<Rightarrow> OrderState \<Rightarrow> bool" where
  "order_inv E s \<longleftrightarrow>
     length (os_graph s) = length E \<and>
     distinct (os_order s) \<and> set (os_order s) \<subseteq> {..<length E} \<and>
     heads (os_graph s) = map (\<lambda>i. if i \<in> set (os_order s) then [] else E ! i) [0..<length E] \<and>
     (\<forall>t<length E. uses_left (os_graph s) t = in_count (heads (os_graph s)) t) \<and>
     (\<forall>t\<in>set (os_order s). uses_left (os_graph s) t = 0) \<and>
     queued s = mset_set (candidates (length E) (uses_left (os_graph s)) (os_order s)) \<and>
     (\<forall>t\<in>set (os_order s). \<forall>h<length E. t \<in> set (E ! h) \<longrightarrow> list_before (os_order s) h t)"

lemma list_before_snoc: "list_before xs a b \<Longrightarrow> list_before (xs @ ys) a b"
  by (fastforce simp: list_before_def)

lemma list_before_last: "a \<in> set xs \<Longrightarrow> list_before (xs @ [b]) a b"
  by (fastforce simp: list_before_def dest: split_list)

lemma list_before_rev: "list_before (rev xs) a b \<longleftrightarrow> list_before xs b a"
proof -
  have "list_before xs a b \<Longrightarrow> list_before (rev xs) b a" for xs :: "'a list" and a b
    unfolding list_before_def by (metis append_assoc append_Cons append_Nil rev.simps(2) rev_append)
  from this [of xs b a] this [of "rev xs" a b] show ?thesis by auto
qed

lemma in_count_zero: "in_count E t = 0 \<longleftrightarrow> (\<forall>hs\<in>set E. t \<notin> set hs)"
  by (auto simp: in_count_def count_list_0_iff sum_list_eq_0_iff)

lemma in_count_take:
  assumes "i < length E"
  shows "in_count (E[i := []]) t + count_list (E ! i) t = in_count E t"
proof -
  have "E = take i E @ E ! i # drop (Suc i) E" using assms by (rule id_take_nth_drop)
  then have "in_count E t = in_count (take i E) t + count_list (E ! i) t + in_count (drop (Suc i) E) t"
    by (metis (no_types, lifting) in_count_def map_append sum_list_append list.simps(9) sum_list.Cons add.assoc)
  moreover have "in_count (E[i := []]) t = in_count (take i E) t + in_count (drop (Suc i) E) t"
    using assms by (simp add: upd_conv_take_nth_drop in_count_def)
  ultimately show ?thesis by simp
qed

lemma heads_label [simp]: "heads (g[i := (g ! i)\<lparr>dn_label := l\<rparr>]) = heads g"
  by (cases "i < length g") (simp_all add: heads_def map_update list_update_same_conv list_update_beyond not_less)

lemma heads_take: "heads (g[i := n\<lparr>dn_edges := []\<rparr>]) = (heads g)[i := []]"
  by (simp add: heads_def map_update)

lemma length_heads [simp]: "length (heads g) = length g"
  by (simp add: heads_def)

lemma heads_nth: "i < length g \<Longrightarrow> heads g ! i = map de_head (dn_edges (g ! i))"
  by (simp add: heads_def)

lemma uses_left_take: "uses_left (g[i := (g ! i)\<lparr>dn_edges := es\<rparr>]) t = uses_left g t"
  by (cases "i < length g") (auto simp: uses_left_def nth_list_update list_update_beyond not_less)

subsection \<open>Moving and releasing\<close>

lemma move_ready_spec:
  assumes "move_ready s = Some s'"
  shows "os_graph s' = os_graph s \<and> os_cycle s' = os_cycle s \<and> os_order s' = os_order s \<and> queued s' = queued s \<and>
    (\<forall>fri. bh_peek (os_future s') = Some fri \<longrightarrow> os_cycle s < fri_ready_cycle fri)"
proof (rule move_ready.raw_induct [rotated, OF assms, where P = "\<lambda>s s'. os_graph s' = os_graph s \<and> os_cycle s' = os_cycle s \<and>
      os_order s' = os_order s \<and> queued s' = queued s \<and>
      (\<forall>fri. bh_peek (os_future s') = Some fri \<longrightarrow> os_cycle s < fri_ready_cycle fri)"], goal_cases)
  case (1 rec s s')
  show ?case
  proof (cases "bh_pop (os_future s)")
    case None
    then have "bh_peek (os_future s) = None" by (simp add: bh.pop_None)
    with 1(2) None show ?thesis by auto
  next
    case (Some p)
    obtain fri future where p: "p = (fri, future)" by (cases p)
    have pk: "bh_peek (os_future s) = Some fri" using bh.pop_Some Some p by blast
    show ?thesis
    proof (cases "os_cycle s < fri_ready_cycle fri")
      case True
      with 1(2) Some p pk show ?thesis by auto
    next
      case False
      obtain r where r: "ready_instr_new (os_graph s) (fri_index fri) = Some r"
        and rec: "rec (s\<lparr>os_ready := bh_push r (os_ready s), os_future := future\<rparr>) = Some s'"
        using 1(2) Some p False by (auto split: Option.bind_splits)
      have ri: "ri_index r = fri_index fri" using r by (auto simp: ready_instr_new_def split: Option.bind_splits)
      have "queued (s\<lparr>os_ready := bh_push r (os_ready s), os_future := future\<rparr>) = queued s"
        using bh.pop_image [of "os_future s" fri future fri_index] Some p ri
        by (simp add: queued_def bh.push_image)
      with 1(1) [OF rec] show ?thesis by simp
    qed
  qed
qed

lemma release_step_spec:
  assumes "release_step c e (g, fut) = Some (g1, fut1)"
  shows "de_head e < length g \<and> 0 < uses_left g (de_head e) \<and> length g1 = length g \<and> heads g1 = heads g \<and>
    (\<forall>x. uses_left g1 x = (if x = de_head e then uses_left g (de_head e) - 1 else uses_left g x)) \<and>
    image_mset fri_index (mset fut1) =
      (if uses_left g (de_head e) = 1 then add_mset (de_head e) (image_mset fri_index (mset fut)) else image_mset fri_index (mset fut))"
proof -
  let ?t = "de_head e"
  let ?l = "dn_label (g ! ?t)"
  let ?g1 = "g[?t := (g ! ?t)\<lparr>dn_label := ?l\<lparr>ready_cycle := max (ready_cycle ?l) (c + de_latency e), use_count := use_count ?l - 1\<rparr>\<rparr>]"
  have t: "?t < length g"
    using assms by (cases "?t < length g") (simp_all add: release_step_def)
  have "0 < use_count ?l \<and> (if use_count ?l - 1 = 0
      then \<exists>fri. future_ready_instr_new ?g1 ?t = Some fri \<and> g1 = ?g1 \<and> fut1 = bh_push fri fut
      else g1 = ?g1 \<and> fut1 = fut)"
    using assms t by (auto simp: release_step_def panic_simps Let_def cycles_add_def split: if_splits Option.bind_splits)
  then show ?thesis
    using t by (auto simp: uses_left_def bh.push_image future_ready_instr_new_def nth_list_update split: if_splits)
qed

lemma release_spec:
  assumes "foldM (release_step c) es (g, fut) = Some (g', fut')"
    and "\<forall>t<length g. uses_left g t = base t + count_list (map de_head es) t"
    and "\<forall>t\<in>set order. uses_left g t = 0"
    and "rq + image_mset fri_index (mset fut) = mset_set (candidates (length g) (uses_left g) order)"
  shows "length g' = length g \<and> heads g' = heads g \<and> (\<forall>t<length g. uses_left g' t = base t) \<and>
    (\<forall>t\<in>set order. uses_left g' t = 0) \<and>
    rq + image_mset fri_index (mset fut') = mset_set (candidates (length g) (uses_left g') order)"
  using assms
proof (induction es arbitrary: g fut)
  case Nil
  then show ?case by simp
next
  case (Cons e es)
  let ?t = "de_head e" and ?n = "g ! de_head e"
  obtain g1 fut1 where st: "release_step c e (g, fut) = Some (g1, fut1)" and rest: "foldM (release_step c) es (g1, fut1) = Some (g', fut')"
    using Cons.prems(1) by (auto split: option.splits)
  note S = release_step_spec [OF st]
  have t: "?t < length g" and pos: "0 < uses_left g ?t" and len: "length g1 = length g" and h: "heads g1 = heads g"
    and u1: "\<And>x. uses_left g1 x = (if x = ?t then uses_left g ?t - 1 else uses_left g x)"
    and fut1: "image_mset fri_index (mset fut1) =
      (if uses_left g ?t = 1 then add_mset ?t (image_mset fri_index (mset fut)) else image_mset fri_index (mset fut))"
    using S by auto
  have no: "?t \<notin> set order" using Cons.prems(3) pos by auto
  have cand: "candidates (length g) (uses_left g1) order =
      (if uses_left g ?t = 1 then insert ?t (candidates (length g) (uses_left g) order) else candidates (length g) (uses_left g) order)"
    using t pos no by (auto simp: candidates_def u1 split: if_splits)
  have "?t \<notin> candidates (length g) (uses_left g) order" "finite (candidates (length g) (uses_left g) order)"
    using pos by (auto simp: candidates_def)
  then have q: "rq + image_mset fri_index (mset fut1) = mset_set (candidates (length g) (uses_left g1) order)"
    using fut1 Cons.prems(4) cand by auto
  have b: "\<forall>x<length g1. uses_left g1 x = base x + count_list (map de_head es) x"
    using Cons.prems(2) t pos unfolding len u1 by (auto split: if_splits)
  have o: "\<forall>x\<in>set order. uses_left g1 x = 0" using Cons.prems(3) by (simp add: u1)
  have "length g' = length g1 \<and> heads g' = heads g1 \<and> (\<forall>t<length g1. uses_left g' t = base t) \<and>
    (\<forall>t\<in>set order. uses_left g' t = 0) \<and>
    rq + image_mset fri_index (mset fut') = mset_set (candidates (length g1) (uses_left g') order)"
    by (rule Cons.IH [OF rest b o]) (simp only: len q)
  then show ?case using len h by simp
qed

subsection \<open>The scheduling loop\<close>

lemma schedule_step_inv:
  assumes inv: "order_inv E s" and pop: "bh_pop (os_ready s) = Some (r, ready)"
    and st: "schedule_step (ri_index r) (s\<lparr>os_ready := ready\<rparr>) = Some s'"
  shows "order_inv E s'"
proof -
  let ?i = "ri_index r" and ?n = "length E" and ?g = "os_graph s" and ?o = "os_order s"
  note I = inv [unfolded order_inv_def]
  have q: "queued s = add_mset ?i (queued (s\<lparr>os_ready := ready\<rparr>))"
    using bh.pop_image [OF pop, of ri_index] by (simp add: queued_def)
  have "?i \<in># queued s" by (simp add: q)
  moreover have "finite (candidates ?n (uses_left ?g) ?o)" by (simp add: candidates_def)
  ultimately have c: "?i \<in> candidates ?n (uses_left ?g) ?o" using I by simp
  then have i: "?i < ?n" "?i \<notin> set ?o" "uses_left ?g ?i = 0" "?i < length ?g" using I by (auto simp: candidates_def)
  define g1 where "g1 = ?g[?i := (?g ! ?i)\<lparr>dn_edges := []\<rparr>]"
  obtain cycle g' fut' where rel: "foldM (release_step cycle) (dn_edges (?g ! ?i)) (g1, os_future s) = Some (g', fut')"
    and s': "s' = s\<lparr>os_ready := ready, os_graph := g', os_future := fut', os_cycle := cycle, os_order := ?o @ [?i]\<rparr>"
    using st i(4) by (auto simp: schedule_step_def panic_simps g1_def split: Option.bind_splits)
  have h1: "heads g1 = (heads ?g)[?i := []]" by (simp add: g1_def heads_take)
  have l1: "length g1 = ?n" using I by (simp add: g1_def)
  have u1: "uses_left g1 t = uses_left ?g t" for t by (simp add: g1_def uses_left_take)
  have e: "map de_head (dn_edges (?g ! ?i)) = heads ?g ! ?i" using i by (simp add: heads_nth)
  have "\<forall>t<length g1. uses_left g1 t = in_count (heads g1) t + count_list (map de_head (dn_edges (?g ! ?i))) t"
    using I i in_count_take [of ?i "heads ?g"] by (simp add: l1 u1 h1 e)
  moreover have "\<forall>t\<in>set (?o @ [?i]). uses_left g1 t = 0" using I i by (auto simp: u1)
  moreover have "image_mset ri_index (mset ready) + image_mset fri_index (mset (os_future s)) =
      mset_set (candidates (length g1) (uses_left g1) (?o @ [?i]))"
  proof -
    have "candidates ?n (uses_left ?g) ?o = insert ?i (candidates ?n (uses_left g1) (?o @ [?i]))"
      using c by (auto simp: candidates_def u1)
    moreover have "?i \<notin> candidates ?n (uses_left g1) (?o @ [?i])" "finite (candidates ?n (uses_left g1) (?o @ [?i]))"
      by (auto simp: candidates_def)
    ultimately have "queued s = add_mset ?i (mset_set (candidates ?n (uses_left g1) (?o @ [?i])))" using I by simp
    then show ?thesis using q l1 by (simp add: queued_def)
  qed
  ultimately have R: "length g' = length g1 \<and> heads g' = heads g1 \<and> (\<forall>t<length g1. uses_left g' t = in_count (heads g1) t) \<and>
    (\<forall>t\<in>set (?o @ [?i]). uses_left g' t = 0) \<and>
    image_mset ri_index (mset ready) + image_mset fri_index (mset fut') = mset_set (candidates (length g1) (uses_left g') (?o @ [?i]))"
    by (rule release_spec [OF rel])
  have "heads g1 = map (\<lambda>j. if j \<in> set (?o @ [?i]) then [] else E ! j) [0..<?n]"
    using I i(1) unfolding h1 by (intro nth_equalityI) (auto simp: nth_list_update)
  moreover have "list_before (?o @ [?i]) h t" if t: "t \<in> set (?o @ [?i])" "h < ?n" "t \<in> set (E ! h)" for t h
  proof (cases "t \<in> set ?o")
    case True
    then show ?thesis using I t by (intro list_before_snoc) blast
  next
    case False
    then have "t = ?i" using t by simp
    have "in_count (heads ?g) ?i = 0" using I i by simp
    moreover have "heads ?g ! h \<in> set (heads ?g)" using I t by simp
    ultimately have "?i \<notin> set (heads ?g ! h)" by (simp add: in_count_zero)
    then have "h \<in> set ?o" using I t \<open>t = ?i\<close> by (auto split: if_splits)
    then show ?thesis using \<open>t = ?i\<close> by (simp add: list_before_last)
  qed
  ultimately show ?thesis
    using R I i unfolding order_inv_def s' by (simp add: queued_def l1)
qed

lemma order_loop_inv:
  assumes "order_loop s = Some s'" and "order_inv E s"
  shows "order_inv E s' \<and> queued s' = {#}"
proof -
  have "order_inv E s \<longrightarrow> order_inv E s' \<and> queued s' = {#}"
  proof (rule order_loop.raw_induct [rotated, OF assms(1), where P = "\<lambda>s s'. order_inv E s \<longrightarrow> order_inv E s' \<and> queued s' = {#}"], goal_cases)
    case (1 rec s s')
    show ?case
    proof
      assume inv: "order_inv E s"
      obtain s1 where m: "move_ready s = Some s1" using 1(2) by (auto split: Option.bind_splits)
      have inv1: "order_inv E s1" using move_ready_spec [OF m] inv by (simp add: order_inv_def)
      show "order_inv E s' \<and> queued s' = {#}"
      proof (cases "bh_pop (os_ready s1)")
        case None
        show ?thesis
        proof (cases "bh_peek (os_future s1)")
          case f: None
          then have "queued s1 = {#}" using bh.pop_empty [OF None] bh.peek_None [of "os_future s1"] by (simp add: queued_def)
          then show ?thesis using 1(2) m None f inv1 by simp
        next
          case (Some fri)
          then have r: "rec (s1\<lparr>os_cycle := fri_ready_cycle fri\<rparr>) = Some s'"
            using 1(2) m None by (auto split: if_splits)
          have "order_inv E (s1\<lparr>os_cycle := fri_ready_cycle fri\<rparr>)" using inv1 by (simp add: order_inv_def queued_def)
          then show ?thesis using 1(1) [OF r] by simp
        qed
      next
        case (Some p)
        obtain r ready where p: "p = (r, ready)" by (cases p)
        obtain s2 where st: "schedule_step (ri_index r) (s1\<lparr>os_ready := ready\<rparr>) = Some s2" and r: "rec s2 = Some s'"
          using 1(2) m Some p by (auto split: Option.bind_splits)
        have "order_inv E s2" by (rule schedule_step_inv [OF inv1 _ st]) (simp add: Some p)
        then show ?thesis using 1(1) [OF r] by simp
      qed
    qed
  qed
  with assms(2) show ?thesis by simp
qed

text \<open>With no candidate left everything is scheduled, as every edge goes to a smaller index.\<close>

lemma order_complete:
  assumes inv: "order_inv E s" and "queued s = {#}" and down: "\<forall>h<length E. \<forall>t\<in>set (E ! h). t < h"
  shows "set (os_order s) = {..<length E}"
proof (rule ccontr)
  let ?n = "length E" and ?g = "os_graph s" and ?o = "os_order s"
  note I = inv [unfolded order_inv_def]
  let ?U = "{..<?n} - set ?o"
  assume "set ?o \<noteq> {..<?n}"
  then have ne: "?U \<noteq> {}" using I by auto
  define t where "t = Max ?U"
  have t: "t < ?n" "t \<notin> set ?o" using Max_in [of ?U] ne by (auto simp: t_def)
  have "in_count (heads ?g) t = 0"
    unfolding in_count_zero
  proof
    fix hs assume "hs \<in> set (heads ?g)"
    then obtain h where h: "h < ?n" "hs = (if h \<in> set ?o then [] else E ! h)" using I by auto
    show "t \<notin> set hs"
    proof
      assume "t \<in> set hs"
      then have "h \<in> ?U" "t < h" using h down by (auto split: if_splits)
      moreover have "finite ?U" by simp
      ultimately show False unfolding t_def by (metis Max_ge leD)
    qed
  qed
  then have "t \<in> candidates ?n (uses_left ?g) ?o" using I t by (simp add: candidates_def)
  moreover have "mset_set (candidates ?n (uses_left ?g) ?o) = {#}" using I assms(2) by simp
  moreover have "finite (candidates ?n (uses_left ?g) ?o)" by (simp add: candidates_def)
  ultimately show False by (simp add: mset_set_empty_iff)
qed

lemma mapM_future:
  assumes "mapM (future_ready_instr_new g) xs = Some fs"
  shows "map fri_index fs = xs"
  using assms by (induction xs arbitrary: fs) (auto simp: future_ready_instr_new_def split: Option.bind_splits)

abbreviation order_start :: "DepGraph \<Rightarrow> FutureReadyInstr BinaryHeap \<Rightarrow> OrderState" where
  "order_start g future \<equiv> \<lparr>os_graph = g, os_ready = [], os_future = future, os_cycle = 0, os_order = []\<rparr>"

lemma order_start_inv:
  assumes f: "mapM (future_ready_instr_new g) init = Some future"
    and uses: "\<forall>t<length g. uses_left g t = in_count (heads g) t"
    and init: "distinct init" "set init = {t. t < length g \<and> uses_left g t = 0}"
  shows "order_inv (heads g) (order_start g future)"
proof -
  have "queued (order_start g future) = mset_set (set init)"
    using mapM_future [OF f] init(1) by (simp add: queued_def mset_set_set flip: mset_map)
  moreover have "map (\<lambda>i. if i \<in> set [] then [] else heads g ! i) [0..<length (heads g)] = heads g"
    by (simp add: map_nth del: length_heads)
  ultimately show ?thesis using uses init by (simp add: order_inv_def candidates_def)
qed

lemma generate_order_spec:
  assumes go: "generate_order g init = Some (order, cycles)"
    and uses: "\<forall>t<length g. uses_left g t = in_count (heads g) t"
    and init: "distinct init" "set init = {t. t < length g \<and> uses_left g t = 0}"
    and down: "\<forall>h<length g. \<forall>t\<in>set (heads g ! h). t < h"
  shows "distinct order \<and> set order = {..<length g} \<and>
    (\<forall>h<length g. \<forall>t\<in>set (heads g ! h). list_before order h t)"
proof -
  obtain future s where f: "mapM (future_ready_instr_new g) init = Some future"
    and l: "order_loop (order_start g future) = Some s" and o: "order = os_order s"
    using go by (auto simp: generate_order_def split: Option.bind_splits)
  from order_loop_inv [OF l order_start_inv [OF f uses init]]
  have inv: "order_inv (heads g) s" and q: "queued s = {#}" by auto
  have full: "set order = {..<length g}"
    using order_complete [OF inv q] down o by simp
  show ?thesis
    using inv full down unfolding order_inv_def o
    by (metis length_heads lessThan_iff order.strict_trans)
qed

subsection \<open>Statistics and reversal\<close>

lemma calc_step_spec:
  assumes "calc_statistics_step i (g, xs) = Some (g', xs')"
  shows "i < length g \<and> length g' = length g \<and> heads g' = heads g \<and> set (heads g ! i) \<subseteq> {i<..<length g} \<and>
    (\<forall>j. uses_left g' j = (if j = i then length (heads g ! i) else uses_left g j)) \<and>
    xs' = (if heads g ! i = [] then xs @ [i] else xs)"
proof -
  obtain d where d: "max_delay i g = Some d" and i: "i < length g"
    and g': "g' = g[i := (g ! i)\<lparr>dn_label := (dn_label (g ! i))\<lparr>cycles_to_end := d, use_count := length (dn_edges (g ! i))\<rparr>\<rparr>]"
    and xs': "xs' = (if length (dn_edges (g ! i)) = 0 then xs @ [i] else xs)"
    using assms by (auto simp: calc_statistics_step_def dg_map_label_def panic_simps Let_def split: Option.bind_splits)
  have del: "\<forall>e\<in>set es. i < de_head e \<and> de_head e < length g"
    if "foldM (\<lambda>e m. assert_then (i < de_head e) (do { h \<leftarrow> index g (de_head e);
         d \<leftarrow> cycles_add (cycles_to_end (dn_label h)) (de_latency e); Some (max m d) })) es m = Some d'" for es m d'
    using that
  proof (induction es arbitrary: m)
    case (Cons e es)
    obtain m1 where "i < de_head e" "de_head e < length g" and r: "foldM (\<lambda>e m. assert_then (i < de_head e) (do { h \<leftarrow> index g (de_head e);
         d \<leftarrow> cycles_add (cycles_to_end (dn_label h)) (de_latency e); Some (max m d) })) es m1 = Some d'"
      using Cons.prems by (auto simp: panic_simps split: option.splits Option.bind_splits)
    then show ?case using Cons.IH [OF r] by simp
  qed simp
  have "\<forall>e\<in>set (dn_edges (g ! i)). i < de_head e \<and> de_head e < length g"
    by (rule del [of "dn_edges (g ! i)" 0 d]) (use d i in \<open>unfold max_delay_def, simp\<close>)
  then show ?thesis using i by (auto simp: g' xs' heads_nth uses_left_def nth_list_update)
qed

lemma calc_statistics_spec:
  assumes "calc_statistics g = Some (g', init)"
  shows "length g' = length g \<and> heads g' = heads g \<and> (\<forall>i<length g. uses_left g' i = length (heads g ! i)) \<and>
    (\<forall>i<length g. set (heads g ! i) \<subseteq> {i<..<length g}) \<and>
    distinct init \<and> set init = {i. i < length g \<and> heads g ! i = []}"
proof -
  have aux: "n \<le> length g \<Longrightarrow> foldM calc_statistics_step (rev [0..<n]) (g0, xs) = Some (g1, ys) \<Longrightarrow>
      length g0 = length g \<Longrightarrow> heads g0 = heads g \<Longrightarrow> distinct xs \<Longrightarrow> set xs \<inter> {..<n} = {} \<Longrightarrow>
      length g1 = length g \<and> heads g1 = heads g \<and> (\<forall>i<n. uses_left g1 i = length (heads g ! i)) \<and>
      (\<forall>i\<ge>n. uses_left g1 i = uses_left g0 i) \<and>
      (\<forall>i<n. set (heads g ! i) \<subseteq> {i<..<length g}) \<and>
      distinct ys \<and> set ys = set xs \<union> {i. i < n \<and> heads g ! i = []}" for n g0 xs g1 ys
  proof (induction n arbitrary: g0 xs)
    case (Suc n)
    obtain g2 zs where st: "calc_statistics_step n (g0, xs) = Some (g2, zs)"
      and r: "foldM calc_statistics_step (rev [0..<n]) (g2, zs) = Some (g1, ys)"
      using Suc.prems(2) by (auto split: option.splits)
    note S = calc_step_spec [OF st]
    have "distinct zs" "set zs \<inter> {..<n} = {}" "length g2 = length g" "heads g2 = heads g"
      using S Suc.prems by auto
    with Suc.IH [OF _ r] Suc.prems(1)
    have R: "length g1 = length g \<and> heads g1 = heads g \<and> (\<forall>i<n. uses_left g1 i = length (heads g ! i)) \<and>
      (\<forall>i\<ge>n. uses_left g1 i = uses_left g2 i) \<and>
      (\<forall>i<n. set (heads g ! i) \<subseteq> {i<..<length g}) \<and>
      distinct ys \<and> set ys = set zs \<union> {i. i < n \<and> heads g ! i = []}" by simp
    then show ?case using S Suc.prems(3,4) by (auto simp: less_Suc_eq)
  qed simp
  show ?thesis using aux [OF le_refl assms [unfolded calc_statistics_def] refl refl] by simp
qed

lemma dg_add_edge_spec:
  assumes "dg_add_edge t h l g = Some g'"
  shows "t < length g \<and> h < length g \<and> heads g' = (heads g)[t := heads g ! t @ [h]] \<and> map dn_label g' = map dn_label g"
  using assms
  by (auto simp: dg_add_edge_def panic_simps heads_nth heads_def map_update list_update_same_conv split: Option.bind_splits)

lemma reverse_edges:
  assumes "foldM (\<lambda>e g. dg_add_edge (de_head e) tail (de_latency e) g) es g = Some g'"
  shows "map dn_label g' = map dn_label g \<and> length g' = length g \<and>
    (\<forall>h<length g. \<forall>t. count_list (heads g' ! h) t =
       count_list (heads g ! h) t + (if t = tail then count_list (map de_head es) h else 0))"
  using assms
proof (induction es arbitrary: g)
  case (Cons e es)
  then obtain g1 where a: "dg_add_edge (de_head e) tail (de_latency e) g = Some g1"
    and r: "foldM (\<lambda>e g. dg_add_edge (de_head e) tail (de_latency e) g) es g1 = Some g'" by (auto split: option.splits)
  note A = dg_add_edge_spec [OF a]
  have "length g1 = length g" using A by (metis length_map)
  with A Cons.IH [OF r] show ?case by (auto simp: nth_list_update)
qed simp

lemma reverse_all:
  assumes "foldM (\<lambda>(tail, es) g. foldM (\<lambda>e g. dg_add_edge (de_head e) tail (de_latency e) g) es g) (List.enumerate k xs) g = Some g'"
  shows "map dn_label g' = map dn_label g \<and> length g' = length g \<and>
    (\<forall>h<length g. \<forall>t. count_list (heads g' ! h) t = count_list (heads g ! h) t +
       (if k \<le> t \<and> t < k + length xs then count_list (map de_head (xs ! (t - k))) h else 0))"
  using assms
proof (induction xs arbitrary: k g)
  case (Cons es xs)
  then obtain g1 where a: "foldM (\<lambda>e g. dg_add_edge (de_head e) k (de_latency e) g) es g = Some g1"
    and r: "foldM (\<lambda>(tail, es) g. foldM (\<lambda>e g. dg_add_edge (de_head e) tail (de_latency e) g) es g) (List.enumerate (Suc k) xs) g1 = Some g'"
    by (auto split: option.splits)
  have "(if k \<le> t \<and> t < k + length (es # xs) then count_list (map de_head ((es # xs) ! (t - k))) h else 0) =
      (if t = k then count_list (map de_head es) h else 0) +
      (if Suc k \<le> t \<and> t < Suc k + length xs then count_list (map de_head (xs ! (t - Suc k))) h else 0)" for t h
    by (auto simp: nth_Cons' Suc_diff_le)
  then show ?case using reverse_edges [OF a] Cons.IH [OF r] by simp
qed simp

lemma dg_reverse_spec:
  assumes "dg_reverse g = Some g'" and up: "\<forall>i<length g. \<forall>h\<in>set (heads g ! i). h < length g"
  shows "length g' = length g \<and> (\<forall>i. i < length g \<longrightarrow> uses_left g' i = uses_left g i) \<and>
    (\<forall>h<length g. set (heads g' ! h) = {t. t < length g \<and> h \<in> set (heads g ! t)}) \<and>
    (\<forall>t<length g. in_count (heads g') t = length (heads g ! t))"
proof -
  let ?g0 = "map (\<lambda>n. n\<lparr>dn_edges := []\<rparr>) g"
  have h0: "heads ?g0 = map (\<lambda>_. []) g" by (simp add: heads_def)
  from reverse_all [OF assms(1) [unfolded dg_reverse_def]]
  have lab: "map dn_label g' = map dn_label g" and len: "length g' = length g"
    and c: "\<And>h t. h < length g \<Longrightarrow> count_list (heads g' ! h) t = (if t < length g then count_list (heads g ! t) h else 0)"
    by (auto simp: h0 heads_nth comp_def)
  have "uses_left g' i = uses_left g i" if "i < length g" for i
    using that lab len by (metis nth_map uses_left_def)
  moreover have "set (heads g' ! h) = {t. t < length g \<and> h \<in> set (heads g ! t)}" if "h < length g" for h
    using c [OF that] by (auto simp: count_list_0_iff [symmetric] split: if_splits) (metis count_list_0_iff)+
  moreover have "in_count (heads g') t = length (heads g ! t)" if "t < length g" for t
  proof -
    have "map (\<lambda>hs. count_list hs t) (heads g') = map (\<lambda>h. count_list (heads g' ! h) t) [0..<length g]"
      using len by (intro nth_equalityI) auto
    then have "in_count (heads g') t = (\<Sum>h\<leftarrow>[0..<length g]. count_list (heads g' ! h) t)"
      unfolding in_count_def by (rule arg_cong)
    also have "\<dots> = (\<Sum>h\<leftarrow>[0..<length g]. count_list (heads g ! t) h)"
      using c that by (intro arg_cong [where f = sum_list] map_cong) auto
    also have "\<dots> = (\<Sum>h\<in>{..<length g}. count_list (heads g ! t) h)"
      by (simp add: sum_list_distinct_conv_sum_set atLeast_upt)
    also have "\<dots> = length (heads g ! t)" using up that by (intro sum_count_set) auto
    finally show ?thesis .
  qed
  ultimately show ?thesis using len by blast
qed

subsection \<open>The order of a block\<close>

text \<open>Applying the order moves each instruction once.\<close>

lemma take_instrs:
  assumes "traverseM take_instr is (map Some xs) = Some (ys, rest)" and "distinct is"
  shows "ys = map ((!) xs) is \<and> set is \<subseteq> {..<length xs}"
proof -
  have "traverseM take_instr is os = Some (ys, rest) \<Longrightarrow> distinct is \<Longrightarrow> \<forall>i\<in>set is. i < length os \<longrightarrow> os ! i = Some (xs ! i) \<Longrightarrow>
      length os = length xs \<Longrightarrow> ys = map ((!) xs) is \<and> set is \<subseteq> {..<length xs}" for os
  proof (induction "is" arbitrary: os ys)
    case (Cons i "is")
    obtain y os1 zs where t: "take_instr i os = Some (y, os1)" and r: "traverseM take_instr is os1 = Some (zs, rest)" and ys: "ys = y # zs"
      using Cons.prems(1) by (auto split: Option.bind_splits)
    have "i < length os" and y: "os ! i = Some y" and os1: "os1 = os[i := None]"
      using t by (auto simp: take_instr_def panic_simps split: Option.bind_splits)
    moreover have "y = xs ! i" using calculation Cons.prems(3) by simp
    moreover have "\<forall>j\<in>set is. j < length os1 \<longrightarrow> os1 ! j = Some (xs ! j)"
      using Cons.prems(2,3) unfolding os1 by (metis distinct.simps(2) length_list_update list.set_intros(2) nth_list_update_neq)
    ultimately have "zs = map ((!) xs) is \<and> set is \<subseteq> {..<length xs}"
      using Cons.IH [OF r] Cons.prems(2,4) by simp
    with \<open>i < length os\<close> \<open>y = xs ! i\<close> ys Cons.prems(4) show ?case by simp
  qed simp
  from this [OF assms] show ?thesis using assms by auto
qed

text \<open>The statistics of a graph and its reversal, as the loop wants them.\<close>

lemma reversed_graph:
  assumes st: "calc_statistics g = Some (g1, init)" and rv: "dg_reverse g1 = Some g2"
  shows "length g2 = length g" and "\<forall>t<length g2. uses_left g2 t = in_count (heads g2) t" and "distinct init"
    and "set init = {t. t < length g2 \<and> uses_left g2 t = 0}" and "\<forall>h<length g2. \<forall>t\<in>set (heads g2 ! h). t < h"
    and "\<And>i j. i < length g \<Longrightarrow> j \<in> set (heads g ! i) \<Longrightarrow> j < length g2 \<and> i \<in> set (heads g2 ! j)"
proof -
  note S = calc_statistics_spec [OF st]
  have h1: "heads g1 = heads g" and l1: "length g1 = length g" using S by auto
  have up: "\<And>i h. i < length g \<Longrightarrow> h \<in> set (heads g ! i) \<Longrightarrow> i < h" "\<And>i h. i < length g \<Longrightarrow> h \<in> set (heads g ! i) \<Longrightarrow> h < length g"
    using S by (metis greaterThanLessThan_iff subsetD)+
  have u1: "\<And>i. i < length g \<Longrightarrow> uses_left g1 i = length (heads g ! i)" and init: "distinct init" "set init = {i. i < length g \<and> heads g ! i = []}"
    using S by blast+
  have R: "length g2 = length g1 \<and> (\<forall>i. i < length g1 \<longrightarrow> uses_left g2 i = uses_left g1 i) \<and>
    (\<forall>h<length g1. set (heads g2 ! h) = {t. t < length g1 \<and> h \<in> set (heads g1 ! t)}) \<and>
    (\<forall>t<length g1. in_count (heads g2) t = length (heads g1 ! t))"
    by (rule dg_reverse_spec [OF rv]) (unfold h1 l1, use up in blast)
  show "length g2 = length g" using R l1 by simp
  show "\<forall>t<length g2. uses_left g2 t = in_count (heads g2) t" using R u1 by (simp add: h1 l1)
  show "distinct init" by (rule init(1))
  show "set init = {t. t < length g2 \<and> uses_left g2 t = 0}" using R u1 by (auto simp: l1 init)
  show "\<forall>h<length g2. \<forall>t\<in>set (heads g2 ! h). t < h" using R up unfolding h1 l1 by (metis (no_types, lifting) mem_Collect_eq)
  show "j < length g2 \<and> i \<in> set (heads g2 ! j)" if "i < length g" "j \<in> set (heads g ! i)" for i j
    using that R up unfolding h1 l1 by (metis (no_types, lifting) mem_Collect_eq)
qed

lemma sched_buffer_order:
  assumes "sched_buffer sm instrs = Some (instrs', cycles)"
  shows "\<exists>g order. generate_dep_graph sm instrs = Some g \<and> instrs' = map ((!) instrs) order \<and>
    (length g = length instrs \<longrightarrow> distinct order \<and> set order = {..<length instrs} \<and>
      (\<forall>i<length instrs. \<forall>j\<in>set (heads g ! i). list_before order i j))"
proof -
  obtain g g1 init g2 new_order rest where g: "generate_dep_graph sm instrs = Some g"
    and st: "calc_statistics g = Some (g1, init)" and rv: "dg_reverse g1 = Some g2"
    and go: "generate_order g2 init = Some (new_order, cycles)"
    and tk: "traverseM take_instr (rev new_order) (map Some instrs) = Some (instrs', rest)"
    using assms by (auto simp: sched_buffer_def split: Option.bind_splits)
  note R = reversed_graph [OF st rv]
  have O: "distinct new_order \<and> set new_order = {..<length g2} \<and>
    (\<forall>h<length g2. \<forall>t\<in>set (heads g2 ! h). list_before new_order h t)"
    by (rule generate_order_spec [OF go R(2-5)])
  have "instrs' = map ((!) instrs) (rev new_order)" using take_instrs [OF tk] O by auto
  moreover have "list_before (rev new_order) i j" if "length g = length instrs" "i < length instrs" "j \<in> set (heads g ! i)" for i j
    using that O R(6) unfolding list_before_rev by metis
  ultimately show ?thesis using g O R(1) by (intro exI [of _ g] exI [of _ "rev new_order"]) auto
qed

end
