(* ===== verification/SchedDeps.thy ===== *)
theory SchedDeps
  imports SchedOrder
begin

text \<open>
  The dependency graph orders every two instructions whose order the scheduler tracks, so that a schedule
  keeps their order.
\<close>

subsection \<open>What must stay in order\<close>

text \<open>The cells an instruction writes, reads with its sources and reads as its guard.\<close>

definition written :: "Instr \<Rightarrow> RegCell set" where
  "written i = (case dst_cells i of None \<Rightarrow> {} | Some ds \<Rightarrow> snd ` set ds)"

definition sourced :: "Instr \<Rightarrow> RegCell set" where
  "sourced i = (case src_cells i of None \<Rightarrow> {} | Some ss \<Rightarrow> snd ` set ss)"

definition guarded :: "Instr \<Rightarrow> RegCell set" where
  "guarded i = (case pred_cells i of None \<Rightarrow> {} | Some ps \<Rightarrow> set ps)"

definition effect_of :: "Instr \<Rightarrow> SideEffect" where "effect_of i = side_effect_type (in_op i)"

text \<open>
  The order of two instructions matters for the scheduler.  A later write of the guard of \<^term>\<open>a\<close> is not
  among the reasons.
\<close>

definition tracked :: "Instr \<Rightarrow> Instr \<Rightarrow> bool" where
  "tracked a b \<longleftrightarrow>
     effect_of a = SeBarrier \<or> effect_of b = SeBarrier \<or> effect_of a = SeMemory \<and> effect_of b = SeMemory \<or>
     written a \<inter> (sourced b \<union> guarded b \<union> written b) \<noteq> {} \<or> sourced a \<inter> written b \<noteq> {}"

subsection \<open>Edges\<close>

definition edge_rel :: "DepGraph \<Rightarrow> (nat \<times> nat) set" where
  "edge_rel g = {(i, j). i < length g \<and> j \<in> set (heads g ! i)}"

definition adds_edges :: "nat \<Rightarrow> nat set \<Rightarrow> DepGraph \<Rightarrow> DepGraph \<Rightarrow> bool" where
  "adds_edges t H g g' \<longleftrightarrow> length g' = length g \<and> edge_rel g' = edge_rel g \<union> {t} \<times> H"

lemma adds_edges_refl: "adds_edges t {} g g"
  by (simp add: adds_edges_def)

lemma adds_edges_trans: "adds_edges t H g g1 \<Longrightarrow> adds_edges t K g1 g2 \<Longrightarrow> adds_edges t (H \<union> K) g g2"
  by (auto simp: adds_edges_def)

lemma add_edge_adds: "dg_add_edge t h l g = Some g' \<Longrightarrow> adds_edges t {h} g g'"
  using dg_add_edge_spec [of t h l g g'] unfolding adds_edges_def edge_rel_def
  by (auto simp: nth_list_update split: if_splits dest: arg_cong [of _ _ length])

lemma foldM_adds:
  assumes "\<And>x g g'. x \<in> set xs \<Longrightarrow> f x g = Some g' \<Longrightarrow> adds_edges t (H x) g g'" and "foldM f xs g = Some g'"
  shows "adds_edges t (\<Union>x\<in>set xs. H x) g g'"
  using assms
proof (induction xs arbitrary: g)
  case (Cons x xs)
  obtain g1 where f: "f x g = Some g1" and r: "foldM f xs g1 = Some g'" using Cons.prems(2) by (auto split: option.splits)
  have "adds_edges t (\<Union>x\<in>set xs. H x) g1 g'" using Cons.IH [OF _ r] Cons.prems(1) by simp
  with adds_edges_trans [OF Cons.prems(1) [OF _ f]] show ?case by simp
qed (simp add: adds_edges_refl)

definition write_ip :: "RegUse \<Rightarrow> nat option" where "write_ip u = map_option fst (ru_write u)"
definition read_ips :: "RegUse \<Rightarrow> nat set" where "read_ips u = fst ` set (ru_reads u)"

lemma dst_edges_adds:
  "dep_dst_edges sm instrs ip i u g = Some g' \<Longrightarrow> adds_edges ip (set_option (write_ip u) \<union> read_ips u) g g'"
proof -
  assume a: "dep_dst_edges sm instrs ip i u g = Some g'"
  let ?F = "\<lambda>(r_ip, r_src_idx) g. do {
            est \<leftarrow> estimate_variable_latency sm (in_op (instrs ! ip));
            dg_add_edge ip r_ip
              (max (case r_src_idx of None \<Rightarrow> paw_latency sm (in_op (instrs ! ip)) i
                    | Some src \<Rightarrow> raw_latency sm (in_op (instrs ! ip)) i (in_op (instrs ! r_ip)) src) est) g }"
  let ?w = "case ru_write u of None \<Rightarrow> Some g
     | Some (w_ip, w_dst_idx) \<Rightarrow>
         dg_add_edge ip w_ip
           (sb_latency sm (in_op (instrs ! ip)) (waw_latency sm (in_op (instrs ! ip)) i (predicate (in_pred (instrs ! ip)) \<noteq> PrNone)
             (in_op (instrs ! w_ip)) w_dst_idx)) g"
  have "Option.bind ?w (foldM ?F (ru_reads u)) = Some g'" using a unfolding dep_dst_edges_def Let_def .
  then obtain g1 where g1: "?w = Some g1" and f: "foldM ?F (ru_reads u) g1 = Some g'" by (cases ?w) simp_all
  have w: "adds_edges ip (set_option (write_ip u)) g g1"
    using g1 by (cases "ru_write u") (auto simp: write_ip_def adds_edges_refl add_edge_adds)
  have "adds_edges ip (\<Union>x\<in>set (ru_reads u). {fst x}) g1 g'"
    by (rule foldM_adds [OF _ f]) (auto simp: add_edge_adds split: Option.bind_splits)
  moreover have "(\<Union>x\<in>set (ru_reads u). {fst x}) = read_ips u" by (auto simp: read_ips_def)
  ultimately show ?thesis using adds_edges_trans [OF w] by simp
qed

lemma src_edges_adds: "dep_src_edges sm instrs ip i u g = Some g' \<Longrightarrow> adds_edges ip (set_option (write_ip u)) g g'"
  by (auto simp: dep_src_edges_def write_ip_def Let_def adds_edges_refl add_edge_adds split: option.splits)

definition effect_heads :: "SideEffect \<Rightarrow> nat \<Rightarrow> nat \<Rightarrow> nat option \<Rightarrow> nat option \<Rightarrow> nat set" where
  "effect_heads e n ip bar mem =
     (case e of SeNone \<Rightarrow> {} | SeMemory \<Rightarrow> set_option mem
      | SeBarrier \<Rightarrow> {ip + 1..<case bar of None \<Rightarrow> n | Some b \<Rightarrow> b})"

lemma side_effect_adds:
  assumes "dep_side_effect instrs ip s = Some s'"
  shows "\<exists>g'. s' = s\<lparr>ds_graph := g', ds_barrier := if effect_of (instrs ! ip) = SeBarrier then Some ip else ds_barrier s,
      ds_memory := if effect_of (instrs ! ip) = SeMemory then Some ip else ds_memory s\<rparr> \<and>
    adds_edges ip
      (effect_heads (effect_of (instrs ! ip)) (length instrs) ip (ds_barrier s) (ds_memory s)) (ds_graph s) g'"
proof (cases "side_effect_type (in_op (instrs ! ip))")
  case SeNone
  then show ?thesis using assms
    by (intro exI [of _ "ds_graph s"]) (auto simp: dep_side_effect_def effect_heads_def effect_of_def adds_edges_refl)
next
  case SeMemory
  then show ?thesis using assms
    by (auto simp: dep_side_effect_def effect_heads_def effect_of_def adds_edges_refl add_edge_adds split: Option.bind_splits option.splits)
next
  case SeBarrier
  then obtain g' where f: "foldM (\<lambda>other g. dg_add_edge ip other 0 g)
      [ip + 1..<case ds_barrier s of None \<Rightarrow> length instrs | Some b \<Rightarrow> b] (ds_graph s) = Some g'"
    and s': "s' = s\<lparr>ds_graph := g', ds_barrier := Some ip\<rparr>"
    using assms by (auto simp: dep_side_effect_def split: Option.bind_splits)
  have "adds_edges ip (\<Union>x\<in>set [ip + 1..<case ds_barrier s of None \<Rightarrow> length instrs | Some b \<Rightarrow> b]. {x}) (ds_graph s) g'"
    by (rule foldM_adds [OF _ f]) (rule add_edge_adds)
  then show ?thesis using SeBarrier s' by (auto simp: effect_of_def effect_heads_def)
qed

subsection \<open>Uses\<close>

lemma track_use:
  "write_ip (track y (set_write (ip, i)) uses x) = (if x = y then Some ip else write_ip (uses x))"
  "read_ips (track y (set_write (ip, i)) uses x) = (if x = y then {} else read_ips (uses x))"
  "write_ip (track y (add_read (ip, j)) uses x) = write_ip (uses x)"
  "read_ips (track y (add_read (ip, j)) uses x) = (if x = y then {ip} else {}) \<union> read_ips (uses x)"
  by (auto simp: track_def set_write_def add_read_def write_ip_def read_ips_def)

lemma track_writes:
  "write_ip (fold (\<lambda>(i, x). track x (set_write (ip, i))) ds uses x) = (if x \<in> snd ` set ds then Some ip else write_ip (uses x))"
  "read_ips (fold (\<lambda>(i, x). track x (set_write (ip, i))) ds uses x) = (if x \<in> snd ` set ds then {} else read_ips (uses x))"
  by (induction ds arbitrary: uses) (auto simp: track_use)

lemma track_reads:
  "write_ip (fold (\<lambda>(i, x). track x (add_read (ip, Some i))) ss uses x) = write_ip (uses x)"
  "read_ips (fold (\<lambda>(i, x). track x (add_read (ip, Some i))) ss uses x) = (if x \<in> snd ` set ss then {ip} else {}) \<union> read_ips (uses x)"
  "write_ip (fold (\<lambda>x. track x (add_read (ip, None))) ps uses x) = write_ip (uses x)"
  "read_ips (fold (\<lambda>x. track x (add_read (ip, None))) ps uses x) = (if x \<in> set ps then {ip} else {}) \<union> read_ips (uses x)"
proof -
  show "write_ip (fold (\<lambda>(i, x). track x (add_read (ip, Some i))) ss uses x) = write_ip (uses x)"
    by (induction ss arbitrary: uses) (auto simp: track_use)
  show "write_ip (fold (\<lambda>x. track x (add_read (ip, None))) ps uses x) = write_ip (uses x)"
    by (induction ps arbitrary: uses) (auto simp: track_use)
  show "read_ips (fold (\<lambda>(i, x). track x (add_read (ip, Some i))) ss uses x) = (if x \<in> snd ` set ss then {ip} else {}) \<union> read_ips (uses x)"
    by (induction ss arbitrary: uses) (auto simp: track_use split: if_splits)
  show "read_ips (fold (\<lambda>x. track x (add_read (ip, None))) ps uses x) = (if x \<in> set ps then {ip} else {}) \<union> read_ips (uses x)"
    by (induction ps arbitrary: uses) (auto simp: track_use)
qed

lemma dep_track_spec:
  "write_ip (dep_track ip ds ps ss uses x) = (if x \<in> snd ` set ds then Some ip else write_ip (uses x))"
  "read_ips (dep_track ip ds ps ss uses x) =
     (if x \<in> snd ` set ss \<or> x \<in> set ps then {ip} else {}) \<union> (if x \<in> snd ` set ds then {} else read_ips (uses x))"
  by (simp_all add: dep_track_def track_writes track_reads)

lemma dep_step_spec:
  assumes st: "dep_step sm instrs ip s = Some s'"
  shows "ip < length (ds_graph s) \<and>
    ds_barrier s' = (if effect_of (instrs ! ip) = SeBarrier then Some ip else ds_barrier s) \<and>
    ds_memory s' = (if effect_of (instrs ! ip) = SeMemory then Some ip else ds_memory s) \<and>
    (\<forall>x. write_ip (ds_uses s' x) = (if x \<in> written (instrs ! ip) then Some ip else write_ip (ds_uses s x))) \<and>
    (\<forall>x. read_ips (ds_uses s' x) = (if x \<in> sourced (instrs ! ip) \<union> guarded (instrs ! ip) then {ip} else {}) \<union>
       (if x \<in> written (instrs ! ip) then {} else read_ips (ds_uses s x))) \<and>
    adds_edges ip (set_option (ds_barrier s) \<union>
      (effect_heads (effect_of (instrs ! ip)) (length instrs) ip (ds_barrier s) (ds_memory s)) \<union>
      (\<Union>x\<in>written (instrs ! ip). set_option (write_ip (ds_uses s x)) \<union> read_ips (ds_uses s x)) \<union>
      (\<Union>x\<in>sourced (instrs ! ip). set_option (write_ip (ds_uses s x)))) (ds_graph s) (ds_graph s')"
proof -
  let ?i = "instrs ! ip"
  obtain g1 s1 dsts g2 srcs g3 preds label where
    g1: "(case ds_barrier s of None \<Rightarrow> Some (ds_graph s) | Some b \<Rightarrow> dg_add_edge ip b 0 (ds_graph s)) = Some g1"
    and s1: "dep_side_effect instrs ip (s\<lparr>ds_graph := g1\<rparr>) = Some s1"
    and d: "dst_cells ?i = Some dsts"
    and g2: "foldM (\<lambda>(i, x). dep_dst_edges sm instrs ip i (ds_uses s1 x)) dsts (ds_graph s1) = Some g2"
    and sr: "src_cells ?i = Some srcs"
    and g3: "foldM (\<lambda>(i, x). dep_src_edges sm instrs ip i (ds_uses s1 x)) srcs g2 = Some g3"
    and p: "pred_cells ?i = Some preds" and ip: "ip < length g3"
    and s': "s' = s1\<lparr>ds_graph := g3[ip := (g3 ! ip)\<lparr>dn_label := label\<rparr>], ds_uses := dep_track ip dsts preds srcs (ds_uses s1)\<rparr>"
    using st by (auto simp: dep_step_def Let_def panic_simps split: Option.bind_splits)
  have a1: "adds_edges ip (set_option (ds_barrier s)) (ds_graph s) g1"
    using g1 by (auto simp: adds_edges_refl add_edge_adds split: option.splits)
  from side_effect_adds [OF s1] have b: "ds_barrier s1 = (if effect_of ?i = SeBarrier then Some ip else ds_barrier s)"
    "ds_memory s1 = (if effect_of ?i = SeMemory then Some ip else ds_memory s)" and u: "ds_uses s1 = ds_uses s"
    and a2: "adds_edges ip
      (effect_heads (effect_of ?i) (length instrs) ip (ds_barrier s) (ds_memory s)) g1 (ds_graph s1)"
    by auto
  have a3: "adds_edges ip (\<Union>(i, x)\<in>set dsts. set_option (write_ip (ds_uses s x)) \<union> read_ips (ds_uses s x)) (ds_graph s1) g2"
    by (rule foldM_adds [OF _ g2]) (auto simp: u dest!: dst_edges_adds)
  have a4: "adds_edges ip (\<Union>(i, x)\<in>set srcs. set_option (write_ip (ds_uses s x))) g2 g3"
    by (rule foldM_adds [OF _ g3]) (auto simp: u dest!: src_edges_adds)
  have a5: "adds_edges ip {} g3 (ds_graph s')"
    by (simp add: s' adds_edges_def edge_rel_def)
  have w: "written ?i = snd ` set dsts" "sourced ?i = snd ` set srcs" "guarded ?i = set preds"
    by (simp_all add: written_def sourced_def guarded_def d sr p)
  have U: "(\<Union>(i, x)\<in>set dsts. F x) = (\<Union>x\<in>written ?i. F x)" "(\<Union>(i, x)\<in>set srcs. F x) = (\<Union>x\<in>sourced ?i. F x)"
    for F :: "RegCell \<Rightarrow> nat set" by (force simp: w)+
  have "length g3 = length (ds_graph s)" using a1 a2 a3 a4 by (simp add: adds_edges_def)
  moreover note adds_edges_trans [OF adds_edges_trans [OF adds_edges_trans [OF adds_edges_trans [OF a1 a2] a3] a4] a5, unfolded U]
  ultimately show ?thesis using ip b by (simp add: s' u dep_track_spec w)
qed

subsection \<open>The graph holds every dependency\<close>

text \<open>\<^term>\<open>b\<close> is the first index from \<^term>\<open>k\<close> on with \<^term>\<open>P\<close>, if there is one below \<^term>\<open>n\<close>.\<close>

definition is_first :: "(nat \<Rightarrow> bool) \<Rightarrow> nat \<Rightarrow> nat \<Rightarrow> nat option \<Rightarrow> bool" where
  "is_first P k n b \<longleftrightarrow>
     (case b of None \<Rightarrow> \<forall>j. k \<le> j \<and> j < n \<longrightarrow> \<not> P j
      | Some b \<Rightarrow> k \<le> b \<and> b < n \<and> P b \<and> (\<forall>j. k \<le> j \<and> j < b \<longrightarrow> \<not> P j))"

lemma is_first_step:
  assumes "is_first P (Suc k) n b" and "k < n"
  shows "is_first P k n (if P k then Some k else b)"
proof -
  have "k \<le> j \<longleftrightarrow> j = k \<or> Suc k \<le> j" for j by auto
  then show ?thesis using assms by (auto simp: is_first_def split: option.splits)
qed

lemma is_first_below:
  assumes "is_first P k n b" and "P j" "k \<le> j" "j < n"
  obtains b' where "b = Some b'" "k \<le> b'" "b' \<le> j" "P b'"
  using assms by (cases b) (auto simp: is_first_def not_le intro: leI)

definition reaches :: "Instr list \<Rightarrow> nat \<Rightarrow> DepState \<Rightarrow> bool" where
  "reaches instrs k s \<longleftrightarrow>
     length (ds_graph s) = length instrs \<and>
     is_first (\<lambda>j. effect_of (instrs ! j) = SeBarrier) k (length instrs) (ds_barrier s) \<and>
     is_first (\<lambda>j. effect_of (instrs ! j) = SeMemory) k (length instrs) (ds_memory s) \<and>
     (\<forall>x. is_first (\<lambda>j. x \<in> written (instrs ! j)) k (length instrs) (write_ip (ds_uses s x))) \<and>
     (\<forall>x. read_ips (ds_uses s x) =
        {r. k \<le> r \<and> r < length instrs \<and> x \<in> sourced (instrs ! r) \<union> guarded (instrs ! r) \<and>
            (\<forall>w. k \<le> w \<and> w < r \<longrightarrow> x \<notin> written (instrs ! w))}) \<and>
     (\<forall>i j. k \<le> i \<and> i < j \<and> j < length instrs \<and> tracked (instrs ! i) (instrs ! j) \<longrightarrow> (i, j) \<in> (edge_rel (ds_graph s))\<^sup>+)"

lemma dep_step_reaches:
  assumes st: "dep_step sm instrs ip s = Some s'" and inv: "reaches instrs (Suc ip) s"
  shows "reaches instrs ip s'"
proof -
  let ?n = "length instrs" and ?i = "instrs ! ip" and ?E = "edge_rel (ds_graph s')"
  note I = inv [unfolded reaches_def]
  note S = dep_step_spec [OF st]
  let ?H = "set_option (ds_barrier s) \<union>
      effect_heads (effect_of ?i) ?n ip (ds_barrier s) (ds_memory s) \<union>
      (\<Union>x\<in>written ?i. set_option (write_ip (ds_uses s x)) \<union> read_ips (ds_uses s x)) \<union>
      (\<Union>x\<in>sourced ?i. set_option (write_ip (ds_uses s x)))"
  have ip: "ip < ?n" using S I by simp
  have E: "?E = edge_rel (ds_graph s) \<union> {ip} \<times> ?H" and len: "length (ds_graph s') = ?n"
    using S I by (auto simp: adds_edges_def)
  have bar: "is_first (\<lambda>j. effect_of (instrs ! j) = SeBarrier) (Suc ip) ?n (ds_barrier s)"
    and mem: "is_first (\<lambda>j. effect_of (instrs ! j) = SeMemory) (Suc ip) ?n (ds_memory s)"
    and wr: "\<And>x. is_first (\<lambda>j. x \<in> written (instrs ! j)) (Suc ip) ?n (write_ip (ds_uses s x))" using I by auto
  have rd: "read_ips (ds_uses s x) =
        {r. Suc ip \<le> r \<and> r < ?n \<and> x \<in> sourced (instrs ! r) \<union> guarded (instrs ! r) \<and>
            (\<forall>w. Suc ip \<le> w \<and> w < r \<longrightarrow> x \<notin> written (instrs ! w))}" for x using I by blast
  have old: "(i, j) \<in> ?E\<^sup>+" if "Suc ip \<le> i" "i < j" "j < ?n" "tracked (instrs ! i) (instrs ! j)" for i j
  proof -
    have "(i, j) \<in> (edge_rel (ds_graph s))\<^sup>+" using I that by blast
    then show ?thesis by (rule trancl_mono) (simp add: E)
  qed
  have via: "(ip, j) \<in> ?E\<^sup>+" if "b \<in> ?H" "Suc ip \<le> b" "b \<le> j" "j < ?n" "b < j \<Longrightarrow> tracked (instrs ! b) (instrs ! j)" for b j
  proof -
    have e: "(ip, b) \<in> ?E" using that(1) by (simp add: E)
    show ?thesis
    proof (cases "b = j")
      case False
      then have "(b, j) \<in> ?E\<^sup>+" using that by (intro old) auto
      then show ?thesis using e by (rule trancl_into_trancl2 [rotated])
    qed (use e in auto)
  qed
  have new: "(ip, j) \<in> ?E\<^sup>+" if j: "ip < j" "j < ?n" and t: "tracked ?i (instrs ! j)" for j
  proof -
    have sj: "Suc ip \<le> j" using j by simp
    have barrier: "(ip, j) \<in> ?E\<^sup>+" if b: "Suc ip \<le> b" "b \<le> j" "effect_of (instrs ! b) = SeBarrier" for b
    proof -
      obtain c where "ds_barrier s = Some c" "Suc ip \<le> c" "c \<le> b" "effect_of (instrs ! c) = SeBarrier"
        by (rule is_first_below [OF bar b(3,1)]) (use b j in auto)
      then show ?thesis using b j by (intro via [of c]) (auto simp: tracked_def)
    qed
    have via_write: "(ip, j) \<in> ?E\<^sup>+" if x: "x \<in> written ?i \<union> sourced ?i" and w: "Suc ip \<le> w" "w \<le> j" "x \<in> written (instrs ! w)"
      and xj: "w < j \<Longrightarrow> x \<in> sourced (instrs ! j) \<union> guarded (instrs ! j) \<union> written (instrs ! j)" for x w
    proof -
      obtain c where c: "write_ip (ds_uses s x) = Some c" "Suc ip \<le> c" "c \<le> w" "x \<in> written (instrs ! c)"
        by (rule is_first_below [OF wr w(3,1)]) (use w j in auto)
      have "c < j \<Longrightarrow> x \<in> sourced (instrs ! j) \<union> guarded (instrs ! j) \<union> written (instrs ! j)"
        using xj w(2,3) by (cases "w = j") auto
      then have "c < j \<Longrightarrow> tracked (instrs ! c) (instrs ! j)" using c(4) by (auto simp: tracked_def)
      moreover have "c \<in> ?H" using x c(1) by auto
      ultimately show ?thesis using c w j by (intro via [of c]) auto
    qed
    consider "effect_of ?i = SeBarrier" | "effect_of (instrs ! j) = SeBarrier"
      | "effect_of ?i = SeMemory" "effect_of (instrs ! j) = SeMemory"
      | x where "x \<in> written ?i \<union> sourced ?i" "x \<in> written (instrs ! j)"
      | x where "x \<in> written ?i" "x \<in> sourced (instrs ! j) \<union> guarded (instrs ! j)"
      using t by (auto simp: tracked_def)
    then show ?thesis
    proof cases
      case 1
      show ?thesis
      proof (cases "\<exists>b. Suc ip \<le> b \<and> b \<le> j \<and> effect_of (instrs ! b) = SeBarrier")
        case True
        then show ?thesis using barrier by blast
      next
        case False
        then have "j < (case ds_barrier s of None \<Rightarrow> ?n | Some b \<Rightarrow> b)"
          using bar j by (cases "ds_barrier s") (auto simp: is_first_def not_le [symmetric])
        then have "j \<in> ?H" using 1 j by (auto simp: effect_heads_def)
        then show ?thesis using j by (intro via [of j]) auto
      qed
    next
      case 2
      then show ?thesis using sj by (intro barrier [of j]) auto
    next
      case 3
      obtain m where "ds_memory s = Some m" "Suc ip \<le> m" "m \<le> j" "effect_of (instrs ! m) = SeMemory"
        by (rule is_first_below [OF mem 3(2) sj j(2)])
      then show ?thesis using 3 j by (intro via [of m]) (auto simp: effect_heads_def tracked_def)
    next
      case 4
      then show ?thesis using sj by (intro via_write [of x j]) auto
    next
      case 5
      show ?thesis
      proof (cases "\<exists>w. Suc ip \<le> w \<and> w < j \<and> x \<in> written (instrs ! w)")
        case True
        then show ?thesis using 5 via_write by (metis UnI1 less_imp_le)
      next
        case False
        then have "j \<in> read_ips (ds_uses s x)" using 5 j by (simp add: rd)
        then show ?thesis using 5 j by (intro via [of j]) auto
      qed
    qed
  qed
  have reads: "read_ips (ds_uses s' x) =
      {r. ip \<le> r \<and> r < ?n \<and> x \<in> sourced (instrs ! r) \<union> guarded (instrs ! r) \<and>
          (\<forall>w. ip \<le> w \<and> w < r \<longrightarrow> x \<notin> written (instrs ! w))}" for x
  proof -
    have "(\<forall>w. ip \<le> w \<and> w < r \<longrightarrow> x \<notin> written (instrs ! w)) \<longleftrightarrow>
        x \<notin> written ?i \<and> (\<forall>w. Suc ip \<le> w \<and> w < r \<longrightarrow> x \<notin> written (instrs ! w))" if "ip < r" for r
      using that by (metis Suc_le_eq le_less)
    moreover have "read_ips (ds_uses s' x) = (if x \<in> sourced ?i \<union> guarded ?i then {ip} else {}) \<union>
       (if x \<in> written ?i then {} else read_ips (ds_uses s x))" using S by blast
    moreover have "Suc ip \<le> r \<longleftrightarrow> ip < r" for r by auto
    moreover have "ip \<le> r \<longleftrightarrow> r = ip \<or> ip < r" for r by auto
    ultimately show ?thesis using ip unfolding rd by (auto split: if_splits)
  qed
  show ?thesis
    unfolding reaches_def
  proof (intro conjI allI impI)
    show "length (ds_graph s') = ?n" by (rule len)
    show "is_first (\<lambda>j. effect_of (instrs ! j) = SeBarrier) ip ?n (ds_barrier s')" using is_first_step [OF bar ip] S by simp
    show "is_first (\<lambda>j. effect_of (instrs ! j) = SeMemory) ip ?n (ds_memory s')" using is_first_step [OF mem ip] S by simp
    fix x
    have "write_ip (ds_uses s' x) = (if x \<in> written ?i then Some ip else write_ip (ds_uses s x))" using S by blast
    then show "is_first (\<lambda>j. x \<in> written (instrs ! j)) ip ?n (write_ip (ds_uses s' x))"
      using is_first_step [OF wr ip, of x] by simp
  next
    fix i j assume a: "ip \<le> i \<and> i < j \<and> j < ?n \<and> tracked (instrs ! i) (instrs ! j)"
    then show "(i, j) \<in> ?E\<^sup>+" using old new by (cases "i = ip") auto
  qed (rule reads)
qed

lemma dep_graph_complete:
  assumes "generate_dep_graph sm instrs = Some g"
  shows "length g = length instrs" and
    "\<And>i j. i < j \<Longrightarrow> j < length instrs \<Longrightarrow> tracked (instrs ! i) (instrs ! j) \<Longrightarrow> (i, j) \<in> (edge_rel g)\<^sup>+"
proof -
  have loop: "foldM (dep_step sm instrs) (rev [0..<n]) s = Some s' \<Longrightarrow> reaches instrs n s \<Longrightarrow> reaches instrs 0 s'" for n s s'
  proof (induction n arbitrary: s)
    case (Suc n)
    obtain s1 where st: "dep_step sm instrs n s = Some s1" and r: "foldM (dep_step sm instrs) (rev [0..<n]) s1 = Some s'"
      using Suc.prems(1) by (auto split: option.splits)
    show ?case by (rule Suc.IH [OF r dep_step_reaches [OF st Suc.prems(2)]])
  qed simp
  obtain s where s: "foldM (dep_step sm instrs) (rev [0..<length instrs])
      \<lparr>ds_graph = dg_new (length instrs), ds_uses = \<lambda>_. ru_new, ds_memory = None, ds_barrier = None\<rparr> = Some s" and g: "g = ds_graph s"
    using assms by (auto simp: generate_dep_graph_def)
  have "reaches instrs (length instrs)
      \<lparr>ds_graph = dg_new (length instrs), ds_uses = \<lambda>_. ru_new, ds_memory = None, ds_barrier = None\<rparr>"
    by (auto simp: reaches_def is_first_def write_ip_def read_ips_def ru_new_def dg_new_def)
  from loop [OF s this] show "length g = length instrs"
    and "\<And>i j. i < j \<Longrightarrow> j < length instrs \<Longrightarrow> tracked (instrs ! i) (instrs ! j) \<Longrightarrow> (i, j) \<in> (edge_rel g)\<^sup>+"
    by (auto simp: reaches_def g)
qed

subsection \<open>The schedule\<close>

lemma list_before_trans:
  assumes "list_before xs a b" and "list_before xs b c" and "distinct xs"
  shows "list_before xs a c"
proof -
  obtain us vs ws where 1: "xs = us @ a # vs @ b # ws" using assms(1) by (auto simp: list_before_def)
  obtain us' vs' ws' where 2: "xs = us' @ b # vs' @ c # ws'" using assms(2) by (auto simp: list_before_def)
  have "(us @ a # vs) @ b # ws = us' @ b # (vs' @ c # ws')" using 1 2 by simp
  moreover have "b \<notin> set (us @ a # vs)" using assms(3) unfolding 1 by auto
  moreover have "b \<notin> set ws" using assms(3) unfolding 1 by auto
  ultimately have "ws = vs' @ c # ws'" using append_Cons_eq_iff [of b "us @ a # vs" ws us' "vs' @ c # ws'"] by blast
  then have "xs = us @ a # (vs @ b # vs') @ c # ws'" using 1 by simp
  then show ?thesis unfolding list_before_def by blast
qed

lemma sched_keeps_order:
  assumes "sched_buffer sm instrs = Some (instrs', cycles)"
  shows "\<exists>order. distinct order \<and> set order = {..<length instrs} \<and> instrs' = map ((!) instrs) order \<and>
    (\<forall>i j. i < j \<and> j < length instrs \<and> tracked (instrs ! i) (instrs ! j) \<longrightarrow> list_before order i j)"
proof -
  obtain g order where g: "generate_dep_graph sm instrs = Some g" and i: "instrs' = map ((!) instrs) order"
    and o: "distinct order" "set order = {..<length instrs}"
    and before: "\<And>i j. i < length instrs \<Longrightarrow> j \<in> set (heads g ! i) \<Longrightarrow> list_before order i j"
    using sched_buffer_order [OF assms] dep_graph_complete(1) by metis
  have "list_before order i j" if "(i, j) \<in> (edge_rel g)\<^sup>+" for i j
    using that
  proof (induction rule: trancl_induct)
    case (base j)
    then show ?case using before dep_graph_complete(1) [OF g] by (auto simp: edge_rel_def)
  next
    case (step j k)
    then have "list_before order j k" using before dep_graph_complete(1) [OF g] by (auto simp: edge_rel_def)
    with step.IH show ?case using o(1) by (rule list_before_trans)
  qed
  then show ?thesis using i o dep_graph_complete(2) [OF g] by blast
qed

end
