(* ===== verification/SchedRun.thy ===== *)
theory SchedRun
  imports SchedDeps
begin

text \<open>
  Scheduling and execution.  Reordered instructions whose order is not tracked commute on every machine that
  confines them to their operands, so that a scheduled function does what it did.  The exception is the guard:
  its later writes are not tracked.
\<close>

subsection \<open>Reordering and execution\<close>

text \<open>
  Two executions of the same distinct steps agree when the steps that change sides commute.
\<close>

lemma list_before_Nil [simp]: "\<not> list_before [] a b"
  by (simp add: list_before_def)

lemma list_before_Cons [simp]: "list_before (x # xs) a b \<longleftrightarrow> a = x \<and> b \<in> set xs \<or> list_before xs a b"
proof
  assume "list_before (x # xs) a b"
  then obtain us vs ws where "x # xs = us @ a # vs @ b # ws" by (auto simp: list_before_def)
  then show "a = x \<and> b \<in> set xs \<or> list_before xs a b" by (cases us) (auto simp: list_before_def)
next
  have "list_before (x # xs) x b" if "b \<in> set xs"
    using split_list [OF that] unfolding list_before_def by (metis append_Nil)
  moreover have "list_before (x # xs) a b" if "list_before xs a b"
    using that unfolding list_before_def by (metis append_Cons)
  ultimately show "a = x \<and> b \<in> set xs \<or> list_before xs a b \<Longrightarrow> list_before (x # xs) a b" by auto
qed

lemma list_before_append [simp]:
  "list_before (xs @ ys) a b \<longleftrightarrow> list_before xs a b \<or> list_before ys a b \<or> a \<in> set xs \<and> b \<in> set ys"
  by (induction xs) auto

lemma fold_move_front:
  assumes "\<forall>u\<in>set us. f u \<circ> f x = f x \<circ> f u"
  shows "fold f (us @ x # vs) = fold f (x # us @ vs)"
  using assms
proof (induction us)
  case (Cons u us)
  have c: "f u (f x s) = f x (f u s)" for s using Cons.prems by (metis comp_apply list.set_intros(1))
  have "fold f (us @ x # vs) = fold f (x # us @ vs)"
    by (rule Cons.IH) (use Cons.prems in simp)
  then have "fold f (us @ x # vs) (f u s) = fold f (x # us @ vs) (f u s)" for s by (rule fun_cong)
  then show ?case by (intro ext) (simp add: c)
qed simp

lemma fold_reorder:
  assumes "distinct xs" and "distinct ys" and "set ys = set xs"
    and "\<And>a b. list_before xs a b \<Longrightarrow> list_before ys b a \<Longrightarrow> f b \<circ> f a = f a \<circ> f b"
  shows "fold f ys = fold f xs"
  using assms
proof (induction xs arbitrary: ys)
  case (Cons x xs)
  then obtain us vs where ys: "ys = us @ x # vs" by (metis list.set_intros(1) split_list)
  have u: "f u \<circ> f x = f x \<circ> f u" if "u \<in> set us" for u
  proof (rule Cons.prems(4))
    have "u \<noteq> x" "u \<in> set (x # xs)" using that Cons.prems(2,3) by (auto simp: ys)
    then show "list_before (x # xs) x u" by simp
    show "list_before ys u x" using that by (simp add: ys)
  qed
  have "fold f (us @ vs) = fold f xs"
  proof (rule Cons.IH)
    fix a b assume "list_before xs a b" and "list_before (us @ vs) b a"
    then have "list_before (x # xs) a b" "list_before ys b a" by (auto simp: ys)
    then show "f b \<circ> f a = f a \<circ> f b" by (rule Cons.prems(4))
  next
    have "set us \<union> set vs = set (x # xs) - {x}" using Cons.prems(2,3) unfolding ys by auto
    then show "set (us @ vs) = set xs" using Cons.prems(1) by auto
  qed (use Cons.prems in \<open>simp_all add: ys\<close>)
  then show ?case using fold_move_front [of us f x vs] u by (simp add: ys)
qed simp

subsection \<open>Machines\<close>

text \<open>
  An execution of the instructions over the tracked cells and a memory.  What an instruction does is
  confined to its operands: it changes the cells it writes only, from its sources, its guard and, where it
  keeps them, the old values of what it writes; without a side effect it does not touch the memory.
\<close>

type_synonym ('v, 'm) Machine = "(RegCell \<Rightarrow> 'v) \<times> 'm"

definition confined :: "(Instr \<Rightarrow> ('v, 'm) Machine \<Rightarrow> ('v, 'm) Machine) \<Rightarrow> Instr \<Rightarrow> bool" where
  "confined exec i \<longleftrightarrow>
     (\<forall>R M x. x \<notin> written i \<longrightarrow> fst (exec i (R, M)) x = R x) \<and>
     (\<forall>R R' M. (\<forall>x \<in> sourced i \<union> guarded i \<union> written i. R x = R' x) \<longrightarrow>
        (\<forall>x \<in> written i. fst (exec i (R, M)) x = fst (exec i (R', M)) x) \<and> snd (exec i (R, M)) = snd (exec i (R', M))) \<and>
     (effect_of i = SeNone \<longrightarrow> (\<forall>R M M'. snd (exec i (R, M)) = M \<and> fst (exec i (R, M)) = fst (exec i (R, M'))))"

lemma confined_commute:
  fixes exec :: "Instr \<Rightarrow> ('v, 'm) Machine \<Rightarrow> ('v, 'm) Machine"
  assumes a: "confined exec a" and b: "confined exec b"
    and t: "\<not> tracked a b" and g: "guarded a \<inter> written b = {}"
  shows "exec b \<circ> exec a = exec a \<circ> exec b"
proof
  fix s :: "('v, 'm) Machine"
  obtain R M where s: "s = (R, M)" by (cases s)
  have T: "written a \<inter> (sourced b \<union> guarded b \<union> written b) = {}" "sourced a \<inter> written b = {}"
    "effect_of a = SeNone \<or> effect_of b = SeNone"
    using t by (auto simp: tracked_def) (metis SideEffect.exhaust)+
  obtain Ra Ma where A: "exec a (R, M) = (Ra, Ma)" by (cases "exec a (R, M)")
  obtain Rb Mb where B: "exec b (R, M) = (Rb, Mb)" by (cases "exec b (R, M)")
  note ca = a [unfolded confined_def] and cb = b [unfolded confined_def]
  have ra: "Ra x = R x" if "x \<notin> written a" for x using ca A that by (metis fst_conv)
  have rb: "Rb x = R x" if "x \<notin> written b" for x using cb B that by (metis fst_conv)
  have memB: "fst (exec b (Ra, Ma)) = fst (exec b (Ra, M))"
    using T(3) ca cb A by (metis snd_conv)
  have memA: "fst (exec a (Rb, Mb)) = fst (exec a (Rb, M))"
    using T(3) ca cb B by (metis snd_conv)
  have ba: "(\<forall>x \<in> written b. fst (exec b (Ra, M')) x = fst (exec b (R, M')) x) \<and> snd (exec b (Ra, M')) = snd (exec b (R, M'))" for M'
  proof -
    have "\<forall>x \<in> sourced b \<union> guarded b \<union> written b. Ra x = R x" using T(1) ra by blast
    then show ?thesis using cb by blast
  qed
  have ab: "(\<forall>x \<in> written a. fst (exec a (Rb, M')) x = fst (exec a (R, M')) x) \<and> snd (exec a (Rb, M')) = snd (exec a (R, M'))" for M'
  proof -
    have "\<forall>x \<in> sourced a \<union> guarded a \<union> written a. Rb x = R x" using T(1,2) g rb by blast
    then show ?thesis using ca by blast
  qed
  have "fst (exec b (Ra, Ma)) x = fst (exec a (Rb, Mb)) x" for x
  proof -
    consider "x \<in> written b" "x \<notin> written a" | "x \<in> written a" "x \<notin> written b" | "x \<notin> written a" "x \<notin> written b"
      using T(1) by blast
    then show ?thesis
    proof cases
      case 1
      have "fst (exec b (Ra, Ma)) x = Rb x" using memB ba 1 B by (metis fst_conv)
      moreover have "fst (exec a (Rb, Mb)) x = Rb x" using ca 1 by blast
      ultimately show ?thesis by simp
    next
      case 2
      have "fst (exec a (Rb, Mb)) x = Ra x" using memA ab 2 A by (metis fst_conv)
      moreover have "fst (exec b (Ra, Ma)) x = Ra x" using cb 2 by blast
      ultimately show ?thesis by simp
    next
      case 3
      then show ?thesis using ca cb ra rb by metis
    qed
  qed
  moreover have "snd (exec b (Ra, Ma)) = snd (exec a (Rb, Mb))"
  proof (cases "effect_of a = SeNone")
    case True
    then have "Ma = M" using ca A by (metis snd_conv)
    then have "snd (exec b (Ra, Ma)) = Mb" using ba B by (metis snd_conv)
    moreover have "snd (exec a (Rb, Mb)) = Mb" using ca True by blast
    ultimately show ?thesis by simp
  next
    case False
    then have nb: "effect_of b = SeNone" using T(3) by simp
    then have "Mb = M" using cb B by (metis snd_conv)
    then have "snd (exec a (Rb, Mb)) = Ma" using ab A by (metis snd_conv)
    moreover have "snd (exec b (Ra, Ma)) = Ma" using cb nb by blast
    ultimately show ?thesis by simp
  qed
  ultimately show "(exec b \<circ> exec a) s = (exec a \<circ> exec b) s" by (simp add: s A B prod_eq_iff fun_eq_iff)
qed

lemma list_before_upt: "list_before [0..<n] i j \<longleftrightarrow> i < j \<and> j < n"
  by (induction n) auto

lemma sched_preserves_run:
  assumes s: "sched_buffer sm instrs = Some (instrs', cycles)"
    and c: "\<forall>i\<in>set instrs. confined exec i"
    and g: "\<forall>i j. i < j \<and> j < length instrs \<and> guarded (instrs ! i) \<inter> written (instrs ! j) \<noteq> {} \<longrightarrow> tracked (instrs ! i) (instrs ! j)"
  shows "fold exec instrs' = fold exec instrs"
proof -
  obtain order where o: "distinct order" "set order = {..<length instrs}" and i: "instrs' = map ((!) instrs) order"
    and b: "\<And>i j. i < j \<Longrightarrow> j < length instrs \<Longrightarrow> tracked (instrs ! i) (instrs ! j) \<Longrightarrow> list_before order i j"
    using sched_keeps_order [OF s] by blast
  have "fold (\<lambda>i. exec (instrs ! i)) order = fold (\<lambda>i. exec (instrs ! i)) [0..<length instrs]"
  proof (rule fold_reorder)
    fix i j assume "list_before [0..<length instrs] i j" and ji: "list_before order j i"
    then have ij: "i < j" "j < length instrs" by (simp_all add: list_before_upt)
    have "\<not> list_before order i j"
    proof
      assume "list_before order i j"
      from list_before_trans [OF this ji o(1)] have "list_before order i i" .
      then show False using o(1) by (auto simp: list_before_def)
    qed
    then have "\<not> tracked (instrs ! i) (instrs ! j)" using b ij by blast
    then show "exec (instrs ! j) \<circ> exec (instrs ! i) = exec (instrs ! i) \<circ> exec (instrs ! j)"
      using c g ij by (intro confined_commute) auto
  next
    show "set order = set [0..<length instrs]" by (simp only: o set_upt atLeast_upt lessThan_atLeast0)
  qed (simp_all only: o distinct_upt)
  moreover have "fold exec (map ((!) instrs) is) = fold (\<lambda>i. exec (instrs ! i)) is" for "is"
    by (simp add: fold_map comp_def)
  ultimately show ?thesis using i by (metis map_nth)
qed

lemma sched_same_instrs:
  assumes "sched_buffer sm instrs = Some (instrs', cycles)"
  shows "mset instrs' = mset instrs"
proof -
  obtain order where o: "distinct order" "set order = {..<length instrs}" and i: "instrs' = map ((!) instrs) order"
    using sched_keeps_order [OF assms] by blast
  have "mset order = mset [0..<length instrs]"
    using set_eq_iff_mset_eq_distinct [OF o(1) distinct_upt, of 0 "length instrs"] o(2) by (simp only: set_upt atLeast_upt lessThan_atLeast0 simp_thms)
  then have "image_mset ((!) instrs) (mset order) = image_mset ((!) instrs) (mset [0..<length instrs])" by simp
  then show ?thesis unfolding i by (metis map_nth mset_map)
qed

text \<open>Executing every block.\<close>

definition guards_kept :: "Instr list \<Rightarrow> bool" where
  "guards_kept instrs \<longleftrightarrow>
     (\<forall>i j. i < j \<and> j < length instrs \<and> guarded (instrs ! i) \<inter> written (instrs ! j) \<noteq> {} \<longrightarrow> tracked (instrs ! i) (instrs ! j))"

lemma postpass_blocks:
  assumes "opt_instr_sched_postpass sm weight f = Some (f', n)"
  shows "\<exists>bs. f' = f\<lparr>fn_blocks := (fn_blocks f)\<lparr>cfg_blocks := bs\<rparr>\<rparr> \<and> length bs = length (cfg_blocks (fn_blocks f)) \<and>
    (\<forall>i<length bs. \<exists>instrs c. sched_buffer sm (bb_instrs (cfg_blocks (fn_blocks f) ! i)) = Some (instrs, c) \<and>
       bs ! i = (cfg_blocks (fn_blocks f) ! i)\<lparr>bb_instrs := instrs\<rparr>)"
proof -
  let ?cfg = "fn_blocks f"
  let ?bs = "cfg_blocks ?cfg"
  have loop: "k \<le> length ?bs \<Longrightarrow> foldM (sched_block sm weight) [0..<k] (?cfg, 0) = Some (cfg, m) \<Longrightarrow>
      \<exists>bs. cfg = ?cfg\<lparr>cfg_blocks := bs\<rparr> \<and> length bs = length ?bs \<and> (\<forall>i. k \<le> i \<and> i < length bs \<longrightarrow> bs ! i = ?bs ! i) \<and>
        (\<forall>i<k. \<exists>instrs c. sched_buffer sm (bb_instrs (?bs ! i)) = Some (instrs, c) \<and> bs ! i = (?bs ! i)\<lparr>bb_instrs := instrs\<rparr>)"
    for k cfg m
  proof (induction k arbitrary: cfg m)
    case 0
    then show ?case by (auto intro!: exI [of _ ?bs])
  next
    case (Suc k)
    obtain cfg1 m1 where r: "foldM (sched_block sm weight) [0..<k] (?cfg, 0) = Some (cfg1, m1)" and st: "sched_block sm weight k (cfg1, m1) = Some (cfg, m)"
      using Suc.prems(2) by (auto simp: foldM_append split: option.splits)
    obtain bs where cfg1: "cfg1 = ?cfg\<lparr>cfg_blocks := bs\<rparr>" and l: "length bs = length ?bs" and later: "\<forall>i. k \<le> i \<and> i < length bs \<longrightarrow> bs ! i = ?bs ! i"
      and now: "\<forall>i<k. \<exists>instrs c. sched_buffer sm (bb_instrs (?bs ! i)) = Some (instrs, c) \<and> bs ! i = (?bs ! i)\<lparr>bb_instrs := instrs\<rparr>"
      using Suc.IH [OF _ r] Suc.prems(1) by auto
    obtain instrs c where s: "sched_buffer sm (bb_instrs (?bs ! k)) = Some (instrs, c)"
      and cfg: "cfg = ?cfg\<lparr>cfg_blocks := bs[k := (?bs ! k)\<lparr>bb_instrs := instrs\<rparr>]\<rparr>"
      using st Suc.prems(1) l later by (auto simp: sched_block_def cfg1 panic_simps Let_def split: Option.bind_splits)
    let ?bs' = "bs[k := (?bs ! k)\<lparr>bb_instrs := instrs\<rparr>]"
    have "\<exists>instrs c. sched_buffer sm (bb_instrs (?bs ! i)) = Some (instrs, c) \<and> ?bs' ! i = (?bs ! i)\<lparr>bb_instrs := instrs\<rparr>"
      if "i < Suc k" for i
      using that now s l Suc.prems(1) by (cases "i = k") auto
    then show ?case using cfg l later by (intro exI [of _ ?bs']) auto
  qed
  obtain cfg where "foldM (sched_block sm weight) [0..<length ?bs] (?cfg, 0) = Some (cfg, n)" and f': "f' = f\<lparr>fn_blocks := cfg\<rparr>"
    using assms by (auto simp: opt_instr_sched_postpass_def)
  from loop [OF le_refl this(1)] f' show ?thesis by auto
qed

subsection \<open>An example block\<close>

definition demo_sm :: SchedModel where
  "demo_sm = \<lparr>sc_sm = 75, op_needs_scoreboard = \<lambda>_. False, exec_latency_of = \<lambda>_. 1,
     raw_latency = \<lambda>_ _ _ _. 4, war_latency = \<lambda>_ _ _ _. 1, waw_latency = \<lambda>_ _ _ _ _. 1, paw_latency = \<lambda>_ _. 13,
     worst_latency = \<lambda>op _. case op of OtherOp (IntAlu _) _ _ \<Rightarrow> 13 | _ \<Rightarrow> 4\<rparr>"

definition demo_reg :: "RegFile \<Rightarrow> u32 \<Rightarrow> RegRef" where "demo_reg f i = the (RegRef_new f i 1)"

text \<open>\<^verbatim>\<open>mov\<close> under a guard, \<^verbatim>\<open>isetp\<close> and a plain \<^verbatim>\<open>mov\<close>.\<close>

definition demo_mov :: "PredRef \<Rightarrow> u32 \<Rightarrow> u32 \<Rightarrow> Instr" where
  "demo_mov p d s = (instr_new (OtherOp (MoveOp Mov) [DstReg (demo_reg GPR d)] [src_of_ref (SrReg (demo_reg GPR s))]))
     \<lparr>in_pred := \<lparr>predicate = p, inverted = False\<rparr>\<rparr>"

definition demo_isetp :: Instr where
  "demo_isetp = instr_new (OtherOp (IntAlu ISetP) [DstReg (demo_reg Pred 0)]
     [src_of_ref (SrReg (demo_reg GPR 0)), src_of_ref (SrReg (demo_reg GPR 3))])"

definition demo_p0 :: PredRef where "demo_p0 = PrReg (demo_reg Pred 0)"

definition demo_block :: "Instr list" where
  "demo_block = [demo_mov PrNone 0 1, demo_mov PrNone 5 2, demo_isetp]"

lemma demo_sched: "sched_buffer demo_sm demo_block = Some ([demo_mov PrNone 0 1, demo_isetp, demo_mov PrNone 5 2], 17)"
  by code_simp

lemma demo_tracked: "tracked (demo_block ! 0) (demo_block ! 2)" "\<not> tracked (demo_block ! 1) (demo_block ! 2)"
  by code_simp+

lemma demo_kept: "guards_kept demo_block"
proof -
  have "guarded (demo_mov PrNone 0 1) = {}" "guarded (demo_mov PrNone 5 2) = {}" "guarded demo_isetp = {}" by code_simp+
  then have "\<forall>i<length demo_block. guarded (demo_block ! i) = {}"
    by (simp add: demo_block_def less_Suc_eq)
  then show ?thesis by (auto simp: guards_kept_def)
qed

text \<open>A machine: where the guard holds, the sum of the sources goes to every cell written.\<close>

definition sum_machine :: "Instr \<Rightarrow> (nat, unit) Machine \<Rightarrow> (nat, unit) Machine" where
  "sum_machine i s =
     (\<lambda>x. if x \<in> written i \<and> (\<forall>g \<in> guarded i. fst s g \<noteq> 0) then \<Sum>y \<in> sourced i. fst s y else fst s x, snd s)"

lemma sum_machine_confined: "confined sum_machine i"
proof -
  have "(\<Sum>y \<in> sourced i. R y) = (\<Sum>y \<in> sourced i. R' y)" if "\<forall>x \<in> sourced i \<union> guarded i \<union> written i. R x = R' x" for R R' :: "RegCell \<Rightarrow> nat"
    using that by (intro sum.cong) auto
  then show ?thesis by (auto simp: confined_def sum_machine_def)
qed

definition demo_sched_fn :: "Instr list \<Rightarrow> Function" where
  "demo_sched_fn instrs = \<lparr>fn_ssa_alloc = sa_new, fn_phi_alloc = pa_new,
     fn_blocks = cfg_default\<lparr>cfg_blocks := [\<lparr>bb_label = 0, bb_uniform = True, bb_instrs = instrs\<rparr>]\<rparr>\<rparr>"

lemma demo_postpass:
  "opt_instr_sched_postpass demo_sm (\<lambda>_ _. Some 1) (demo_sched_fn demo_block) =
     Some (demo_sched_fn [demo_mov PrNone 0 1, demo_isetp, demo_mov PrNone 5 2], 17)"
  by (simp add: opt_instr_sched_postpass_def demo_sched_fn_def cfg_default_def sched_block_def demo_sched demo_block_def [symmetric] Let_def)
    (simp add: demo_block_def)

subsection \<open>Properties\<close>

text \<open>
  Property C2.  A schedule is a permutation of the block that keeps the order of every two instructions the
  scheduler tracks: a barrier and anything, two memory operations, a write and a later read as source or
  guard, a source and a later write, two writes of the same cell.
\<close>

theorem sched_keeps_dependencies:
  assumes "sched_buffer sm instrs = Some (instrs', cycles)"
  shows "\<exists>order. distinct order \<and> set order = {..<length instrs} \<and> instrs' = map ((!) instrs) order \<and>
    (\<forall>i j. i < j \<and> j < length instrs \<and> tracked (instrs ! i) (instrs ! j) \<longrightarrow> list_before order i j)"
  using assms by (rule sched_keeps_order)

theorem sched_keeps_dependencies_witness:
  "\<exists>order. distinct order \<and> set order = {..<3} \<and> list_before order 0 2 \<and>
     [demo_mov PrNone 0 1, demo_isetp, demo_mov PrNone 5 2] = map ((!) demo_block) order"
proof -
  have l: "length demo_block = 3" by (simp add: demo_block_def)
  obtain order where o: "distinct order" "set order = {..<length demo_block}"
    and m: "[demo_mov PrNone 0 1, demo_isetp, demo_mov PrNone 5 2] = map ((!) demo_block) order"
    and b: "\<forall>i j. i < j \<and> j < length demo_block \<and> tracked (demo_block ! i) (demo_block ! j) \<longrightarrow> list_before order i j"
    by (rule exE [OF sched_keeps_dependencies [OF demo_sched]]) (elim conjE, rule that)
  have "list_before order 0 2" by (rule b [rule_format]) (intro conjI demo_tracked(1), simp_all add: l)
  then show ?thesis using o m unfolding l by (intro exI [of _ order] conjI)
qed

text \<open>
  Property C1.  Under two conditions the scheduler keeps what a function does: an execution of instructions is
  confined to the cells of their operands, and no instruction writes the guard of an earlier one of its
  block unless some other dependency keeps it behind (\<^term>\<open>guards_kept\<close>; without it the pass can break the
  program, as \<^verbatim>\<open>guard_war_lost\<close> shows).  Then every block of the rescheduled function has the same
  instructions, labels and edges, and takes every machine state to the same state.
\<close>

theorem postpass_preserves_run:
  assumes "opt_instr_sched_postpass sm weight f = Some (f', n)"
    and "\<forall>b\<in>set (cfg_blocks (fn_blocks f)). guards_kept (bb_instrs b) \<and> (\<forall>i\<in>set (bb_instrs b). confined exec i)"
  shows "\<exists>bs. f' = f\<lparr>fn_blocks := (fn_blocks f)\<lparr>cfg_blocks := bs\<rparr>\<rparr> \<and>
    list_all2 (\<lambda>b' b. bb_label b' = bb_label b \<and> bb_uniform b' = bb_uniform b \<and> mset (bb_instrs b') = mset (bb_instrs b) \<and>
      fold exec (bb_instrs b') = fold exec (bb_instrs b)) bs (cfg_blocks (fn_blocks f))"
proof -
  let ?bs = "cfg_blocks (fn_blocks f)"
  obtain bs where f': "f' = f\<lparr>fn_blocks := (fn_blocks f)\<lparr>cfg_blocks := bs\<rparr>\<rparr>" and l: "length bs = length ?bs"
    and s: "\<forall>i<length bs. \<exists>instrs c. sched_buffer sm (bb_instrs (?bs ! i)) = Some (instrs, c) \<and> bs ! i = (?bs ! i)\<lparr>bb_instrs := instrs\<rparr>"
    using postpass_blocks [OF assms(1)] by blast
  have "bb_label (bs ! i) = bb_label (?bs ! i) \<and> bb_uniform (bs ! i) = bb_uniform (?bs ! i) \<and>
      mset (bb_instrs (bs ! i)) = mset (bb_instrs (?bs ! i)) \<and> fold exec (bb_instrs (bs ! i)) = fold exec (bb_instrs (?bs ! i))"
    if i: "i < length bs" for i
  proof -
    obtain instrs c where b: "sched_buffer sm (bb_instrs (?bs ! i)) = Some (instrs, c)" "bs ! i = (?bs ! i)\<lparr>bb_instrs := instrs\<rparr>"
      using s i by blast
    have "?bs ! i \<in> set ?bs" using i l by simp
    then have "fold exec instrs = fold exec (bb_instrs (?bs ! i))"
      using assms(2) sched_preserves_run [OF b(1), of exec] unfolding guards_kept_def by blast
    then show ?thesis using b(2) sched_same_instrs [OF b(1)] by simp
  qed
  then have "list_all2 (\<lambda>b' b. bb_label b' = bb_label b \<and> bb_uniform b' = bb_uniform b \<and> mset (bb_instrs b') = mset (bb_instrs b) \<and>
      fold exec (bb_instrs b') = fold exec (bb_instrs b)) bs ?bs"
    using l by (simp add: list_all2_conv_all_nth)
  with f' show ?thesis by blast
qed

theorem postpass_preserves_run_witness:
  "fold sum_machine [demo_mov PrNone 0 1, demo_isetp, demo_mov PrNone 5 2] = fold sum_machine demo_block"
proof -
  have "\<exists>bs. demo_sched_fn [demo_mov PrNone 0 1, demo_isetp, demo_mov PrNone 5 2] =
      (demo_sched_fn demo_block)\<lparr>fn_blocks := (fn_blocks (demo_sched_fn demo_block))\<lparr>cfg_blocks := bs\<rparr>\<rparr> \<and>
    list_all2 (\<lambda>b' b. bb_label b' = bb_label b \<and> bb_uniform b' = bb_uniform b \<and> mset (bb_instrs b') = mset (bb_instrs b) \<and>
      fold sum_machine (bb_instrs b') = fold sum_machine (bb_instrs b)) bs (cfg_blocks (fn_blocks (demo_sched_fn demo_block)))"
    by (rule postpass_preserves_run [OF demo_postpass])
      (simp add: demo_sched_fn_def cfg_default_def demo_kept sum_machine_confined)
  then show ?thesis by (auto simp: demo_sched_fn_def cfg_default_def)
qed

text \<open>
  The condition on guards is needed: a later write of a guard is not kept behind the instruction it guards.
  With latencies as on hardware where predicates are slow, \<^verbatim>\<open>@P0 mov\<close> followed by a write of \<^verbatim>\<open>P0\<close> is
  scheduled after that write, and takes the new value as its guard.
\<close>

lemma guard_war_lost:
  "sched_buffer demo_sm [demo_mov demo_p0 4 0, demo_isetp] = Some ([demo_isetp, demo_mov demo_p0 4 0], 13) \<and>
   guarded (demo_mov demo_p0 4 0) \<inter> written demo_isetp \<noteq> {}"
  by code_simp

end
