(* ===== verification/SchedTotal.thy ===== *)
theory SchedTotal
  imports SchedRun
begin

text \<open>
  Scheduling a block returns.  Cycle counts grow by at most two latencies per instruction, and a node has few
  edges, so that no sum overflows; the loop ends because each time jump is followed by a choice.
\<close>

subsection \<open>Bounds\<close>

text \<open>Latencies up to \<^term>\<open>L\<close>, at most \<^term>\<open>C\<close> cells written and at most \<^term>\<open>C\<close> read per instruction.\<close>

definition latencies_le :: "'a SchedModel_scheme \<Rightarrow> nat \<Rightarrow> bool" where
  "latencies_le sm L \<longleftrightarrow>
     (\<forall>op i. worst_latency sm op i \<le> L \<and> paw_latency sm op i \<le> L \<and> exec_latency_of sm op \<le> L) \<and>
     (\<forall>op i op' j. raw_latency sm op i op' j \<le> L \<and> war_latency sm op i op' j \<le> L \<and> (\<forall>p. waw_latency sm op i p op' j \<le> L))"

definition schedulable :: "'a SchedModel_scheme \<Rightarrow> nat \<Rightarrow> Instr \<Rightarrow> bool" where
  "schedulable sm C i \<longleftrightarrow>
     estimate_variable_latency sm (in_op i) \<noteq> None \<and>
     (case (dst_cells i, src_cells i, pred_cells i) of
        (Some ds, Some ss, Some ps) \<Rightarrow> length ds \<le> C \<and> length ss + length ps \<le> C | _ \<Rightarrow> False)"

lemma estimate_le: "estimate_variable_latency sm op = Some l \<Longrightarrow> l \<le> 200"
proof -
  have "opcode_variable_latency s c = Some l \<Longrightarrow> l \<le> 200" for s c
    by (cases c) (auto simp: panic_simps split: if_splits)
  then show "estimate_variable_latency sm op = Some l \<Longrightarrow> l \<le> 200"
    by (auto simp: estimate_variable_latency_def split: if_splits Op.splits)
qed

text \<open>Nodes gain edges at one end only.\<close>

definition extends :: "nat \<Rightarrow> nat \<Rightarrow> nat \<Rightarrow> DepGraph \<Rightarrow> DepGraph \<Rightarrow> bool" where
  "extends t L k g g' \<longleftrightarrow>
     (\<exists>es. g' = g[t := (g ! t)\<lparr>dn_edges := dn_edges (g ! t) @ es\<rparr>] \<and> length es \<le> k \<and> (\<forall>e\<in>set es. de_latency e \<le> L))"

lemma extends_refl: "extends t L 0 g g"
  unfolding extends_def by (intro exI [of _ "[]"]) simp

lemma extends_mono: "extends t L k g g' \<Longrightarrow> k \<le> k' \<Longrightarrow> extends t L k' g g'"
  unfolding extends_def by (metis order_trans)

lemma extends_length: "extends t L k g g' \<Longrightarrow> length g' = length g"
  unfolding extends_def by auto

lemma extends_trans:
  assumes "extends t L k g g1" and "extends t L m g1 g2" and "t < length g"
  shows "extends t L (k + m) g g2"
proof -
  obtain es where 1: "g1 = g[t := (g ! t)\<lparr>dn_edges := dn_edges (g ! t) @ es\<rparr>]" "length es \<le> k" "\<forall>e\<in>set es. de_latency e \<le> L"
    using assms(1) by (auto simp: extends_def)
  obtain fs where 2: "g2 = g1[t := (g1 ! t)\<lparr>dn_edges := dn_edges (g1 ! t) @ fs\<rparr>]" "length fs \<le> m" "\<forall>e\<in>set fs. de_latency e \<le> L"
    using assms(2) by (auto simp: extends_def)
  show ?thesis unfolding extends_def using 1 2 assms(3) by (intro exI [of _ "es @ fs"]) auto
qed

lemma add_edge_total:
  "t < length g \<Longrightarrow> h < length g \<Longrightarrow> l \<le> L \<Longrightarrow> \<exists>g'. dg_add_edge t h l g = Some g' \<and> extends t L 1 g g'"
  unfolding dg_add_edge_def extends_def by (auto intro!: exI [of _ "[\<lparr>de_latency = l, de_head = h\<rparr>]"])

lemma foldM_extends:
  assumes "\<And>x g. x \<in> set xs \<Longrightarrow> length g = n \<Longrightarrow> \<exists>g'. f x g = Some g' \<and> extends t L k g g'"
    and "length g = n" and "t < n"
  shows "\<exists>g'. foldM f xs g = Some g' \<and> extends t L (k * length xs) g g'"
  using assms
proof (induction xs arbitrary: g)
  case (Cons x xs)
  obtain g1 where f: "f x g = Some g1" and e: "extends t L k g g1" using Cons.prems(1) [of x g] Cons.prems(2) by auto
  have l: "length g1 = n" using extends_length [OF e] Cons.prems(2) by simp
  have "\<exists>g'. foldM f xs g1 = Some g' \<and> extends t L (k * length xs) g1 g'"
    by (rule Cons.IH [OF _ l Cons.prems(3)]) (use Cons.prems(1) in auto)
  then obtain g' where "foldM f xs g1 = Some g'" "extends t L (k * length xs) g1 g'" by blast
  then show ?case using f extends_trans [OF e, of "k * length xs" g'] Cons.prems(2,3) by simp
qed (simp add: extends_refl)

lemma dst_edges_total:
  assumes est: "estimate_variable_latency sm (in_op (instrs ! ip)) = Some est"
    and L: "latencies_le sm L" "200 \<le> L" and len: "length g = n" "ip < n"
    and h: "set_option (write_ip u) \<subseteq> {..<n}" "read_ips u \<subseteq> {..<n}" and r: "length (ru_reads u) \<le> r"
  shows "\<exists>g'. dep_dst_edges sm instrs ip i u g = Some g' \<and> extends ip L (1 + r) g g'"
proof -
  let ?op = "in_op (instrs ! ip)"
  note l = L(1) [unfolded latencies_le_def]
  have e: "est \<le> L" using estimate_le [OF est] L(2) by simp
  have "\<exists>g1. (case ru_write u of None \<Rightarrow> Some g | Some (w_ip, w_dst_idx) \<Rightarrow> dg_add_edge ip w_ip
        (sb_latency sm ?op (waw_latency sm ?op i (predicate (in_pred (instrs ! ip)) \<noteq> PrNone) (in_op (instrs ! w_ip)) w_dst_idx)) g) = Some g1 \<and>
      extends ip L 1 g g1"
  proof (cases "ru_write u")
    case None
    then show ?thesis using extends_mono [OF extends_refl, of 1] by auto
  next
    case (Some p)
    obtain w j where p: "p = (w, j)" by (cases p)
    have "w < n" using h(1) Some p by (simp add: write_ip_def)
    moreover have "sb_latency sm ?op (waw_latency sm ?op i (predicate (in_pred (instrs ! ip)) \<noteq> PrNone) (in_op (instrs ! w)) j) \<le> L"
      using l L(2) by (simp add: sb_latency_def)
    ultimately show ?thesis using add_edge_total [of ip g w] len Some p by simp
  qed
  then obtain g1 where g1: "(case ru_write u of None \<Rightarrow> Some g | Some (w_ip, w_dst_idx) \<Rightarrow> dg_add_edge ip w_ip
        (sb_latency sm ?op (waw_latency sm ?op i (predicate (in_pred (instrs ! ip)) \<noteq> PrNone) (in_op (instrs ! w_ip)) w_dst_idx)) g) = Some g1"
      and x1: "extends ip L 1 g g1" by blast
  let ?F = "\<lambda>(r_ip, r_src_idx) g. do { est \<leftarrow> estimate_variable_latency sm ?op;
            dg_add_edge ip r_ip (max (case r_src_idx of None \<Rightarrow> paw_latency sm ?op i
                    | Some src \<Rightarrow> raw_latency sm ?op i (in_op (instrs ! r_ip)) src) est) g }"
  have "\<exists>g2. foldM ?F (ru_reads u) g1 = Some g2 \<and> extends ip L (1 * length (ru_reads u)) g1 g2"
  proof (rule foldM_extends [of _ n])
    fix p and g :: DepGraph assume p: "p \<in> set (ru_reads u)" and g: "length g = n"
    obtain q s where qs: "p = (q, s)" by (cases p)
    have "q < n" using h(2) p qs by (auto simp: read_ips_def)
    moreover have "max (case s of None \<Rightarrow> paw_latency sm ?op i | Some src \<Rightarrow> raw_latency sm ?op i (in_op (instrs ! q)) src) est \<le> L"
      using l e by (auto split: option.splits)
    ultimately show "\<exists>g'. ?F p g = Some g' \<and> extends ip L 1 g g'"
      using add_edge_total [of ip g q] len g qs est by simp
  qed (use len extends_length [OF x1] in auto)
  then obtain g2 where g2: "foldM ?F (ru_reads u) g1 = Some g2" and x2: "extends ip L (length (ru_reads u)) g1 g2" by auto
  have "extends ip L (1 + length (ru_reads u)) g g2" using extends_trans [OF x1 x2] len by simp
  then show ?thesis using g1 g2 extends_mono [of ip L _ g g2 "1 + r"] r unfolding dep_dst_edges_def Let_def by auto
qed

lemma src_edges_total:
  assumes L: "latencies_le sm L" "200 \<le> L" and len: "length g = n" "ip < n" and h: "set_option (write_ip u) \<subseteq> {..<n}"
  shows "\<exists>g'. dep_src_edges sm instrs ip i u g = Some g' \<and> extends ip L 1 g g'"
proof (cases "ru_write u")
  case None
  then show ?thesis using extends_mono [OF extends_refl, of 1] by (auto simp: dep_src_edges_def)
next
  case (Some p)
  obtain w j where p: "p = (w, j)" by (cases p)
  have "w < n" using h Some p by (simp add: write_ip_def)
  moreover have "sb_latency sm (in_op (instrs ! ip)) (war_latency sm (in_op (instrs ! ip)) i (in_op (instrs ! w)) j) \<le> L"
    using L by (simp add: sb_latency_def latencies_le_def)
  ultimately show ?thesis using add_edge_total [of ip g w] len Some p by (simp add: dep_src_edges_def Let_def)
qed

lemma side_effect_total:
  assumes len: "length (ds_graph s) = n" "ip < n" "length instrs = n"
    and b: "set_option (ds_barrier s) \<subseteq> {..<n}" and m: "set_option (ds_memory s) \<subseteq> {..<n}"
  shows "\<exists>s'. dep_side_effect instrs ip s = Some s' \<and> extends ip L n (ds_graph s) (ds_graph s') \<and> ds_uses s' = ds_uses s"
proof (cases "side_effect_type (in_op (instrs ! ip))")
  case SeNone
  then show ?thesis using extends_mono [OF extends_refl, of n] by (simp add: dep_side_effect_def)
next
  case SeMemory
  have "\<exists>g. (case ds_memory s of None \<Rightarrow> Some (ds_graph s) | Some m \<Rightarrow> dg_add_edge ip m 0 (ds_graph s)) = Some g \<and> extends ip L n (ds_graph s) g"
  proof (cases "ds_memory s")
    case None
    then show ?thesis using extends_mono [OF extends_refl, of n] by simp
  next
    case (Some m)
    then show ?thesis using add_edge_total [of ip "ds_graph s" m 0 L] len extends_mono [of ip L 1 "ds_graph s" _ n] assms(5) by auto
  qed
  then show ?thesis using SeMemory by (auto simp: dep_side_effect_def)
next
  case SeBarrier
  let ?l = "[ip + 1..<case ds_barrier s of None \<Rightarrow> length instrs | Some b \<Rightarrow> b]"
  have x: "\<forall>x\<in>set ?l. x < n" using b len by (auto split: option.splits)
  have "\<exists>g. foldM (\<lambda>other g. dg_add_edge ip other 0 g) ?l (ds_graph s) = Some g \<and> extends ip L (1 * length ?l) (ds_graph s) g"
    by (rule foldM_extends [of _ n]) (use x len add_edge_total in auto)
  moreover have "length ?l \<le> n" using b len by (auto split: option.splits)
  ultimately show ?thesis using SeBarrier extends_mono [of ip L "length ?l" "ds_graph s" _ n] by (auto simp: dep_side_effect_def)
qed

text \<open>The reads recorded for a cell, and the step as a whole.\<close>

lemma dep_track_reads:
  "length (ru_reads (dep_track ip ds ps ss uses x)) \<le> length (ru_reads (uses x)) + (length ss + length ps)"
proof -
  have 1: "length (ru_reads (fold (\<lambda>(i, x). track x (set_write (ip, i))) ds u x)) \<le> length (ru_reads (u x))" for u
  proof (induction ds arbitrary: u)
    case (Cons d ds)
    obtain i y where d: "d = (i, y)" by (cases d)
    have "length (ru_reads (track y (set_write (ip, i)) u x)) \<le> length (ru_reads (u x))" by (simp add: track_def set_write_def)
    then show ?case using Cons [of "track y (set_write (ip, i)) u"] d by simp
  qed simp
  have 2: "length (ru_reads (fold (\<lambda>x. track x (add_read (ip, None))) ps u x)) \<le> length (ru_reads (u x)) + length ps" for u
  proof (induction ps arbitrary: u)
    case (Cons y ps)
    have "length (ru_reads (track y (add_read (ip, None)) u x)) \<le> length (ru_reads (u x)) + 1" by (simp add: track_def add_read_def)
    then show ?case using Cons [of "track y (add_read (ip, None)) u"] by simp
  qed simp
  have 3: "length (ru_reads (fold (\<lambda>(i, x). track x (add_read (ip, Some i))) ss u x)) \<le> length (ru_reads (u x)) + length ss" for u
  proof (induction ss arbitrary: u)
    case (Cons d ss)
    obtain i y where d: "d = (i, y)" by (cases d)
    have "length (ru_reads (track y (add_read (ip, Some i)) u x)) \<le> length (ru_reads (u x)) + 1" by (simp add: track_def add_read_def)
    then show ?case using Cons [of "track y (add_read (ip, Some i)) u"] d by simp
  qed simp
  show ?thesis unfolding dep_track_def
    using 1 [of uses] 2 [of "fold (\<lambda>(i, x). track x (set_write (ip, i))) ds uses"]
      3 [of "fold (\<lambda>x. track x (add_read (ip, None))) ps (fold (\<lambda>(i, x). track x (set_write (ip, i))) ds uses)"] by linarith
qed

definition edge_bound :: "nat \<Rightarrow> nat \<Rightarrow> nat" where
  "edge_bound C n = 1 + n + (1 + C * n) * C + C"

definition label_ok :: "nat \<Rightarrow> NodeLabel \<Rightarrow> bool" where
  "label_ok L l \<longleftrightarrow> exec_latency l \<le> L \<and> ready_cycle l \<le> 2 * L"

lemma fold_max_le: "\<forall>x\<in>set xs. x \<le> b \<Longrightarrow> a \<le> b \<Longrightarrow> fold max xs a \<le> b" for a b :: nat
  by (induction xs arbitrary: a) auto

lemma dep_label_total:
  assumes "estimate_variable_latency sm (in_op (instrs ! ip)) = Some est"
    and L: "latencies_le sm L" "200 \<le> L" and "2 * L < 2 ^ 32"
  shows "\<exists>l'. dep_label sm instrs ip l = Some l' \<and> label_ok L l'"
proof -
  note l = L(1) [unfolded latencies_le_def]
  have e: "est + exec_latency_of sm (in_op (last instrs)) \<le> 2 * L"
    using estimate_le [OF assms(1)] l L(2) by (metis add_le_mono mult_2 order_trans)
  have w: "fold max (map (worst_latency sm (in_op (instrs ! ip))) [0..<length (op_dsts (in_op (instrs ! ip)))]) 0 \<le> 2 * L"
    by (rule fold_max_le) (use l in \<open>auto simp: trans_le_add1 mult_2\<close>)
  have "cycles_add est (exec_latency_of sm (in_op (last instrs))) = Some (est + exec_latency_of sm (in_op (last instrs)))"
    using e assms(4) by (simp add: cycles_add_def fits_u32_def)
  then show ?thesis using assms(1) e w l by (simp add: dep_label_def Let_def label_ok_def)
qed

lemma dep_step_total:
  assumes inv: "reaches instrs (Suc ip) s" and ip: "ip < length instrs"
    and sch: "schedulable sm C (instrs ! ip)" and L: "latencies_le sm L" "200 \<le> L" "2 * L < 2 ^ 32"
    and reads: "\<forall>x. length (ru_reads (ds_uses s x)) \<le> C * (length instrs - Suc ip)"
  shows "\<exists>s' g l. dep_step sm instrs ip s = Some s' \<and> extends ip L (edge_bound C (length instrs)) (ds_graph s) g \<and>
    ds_graph s' = g[ip := (g ! ip)\<lparr>dn_label := l\<rparr>] \<and> label_ok L l \<and>
    (\<forall>x. length (ru_reads (ds_uses s' x)) \<le> C * (length instrs - ip))"
proof -
  let ?n = "length instrs" and ?i = "instrs ! ip"
  obtain est where est: "estimate_variable_latency sm (in_op ?i) = Some est" using sch by (auto simp: schedulable_def)
  obtain ds ss ps where c: "dst_cells ?i = Some ds" "src_cells ?i = Some ss" "pred_cells ?i = Some ps"
    and C: "length ds \<le> C" "length ss + length ps \<le> C"
    using sch by (auto simp: schedulable_def split: option.splits)
  note I = inv [unfolded reaches_def]
  have rng: "set_option b \<subseteq> {..<?n}" if "is_first P k ?n b" for P k b using that by (cases b) (auto simp: is_first_def)
  have bar: "set_option (ds_barrier s) \<subseteq> {..<?n}" and mem: "set_option (ds_memory s) \<subseteq> {..<?n}" using I rng by blast+
  have wr: "set_option (write_ip (ds_uses s x)) \<subseteq> {..<?n}" for x
  proof -
    have "is_first (\<lambda>j. x \<in> written (instrs ! j)) (Suc ip) ?n (write_ip (ds_uses s x))" using I by blast
    then show ?thesis by (rule rng)
  qed
  have rd: "read_ips (ds_uses s x) \<subseteq> {..<?n}" for x
  proof -
    have "read_ips (ds_uses s x) = {r. Suc ip \<le> r \<and> r < ?n \<and> x \<in> sourced (instrs ! r) \<union> guarded (instrs ! r) \<and>
            (\<forall>w. Suc ip \<le> w \<and> w < r \<longrightarrow> x \<notin> written (instrs ! w))}" using I by blast
    then show ?thesis by auto
  qed
  have len: "length (ds_graph s) = ?n" using I by simp
  have rC: "length (ru_reads (ds_uses s x)) \<le> C * ?n" for x
    using reads by (meson diff_le_self mult_le_mono2 order_trans)
  have "\<exists>g. (case ds_barrier s of None \<Rightarrow> Some (ds_graph s) | Some b \<Rightarrow> dg_add_edge ip b 0 (ds_graph s)) = Some g \<and> extends ip L 1 (ds_graph s) g"
  proof (cases "ds_barrier s")
    case None
    then show ?thesis using extends_mono [OF extends_refl, of 1] by simp
  next
    case (Some b)
    then show ?thesis using add_edge_total [of ip "ds_graph s" b 0 L] bar len ip by simp
  qed
  then obtain g1 where g1: "(case ds_barrier s of None \<Rightarrow> Some (ds_graph s) | Some b \<Rightarrow> dg_add_edge ip b 0 (ds_graph s)) = Some g1"
    and x1: "extends ip L 1 (ds_graph s) g1" by blast
  have l1: "length g1 = ?n" using extends_length [OF x1] len by simp
  obtain s2 where s2: "dep_side_effect instrs ip (s\<lparr>ds_graph := g1\<rparr>) = Some s2" and x2: "extends ip L ?n g1 (ds_graph s2)" and u2: "ds_uses s2 = ds_uses s"
    using side_effect_total [of "s\<lparr>ds_graph := g1\<rparr>" ?n ip instrs L] l1 ip bar mem by auto
  have l2: "length (ds_graph s2) = ?n" using extends_length [OF x2] l1 by simp
  have "\<exists>g. foldM (\<lambda>(i, x). dep_dst_edges sm instrs ip i (ds_uses s2 x)) ds (ds_graph s2) = Some g \<and> extends ip L ((1 + C * ?n) * length ds) (ds_graph s2) g"
  proof (rule foldM_extends [of _ ?n])
    fix p and g :: DepGraph assume "length g = ?n"
    then show "\<exists>g'. (case p of (i, x) \<Rightarrow> dep_dst_edges sm instrs ip i (ds_uses s2 x)) g = Some g' \<and> extends ip L (1 + C * ?n) g g'"
      using dst_edges_total [OF est L(1,2) _ ip wr rd rC] by (cases p) (simp add: u2)
  qed (use l2 ip in auto)
  then obtain g3 where g3: "foldM (\<lambda>(i, x). dep_dst_edges sm instrs ip i (ds_uses s2 x)) ds (ds_graph s2) = Some g3"
    and x3: "extends ip L ((1 + C * ?n) * length ds) (ds_graph s2) g3" by blast
  have l3: "length g3 = ?n" using extends_length [OF x3] l2 by simp
  have "\<exists>g. foldM (\<lambda>(i, x). dep_src_edges sm instrs ip i (ds_uses s2 x)) ss g3 = Some g \<and> extends ip L (1 * length ss) g3 g"
  proof (rule foldM_extends [of _ ?n])
    fix p and g :: DepGraph assume "length g = ?n"
    then show "\<exists>g'. (case p of (i, x) \<Rightarrow> dep_src_edges sm instrs ip i (ds_uses s2 x)) g = Some g' \<and> extends ip L 1 g g'"
      using src_edges_total [OF L(1,2) _ ip wr] by (cases p) (simp add: u2)
  qed (use l3 ip in auto)
  then obtain g4 where g4: "foldM (\<lambda>(i, x). dep_src_edges sm instrs ip i (ds_uses s2 x)) ss g3 = Some g4"
    and x4: "extends ip L (length ss) g3 g4" by auto
  have l4: "length g4 = ?n" using extends_length [OF x4] l3 by simp
  obtain l where l: "dep_label sm instrs ip (dn_label (g4 ! ip)) = Some l" "label_ok L l"
    using dep_label_total [OF est L] by blast
  have "extends ip L (1 + ?n + (1 + C * ?n) * length ds + length ss) (ds_graph s) g4"
    using extends_trans [OF extends_trans [OF extends_trans [OF x1 x2] x3] x4] len ip by simp
  moreover have "1 + ?n + (1 + C * ?n) * length ds + length ss \<le> edge_bound C ?n"
    unfolding edge_bound_def using C by (intro add_mono mult_le_mono) auto
  ultimately have x: "extends ip L (edge_bound C ?n) (ds_graph s) g4" by (rule extends_mono)
  let ?s' = "s2\<lparr>ds_graph := g4[ip := (g4 ! ip)\<lparr>dn_label := l\<rparr>], ds_uses := dep_track ip ds ps ss (ds_uses s2)\<rparr>"
  have "dep_step sm instrs ip s = Some ?s'"
    using g1 s2 c g3 g4 l4 ip l by (simp add: dep_step_def Let_def)
  moreover have "length (ru_reads (ds_uses ?s' x)) \<le> C * (?n - ip)" for x
  proof -
    have "length (ru_reads (ds_uses ?s' x)) \<le> length (ru_reads (ds_uses s x)) + (length ss + length ps)"
      using dep_track_reads [of ip ds ps ss "ds_uses s2" x] by (simp add: u2)
    also have "\<dots> \<le> C * (?n - Suc ip) + C" using reads [rule_format, of x] C(2) by linarith
    also have "\<dots> = C * (?n - ip)" using ip by (metis Suc_diff_Suc add.commute mult_Suc_right)
    finally show ?thesis .
  qed
  ultimately show ?thesis using x l(2) by (intro exI [of _ ?s'] exI [of _ g4] exI [of _ l]) simp
qed

text \<open>The graph the scheduler needs: edges to later nodes, few of them, and small labels.\<close>

definition node_ok :: "nat \<Rightarrow> nat \<Rightarrow> nat \<Rightarrow> nat \<Rightarrow> DepNode \<Rightarrow> bool" where
  "node_ok L B n i d \<longleftrightarrow>
     label_ok L (dn_label d) \<and> length (dn_edges d) \<le> B \<and> (\<forall>e\<in>set (dn_edges d). de_latency e \<le> L \<and> i < de_head e \<and> de_head e < n)"

lemma generate_dep_graph_total:
  assumes sch: "\<forall>i\<in>set instrs. schedulable sm C i" and L: "latencies_le sm L" "200 \<le> L" "2 * L < 2 ^ 32"
  shows "\<exists>g. generate_dep_graph sm instrs = Some g \<and> length g = length instrs \<and>
    (\<forall>i<length g. node_ok L (edge_bound C (length instrs)) (length g) i (g ! i))"
proof -
  let ?n = "length instrs" and ?B = "edge_bound C (length instrs)"
  let ?P = "\<lambda>k s. reaches instrs k s \<and> (\<forall>x. length (ru_reads (ds_uses s x)) \<le> C * (?n - k)) \<and>
    (\<forall>i<k. dn_edges (ds_graph s ! i) = []) \<and> (\<forall>i. k \<le> i \<and> i < ?n \<longrightarrow> node_ok L ?B ?n i (ds_graph s ! i))"
  have loop: "k \<le> ?n \<Longrightarrow> ?P k s \<Longrightarrow> \<exists>s'. foldM (dep_step sm instrs) (rev [0..<k]) s = Some s' \<and> ?P 0 s'" for k s
  proof (induction k arbitrary: s)
    case (Suc k)
    have inv: "reaches instrs (Suc k) s" and k: "k < ?n" using Suc.prems by auto
    have len: "length (ds_graph s) = ?n" using inv by (simp add: reaches_def)
    obtain s' g l where st: "dep_step sm instrs k s = Some s'" and x: "extends k L ?B (ds_graph s) g"
      and g: "ds_graph s' = g[k := (g ! k)\<lparr>dn_label := l\<rparr>]" and l: "label_ok L l"
      and rd: "\<forall>x. length (ru_reads (ds_uses s' x)) \<le> C * (?n - k)"
      using dep_step_total [OF inv k _ L] sch Suc.prems(2) k by (metis nth_mem)
    have r: "reaches instrs k s'" by (rule dep_step_reaches [OF st inv])
    obtain es where es: "g = (ds_graph s)[k := (ds_graph s ! k)\<lparr>dn_edges := es\<rparr>]" "length es \<le> ?B" "\<forall>e\<in>set es. de_latency e \<le> L"
      using x Suc.prems(2) by (auto simp: extends_def)
    have nk: "ds_graph s' ! k = (ds_graph s ! k)\<lparr>dn_edges := es, dn_label := l\<rparr>" using g es len k by simp
    have "k < de_head e \<and> de_head e < ?n" if "e \<in> set es" for e
    proof -
      have "(k, de_head e) \<in> edge_rel (ds_graph s')"
        using that nk g es len k by (simp add: edge_rel_def heads_nth)
      moreover have "edge_rel (ds_graph s') = edge_rel (ds_graph s) \<union> {k} \<times>
        (set_option (ds_barrier s) \<union> effect_heads (effect_of (instrs ! k)) ?n k (ds_barrier s) (ds_memory s) \<union>
        (\<Union>x\<in>written (instrs ! k). set_option (write_ip (ds_uses s x)) \<union> read_ips (ds_uses s x)) \<union>
        (\<Union>x\<in>sourced (instrs ! k). set_option (write_ip (ds_uses s x))))"
        using dep_step_spec [OF st] by (simp add: adds_edges_def)
      moreover have "(k, de_head e) \<notin> edge_rel (ds_graph s)"
        using Suc.prems(2) k len by (simp add: edge_rel_def heads_nth)
      ultimately have h: "de_head e \<in> set_option (ds_barrier s) \<union> effect_heads (effect_of (instrs ! k)) ?n k (ds_barrier s) (ds_memory s) \<union>
        (\<Union>x\<in>written (instrs ! k). set_option (write_ip (ds_uses s x)) \<union> read_ips (ds_uses s x)) \<union>
        (\<Union>x\<in>sourced (instrs ! k). set_option (write_ip (ds_uses s x)))" by blast
      have rng: "set_option b \<subseteq> {k<..<?n}" if "is_first P (Suc k) ?n b" for P b using that by (cases b) (auto simp: is_first_def)
      note I = inv [unfolded reaches_def]
      have bar: "set_option (ds_barrier s) \<subseteq> {k<..<?n}" and mem: "set_option (ds_memory s) \<subseteq> {k<..<?n}"
        and wr: "\<And>x. set_option (write_ip (ds_uses s x)) \<subseteq> {k<..<?n}"
        using I rng by blast+
      have rds: "read_ips (ds_uses s x) \<subseteq> {k<..<?n}" for x
      proof -
        have "read_ips (ds_uses s x) = {r. Suc k \<le> r \<and> r < ?n \<and> x \<in> sourced (instrs ! r) \<union> guarded (instrs ! r) \<and>
            (\<forall>w. Suc k \<le> w \<and> w < r \<longrightarrow> x \<notin> written (instrs ! w))}" using I by blast
        then show ?thesis by auto
      qed
      have "effect_heads (effect_of (instrs ! k)) ?n k (ds_barrier s) (ds_memory s) \<subseteq> {k<..<?n}"
        using bar mem by (auto simp: effect_heads_def split: SideEffect.splits option.splits)
      then have "de_head e \<in> {k<..<?n}" using h bar wr rds by blast
      then show ?thesis by simp
    qed
    then have ok: "node_ok L ?B ?n k (ds_graph s' ! k)" using es l by (simp add: nk node_ok_def)
    have "?P k s'"
    proof (intro conjI allI impI)
      fix i assume i: "k \<le> i \<and> i < ?n"
      show "node_ok L ?B ?n i (ds_graph s' ! i)"
      proof (cases "i = k")
        case False
        then show ?thesis using i Suc.prems(2) g es by simp
      qed (simp add: ok)
    next
      fix i assume "i < k"
      then show "dn_edges (ds_graph s' ! i) = []" using Suc.prems(2) g es by simp
    qed (use r rd in auto)
    then show ?case using Suc.IH [of s'] Suc.prems(1) st by simp
  qed simp
  let ?s0 = "\<lparr>ds_graph = dg_new ?n, ds_uses = \<lambda>_. ru_new, ds_memory = None, ds_barrier = None\<rparr>"
  have "?P ?n ?s0"
    by (auto simp: reaches_def is_first_def write_ip_def read_ips_def ru_new_def dg_new_def)
  from loop [OF le_refl this] obtain s where s: "foldM (dep_step sm instrs) (rev [0..<?n]) ?s0 = Some s \<and> ?P 0 s" by (rule exE)
  moreover from s have "length (ds_graph s) = ?n" by (simp add: reaches_def)
  ultimately show ?thesis unfolding generate_dep_graph_def by (intro exI [of _ "ds_graph s"]) simp
qed

subsection \<open>Statistics and reversal return\<close>

definition stat_ok :: "nat \<Rightarrow> nat \<Rightarrow> DepNode \<Rightarrow> bool" where
  "stat_ok L n d \<longleftrightarrow> label_ok L (dn_label d) \<and> cycles_to_end (dn_label d) \<le> n * L \<and> (\<forall>e\<in>set (dn_edges d). de_latency e \<le> L)"

lemma max_delay_total:
  assumes i: "i < length g" and ok: "node_ok L B n i (g ! i)" and n: "n = length g" "n * L < 2 ^ 32"
    and c: "\<forall>j. i < j \<and> j < n \<longrightarrow> cycles_to_end (dn_label (g ! j)) \<le> (n - j) * L"
  shows "\<exists>d. max_delay i g = Some d \<and> d \<le> (n - i) * L"
proof -
  let ?f = "\<lambda>e m. assert_then (i < de_head e) (do {
         h \<leftarrow> index g (de_head e); d \<leftarrow> cycles_add (cycles_to_end (dn_label h)) (de_latency e); Some (max m d) })"
  have "\<exists>d. foldM ?f (dn_edges (g ! i)) 0 = Some d \<and> d \<le> (n - i) * L"
  proof (rule foldM_total)
    fix e m assume e: "e \<in> set (dn_edges (g ! i))" and m: "m \<le> (n - i) * L"
    have h: "i < de_head e" "de_head e < n" "de_latency e \<le> L" using ok e by (auto simp: node_ok_def)
    have "cycles_to_end (dn_label (g ! de_head e)) + de_latency e \<le> (n - de_head e) * L + L" using c h by (intro add_mono) auto
    also have "\<dots> = (Suc (n - de_head e)) * L" by simp
    also have "\<dots> \<le> (n - i) * L" using h by (intro mult_le_mono1) auto
    finally have s: "cycles_to_end (dn_label (g ! de_head e)) + de_latency e \<le> (n - i) * L" .
    moreover have "(n - i) * L \<le> n * L" by (intro mult_le_mono1) auto
    ultimately have "cycles_to_end (dn_label (g ! de_head e)) + de_latency e < 2 ^ 32" using n(2) by linarith
    then show "\<exists>d. ?f e m = Some d \<and> d \<le> (n - i) * L"
      using h n m s by (simp add: cycles_add_def fits_u32_def)
  qed simp
  then show ?thesis using i by (simp add: max_delay_def)
qed

lemma calc_statistics_total:
  assumes ok: "\<forall>i<length g. node_ok L B (length g) i (g ! i)" and n: "length g * L < 2 ^ 32" and B: "B < 2 ^ 32"
  shows "\<exists>g' init. calc_statistics g = Some (g', init) \<and> (\<forall>d\<in>set g'. stat_ok L (length g) d)"
proof -
  let ?n = "length g"
  let ?P = "\<lambda>k g'. length g' = ?n \<and> (\<forall>i<?n. node_ok L B ?n i (g' ! i)) \<and>
    (\<forall>i. k \<le> i \<and> i < ?n \<longrightarrow> cycles_to_end (dn_label (g' ! i)) \<le> (?n - i) * L)"
  have loop: "k \<le> ?n \<Longrightarrow> ?P k g0 \<Longrightarrow> \<exists>g' ys. foldM calc_statistics_step (rev [0..<k]) (g0, xs) = Some (g', ys) \<and> ?P 0 g'" for k g0 xs
  proof (induction k arbitrary: g0 xs)
    case (Suc k)
    have k: "k < length g0" "length g0 = ?n" using Suc.prems by auto
    have "\<exists>d. max_delay k g0 = Some d \<and> d \<le> (?n - k) * L"
      by (rule max_delay_total [OF k(1)]) (use Suc.prems(2) k n in \<open>auto simp: Suc_le_eq\<close>)
    then obtain d where d: "max_delay k g0 = Some d" "d \<le> (?n - k) * L" by blast
    have okk: "node_ok L B ?n k (g0 ! k)" using Suc.prems(2) k by simp
    have e: "fits_u32 (length (dn_edges (g0 ! k)))" using okk B by (simp add: node_ok_def fits_u32_def)
    let ?g1 = "g0[k := (g0 ! k)\<lparr>dn_label := (dn_label (g0 ! k))\<lparr>cycles_to_end := d, use_count := length (dn_edges (g0 ! k))\<rparr>\<rparr>]"
    obtain ys where st: "calc_statistics_step k (g0, xs) = Some (?g1, ys)"
      using d k e by (simp add: calc_statistics_step_def dg_map_label_def Let_def)
    have "?P k ?g1"
    proof (intro conjI allI impI)
      fix i assume "i < ?n"
      then show "node_ok L B ?n i (?g1 ! i)" using Suc.prems(2) okk k by (cases "i = k") (auto simp: node_ok_def label_ok_def)
    next
      fix i assume "k \<le> i \<and> i < ?n"
      then show "cycles_to_end (dn_label (?g1 ! i)) \<le> (?n - i) * L"
        using Suc.prems(2) d k by (cases "i = k") auto
    qed (use k in simp)
    then show ?case using Suc.IH [of ?g1 ys] Suc.prems(1) st by simp
  qed auto
  have "?P ?n g" using ok by simp
  from loop [OF le_refl this, of "[]"] obtain g' ys where f: "foldM calc_statistics_step (rev [0..<?n]) (g, []) = Some (g', ys) \<and> ?P 0 g'"
    by (elim exE)
  note P = f [THEN conjunct2]
  have "stat_ok L ?n d" if "d \<in> set g'" for d
  proof -
    have lg: "length g' = ?n" using P by (rule conjunct1)
    from that obtain i where i': "i < length g'" and d: "d = g' ! i" unfolding in_set_conv_nth by blast
    have i: "i < ?n" "d = g' ! i" using i' d unfolding lg .
    have "node_ok L B ?n i (g' ! i)" by (rule P [THEN conjunct2, THEN conjunct1, rule_format, OF i(1)])
    moreover have "cycles_to_end (dn_label (g' ! i)) \<le> (?n - i) * L"
      by (rule P [THEN conjunct2, THEN conjunct2, rule_format]) (intro conjI le0 i(1))
    moreover have "(?n - i) * L \<le> ?n * L" by (intro mult_le_mono1) auto
    ultimately show ?thesis unfolding i(2) stat_ok_def node_ok_def by (meson order_trans)
  qed
  then show ?thesis using f [THEN conjunct1] unfolding calc_statistics_def by blast
qed

lemma add_edge_stat:
  assumes "t < length g" and "h < length g" and "l \<le> L" and "\<forall>d\<in>set g. stat_ok L n d"
  shows "\<exists>g'. dg_add_edge t h l g = Some g' \<and> length g' = length g \<and> (\<forall>d\<in>set g'. stat_ok L n d)"
proof -
  let ?d = "(g ! t)\<lparr>dn_edges := dn_edges (g ! t) @ [\<lparr>de_latency = l, de_head = h\<rparr>]\<rparr>"
  have "stat_ok L n (g ! t)" using assms by simp
  then have "stat_ok L n ?d" using assms(3) by (auto simp: stat_ok_def)
  then have "\<forall>d\<in>set (g[t := ?d]). stat_ok L n d"
    using assms(4) set_update_subset_insert [of g t ?d] by blast
  then show ?thesis using assms(1,2) by (simp add: dg_add_edge_def)
qed

lemma dg_reverse_total:
  assumes ok: "\<forall>d\<in>set g. stat_ok L n d" and up: "\<forall>i<length g. \<forall>h\<in>set (heads g ! i). h < length g"
  shows "\<exists>g'. dg_reverse g = Some g' \<and> (\<forall>d\<in>set g'. stat_ok L n d)"
proof -
  let ?P = "\<lambda>g'. length g' = length g \<and> (\<forall>d\<in>set g'. stat_ok L n d)"
  let ?f = "\<lambda>(tail, es) g. foldM (\<lambda>e g. dg_add_edge (de_head e) tail (de_latency e) g) es g"
  have "\<exists>g'. foldM ?f (List.enumerate 0 (map dn_edges g)) (map (\<lambda>n. n\<lparr>dn_edges := []\<rparr>) g) = Some g' \<and> ?P g'"
  proof (rule foldM_total)
    show "?P (map (\<lambda>n. n\<lparr>dn_edges := []\<rparr>) g)" using ok by (auto simp: stat_ok_def)
  next
    fix p g1 assume p: "p \<in> set (List.enumerate 0 (map dn_edges g))" and P: "?P g1"
    define t where "t = fst p"
    have t: "p = (t, dn_edges (g ! t))" "t < length g" using p by (auto simp: in_set_enumerate_eq t_def prod_eq_iff)
    have "\<exists>g'. foldM (\<lambda>e g. dg_add_edge (de_head e) t (de_latency e) g) (dn_edges (g ! t)) g1 = Some g' \<and> ?P g'"
    proof (rule foldM_total)
      fix e g2 assume e: "e \<in> set (dn_edges (g ! t))" and P2: "?P g2"
      have "de_head e \<in> set (heads g ! t)" using e t by (simp add: heads_nth)
      then have "de_head e < length g2" using up t P2 by simp
      moreover have "de_latency e \<le> L" using ok e t by (meson nth_mem stat_ok_def)
      ultimately show "\<exists>g'. dg_add_edge (de_head e) t (de_latency e) g2 = Some g' \<and> ?P g'"
        using add_edge_stat [of "de_head e" g2 t "de_latency e" L n] P2 t by auto
    qed (rule P)
    then show "\<exists>g'. ?f p g1 = Some g' \<and> ?P g'" using t by simp
  qed
  then show ?thesis by (auto simp: dg_reverse_def)
qed

subsection \<open>The scheduling loop returns\<close>

text \<open>With \<^term>\<open>k\<close> instructions scheduled every time is at most \<^term>\<open>2 * L * (k + 1)\<close>.\<close>

definition timed :: "nat \<Rightarrow> nat \<Rightarrow> nat \<Rightarrow> DepNode \<Rightarrow> bool" where
  "timed L n T d \<longleftrightarrow>
     exec_latency (dn_label d) \<le> L \<and> cycles_to_end (dn_label d) \<le> n * L \<and> ready_cycle (dn_label d) \<le> T \<and>
     (\<forall>e\<in>set (dn_edges d). de_latency e \<le> L \<and> de_head e < n)"

definition timed_state :: "nat \<Rightarrow> nat \<Rightarrow> nat \<Rightarrow> OrderState \<Rightarrow> bool" where
  "timed_state L n T s \<longleftrightarrow>
     length (os_graph s) = n \<and> (\<forall>d\<in>set (os_graph s). timed L n T d) \<and> os_cycle s \<le> T \<and>
     (\<forall>f\<in>set (os_future s). fri_ready_cycle f \<le> T \<and> fri_index f < n) \<and> (\<forall>r\<in>set (os_ready s). ri_index r < n)"

lemma timed_mono: "timed L n T d \<Longrightarrow> T \<le> T' \<Longrightarrow> timed L n T' d"
  by (auto simp: timed_def)

lemma all_update: "\<forall>d\<in>set g. P d \<Longrightarrow> P x \<Longrightarrow> \<forall>d\<in>set (g[i := x]). P d"
  using set_update_subset_insert [of g i x] by blast

lemma bh_pop_members:
  assumes "bh_pop q = Some (x, q')"
  shows "x \<in> set q \<and> set q' \<subseteq> set q \<and> length q' < length q"
proof -
  have "mset q = add_mset x (mset q')" using bh.pop_Some [OF assms] by simp
  then show ?thesis by (metis bh.pop_size [OF assms] insert_iff set_mset_add_mset_insert set_mset_mset size_mset subsetI)
qed

lemma ready_instr_total:
  assumes "i < length g" and "timed L n T (g ! i)" and "Suc n * L < 2 ^ 32"
  shows "\<exists>r. ready_instr_new g i = Some r \<and> ri_index r = i"
proof -
  have "cycles_to_end (dn_label (g ! i)) + exec_latency (dn_label (g ! i)) \<le> n * L + L"
    using assms(2) by (intro add_mono) (auto simp: timed_def)
  then show ?thesis using assms by (simp add: ready_instr_new_def cycles_add_def fits_u32_def)
qed

lemma move_ready_total:
  assumes "timed_state L n T s" and "Suc n * L < 2 ^ 32"
  shows "\<exists>s'. move_ready s = Some s' \<and> timed_state L n T s' \<and>
    (os_ready s \<noteq> [] \<longrightarrow> os_ready s' \<noteq> []) \<and>
    (\<forall>f. bh_peek (os_future s) = Some f \<and> fri_ready_cycle f \<le> os_cycle s \<longrightarrow> os_ready s' \<noteq> [])"
  using assms(1)
proof (induction "length (os_future s)" arbitrary: s rule: less_induct)
  case less
  note t = less.prems [unfolded timed_state_def]
  show ?case
  proof (cases "bh_pop (os_future s)")
    case None
    then have "move_ready s = Some s" by (subst move_ready.simps) simp
    moreover have "bh_peek (os_future s) = None" using None by (simp add: bh.pop_None)
    ultimately show ?thesis using less.prems by simp
  next
    case (Some p)
    obtain f future where p: "p = (f, future)" by (cases p)
    have pk: "bh_peek (os_future s) = Some f" using bh.pop_Some Some p by blast
    have mem: "f \<in> set (os_future s)" "set future \<subseteq> set (os_future s)" "length future < length (os_future s)"
      using bh_pop_members Some p by blast+
    show ?thesis
    proof (cases "os_cycle s < fri_ready_cycle f")
      case True
      then have "move_ready s = Some s" by (subst move_ready.simps) (simp add: Some p)
      then show ?thesis using less.prems True pk by simp
    next
      case False
      have i: "fri_index f < n" using t mem(1) by blast
      have lg: "fri_index f < length (os_graph s)" using i t by simp
      then have "timed L n T (os_graph s ! fri_index f)" using t by simp
      from ready_instr_total [OF lg this assms(2)]
      obtain r where r: "ready_instr_new (os_graph s) (fri_index f) = Some r" "ri_index r = fri_index f" by blast
      let ?s = "s\<lparr>os_ready := bh_push r (os_ready s), os_future := future\<rparr>"
      have "timed_state L n T ?s" using t mem r(2) i by (auto simp: timed_state_def bh_push_def)
      then obtain s' where s': "move_ready ?s = Some s'" "timed_state L n T s'" "os_ready s' \<noteq> []"
        using less.hyps [of ?s] mem(3) by (auto simp: bh_push_def)
      have "move_ready s = move_ready ?s" by (subst move_ready.simps) (simp add: Some p False r(1))
      then show ?thesis using s' by auto
    qed
  qed
qed

lemma release_total:
  assumes "foldM_ok = (\<lambda>g fut. length g = n \<and> (\<forall>d\<in>set g. timed L n T d) \<and> (\<forall>f\<in>set fut. fri_ready_cycle f \<le> T \<and> fri_index f < n))"
    and "foldM_ok g fut" and es: "\<forall>e\<in>set es. de_latency e \<le> L \<and> de_head e < n" and c: "c + L \<le> T" "T < 2 ^ 32"
    and uses: "\<forall>t<n. count_list (map de_head es) t \<le> uses_left g t"
  shows "\<exists>g' fut'. foldM (release_step c) es (g, fut) = Some (g', fut') \<and> foldM_ok g' fut'"
  using assms(2) es uses
proof (induction es arbitrary: g fut)
  case (Cons e es)
  let ?t = "de_head e" and ?l = "dn_label (g ! de_head e)"
  have ok: "length g = n" "\<forall>d\<in>set g. timed L n T d" "\<forall>f\<in>set fut. fri_ready_cycle f \<le> T \<and> fri_index f < n"
    using Cons.prems(1) assms(1) by auto
  have t: "?t < n" and l: "de_latency e \<le> L" using Cons.prems(2) by auto
  have pos: "0 < use_count ?l" using Cons.prems(3) t by (auto simp: uses_left_def)
  have tm: "timed L n T (g ! ?t)" using ok t by simp
  let ?l' = "?l\<lparr>ready_cycle := max (ready_cycle ?l) (c + de_latency e), use_count := use_count ?l - 1\<rparr>"
  let ?g = "g[?t := (g ! ?t)\<lparr>dn_label := ?l'\<rparr>]"
  have "timed L n T ((g ! ?t)\<lparr>dn_label := ?l'\<rparr>)" using tm l c by (auto simp: timed_def)
  then have okg: "\<forall>d\<in>set ?g. timed L n T d" by (rule all_update [OF ok(2)])
  have "\<exists>fut1. release_step c e (g, fut) = Some (?g, fut1) \<and> (\<forall>f\<in>set fut1. fri_ready_cycle f \<le> T \<and> fri_index f < n)"
  proof (cases "use_count ?l - 1 = 0")
    case True
    let ?f = "FutureReadyInstr (max (ready_cycle ?l) (c + de_latency e) - exec_latency ?l) ?t"
    have "fri_ready_cycle ?f \<le> T" using tm l c by (auto simp: timed_def)
    then show ?thesis using True ok t l c pos
      by (auto simp: release_step_def Let_def cycles_add_def fits_u32_def future_ready_instr_new_def bh_push_def)
  next
    case False
    then show ?thesis using ok t l c pos by (auto simp: release_step_def Let_def cycles_add_def fits_u32_def)
  qed
  then obtain fut1 where st: "release_step c e (g, fut) = Some (?g, fut1)"
    and f1: "\<forall>f\<in>set fut1. fri_ready_cycle f \<le> T \<and> fri_index f < n" by blast
  have "foldM_ok ?g fut1" using okg f1 ok assms(1) by simp
  moreover have "\<forall>x<n. count_list (map de_head es) x \<le> uses_left ?g x"
  proof (intro allI impI)
    fix x assume "x < n"
    then show "count_list (map de_head es) x \<le> uses_left ?g x"
      using Cons.prems(3)[rule_format, of x] ok t by (cases "x = ?t") (auto simp: uses_left_def)
  qed
  ultimately show ?case using Cons.IH [of ?g fut1] Cons.prems(2) st by simp
qed simp

lemma schedule_step_total:
  assumes ts: "timed_state L n T s" and i: "i < n" and T: "T + 2 * L < 2 ^ 32"
    and uses: "\<forall>t<n. count_list (heads (os_graph s) ! i) t \<le> uses_left (os_graph s) t"
  shows "\<exists>s'. schedule_step i s = Some s' \<and> timed_state L n (T + 2 * L) s' \<and> os_order s' = os_order s @ [i]"
proof -
  note t = ts [unfolded timed_state_def]
  let ?d = "os_graph s ! i" and ?T = "T + 2 * L"
  let ?ok = "\<lambda>g fut. length g = n \<and> (\<forall>d\<in>set g. timed L n ?T d) \<and> (\<forall>f\<in>set fut. fri_ready_cycle f \<le> ?T \<and> fri_index f < n)"
  have d: "timed L n T ?d" using t i by simp
  define c where "c = os_cycle s + exec_latency (dn_label ?d)"
  have c: "c + L \<le> ?T" using t d by (auto simp: c_def timed_def)
  have ca: "cycles_add (os_cycle s) (exec_latency (dn_label ?d)) = Some c"
    using c T by (simp add: cycles_add_def fits_u32_def c_def)
  let ?g = "(os_graph s)[i := ?d\<lparr>dn_edges := []\<rparr>]"
  have "timed L n ?T (?d\<lparr>dn_edges := []\<rparr>)" using timed_mono [OF d, of ?T] by (simp add: timed_def)
  moreover have "\<forall>d\<in>set (os_graph s). timed L n ?T d" using t timed_mono by (meson le_add1)
  ultimately have "\<forall>d\<in>set ?g. timed L n ?T d" by (intro all_update)
  then have "?ok ?g (os_future s)" using t by (simp add: trans_le_add1)
  moreover have "\<forall>x<n. count_list (map de_head (dn_edges ?d)) x \<le> uses_left ?g x"
    using uses t i by (simp add: uses_left_take heads_nth)
  ultimately have "\<exists>g' fut'. foldM (release_step c) (dn_edges ?d) (?g, os_future s) = Some (g', fut') \<and> ?ok g' fut'"
    using d c T by (intro release_total [OF refl]) (auto simp: timed_def)
  then obtain g' fut' where f: "foldM (release_step c) (dn_edges ?d) (?g, os_future s) = Some (g', fut')" and ok: "?ok g' fut'" by blast
  show ?thesis using f ok ca i t c by (simp add: schedule_step_def timed_state_def)
qed

text \<open>Whether something can be scheduled without moving the time.\<close>

definition can_pick :: "OrderState \<Rightarrow> bool" where
  "can_pick s \<longleftrightarrow> os_ready s \<noteq> [] \<or> (\<exists>f. bh_peek (os_future s) = Some f \<and> fri_ready_cycle f \<le> os_cycle s)"

lemma in_count_member: "h < length E \<Longrightarrow> count_list (E ! h) t \<le> in_count E t"
  unfolding in_count_def by (metis elem_le_sum_list length_map nth_map)

lemma order_loop_total:
  assumes "order_inv E s" and "timed_state L (length E) (2 * L * (length (os_order s) + 1)) s"
    and "2 * L * (length E + 1) < 2 ^ 32"
  shows "\<exists>s'. order_loop s = Some s'"
  using assms(1,2)
proof (induction "2 * (length E - length (os_order s)) + (if can_pick s then 0 else 1)" arbitrary: s rule: less_induct)
  case less
  let ?n = "length E" and ?T = "2 * L * (length (os_order s) + 1)"
  note I = less.prems(1) [unfolded order_inv_def]
  have "Suc ?n * L \<le> 2 * L * (?n + 1)" by simp
  then have bound: "Suc ?n * L < 2 ^ 32" using assms(3) by linarith
  obtain s1 where m: "move_ready s = Some s1" and ts: "timed_state L ?n ?T s1" and rd: "can_pick s \<Longrightarrow> os_ready s1 \<noteq> []"
    using move_ready_total [OF less.prems(2) bound] unfolding can_pick_def by blast
  note M = move_ready_spec [OF m]
  have inv1: "order_inv E s1" using M less.prems(1) by (simp add: order_inv_def)
  show ?case
  proof (cases "bh_pop (os_ready s1)")
    case (Some p)
    obtain r ready where p: "p = (r, ready)" by (cases p)
    let ?i = "ri_index r" and ?s = "s1\<lparr>os_ready := ready\<rparr>"
    have mem: "r \<in> set (os_ready s1)" "set ready \<subseteq> set (os_ready s1)" using bh_pop_members Some p by blast+
    have i: "?i < ?n" using ts mem(1) by (simp add: timed_state_def)
    have "?i \<in># queued s1" using mem(1) by (simp add: queued_def)
    moreover have "finite (candidates ?n (uses_left (os_graph s1)) (os_order s1))" by (simp add: candidates_def)
    ultimately have "?i \<in> candidates ?n (uses_left (os_graph s1)) (os_order s1)" using inv1 by (simp add: order_inv_def)
    then have "?i \<notin> set (os_order s)" using M by (simp add: candidates_def)
    then have "card (insert ?i (set (os_order s))) = Suc (length (os_order s))" using I by (simp add: distinct_card)
    moreover have "card (insert ?i (set (os_order s))) \<le> ?n" using I i by (metis card_lessThan card_mono finite_lessThan insert_subset lessThan_iff)
    ultimately have lt: "length (os_order s) < ?n" by simp
    have "?T + 2 * L = 2 * L * (Suc (length (os_order s)) + 1)" by simp
    moreover have "\<dots> \<le> 2 * L * (?n + 1)" using lt by (intro mult_le_mono2) simp
    ultimately have T: "?T + 2 * L < 2 ^ 32" using assms(3) by linarith
    have "\<forall>t<?n. count_list (heads (os_graph ?s) ! ?i) t \<le> uses_left (os_graph ?s) t"
      using inv1 i in_count_member [of ?i "heads (os_graph s1)"] by (simp add: order_inv_def)
    moreover have "timed_state L ?n ?T ?s" using ts mem(2) by (auto simp: timed_state_def)
    ultimately have "\<exists>s2. schedule_step ?i ?s = Some s2 \<and> timed_state L ?n (?T + 2 * L) s2 \<and> os_order s2 = os_order ?s @ [?i]"
      by (intro schedule_step_total [OF _ i T])
    then obtain s2 where st: "schedule_step ?i ?s = Some s2" and t2: "timed_state L ?n (?T + 2 * L) s2"
      and o2: "os_order s2 = os_order s @ [?i]"
      using M by auto
    have "order_inv E s2" by (rule schedule_step_inv [OF inv1 _ st]) (simp add: Some p)
    moreover have "2 * (?n - length (os_order s2)) + (if can_pick s2 then 0 else 1) < 2 * (?n - length (os_order s)) + (if can_pick s then 0 else 1)"
      using lt o2 by (auto split: if_splits)
    moreover have "timed_state L ?n (2 * L * (length (os_order s2) + 1)) s2" using t2 o2 by (simp add: algebra_simps)
    ultimately obtain s' where "order_loop s2 = Some s'" using less.hyps [of s2] by blast
    then show ?thesis using m Some p st by (subst order_loop.simps) simp
  next
    case None
    then have e: "os_ready s1 = []" by (simp add: bh_pop_def bh_peek_def split: if_splits)
    then have np: "\<not> can_pick s" using rd by blast
    show ?thesis
    proof (cases "bh_peek (os_future s1)")
      case f: None
      then show ?thesis using m None by (subst order_loop.simps) simp
    next
      case (Some f)
      have lt: "os_cycle s1 < fri_ready_cycle f" using M Some by simp
      let ?s = "s1\<lparr>os_cycle := fri_ready_cycle f\<rparr>"
      have "f \<in> set (os_future s1)" using Some bh.peek_Some by fastforce
      then have "timed_state L ?n ?T ?s" using ts by (simp add: timed_state_def)
      moreover have "order_inv E ?s" using inv1 by (simp add: order_inv_def queued_def)
      moreover have "can_pick ?s" using Some by (simp add: can_pick_def)
      ultimately obtain s' where "order_loop ?s = Some s'" using less.hyps [of ?s] np M by auto
      then show ?thesis using m None Some lt by (subst order_loop.simps) simp
    qed
  qed
qed

lemma mapM_returns: "(\<forall>x\<in>set xs. \<exists>y. f x = Some y \<and> P y) \<Longrightarrow> \<exists>ys. mapM f xs = Some ys \<and> (\<forall>y\<in>set ys. P y)"
  by (induction xs) force+

lemma take_instrs_total:
  "distinct is \<Longrightarrow> (\<forall>i\<in>set is. i < length os \<and> os ! i \<noteq> None) \<Longrightarrow> \<exists>r. traverseM take_instr is os = Some r"
proof (induction "is" arbitrary: os)
  case (Cons i "is")
  then obtain x where "i < length os" "os ! i = Some x" by auto
  then have "take_instr i os = Some (x, os[i := None])" by (simp add: take_instr_def)
  moreover have "\<exists>r. traverseM take_instr is (os[i := None]) = Some r"
    by (rule Cons.IH) (use Cons.prems in \<open>auto simp: nth_list_update\<close>)
  ultimately show ?case by auto
qed simp

lemma generate_order_total:
  assumes ok: "\<forall>d\<in>set g. stat_ok L (length g) d" and B: "2 * L * (length g + 1) < 2 ^ 32"
    and uses: "\<forall>t<length g. uses_left g t = in_count (heads g) t"
    and init: "distinct init" "set init = {t. t < length g \<and> uses_left g t = 0}"
    and down: "\<forall>h<length g. \<forall>t\<in>set (heads g ! h). t < h"
  shows "\<exists>r. generate_order g init = Some r"
proof -
  have timed: "\<forall>d\<in>set g. timed L (length g) (2 * L) d"
  proof
    fix d assume d: "d \<in> set g"
    then obtain h where h: "h < length g" "d = g ! h" unfolding in_set_conv_nth by blast
    have "de_head e < length g" if "e \<in> set (dn_edges d)" for e
    proof -
      have "de_head e \<in> set (heads g ! h)" using that h by (simp add: heads_nth)
      then show ?thesis using down h(1) by (meson order.strict_trans)
    qed
    then show "timed L (length g) (2 * L) d" using ok d by (simp add: timed_def stat_ok_def label_ok_def)
  qed
  have "\<exists>fs. mapM (future_ready_instr_new g) init = Some fs \<and> (\<forall>f\<in>set fs. fri_ready_cycle f \<le> 2 * L \<and> fri_index f < length g)"
  proof (rule mapM_returns, rule ballI)
    fix i assume "i \<in> set init"
    then have i: "i < length g" using init(2) by simp
    then have "ready_cycle (dn_label (g ! i)) \<le> 2 * L" using timed by (simp add: timed_def)
    then show "\<exists>f. future_ready_instr_new g i = Some f \<and> fri_ready_cycle f \<le> 2 * L \<and> fri_index f < length g"
      using i by (simp add: future_ready_instr_new_def)
  qed
  then obtain fs where fs: "mapM (future_ready_instr_new g) init = Some fs" "\<forall>f\<in>set fs. fri_ready_cycle f \<le> 2 * L \<and> fri_index f < length g"
    by blast
  have "timed_state L (length g) (2 * L) (order_start g fs)" using timed fs(2) by (simp add: timed_state_def)
  then have "\<exists>s. order_loop (order_start g fs) = Some s"
    using order_loop_total [OF order_start_inv [OF fs(1) uses init], of L] B by simp
  then show ?thesis using fs(1) by (auto simp: generate_order_def)
qed

text \<open>
  Property C3.  Scheduling a block returns: no assertion fails, no index is out of range, no cycle count
  overflows and the loop ends, for latencies up to \<open>L\<close> and instructions with at most \<open>C\<close> cells on each side,
  within the stated bounds.
\<close>

theorem sched_buffer_total:
  assumes sch: "\<forall>i\<in>set instrs. schedulable sm C i" and L: "latencies_le sm L" "200 \<le> L"
    and B: "2 * L * (length instrs + 1) < 2 ^ 32" "edge_bound C (length instrs) < 2 ^ 32"
  shows "\<exists>instrs' cycles. sched_buffer sm instrs = Some (instrs', cycles)"
proof -
  have L2: "2 * L < 2 ^ 32" using B(1) by (simp add: algebra_simps)
  obtain g where g: "generate_dep_graph sm instrs = Some g" and l: "length g = length instrs"
    and ok: "\<forall>i<length g. node_ok L (edge_bound C (length instrs)) (length g) i (g ! i)"
    using generate_dep_graph_total [OF sch L L2] by blast
  have nL: "length g * L < 2 ^ 32" using B(1) l by (simp add: algebra_simps)
  obtain g1 init where st: "calc_statistics g = Some (g1, init)" and s1: "\<forall>d\<in>set g1. stat_ok L (length g) d"
    using calc_statistics_total [OF ok nL B(2)] by blast
  note S = calc_statistics_spec [OF st]
  have "\<forall>i<length g1. \<forall>h\<in>set (heads g1 ! i). h < length g1"
    using S by (metis greaterThanLessThan_iff subsetD)
  then obtain g2 where rv: "dg_reverse g1 = Some g2" and s2: "\<forall>d\<in>set g2. stat_ok L (length g) d"
    using dg_reverse_total [OF s1] by blast
  note R = reversed_graph [OF st rv]
  have "\<exists>r. generate_order g2 init = Some r"
    by (rule generate_order_total [OF _ _ R(2-5)]) (use s2 R(1) B(1) l in auto)
  then obtain new_order cycles where go: "generate_order g2 init = Some (new_order, cycles)" by auto
  have O: "distinct new_order \<and> set new_order = {..<length g2}"
    using generate_order_spec [OF go R(2-5)] by blast
  have "\<exists>r. traverseM take_instr (rev new_order) (map Some instrs) = Some r"
    by (rule take_instrs_total) (use O R(1) l in auto)
  then show ?thesis using g st rv go by (auto simp: sched_buffer_def)
qed

subsection \<open>An example\<close>

lemma demo_schedulable: "list_all (schedulable demo_sm 3) demo_block"
  by code_simp

lemma demo_latencies: "latencies_le demo_sm 200"
  by (auto simp: latencies_le_def demo_sm_def split: Op.splits Opcode.splits)

theorem sched_buffer_total_witness:
  "\<exists>instrs' cycles. sched_buffer demo_sm demo_block = Some (instrs', cycles)"
  by (rule sched_buffer_total [of _ _ 3, OF _ demo_latencies])
    (use demo_schedulable in \<open>simp_all add: list_all_iff edge_bound_def demo_block_def\<close>)

end
