(* ===== verification/Scoreboard.thy ===== *)
theory Scoreboard
  imports SchedRun
begin

text \<open>
  The scoreboard barriers of the hardware, and \<^verbatim>\<open>assign_deps_serial\<close> of \<^verbatim>\<open>codegen/calc_instr_deps/mod.rs\<close>, which
  makes every instruction of a block wait for the earlier ones.  A program is free of hazards when on every run no instruction issues
  while an access it conflicts with is pending; a block that got its barriers serially is, also after it has been
  rescheduled, but a block that is entered by falling through is not.
\<close>

subsection \<open>The scoreboard\<close>

text \<open>
  What the six scoreboard barriers of the hardware are for.  An instruction of variable latency leaves its
  reads and its writes pending; each is attached to the barrier of that field of \<^verbatim>\<open>InstrDeps\<close>, if any.  An
  instruction that waits for a barrier waits for everything attached to it, and the end of the writes of an
  instruction is the end of its reads.  A pending access is the position of its instruction and whether it
  is the write.
\<close>

type_synonym Access = "nat \<times> bool"

definition waits_bar :: "Instr \<Rightarrow> u8 option \<Rightarrow> bool" where
  "waits_bar i b = (case b of None \<Rightarrow> False | Some b \<Rightarrow> bit (wt_bar_mask (in_deps i)) (unat b))"

definition waits_for :: "Instr \<Rightarrow> Instr \<Rightarrow> bool \<Rightarrow> bool" where
  "waits_for i p wr \<longleftrightarrow> waits_bar i (wr_bar (in_deps p)) \<or> \<not> wr \<and> waits_bar i (rd_bar (in_deps p))"

definition touches :: "Instr \<Rightarrow> bool \<Rightarrow> RegCell set" where
  "touches i wr = (if wr then written i else sourced i)"

definition pending_after_wait :: "Instr list \<Rightarrow> nat \<Rightarrow> Access set \<Rightarrow> Access set" where
  "pending_after_wait is q P = Set.filter (\<lambda>(p, wr). \<not> waits_for (is ! q) (is ! p) wr) P"

definition issued :: "'a SchedModel_scheme \<Rightarrow> Instr list \<Rightarrow> nat \<Rightarrow> Access set" where
  "issued sm is q = (if op_needs_scoreboard sm (in_op (is ! q)) then Pair q ` Set.filter (\<lambda>wr. touches (is ! q) wr \<noteq> {}) {True, False} else {})"

text \<open>The runs of a program: on from an instruction to the next, and after a branch anywhere.\<close>

inductive runs_to :: "'a SchedModel_scheme \<Rightarrow> Instr list \<Rightarrow> nat \<Rightarrow> Access set \<Rightarrow> bool" for sm "is" where
  start: "runs_to sm is 0 {}"
| onward: "runs_to sm is q P \<Longrightarrow> q < length is \<Longrightarrow> runs_to sm is (Suc q) (pending_after_wait is q P \<union> issued sm is q)"
| jump: "runs_to sm is q P \<Longrightarrow> q < length is \<Longrightarrow> is_branch (is ! q) \<Longrightarrow> r < length is \<Longrightarrow>
    runs_to sm is r (pending_after_wait is q P \<union> issued sm is q)"

inductive_cases runs_toE: "runs_to sm is q P"

text \<open>An instruction must not issue while a write of what it uses or a read of what it writes is pending.\<close>

definition conflicts :: "Instr \<Rightarrow> bool \<Rightarrow> Instr \<Rightarrow> bool" where
  "conflicts p wr i \<longleftrightarrow> touches p wr \<inter> (if wr then guarded i \<union> sourced i \<union> written i else written i) \<noteq> {}"

definition hazard :: "Instr list \<Rightarrow> nat \<Rightarrow> Access set \<Rightarrow> bool" where
  "hazard is q P \<longleftrightarrow> (\<exists>(p, wr) \<in> pending_after_wait is q P. conflicts (is ! p) wr (is ! q))"

definition hazard_free :: "'a SchedModel_scheme \<Rightarrow> Instr list \<Rightarrow> bool" where
  "hazard_free sm is \<longleftrightarrow> (\<forall>q P. runs_to sm is q P \<longrightarrow> q < length is \<longrightarrow> \<not> hazard is q P)"

text \<open>
  A run is covered by the straight one: when branches wait for everything, what is pending on a run is
  pending at that place on the straight run, of which the earlier instructions are the source.
\<close>

definition pending_straight :: "'a SchedModel_scheme \<Rightarrow> Instr list \<Rightarrow> nat \<Rightarrow> Access set" where
  "pending_straight sm is n = rec_nat {} (\<lambda>q P. pending_after_wait is q P \<union> issued sm is q) n"

lemma pending_straight_simps [simp]:
  "pending_straight sm is 0 = {}"
  "pending_straight sm is (Suc q) = pending_after_wait is q (pending_straight sm is q) \<union> issued sm is q"
  by (simp_all add: pending_straight_def)

lemma pending_after_wait_mono: "P \<subseteq> Q \<Longrightarrow> pending_after_wait is q P \<subseteq> pending_after_wait is q Q"
  by (auto simp: pending_after_wait_def)

lemma runs_to_straight:
  assumes br: "\<And>q. q < length is \<Longrightarrow> is_branch (is ! q) \<Longrightarrow>
      pending_after_wait is q (pending_straight sm is q) \<union> issued sm is q = {}"
    and "runs_to sm is q P"
  shows "P \<subseteq> pending_straight sm is q"
  using assms(2)
proof induction
  case (onward q P)
  then show ?case using pending_after_wait_mono [OF onward.IH, of "is" q] by auto
next
  case (jump q P r)
  have "pending_after_wait is q P \<union> issued sm is q \<subseteq> {}"
    using br [OF jump.hyps(2,3)] pending_after_wait_mono [OF jump.IH, of "is" q] by blast
  then show ?case by simp
qed simp

lemma hazard_free_straight:
  assumes "\<And>q. q < length is \<Longrightarrow> is_branch (is ! q) \<Longrightarrow>
      pending_after_wait is q (pending_straight sm is q) \<union> issued sm is q = {}"
    and "\<And>q. q < length is \<Longrightarrow> \<not> hazard is q (pending_straight sm is q)"
  shows "hazard_free sm is"
  unfolding hazard_free_def
proof (intro allI impI)
  fix q P assume "runs_to sm is q P" and q: "q < length is"
  then have "pending_after_wait is q P \<subseteq> pending_after_wait is q (pending_straight sm is q)"
    by (intro pending_after_wait_mono runs_to_straight [OF assms(1)])
  then show "\<not> hazard is q P" using assms(2) [OF q] unfolding hazard_def by blast
qed

lemma pending_straight_earlier:
  "(p, wr) \<in> pending_straight sm is n \<Longrightarrow>
     p < n \<and> op_needs_scoreboard sm (in_op (is ! p)) \<and> touches (is ! p) wr \<noteq> {} \<and>
     (\<forall>q. p < q \<and> q < n \<longrightarrow> \<not> waits_for (is ! q) (is ! p) wr)"
  by (induction n) (auto simp: issued_def pending_after_wait_def less_Suc_eq split: if_splits)

subsection \<open>Serial dependencies\<close>

text \<open>
  \<^verbatim>\<open>assign_deps_serial\<close>: every instruction signals barrier 0 for its results and barrier 1 for its operands,
  and waits for those signalled before it in the block.
\<close>

fun is_barrier_op :: "Op \<Rightarrow> bool" where
  "is_barrier_op (OtherOp c _ _) = (c \<in> {Misc BarOp, Control BClear, Control BSSy, Control BSync})"
| "is_barrier_op _ = False"

definition map_deps :: "(InstrDeps \<Rightarrow> InstrDeps option) \<Rightarrow> Instr \<Rightarrow> Instr option" where
  "map_deps f i = map_option (\<lambda>d. i\<lparr>in_deps := d\<rparr>) (f (in_deps i))"

definition serial_instr :: "Instr \<Rightarrow> u8 \<Rightarrow> (Instr \<times> u8) option" where
  "serial_instr i wt =
     (if is_barrier_op (in_op i) then Some (i\<lparr>in_deps := (in_deps i)\<lparr>yld := True\<rparr>\<rparr>, wt)
      else if is_branch i then map_option (\<lambda>i. (i, wt)) (map_deps (add_wt_bar_mask 0x3f) i)
      else do {
        i \<leftarrow> map_deps (add_wt_bar_mask wt) i;
        (i, wt) \<leftarrow> (if op_dsts (in_op i) = [] then Some (i, wt)
          else do { i \<leftarrow> map_deps (set_wr_bar 0) i; Some (i, wt OR 1) });
        if predicate (in_pred i) = PrNone \<and> op_srcs (in_op i) = [] then Some (i, wt)
          else do { i \<leftarrow> map_deps (set_rd_bar 1) i; Some (i, wt OR 2) }
      })"

definition serial_block :: "BasicBlock \<Rightarrow> BasicBlock option" where
  "serial_block b = map_option (\<lambda>(is, wt). b\<lparr>bb_instrs := is\<rparr>) (traverseM serial_instr (bb_instrs b) 0)"

text \<open>The blocks are independent of each other, so that their order does not matter.\<close>

definition assign_deps_serial :: "Function \<Rightarrow> Function option" where
  "assign_deps_serial f =
     map_option (\<lambda>bs. f\<lparr>fn_blocks := (fn_blocks f)\<lparr>cfg_blocks := bs\<rparr>\<rparr>) (mapM serial_block (cfg_blocks (fn_blocks f)))"

text \<open>The cells and the side effect of an instruction do not depend on its barriers.\<close>

definition same_op :: "Instr \<Rightarrow> Instr \<Rightarrow> bool" where
  "same_op i j \<longleftrightarrow> in_op i = in_op j \<and> in_pred i = in_pred j"

lemma same_op_cells:
  assumes "same_op i j"
  shows "written i = written j" "sourced i = sourced j" "guarded i = guarded j" "effect_of i = effect_of j"
  using assms
  by (simp_all add: same_op_def written_def sourced_def guarded_def effect_of_def dst_cells_def src_cells_def pred_cells_def)

lemma same_op_simps:
  assumes "same_op i j"
  shows "touches i wr = touches j wr" "tracked i k = tracked j k" "tracked k i = tracked k j" "is_branch i = is_branch j"
  using same_op_cells [OF assms] assms by (simp_all add: touches_def tracked_def is_branch_def same_op_def)

lemma map_deps_same: "map_deps f i = Some j \<Longrightarrow> same_op j i \<and> f (in_deps i) = Some (in_deps j)"
  by (auto simp: map_deps_def same_op_def)

lemma bar_simps [simp]:
  "wr_bar (d\<lparr>wt_bar_mask := m\<rparr>) = wr_bar d" "rd_bar (d\<lparr>wt_bar_mask := m\<rparr>) = rd_bar d"
  "wr_bar (d\<lparr>dep_wr_bar := 0\<rparr>) = Some 0" "rd_bar (d\<lparr>dep_wr_bar := b\<rparr>) = rd_bar d"
  "rd_bar (d\<lparr>dep_rd_bar := 1\<rparr>) = Some 1" "wr_bar (d\<lparr>dep_rd_bar := b\<rparr>) = wr_bar d"
  by (simp_all add: rd_bar_def wr_bar_def)

text \<open>What an instruction signals and waits for after the pass; \<^term>\<open>wt\<close> is what came before it.\<close>

definition signals :: "Instr \<Rightarrow> u8" where
  "signals i = (if op_dsts (in_op i) = [] then 0 else 1) OR (if predicate (in_pred i) = PrNone \<and> op_srcs (in_op i) = [] then 0 else 2)"

definition plain :: "Instr \<Rightarrow> bool" where "plain i \<longleftrightarrow> \<not> is_barrier_op (in_op i) \<and> \<not> is_branch i"

lemma serial_instr_spec:
  assumes "wt < 64"
  shows "\<exists>j. serial_instr i wt = Some (j, if plain i then wt OR signals i else wt) \<and> same_op j i \<and>
    (plain i \<longrightarrow> (\<forall>b. bit wt b \<longrightarrow> bit (wt_bar_mask (in_deps j)) b) \<and>
       (op_dsts (in_op i) \<noteq> [] \<longrightarrow> wr_bar (in_deps j) = Some 0) \<and> (op_srcs (in_op i) \<noteq> [] \<longrightarrow> rd_bar (in_deps j) = Some 1)) \<and>
    (is_branch i \<and> \<not> is_barrier_op (in_op i) \<longrightarrow> (\<forall>b<6. bit (wt_bar_mask (in_deps j)) b))"
proof -
  have six: "bit (63 :: u8) b" if "b < 6" for b
    using that mask_eq_exp_minus_1 [of 6, where 'a = u8] bit_mask_iff [of 6 b, where 'a = u8] by simp
  show ?thesis
    using assms six
    by (auto simp: serial_instr_def plain_def signals_def map_deps_def same_op_def add_wt_bar_mask_def set_wr_bar_def set_rd_bar_def
        bit_or_iff or.assoc)
qed

lemma signals_small: "wt \<in> {0, 1, 2, 3} \<Longrightarrow> wt OR signals i \<in> {0, 1, 2, 3}"
  by (auto simp: signals_def)

lemma small_mask: "wt \<in> {0, 1, 2, 3} \<Longrightarrow> wt < (64 :: u8)"
  by auto

lemma serial_traverse:
  assumes "wt \<in> {0, 1, 2, 3}"
  shows "\<exists>js wt'. traverseM serial_instr is wt = Some (js, wt') \<and> list_all2 same_op js is \<and>
    (\<forall>k<length is. plain (is ! k) \<longrightarrow>
       (\<forall>b. bit wt b \<longrightarrow> bit (wt_bar_mask (in_deps (js ! k))) b) \<and>
       (\<forall>m<k. plain (is ! m) \<longrightarrow> (\<forall>b. bit (signals (is ! m)) b \<longrightarrow> bit (wt_bar_mask (in_deps (js ! k))) b)) \<and>
       (op_dsts (in_op (is ! k)) \<noteq> [] \<longrightarrow> wr_bar (in_deps (js ! k)) = Some 0) \<and>
       (op_srcs (in_op (is ! k)) \<noteq> [] \<longrightarrow> rd_bar (in_deps (js ! k)) = Some 1)) \<and>
    (\<forall>k<length is. is_branch (is ! k) \<and> \<not> is_barrier_op (in_op (is ! k)) \<longrightarrow> (\<forall>b<6. bit (wt_bar_mask (in_deps (js ! k))) b))"
  using assms
proof (induction "is" arbitrary: wt)
  case (Cons i "is")
  define wt1 where "wt1 = (if plain i then wt OR signals i else wt)"
  have w1: "wt1 \<in> {0, 1, 2, 3}" using signals_small [OF Cons.prems] Cons.prems by (simp add: wt1_def)
  obtain j where j: "serial_instr i wt = Some (j, wt1)" "same_op j i"
    and pj: "plain i \<longrightarrow> (\<forall>b. bit wt b \<longrightarrow> bit (wt_bar_mask (in_deps j)) b) \<and>
       (op_dsts (in_op i) \<noteq> [] \<longrightarrow> wr_bar (in_deps j) = Some 0) \<and> (op_srcs (in_op i) \<noteq> [] \<longrightarrow> rd_bar (in_deps j) = Some 1)"
    and bj: "is_branch i \<and> \<not> is_barrier_op (in_op i) \<longrightarrow> (\<forall>b<6. bit (wt_bar_mask (in_deps j)) b)"
    using serial_instr_spec [OF small_mask [OF Cons.prems], of i] unfolding wt1_def by blast
  obtain js wt' where t: "traverseM serial_instr is wt1 = Some (js, wt')" and a: "list_all2 same_op js is"
    and p: "\<forall>k<length is. plain (is ! k) \<longrightarrow>
       (\<forall>b. bit wt1 b \<longrightarrow> bit (wt_bar_mask (in_deps (js ! k))) b) \<and>
       (\<forall>m<k. plain (is ! m) \<longrightarrow> (\<forall>b. bit (signals (is ! m)) b \<longrightarrow> bit (wt_bar_mask (in_deps (js ! k))) b)) \<and>
       (op_dsts (in_op (is ! k)) \<noteq> [] \<longrightarrow> wr_bar (in_deps (js ! k)) = Some 0) \<and>
       (op_srcs (in_op (is ! k)) \<noteq> [] \<longrightarrow> rd_bar (in_deps (js ! k)) = Some 1)"
    and b: "\<forall>k<length is. is_branch (is ! k) \<and> \<not> is_barrier_op (in_op (is ! k)) \<longrightarrow> (\<forall>b<6. bit (wt_bar_mask (in_deps (js ! k))) b)"
    using Cons.IH [OF w1] by blast
  have mono: "bit wt n \<Longrightarrow> bit wt1 n" "plain i \<Longrightarrow> bit (signals i) n \<Longrightarrow> bit wt1 n" for n
    by (simp_all add: wt1_def bit_or_iff)
  have P: "plain ((i # is) ! k) \<longrightarrow>
       (\<forall>b. bit wt b \<longrightarrow> bit (wt_bar_mask (in_deps ((j # js) ! k))) b) \<and>
       (\<forall>m<k. plain ((i # is) ! m) \<longrightarrow> (\<forall>b. bit (signals ((i # is) ! m)) b \<longrightarrow> bit (wt_bar_mask (in_deps ((j # js) ! k))) b)) \<and>
       (op_dsts (in_op ((i # is) ! k)) \<noteq> [] \<longrightarrow> wr_bar (in_deps ((j # js) ! k)) = Some 0) \<and>
       (op_srcs (in_op ((i # is) ! k)) \<noteq> [] \<longrightarrow> rd_bar (in_deps ((j # js) ! k)) = Some 1)"
    if k: "k < length (i # is)" for k
  proof (cases k)
    case 0
    then show ?thesis using pj by simp
  next
    case (Suc k')
    show ?thesis
    proof (intro impI conjI allI)
      fix m b assume "plain ((i # is) ! k)" "m < k" "plain ((i # is) ! m)" "bit (signals ((i # is) ! m)) b"
      then show "bit (wt_bar_mask (in_deps ((j # js) ! k))) b"
        using p k Suc mono(2) by (cases m) auto
    qed (use p k Suc mono(1) in auto)
  qed
  have B: "is_branch ((i # is) ! k) \<and> \<not> is_barrier_op (in_op ((i # is) ! k)) \<longrightarrow> (\<forall>b<6. bit (wt_bar_mask (in_deps ((j # js) ! k))) b)"
    if "k < length (i # is)" for k
    using that b bj by (cases k) auto
  have "traverseM serial_instr (i # is) wt = Some (j # js, wt')" using j(1) t by simp
  moreover have "list_all2 same_op (j # js) (i # is)" using j(2) a by simp
  ultimately show ?case using P B by blast
qed simp

lemma list_before_irrefl: "distinct xs \<Longrightarrow> \<not> list_before xs a a"
  by (induction xs) auto

lemma list_before_nth: "i < j \<Longrightarrow> j < length xs \<Longrightarrow> list_before xs (xs ! i) (xs ! j)"
proof (induction xs arbitrary: i j)
  case (Cons x xs)
  then show ?case by (cases i; cases j) auto
qed simp

text \<open>Instructions the pass leaves alone: branches need no scoreboard, barrier operations touch no register.\<close>

definition serial_ok :: "'a SchedModel_scheme \<Rightarrow> Instr \<Rightarrow> bool" where
  "serial_ok sm i \<longleftrightarrow>
     (is_branch i \<longrightarrow> \<not> op_needs_scoreboard sm (in_op i)) \<and>
     (is_barrier_op (in_op i) \<longrightarrow> written i = {} \<and> sourced i = {} \<and> guarded i = {})"

lemma touches_signals:
  "touches i True \<noteq> {} \<Longrightarrow> op_dsts (in_op i) \<noteq> []" "touches i False \<noteq> {} \<Longrightarrow> op_srcs (in_op i) \<noteq> []"
  by (auto simp: touches_def written_def sourced_def dst_cells_def src_cells_def operand_cells_def)

lemma bits_of_signals:
  "op_dsts (in_op i) \<noteq> [] \<Longrightarrow> bit (signals i) 0" "op_srcs (in_op i) \<noteq> [] \<Longrightarrow> bit (signals i) 1"
  by (auto simp: signals_def bit_or_iff)

lemma serial_schedule_runs:
  assumes t: "serial_block b = Some b1" and s: "sched_buffer sm (bb_instrs b1) = Some (is2, cycles)"
    and g: "guards_kept (bb_instrs b)" and ok: "\<forall>i\<in>set (bb_instrs b). serial_ok sm i"
  shows "hazard_free sm is2"
proof -
  let ?is = "bb_instrs b" and ?is1 = "bb_instrs b1"
  let ?n = "length ?is"
  obtain wt' where tr: "traverseM serial_instr ?is 0 = Some (?is1, wt')"
    using t by (auto simp: serial_block_def)
  obtain js wt'' where tr': "traverseM serial_instr ?is 0 = Some (js, wt'')" and a': "list_all2 same_op js ?is"
    and p': "\<forall>k<?n. plain (?is ! k) \<longrightarrow>
       (\<forall>b. bit (0::u8) b \<longrightarrow> bit (wt_bar_mask (in_deps (js ! k))) b) \<and>
       (\<forall>m<k. plain (?is ! m) \<longrightarrow> (\<forall>b. bit (signals (?is ! m)) b \<longrightarrow> bit (wt_bar_mask (in_deps (js ! k))) b)) \<and>
       (op_dsts (in_op (?is ! k)) \<noteq> [] \<longrightarrow> wr_bar (in_deps (js ! k)) = Some 0) \<and>
       (op_srcs (in_op (?is ! k)) \<noteq> [] \<longrightarrow> rd_bar (in_deps (js ! k)) = Some 1)"
    and br': "\<forall>k<?n. is_branch (?is ! k) \<and> \<not> is_barrier_op (in_op (?is ! k)) \<longrightarrow> (\<forall>b<6. bit (wt_bar_mask (in_deps (js ! k))) b)"
    using serial_traverse [of 0 ?is] by blast
  have js: "js = ?is1" using tr tr' by simp
  note a = a' [unfolded js] and p = p' [unfolded js] and br = br' [unfolded js]
  have n1: "length ?is1 = ?n" using a by (rule list_all2_lengthD)
  have same: "same_op (?is1 ! k) (?is ! k)" if "k < ?n" for k using a that n1 by (simp add: list_all2_nthD)
  obtain order where o: "distinct order" "set order = {..<?n}" and is2: "is2 = map ((!) ?is1) order"
    and keep: "\<And>i j. i < j \<Longrightarrow> j < ?n \<Longrightarrow> tracked (?is1 ! i) (?is1 ! j) \<Longrightarrow> list_before order i j"
    using sched_keeps_order [OF s] n1 by auto
  have len: "length order = ?n" using o by (metis card_lessThan distinct_card)
  have n2: "length is2 = ?n" by (simp add: is2 len)
  have at: "is2 ! q = ?is1 ! (order ! q)" "order ! q < ?n" if "q < ?n" for q
    using that o(2) len nth_mem [of q order] by (auto simp: is2)
  have plain_p: "plain (?is ! (order ! q)) \<and> touches (?is ! (order ! q)) wr \<noteq> {} \<and> q < r"
    if "(q, wr) \<in> pending_straight sm is2 r" "r \<le> ?n" for q r wr
  proof -
    have q: "q < r" "op_needs_scoreboard sm (in_op (is2 ! q))" "touches (is2 ! q) wr \<noteq> {}"
      using pending_straight_earlier [OF that(1)] by auto
    then have qn: "q < ?n" using that(2) by simp
    have sm: "same_op (is2 ! q) (?is ! (order ! q))" using same [OF at(2) [OF qn]] at(1) [OF qn] by simp
    have okq: "serial_ok sm (?is ! (order ! q))" using ok at(2) [OF qn] by simp
    have "touches (?is ! (order ! q)) wr \<noteq> {}" using q(3) same_op_simps(1) [OF sm] by simp
    moreover have "op_needs_scoreboard sm (in_op (?is ! (order ! q)))" using q(2) sm by (simp add: same_op_def)
    ultimately show ?thesis using okq q(1) unfolding serial_ok_def plain_def touches_def by (auto split: if_splits)
  qed
  have bars: "waits_for j (is2 ! q) wr"
    if "(q, wr) \<in> pending_straight sm is2 r" "r \<le> ?n" and "\<And>b. bit (signals (?is ! (order ! q))) b \<Longrightarrow> bit (wt_bar_mask (in_deps j)) b" for q r wr j
  proof -
    have P: "plain (?is ! (order ! q))" "touches (?is ! (order ! q)) wr \<noteq> {}" "q < r" using plain_p [OF that(1,2)] by auto
    then have qn: "q < ?n" using that(2) by simp
    have d: "op_dsts (in_op (?is ! (order ! q))) \<noteq> [] \<Longrightarrow> wr_bar (in_deps (is2 ! q)) = Some 0"
      "op_srcs (in_op (?is ! (order ! q))) \<noteq> [] \<Longrightarrow> rd_bar (in_deps (is2 ! q)) = Some 1"
      using p at [OF qn] P(1) by auto
    show ?thesis
    proof (cases wr)
      case True
      then show ?thesis using P(2) touches_signals(1) d(1) bits_of_signals(1) that(3) by (auto simp: waits_for_def waits_bar_def)
    next
      case False
      then show ?thesis using P(2) touches_signals(2) d(2) bits_of_signals(2) that(3) by (auto simp: waits_for_def waits_bar_def)
    qed
  qed
  have six: "bit (signals i) b \<Longrightarrow> b < 6" for i b
    by (auto simp: signals_def bit_or_iff bit_simps split: if_splits) 
  show ?thesis
  proof (rule hazard_free_straight)
    fix q assume q: "q < length is2" and "is_branch (is2 ! q)"
    then have qn: "q < ?n" by (simp add: n2)
    let ?q = "order ! q"
    have sm: "same_op (is2 ! q) (?is ! ?q)" using same [OF at(2) [OF qn]] at(1) [OF qn] by simp
    have b: "is_branch (?is ! ?q)" using \<open>is_branch (is2 ! q)\<close> same_op_simps(4) [OF sm] by simp
    have nb: "\<not> is_barrier_op (in_op (?is ! ?q))" using b by (cases "in_op (?is ! ?q)") (auto simp: is_branch_def)
    have "\<not> op_needs_scoreboard sm (in_op (is2 ! q))" using ok b at(2) [OF qn] sm by (simp add: serial_ok_def same_op_def)
    moreover have "\<forall>b<6. bit (wt_bar_mask (in_deps (is2 ! q))) b" using br b nb at [OF qn] by simp
    ultimately show "pending_after_wait is2 q (pending_straight sm is2 q) \<union> issued sm is2 q = {}"
      using bars [of _ _ q "is2 ! q"] six qn by (fastforce simp: pending_after_wait_def issued_def)
  next
    fix q assume q: "q < length is2"
    then have qn: "q < ?n" by (simp add: n2)
    show "\<not> hazard is2 q (pending_straight sm is2 q)"
    proof
      assume "hazard is2 q (pending_straight sm is2 q)"
      then obtain r wr where r: "(r, wr) \<in> pending_straight sm is2 q" and nw: "\<not> waits_for (is2 ! q) (is2 ! r) wr"
        and c: "conflicts (is2 ! r) wr (is2 ! q)" by (auto simp: hazard_def pending_after_wait_def)
      have P: "plain (?is ! (order ! r))" "r < q" using plain_p [OF r] qn by auto
      then have rn: "r < ?n" using qn by simp
      let ?a = "order ! r" and ?b = "order ! q"
      have sma: "same_op (is2 ! r) (?is ! ?a)" and smb: "same_op (is2 ! q) (?is ! ?b)"
        using same at rn qn by auto
      have bit: "\<exists>b. bit (signals (?is ! ?a)) b \<and> \<not> bit (wt_bar_mask (in_deps (is2 ! q))) b"
        using bars [OF r] qn nw by (meson less_imp_le)
      have cells: "written (?is ! ?b) \<union> sourced (?is ! ?b) \<union> guarded (?is ! ?b) \<noteq> {}"
        using c same_op_cells [OF smb] by (auto simp: conflicts_def split: if_splits)
      then have nb: "\<not> is_barrier_op (in_op (?is ! ?b))" using ok at(2) [OF qn] by (auto simp: serial_ok_def)
      have nbr: "\<not> is_branch (?is ! ?b)" using br nb bit six at [OF qn] by metis
      have pb: "plain (?is ! ?b)" using nb nbr by (simp add: plain_def)
      have "\<not> ?a < ?b" using p pb P(1) bit at [OF qn] by metis
      moreover have "?a \<noteq> ?b" using o(1) P(2) rn qn len by (metis nth_eq_iff_index_eq nat_less_le)
      ultimately have lt: "?b < ?a" by simp
      have tr: "tracked (?is ! ?b) (?is ! ?a)"
      proof (cases "guarded (?is ! ?b) \<inter> written (?is ! ?a) = {}")
        case True
        then show ?thesis using c same_op_cells [OF sma] same_op_cells [OF smb]
          by (auto simp: conflicts_def touches_def tracked_def split: if_splits)
      next
        case False
        then show ?thesis using g lt at(2) [OF rn] unfolding guards_kept_def by blast
      qed
      have "tracked (?is1 ! ?b) (?is1 ! ?a)"
        using tr same_op_simps(2,3) [OF same [OF at(2) [OF rn]]] same_op_simps(2,3) [OF same [OF at(2) [OF qn]]] by simp
      then have "list_before order ?b ?a" using keep [OF lt at(2) [OF rn]] by simp
      moreover have "list_before order ?a ?b" by (rule list_before_nth) (use P(2) qn len in auto)
      ultimately have "list_before order ?a ?a" using list_before_trans o(1) by metis
      then show False using list_before_irrefl [OF o(1), of ?a] by simp
    qed
  qed
qed

text \<open>
  Property C5.  The two last passes of the pipeline on a block: its barriers are assigned serially and it is then
  rescheduled.  Suppose no instruction writes the guard of an earlier one without another tracked dependency
  between them (\<^term>\<open>guards_kept\<close>), branches need no scoreboard, and the barrier operations, which the serial pass skips,
  touch no register.  Then the assignment does not panic, and whatever order the scheduler returns, the block
  runs without a hazard: from its start, where nothing is pending, no instruction ever issues while an access
  that it conflicts with is pending.
\<close>

theorem serial_schedule_hazard_free:
  assumes "guards_kept (bb_instrs b)" and "\<forall>i\<in>set (bb_instrs b). serial_ok sm i"
  shows "\<exists>b1. serial_block b = Some b1 \<and> list_all2 same_op (bb_instrs b1) (bb_instrs b) \<and>
    (\<forall>is cycles. sched_buffer sm (bb_instrs b1) = Some (is, cycles) \<longrightarrow> hazard_free sm is)"
proof -
  obtain js wt where t: "traverseM serial_instr (bb_instrs b) 0 = Some (js, wt)" "list_all2 same_op js (bb_instrs b)"
    using serial_traverse [of 0 "bb_instrs b"] by blast
  then have b1: "serial_block b = Some (b\<lparr>bb_instrs := js\<rparr>)" by (simp add: serial_block_def)
  then show ?thesis using t(2) serial_schedule_runs [OF b1 _ assms] by auto
qed

text \<open>An operation of variable latency, a move of its result, and the end of the program.\<close>

definition demo_exit :: Instr where "demo_exit = instr_new Exit"

definition fall_sm :: SchedModel where
  "fall_sm = demo_sm\<lparr>op_needs_scoreboard := \<lambda>op. case op of OtherOp (Transcendental _) _ _ \<Rightarrow> True | _ \<Rightarrow> False\<rparr>"

text \<open>A transcendental operation, whose latency is variable.\<close>

definition demo_rcp :: "u32 \<Rightarrow> u32 \<Rightarrow> Instr" where
  "demo_rcp d s = instr_new (OtherOp (Transcendental Rcp) [DstReg (demo_reg GPR d)] [src_of_ref (SrReg (demo_reg GPR s))])"

definition serial_demo :: BasicBlock where
  "serial_demo = \<lparr>bb_label = 0, bb_uniform = True, bb_instrs = [demo_rcp 0 1, demo_mov PrNone 2 0, demo_exit]\<rparr>"

definition serial_demo_out :: "Instr list option" where
  "serial_demo_out = do { b \<leftarrow> serial_block serial_demo; (is, _) \<leftarrow> sched_buffer fall_sm (bb_instrs b); Some is }"

lemma serial_demo_length: "map_option length serial_demo_out = Some 3"
  by code_simp

lemma serial_demo_ok: "\<forall>i\<in>set (bb_instrs serial_demo). serial_ok fall_sm i"
  by code_simp

lemma serial_demo_guards: "guards_kept (bb_instrs serial_demo)"
proof -
  have "guarded i = {}" if "i \<in> set (bb_instrs serial_demo)" for i
  proof -
    have "\<forall>i\<in>set (bb_instrs serial_demo). guarded i = {}" by code_simp
    then show ?thesis using that by blast
  qed
  then show ?thesis unfolding guards_kept_def using nth_mem by fastforce
qed

theorem serial_schedule_hazard_free_witness:
  "\<exists>is. serial_demo_out = Some is \<and> length is = 3 \<and> hazard_free fall_sm is"
proof -
  obtain b1 where b1: "serial_block serial_demo = Some b1" "\<forall>is cycles. sched_buffer fall_sm (bb_instrs b1) = Some (is, cycles) \<longrightarrow> hazard_free fall_sm is"
    using serial_schedule_hazard_free [OF serial_demo_guards serial_demo_ok] by blast
  then show ?thesis
    using serial_demo_length by (auto simp: serial_demo_out_def split: Option.bind_splits)
qed

text \<open>
  Across blocks it does not hold.  Two blocks, of which the first falls through: nothing in the second waits for
  what the first left pending.
\<close>

definition fall_fn :: Function where
  "fall_fn = \<lparr>fn_ssa_alloc = sa_new, fn_phi_alloc = pa_new,
     fn_blocks = cfg_default\<lparr>cfg_blocks := [\<lparr>bb_label = 0, bb_uniform = True, bb_instrs = [demo_rcp 0 1]\<rparr>,
        \<lparr>bb_label = 1, bb_uniform = True, bb_instrs = [demo_mov PrNone 2 0, demo_exit]\<rparr>]\<rparr>\<rparr>"

lemma runs_straight: "q \<le> length is \<Longrightarrow> runs_to sm is q (pending_straight sm is q)"
  by (induction q) (auto intro: runs_to.intros)

lemma fall_hazard:
  "map_option (\<lambda>f. (length (fn_instrs f), hazard (fn_instrs f) 1 (pending_straight fall_sm (fn_instrs f) 1))) (assign_deps_serial fall_fn) =
     Some (3, True)"
  by code_simp

lemma serial_fall_through_hazard:
  "\<exists>f. assign_deps_serial fall_fn = Some f \<and> \<not> hazard_free fall_sm (fn_instrs f)"
proof -
  obtain f where f: "assign_deps_serial fall_fn = Some f" and l: "length (fn_instrs f) = 3"
    and h: "hazard (fn_instrs f) 1 (pending_straight fall_sm (fn_instrs f) 1)"
    using fall_hazard by auto
  have "runs_to fall_sm (fn_instrs f) 1 (pending_straight fall_sm (fn_instrs f) 1)" by (rule runs_straight) (simp add: l)
  then show ?thesis using f h l unfolding hazard_free_def by fastforce
qed

end
