(* ===== verification/Barriers.thy ===== *)
theory Barriers
  imports Scoreboard
begin

text \<open>
  \<^verbatim>\<open>assign_barriers\<close> of \<^verbatim>\<open>codegen/calc_instr_deps/analysis.rs\<close> with the uses, the dependency graph and the barrier allocator of
  \<^verbatim>\<open>types.rs\<close>: a first pass over the function finds which instruction first waits for which access, a second
  gives the accesses that are waited for one of the six barriers.
\<close>

subsection \<open>Uses of a register\<close>

text \<open>\<^verbatim>\<open>RegUse\<close> of \<^verbatim>\<open>calc_instr_deps\<close>: every update returns what the new use waits for.\<close>

datatype BarUse = NoUse | Write nat | Reads "nat list"

fun bu_deps :: "BarUse \<Rightarrow> nat list" where
  "bu_deps NoUse = []" | "bu_deps (Write d) = [d]" | "bu_deps (Reads ds) = ds"

definition bu_clear :: "BarUse \<Rightarrow> BarUse \<times> BarUse" where "bu_clear u = (u, NoUse)"

fun bu_clear_write :: "BarUse \<Rightarrow> BarUse \<times> BarUse" where
  "bu_clear_write (Write d) = (Write d, NoUse)" | "bu_clear_write u = (NoUse, u)"

fun bu_add_read :: "nat \<Rightarrow> BarUse \<Rightarrow> BarUse \<times> BarUse" where
  "bu_add_read dep NoUse = (NoUse, Reads [dep])"
| "bu_add_read dep (Write d) = (Write d, Reads [dep])"
| "bu_add_read dep (Reads ds) = (NoUse, Reads (ds @ [dep]))"

definition bu_set_write :: "nat \<Rightarrow> BarUse \<Rightarrow> BarUse \<times> BarUse" where "bu_set_write dep u = (u, Write dep)"

subsection \<open>The graph of dependencies\<close>

text \<open>An instruction is its block and index; pairs are compared as Rust compares tuples.\<close>

type_synonym Loc = "nat \<times> nat"

definition loc_less :: "Loc \<Rightarrow> Loc \<Rightarrow> bool" where
  "loc_less a b \<longleftrightarrow> fst a < fst b \<or> fst a = fst b \<and> snd a < snd b"

record BDepNode =
  bd_read_dep :: "nat option"
  bd_first_wait :: "Loc option"

text \<open>The hash set of active dependencies is a list; its order does not show, as the waits are sorted.\<close>

record BDepGraph =
  bg_deps :: "BDepNode list"
  bg_instr_deps :: "Loc \<rightharpoonup> nat \<times> nat"
  bg_instr_waits :: "Loc \<rightharpoonup> nat list"
  bg_active :: "nat list"

definition bg_new :: BDepGraph where
  "bg_new = \<lparr>bg_deps = [], bg_instr_deps = Map.empty, bg_instr_waits = Map.empty, bg_active = []\<rparr>"

definition add_new_dep :: "nat option \<Rightarrow> BDepGraph \<Rightarrow> nat \<times> BDepGraph" where
  "add_new_dep rd g = (length (bg_deps g), g\<lparr>bg_deps := bg_deps g @ [\<lparr>bd_read_dep = rd, bd_first_wait = None\<rparr>]\<rparr>)"

definition add_instr :: "Loc \<Rightarrow> BDepGraph \<Rightarrow> (nat \<times> nat) \<times> BDepGraph" where
  "add_instr loc g =
     (let (rd, g) = add_new_dep None g; (wr, g) = add_new_dep (Some rd) g
      in ((rd, wr), g\<lparr>bg_instr_deps := (bg_instr_deps g)(loc \<mapsto> (rd, wr))\<rparr>))"

definition add_signal :: "nat \<Rightarrow> BDepGraph \<Rightarrow> BDepGraph" where
  "add_signal dep g = g\<lparr>bg_active := List.insert dep (bg_active g)\<rparr>"

definition deactivate :: "nat \<Rightarrow> BDepGraph \<Rightarrow> BDepGraph" where
  "deactivate dep g = g\<lparr>bg_active := removeAll dep (bg_active g)\<rparr>"

definition drop_read :: "nat \<Rightarrow> BDepGraph \<Rightarrow> BDepGraph option" where
  "drop_read dep g = do {
     node \<leftarrow> index (bg_deps g) dep;
     Some (case bd_read_dep node of None \<Rightarrow> g | Some rd \<Rightarrow> deactivate rd g) }"

text \<open>One element of \<^verbatim>\<open>waits.retain\<close>, with its debug assertions.\<close>

definition retain_wait :: "Loc \<Rightarrow> nat \<Rightarrow> nat list \<times> BDepGraph \<Rightarrow> (nat list \<times> BDepGraph) option" where
  "retain_wait loc dep = (\<lambda>(kept, g). do {
     node \<leftarrow> index (bg_deps g) dep;
     case bd_first_wait node of
       Some wait \<Rightarrow> assert_then (dep \<notin> set (bg_active g) \<and> \<not> loc_less loc wait) (Some (kept, g))
     | None \<Rightarrow>
         if dep \<notin> set (bg_active g) then Some (kept, g)
         else Some (kept @ [dep],
           deactivate dep (g\<lparr>bg_deps := (bg_deps g)[dep := node\<lparr>bd_first_wait := Some loc\<rparr>]\<rparr>)) })"

definition add_waits :: "Loc \<Rightarrow> nat list \<Rightarrow> BDepGraph \<Rightarrow> BDepGraph option" where
  "add_waits loc waits g = do {
     g \<leftarrow> foldM drop_read waits g;
     (kept, g) \<leftarrow> foldM (retain_wait loc) waits ([], g);
     assert_then (bg_instr_waits g loc = None) (Some (g\<lparr>bg_instr_waits := (bg_instr_waits g)(loc \<mapsto> sort kept)\<rparr>)) }"

definition add_barrier :: "Loc \<Rightarrow> BDepGraph \<Rightarrow> BDepGraph option" where
  "add_barrier loc g = do {
     g \<leftarrow> add_waits loc (bg_active g) g;
     assert_then (bg_active g = []) (Some g) }"

definition dep_is_waited_after :: "nat \<Rightarrow> Loc \<Rightarrow> BDepGraph \<Rightarrow> bool option" where
  "dep_is_waited_after dep loc g = do {
     node \<leftarrow> index (bg_deps g) dep;
     Some (case bd_first_wait node of None \<Rightarrow> False | Some wait \<Rightarrow> loc_less loc wait) }"

definition get_instr_waits :: "Loc \<Rightarrow> BDepGraph \<Rightarrow> nat list" where
  "get_instr_waits loc g = (case bg_instr_waits g loc of None \<Rightarrow> [] | Some ws \<Rightarrow> ws)"

subsection \<open>The barriers\<close>

text \<open>\<^verbatim>\<open>bar_dep\<close> has six entries; a free one is \<^verbatim>\<open>usize::MAX\<close>, the greatest, here \<^const>\<open>None\<close>.\<close>

type_synonym BarAlloc = "nat option list"

definition ba_new :: BarAlloc where "ba_new = replicate 6 None"

definition bar_is_free :: "nat \<Rightarrow> BarAlloc \<Rightarrow> bool option" where
  "bar_is_free bar a = assert_then (bar < 6) (map_option (\<lambda>d. d = None) (index a bar))"

definition set_bar_dep :: "nat \<Rightarrow> nat \<Rightarrow> BarAlloc \<Rightarrow> BarAlloc option" where
  "set_bar_dep bar dep a = do { free \<leftarrow> bar_is_free bar a; assert_then free (Some (a[bar := Some dep])) }"

definition free_bar :: "nat \<Rightarrow> BarAlloc \<Rightarrow> BarAlloc option" where
  "free_bar bar a = do { free \<leftarrow> bar_is_free bar a; assert_then (\<not> free) (Some (a[bar := None])) }"

definition try_find_free_bar :: "BarAlloc \<Rightarrow> nat option" where
  "try_find_free_bar a = find (\<lambda>b. a ! b = None) [0..<6]"

fun dep_less :: "nat option \<Rightarrow> nat option \<Rightarrow> bool" where
  "dep_less (Some a) (Some b) = (a < b)" | "dep_less (Some a) None = True" | "dep_less None b = False"

definition oldest_bar :: "BarAlloc \<Rightarrow> nat" where
  "oldest_bar a = fold (\<lambda>b bar. if dep_less (a ! b) (a ! bar) then b else bar) [1..<6] 0"

definition free_some_bar :: "BarAlloc \<Rightarrow> (nat \<times> BarAlloc) option" where
  "free_some_bar a = map_option (Pair (oldest_bar a)) (free_bar (oldest_bar a) a)"

definition get_bar_for_dep :: "nat \<Rightarrow> BarAlloc \<Rightarrow> nat option" where
  "get_bar_for_dep dep a = find (\<lambda>b. a ! b = Some dep) [0..<6]"

subsection \<open>Assigning barriers\<close>

record BarState =
  bs_uses :: "RegCell \<Rightarrow> BarUse"
  bs_deps :: BDepGraph
  bs_waits :: "nat list"

definition use_cell :: "RegCell \<Rightarrow> (BarUse \<Rightarrow> BarUse \<times> BarUse) \<Rightarrow> nat option \<Rightarrow> BarState \<Rightarrow> BarState" where
  "use_cell x f self s =
     (let (old, new) = f (bs_uses s x)
      in s\<lparr>bs_uses := (bs_uses s)(x := new), bs_waits := bs_waits s @ filter (\<lambda>d. Some d \<noteq> self) (bu_deps old)\<rparr>)"

text \<open>
  An instruction with a scoreboard reads with one new dependency and writes with another; it does not wait
  for its own reads.
\<close>

definition use_scoreboard :: "Loc \<Rightarrow> RegCell list \<Rightarrow> RegCell list \<Rightarrow> BarState \<Rightarrow> BarState" where
  "use_scoreboard loc srcs dsts s =
     (let ((rd, wr), g) = add_instr loc (bs_deps s);
          s = s\<lparr>bs_deps := g\<rparr>;
          s = fold (\<lambda>x s. use_cell x (bu_add_read rd) None (s\<lparr>bs_deps := add_signal rd (bs_deps s)\<rparr>)) srcs s
      in fold (\<lambda>x s. use_cell x (bu_set_write wr) (Some rd) (s\<lparr>bs_deps := add_signal wr (bs_deps s)\<rparr>)) dsts s)"

definition use_fixed :: "RegCell list \<Rightarrow> RegCell list \<Rightarrow> BarState \<Rightarrow> BarState" where
  "use_fixed srcs dsts s =
     fold (\<lambda>x. use_cell x bu_clear None) dsts (fold (\<lambda>x. use_cell x bu_clear_write None) srcs s)"

definition find_waits :: "'a SchedModel_scheme \<Rightarrow> Loc \<times> Instr \<Rightarrow> (RegCell \<Rightarrow> BarUse) \<times> BDepGraph \<Rightarrow>
    ((RegCell \<Rightarrow> BarUse) \<times> BDepGraph) option" where
  "find_waits sm = (\<lambda>(loc, instr) (uses, g).
     if is_branch instr then map_option (Pair uses) (add_barrier loc g)
     else do {
       preds \<leftarrow> pred_cells instr; srcs \<leftarrow> src_cells instr; dsts \<leftarrow> dst_cells instr;
       let s = fold (\<lambda>x. use_cell x bu_clear_write None) preds \<lparr>bs_uses = uses, bs_deps = g, bs_waits = []\<rparr>;
       let s = (if op_needs_scoreboard sm (in_op instr)
         then use_scoreboard loc (map snd srcs) (map snd dsts) s
         else use_fixed (map snd srcs) (map snd dsts) s);
       g \<leftarrow> add_waits loc (bs_waits s) (bs_deps s);
       Some (bs_uses s, g) })"

text \<open>Waiting for a dependency frees its barrier; one that lost it has been waited for.\<close>

definition wait_dep :: "nat \<Rightarrow> u8 \<times> BarAlloc \<Rightarrow> (u8 \<times> BarAlloc) option" where
  "wait_dep dep = (\<lambda>(mask, bars).
     case get_bar_for_dep dep bars of
       None \<Rightarrow> Some (mask, bars)
     | Some bar \<Rightarrow> do { bars \<leftarrow> free_bar bar bars; Some (mask OR push_bit bar 1, bars) })"

definition take_bar :: "nat \<Rightarrow> Instr \<times> BarAlloc \<Rightarrow> (nat \<times> Instr \<times> BarAlloc) option" where
  "take_bar dep = (\<lambda>(instr, bars). do {
     (bar, instr, bars) \<leftarrow>
       (case try_find_free_bar bars of
          Some bar \<Rightarrow> Some (bar, instr, bars)
        | None \<Rightarrow> do {
            (bar, bars) \<leftarrow> free_some_bar bars;
            instr \<leftarrow> map_deps (add_wt_bar (word_of_nat bar)) instr;
            Some (bar, instr, bars) });
     bars \<leftarrow> set_bar_dep bar dep bars;
     Some (bar, instr, bars) })"

definition maybe_take :: "bool \<Rightarrow> nat \<Rightarrow> (u8 \<Rightarrow> InstrDeps \<Rightarrow> InstrDeps option) \<Rightarrow> Instr \<times> BarAlloc \<Rightarrow> (Instr \<times> BarAlloc) option" where
  "maybe_take waited dep set_bar = (\<lambda>(instr, bars).
     if waited then do {
       (bar, instr, bars) \<leftarrow> take_bar dep (instr, bars);
       instr \<leftarrow> map_deps (set_bar (word_of_nat bar)) instr;
       Some (instr, bars) } else Some (instr, bars))"

definition place_barriers :: "'a SchedModel_scheme \<Rightarrow> BDepGraph \<Rightarrow> Loc \<times> Instr \<Rightarrow> BarAlloc \<Rightarrow> (Instr \<times> BarAlloc) option" where
  "place_barriers sm g = (\<lambda>(loc, instr) bars. do {
     (wait_mask, bars) \<leftarrow> foldM wait_dep (get_instr_waits loc g) (0, bars);
     instr \<leftarrow> map_deps (add_wt_bar_mask wait_mask) instr;
     let instr = (if needs_yield (in_op instr) then instr\<lparr>in_deps := (in_deps instr)\<lparr>yld := True\<rparr>\<rparr> else instr);
     if \<not> op_needs_scoreboard sm (in_op instr) then Some (instr, bars)
     else do {
       (rd_dep, wr_dep) \<leftarrow> bg_instr_deps g loc;
       rd \<leftarrow> dep_is_waited_after rd_dep loc g;
       (instr, bars) \<leftarrow> maybe_take rd rd_dep set_rd_bar (instr, bars);
       wr \<leftarrow> dep_is_waited_after wr_dep loc g;
       maybe_take wr wr_dep set_wr_bar (instr, bars) } })"

text \<open>The instructions of a function with their places.\<close>

definition block_locs :: "nat \<times> BasicBlock \<Rightarrow> (Loc \<times> Instr) list" where
  "block_locs = (\<lambda>(bi, b). map (\<lambda>(ip, i). ((bi, ip), i)) (List.enumerate 0 (bb_instrs b)))"

definition place_block :: "'a SchedModel_scheme \<Rightarrow> BDepGraph \<Rightarrow> nat \<times> BasicBlock \<Rightarrow> BarAlloc \<Rightarrow> (BasicBlock \<times> BarAlloc) option" where
  "place_block sm g = (\<lambda>(bi, b) bars. do {
     (is, bars) \<leftarrow> traverseM (place_barriers sm g) (block_locs (bi, b)) bars;
     Some (b\<lparr>bb_instrs := is\<rparr>, bars) })"

definition assign_barriers :: "'a SchedModel_scheme \<Rightarrow> Function \<Rightarrow> Function option" where
  "assign_barriers sm f =
     (let blocks = List.enumerate 0 (cfg_blocks (fn_blocks f)) in do {
        (uses, g) \<leftarrow> foldM (\<lambda>b. foldM (find_waits sm) (block_locs b)) blocks (\<lambda>_. NoUse, bg_new);
        (bs, _) \<leftarrow> traverseM (place_block sm g) blocks ba_new;
        Some (f\<lparr>fn_blocks := (fn_blocks f)\<lparr>cfg_blocks := bs\<rparr>\<rparr>) })"

end
