(* ===== verification/BarrierWaits.thy ===== *)
theory BarrierWaits
  imports Barriers
begin

text \<open>
  The first pass of \<^verbatim>\<open>assign_barriers\<close>: after it every access has been waited for by the first
  instruction that conflicts with it, and by the first branch.
\<close>

subsection \<open>What the uses of a cell hold\<close>

datatype UseView = VNone | VWrite nat | VReads "nat set"

fun view_of :: "BarUse \<Rightarrow> UseView" where
  "view_of NoUse = VNone" | "view_of (Write d) = VWrite d" | "view_of (Reads ds) = VReads (set ds)"

fun v_deps :: "UseView \<Rightarrow> nat set" where
  "v_deps VNone = {}" | "v_deps (VWrite d) = {d}" | "v_deps (VReads R) = R"

fun v_writes :: "UseView \<Rightarrow> nat set" where
  "v_writes (VWrite d) = {d}" | "v_writes _ = {}"

fun v_clear_write :: "UseView \<Rightarrow> UseView" where
  "v_clear_write (VWrite d) = VNone" | "v_clear_write v = v"

fun v_add_read :: "nat \<Rightarrow> UseView \<Rightarrow> UseView" where
  "v_add_read d (VReads R) = VReads (insert d R)" | "v_add_read d _ = VReads {d}"

lemma set_bu_deps: "set (bu_deps u) = v_deps (view_of u)"
  by (cases u) auto

lemma use_views:
  "view_of (snd (bu_clear u)) = VNone" "set (bu_deps (fst (bu_clear u))) = v_deps (view_of u)"
  "view_of (snd (bu_clear_write u)) = v_clear_write (view_of u)" "set (bu_deps (fst (bu_clear_write u))) = v_writes (view_of u)"
  "view_of (snd (bu_add_read d u)) = v_add_read d (view_of u)" "set (bu_deps (fst (bu_add_read d u))) = v_writes (view_of u)"
  "view_of (snd (bu_set_write d u)) = VWrite d" "set (bu_deps (fst (bu_set_write d u))) = v_deps (view_of u)"
  by (cases u; auto simp: bu_clear_def bu_set_write_def)+

lemma v_idem [simp]:
  "v_clear_write (v_clear_write v) = v_clear_write v" "v_add_read d (v_add_read d v) = v_add_read d v"
  "v_writes (v_clear_write v) = {}" "v_writes (v_add_read d v) = {}"
  by (cases v; simp)+

text \<open>A loop over cells, on the views.\<close>

lemma fold_use_cells:
  assumes F: "\<And>u. view_of (snd (f u)) = F (view_of u)" and G: "\<And>u. set (bu_deps (fst (f u))) = G (view_of u)"
    and idem: "\<And>v. F (F v) = F v" and once: "distinct xs \<or> (\<forall>v. G (F v) = {})"
  shows "bs_deps (fold (\<lambda>x. use_cell x f self) xs s) = bs_deps s \<and>
    (\<forall>x. view_of (bs_uses (fold (\<lambda>x. use_cell x f self) xs s) x) = (if x \<in> set xs then F (view_of (bs_uses s x)) else view_of (bs_uses s x))) \<and>
    set (bs_waits (fold (\<lambda>x. use_cell x f self) xs s)) = set (bs_waits s) \<union> {d. Some d \<noteq> self \<and> (\<exists>x\<in>set xs. d \<in> G (view_of (bs_uses s x)))}"
  using once
proof (induction xs arbitrary: s)
  case (Cons x xs)
  let ?s = "use_cell x f self s"
  obtain old new where on: "f (bs_uses s x) = (old, new)" by (cases "f (bs_uses s x)")
  have s1: "?s = s\<lparr>bs_uses := (bs_uses s)(x := new), bs_waits := bs_waits s @ filter (\<lambda>d. Some d \<noteq> self) (bu_deps old)\<rparr>"
    by (simp add: use_cell_def on)
  have d: "bs_deps ?s = bs_deps s" unfolding s1 by simp
  have v: "view_of (bs_uses ?s y) = (if y = x then F (view_of (bs_uses s x)) else view_of (bs_uses s y))" for y
    using F [of "bs_uses s x"] unfolding s1 on by simp
  have "set (bu_deps old) = G (view_of (bs_uses s x))" using G [of "bs_uses s x"] unfolding on by simp
  then have w: "set (bs_waits ?s) = set (bs_waits s) \<union> {d. Some d \<noteq> self \<and> d \<in> G (view_of (bs_uses s x))}"
    unfolding s1 by auto
  have IH: "bs_deps (fold (\<lambda>x. use_cell x f self) xs ?s) = bs_deps ?s \<and>
    (\<forall>x. view_of (bs_uses (fold (\<lambda>x. use_cell x f self) xs ?s) x) = (if x \<in> set xs then F (view_of (bs_uses ?s x)) else view_of (bs_uses ?s x))) \<and>
    set (bs_waits (fold (\<lambda>x. use_cell x f self) xs ?s)) = set (bs_waits ?s) \<union> {d. Some d \<noteq> self \<and> (\<exists>x\<in>set xs. d \<in> G (view_of (bs_uses ?s x)))}"
    by (rule Cons.IH) (use Cons.prems in auto)
  have later: "(\<exists>y\<in>set xs. e \<in> G (view_of (bs_uses ?s y))) \<or> e \<in> G (view_of (bs_uses s x)) \<longleftrightarrow> (\<exists>y\<in>set (x # xs). e \<in> G (view_of (bs_uses s y)))" for e
  proof (cases "x \<in> set xs")
    case True
    then have "G (F (view_of (bs_uses s x))) = {}" using Cons.prems by simp
    then show ?thesis unfolding v using True by auto
  next
    case False
    then have "view_of (bs_uses ?s y) = view_of (bs_uses s y)" if "y \<in> set xs" for y using that by (auto simp: v)
    then show ?thesis by auto
  qed
  show ?case
  proof (intro conjI allI)
    show "bs_deps (fold (\<lambda>x. use_cell x f self) (x # xs) s) = bs_deps s" using IH d by simp
    show "view_of (bs_uses (fold (\<lambda>x. use_cell x f self) (x # xs) s) y) = (if y \<in> set (x # xs) then F (view_of (bs_uses s y)) else view_of (bs_uses s y))" for y
    proof -
      have "view_of (bs_uses (fold (\<lambda>x. use_cell x f self) xs ?s) y) = (if y \<in> set xs then F (view_of (bs_uses ?s y)) else view_of (bs_uses ?s y))"
        using IH by blast
      then show ?thesis by (simp add: v idem)
    qed
    show "set (bs_waits (fold (\<lambda>x. use_cell x f self) (x # xs) s)) = set (bs_waits s) \<union> {d. Some d \<noteq> self \<and> (\<exists>y\<in>set (x # xs). d \<in> G (view_of (bs_uses s y)))}"
    proof (rule set_eqI)
      fix e
      have "e \<in> set (bs_waits (fold (\<lambda>x. use_cell x f self) xs ?s)) \<longleftrightarrow>
          e \<in> set (bs_waits s) \<or> Some e \<noteq> self \<and> (e \<in> G (view_of (bs_uses s x)) \<or> (\<exists>y\<in>set xs. e \<in> G (view_of (bs_uses ?s y))))"
        using IH w by blast
      then show "e \<in> set (bs_waits (fold (\<lambda>x. use_cell x f self) (x # xs) s)) \<longleftrightarrow>
          e \<in> set (bs_waits s) \<union> {d. Some d \<noteq> self \<and> (\<exists>y\<in>set (x # xs). d \<in> G (view_of (bs_uses s y)))}"
        using later [of e] unfolding fold_simps comp_apply by blast
    qed
  qed
qed simp

lemma fold_use_signal:
  "fold (\<lambda>x s. use_cell x f self (s\<lparr>bs_deps := add_signal d (bs_deps s)\<rparr>)) xs s =
     (fold (\<lambda>x. use_cell x f self) xs s)\<lparr>bs_deps := if xs = [] then bs_deps (fold (\<lambda>x. use_cell x f self) xs s) else add_signal d (bs_deps s)\<rparr>"
proof (induction xs arbitrary: s)
  case (Cons x xs)
  have u: "use_cell x f self (s\<lparr>bs_deps := g\<rparr>) = (use_cell x f self s)\<lparr>bs_deps := g\<rparr>" for s g
    by (simp add: use_cell_def split: prod.splits)
  have f: "fold (\<lambda>x. use_cell x f self) ys (s\<lparr>bs_deps := g\<rparr>) = (fold (\<lambda>x. use_cell x f self) ys s)\<lparr>bs_deps := g\<rparr>" for ys s g
  proof (induction ys arbitrary: s)
    case (Cons y ys)
    have "use_cell y f self (s\<lparr>bs_deps := g\<rparr>) = (use_cell y f self s)\<lparr>bs_deps := g\<rparr>"
      by (simp add: use_cell_def split: prod.splits)
    then show ?case using Cons by simp
  qed simp
  have i: "add_signal d (add_signal d g) = add_signal d g" for g by (simp add: add_signal_def)
  show ?case using Cons.IH by (simp add: u f i)
qed simp

subsection \<open>What waiting does to the graph\<close>

definition first_wait :: "BDepGraph \<Rightarrow> nat \<Rightarrow> Loc option" where "first_wait g d = bd_first_wait (bg_deps g ! d)"

definition read_dep :: "BDepGraph \<Rightarrow> nat \<Rightarrow> nat option" where "read_dep g d = bd_read_dep (bg_deps g ! d)"

text \<open>The graph after the dependencies \<^term>\<open>W\<close> have been waited for at \<^term>\<open>loc\<close>; \<^term>\<open>A\<close> is what is active.\<close>

definition waited :: "Loc \<Rightarrow> nat set \<Rightarrow> nat set \<Rightarrow> BDepGraph \<Rightarrow> BDepGraph \<Rightarrow> bool" where
  "waited loc W A g g' \<longleftrightarrow>
     length (bg_deps g') = length (bg_deps g) \<and> bg_instr_deps g' = bg_instr_deps g \<and>
     (\<forall>d. d < length (bg_deps g) \<longrightarrow> read_dep g' d = read_dep g d \<and> first_wait g' d = (if d \<in> W \<inter> A then Some loc else first_wait g d)) \<and>
     set (bg_active g') = A - W"

lemma drop_reads:
  "set ds \<subseteq> {..<length (bg_deps g)} \<Longrightarrow>
     \<exists>act. foldM drop_read ds g = Some (g\<lparr>bg_active := act\<rparr>) \<and> set act = set (bg_active g) - {r. \<exists>d\<in>set ds. read_dep g d = Some r}"
proof (induction ds arbitrary: g)
  case Nil
  show ?case by (rule exI [of _ "bg_active g"]) simp
next
  case (Cons d ds)
  define act1 where "act1 = (case read_dep g d of None \<Rightarrow> bg_active g | Some rd \<Rightarrow> removeAll rd (bg_active g))"
  have 1: "drop_read d g = Some (g\<lparr>bg_active := act1\<rparr>)"
    using Cons.prems by (auto simp: drop_read_def act1_def read_dep_def deactivate_def split: option.splits)
  have a: "set act1 = set (bg_active g) - {r. read_dep g d = Some r}"
    by (auto simp: act1_def split: option.splits)
  obtain act where act: "foldM drop_read ds (g\<lparr>bg_active := act1\<rparr>) = Some (g\<lparr>bg_active := act\<rparr>)"
    "set act = set act1 - {r. \<exists>d\<in>set ds. read_dep g d = Some r}"
    using Cons.IH [of "g\<lparr>bg_active := act1\<rparr>"] Cons.prems by (auto simp: read_dep_def)
  show ?case by (rule exI [of _ act]) (use 1 a act in auto)
qed

lemma retain_wait_cases:
  assumes "d < length (bg_deps g)" and "first_wait g d \<noteq> None \<Longrightarrow> d \<notin> set (bg_active g) \<and> \<not> loc_less loc (the (first_wait g d))"
  shows "retain_wait loc d (kept, g) =
    Some (if d \<in> set (bg_active g) then (kept @ [d],
       g\<lparr>bg_deps := (bg_deps g)[d := (bg_deps g ! d)\<lparr>bd_first_wait := Some loc\<rparr>], bg_active := removeAll d (bg_active g)\<rparr>) else (kept, g))"
  using assms by (auto simp: retain_wait_def first_wait_def deactivate_def split: option.splits)

lemma loc_less_irrefl [simp]: "\<not> loc_less a a"
  by (simp add: loc_less_def)

lemma retains:
  assumes "set ds \<subseteq> {..<length (bg_deps g)}"
    and "\<And>d. d \<in> set ds \<Longrightarrow> first_wait g d \<noteq> None \<Longrightarrow> d \<notin> set (bg_active g) \<and> \<not> loc_less loc (the (first_wait g d))"
  shows "\<exists>kept' g'. foldM (retain_wait loc) ds (kept, g) = Some (kept', g') \<and> waited loc (set ds) (set (bg_active g)) g g' \<and>
    bg_instr_waits g' = bg_instr_waits g \<and> set kept' = set kept \<union> set ds \<inter> set (bg_active g)"
  using assms
proof (induction ds arbitrary: kept g)
  case (Cons d ds)
  define g1 where "g1 = (if d \<in> set (bg_active g)
    then g\<lparr>bg_deps := (bg_deps g)[d := (bg_deps g ! d)\<lparr>bd_first_wait := Some loc\<rparr>], bg_active := removeAll d (bg_active g)\<rparr> else g)"
  define kept1 where "kept1 = (if d \<in> set (bg_active g) then kept @ [d] else kept)"
  have 1: "retain_wait loc d (kept, g) = Some (kept1, g1)"
    using retain_wait_cases [of d g loc kept] Cons.prems by (auto simp: g1_def kept1_def)
  have fw: "first_wait g1 e = (if e = d \<and> d \<in> set (bg_active g) then Some loc else first_wait g e)" "read_dep g1 e = read_dep g e" for e
    using Cons.prems(1) by (auto simp: g1_def first_wait_def read_dep_def nth_list_update)
  have act: "set (bg_active g1) = set (bg_active g) - {d}" "length (bg_deps g1) = length (bg_deps g)"
    "bg_instr_deps g1 = bg_instr_deps g" "bg_instr_waits g1 = bg_instr_waits g"
    by (auto simp: g1_def)
  obtain kept' g' where 2: "foldM (retain_wait loc) ds (kept1, g1) = Some (kept', g')" "waited loc (set ds) (set (bg_active g1)) g1 g'"
    "bg_instr_waits g' = bg_instr_waits g1" "set kept' = set kept1 \<union> set ds \<inter> set (bg_active g1)"
  proof -
    have later: "e \<notin> set (bg_active g1) \<and> \<not> loc_less loc (the (first_wait g1 e))" if "e \<in> set ds" "first_wait g1 e \<noteq> None" for e
    proof (cases "e = d \<and> d \<in> set (bg_active g)")
      case False
      then have "first_wait g1 e = first_wait g e" unfolding fw(1) by (rule if_not_P)
      then show ?thesis using that Cons.prems(2) [of e] act(1) by auto
    qed (simp add: fw act)
    show thesis
      using Cons.IH [of g1 kept1, OF _ later] Cons.prems(1) act(2) that by auto
  qed
  have "waited loc (set (d # ds)) (set (bg_active g)) g g'"
    using 2(2) Cons.prems(1) unfolding waited_def by (auto simp: fw act)
  then show ?case using 1 2 act by (auto simp: kept1_def)
qed (auto simp: waited_def)

lemma add_waits_spec:
  assumes "set ds \<subseteq> {..<length (bg_deps g)}" and "bg_instr_waits g loc = None"
    and "\<And>d. d \<in> set ds \<Longrightarrow> first_wait g d \<noteq> None \<Longrightarrow> d \<notin> set (bg_active g) \<and> \<not> loc_less loc (the (first_wait g d))"
    and A: "A = set (bg_active g) - {r. \<exists>d\<in>set ds. read_dep g d = Some r}"
  shows "\<exists>g' ws. add_waits loc ds g = Some g' \<and> waited loc (set ds) A g g' \<and>
    bg_instr_waits g' = (bg_instr_waits g)(loc \<mapsto> ws) \<and> set ws = set ds \<inter> A"
proof -
  obtain act where act: "foldM drop_read ds g = Some (g\<lparr>bg_active := act\<rparr>)" "set act = A"
    using drop_reads [OF assms(1)] A by auto
  let ?g = "g\<lparr>bg_active := act\<rparr>"
  obtain kept g' where r: "foldM (retain_wait loc) ds ([], ?g) = Some (kept, g')" "waited loc (set ds) A ?g g'"
    "bg_instr_waits g' = bg_instr_waits ?g" "set kept = set ds \<inter> A"
    using retains [of ds ?g loc "[]"] assms act by (fastforce simp: first_wait_def)
  let ?g' = "g'\<lparr>bg_instr_waits := (bg_instr_waits g')(loc \<mapsto> sort kept)\<rparr>"
  have "add_waits loc ds g = Some ?g'" using act r assms(2) by (simp add: add_waits_def)
  moreover have "waited loc (set ds) A g ?g'" using r(2) by (simp add: waited_def first_wait_def read_dep_def)
  ultimately show ?thesis using r(3,4) by (intro exI [of _ ?g'] exI [of _ "sort kept"]) simp
qed

subsection \<open>Accesses and the dependencies they get\<close>

text \<open>
  The blocks one after the other are a list of instructions with their places.  The one at \<^term>\<open>p\<close> gets two
  dependencies if it needs a scoreboard, the read before the write.
\<close>

type_synonym Placed = "(Loc \<times> Instr) list"

definition needs :: "'a SchedModel_scheme \<Rightarrow> Placed \<Rightarrow> nat \<Rightarrow> bool" where
  "needs sm L p \<longleftrightarrow> op_needs_scoreboard sm (in_op (snd (L ! p)))"

definition rd_of :: "'a SchedModel_scheme \<Rightarrow> Placed \<Rightarrow> nat \<Rightarrow> nat" where
  "rd_of sm L p = 2 * length (filter (needs sm L) [0..<p])"

definition dep_of :: "'a SchedModel_scheme \<Rightarrow> Placed \<Rightarrow> nat \<Rightarrow> bool \<Rightarrow> nat" where
  "dep_of sm L p wr = rd_of sm L p + (if wr then 1 else 0)"

definition access :: "'a SchedModel_scheme \<Rightarrow> Placed \<Rightarrow> nat \<Rightarrow> bool \<Rightarrow> nat \<Rightarrow> bool" where
  "access sm L p wr m \<longleftrightarrow> p < m \<and> needs sm L p \<and> touches (snd (L ! p)) wr \<noteq> {}"

lemma rd_of_simps [simp]:
  "rd_of sm L 0 = 0" "rd_of sm L (Suc m) = rd_of sm L m + (if needs sm L m then 2 else 0)"
  by (simp_all add: rd_of_def)

lemma rd_of_mono: "p \<le> q \<Longrightarrow> rd_of sm L p \<le> rd_of sm L q"
  by (rule lift_Suc_mono_le) simp_all

lemma rd_of_less:
  assumes "p < q" and "needs sm L p"
  shows "rd_of sm L p + 2 \<le> rd_of sm L q"
  using rd_of_mono [of "Suc p" q sm L] assms by simp

lemma dep_of_less: "p < m \<Longrightarrow> needs sm L p \<Longrightarrow> dep_of sm L p wr < rd_of sm L m"
  using rd_of_less [of p m sm L] by (simp add: dep_of_def)

lemma access_dep_less: "access sm L p wr m \<Longrightarrow> dep_of sm L p wr' < rd_of sm L m"
  by (simp add: access_def dep_of_less)

lemma dep_of_inj:
  assumes "needs sm L p" "needs sm L q" "dep_of sm L p a = dep_of sm L q b"
  shows "p = q \<and> a = b"
proof -
  consider "p < q" | "q < p" | "p = q" by linarith
  then show ?thesis
  proof cases
    case 1
    then show ?thesis using rd_of_less [OF 1 assms(1)] assms(3) by (simp add: dep_of_def split: if_splits)
  next
    case 2
    then show ?thesis using rd_of_less [OF 2 assms(2)] assms(3) by (simp add: dep_of_def split: if_splits)
  next
    case 3
    then show ?thesis using assms(3) by (simp add: dep_of_def split: if_splits)
  qed
qed

text \<open>The access has been waited for before \<^term>\<open>n\<close>; waiting for a write is waiting for the read.\<close>

definition awaited :: "'a SchedModel_scheme \<Rightarrow> Placed \<Rightarrow> BDepGraph \<Rightarrow> nat \<Rightarrow> bool \<Rightarrow> nat \<Rightarrow> bool" where
  "awaited sm L g p wr n \<longleftrightarrow>
     (\<exists>j. p < j \<and> j < n \<and> (first_wait g (dep_of sm L p True) = Some (fst (L ! j)) \<or> \<not> wr \<and> first_wait g (dep_of sm L p False) = Some (fst (L ! j))))"

text \<open>The cells of an access remember it, or the later write of the same instruction.\<close>

definition held :: "'a SchedModel_scheme \<Rightarrow> Placed \<Rightarrow> (RegCell \<Rightarrow> BarUse) \<Rightarrow> nat \<Rightarrow> bool \<Rightarrow> bool" where
  "held sm L uses p wr \<longleftrightarrow>
     (\<forall>x\<in>touches (snd (L ! p)) wr. view_of (uses x) = VWrite (dep_of sm L p True) \<or>
        \<not> wr \<and> (\<exists>R. view_of (uses x) = VReads R \<and> dep_of sm L p False \<in> R))"

text \<open>What holds after the first \<^term>\<open>m\<close> instructions: of the graph, and of the accesses.\<close>

definition graph_inv :: "'a SchedModel_scheme \<Rightarrow> Placed \<Rightarrow> nat \<Rightarrow> BDepGraph \<Rightarrow> bool" where
  "graph_inv sm L m g \<longleftrightarrow>
     length (bg_deps g) = rd_of sm L m \<and>
     (\<forall>p. p < m \<longrightarrow> needs sm L p \<longrightarrow> read_dep g (dep_of sm L p False) = None \<and> read_dep g (dep_of sm L p True) = Some (dep_of sm L p False) \<and>
        bg_instr_deps g (fst (L ! p)) = Some (dep_of sm L p False, dep_of sm L p True)) \<and>
     (\<forall>d w. d < rd_of sm L m \<longrightarrow> first_wait g d = Some w \<longrightarrow> d \<notin> set (bg_active g) \<and> (\<exists>j. j < m \<and> w = fst (L ! j))) \<and>
     (\<forall>j. j < m \<longrightarrow> set (get_instr_waits (fst (L ! j)) g) = {d. d < rd_of sm L m \<and> first_wait g d = Some (fst (L ! j))}) \<and>
     dom (bg_instr_waits g) = {fst (L ! j) | j. j < m}"

definition access_inv :: "'a SchedModel_scheme \<Rightarrow> Placed \<Rightarrow> nat \<Rightarrow> (RegCell \<Rightarrow> BarUse) \<Rightarrow> BDepGraph \<Rightarrow> bool" where
  "access_inv sm L m uses g \<longleftrightarrow>
     (\<forall>d. d \<in> set (bg_active g) \<or> (\<exists>x. d \<in> v_deps (view_of (uses x))) \<longrightarrow> (\<exists>p wr. access sm L p wr m \<and> d = dep_of sm L p wr)) \<and>
     (\<forall>p wr. access sm L p wr m \<longrightarrow> \<not> awaited sm L g p wr m \<longrightarrow> dep_of sm L p wr \<in> set (bg_active g) \<and> held sm L uses p wr) \<and>
     (\<forall>p wr q. access sm L p wr q \<longrightarrow> q < m \<longrightarrow> conflicts (snd (L ! p)) wr (snd (L ! q)) \<or> is_branch (snd (L ! q)) \<longrightarrow> awaited sm L g p wr (Suc q))"

definition wait_inv :: "'a SchedModel_scheme \<Rightarrow> Placed \<Rightarrow> nat \<Rightarrow> (RegCell \<Rightarrow> BarUse) \<times> BDepGraph \<Rightarrow> bool" where
  "wait_inv sm L m = (\<lambda>(uses, g). graph_inv sm L m g \<and> access_inv sm L m uses g)"

text \<open>The places are in the order in which the pass meets them.\<close>

definition placed :: "Placed \<Rightarrow> bool" where
  "placed L \<longleftrightarrow> (\<forall>i j. i < j \<longrightarrow> j < length L \<longrightarrow> loc_less (fst (L ! i)) (fst (L ! j)))"

lemma placed_less: "placed L \<Longrightarrow> i < length L \<Longrightarrow> j < length L \<Longrightarrow> loc_less (fst (L ! i)) (fst (L ! j)) \<longleftrightarrow> i < j"
proof -
  have asym: "loc_less a b \<Longrightarrow> loc_less b a \<Longrightarrow> False" for a b by (auto simp: loc_less_def)
  assume "placed L" "i < length L" "j < length L"
  then show ?thesis using asym unfolding placed_def by (metis linorder_neqE_nat loc_less_irrefl)
qed

lemma placed_eq: "placed L \<Longrightarrow> i < length L \<Longrightarrow> j < length L \<Longrightarrow> fst (L ! i) = fst (L ! j) \<longleftrightarrow> i = j"
  using placed_less [of L i j] placed_less [of L j i] by (metis linorder_neqE_nat loc_less_irrefl)

text \<open>The graph when the accesses of the instruction at \<^term>\<open>m\<close> have been added to it.\<close>

definition signalled :: "'a SchedModel_scheme \<Rightarrow> Placed \<Rightarrow> nat \<Rightarrow> BDepGraph \<Rightarrow> BDepGraph \<Rightarrow> bool" where
  "signalled sm L m g g1 \<longleftrightarrow>
     length (bg_deps g1) = rd_of sm L (Suc m) \<and> bg_instr_waits g1 = bg_instr_waits g \<and>
     (\<forall>d. d < rd_of sm L m \<longrightarrow> first_wait g1 d = first_wait g d \<and> read_dep g1 d = read_dep g d) \<and>
     (\<forall>d. rd_of sm L m \<le> d \<longrightarrow> d < rd_of sm L (Suc m) \<longrightarrow> first_wait g1 d = None) \<and>
     (needs sm L m \<longrightarrow> read_dep g1 (dep_of sm L m False) = None \<and> read_dep g1 (dep_of sm L m True) = Some (dep_of sm L m False)) \<and>
     bg_instr_deps g1 = (if needs sm L m then (bg_instr_deps g)(fst (L ! m) \<mapsto> (dep_of sm L m False, dep_of sm L m True)) else bg_instr_deps g) \<and>
     set (bg_active g1) = set (bg_active g) \<union> {dep_of sm L m wr | wr. access sm L m wr (Suc m)}"

lemma access_Suc: "access sm L p wr (Suc m) \<longleftrightarrow> access sm L p wr m \<or> p = m \<and> access sm L m wr (Suc m)"
  by (auto simp: access_def less_Suc_eq)

lemma awaited_later: "awaited sm L g p wr m \<Longrightarrow> m \<le> n \<Longrightarrow> awaited sm L g p wr n"
  unfolding awaited_def by (meson le_trans less_le_trans)

lemma awaited_read: "awaited sm L g p True n \<Longrightarrow> awaited sm L g p wr n"
  by (auto simp: awaited_def)

lemma access_needs: "access sm L p wr m \<Longrightarrow> p < m \<and> needs sm L p"
  by (simp add: access_def)

lemma dep_of_new: "d < rd_of sm L m \<Longrightarrow> d \<noteq> dep_of sm L m wr"
  by (auto simp: dep_of_def)

text \<open>
  One instruction: the graph \<^term>\<open>g1\<close> after its accesses have been added waits for \<^term>\<open>W\<close> at its place.
  What is no longer active is \<^term>\<open>W\<close> and the reads of the writes in it.
\<close>

definition still_active :: "'a SchedModel_scheme \<Rightarrow> Placed \<Rightarrow> nat \<Rightarrow> nat set \<Rightarrow> BDepGraph \<Rightarrow> nat set" where
  "still_active sm L m W g1 = set (bg_active g1) - {dep_of sm L p False | p. p < m \<and> needs sm L p \<and> dep_of sm L p True \<in> W}"

definition waits_at :: "'a SchedModel_scheme \<Rightarrow> Placed \<Rightarrow> nat \<Rightarrow> nat set \<Rightarrow> BDepGraph \<Rightarrow> BDepGraph \<Rightarrow> BDepGraph \<Rightarrow> bool" where
  "waits_at sm L m W g g1 g' \<longleftrightarrow>
     (\<forall>d. d < rd_of sm L m \<longrightarrow>
        first_wait g' d = (if d \<in> W \<inter> still_active sm L m W g1 then Some (fst (L ! m)) else first_wait g d)) \<and>
     (\<forall>d. rd_of sm L m \<le> d \<longrightarrow> d < rd_of sm L (Suc m) \<longrightarrow> first_wait g' d = None) \<and>
     set (bg_active g') = still_active sm L m W g1 - W"

lemma read_deps_of:
  assumes gi: "graph_inv sm L m g" and s: "signalled sm L m g g1"
    and W: "\<forall>d\<in>W. \<exists>p wr. access sm L p wr m \<and> d = dep_of sm L p wr"
  shows "{r. \<exists>d\<in>W. read_dep g1 d = Some r} = {dep_of sm L p False | p. p < m \<and> needs sm L p \<and> dep_of sm L p True \<in> W}"
proof -
  have r: "read_dep g1 (dep_of sm L p b) = (if b then Some (dep_of sm L p False) else None)" if "p < m" "needs sm L p" for p b
    using gi s that dep_of_less [OF that, of b] by (simp add: graph_inv_def signalled_def)
  show ?thesis
  proof (intro set_eqI iffI)
    fix x assume "x \<in> {r. \<exists>d\<in>W. read_dep g1 d = Some r}"
    then obtain d where d: "d \<in> W" "read_dep g1 d = Some x" by blast
    obtain p b where p: "access sm L p b m" "d = dep_of sm L p b" using bspec [OF W d(1)] by blast
    then show "x \<in> {dep_of sm L p False | p. p < m \<and> needs sm L p \<and> dep_of sm L p True \<in> W}"
      using d r access_needs [OF p(1)] by (auto split: if_splits)
  next
    fix x assume "x \<in> {dep_of sm L p False | p. p < m \<and> needs sm L p \<and> dep_of sm L p True \<in> W}"
    then obtain p where p: "p < m" "needs sm L p" "dep_of sm L p True \<in> W" "x = dep_of sm L p False" by blast
    then have "read_dep g1 (dep_of sm L p True) = Some x" using r [OF p(1,2), of True] by simp
    then show "x \<in> {r. \<exists>d\<in>W. read_dep g1 d = Some r}" using p(3) by blast
  qed
qed

lemma active_unwaited:
  assumes gi: "graph_inv sm L m g" and s: "signalled sm L m g g1" and d: "d \<in> set (bg_active g1)" "d < rd_of sm L m"
  shows "first_wait g d = None"
proof (rule ccontr)
  assume "first_wait g d \<noteq> None"
  then obtain w where "first_wait g d = Some w" by blast
  then have "d \<notin> set (bg_active g)" using gi d(2) unfolding graph_inv_def by blast
  then show False using d s dep_of_new [OF d(2)] unfolding signalled_def by blast
qed

lemma place_new: "placed L \<Longrightarrow> m < length L \<Longrightarrow> j < m \<Longrightarrow> fst (L ! m) \<noteq> fst (L ! j) \<and> \<not> loc_less (fst (L ! m)) (fst (L ! j))"
  using placed_eq [of L m j] placed_less [of L m j] by auto

lemma add_waits_at:
  assumes L: "placed L" "m < length L" and gi: "graph_inv sm L m g" and s: "signalled sm L m g g1"
    and W: "\<forall>d\<in>set W. \<exists>p wr. access sm L p wr m \<and> d = dep_of sm L p wr"
  shows "\<exists>g' ws. add_waits (fst (L ! m)) W g1 = Some g' \<and> waits_at sm L m (set W) g g1 g' \<and>
    waited (fst (L ! m)) (set W) (still_active sm L m (set W) g1) g1 g' \<and>
    bg_instr_waits g' = (bg_instr_waits g)(fst (L ! m) \<mapsto> ws) \<and> set ws = set W \<inter> still_active sm L m (set W) g1"
proof -
  let ?loc = "fst (L ! m)" and ?n = "rd_of sm L m" and ?n1 = "rd_of sm L (Suc m)" and ?A = "still_active sm L m (set W) g1"
  have s1: "length (bg_deps g1) = ?n1" "bg_instr_waits g1 = bg_instr_waits g"
    "\<And>d. d < ?n \<Longrightarrow> first_wait g1 d = first_wait g d" "\<And>d. ?n \<le> d \<Longrightarrow> d < ?n1 \<Longrightarrow> first_wait g1 d = None"
    using s by (simp_all add: signalled_def)
  have Wn: "d < ?n" if "d \<in> set W" for d using bspec [OF W that] access_dep_less by blast
  have "?loc \<notin> dom (bg_instr_waits g)"
    using gi place_new [OF L] unfolding graph_inv_def by blast
  then have fresh: "bg_instr_waits g1 ?loc = None" by (simp add: s1(2) dom_def)
  have pre: "d \<notin> set (bg_active g1) \<and> \<not> loc_less ?loc (the (first_wait g1 d))" if d: "d \<in> set W" "first_wait g1 d \<noteq> None" for d
  proof -
    have g: "first_wait g d \<noteq> None" using s1(3) [OF Wn [OF d(1)]] d(2) by simp
    have "d \<notin> set (bg_active g1)" using active_unwaited [OF gi s _ Wn [OF d(1)]] g by auto
    moreover obtain w where w: "first_wait g d = Some w" using g by blast
    then obtain j where "j < m" "w = fst (L ! j)" using gi Wn [OF d(1)] unfolding graph_inv_def by blast
    ultimately show ?thesis using w s1(3) [OF Wn [OF d(1)]] place_new [OF L] by simp
  qed
  have Wl: "set W \<subseteq> {..<length (bg_deps g1)}"
  proof
    fix d assume "d \<in> set W"
    then show "d \<in> {..<length (bg_deps g1)}" using Wn [of d] s1(1) by simp
  qed
  have A: "?A = set (bg_active g1) - {r. \<exists>d\<in>set W. read_dep g1 d = Some r}"
    using read_deps_of [OF gi s W] by (simp add: still_active_def)
  obtain g' ws where g': "add_waits ?loc W g1 = Some g'" and wd: "waited ?loc (set W) ?A g1 g'"
    and iw: "bg_instr_waits g' = (bg_instr_waits g1)(?loc \<mapsto> ws)" "set ws = set W \<inter> ?A"
    using add_waits_spec [OF Wl fresh pre A] by blast
  have "waits_at sm L m (set W) g g1 g'"
    unfolding waits_at_def
  proof (intro conjI allI impI)
    fix d assume d: "d < ?n"
    then show "first_wait g' d = (if d \<in> set W \<inter> ?A then Some ?loc else first_wait g d)"
      using wd s1(1) s1(3) [OF d] by (simp add: waited_def)
  next
    fix d assume d: "?n \<le> d" "d < ?n1"
    then have "d \<notin> set W" using Wn [of d] by auto
    then show "first_wait g' d = None" using wd s1(1) s1(4) [OF d] d(2) unfolding waited_def by simp
  qed (use wd in \<open>simp add: waited_def\<close>)
  then show ?thesis using g' wd iw s1(2) by auto
qed

lemma waits_at_earlier:
  assumes gi: "graph_inv sm L m g" and s: "signalled sm L m g g1" and w: "waits_at sm L m W g g1 g'" and d: "d < rd_of sm L m" "first_wait g d = Some l"
  shows "first_wait g' d = Some l"
proof -
  have "d \<notin> still_active sm L m W g1" using active_unwaited [OF gi s _ d(1)] d(2) by (auto simp: still_active_def)
  then show ?thesis using w d unfolding waits_at_def by auto
qed

lemma graph_step:
  assumes L: "placed L" "m < length L" and gi: "graph_inv sm L m g" and s: "signalled sm L m g g1"
    and w: "waits_at sm L m W g g1 g'" and wd: "waited (fst (L ! m)) W (still_active sm L m W g1) g1 g'"
    and iw: "bg_instr_waits g' = (bg_instr_waits g)(fst (L ! m) \<mapsto> ws)" "set ws = W \<inter> still_active sm L m W g1"
    and W: "W \<subseteq> {..<rd_of sm L m}"
  shows "graph_inv sm L (Suc m) g'"
proof -
  let ?loc = "fst (L ! m)" and ?n = "rd_of sm L m" and ?n1 = "rd_of sm L (Suc m)" and ?A = "still_active sm L m W g1"
  have s1: "length (bg_deps g1) = ?n1" "\<And>d. d < ?n \<Longrightarrow> read_dep g1 d = read_dep g d"
    "needs sm L m \<Longrightarrow> read_dep g1 (dep_of sm L m False) = None \<and> read_dep g1 (dep_of sm L m True) = Some (dep_of sm L m False)"
    "bg_instr_deps g1 = (if needs sm L m then (bg_instr_deps g)(?loc \<mapsto> (dep_of sm L m False, dep_of sm L m True)) else bg_instr_deps g)"
    using s by (simp_all add: signalled_def)
  have g2: "\<And>p. p < m \<Longrightarrow> needs sm L p \<Longrightarrow> read_dep g (dep_of sm L p False) = None \<and> read_dep g (dep_of sm L p True) = Some (dep_of sm L p False) \<and>
        bg_instr_deps g (fst (L ! p)) = Some (dep_of sm L p False, dep_of sm L p True)"
    and g3: "\<And>d w. d < ?n \<Longrightarrow> first_wait g d = Some w \<Longrightarrow> d \<notin> set (bg_active g) \<and> (\<exists>j. j < m \<and> w = fst (L ! j))"
    and g4: "\<And>j. j < m \<Longrightarrow> set (get_instr_waits (fst (L ! j)) g) = {d. d < ?n \<and> first_wait g d = Some (fst (L ! j))}"
    and g5: "dom (bg_instr_waits g) = {fst (L ! j) | j. j < m}"
    using gi unfolding graph_inv_def by blast+
  have g': "length (bg_deps g') = ?n1" "bg_instr_deps g' = bg_instr_deps g1" "set (bg_active g') = ?A - W"
    and rd': "\<And>d. d < ?n1 \<Longrightarrow> read_dep g' d = read_dep g1 d"
    using wd s1(1) by (simp_all add: waited_def)
  have fw: "first_wait g' d = Some w \<longleftrightarrow> d < ?n \<and> (if d \<in> W \<inter> ?A then w = ?loc else first_wait g d = Some w)" if "d < ?n1" for d w
    using w that unfolding waits_at_def by (cases "d < ?n") (auto simp: not_less)
  have n: "?n \<le> ?n1" by simp
  note new = place_new [OF L]
  show ?thesis
    unfolding graph_inv_def
  proof (intro conjI allI impI)
    fix p assume p: "p < Suc m" "needs sm L p"
    have r: "read_dep g' (dep_of sm L p b) = read_dep g1 (dep_of sm L p b)" for b using rd' [OF dep_of_less [OF p]] .
    have old: "read_dep g1 (dep_of sm L p b) = read_dep g (dep_of sm L p b)" if "p < m" for b
      using s1(2) [OF dep_of_less [OF that p(2)]] .
    show "read_dep g' (dep_of sm L p False) = None" "read_dep g' (dep_of sm L p True) = Some (dep_of sm L p False)"
      using g2 [OF _ p(2)] s1(3) p r old by (cases "p = m"; auto)+
    show "bg_instr_deps g' (fst (L ! p)) = Some (dep_of sm L p False, dep_of sm L p True)"
      using g2 [OF _ p(2)] g'(2) s1(4) p new [of p] by (cases "p = m") auto
  next
    fix d l assume d: "d < ?n1" "first_wait g' d = Some l"
    then have l: "d < ?n" "if d \<in> W \<inter> ?A then l = ?loc else first_wait g d = Some l" using fw by blast+
    have nA: "d \<notin> ?A" if "first_wait g d = Some l"
      using active_unwaited [OF gi s _ l(1)] that by (auto simp: still_active_def)
    show "d \<notin> set (bg_active g')"
    proof (cases "d \<in> W \<inter> ?A")
      case False
      then have "first_wait g d = Some l" using l(2) by (simp only: if_False)
      then show ?thesis using nA unfolding g'(3) by blast
    next
      case True
      then show ?thesis unfolding g'(3) by blast
    qed
    show "\<exists>j. j < Suc m \<and> l = fst (L ! j)"
    proof (cases "d \<in> W \<inter> ?A")
      case True
      then have "l = ?loc" using l(2) by (simp only: if_True)
      then show ?thesis using lessI [of m] by (intro exI [of _ m] conjI)
    next
      case False
      then have "first_wait g d = Some l" using l(2) by simp
      then show ?thesis using g3 [OF l(1)] less_SucI by blast
    qed
  next
    fix j assume j: "j < Suc m"
    show "set (get_instr_waits (fst (L ! j)) g') = {d. d < ?n1 \<and> first_wait g' d = Some (fst (L ! j))}"
    proof (cases "j = m")
      case True
      have "first_wait g d \<noteq> Some ?loc" if "d < ?n" for d using g3 [OF that] new by blast
      then have "d < ?n1 \<and> first_wait g' d = Some ?loc \<longleftrightarrow> d \<in> W \<inter> ?A" for d
        using fw [of d ?loc] W n by (cases "d \<in> W \<inter> ?A") auto
      then show ?thesis using True iw by (auto simp: get_instr_waits_def)
    next
      case False
      then have jm: "j < m" using j by simp
      have "d < ?n1 \<and> first_wait g' d = Some (fst (L ! j)) \<longleftrightarrow> d < ?n \<and> first_wait g d = Some (fst (L ! j))" for d
        using fw [of d "fst (L ! j)"] new [OF jm] n waits_at_earlier [OF gi s w, of d "fst (L ! j)"] by (auto split: if_splits)
      then have "set (get_instr_waits (fst (L ! j)) g) = {d. d < ?n1 \<and> first_wait g' d = Some (fst (L ! j))}"
        unfolding g4 [OF jm] by (simp only:)
      moreover have "get_instr_waits (fst (L ! j)) g' = get_instr_waits (fst (L ! j)) g"
        using new [OF jm] iw(1) by (auto simp: get_instr_waits_def)
      ultimately show ?thesis by (simp only:)
    qed
  next
    show "dom (bg_instr_waits g') = {fst (L ! j) | j. j < Suc m}"
      using g5 iw(1) by (auto simp: less_Suc_eq)
  qed (use g'(1) in simp)
qed

text \<open>Every access that should be waited for has been after the step.\<close>

lemma waits_for_access:
  assumes gi: "graph_inv sm L m g" and ai: "access_inv sm L m uses g" and s: "signalled sm L m g g1" and w: "waits_at sm L m W g g1 g'"
    and W: "\<forall>d\<in>W. \<exists>p wr. access sm L p wr m \<and> d = dep_of sm L p wr"
    and p: "p < m" "needs sm L p"
  shows "awaited sm L g p wr k \<Longrightarrow> awaited sm L g' p wr k"
    and "dep_of sm L p True \<in> W \<Longrightarrow> awaited sm L g' p wr (Suc m)"
    and "dep_of sm L p False \<in> W \<Longrightarrow> awaited sm L g' p False (Suc m)"
proof -
  let ?A = "still_active sm L m W g1"
  have dl: "dep_of sm L p b < rd_of sm L m" for b using dep_of_less [OF p] .
  show mono: "awaited sm L g' p wr k" if "awaited sm L g p wr k" for wr k
    using that waits_at_earlier [OF gi s w dl] unfolding awaited_def by blast
  have later: "awaited sm L g' p wr (Suc m)" if "awaited sm L g p wr m" for wr
    using awaited_later [OF mono [OF that]] by simp
  have act: "awaited sm L g p b m \<or> dep_of sm L p b \<in> set (bg_active g1)" if "dep_of sm L p b \<in> W" for b
  proof -
    have "access sm L p b m" using bspec [OF W that] dep_of_inj [OF p(2)] unfolding access_def by blast
    then show ?thesis using ai s unfolding access_inv_def signalled_def by blast
  qed
  have now: "first_wait g' (dep_of sm L p b) = Some (fst (L ! m))" if "dep_of sm L p b \<in> W \<inter> ?A" for b
    using w dl that unfolding waits_at_def by simp
  show T: "awaited sm L g' p wr (Suc m)" if t: "dep_of sm L p True \<in> W" for wr
  proof (cases "awaited sm L g p True m")
    case True
    then show ?thesis using awaited_read later by blast
  next
    case False
    have "dep_of sm L p True \<noteq> dep_of sm L q False" if "q < m" "needs sm L q" for q
      using dep_of_inj [OF p(2) that(2)] by blast
    then have "dep_of sm L p True \<in> ?A" using act [OF t] False unfolding still_active_def by blast
    then show ?thesis using now t p(1) unfolding awaited_def by blast
  qed
  show "awaited sm L g' p False (Suc m)" if f: "dep_of sm L p False \<in> W"
  proof (cases "awaited sm L g p False m \<or> dep_of sm L p True \<in> W")
    case True
    then show ?thesis using later T by blast
  next
    case False
    have "dep_of sm L p False \<noteq> dep_of sm L q False" if "needs sm L q" "dep_of sm L q True \<in> W" for q
      using dep_of_inj [OF p(2) that(1)] that(2) False by blast
    then have "dep_of sm L p False \<in> ?A" using act [OF f] False unfolding still_active_def by blast
    then show ?thesis using now f p(1) unfolding awaited_def by blast
  qed
qed

lemma access_step:
  assumes gi: "graph_inv sm L m g" and ai: "access_inv sm L m uses g" and s: "signalled sm L m g g1" and w: "waits_at sm L m W g g1 g'"
    and W: "\<forall>d\<in>W. \<exists>p wr. access sm L p wr m \<and> d = dep_of sm L p wr"
    and conf: "\<And>p wr. access sm L p wr m \<Longrightarrow> \<not> awaited sm L g p wr m \<Longrightarrow>
      conflicts (snd (L ! p)) wr (snd (L ! m)) \<or> is_branch (snd (L ! m)) \<Longrightarrow>
      dep_of sm L p True \<in> W \<or> \<not> wr \<and> dep_of sm L p False \<in> W"
    and uses: "\<And>x d. d \<in> v_deps (view_of (uses' x)) \<Longrightarrow> \<exists>p wr. access sm L p wr (Suc m) \<and> d = dep_of sm L p wr"
    and held: "\<And>p wr. access sm L p wr m \<Longrightarrow> held sm L uses p wr \<Longrightarrow> dep_of sm L p True \<notin> W \<Longrightarrow>
      (\<not> wr \<Longrightarrow> dep_of sm L p False \<notin> W) \<Longrightarrow> held sm L uses' p wr"
    and new: "\<And>wr. access sm L m wr (Suc m) \<Longrightarrow> held sm L uses' m wr"
  shows "access_inv sm L (Suc m) uses' g'"
proof -
  have a1: "\<And>d. d \<in> set (bg_active g) \<Longrightarrow> \<exists>p wr. access sm L p wr m \<and> d = dep_of sm L p wr"
    and a2: "\<And>p wr. access sm L p wr m \<Longrightarrow> \<not> awaited sm L g p wr m \<Longrightarrow> dep_of sm L p wr \<in> set (bg_active g) \<and> held sm L uses p wr"
    and a3: "\<And>p wr q. access sm L p wr q \<Longrightarrow> q < m \<Longrightarrow> conflicts (snd (L ! p)) wr (snd (L ! q)) \<or> is_branch (snd (L ! q)) \<Longrightarrow>
      awaited sm L g p wr (Suc q)"
    using ai unfolding access_inv_def by blast+
  have act1: "set (bg_active g1) = set (bg_active g) \<union> {dep_of sm L m wr | wr. access sm L m wr (Suc m)}"
    using s by (simp add: signalled_def)
  have g': "set (bg_active g') = still_active sm L m W g1 - W" using w by (simp add: waits_at_def)
  note wf = waits_for_access [OF gi ai s w W]
  have 1: "\<exists>p wr. access sm L p wr (Suc m) \<and> d = dep_of sm L p wr" if d: "d \<in> set (bg_active g') \<or> (\<exists>x. d \<in> v_deps (view_of (uses' x)))" for d
  proof -
    consider "d \<in> set (bg_active g)" | wr where "access sm L m wr (Suc m)" "d = dep_of sm L m wr" | x where "d \<in> v_deps (view_of (uses' x))"
      using d unfolding g' still_active_def act1 by blast
    then show "\<exists>p wr. access sm L p wr (Suc m) \<and> d = dep_of sm L p wr"
      using a1 access_Suc uses by cases blast+
  qed
  have 2: "dep_of sm L p wr \<in> set (bg_active g') \<and> held sm L uses' p wr"
    if ac: "access sm L p wr (Suc m)" and na: "\<not> awaited sm L g' p wr (Suc m)" for p wr
  proof -
    have nd: "needs sm L p" using ac by (simp add: access_def)
    have keep: "dep_of sm L p wr \<in> set (bg_active g')"
      if "dep_of sm L p wr \<in> set (bg_active g1)" "dep_of sm L p wr \<notin> W" "\<not> wr \<Longrightarrow> dep_of sm L p True \<notin> W"
    proof -
      have "dep_of sm L p wr \<noteq> dep_of sm L q False" if q: "needs sm L q" "dep_of sm L q True \<in> W" for q
        using dep_of_inj [OF nd q(1)] \<open>\<not> wr \<Longrightarrow> dep_of sm L p True \<notin> W\<close> q(2) by blast
      then show ?thesis using that unfolding g' still_active_def by blast
    qed
    show ?thesis
    proof (cases "p = m")
      case True
      have "dep_of sm L p b \<notin> W" for b
        using W dep_of_inj [OF nd] True unfolding access_def by (metis less_irrefl)
      then show ?thesis using keep new ac True unfolding act1 by blast
    next
      case False
      then have acm: "access sm L p wr m" using ac access_Suc by blast
      have p: "p < m" using acm by (simp add: access_def)
      have nag: "\<not> awaited sm L g p wr m" using na wf(1) [OF p nd] awaited_later [of sm L g' p wr m "Suc m"] by auto
      have nW: "dep_of sm L p True \<notin> W" "\<not> wr \<Longrightarrow> dep_of sm L p False \<notin> W" using wf(2,3) [OF p nd] na by auto
      then have "dep_of sm L p wr \<notin> W" by (cases wr) auto
      then show ?thesis using keep held [OF acm _ nW] a2 [OF acm nag] nW(1) unfolding act1 by blast
    qed
  qed
  have 3: "awaited sm L g' p wr (Suc q)"
    if ac: "access sm L p wr q" and q: "q < Suc m" and c: "conflicts (snd (L ! p)) wr (snd (L ! q)) \<or> is_branch (snd (L ! q))" for p wr q
  proof -
    have p: "p < m" "needs sm L p" using ac q by (simp_all add: access_def)
    show ?thesis
    proof (cases "q = m")
      case qm: True
      show ?thesis
      proof (cases "awaited sm L g p wr m")
        case True
        then show ?thesis using wf(1) [OF p] awaited_later [of sm L g' p wr m "Suc m"] qm by simp
      next
        case False
        then consider "dep_of sm L p True \<in> W" | "\<not> wr" "dep_of sm L p False \<in> W" using conf ac c qm by blast
        then show ?thesis using wf(2,3) [OF p] qm by cases auto
      qed
    next
      case False
      then show ?thesis using wf(1) [OF p] a3 [OF ac _ c] q by simp
    qed
  qed
  show ?thesis unfolding access_inv_def using 1 2 3 by blast
qed

lemma wait_step:
  assumes L: "placed L" "m < length L" and gi: "graph_inv sm L m g" and ai: "access_inv sm L m uses g" and s: "signalled sm L m g g1"
    and W: "\<forall>d\<in>set W. \<exists>p wr. access sm L p wr m \<and> d = dep_of sm L p wr"
    and conf: "\<And>p wr. access sm L p wr m \<Longrightarrow> \<not> awaited sm L g p wr m \<Longrightarrow>
      conflicts (snd (L ! p)) wr (snd (L ! m)) \<or> is_branch (snd (L ! m)) \<Longrightarrow>
      dep_of sm L p True \<in> set W \<or> \<not> wr \<and> dep_of sm L p False \<in> set W"
    and uses: "\<And>x d. d \<in> v_deps (view_of (uses' x)) \<Longrightarrow> \<exists>p wr. access sm L p wr (Suc m) \<and> d = dep_of sm L p wr"
    and held: "\<And>p wr. access sm L p wr m \<Longrightarrow> held sm L uses p wr \<Longrightarrow> dep_of sm L p True \<notin> set W \<Longrightarrow>
      (\<not> wr \<Longrightarrow> dep_of sm L p False \<notin> set W) \<Longrightarrow> held sm L uses' p wr"
    and new: "\<And>wr. access sm L m wr (Suc m) \<Longrightarrow> held sm L uses' m wr"
  shows "\<exists>g'. add_waits (fst (L ! m)) W g1 = Some g' \<and> wait_inv sm L (Suc m) (uses', g') \<and> set (bg_active g') \<subseteq> set (bg_active g1) - set W"
proof -
  obtain g' ws where g': "add_waits (fst (L ! m)) W g1 = Some g'" and w: "waits_at sm L m (set W) g g1 g'"
    and wd: "waited (fst (L ! m)) (set W) (still_active sm L m (set W) g1) g1 g'"
    and iw: "bg_instr_waits g' = (bg_instr_waits g)(fst (L ! m) \<mapsto> ws)" "set ws = set W \<inter> still_active sm L m (set W) g1"
    using add_waits_at [OF L gi s W] by blast
  have "set W \<subseteq> {..<rd_of sm L m}"
  proof
    fix d assume "d \<in> set W"
    then show "d \<in> {..<rd_of sm L m}" using W access_dep_less by fastforce
  qed
  then have "graph_inv sm L (Suc m) g'" by (rule graph_step [OF L gi s w wd iw])
  moreover have "access_inv sm L (Suc m) uses' g'" by (rule access_step [OF gi ai s w W conf uses held new])
  ultimately show ?thesis using g' w by (auto simp: wait_inv_def waits_at_def still_active_def)
qed

subsection \<open>The waits of an instruction\<close>

text \<open>
  An instruction that is guarded by the cells \<^term>\<open>P\<close>, reads \<^term>\<open>S\<close> and writes \<^term>\<open>D\<close> waits for the writes of all
  of them and the reads of \<^term>\<open>D\<close>.
\<close>

definition waits_of :: "('c \<Rightarrow> UseView) \<Rightarrow> 'c set \<Rightarrow> 'c set \<Rightarrow> 'c set \<Rightarrow> nat set" where
  "waits_of V P S D = (\<Union>x\<in>P \<union> S \<union> D. v_writes (V x)) \<union> (\<Union>x\<in>D. v_deps (V x))"

lemma v_deps_simps:
  "d \<in> v_deps (v_clear_write v) \<longleftrightarrow> d \<in> v_deps v \<and> d \<notin> v_writes v"
  "d \<in> v_deps (v_add_read e v) \<longleftrightarrow> d = e \<or> d \<in> v_deps v \<and> d \<notin> v_writes v"
  by (cases v; auto)+

lemma v_writes_deps: "d \<in> v_writes v \<Longrightarrow> d \<in> v_deps v"
  by (cases v) auto

lemma fold_use_facts:
  assumes F: "\<And>u. view_of (snd (f u)) = F (view_of u)" and G: "\<And>u. set (bu_deps (fst (f u))) = G (view_of u)"
    and idem: "\<And>v. F (F v) = F v" and once: "distinct xs \<or> (\<forall>v. G (F v) = {})"
  shows "bs_deps (fold (\<lambda>x. use_cell x f self) xs s) = bs_deps s"
    "view_of (bs_uses (fold (\<lambda>x. use_cell x f self) xs s) y) = (if y \<in> set xs then F (view_of (bs_uses s y)) else view_of (bs_uses s y))"
    "set (bs_waits (fold (\<lambda>x. use_cell x f self) xs s)) =
       set (bs_waits s) \<union> ((\<Union>x\<in>set xs. G (view_of (bs_uses s x))) - {d. self = Some d})"
proof -
  note f = fold_use_cells [of f F G, OF F G idem once, of self s]
  show "bs_deps (fold (\<lambda>x. use_cell x f self) xs s) = bs_deps s" using f by (rule conjunct1)
  show "view_of (bs_uses (fold (\<lambda>x. use_cell x f self) xs s) y) = (if y \<in> set xs then F (view_of (bs_uses s y)) else view_of (bs_uses s y))"
    using f by blast
  have "set (bs_waits (fold (\<lambda>x. use_cell x f self) xs s)) =
      set (bs_waits s) \<union> {d. Some d \<noteq> self \<and> (\<exists>x\<in>set xs. d \<in> G (view_of (bs_uses s x)))}" using f by blast
  then show "set (bs_waits (fold (\<lambda>x. use_cell x f self) xs s)) =
      set (bs_waits s) \<union> ((\<Union>x\<in>set xs. G (view_of (bs_uses s x))) - {d. self = Some d})" by auto
qed

lemma clear_write_drops: "distinct xs \<or> (\<forall>v. v_writes (v_clear_write v) = {})" "distinct xs \<or> (\<forall>v. v_writes (v_add_read d v) = {})"
  "distinct xs \<or> (\<forall>v::UseView. v_deps VNone = {})"
  by simp_all

lemmas fold_preds = fold_use_facts [of bu_clear_write v_clear_write v_writes, OF use_views(3,4) v_idem(1) clear_write_drops(1)]
lemmas fold_reads = fold_use_facts [of "bu_add_read d" "v_add_read d" v_writes for d, OF use_views(5,6) v_idem(2) clear_write_drops(2)]
lemmas fold_clears = fold_use_facts [of bu_clear "\<lambda>_. VNone" v_deps, OF use_views(1,2) refl clear_write_drops(3)]
lemmas fold_writes = fold_use_facts [of "bu_set_write d" "\<lambda>_. VWrite d" v_deps for d, OF use_views(7,8) refl disjI1]

text \<open>A cell that is waited for twice is so once.\<close>

lemma waits_collect:
  assumes V1: "\<And>x. V1 x = (if x \<in> P then v_clear_write (V x) else V x)"
  shows "(\<Union>x\<in>P. v_writes (V x)) \<union> (\<Union>x\<in>S. v_writes (V1 x)) \<union> (\<Union>x\<in>D. v_deps (if x \<in> S then v_clear_write (V1 x) else V1 x)) = waits_of V P S D"
    and "rd \<notin> (\<Union>x\<in>P \<union> S \<union> D. v_deps (V x)) \<Longrightarrow>
      (\<Union>x\<in>P. v_writes (V x)) \<union> (\<Union>x\<in>S. v_writes (V1 x)) \<union> ((\<Union>x\<in>D. v_deps (if x \<in> S then v_add_read rd (V1 x) else V1 x)) - {rd}) = waits_of V P S D"
proof -
  have w: "e \<in> v_writes (V1 x) \<longleftrightarrow> x \<notin> P \<and> e \<in> v_writes (V x)" for e x by (simp add: V1)
  have d: "e \<in> v_deps (if x \<in> S then v_clear_write (V1 x) else V1 x) \<longleftrightarrow> e \<in> v_deps (V x) \<and> \<not> (x \<in> P \<union> S \<and> e \<in> v_writes (V x))" for e x
    by (auto simp: V1 v_deps_simps)
  have r: "e \<in> v_deps (if x \<in> S then v_add_read rd (V1 x) else V1 x) \<longleftrightarrow>
      x \<in> S \<and> e = rd \<or> e \<in> v_deps (V x) \<and> \<not> (x \<in> P \<union> S \<and> e \<in> v_writes (V x))" for e x
    by (auto simp: V1 v_deps_simps)
  note wd = v_writes_deps
  show "(\<Union>x\<in>P. v_writes (V x)) \<union> (\<Union>x\<in>S. v_writes (V1 x)) \<union> (\<Union>x\<in>D. v_deps (if x \<in> S then v_clear_write (V1 x) else V1 x)) = waits_of V P S D"
  proof (rule set_eqI)
    fix e
    show "e \<in> (\<Union>x\<in>P. v_writes (V x)) \<union> (\<Union>x\<in>S. v_writes (V1 x)) \<union> (\<Union>x\<in>D. v_deps (if x \<in> S then v_clear_write (V1 x) else V1 x)) \<longleftrightarrow>
        e \<in> waits_of V P S D"
      unfolding waits_of_def UN_iff Un_iff w d using wd [of e] by blast
  qed
  show "(\<Union>x\<in>P. v_writes (V x)) \<union> (\<Union>x\<in>S. v_writes (V1 x)) \<union> ((\<Union>x\<in>D. v_deps (if x \<in> S then v_add_read rd (V1 x) else V1 x)) - {rd}) = waits_of V P S D"
    if "rd \<notin> (\<Union>x\<in>P \<union> S \<union> D. v_deps (V x))"
  proof (rule set_eqI)
    fix e
    have e: "e \<noteq> rd \<or> (\<forall>x\<in>P \<union> S \<union> D. e \<notin> v_deps (V x))" using that by blast
    show "e \<in> (\<Union>x\<in>P. v_writes (V x)) \<union> (\<Union>x\<in>S. v_writes (V1 x)) \<union> ((\<Union>x\<in>D. v_deps (if x \<in> S then v_add_read rd (V1 x) else V1 x)) - {rd}) \<longleftrightarrow>
        e \<in> waits_of V P S D"
      unfolding waits_of_def UN_iff Un_iff Diff_iff w r using wd [of e] e by blast
  qed
qed

lemma fixed_uses:
  fixes uses g P S D
  defines "s \<equiv> use_fixed S D (fold (\<lambda>x. use_cell x bu_clear_write None) P \<lparr>bs_uses = uses, bs_deps = g, bs_waits = []\<rparr>)"
  shows "bs_deps s = g" "set (bs_waits s) = waits_of (\<lambda>x. view_of (uses x)) (set P) (set S) (set D)"
    "view_of (bs_uses s y) = (if y \<in> set D then VNone else if y \<in> set P \<union> set S then v_clear_write (view_of (uses y)) else view_of (uses y))"
proof -
  let ?V = "\<lambda>x. view_of (uses x)" and ?V1 = "\<lambda>x. if x \<in> set P then v_clear_write (view_of (uses x)) else view_of (uses x)"
  have "set (bs_waits s) = (\<Union>x\<in>set P. v_writes (?V x)) \<union> (\<Union>x\<in>set S. v_writes (?V1 x)) \<union>
      (\<Union>x\<in>set D. v_deps (if x \<in> set S then v_clear_write (?V1 x) else ?V1 x))"
    by (simp add: s_def use_fixed_def fold_preds fold_clears cong: if_cong)
  also have "\<dots> = waits_of ?V (set P) (set S) (set D)" by (rule waits_collect(1)) (rule refl)
  finally show "set (bs_waits s) = waits_of ?V (set P) (set S) (set D)" .
qed (simp_all add: s_def use_fixed_def fold_preds fold_clears cong: if_cong)

text \<open>With a scoreboard; the graph is the one to which the dependencies of the instruction have been added.\<close>

definition signal_graph :: "Loc \<Rightarrow> bool \<Rightarrow> bool \<Rightarrow> BDepGraph \<Rightarrow> BDepGraph" where
  "signal_graph loc reads writes g =
     (let ((rd, wr), g) = add_instr loc g; g = (if reads then add_signal rd g else g)
      in if writes then add_signal wr g else g)"

lemma scoreboard_uses:
  fixes uses g P S D loc
  defines "s \<equiv> use_scoreboard loc S D (fold (\<lambda>x. use_cell x bu_clear_write None) P \<lparr>bs_uses = uses, bs_deps = g, bs_waits = []\<rparr>)"
  defines "rd \<equiv> length (bg_deps g)"
  assumes D: "distinct D" and rd: "rd \<notin> (\<Union>x\<in>set P \<union> set S \<union> set D. v_deps (view_of (uses x)))"
  shows "bs_deps s = signal_graph loc (S \<noteq> []) (D \<noteq> []) g"
    "set (bs_waits s) = waits_of (\<lambda>x. view_of (uses x)) (set P) (set S) (set D)"
    "view_of (bs_uses s y) = (if y \<in> set D then VWrite (Suc rd) else
       let v = (if y \<in> set P then v_clear_write (view_of (uses y)) else view_of (uses y)) in if y \<in> set S then v_add_read rd v else v)"
proof -
  let ?V = "\<lambda>x. view_of (uses x)" and ?V1 = "\<lambda>x. if x \<in> set P then v_clear_write (view_of (uses x)) else view_of (uses x)"
  note s = s_def use_scoreboard_def Let_def prod.case fold_use_signal add_instr_def add_new_dep_def
  have "set (bs_waits s) = (\<Union>x\<in>set P. v_writes (?V x)) \<union> (\<Union>x\<in>set S. v_writes (?V1 x)) \<union>
      ((\<Union>x\<in>set D. v_deps (if x \<in> set S then v_add_read rd (?V1 x) else ?V1 x)) - {rd})"
    by (simp add: s fold_preds fold_reads fold_writes [OF D] rd_def cong: if_cong)
  also have "\<dots> = waits_of ?V (set P) (set S) (set D)" by (rule waits_collect(2) [OF _ rd]) (rule refl)
  finally show "set (bs_waits s) = waits_of ?V (set P) (set S) (set D)" .
qed (simp_all add: s_def use_scoreboard_def fold_use_signal add_instr_def add_new_dep_def signal_graph_def fold_preds fold_reads fold_writes [OF D] rd_def cong: if_cong)

lemma held_waits:
  assumes h: "held sm L uses p wr" and c: "conflicts (snd (L ! p)) wr i"
  shows "dep_of sm L p True \<in> waits_of (\<lambda>x. view_of (uses x)) (guarded i) (sourced i) (written i) \<or>
    \<not> wr \<and> dep_of sm L p False \<in> waits_of (\<lambda>x. view_of (uses x)) (guarded i) (sourced i) (written i)"
proof -
  obtain x where x: "x \<in> touches (snd (L ! p)) wr" "x \<in> (if wr then guarded i \<union> sourced i \<union> written i else written i)"
    using c unfolding conflicts_def by blast
  consider "view_of (uses x) = VWrite (dep_of sm L p True)" | R where "\<not> wr" "view_of (uses x) = VReads R" "dep_of sm L p False \<in> R"
    using h x(1) unfolding held_def by blast
  then show ?thesis
  proof cases
    case 1
    then have "dep_of sm L p True \<in> v_writes (view_of (uses x))" by simp
    moreover have "x \<in> guarded i \<union> sourced i \<union> written i" using x(2) by (cases wr) auto
    ultimately show ?thesis unfolding waits_of_def by blast
  next
    case 2
    then have "dep_of sm L p False \<in> v_deps (view_of (uses x))" "x \<in> written i" using x(2) by auto
    then show ?thesis using 2(1) unfolding waits_of_def by blast
  qed
qed

lemma held_keeps:
  assumes h: "held sm L uses p wr"
    and same: "\<And>x. x \<notin> P \<union> S \<union> D \<Longrightarrow> view_of (uses' x) = view_of (uses x)"
    and reads: "\<And>x R. x \<in> P \<union> S \<Longrightarrow> x \<notin> D \<Longrightarrow> view_of (uses x) = VReads R \<Longrightarrow> \<exists>R'. R \<subseteq> R' \<and> view_of (uses' x) = VReads R'"
    and nw: "dep_of sm L p True \<notin> waits_of (\<lambda>x. view_of (uses x)) P S D"
      "\<not> wr \<Longrightarrow> dep_of sm L p False \<notin> waits_of (\<lambda>x. view_of (uses x)) P S D"
  shows "held sm L uses' p wr"
  unfolding held_def
proof
  fix x assume x: "x \<in> touches (snd (L ! p)) wr"
  consider "view_of (uses x) = VWrite (dep_of sm L p True)" | R where "\<not> wr" "view_of (uses x) = VReads R" "dep_of sm L p False \<in> R"
    using h x unfolding held_def by blast
  then show "view_of (uses' x) = VWrite (dep_of sm L p True) \<or> \<not> wr \<and> (\<exists>R. view_of (uses' x) = VReads R \<and> dep_of sm L p False \<in> R)"
  proof cases
    case 1
    then have "dep_of sm L p True \<in> v_writes (view_of (uses x))" by simp
    then have "x \<notin> P \<union> S \<union> D" using nw(1) unfolding waits_of_def by blast
    then show ?thesis using same 1 by simp
  next
    case 2
    then have "dep_of sm L p False \<in> v_deps (view_of (uses x))" by simp
    then have D: "x \<notin> D" using nw(2) 2(1) unfolding waits_of_def by blast
    show ?thesis
    proof (cases "x \<in> P \<union> S")
      case True
      then show ?thesis using reads [OF True D 2(2)] 2(1,3) by blast
    next
      case False
      then show ?thesis using same [of x] D 2 by simp
    qed
  qed
qed

lemma wait_by_views:
  fixes uses :: "RegCell \<Rightarrow> BarUse"
  assumes L: "placed L" "m < length L" and inv: "wait_inv sm L m (uses, g)" and s: "signalled sm L m g g1"
    and i: "P = guarded (snd (L ! m))" "S = sourced (snd (L ! m))" "D = written (snd (L ! m))" "\<not> is_branch (snd (L ! m))"
    and W: "set W = waits_of (\<lambda>x. view_of (uses x)) P S D"
    and same: "\<And>x. x \<notin> P \<union> S \<union> D \<Longrightarrow> view_of (uses' x) = view_of (uses x)"
    and reads: "\<And>x R. x \<in> P \<union> S \<Longrightarrow> x \<notin> D \<Longrightarrow> view_of (uses x) = VReads R \<Longrightarrow> \<exists>R'. R \<subseteq> R' \<and> view_of (uses' x) = VReads R'"
    and old: "\<And>x d. d \<in> v_deps (view_of (uses' x)) \<Longrightarrow> d \<in> v_deps (view_of (uses x)) \<or> (\<exists>wr. access sm L m wr (Suc m) \<and> d = dep_of sm L m wr)"
    and new: "\<And>wr. access sm L m wr (Suc m) \<Longrightarrow> held sm L uses' m wr"
  shows "\<exists>g'. add_waits (fst (L ! m)) W g1 = Some g' \<and> wait_inv sm L (Suc m) (uses', g')"
proof -
  have gi: "graph_inv sm L m g" and ai: "access_inv sm L m uses g" using inv by (simp_all add: wait_inv_def)
  have a: "\<exists>p wr. access sm L p wr m \<and> d = dep_of sm L p wr" if "d \<in> v_deps (view_of (uses x))" for d x
    using ai that unfolding access_inv_def by blast
  have h: "held sm L uses p wr" if "access sm L p wr m" "\<not> awaited sm L g p wr m" for p wr
    using ai that unfolding access_inv_def by blast
  have "\<exists>g'. add_waits (fst (L ! m)) W g1 = Some g' \<and> wait_inv sm L (Suc m) (uses', g') \<and> set (bg_active g') \<subseteq> set (bg_active g1) - set W"
  proof (rule wait_step [OF L gi ai s])
    show "\<forall>d\<in>set W. \<exists>p wr. access sm L p wr m \<and> d = dep_of sm L p wr"
      unfolding W waits_of_def using a v_writes_deps by blast
  next
    fix p wr assume "access sm L p wr m" "\<not> awaited sm L g p wr m" "conflicts (snd (L ! p)) wr (snd (L ! m)) \<or> is_branch (snd (L ! m))"
    then show "dep_of sm L p True \<in> set W \<or> \<not> wr \<and> dep_of sm L p False \<in> set W"
      unfolding W using held_waits [OF h] i by simp
  next
    fix x d assume "d \<in> v_deps (view_of (uses' x))"
    then show "\<exists>p wr. access sm L p wr (Suc m) \<and> d = dep_of sm L p wr" using old a access_Suc by blast
  next
    fix p wr assume "held sm L uses p wr" "dep_of sm L p True \<notin> set W" "\<not> wr \<Longrightarrow> dep_of sm L p False \<notin> set W"
    then show "held sm L uses' p wr" unfolding W by (intro held_keeps [OF _ same reads])
  qed (rule new)
  then show ?thesis by blast
qed

text \<open>What the pass takes of an instruction: its cells exist, it writes no cell twice, and no branch needs a scoreboard.\<close>

definition barriers_ok :: "'a SchedModel_scheme \<Rightarrow> Instr \<Rightarrow> bool" where
  "barriers_ok sm i \<longleftrightarrow> (is_branch i \<longrightarrow> \<not> op_needs_scoreboard sm (in_op i)) \<and> pred_cells i \<noteq> None \<and> src_cells i \<noteq> None \<and>
     (case dst_cells i of None \<Rightarrow> False | Some ds \<Rightarrow> distinct (map snd ds))"

lemma signalled_none:
  assumes "graph_inv sm L m g" and n: "\<not> needs sm L m"
  shows "signalled sm L m g g"
proof -
  have "length (bg_deps g) = rd_of sm L m" using assms(1) by (simp add: graph_inv_def)
  moreover have "\<not> access sm L m wr (Suc m)" for wr using n by (simp add: access_def)
  ultimately show ?thesis using n by (simp add: signalled_def)
qed

lemma signal_graph_simps:
  fixes g rds wrs loc
  defines "g1 \<equiv> signal_graph loc rds wrs g" and "n \<equiv> length (bg_deps g)"
  shows "bg_deps g1 = bg_deps g @ [\<lparr>bd_read_dep = None, bd_first_wait = None\<rparr>, \<lparr>bd_read_dep = Some n, bd_first_wait = None\<rparr>]"
    "bg_instr_deps g1 = (bg_instr_deps g)(loc \<mapsto> (n, Suc n))" "bg_instr_waits g1 = bg_instr_waits g"
    "set (bg_active g1) = set (bg_active g) \<union> (if rds then {n} else {}) \<union> (if wrs then {Suc n} else {})"
  by (auto simp: g1_def n_def signal_graph_def add_instr_def add_new_dep_def add_signal_def Let_def)

lemma signalled_some:
  assumes gi: "graph_inv sm L m g" and n: "needs sm L m"
    and rd: "S \<noteq> [] \<longleftrightarrow> touches (snd (L ! m)) False \<noteq> {}" and wr: "D \<noteq> [] \<longleftrightarrow> touches (snd (L ! m)) True \<noteq> {}"
  shows "signalled sm L m g (signal_graph (fst (L ! m)) (S \<noteq> []) (D \<noteq> []) g)"
proof -
  let ?g = "signal_graph (fst (L ! m)) (S \<noteq> []) (D \<noteq> []) g" and ?n = "rd_of sm L m"
  have l: "length (bg_deps g) = ?n" using gi by (simp add: graph_inv_def)
  note sg = signal_graph_simps [of "fst (L ! m)" "S \<noteq> []" "D \<noteq> []" g, unfolded l]
  have acc: "access sm L m False (Suc m) \<longleftrightarrow> S \<noteq> []" "access sm L m True (Suc m) \<longleftrightarrow> D \<noteq> []"
    using n rd wr by (simp_all add: access_def)
  have new: "{dep_of sm L m wr | wr. access sm L m wr (Suc m)} = (if S \<noteq> [] then {?n} else {}) \<union> (if D \<noteq> [] then {Suc ?n} else {})"
  proof (rule set_eqI)
    fix d
    have "d \<in> {dep_of sm L m wr | wr. access sm L m wr (Suc m)} \<longleftrightarrow>
        access sm L m False (Suc m) \<and> d = dep_of sm L m False \<or> access sm L m True (Suc m) \<and> d = dep_of sm L m True"
      by (simp add: ex_bool_eq) blast
    then show "d \<in> {dep_of sm L m wr | wr. access sm L m wr (Suc m)} \<longleftrightarrow> d \<in> (if S \<noteq> [] then {?n} else {}) \<union> (if D \<noteq> [] then {Suc ?n} else {})"
      unfolding acc by (simp add: dep_of_def)
  qed
  have fw: "first_wait ?g d = None" if "?n \<le> d" "d < ?n + 2" for d
  proof -
    have "d = ?n \<or> d = Suc ?n" using that by linarith
    then show ?thesis by (auto simp: first_wait_def sg nth_append l)
  qed
  show ?thesis
    unfolding signalled_def
  proof (intro conjI)
    show "set (bg_active ?g) = set (bg_active g) \<union> {dep_of sm L m wr | wr. access sm L m wr (Suc m)}"
      unfolding new sg(4) by simp
  qed (use n l fw in \<open>simp_all add: sg dep_of_def first_wait_def read_dep_def nth_append\<close>)
qed

lemma use_deps_old:
  assumes "wait_inv sm L m (uses, g)" and "d \<in> v_deps (view_of (uses x))"
  shows "d < rd_of sm L m"
  using assms access_dep_less unfolding wait_inv_def access_inv_def by fast

lemma branch_waits:
  assumes L: "placed L" "m < length L" and inv: "wait_inv sm L m (uses, g)" and n: "\<not> needs sm L m"
  shows "\<exists>g'. add_barrier (fst (L ! m)) g = Some g' \<and> wait_inv sm L (Suc m) (uses, g')"
proof -
  have gi: "graph_inv sm L m g" and ai: "access_inv sm L m uses g" using inv by (simp_all add: wait_inv_def)
  have new: "\<not> access sm L m wr (Suc m)" for wr using n by (simp add: access_def)
  have "\<exists>g'. add_waits (fst (L ! m)) (bg_active g) g = Some g' \<and> wait_inv sm L (Suc m) (uses, g') \<and>
      set (bg_active g') \<subseteq> set (bg_active g) - set (bg_active g)"
  proof (rule wait_step [OF L gi ai signalled_none [OF gi n]])
    show "\<forall>d\<in>set (bg_active g). \<exists>p wr. access sm L p wr m \<and> d = dep_of sm L p wr"
      using ai unfolding access_inv_def by blast
  next
    fix p wr assume "access sm L p wr m" "\<not> awaited sm L g p wr m"
    then have "dep_of sm L p wr \<in> set (bg_active g)" using ai unfolding access_inv_def by blast
    then show "dep_of sm L p True \<in> set (bg_active g) \<or> \<not> wr \<and> dep_of sm L p False \<in> set (bg_active g)" by (cases wr) auto
  next
    fix x d assume "d \<in> v_deps (view_of (uses x))"
    then show "\<exists>p wr. access sm L p wr (Suc m) \<and> d = dep_of sm L p wr"
      using ai access_Suc unfolding access_inv_def by blast
  qed (use new in auto)
  then show ?thesis by (auto simp: add_barrier_def)
qed

lemma fixed_waits:
  assumes L: "placed L" "m < length L" and inv: "wait_inv sm L m (uses, g)" and n: "\<not> needs sm L m"
    and i: "L ! m = (loc, i)" "\<not> is_branch i" "pred_cells i = Some P" "src_cells i = Some S" "dst_cells i = Some D"
  shows "\<exists>s'. find_waits sm (L ! m) (uses, g) = Some s' \<and> wait_inv sm L (Suc m) s'"
proof -
  define s where "s = use_fixed (map snd S) (map snd D) (fold (\<lambda>x. use_cell x bu_clear_write None) P \<lparr>bs_uses = uses, bs_deps = g, bs_waits = []\<rparr>)"
  note f = fixed_uses [of "map snd S" "map snd D" P uses g, folded s_def]
  have gi: "graph_inv sm L m g" using inv by (simp add: wait_inv_def)
  have new: "\<not> access sm L m wr (Suc m)" for wr using n by (simp add: access_def)
  have cells: "set P = guarded (snd (L ! m))" "set (map snd S) = sourced (snd (L ! m))" "set (map snd D) = written (snd (L ! m))"
    using i by (simp_all add: guarded_def sourced_def written_def)
  have "\<exists>g'. add_waits (fst (L ! m)) (bs_waits s) g = Some g' \<and> wait_inv sm L (Suc m) (bs_uses s, g')"
  proof (rule wait_by_views [OF L inv signalled_none [OF gi n] cells _ f(2)])
    show "\<not> is_branch (snd (L ! m))" using i by simp
  next
    fix x R assume "x \<in> set P \<union> set (map snd S)" "x \<notin> set (map snd D)" "view_of (uses x) = VReads R"
    then show "\<exists>R'. R \<subseteq> R' \<and> view_of (bs_uses s x) = VReads R'" by (auto simp: f(3))
  next
    fix x d assume "d \<in> v_deps (view_of (bs_uses s x))"
    then show "d \<in> v_deps (view_of (uses x)) \<or> (\<exists>wr. access sm L m wr (Suc m) \<and> d = dep_of sm L m wr)"
      by (auto simp: f(3) v_deps_simps split: if_splits)
  qed (use new f(3) in auto)
  then show ?thesis
    using n i by (auto simp: find_waits_def needs_def Let_def s_def [symmetric] f(1))
qed

lemma scoreboard_waits:
  assumes L: "placed L" "m < length L" and inv: "wait_inv sm L m (uses, g)" and n: "needs sm L m"
    and i: "L ! m = (loc, i)" "\<not> is_branch i" "pred_cells i = Some P" "src_cells i = Some S" "dst_cells i = Some D"
    and D: "distinct (map snd D)"
  shows "\<exists>s'. find_waits sm (L ! m) (uses, g) = Some s' \<and> wait_inv sm L (Suc m) s'"
proof -
  define s where "s = use_scoreboard loc (map snd S) (map snd D) (fold (\<lambda>x. use_cell x bu_clear_write None) P \<lparr>bs_uses = uses, bs_deps = g, bs_waits = []\<rparr>)"
  have gi: "graph_inv sm L m g" using inv by (simp add: wait_inv_def)
  have l: "length (bg_deps g) = rd_of sm L m" using gi by (simp add: graph_inv_def)
  have rd: "length (bg_deps g) \<notin> (\<Union>x\<in>set P \<union> set (map snd S) \<union> set (map snd D). v_deps (view_of (uses x)))"
    using use_deps_old [OF inv] unfolding l by blast
  note f = scoreboard_uses [OF D rd, of loc, folded s_def]
  have dep: "dep_of sm L m False = length (bg_deps g)" "dep_of sm L m True = Suc (length (bg_deps g))" by (simp_all add: dep_of_def l)
  have cells: "set P = guarded (snd (L ! m))" "set (map snd S) = sourced (snd (L ! m))" "set (map snd D) = written (snd (L ! m))"
    using i by (simp_all add: guarded_def sourced_def written_def)
  have t: "touches (snd (L ! m)) wr = (if wr then set (map snd D) else set (map snd S))" for wr
    using cells by (simp add: touches_def)
  have acc: "access sm L m wr (Suc m) \<longleftrightarrow> (if wr then D \<noteq> [] else S \<noteq> [])" for wr
    using n by (simp add: access_def t)
  have sg: "signalled sm L m g (signal_graph (fst (L ! m)) (map snd S \<noteq> []) (map snd D \<noteq> []) g)"
    by (rule signalled_some [OF gi n]) (simp_all add: t)
  have "\<exists>g'. add_waits (fst (L ! m)) (bs_waits s) (signal_graph (fst (L ! m)) (map snd S \<noteq> []) (map snd D \<noteq> []) g) = Some g' \<and>
      wait_inv sm L (Suc m) (bs_uses s, g')"
  proof (rule wait_by_views [OF L inv sg cells _ f(2)])
    show "\<not> is_branch (snd (L ! m))" using i by simp
  next
    fix x R assume "x \<in> set P \<union> set (map snd S)" "x \<notin> set (map snd D)" "view_of (uses x) = VReads R"
    then show "\<exists>R'. R \<subseteq> R' \<and> view_of (bs_uses s x) = VReads R'" by (auto simp: f(3) Let_def)
  next
    fix x d assume d: "d \<in> v_deps (view_of (bs_uses s x))"
    consider "x \<in> set (map snd D)" | "x \<notin> set (map snd D)" "x \<in> set (map snd S)" "d = length (bg_deps g)" | "d \<in> v_deps (view_of (uses x))"
      using d by (auto simp: f(3) Let_def v_deps_simps split: if_splits)
    then show "d \<in> v_deps (view_of (uses x)) \<or> (\<exists>wr. access sm L m wr (Suc m) \<and> d = dep_of sm L m wr)"
    proof cases
      case 1
      then have "access sm L m True (Suc m)" "d = dep_of sm L m True" using d by (auto simp: acc dep f(3))
      then show ?thesis by blast
    next
      case 2
      then have "access sm L m False (Suc m)" "d = dep_of sm L m False" by (auto simp: acc dep)
      then show ?thesis by blast
    qed simp
  next
    fix wr
    have r: "\<exists>R. v_add_read e v = VReads R \<and> e \<in> R" for e v by (cases v) auto
    show "held sm L (bs_uses s) m wr"
      unfolding held_def t dep f(3) Let_def using r by (cases wr) auto
  qed (auto simp: f(3))
  then show ?thesis
    using n i by (auto simp: find_waits_def needs_def Let_def s_def [symmetric] f(1))
qed

lemma find_waits_all:
  assumes L: "placed L" and ok: "\<forall>(loc, i)\<in>set L. barriers_ok sm i"
  shows "\<exists>uses g. foldM (find_waits sm) L (\<lambda>_. NoUse, bg_new) = Some (uses, g) \<and> wait_inv sm L (length L) (uses, g)"
proof -
  have "\<exists>s. foldM (find_waits sm) L (\<lambda>_. NoUse, bg_new) = Some s \<and> wait_inv sm L (length L) s"
  proof (rule foldM_nth)
    show "wait_inv sm L 0 (\<lambda>_. NoUse, bg_new)"
      by (simp add: wait_inv_def graph_inv_def access_inv_def access_def bg_new_def)
  next
    fix m s assume m: "m < length L" and inv: "wait_inv sm L m s"
    obtain uses g where s: "s = (uses, g)" by (cases s)
    obtain loc i where Lm: "L ! m = (loc, i)" by (cases "L ! m")
    have "barriers_ok sm i" using ok nth_mem [OF m] Lm by auto
    then obtain P S D where i: "pred_cells i = Some P" "src_cells i = Some S" "dst_cells i = Some D" "distinct (map snd D)"
      and br: "is_branch i \<Longrightarrow> \<not> needs sm L m"
      using Lm by (auto simp: barriers_ok_def needs_def split: option.splits)
    consider "is_branch i" | "\<not> is_branch i" "needs sm L m" | "\<not> is_branch i" "\<not> needs sm L m" by blast
    then show "\<exists>s'. find_waits sm (L ! m) s = Some s' \<and> wait_inv sm L (Suc m) s'"
    proof cases
      case 1
      then show ?thesis using branch_waits [OF L m inv [unfolded s] br [OF 1]] Lm s by (auto simp: find_waits_def)
    next
      case 2
      then show ?thesis using scoreboard_waits [OF L m inv [unfolded s] 2(2) Lm 2(1) i] s by simp
    next
      case 3
      then show ?thesis using fixed_waits [OF L m inv [unfolded s] 3(2) Lm 3(1) i(1-3)] s by simp
    qed
  qed
  then show ?thesis by auto
qed

end
