(* ===== verification/BarrierPlaces.thy ===== *)
theory BarrierPlaces
  imports BarrierWaits
begin

text \<open>
  The second pass of \<^verbatim>\<open>assign_barriers\<close>: an access that is still to be waited for holds a barrier, or has been
  waited for when it lost it to a younger one.  Together the passes return a function without hazards.
\<close>

subsection \<open>Allocation of the six barriers\<close>

definition holds :: "BarAlloc \<Rightarrow> nat \<Rightarrow> nat \<Rightarrow> bool" where "holds a b d \<longleftrightarrow> b < 6 \<and> a ! b = Some d"

definition bars_ok :: "BarAlloc \<Rightarrow> bool" where
  "bars_ok a \<longleftrightarrow> length a = 6 \<and> (\<forall>b c d. holds a b d \<longrightarrow> holds a c d \<longrightarrow> b = c)"

lemma find_upt_Some: "find P [0..<n] = Some b \<Longrightarrow> b < n \<and> P b"
  by (auto simp: find_Some_iff)

lemma find_upt_None: "find P [0..<n] = None \<Longrightarrow> b < n \<Longrightarrow> \<not> P b"
  by (auto simp: find_None_iff)

lemma bar_is_free_simp: "length a = 6 \<Longrightarrow> b < 6 \<Longrightarrow> bar_is_free b a = Some (a ! b = None)"
  by (simp add: bar_is_free_def)

text \<open>Waiting for dependencies frees their barriers and collects them in the mask.\<close>

lemma wait_loop:
  assumes "bars_ok a"
  shows "\<exists>m' a'. foldM wait_dep ds (m, a) = Some (m', a') \<and> bars_ok a' \<and>
    (\<forall>b d. holds a' b d \<longleftrightarrow> holds a b d \<and> d \<notin> set ds) \<and>
    (\<forall>b. bit m' b \<longleftrightarrow> bit m b \<or> (\<exists>d\<in>set ds. holds a b d))"
  using assms
proof (induction ds arbitrary: m a)
  case (Cons d ds)
  have l: "length a = 6" and inj: "\<And>b c d. holds a b d \<Longrightarrow> holds a c d \<Longrightarrow> b = c" using Cons.prems by (auto simp: bars_ok_def)
  show ?case
  proof (cases "get_bar_for_dep d a")
    case None
    then have n: "\<not> holds a b d" for b using find_upt_None by (auto simp: get_bar_for_dep_def holds_def)
    have "wait_dep d (m, a) = Some (m, a)" using None by (simp add: wait_dep_def)
    then show ?thesis using Cons.IH [OF Cons.prems, of m] n by auto
  next
    case (Some c)
    then have c: "holds a c d" using find_upt_Some by (auto simp: get_bar_for_dep_def holds_def)
    define a1 where "a1 = a[c := None]"
    have h1: "holds a1 b e \<longleftrightarrow> holds a b e \<and> e \<noteq> d" for b e
      using c l inj [of b d c] by (auto simp: a1_def holds_def nth_list_update)
    have ok1: "bars_ok a1" using Cons.prems h1 l by (auto simp: bars_ok_def a1_def)
    have w: "wait_dep d (m, a) = Some (m OR push_bit c 1, a1)"
      using Some c l by (simp add: wait_dep_def free_bar_def bar_is_free_simp holds_def a1_def)
    have b1: "bit (m OR push_bit c 1 :: u8) b \<longleftrightarrow> bit m b \<or> b = c" for b
      using c by (auto simp: bit_simps holds_def)
    obtain m' a' where r: "foldM wait_dep ds (m OR push_bit c 1, a1) = Some (m', a')" "bars_ok a'"
      "\<forall>b e. holds a' b e \<longleftrightarrow> holds a1 b e \<and> e \<notin> set ds"
      "\<forall>b. bit m' b \<longleftrightarrow> bit (m OR push_bit c 1) b \<or> (\<exists>e\<in>set ds. holds a1 b e)"
      using Cons.IH [OF ok1] by blast
    have "bit m' b \<longleftrightarrow> bit m b \<or> (\<exists>e\<in>set (d # ds). holds a b e)" for b
      unfolding r(4) [rule_format] b1 h1 using c inj [of b d c] by auto
    then show ?thesis using w r(1,2,3) h1 by auto
  qed
qed simp

lemma fold_min:
  assumes "\<forall>x\<in>insert x0 (set xs). f x \<noteq> None"
  shows "fold (\<lambda>b bar. if dep_less (f b) (f bar) then b else bar) xs x0 \<in> insert x0 (set xs) \<and>
    (\<forall>x\<in>insert x0 (set xs). the (f (fold (\<lambda>b bar. if dep_less (f b) (f bar) then b else bar) xs x0)) \<le> the (f x))"
  using assms
proof (induction xs arbitrary: x0)
  case (Cons x xs)
  define y where "y = (if dep_less (f x) (f x0) then x else x0)"
  have y: "y \<in> {x, x0}" "the (f y) \<le> the (f x)" "the (f y) \<le> the (f x0)"
    using Cons.prems by (auto simp: y_def)
  show ?case using Cons.IH [of y] Cons.prems y by (auto simp: y_def [symmetric])
qed simp

lemma oldest_bar_min:
  assumes "\<And>b. b < 6 \<Longrightarrow> a ! b \<noteq> None"
  shows "oldest_bar a < 6 \<and> (\<forall>b<6. the (a ! oldest_bar a) \<le> the (a ! b))"
proof -
  have s: "insert 0 (set [1..<6]) = {..<6::nat}" by (auto simp: numeral_eq_Suc lessThan_Suc)
  show ?thesis using fold_min [of 0 "[1..<6]" "(!) a", unfolded s] assms by (auto simp: oldest_bar_def)
qed

text \<open>What an instruction keeps while it gets its barriers.\<close>

definition grown :: "Instr \<Rightarrow> Instr \<Rightarrow> bool" where
  "grown i j \<longleftrightarrow> same_op j i \<and> (\<forall>b. bit (wt_bar_mask (in_deps i)) b \<longrightarrow> bit (wt_bar_mask (in_deps j)) b)"

lemma grown_refl: "grown i i" by (simp add: grown_def same_op_def)

lemma grown_trans: "grown i j \<Longrightarrow> grown j k \<Longrightarrow> grown i k" by (simp add: grown_def same_op_def)

lemma small_mask6: "(\<And>b. bit (m :: u8) b \<Longrightarrow> b < 6) \<Longrightarrow> m < 64"
proof -
  assume "\<And>b. bit m b \<Longrightarrow> b < 6"
  then have "take_bit 6 m = m" by (intro bit_word_eqI) (auto simp: bit_take_bit_iff)
  then have "unat m = take_bit 6 (unat m)" by (metis unsigned_take_bit_eq)
  then have "unat m < 64" using take_bit_nat_less_exp [of 6 "unat m"] by simp
  then show "m < 64" by (simp add: word_less_nat_alt)
qed

lemma add_mask:
  assumes "\<And>b. bit (m :: u8) b \<Longrightarrow> b < 6"
  shows "\<exists>j. map_deps (add_wt_bar_mask m) i = Some j \<and> same_op j i \<and> wr_bar (in_deps j) = wr_bar (in_deps i) \<and> rd_bar (in_deps j) = rd_bar (in_deps i) \<and>
    (\<forall>b. bit (wt_bar_mask (in_deps j)) b \<longleftrightarrow> bit (wt_bar_mask (in_deps i)) b \<or> bit m b)"
  using small_mask6 [OF assms] by (auto simp: map_deps_def add_wt_bar_mask_def same_op_def bit_or_iff)

lemma bar_word: "b < 6 \<Longrightarrow> unat (word_of_nat b :: u8) = b"
  by (simp add: unat_of_nat take_bit_nat_eq_self)

lemma add_bar:
  assumes "b < 6"
  shows "\<exists>j. map_deps (add_wt_bar (word_of_nat b)) i = Some j \<and> same_op j i \<and> wr_bar (in_deps j) = wr_bar (in_deps i) \<and>
    rd_bar (in_deps j) = rd_bar (in_deps i) \<and> (\<forall>c. bit (wt_bar_mask (in_deps j)) c \<longleftrightarrow> bit (wt_bar_mask (in_deps i)) c \<or> c = b)"
proof -
  have "bit (push_bit b 1 :: u8) c \<longleftrightarrow> c = b" for c using assms by (auto simp: bit_simps)
  moreover have "word_of_nat b < (8 :: u8)" using assms bar_word [OF assms] by (simp add: word_less_nat_alt)
  ultimately show ?thesis
    using add_mask [of "push_bit b 1" i] assms by (auto simp: map_deps_def add_wt_bar_def bar_word)
qed

lemma set_bars:
  assumes "b < 6"
  shows "\<exists>j. map_deps (set_rd_bar (word_of_nat b)) i = Some j \<and> grown i j \<and> rd_bar (in_deps j) = Some (word_of_nat b) \<and> wr_bar (in_deps j) = wr_bar (in_deps i)"
    "\<exists>j. map_deps (set_wr_bar (word_of_nat b)) i = Some j \<and> grown i j \<and> wr_bar (in_deps j) = Some (word_of_nat b) \<and> rd_bar (in_deps j) = rd_bar (in_deps i)"
proof -
  have b: "b = 0 \<or> b = 1 \<or> b = 2 \<or> b = 3 \<or> b = 4 \<or> b = 5" using assms by linarith
  have w: "word_of_nat b < (6 :: u8)" using assms bar_word [OF assms] by (simp add: word_less_nat_alt)
  have s: "\<not> sint (word_of_nat b :: u8) < 0" using b by auto
  show "\<exists>j. map_deps (set_rd_bar (word_of_nat b)) i = Some j \<and> grown i j \<and> rd_bar (in_deps j) = Some (word_of_nat b) \<and> wr_bar (in_deps j) = wr_bar (in_deps i)"
    "\<exists>j. map_deps (set_wr_bar (word_of_nat b)) i = Some j \<and> grown i j \<and> wr_bar (in_deps j) = Some (word_of_nat b) \<and> rd_bar (in_deps j) = rd_bar (in_deps i)"
    using w s by (auto simp: map_deps_def set_rd_bar_def set_wr_bar_def grown_def same_op_def rd_bar_def wr_bar_def)
qed

text \<open>A barrier for a new dependency: a free one, or else that of the oldest, for which the instruction then waits.\<close>

lemma take_bar_spec:
  assumes ok: "bars_ok a" and new: "\<And>b. \<not> holds a b dep"
  shows "\<exists>b j a'. take_bar dep (i, a) = Some (b, j, a') \<and> b < 6 \<and> bars_ok a' \<and> grown i j \<and>
    wr_bar (in_deps j) = wr_bar (in_deps i) \<and> rd_bar (in_deps j) = rd_bar (in_deps i) \<and>
    (\<forall>c d. holds a' c d \<longleftrightarrow> (if c = b then d = dep else holds a c d)) \<and>
    (\<forall>d. holds a b d \<longrightarrow> bit (wt_bar_mask (in_deps j)) b \<and> (\<forall>c<6. \<exists>e\<ge>d. holds a c e))"
proof -
  have l: "length a = 6" using ok by (simp add: bars_ok_def)
  have upd: "holds (a[b := Some dep]) c d \<longleftrightarrow> (if c = b then d = dep else holds a c d)" if "b < 6" for b c d
    using that l by (auto simp: holds_def nth_list_update)
  have ok': "bars_ok (a[b := Some dep])" if "b < 6" for b
    using ok new upd [OF that] l unfolding bars_ok_def by (metis length_list_update)
  show ?thesis
  proof (cases "try_find_free_bar a")
    case (Some b)
    then have b: "b < 6" "a ! b = None" using find_upt_Some by (auto simp: try_find_free_bar_def)
    have "take_bar dep (i, a) = Some (b, i, a[b := Some dep])"
      using Some b l by (simp add: take_bar_def set_bar_dep_def bar_is_free_simp)
    then show ?thesis
      using b ok' [OF b(1)] upd [OF b(1)] grown_refl by (intro exI [of _ b] exI [of _ i] exI [of _ "a[b := Some dep]"]) (simp add: holds_def)
  next
    case None
    then have full: "a ! b \<noteq> None" if "b < 6" for b using find_upt_None that by (auto simp: try_find_free_bar_def)
    define b where "b = oldest_bar a"
    have b: "b < 6" "\<And>c. c < 6 \<Longrightarrow> the (a ! b) \<le> the (a ! c)" using oldest_bar_min [OF full] by (simp_all add: b_def)
    obtain j where j: "map_deps (add_wt_bar (word_of_nat b)) i = Some j" "same_op j i" "wr_bar (in_deps j) = wr_bar (in_deps i)"
      "rd_bar (in_deps j) = rd_bar (in_deps i)" "\<forall>c. bit (wt_bar_mask (in_deps j)) c \<longleftrightarrow> bit (wt_bar_mask (in_deps i)) c \<or> c = b"
      using add_bar [OF b(1)] by blast
    have f: "free_bar b a = Some (a[b := None])" using full [OF b(1)] b(1) l by (simp add: free_bar_def bar_is_free_simp)
    have "take_bar dep (i, a) = Some (b, j, a[b := Some dep])"
      using None f b(1) l j(1) by (simp add: take_bar_def free_some_bar_def b_def [symmetric] set_bar_dep_def bar_is_free_simp)
    moreover have "\<forall>c<6. \<exists>e\<ge>d. holds a c e" if "holds a b d" for d
    proof (intro allI impI)
      fix c :: nat assume "c < 6"
      then obtain e where "a ! c = Some e" using full by blast
      then show "\<exists>e\<ge>d. holds a c e" using b(2) [OF \<open>c < 6\<close>] that \<open>c < 6\<close> by (auto simp: holds_def)
    qed
    moreover have "grown i j" using j by (simp add: grown_def)
    ultimately show ?thesis
      using b(1) ok' [OF b(1)] upd [OF b(1)] j by (intro exI [of _ b] exI [of _ j] exI [of _ "a[b := Some dep]"]) simp
  qed
qed

subsection \<open>Placing the barriers\<close>

text \<open>The dependency is waited for by an instruction from \<^term>\<open>n\<close> on.\<close>

definition due :: "Placed \<Rightarrow> BDepGraph \<Rightarrow> nat \<Rightarrow> nat \<Rightarrow> bool" where
  "due L g d n \<longleftrightarrow> (\<exists>j. n \<le> j \<and> j < length L \<and> first_wait g d = Some (fst (L ! j)))"

text \<open>Before the instruction at \<^term>\<open>n\<close> the barriers hold dependencies of earlier ones that are still to be waited for.\<close>

definition bars_inv :: "'a SchedModel_scheme \<Rightarrow> Placed \<Rightarrow> BDepGraph \<Rightarrow> nat \<Rightarrow> BarAlloc \<Rightarrow> bool" where
  "bars_inv sm L g n a \<longleftrightarrow> bars_ok a \<and> (\<forall>b d. holds a b d \<longrightarrow> d < rd_of sm L n \<and> due L g d n)"

definition bar_of :: "bool \<Rightarrow> Instr \<Rightarrow> u8 option" where
  "bar_of wr i = (if wr then wr_bar (in_deps i) else rd_bar (in_deps i))"

text \<open>What one instruction does with them.\<close>

definition placed_at :: "'a SchedModel_scheme \<Rightarrow> Placed \<Rightarrow> BDepGraph \<Rightarrow> nat \<Rightarrow> BarAlloc \<Rightarrow> Instr \<Rightarrow> BarAlloc \<Rightarrow> bool" where
  "placed_at sm L g n a j a' \<longleftrightarrow> same_op j (snd (L ! n)) \<and>
     (\<forall>b d. holds a b d \<longrightarrow> holds a' b d \<or> bit (wt_bar_mask (in_deps j)) b) \<and>
     (needs sm L n \<longrightarrow> (\<forall>wr. due L g (dep_of sm L n wr) (Suc n) \<longrightarrow>
        (\<exists>b. holds a' b (dep_of sm L n wr) \<and> bar_of wr j = Some (word_of_nat b))))"

lemma due_at:
  assumes "placed L" "n < length L" "due L g d n"
  shows "first_wait g d = Some (fst (L ! n)) \<longleftrightarrow> \<not> due L g d (Suc n)"
proof -
  obtain j where j: "n \<le> j" "j < length L" "first_wait g d = Some (fst (L ! j))" using assms(3) by (auto simp: due_def)
  have "due L g d (Suc n) \<longleftrightarrow> j \<noteq> n"
    using j placed_eq [OF assms(1)] unfolding due_def by (metis Suc_le_eq le_neq_implies_less not_less_eq_eq option.inject order_refl)
  then show ?thesis using j placed_eq [OF assms(1) j(2) assms(2)] by auto
qed

lemma waited_after:
  assumes L: "placed L" "n < length L" and gi: "graph_inv sm L (length L) g" and d: "d < rd_of sm L (length L)"
  shows "dep_is_waited_after d (fst (L ! n)) g = Some (due L g d (Suc n))"
proof -
  have l: "d < length (bg_deps g)" using gi d by (simp add: graph_inv_def)
  show ?thesis
  proof (cases "first_wait g d")
    case None
    then show ?thesis using l by (simp add: dep_is_waited_after_def first_wait_def due_def)
  next
    case (Some w)
    then obtain j where j: "j < length L" "w = fst (L ! j)" using gi d unfolding graph_inv_def by blast
    have "due L g d (Suc n) \<longleftrightarrow> n < j"
      using Some j placed_eq [OF L(1)] unfolding due_def by (metis Suc_le_eq option.inject)
    also have "\<dots> \<longleftrightarrow> loc_less (fst (L ! n)) w" using placed_less [OF L j(1)] j(2) by simp
    finally show ?thesis using l Some by (simp add: dep_is_waited_after_def first_wait_def)
  qed
qed

lemma deps_of_instr:
  assumes gi: "graph_inv sm L (length L) g" and n: "n < length L" "needs sm L n"
  shows "bg_instr_deps g (fst (L ! n)) = Some (dep_of sm L n False, dep_of sm L n True)" "dep_of sm L n wr < rd_of sm L (length L)"
    "dep_of sm L n wr < rd_of sm L (Suc n)" "dep_of sm L n False \<noteq> dep_of sm L n True" "rd_of sm L n \<le> dep_of sm L n wr"
  using gi n dep_of_less [OF n] dep_of_less [of n "Suc n" sm L wr] n(2)
  by (auto simp: graph_inv_def dep_of_def)

lemma maybe_take_spec:
  assumes ok: "bars_ok a" and new: "\<And>b. \<not> holds a b dep"
    and set: "\<And>b i. b < 6 \<Longrightarrow> \<exists>j. map_deps (set_bar (word_of_nat b)) i = Some j \<and> grown i j \<and> bar_of wr j = Some (word_of_nat b) \<and> bar_of (\<not> wr) j = bar_of (\<not> wr) i"
  shows "\<exists>j a'. maybe_take want dep set_bar (i, a) = Some (j, a') \<and> bars_ok a' \<and> grown i j \<and> bar_of (\<not> wr) j = bar_of (\<not> wr) i \<and>
    (\<forall>b d. holds a' b d \<longrightarrow> holds a b d \<or> want \<and> d = dep) \<and>
    (\<forall>b d. holds a b d \<longrightarrow> holds a' b d \<or> bit (wt_bar_mask (in_deps j)) b \<and> (\<forall>c<6. \<exists>e\<ge>d. holds a c e)) \<and>
    (want \<longrightarrow> (\<exists>b. holds a' b dep \<and> bar_of wr j = Some (word_of_nat b)))"
proof (cases want)
  case True
  obtain b j a' where t: "take_bar dep (i, a) = Some (b, j, a')" "b < 6" "bars_ok a'" "grown i j"
    "wr_bar (in_deps j) = wr_bar (in_deps i)" "rd_bar (in_deps j) = rd_bar (in_deps i)"
    and h: "\<forall>c d. holds a' c d \<longleftrightarrow> (if c = b then d = dep else holds a c d)"
    and s: "\<forall>d. holds a b d \<longrightarrow> bit (wt_bar_mask (in_deps j)) b \<and> (\<forall>c<6. \<exists>e\<ge>d. holds a c e)"
    using take_bar_spec [OF ok new, of i] by blast
  obtain k where k: "map_deps (set_bar (word_of_nat b)) j = Some k" "grown j k" "bar_of wr k = Some (word_of_nat b)" "bar_of (\<not> wr) k = bar_of (\<not> wr) j"
    using set [OF t(2)] by blast
  have m: "maybe_take want dep set_bar (i, a) = Some (k, a')" using True t(1) k(1) by (simp add: maybe_take_def)
  have "bar_of (\<not> wr) k = bar_of (\<not> wr) i" using k(4) t(5,6) by (simp add: bar_of_def)
  moreover have "holds a' c d \<or> bit (wt_bar_mask (in_deps k)) c \<and> (\<forall>c<6. \<exists>e\<ge>d. holds a c e)" if "holds a c d" for c d
    using h s that k(2) unfolding grown_def by metis
  moreover have "holds a' b dep" using h by simp
  moreover have "holds a c d \<or> want \<and> d = dep" if "holds a' c d" for c d using h that True by metis
  ultimately show ?thesis using m t(3) grown_trans [OF t(4) k(2)] k(3) by (intro exI [of _ k] exI [of _ a'] conjI) blast+
next
  case False
  then show ?thesis using ok grown_refl by (simp add: maybe_take_def)
qed

lemma yield_same: "grown i (if y then i\<lparr>in_deps := (in_deps i)\<lparr>yld := True\<rparr>\<rparr> else i)"
  "bar_of wr (if y then i\<lparr>in_deps := (in_deps i)\<lparr>yld := True\<rparr>\<rparr> else i) = bar_of wr i"
  by (simp_all add: grown_def same_op_def bar_of_def rd_bar_def wr_bar_def)

lemma set_rd_wr:
  assumes "b < 6"
  shows "\<exists>j. map_deps (set_rd_bar (word_of_nat b)) i = Some j \<and> grown i j \<and> bar_of False j = Some (word_of_nat b) \<and> bar_of (\<not> False) j = bar_of (\<not> False) i"
    "\<exists>j. map_deps (set_wr_bar (word_of_nat b)) i = Some j \<and> grown i j \<and> bar_of True j = Some (word_of_nat b) \<and> bar_of (\<not> True) j = bar_of (\<not> True) i"
  using set_bars [OF assms, of i] by (simp_all add: bar_of_def)

lemma place_step:
  assumes L: "placed L" "n < length L" and gi: "graph_inv sm L (length L) g" and inv: "bars_inv sm L g n a"
  shows "\<exists>j a'. place_barriers sm g (L ! n) a = Some (j, a') \<and> bars_inv sm L g (Suc n) a' \<and> placed_at sm L g n a j a'"
proof -
  obtain loc i where Ln: "L ! n = (loc, i)" by (cases "L ! n")
  have ok: "bars_ok a" and old: "\<And>b d. holds a b d \<Longrightarrow> d < rd_of sm L n \<and> due L g d n" using inv by (auto simp: bars_inv_def)
  have N: "rd_of sm L n \<le> rd_of sm L (length L)" by (rule rd_of_mono) (use L(2) in simp)
  have ws: "d \<in> set (get_instr_waits loc g) \<longleftrightarrow> \<not> due L g d (Suc n)" if "holds a b d" for b d
  proof -
    have "d < rd_of sm L (length L)" using old [OF that] N by simp
    then have "d \<in> set (get_instr_waits loc g) \<longleftrightarrow> first_wait g d = Some loc"
      using gi L(2) Ln unfolding graph_inv_def by fastforce
    then show ?thesis using due_at [OF L] old [OF that] Ln by simp
  qed
  obtain m a1 where w: "foldM wait_dep (get_instr_waits loc g) (0, a) = Some (m, a1)" "bars_ok a1"
    and h1: "\<And>b d. holds a1 b d \<longleftrightarrow> holds a b d \<and> d \<notin> set (get_instr_waits loc g)"
    and m: "\<And>b. bit m b \<longleftrightarrow> (\<exists>d\<in>set (get_instr_waits loc g). holds a b d)"
    using wait_loop [OF ok, of "get_instr_waits loc g" 0] by auto
  have m6: "b < 6" if "bit m b" for b using that m by (auto simp: holds_def)
  obtain i1 where i1: "map_deps (add_wt_bar_mask m) i = Some i1" "same_op i1 i"
    "\<And>b. bit (wt_bar_mask (in_deps i1)) b \<longleftrightarrow> bit (wt_bar_mask (in_deps i)) b \<or> bit m b"
    using add_mask [of m i, OF m6] by auto
  define i2 where "i2 = (if needs_yield (in_op i1) then i1\<lparr>in_deps := (in_deps i1)\<lparr>yld := True\<rparr>\<rparr> else i1)"
  have i2: "grown i1 i2" unfolding i2_def by (rule yield_same(1))
  have so2: "same_op i2 i" "in_op i2 = in_op i" using i2 i1(2) by (auto simp: grown_def same_op_def)
  have k1: "holds a1 b d \<or> bit (wt_bar_mask (in_deps i2)) b" if "holds a b d" for b d
    using that h1 m i1(3) i2 unfolding grown_def by blast
  have d1: "d < rd_of sm L n \<and> due L g d (Suc n)" if "holds a1 b d" for b d using that h1 ws old by blast
  have step: "place_barriers sm g (L ! n) a = (if \<not> op_needs_scoreboard sm (in_op i) then Some (i2, a1)
     else do {
       (rd_dep, wr_dep) \<leftarrow> bg_instr_deps g loc;
       rd \<leftarrow> dep_is_waited_after rd_dep loc g;
       (instr, bars) \<leftarrow> maybe_take rd rd_dep set_rd_bar (i2, a1);
       wr \<leftarrow> dep_is_waited_after wr_dep loc g;
       maybe_take wr wr_dep set_wr_bar (instr, bars) })"
    unfolding Ln place_barriers_def using w(1) i1(1) so2(2) by (simp add: i2_def [symmetric] Let_def cong: if_cong)
  show ?thesis
  proof (cases "needs sm L n")
    case False
    then have "place_barriers sm g (L ! n) a = Some (i2, a1)" using step Ln by (simp add: needs_def)
    moreover have "bars_inv sm L g (Suc n) a1" using w(2) d1 False by (simp add: bars_inv_def)
    moreover have "placed_at sm L g n a i2 a1" using so2(1) k1 False Ln by (simp add: placed_at_def)
    ultimately show ?thesis by blast
  next
    case True
    let ?d = "dep_of sm L n"
    note D = deps_of_instr [OF gi L(2) True]
    have fresh: "\<not> holds a1 b (?d False)" for b using d1 [of b "?d False"] D(5) [of False] by auto
    obtain i3 a3 where r3: "maybe_take (due L g (?d False) (Suc n)) (?d False) set_rd_bar (i2, a1) = Some (i3, a3)" "bars_ok a3" "grown i2 i3"
      and b3: "\<And>b d. holds a3 b d \<Longrightarrow> holds a1 b d \<or> due L g (?d False) (Suc n) \<and> d = ?d False"
      and k3: "\<And>b d. holds a1 b d \<Longrightarrow> holds a3 b d \<or> bit (wt_bar_mask (in_deps i3)) b"
      and n3: "due L g (?d False) (Suc n) \<Longrightarrow> \<exists>b. holds a3 b (?d False) \<and> bar_of False i3 = Some (word_of_nat b)"
      using maybe_take_spec [where a = a1 and dep = "?d False" and set_bar = set_rd_bar and wr = False and want =  "due L g (?d False) (Suc n)" and i = i2, OF w(2) fresh set_rd_wr(1)] by blast
    have fresh3: "\<not> holds a3 b (?d True)" for b using b3 [of b "?d True"] d1 [of b "?d True"] D(4) D(5) [of True] by fastforce
    obtain i4 a4 where r4: "maybe_take (due L g (?d True) (Suc n)) (?d True) set_wr_bar (i3, a3) = Some (i4, a4)" "bars_ok a4" "grown i3 i4"
      "bar_of False i4 = bar_of False i3"
      and b4: "\<And>b d. holds a4 b d \<Longrightarrow> holds a3 b d \<or> due L g (?d True) (Suc n) \<and> d = ?d True"
      and k4: "\<And>b d. holds a3 b d \<Longrightarrow> holds a4 b d \<or> bit (wt_bar_mask (in_deps i4)) b \<and> (\<forall>c<6. \<exists>e\<ge>d. holds a3 c e)"
      and n4: "due L g (?d True) (Suc n) \<Longrightarrow> \<exists>b. holds a4 b (?d True) \<and> bar_of True i4 = Some (word_of_nat b)"
      using maybe_take_spec [where a = a3 and dep = "?d True" and set_bar = set_wr_bar and wr = True and want =  "due L g (?d True) (Suc n)" and i = i3, OF r3(2) fresh3 set_rd_wr(2)] by auto
    have keep: "holds a4 b (?d False)" if h: "holds a3 b (?d False)" for b
    proof (rule ccontr)
      assume "\<not> holds a4 b (?d False)"
      then have all: "\<forall>c<6. \<exists>e\<ge>?d False. holds a3 c e" using k4 [OF h] by blast
      have "holds a3 c (?d False)" if c: "c < 6" for c
      proof -
        obtain e where e: "?d False \<le> e" "holds a3 c e" using all c by blast
        have "\<not> holds a1 c e" using d1 [of c e] D(5) [of False] e(1) by auto
        then show ?thesis using b3 [OF e(2)] e(2) by auto
      qed
      then have "holds a3 0 (?d False)" "holds a3 1 (?d False)" by simp_all
      then show False using r3(2) unfolding bars_ok_def by (metis zero_neq_one)
    qed
    have p: "place_barriers sm g (L ! n) a = Some (i4, a4)"
      using step True Ln D(1) waited_after [OF L gi D(2)] r3(1) r4(1) by (simp add: needs_def)
    have inv4: "bars_inv sm L g (Suc n) a4"
      unfolding bars_inv_def
    proof (intro conjI allI impI)
      fix b d assume "holds a4 b d"
      then consider "holds a1 b d" | wr where "due L g (?d wr) (Suc n)" "d = ?d wr" using b4 b3 by blast
      then show "d < rd_of sm L (Suc n)" "due L g d (Suc n)"
        using d1 [of b d] D(3) by (cases; auto)+
    qed (rule r4(2))
    have "placed_at sm L g n a i4 a4"
      unfolding placed_at_def
    proof (intro conjI allI impI)
      show "same_op i4 (snd (L ! n))" using so2(1) r3(3) r4(3) Ln by (simp add: grown_def same_op_def)
    next
      fix b d assume "holds a b d"
      then show "holds a4 b d \<or> bit (wt_bar_mask (in_deps i4)) b"
        using k1 k3 k4 r3(3) r4(3) unfolding grown_def by blast
    next
      fix wr assume "due L g (?d wr) (Suc n)"
      then show "\<exists>b. holds a4 b (?d wr) \<and> bar_of wr i4 = Some (word_of_nat b)"
        using n3 n4 keep r4(4) by (cases wr) auto
    qed
    then show ?thesis using p inv4 by blast
  qed
qed

lemma waits_bar_word: "b < 6 \<Longrightarrow> waits_bar i (Some (word_of_nat b)) \<longleftrightarrow> bit (wt_bar_mask (in_deps i)) b"
  by (simp add: waits_bar_def bar_word)

text \<open>
  A pending access whose dependency is to be waited for later still has the barrier that its
  instruction named.
\<close>

definition still_held :: "'a SchedModel_scheme \<Rightarrow> Placed \<Rightarrow> BDepGraph \<Rightarrow> Instr list \<Rightarrow> nat \<Rightarrow> BarAlloc \<Rightarrow> nat \<Rightarrow> bool \<Rightarrow> bool" where
  "still_held sm L g js n a p k \<longleftrightarrow> (due L g (dep_of sm L p k) (Suc p) \<longrightarrow>
     due L g (dep_of sm L p k) n \<and> (\<exists>b. holds a b (dep_of sm L p k) \<and> bar_of k (js ! p) = Some (word_of_nat b)))"

lemma pending_held:
  assumes L: "placed L" and len: "length js = length L" and gi: "graph_inv sm L (length L) g"
    and S: "\<And>n. n < length L \<Longrightarrow> bars_inv sm L g n (A n) \<and> placed_at sm L g n (A n) (js ! n) (A (Suc n))"
    and last: "bars_inv sm L g (length L) (A (length L))"
    and "n \<le> length L" and "(p, wr) \<in> pending_straight sm js n" and k: "k \<or> \<not> wr"
  shows "still_held sm L g js n (A n) p k"
  using assms(6,7)
proof (induction n)
  case (Suc n)
  then have n: "n < length L" by simp
  have inv': "bars_inv sm L g (Suc n) (A (Suc n))" using S [of "Suc n"] last Suc.prems(1) by (cases "Suc n = length L") auto
  have pl: "placed_at sm L g n (A n) (js ! n) (A (Suc n))" using S [OF n] by blast
  consider "(p, wr) \<in> pending_after_wait js n (pending_straight sm js n)" | "(p, wr) \<in> issued sm js n" using Suc.prems(2) by auto
  then show ?case
  proof cases
    case 1
    then have old: "(p, wr) \<in> pending_straight sm js n" and nw: "\<not> waits_for (js ! n) (js ! p) wr" by (auto simp: pending_after_wait_def)
    show ?thesis
      unfolding still_held_def
    proof
      let ?d = "dep_of sm L p k"
      assume due: "due L g ?d (Suc p)"
      have "still_held sm L g js n (A n) p k" using Suc.IH [OF _ old] n by simp
      then obtain b where b: "due L g ?d n" "holds (A n) b ?d" "bar_of k (js ! p) = Some (word_of_nat b)"
        using due unfolding still_held_def by blast
      have b6: "b < 6" using b(2) by (simp add: holds_def)
      have "\<not> bit (wt_bar_mask (in_deps (js ! n))) b"
        using nw k b(3) waits_bar_word [OF b6, of "js ! n"] unfolding waits_for_def bar_of_def by (auto split: if_splits)
      then have h: "holds (A (Suc n)) b ?d" using pl b(2) unfolding placed_at_def by blast
      then have "due L g ?d (Suc n)" using inv' unfolding bars_inv_def by blast
      then show "due L g ?d (Suc n) \<and> (\<exists>b. holds (A (Suc n)) b ?d \<and> bar_of k (js ! p) = Some (word_of_nat b))" using h b(3) by blast
    qed
  next
    case 2
    then have p: "p = n" "needs sm L n"
      using pl by (auto simp: issued_def placed_at_def same_op_def needs_def split: if_splits)
    then show ?thesis using pl unfolding still_held_def placed_at_def by blast
  qed
qed simp

lemma placed_hazard_free:
  assumes L: "placed L" and ok: "\<forall>(loc, i)\<in>set L. barriers_ok sm i"
    and inv: "wait_inv sm L (length L) (uses, g)"
  shows "\<exists>js a. traverseM (place_barriers sm g) L ba_new = Some (js, a) \<and> list_all2 same_op js (map snd L) \<and> hazard_free sm js"
proof -
  let ?n = "length L"
  have gi: "graph_inv sm L ?n g" and ai: "access_inv sm L ?n uses g" using inv by (simp_all add: wait_inv_def)
  have new: "bars_inv sm L g 0 ba_new" by (auto simp: bars_inv_def bars_ok_def holds_def ba_new_def)
  have step: "\<exists>j a'. place_barriers sm g (L ! n) a = Some (j, a') \<and> bars_inv sm L g (Suc n) a' \<and> (placed_at sm L g n a j a' \<and> bars_inv sm L g (Suc n) a')"
    if "n < ?n" "bars_inv sm L g n a" for n a
    using place_step [OF L that(1) gi that(2)] by blast
  obtain js A where t: "traverseM (place_barriers sm g) L ba_new = Some (js, A ?n)" and len: "length js = ?n" and A0: "A 0 = ba_new"
    and S: "\<And>n. n < ?n \<Longrightarrow> bars_inv sm L g n (A n) \<and> placed_at sm L g n (A n) (js ! n) (A (Suc n)) \<and> bars_inv sm L g (Suc n) (A (Suc n))"
    using traverseM_steps [of "bars_inv sm L g" ba_new L "place_barriers sm g" "\<lambda>n a j a'. placed_at sm L g n a j a' \<and> bars_inv sm L g (Suc n) a'", OF new step]
    by blast
  have last: "bars_inv sm L g ?n (A ?n)" using S [of "?n - 1"] new A0 by (cases ?n) auto
  have same: "same_op (js ! n) (snd (L ! n))" if "n < ?n" for n using S [OF that] by (simp add: placed_at_def)
  have waits: "waits_for (js ! q) (js ! p) wr"
    if q: "q < ?n" and pend: "(p, wr) \<in> pending_straight sm js q"
      and c: "conflicts (js ! p) wr (js ! q) \<or> is_branch (js ! q)" for p q wr
  proof -
    have p: "p < q" "op_needs_scoreboard sm (in_op (js ! p))" "touches (js ! p) wr \<noteq> {}"
      using pending_straight_earlier [OF pend] by auto
    have sp: "same_op (js ! p) (snd (L ! p))" and sq: "same_op (js ! q) (snd (L ! q))" using same p(1) q by auto
    have "access sm L p wr q" using p sp same_op_simps(1) [OF sp] by (simp add: access_def needs_def same_op_def)
    moreover have "conflicts (snd (L ! p)) wr (snd (L ! q)) \<or> is_branch (snd (L ! q))"
      using c same_op_simps(1,4) [OF sq] same_op_simps(1) [OF sp] same_op_cells [OF sq] by (simp add: conflicts_def)
    ultimately have "awaited sm L g p wr (Suc q)" using ai q unfolding access_inv_def by blast
    then obtain j k where j: "p < j" "j < Suc q" "first_wait g (dep_of sm L p k) = Some (fst (L ! j))" and k: "k \<or> \<not> wr"
      unfolding awaited_def by blast
    have h: "still_held sm L g js q (A q) p k"
    proof (rule pending_held [where A = A, OF L len gi _ last _ pend k])
      show "bars_inv sm L g n (A n) \<and> placed_at sm L g n (A n) (js ! n) (A (Suc n))" if "n < ?n" for n using S [OF that] by blast
    qed (use q in simp)
    have "due L g (dep_of sm L p k) (Suc p)" using j q unfolding due_def by (intro exI [of _ j]) auto
    then obtain b where b: "due L g (dep_of sm L p k) q" "holds (A q) b (dep_of sm L p k)" "bar_of k (js ! p) = Some (word_of_nat b)"
      using h unfolding still_held_def by blast
    have b6: "b < 6" using b(2) by (simp add: holds_def)
    have "\<not> due L g (dep_of sm L p k) (Suc q)"
    proof
      assume "due L g (dep_of sm L p k) (Suc q)"
      then obtain j' where j': "Suc q \<le> j'" "j' < ?n" "first_wait g (dep_of sm L p k) = Some (fst (L ! j'))" unfolding due_def by blast
      then have "fst (L ! j) = fst (L ! j')" using j(3) by (simp only: option.inject)
      then have "j = j'" using placed_eq [OF L, of j j'] j'(1,2) j(2) by simp
      then show False using j(2) j'(1) by simp
    qed
    then have "\<not> holds (A (Suc q)) b (dep_of sm L p k)" using S [OF q] unfolding bars_inv_def by blast
    then have "bit (wt_bar_mask (in_deps (js ! q))) b" using S [OF q] b(2) unfolding placed_at_def by blast
    then show ?thesis using b(3) k waits_bar_word [OF b6] unfolding waits_for_def bar_of_def by (cases k) auto
  qed
  have "hazard_free sm js"
  proof (rule hazard_free_straight)
    fix q assume q: "q < length js" "is_branch (js ! q)"
    have br: "is_branch (snd (L ! q))" using q same [of q] len same_op_simps(4) by simp
    have "barriers_ok sm (snd (L ! q))" using ok nth_mem [of q L] q(1) len by (auto simp: case_prod_beta)
    then have "\<not> op_needs_scoreboard sm (in_op (js ! q))" using br same [of q] q(1) len by (simp add: barriers_ok_def same_op_def)
    then have "issued sm js q = {}" by (simp add: issued_def)
    moreover have "pending_after_wait js q (pending_straight sm js q) = {}"
      using waits [of q] q len by (auto simp: pending_after_wait_def)
    ultimately show "pending_after_wait js q (pending_straight sm js q) \<union> issued sm js q = {}" by simp
  next
    fix q assume "q < length js"
    then show "\<not> hazard js q (pending_straight sm js q)"
      using waits [of q] len by (auto simp: hazard_def pending_after_wait_def)
  qed
  moreover have "list_all2 same_op js (map snd L)" using same len by (simp add: list_all2_conv_all_nth)
  ultimately show ?thesis using t by blast
qed

subsection \<open>The blocks of a function\<close>

lemma placed_sorted: "placed L \<longleftrightarrow> sorted_wrt loc_less (map fst L)"
  by (auto simp: placed_def sorted_wrt_iff_nth_less)

lemma block_locs_fst: "map fst (block_locs (bi, b)) = map (Pair bi) [0..<length (bb_instrs b)]"
  by (rule nth_equalityI) (simp_all add: block_locs_def nth_enumerate_eq)

lemma block_locs_snd: "map snd (block_locs (bi, b)) = bb_instrs b"
  by (rule nth_equalityI) (simp_all add: block_locs_def nth_enumerate_eq)

definition block_places :: "nat \<Rightarrow> BasicBlock list \<Rightarrow> Loc list" where
  "block_places n bs = map fst (concat (map block_locs (List.enumerate n bs)))"

lemma block_places_simps:
  "block_places n [] = []" "block_places n (b # bs) = map (Pair n) [0..<length (bb_instrs b)] @ block_places (Suc n) bs"
  by (simp_all add: block_places_def block_locs_fst)

lemma block_places_from: "l \<in> set (block_places n bs) \<Longrightarrow> n \<le> fst l"
proof (induction bs arbitrary: n)
  case (Cons b bs)
  show ?case
  proof (cases "l \<in> set (block_places (Suc n) bs)")
    case True
    then show ?thesis using Cons.IH [OF True] by simp
  next
    case False
    then show ?thesis using Cons.prems by (auto simp: block_places_simps)
  qed
qed (simp add: block_places_simps)

lemma placed_blocks: "placed (concat (map block_locs (List.enumerate n bs)))"
  unfolding placed_sorted block_places_def [symmetric]
proof (induction bs arbitrary: n)
  case (Cons b bs)
  have "sorted_wrt loc_less (map (Pair n) [0..<length (bb_instrs b)])"
    by (simp add: sorted_wrt_iff_nth_less loc_less_def)
  moreover have "loc_less k l" if "k \<in> set (map (Pair n) [0..<length (bb_instrs b)])" "l \<in> set (block_places (Suc n) bs)" for k l
    using that(1) block_places_from [OF that(2)] by (auto simp: loc_less_def)
  ultimately show ?case using Cons.IH [of "Suc n"] unfolding block_places_simps sorted_wrt_append by blast
qed (simp add: block_places_simps)

lemma blocks_instrs: "map snd (concat (map block_locs (List.enumerate n bs))) = concat (map bb_instrs bs)"
  by (induction bs arbitrary: n) (simp_all add: block_locs_snd)

text \<open>One pass over the instructions of all blocks is the pass over each block in turn.\<close>

lemma place_blocks:
  assumes "traverseM (place_barriers sm g) (concat (map block_locs (List.enumerate n bs))) s = Some (js, s')"
    and "list_all2 same_op js (concat (map bb_instrs bs))"
  shows "\<exists>bs'. traverseM (place_block sm g) (List.enumerate n bs) s = Some (bs', s') \<and> concat (map bb_instrs bs') = js \<and>
    list_all2 (\<lambda>b' b. bb_label b' = bb_label b \<and> bb_uniform b' = bb_uniform b \<and> list_all2 same_op (bb_instrs b') (bb_instrs b)) bs' bs"
  using assms
proof (induction bs arbitrary: n s js)
  case (Cons b bs)
  obtain as s1 bs1 where t: "traverseM (place_barriers sm g) (block_locs (n, b)) s = Some (as, s1)"
    "traverseM (place_barriers sm g) (concat (map block_locs (List.enumerate (Suc n) bs))) s1 = Some (bs1, s')" "js = as @ bs1"
    using Cons.prems(1) by (auto simp: traverseM_append split: Option.bind_splits)
  have "length (block_locs (n, b)) = length (bb_instrs b)" using block_locs_snd [of n b] by (metis length_map)
  then have len: "length as = length (bb_instrs b)" using traverseM_length [OF t(1)] by simp
  have same: "list_all2 same_op as (bb_instrs b)" "list_all2 same_op bs1 (concat (map bb_instrs bs))"
    using Cons.prems(2) len by (simp_all add: t(3) list_all2_append)
  obtain bs' where r: "traverseM (place_block sm g) (List.enumerate (Suc n) bs) s1 = Some (bs', s')" "concat (map bb_instrs bs') = bs1"
    "list_all2 (\<lambda>b' b. bb_label b' = bb_label b \<and> bb_uniform b' = bb_uniform b \<and> list_all2 same_op (bb_instrs b') (bb_instrs b)) bs' bs"
    using Cons.IH [OF t(2) same(2)] by blast
  have "traverseM (place_block sm g) (List.enumerate n (b # bs)) s = Some (b\<lparr>bb_instrs := as\<rparr> # bs', s')"
    using t(1) r(1) by (simp add: place_block_def)
  then show ?case using r(2,3) same(1) t(3) by (intro exI [of _ "b\<lparr>bb_instrs := as\<rparr> # bs'"]) simp
qed simp

text \<open>
  Property C4.  \<^verbatim>\<open>assign_barriers\<close> on a function after register allocation: suppose the cells of every operand exist,
  no instruction writes a cell twice and no branch needs a scoreboard (\<^term>\<open>barriers_ok\<close>).  Then the pass does not panic,
  debug assertions included; it keeps the blocks and the operation and guard of every instruction; and its result has no
  hazard: on every run, through any fall-through and after any branch to any place, no instruction issues while a write of what it uses or writes,
  or a read of what it writes, is pending.
\<close>

theorem assign_barriers_hazard_free:
  assumes "\<forall>i\<in>set (fn_instrs f). barriers_ok sm i"
  shows "\<exists>bs. assign_barriers sm f = Some (f\<lparr>fn_blocks := (fn_blocks f)\<lparr>cfg_blocks := bs\<rparr>\<rparr>) \<and>
    list_all2 (\<lambda>b' b. bb_label b' = bb_label b \<and> bb_uniform b' = bb_uniform b \<and> list_all2 same_op (bb_instrs b') (bb_instrs b))
      bs (cfg_blocks (fn_blocks f)) \<and>
    hazard_free sm (concat (map bb_instrs bs))"
proof -
  let ?bs = "cfg_blocks (fn_blocks f)"
  let ?L = "concat (map block_locs (List.enumerate 0 ?bs))"
  have ok: "\<forall>(loc, i)\<in>set ?L. barriers_ok sm i"
  proof (clarify)
    fix a b i assume "((a, b), i) \<in> set ?L"
    then have "i \<in> set (map snd ?L)" by force
    then show "barriers_ok sm i" using assms unfolding blocks_instrs fn_instrs_def by blast
  qed
  obtain uses g where w: "foldM (find_waits sm) ?L (\<lambda>_. NoUse, bg_new) = Some (uses, g)" "wait_inv sm ?L (length ?L) (uses, g)"
    using find_waits_all [OF placed_blocks ok] by blast
  obtain js a where p: "traverseM (place_barriers sm g) ?L ba_new = Some (js, a)" "list_all2 same_op js (concat (map bb_instrs ?bs))" "hazard_free sm js"
    using placed_hazard_free [OF placed_blocks ok w(2)] unfolding blocks_instrs by blast
  obtain bs where b: "traverseM (place_block sm g) (List.enumerate 0 ?bs) ba_new = Some (bs, a)" "concat (map bb_instrs bs) = js"
    "list_all2 (\<lambda>b' b. bb_label b' = bb_label b \<and> bb_uniform b' = bb_uniform b \<and> list_all2 same_op (bb_instrs b') (bb_instrs b)) bs ?bs"
    using place_blocks [OF p(1,2)] by blast
  have "assign_barriers sm f = Some (f\<lparr>fn_blocks := (fn_blocks f)\<lparr>cfg_blocks := bs\<rparr>\<rparr>)"
    using w(1) b(1) by (simp add: assign_barriers_def foldM_concat Let_def)
  then show ?thesis using b(2,3) p(3) by blast
qed

lemma fall_barriers_ok: "\<forall>i\<in>set (fn_instrs fall_fn). barriers_ok fall_sm i"
  by code_simp

theorem assign_barriers_hazard_free_witness:
  "\<exists>bs. assign_barriers fall_sm fall_fn = Some (fall_fn\<lparr>fn_blocks := (fn_blocks fall_fn)\<lparr>cfg_blocks := bs\<rparr>\<rparr>) \<and>
    list_all2 (\<lambda>b' b. bb_label b' = bb_label b \<and> bb_uniform b' = bb_uniform b \<and> list_all2 same_op (bb_instrs b') (bb_instrs b))
      bs (cfg_blocks (fn_blocks fall_fn)) \<and>
    hazard_free fall_sm (concat (map bb_instrs bs))"
  by (rule assign_barriers_hazard_free [OF fall_barriers_ok])

end
