(* ===== verification/Spec2Isabelle.thy ===== *)
theory Spec2Isabelle
  imports BitView BitSet Cfg DomLoops Dataflow Regs Liveness UnionFind Operands ParCopy Logic FoldArith FoldShift DceSem OptLop JumpThread ParCopyMachine OptPrmtCorrect SchedTotal BarrierPlaces
begin

text \<open>
  A verification library for coralReef, a GPU shader compiler.

  \<^bold>\<open>The program.\<close>  The crate \<^verbatim>\<open>coral-reef\<close> (\<^verbatim>\<open>src/crates/coral-reef\<close>) translates shaders into an SSA
  intermediate representation (\<^verbatim>\<open>codegen/ir\<close>), runs a pipeline of passes over it
  (\<^verbatim>\<open>codegen/pipeline.rs\<close>: optimisations, legalisation, register allocation, lowering of copies,
  scheduling) and encodes the result for NVIDIA and AMD hardware.  The passes rest on the containers of
  \<^verbatim>\<open>src/crates/coral-reef-stubs\<close> (bit sets, control-flow graphs with dominators, data-flow solvers) and the
  encoders on the bit views of \<^verbatim>\<open>src/crates/coral-reef-bitview\<close>.  A service around the compiler
  (\<^verbatim>\<open>src/crates/coralreef-core\<close>) speaks JSON-RPC.  The library models the compiler's own logic, from the
  containers up to whole passes, and composes passes where one consumes what another emits.

  \<^bold>\<open>Conventions\<close> (theory \<^verbatim>\<open>Prelude\<close>).  A \<^verbatim>\<open>u8\<close> ... \<^verbatim>\<open>u64\<close> is a word of its width; a
  \<^verbatim>\<open>usize\<close> that counts or indexes memory is a \<^typ>\<open>nat\<close>, with the modulus written out where the source
  wraps.  \<^const>\<open>None\<close> is the panic of a function that can panic: a failed \<^verbatim>\<open>assert!\<close> or \<^verbatim>\<open>expect\<close>, an
  index out of range, an arithmetic overflow, as in a build with \<^verbatim>\<open>debug_assertions\<close>.  Where Rust's own
  result is an \<^verbatim>\<open>Option\<close> and the function can panic too, the outer option is the panic.  \<^verbatim>\<open>&mut\<close>
  arguments are returned updated, closures are function arguments, hash maps are maps (and where a pass
  iterates over one, the order is a parameter).  Loops whose end depends on the data are
  \<^verbatim>\<open>partial_function (option)\<close>, so that not returning is \<^const>\<open>None\<close> too, and a claim that a function
  returns \<^const>\<open>Some\<close> is a claim of termination and of absence of panics.  The collections
  \<^verbatim>\<open>panic_simps\<close> and \<^verbatim>\<open>foldM\<close> lemmas carry the reasoning about failing steps.

  \<^bold>\<open>Containers.\<close>
  \<^item> \<^verbatim>\<open>BitView\<close>: \<^verbatim>\<open>coral-reef-bitview/src/lib.rs\<close>.  The traits \<^verbatim>\<open>BitViewable\<close> and \<^verbatim>\<open>BitMutViewable\<close>
    are the locale \<^verbatim>\<open>bit_view\<close>, interpreted on word slices, single words and the subset view; a field
    written reads back and no other bit changes.
  \<^item> \<^verbatim>\<open>BitSet\<close>: \<^verbatim>\<open>bitset.rs\<close>; the abstraction function is the set of elements, the interface the locale
    \<^verbatim>\<open>index_set\<close>, interpreted on the operators that build a new set and on those that update in place.
  \<^item> \<^verbatim>\<open>Cfg\<close>: \<^verbatim>\<open>cfg/{types,builder,ops,traverse}.rs\<close>; edge lists that mirror each other as the invariant, and
    the reverse post-order, a depth-first search whose call depth is bounded by the number of blocks.
  \<^item> \<^verbatim>\<open>Dominators\<close>, \<^verbatim>\<open>DomExact\<close>, \<^verbatim>\<open>DomLoops\<close>: \<^verbatim>\<open>cfg/dom.rs\<close>.  The specification of dominance is by
    paths.  The Cooper-Harvey-Kennedy iteration asserts that it ends within 1000 passes; it is shown to end
    after at most as many passes as there are targets of retreating edges, plus one, and the analysis to
    return on every graph below that bound, with the exact relation, immediate dominators, pre-order
    intervals and loop depths.
  \<^item> \<^verbatim>\<open>Dataflow\<close>: \<^verbatim>\<open>dataflow.rs\<close>, the worklist solvers; the locale \<^verbatim>\<open>dataflow\<close> states when they return the
    least fixed point and is interpreted by \<^verbatim>\<open>Liveness\<close> on bit sets.
  \<^item> \<^verbatim>\<open>UnionFind\<close>: \<^verbatim>\<open>codegen/union_find.rs\<close>, against the equivalence closure of the unions, with the
    logarithmic height.

  \<^bold>\<open>The intermediate representation.\<close>
  \<^item> \<^verbatim>\<open>Regs\<close>: \<^verbatim>\<open>ir/regs.rs\<close>, \<^verbatim>\<open>ssa_value.rs\<close>: packed registers, SSA values and references, the allocator.
  \<^item> \<^verbatim>\<open>Operands\<close>: \<^verbatim>\<open>ir/src.rs\<close>, \<^verbatim>\<open>ir/src_dst.rs\<close>, \<^verbatim>\<open>ir/pred.rs\<close>: sources with modifiers, and their folding.
  \<^item> \<^verbatim>\<open>Logic\<close>: \<^verbatim>\<open>ir/types/{cmp,scalar}.rs\<close> and the selectors of \<^verbatim>\<open>ir/op_shuffle.rs\<close>.
  \<^item> \<^verbatim>\<open>Ir\<close>: \<^verbatim>\<open>ir/{op,instr,program}.rs\<close>, \<^verbatim>\<open>ir/op_misc\<close>.  The operations that a modelled pass looks into are
    constructors of their own; every other variant of \<^verbatim>\<open>Op\<close> is an opcode with its operand slices, which is
    all the passes see of it.
  \<^item> \<^verbatim>\<open>Fold\<close>, \<^verbatim>\<open>FoldArith\<close>, \<^verbatim>\<open>FoldShift\<close>: the constant folder (\<^verbatim>\<open>ir/fold.rs\<close>, the \<^verbatim>\<open>Foldable\<close> impls of
    \<^verbatim>\<open>ir/op_int\<close> and \<^verbatim>\<open>ir/op_shuffle.rs\<close>), shown to be 64-bit arithmetic over the carry chains.

  \<^bold>\<open>Passes.\<close>
  \<^item> \<^verbatim>\<open>Liveness\<close>: \<^verbatim>\<open>liveness.rs\<close>; the analysis returns on every function, with exactly the values that have
    a path to a use; register pressure in a block.
  \<^item> \<^verbatim>\<open>OptDce\<close>, \<^verbatim>\<open>DceSem\<close>: \<^verbatim>\<open>opt_dce.rs\<close>.  Semantics of operations are a parameter (the record \<^verbatim>\<open>Sem\<close>)
    under named conditions; the pass is a simulation for all of them.
  \<^item> \<^verbatim>\<open>OptLop\<close>: \<^verbatim>\<open>opt_lop.rs\<close>, which keeps the equations between values that logic operations state; its
    recursion over sources is bounded by the order of definitions.
  \<^item> \<^verbatim>\<open>OptPrmt\<close>, \<^verbatim>\<open>OptPrmtCorrect\<close>: \<^verbatim>\<open>opt_prmt.rs\<close>, the folding of byte permutations into each other; the
    value of every permutation is kept.
  \<^item> \<^verbatim>\<open>JumpThread\<close>: \<^verbatim>\<open>opt_jump_thread.rs\<close> and \<^verbatim>\<open>opt_crs.rs\<close>, which keep the exits reached from every block.
  \<^item> \<^verbatim>\<open>ParCopy\<close>: \<^verbatim>\<open>lower_par_copies.rs\<close>, parallel copies to sequences of copies and swaps.
  \<^item> \<^verbatim>\<open>CopySwap\<close>, \<^verbatim>\<open>CopySwapCorrect\<close>: \<^verbatim>\<open>lower_copy_swap.rs\<close>, copies and swaps to machine operations by
    register file, with the spill slots in local memory; the operations run on a small machine (registers
    and local memory of one thread).
  \<^item> \<^verbatim>\<open>ParCopyMachine\<close>: the two passes together.  Every copy the first emits is accepted by the second, so
    parallel copies are performed by the machine.
  \<^item> \<^verbatim>\<open>Sched\<close>, \<^verbatim>\<open>SchedOrder\<close>, \<^verbatim>\<open>SchedDeps\<close>, \<^verbatim>\<open>SchedRun\<close>, \<^verbatim>\<open>SchedTotal\<close>: scheduling after register
    allocation (\<^verbatim>\<open>opt_instr_sched_common.rs\<close>, \<^verbatim>\<open>opt_instr_sched_postpass.rs\<close>, \<^verbatim>\<open>reg_tracker.rs\<close>).  The list
    scheduler returns a permutation along the edges of the graph, the graph has a path for every tracked
    dependency, reordered instructions commute on every machine that confines them to their operands, and
    the loops return while twice the latency bound times the number of instructions fits 32 bits.  The
    heap is used through the locale \<^verbatim>\<open>max_queue\<close>.  A write of a guard behind the guarded instruction is not
    tracked, which the example of \<^verbatim>\<open>guard_war_lost\<close> shows.
  \<^item> \<^verbatim>\<open>Scoreboard\<close>, \<^verbatim>\<open>Barriers\<close>, \<^verbatim>\<open>BarrierWaits\<close>, \<^verbatim>\<open>BarrierPlaces\<close>: the scoreboard barriers of
    \<^verbatim>\<open>calc_instr_deps\<close>.  The specification is a step relation of the hardware (an instruction with a scoreboard leaves
    its accesses pending, attached to the barriers it names; waiting for a barrier ends what is attached to
    it), and freedom from hazards on all runs.  \<^verbatim>\<open>assign_barriers\<close> (dependency graph, six barriers taken from the
    oldest access when none is free) achieves it for whole functions; \<^verbatim>\<open>assign_deps_serial\<close>, which the pipeline
    runs before the scheduler, for single blocks in whatever order they are scheduled, but not across a fall-through
    (\<^verbatim>\<open>serial_fall_through_hazard\<close>).

  \<^bold>\<open>Not modelled.\<close>  Floating point and its lowering (no semantics of the hardware's approximations is in the
  sources); the translation from \<^verbatim>\<open>naga\<close> (third-party IR); the instruction encoders, latency tables and the
  generated AMD tables (constants); register assignment and spilling; scheduling before register
  allocation; the texture barriers and the instruction delays of \<^verbatim>\<open>calc_instr_deps\<close>; the asynchronous service;
  \<^verbatim>\<open>Display\<close> and \<^verbatim>\<open>Debug\<close> impls.  The drivers that map a pass over the functions of a shader are modelled where
  the pass carries state from one function to the next.
\<close>

end
